(* ===== verification/Prelude.thy ===== *)
theory Prelude
  imports Main "HOL-Library.Word"
begin

text \<open>
  Shared vocabulary of the development: octets and octet strings (Node buffers), JavaScript
  strings as lists of UTF-16 code units, results with typed errors, slices, big-endian numbers,
  and the arithmetic reading of the bit operations the codecs use.  A JavaScript Number that the
  code uses as a non-negative integer is a \<open>nat\<close>; a buffer element is an \<open>8 word\<close> that the code
  reads with \<open>unat\<close> and stores with \<open>word_of_nat\<close> (which keeps the low eight bits, as an
  assignment to a buffer slot does).
\<close>

unbundle bit_operations_syntax

named_theorems byte_arith "bit operations on numbers, read as arithmetic"
named_theorems total_intros "rules that follow the statements of a body, to show it never returns a given error"
named_theorems res_simps "sequencing of results with errors"

type_synonym byte = "8 word"
type_synonym bytes = "byte list"
type_synonym jsstr = "nat list"

section \<open>Results\<close>

text \<open>A throw is \<open>Inl\<close> of the error; \<open>bindR\<close> is the sequencing of two statements that may throw.\<close>

fun bindR :: "'e + 'a \<Rightarrow> ('a \<Rightarrow> 'e + 'b) \<Rightarrow> 'e + 'b" where
  "bindR (Inl e) f = Inl e"
| "bindR (Inr x) f = f x"

fun isInr :: "'e + 'a \<Rightarrow> bool" where
  "isInr (Inl e) = False"
| "isInr (Inr x) = True"

lemma bindR_eq_Inr [res_simps]: "bindR m f = Inr y \<longleftrightarrow> (\<exists>x. m = Inr x \<and> f x = Inr y)"
  by (cases m) auto

lemma bindR_eq_Inl [res_simps]: "bindR m f = Inl e \<longleftrightarrow> m = Inl e \<or> (\<exists>x. m = Inr x \<and> f x = Inl e)"
  by (cases m) auto

lemma bindR_cong [fundef_cong]:
  "m = m' \<Longrightarrow> (\<And>x. m' = Inr x \<Longrightarrow> f x = f' x) \<Longrightarrow> bindR m f = bindR m' f'"
  by (cases m') auto

lemma bindR_InrE:
  assumes "bindR m f = Inr y"
  obtains x where "m = Inr x" and "f x = Inr y"
  using assms by (cases m) auto

lemma if_Inl_eq_Inr [res_simps]: "(if c then Inl e else m) = Inr y \<longleftrightarrow> \<not> c \<and> m = Inr y"
  by simp

lemma isInr_iff: "isInr r \<longleftrightarrow> (\<exists>x. r = Inr x)"
  by (cases r) auto

text \<open>
  The rules of \<open>total_intros\<close> walk through a body: \<open>intro total_intros\<close> reduces \<open>body \<noteq> Inl e\<close> to the
  same claim about each statement of it, under the conditions that lead there.
\<close>

lemma bindR_neq [total_intros]:
  "m \<noteq> Inl e \<Longrightarrow> (\<And>x. m = Inr x \<Longrightarrow> f x \<noteq> Inl e) \<Longrightarrow> bindR m f \<noteq> Inl e"
  by (cases m) auto

lemma if_neq [total_intros]: "(c \<Longrightarrow> a \<noteq> x) \<Longrightarrow> (\<not> c \<Longrightarrow> b \<noteq> x) \<Longrightarrow> (if c then a else b) \<noteq> x"
  by simp

lemma Let_neq [total_intros]: "(\<And>v. v = a \<Longrightarrow> f v \<noteq> x) \<Longrightarrow> Let a f \<noteq> x"
  by simp

lemma case_prod_neq [total_intros]: "(\<And>a b. p = (a, b) \<Longrightarrow> f a b \<noteq> x) \<Longrightarrow> (case p of (a, b) \<Rightarrow> f a b) \<noteq> x"
  by (cases p) simp

lemma case_option_neq [total_intros]:
  "(v = None \<Longrightarrow> a \<noteq> x) \<Longrightarrow> (\<And>y. v = Some y \<Longrightarrow> f y \<noteq> x) \<Longrightarrow> (case v of None \<Rightarrow> a | Some y \<Rightarrow> f y) \<noteq> x"
  by (cases v) auto

text \<open>Mapping a fallible function over a list, left to right, stopping at the first throw.\<close>

fun mapR :: "('a \<Rightarrow> 'e + 'b) \<Rightarrow> 'a list \<Rightarrow> 'e + 'b list" where
  "mapR f [] = Inr []"
| "mapR f (x # xs) = bindR (f x) (\<lambda>y. bindR (mapR f xs) (\<lambda>ys. Inr (y # ys)))"

lemma list_all_id_map [simp]: "list_all id (map f xs) \<longleftrightarrow> (\<forall>x \<in> set xs. f x)"
  by (induction xs) auto

lemma mapR_length: "mapR f xs = Inr ys \<Longrightarrow> length ys = length xs"
  by (induction xs arbitrary: ys) (auto simp: res_simps)

lemma mapR_Inr: "(\<And>x. x \<in> set xs \<Longrightarrow> f x = Inr (g x)) \<Longrightarrow> mapR f xs = Inr (map g xs)"
  by (induction xs) auto

lemma mapR_Inr_iff: "mapR f xs = Inr ys \<longleftrightarrow> list_all2 (\<lambda>x y. f x = Inr y) xs ys"
  by (induction xs arbitrary: ys) (auto simp: res_simps list_all2_Cons1)

lemma mapR_source: "mapR f xs = Inr ys \<Longrightarrow> y \<in> set ys \<Longrightarrow> \<exists>x \<in> set xs. f x = Inr y"
  by (induction xs arbitrary: ys) (auto simp: bindR_eq_Inr)

lemma mapR_cong [fundef_cong]:
  "xs = ys \<Longrightarrow> (\<And>x. x \<in> set ys \<Longrightarrow> f x = g x) \<Longrightarrow> mapR f xs = mapR g ys"
proof (induction xs arbitrary: ys)
  case (Cons x xs)
  then obtain zs where ys: "ys = x # zs" and zs: "xs = zs" by auto
  have "mapR f xs = mapR g zs" using Cons.prems(2) by (intro Cons.IH) (auto simp: ys zs)
  then show ?case using Cons.prems(2)[of x] by (simp add: ys)
qed simp

section \<open>Slices of a buffer\<close>

text \<open>\<open>buf.subarray(i, j)\<close> for \<open>i \<le> j \<le> length\<close>.\<close>

definition slice :: "'a list \<Rightarrow> nat \<Rightarrow> nat \<Rightarrow> 'a list" where
  "slice xs i j = take (j - i) (drop i xs)"

lemma length_slice [simp]: "length (slice xs i j) = min (j - i) (length xs - i)"
  by (simp add: slice_def min.commute)

lemma slice_self [simp]: "slice xs i i = []"
  by (simp add: slice_def)

lemma slice_full [simp]: "slice xs 0 (length xs) = xs"
  by (simp add: slice_def)

lemma slice_append: "i \<le> j \<Longrightarrow> j \<le> k \<Longrightarrow> slice xs i j @ slice xs j k = slice xs i k"
proof -
  assume ij: "i \<le> j" and jk: "j \<le> k"
  have k: "k - i = (j - i) + (k - j)" using ij jk by simp
  show ?thesis unfolding slice_def k take_add using ij by simp
qed

lemma slice_cons: "i < j \<Longrightarrow> i < length xs \<Longrightarrow> slice xs i j = xs ! i # slice xs (Suc i) j"
  by (simp add: slice_def Cons_nth_drop_Suc[symmetric] Suc_diff_Suc[symmetric] del: Suc_diff_Suc)

lemma nth_slice: "i + k < j \<Longrightarrow> j \<le> length xs \<Longrightarrow> slice xs i j ! k = xs ! (i + k)"
  by (simp add: slice_def)

lemma slice_append_left: "slice (xs @ ys) (length xs) (length xs + n) = take n ys"
  by (simp add: slice_def)

lemma slice_mid: "slice (xs @ ys @ zs) (length xs) (length xs + length ys) = ys"
  by (simp add: slice_def)

section \<open>Bit operations, read as arithmetic\<close>

lemma unat_byte_lt [simp]: "unat (b::byte) < 256"
  using unsigned_less[of b] by simp

lemma unat_byte_le [simp]: "unat (b::byte) \<le> 255"
  using unat_byte_lt[of b] by linarith

lemma unat_of_nat_byte [simp]: "unat (word_of_nat n :: byte) = n mod 256"
  by (simp add: unat_of_nat)

lemma of_nat_mod_256: "(word_of_nat (n mod 256) :: byte) = word_of_nat n"
  by (rule word_unat_eq_iff[THEN iffD2]) simp

lemma word_of_nat_unat_byte: "(word_of_nat (unat b) :: byte) = b"
  by simp

lemma nat_and_mask: "(n::nat) AND mask k = n mod 2 ^ k"
  by (simp flip: take_bit_eq_mask take_bit_eq_mod)

lemma nat_and_7f [byte_arith]: "(n::nat) AND 0x7F = n mod 128"
  using nat_and_mask[of n 7] by (simp add: mask_eq_exp_minus_1)

lemma nat_and_1f [byte_arith]: "(n::nat) AND 0x1F = n mod 32"
  using nat_and_mask[of n 5] by (simp add: mask_eq_exp_minus_1)

lemma nat_and_ff [byte_arith]: "(n::nat) AND 0xFF = n mod 256"
  using nat_and_mask[of n 8] by (simp add: mask_eq_exp_minus_1)

lemma nat_and_exp: "(n::nat) AND 2 ^ k = 0 \<longleftrightarrow> even (n div 2 ^ k)"
  by (simp add: and_exp_eq_0_iff_not_bit bit_iff_odd)

lemma nat_and_80 [byte_arith]: "(n::nat) AND 0x80 = 0 \<longleftrightarrow> even (n div 128)"
  using nat_and_exp[of n 7] by simp

lemma nat_and_80_byte: "(n::nat) < 256 \<Longrightarrow> n AND 0x80 = 0 \<longleftrightarrow> n < 128"
proof -
  assume "n < 256"
  then have "n div 128 < 2" by (simp add: less_mult_imp_div_less)
  then have "even (n div 128) \<longleftrightarrow> n div 128 = 0" by (cases "n div 128") auto
  then show ?thesis by (simp add: nat_and_80 div_eq_0_iff)
qed

lemma nat_and_20 [byte_arith]: "(n::nat) AND 0x20 = 0 \<longleftrightarrow> even (n div 32)"
  using nat_and_exp[of n 5] by simp

lemma nat_and_hi:
  assumes n: "(n::nat) < 2 ^ (k + m)"
  shows "n AND (mask m * 2 ^ k) = n div 2 ^ k * 2 ^ k"
proof -
  have "n AND (mask m * 2 ^ k) = push_bit k (drop_bit k n AND mask m)"
    by (rule bit_eqI) (auto simp add: bit_simps push_bit_eq_mult[symmetric])
  also have "drop_bit k n AND mask m = drop_bit k n"
    using n by (simp add: nat_and_mask drop_bit_eq_div less_mult_imp_div_less power_add mult.commute)
  finally show ?thesis by (simp add: push_bit_eq_mult drop_bit_eq_div)
qed

lemma nat_and_c0: "(n::nat) < 256 \<Longrightarrow> n AND 0xC0 = n div 64 * 64"
  using nat_and_hi[of n 6 2] by (simp add: mask_eq_exp_minus_1)

lemma nat_bit_less:
  assumes "(b::nat) < 2 ^ k" and "k \<le> n"
  shows "\<not> bit b n"
proof -
  have "b < 2 ^ n" using assms by (meson less_le_trans one_le_numeral power_increasing)
  then show ?thesis by (simp add: bit_iff_odd)
qed

lemma nat_or_low: "(b::nat) < 2 ^ k \<Longrightarrow> (a * 2 ^ k) OR b = a * 2 ^ k + b"
  by (rule disjunctive_add_eq_or[symmetric], rule bit_eqI)
    (auto simp: bit_simps push_bit_eq_mult[symmetric] dest: nat_bit_less)

lemma nat_or_80 [byte_arith]: "(b::nat) < 128 \<Longrightarrow> 0x80 OR b = 128 + b"
  using nat_or_low[of b 7 1] by simp

lemma nat_or_80' [byte_arith]: "(b::nat) < 128 \<Longrightarrow> b OR 0x80 = b + 128"
  using nat_or_80[of b] by (simp only: or.commute add.commute)

section \<open>Big-endian numbers\<close>

definition be_val :: "bytes \<Rightarrow> nat" where
  "be_val bs = foldl (\<lambda>v b. v * 256 + unat b) 0 bs"

fun be_bytes :: "nat \<Rightarrow> nat \<Rightarrow> bytes" where
  "be_bytes 0 v = []"
| "be_bytes (Suc n) v = be_bytes n (v div 256) @ [word_of_nat v]"

lemma be_val_Nil [simp]: "be_val [] = 0"
  by (simp add: be_val_def)

lemma be_val_snoc [simp]: "be_val (bs @ [b]) = be_val bs * 256 + unat b"
  by (simp add: be_val_def)

lemma length_be_bytes [simp]: "length (be_bytes n v) = n"
  by (induction n arbitrary: v) auto

lemma be_val_be_bytes: "be_val (be_bytes n v) = v mod 256 ^ n"
proof (induction n arbitrary: v)
  case (Suc n)
  have "v mod 256 ^ Suc n = v div 256 mod 256 ^ n * 256 + v mod 256"
    by (simp add: mod_mult2_eq mult.commute)
  then show ?case by (simp add: Suc)
qed simp

lemma be_val_be_bytes_id [simp]: "v < 256 ^ n \<Longrightarrow> be_val (be_bytes n v) = v"
  by (simp add: be_val_be_bytes)

lemma be_bytes_be_val: "be_bytes (length bs) (be_val bs) = bs"
proof (induction bs rule: rev_induct)
  case (snoc b bs)
  have d: "(be_val bs * 256 + unat b) div 256 = be_val bs" by simp
  have m: "(word_of_nat (be_val bs * 256 + unat b) :: byte) = b"
    by (rule word_unat_eq_iff[THEN iffD2], unfold unat_of_nat_byte) simp
  show ?case by (simp add: snoc d m del: of_nat_add of_nat_mult)
qed simp

lemma be_val_bound: "be_val bs < 256 ^ length bs"
proof (induction bs rule: rev_induct)
  case (snoc b bs)
  have "be_val bs * 256 + unat b < (be_val bs + 1) * 256" by simp
  also have "\<dots> \<le> 256 ^ length bs * 256" using snoc by (intro mult_right_mono) auto
  finally show ?case by simp
qed simp

lemma be_val_append: "be_val (xs @ ys) = be_val xs * 256 ^ length ys + be_val ys"
proof (induction ys rule: rev_induct)
  case (snoc y ys)
  then show ?case by (simp flip: append_assoc add: algebra_simps)
qed simp

lemma be_val_Cons: "be_val (b # bs) = unat b * 256 ^ length bs + be_val bs"
  using be_val_append[of "[b]" bs] be_val_snoc[of "[]" b] by simp

lemma be_val_inject: "length xs = length ys \<Longrightarrow> be_val xs = be_val ys \<Longrightarrow> xs = ys"
  by (metis be_bytes_be_val)

end
