(* ===== verification/Values.thy ===== *)
theory Values
  imports Prelude
begin

text \<open>
  The JavaScript values that the guards and builders receive before they have checked a type,
  and the errors the modelled modules throw.  \<open>Num\<close> is a Number with an integral value,
  \<open>NonInt\<close> any other Number (a fraction, NaN, an infinity), \<open>Big\<close> a BigInt.

  Errors follow lib/framework-error.js: one class per domain, each carrying a stable
  \<open>domain/reason\<close> code.  The constructors below are the codes, grouped by class; messages are
  not modelled.  \<open>TypeErr\<close> and \<open>RangeErr\<close> are the language's own TypeError and RangeError,
  \<open>PlainErr\<close> is \<open>new Error(..)\<close>, \<open>BudgetExceeded\<close> the marker error of lib/guard-limits.js.
\<close>

datatype js = Undef | Null | Bool bool | Num int | NonInt | Big int | Str jsstr | Buf bytes
  | Arr "js list" | Obj

datatype asn1_code =
    Asn1_not_buffer | Asn1_too_large | Asn1_trailing_bytes | Asn1_too_many_items | Asn1_too_deep
  | Asn1_truncated | Asn1_non_minimal_tag | Asn1_tag_too_large | Asn1_reserved_tag | Asn1_bad_tlv
  | Asn1_constructed_primitive_type | Asn1_bad_constructed_string | Asn1_indefinite_length
  | Asn1_length_too_large | Asn1_non_minimal_length | Asn1_unexpected_tag | Asn1_expected_primitive
  | Asn1_bad_boolean | Asn1_bad_integer | Asn1_integer_too_large | Asn1_non_minimal_integer
  | Asn1_bad_bit_string | Asn1_bad_null | Asn1_bad_ia5_string | Asn1_bad_visible_string
  | Asn1_bad_printable_string | Asn1_bad_numeric_string | Asn1_bad_utf8_string
  | Asn1_expected_string | Asn1_bad_bmp_string | Asn1_bad_universal_string | Asn1_expected_time
  | Asn1_bad_utctime | Asn1_bad_generalizedtime | Asn1_bad_time | Asn1_bad_length | Asn1_bad_tag
  | Asn1_bad_string | Asn1_bad_children

datatype oid_code =
    Oid_bad_input | Oid_empty | Oid_non_minimal | Oid_subidentifier_too_large
  | Oid_too_many_subidentifiers | Oid_truncated | Oid_bad_arc

datatype cbor_code =
    Cbor_not_buffer | Cbor_too_large | Cbor_too_deep | Cbor_too_many_items | Cbor_truncated
  | Cbor_unexpected_break | Cbor_reserved_ai | Cbor_indefinite_length | Cbor_non_minimal_argument
  | Cbor_bad_utf8 | Cbor_unsorted_map_keys | Cbor_duplicate_map_key | Cbor_reserved_simple
  | Cbor_non_canonical_nan | Cbor_non_minimal_float | Cbor_trailing_bytes | Cbor_unexpected_major
  | Cbor_unexpected_tag | Cbor_bad_simple | Cbor_bad_tag_content | Cbor_biguint_too_large
  | Cbor_non_minimal_biguint | Cbor_bad_time | Cbor_bad_item | Cbor_bad_argument

datatype merkle_code =
    Merkle_bad_input | Merkle_bad_hash_length | Merkle_bad_proof | Merkle_proof_too_large
  | Merkle_too_many_leaves | Merkle_empty_tree | Merkle_index_out_of_range
  | Merkle_bad_proof_length | Merkle_old_size_exceeds_new | Merkle_no_consistency_claim
  | Merkle_sizes_equal_nonempty_proof | Merkle_empty_consistency_proof

datatype path_code =
    Path_bad_input | Path_extension_not_critical | Path_name_constraint_excluded
  | Path_name_constraint_unsupported | Path_name_constraint_not_permitted | Path_bad_policy
  | Path_policy_tree_cap | Path_policy_required | Path_bad_extension_value
  | Path_eku_not_permitted | Path_bad_name_constraints | Path_bad_basic_constraints
  | Path_not_a_ca | Path_path_length_exceeded | Path_bad_key_usage | Path_missing_key_cert_sign
  | Path_name_chaining | Path_not_yet_valid | Path_expired | Path_weak_key | Path_bad_signature
  | Path_compromised_key | Path_distrusted_key | Path_revoked | Path_revocation_undetermined
  | Path_revocation_checker_error | Path_empty_subject | Path_unrecognized_critical
  | Path_distrusted_after | Path_purpose_not_trusted | Path_composite_key_usage | Path_hbs_key_usage
  | Path_kem_key_usage | Path_tls_feature_not_offered | Path_bad_tls_feature | Path_empty_path
  | Path_unsupported_algorithm | Path_ct_required | Path_ct_policy_not_met | Path_identity_mismatch
  | Path_bad_idp

datatype identity_code =
    Identity_bad_input | Identity_bad_reference | Identity_unsupported_reference
  | Identity_too_many_references | Identity_too_many_names

datatype tuf_code =
    Tuf_bad_input | Tuf_too_deep | Tuf_too_large | Tuf_bad_json | Tuf_duplicate_member | Tuf_bad_key
  | Tuf_unsupported_key | Tuf_unsupported_spec_version | Tuf_bad_metadata | Tuf_bad_signature | Tuf_expired
  | Tuf_root_unsigned | Tuf_bad_root_version

datatype webcrypto_code = Webcrypto_not_supported | Webcrypto_data | Webcrypto_operation

text \<open>
  \<open>Coded d n\<close> is the error of a caller-supplied factory: several guards and byte cursors are
  handed the error class and the code of their caller and raise whatever they were handed.
  \<open>OutOfFuel\<close> is no error of the code: it marks a recursion of the model that was given too
  little fuel, and the totality theorems show that no decode reaches it.
\<close>

datatype err =
    TypeErr | RangeErr | PlainErr | BudgetExceeded | OutOfFuel
  | ConstantsE | Asn1E asn1_code | OidE oid_code | CborE cbor_code | MerkleE merkle_code
  | PathE path_code | IdentityE identity_code | TufE tuf_code | WebcryptoE webcrypto_code | Coded nat nat

type_synonym 'a res = "err + 'a"

section \<open>Number tests of the language\<close>

definition max_safe :: int where
  "max_safe = 9007199254740991"

definition is_safe_integer :: "int \<Rightarrow> bool" where
  "is_safe_integer n \<longleftrightarrow> \<bar>n\<bar> \<le> max_safe"

text \<open>\<open>n | 0\<close>: the conversion to a signed 32-bit integer.\<close>

definition to_int32 :: "int \<Rightarrow> int" where
  "to_int32 n = (n + 2 ^ 31) mod 2 ^ 32 - 2 ^ 31"

text \<open>A string literal of the source.\<close>

definition js_lit :: "string \<Rightarrow> jsstr" where
  "js_lit s = map of_char s"

section \<open>Options objects\<close>

text \<open>An options object is the list of its own properties; \<open>assertKnownKeys\<close> (lib/guard-identifier.js)
  refuses a name outside the verb's table before any option is read.\<close>

type_synonym bag = "(string \<times> js) list"

definition option_of :: "bag \<Rightarrow> string \<Rightarrow> js" where
  "option_of b k = (case map_of b k of None \<Rightarrow> Undef | Some v \<Rightarrow> v)"

definition assertKnownKeys :: "bag \<Rightarrow> string list \<Rightarrow> err \<Rightarrow> unit res" where
  "assertKnownKeys b known e = (if \<exists>k \<in> set (map fst b). k \<notin> set known then Inl e else Inr ())"

end
