(* ===== verification/Limits.thy ===== *)
theory Limits
  imports Values
begin

text \<open>
  lib/constants.js, lib/guard-limits.js and lib/guard-range.js: the scale helpers and the caps of
  the toolkit, the validators of caller-supplied caps, the item counter and the latching byte
  budget of a parse, the deadline, and the integer-range guards.
\<close>

section \<open>lib/constants.js\<close>

text \<open>A scale helper takes a finite number \<open>\<ge> 0\<close>; the factors are integers, so for an integral
  argument \<open>Math.round\<close> of the product is the product.  A fractional argument is outside the
  model (\<open>NonInt\<close> stands for NaN and the infinities here as well) and is refused.\<close>

definition positive :: "js \<Rightarrow> int res" where
  "positive v = (case v of Num n \<Rightarrow> if n < 0 then Inl ConstantsE else Inr n | _ \<Rightarrow> Inl ConstantsE)"

definition scale :: "js \<Rightarrow> int \<Rightarrow> int res" where
  "scale v factor = bindR (positive v) (\<lambda>n.
     let out = n * factor in
     if \<not> is_safe_integer out then Inl ConstantsE else Inr out)"

definition time_seconds :: "js \<Rightarrow> int res" where
  "time_seconds v = scale v 1000"

definition time_days :: "js \<Rightarrow> int res" where
  "time_days v = scale v (24 * 60 * 60 * 1000)"

definition bytes_kib :: "js \<Rightarrow> int res" where
  "bytes_kib v = scale v 1024"

definition bytes_mib :: "js \<Rightarrow> int res" where
  "bytes_mib v = scale v (1024 * 1024)"

definition DER_MAX_BYTES :: nat where "DER_MAX_BYTES = 16 * 1024 * 1024"
definition DER_MAX_DEPTH :: nat where "DER_MAX_DEPTH = 64"
definition DER_MAX_ITEMS :: nat where "DER_MAX_ITEMS = 4000000"
definition MAX_DECODE_DEPTH_CEILING :: nat where "MAX_DECODE_DEPTH_CEILING = 256"
definition DER_MAX_INTEGER_BYTES :: nat where "DER_MAX_INTEGER_BYTES = 16 * 1024"
definition OID_MAX_SUBIDENTIFIER_BYTES :: nat where "OID_MAX_SUBIDENTIFIER_BYTES = 32"
definition OID_MAX_SUBIDENTIFIERS :: nat where "OID_MAX_SUBIDENTIFIERS = 128"
definition CBOR_MAX_BYTES :: nat where "CBOR_MAX_BYTES = 16 * 1024 * 1024"
definition CBOR_MAX_DEPTH :: nat where "CBOR_MAX_DEPTH = 64"
definition CBOR_MAX_BIGUINT_BYTES :: nat where "CBOR_MAX_BIGUINT_BYTES = 16 * 1024"
definition CBOR_MAX_ITEMS :: nat where "CBOR_MAX_ITEMS = 1000000"
definition MERKLE_MAX_PROOF_NODES :: nat where "MERKLE_MAX_PROOF_NODES = 65"
definition MERKLE_MAX_LEAVES :: nat where "MERKLE_MAX_LEAVES = 1048576"
definition PATH_MAX_POLICY_NODES :: nat where "PATH_MAX_POLICY_NODES = 4096"
definition BER_MAX_STRING_NESTING :: nat where "BER_MAX_STRING_NESTING = 8"

lemma scale_Inr: "scale v f = Inr n \<Longrightarrow> 0 \<le> f \<Longrightarrow> 0 \<le> n \<and> n \<le> max_safe"
  by (auto simp: scale_def positive_def res_simps Let_def is_safe_integer_def
      split: js.splits if_splits)

section \<open>lib/guard-limits.js\<close>

text \<open>
  \<open>cap(value, key, dflt, opts)\<close>: the bounds \<open>opts.min\<close> and \<open>opts.max\<close> are passed as the values the
  options object holds, and \<open>opts.E\<close>, where there is one, as the error it raises.
\<close>

definition cap :: "js \<Rightarrow> int \<Rightarrow> js \<Rightarrow> js \<Rightarrow> err option \<Rightarrow> int res" where
  "cap value dflt rawMin rawMax E =
     (if value = Undef then Inr dflt
      else
        let mn = (if rawMin = Undef then Num 0 else rawMin);
            hasMax = (rawMax \<noteq> Undef)
        in case mn of
             Num lo \<Rightarrow>
               if hasMax \<and> (case rawMax of Num _ \<Rightarrow> False | _ \<Rightarrow> True) then Inl TypeErr
               else (case value of
                       Num n \<Rightarrow>
                         if n < lo \<or> (hasMax \<and> (case rawMax of Num hi \<Rightarrow> hi < n | _ \<Rightarrow> False))
                         then Inl (case E of Some e \<Rightarrow> e | None \<Rightarrow> TypeErr)
                         else Inr n
                     | _ \<Rightarrow> Inl (case E of Some e \<Rightarrow> e | None \<Rightarrow> TypeErr))
           | _ \<Rightarrow> Inl TypeErr)"

definition depthCap :: "js \<Rightarrow> int \<Rightarrow> int res" where
  "depthCap value dflt = bindR (cap value dflt Undef Undef None) (\<lambda>n.
     if n > int MAX_DECODE_DEPTH_CEILING then Inl TypeErr else Inr n)"

text \<open>The counter closure: its private count is the state, \<open>tick\<close> its one operation that
  changes it.\<close>

record counter_state =
  ctr_max :: nat
  ctr_err :: err
  ctr_n :: nat

definition counter :: "js \<Rightarrow> err \<Rightarrow> counter_state res" where
  "counter mx e = (case mx of
      Num m \<Rightarrow> if m < 0 then Inl TypeErr else Inr \<lparr>ctr_max = nat m, ctr_err = e, ctr_n = 0\<rparr>
    | _ \<Rightarrow> Inl TypeErr)"

definition tick :: "counter_state \<Rightarrow> counter_state res" where
  "tick c = (let c' = c\<lparr>ctr_n := ctr_n c + 1\<rparr> in
     if ctr_n c' > ctr_max c' then Inl (ctr_err c') else Inr c')"

definition byteCap :: "bytes \<Rightarrow> js \<Rightarrow> err \<Rightarrow> bytes res" where
  "byteCap buf mx e = (case mx of
      Num m \<Rightarrow> if m < 0 then Inl TypeErr
               else if int (length buf) > m then Inl e else Inr buf
    | _ \<Rightarrow> Inl TypeErr)"

text \<open>
  The budget of one parse.  A caller may catch the throw of \<open>spend\<close> or \<open>trip\<close>, so the state after
  a throw is part of the model: each operation returns the new state and, beside it, its result.
\<close>

record budget_state =
  bud_spent :: nat
  bud_exhausted :: bool
  bud_max :: nat

definition budget :: "js \<Rightarrow> budget_state res" where
  "budget maxBytes = bindR (cap maxBytes (int DER_MAX_BYTES) Undef Undef None) (\<lambda>m.
     Inr \<lparr>bud_spent = 0, bud_exhausted = False, bud_max = nat m\<rparr>)"

definition spend :: "js \<Rightarrow> budget_state \<Rightarrow> budget_state \<times> int res" where
  "spend n b = (case n of
      Num k \<Rightarrow>
        if k < 0 then (b, Inl TypeErr)
        else let b1 = b\<lparr>bud_spent := bud_spent b + nat k\<rparr> in
             if bud_spent b1 > bud_max b1
             then (b1\<lparr>bud_exhausted := True\<rparr>, Inl BudgetExceeded)
             else (b1, Inr k)
    | _ \<Rightarrow> (b, Inl TypeErr))"

definition trip :: "budget_state \<Rightarrow> budget_state \<times> int res" where
  "trip b = (b\<lparr>bud_exhausted := True\<rparr>, Inl BudgetExceeded)"

definition exhausted :: "budget_state \<Rightarrow> bool" where
  "exhausted b = bud_exhausted b"

definition budget_remaining :: "budget_state \<Rightarrow> int" where
  "budget_remaining b = int (bud_max b) - int (bud_spent b)"

datatype budget_op = Spend js | Trip

fun budget_step :: "budget_state \<Rightarrow> budget_op \<Rightarrow> budget_state" where
  "budget_step b (Spend n) = fst (spend n b)"
| "budget_step b Trip = fst (trip b)"

fun budget_run :: "budget_state \<Rightarrow> budget_op list \<Rightarrow> budget_state" where
  "budget_run b [] = b"
| "budget_run b (x # xs) = budget_run (budget_step b x) xs"

text \<open>A deadline over a clock; the reading of the clock is passed to each question.\<close>

record deadline_state =
  dl_total :: nat
  dl_started :: int

definition deadline :: "js \<Rightarrow> js \<Rightarrow> deadline_state res" where
  "deadline totalMs started = (case totalMs of
      Num t \<Rightarrow>
        if t < 0 then Inl TypeErr
        else (case started of Num s \<Rightarrow> Inr \<lparr>dl_total = nat t, dl_started = s\<rparr> | _ \<Rightarrow> Inl TypeErr)
    | _ \<Rightarrow> Inl TypeErr)"

definition dl_elapsed :: "deadline_state \<Rightarrow> js \<Rightarrow> int" where
  "dl_elapsed d now = (case now of
      Num at \<Rightarrow> if at > dl_started d then at - dl_started d else 0
    | _ \<Rightarrow> 0)"

definition dl_remaining :: "deadline_state \<Rightarrow> js \<Rightarrow> int" where
  "dl_remaining d now = (let left = int (dl_total d) - dl_elapsed d now in
     if left > 0 then left else 0)"

definition dl_expired :: "deadline_state \<Rightarrow> js \<Rightarrow> bool" where
  "dl_expired d now \<longleftrightarrow> dl_remaining d now = 0"

subsection \<open>Lemmas\<close>

lemma cap_default [simp]: "cap Undef d a b E = Inr d"
  by (simp add: cap_def)

lemma cap_Inr_bounds:
  "cap v d Undef Undef E = Inr n \<Longrightarrow> 0 \<le> d \<Longrightarrow> 0 \<le> n"
  by (auto simp: cap_def Let_def split: js.splits if_splits)

lemma depthCap_Inr: "depthCap v d = Inr n \<Longrightarrow> n \<le> int MAX_DECODE_DEPTH_CEILING"
  by (auto simp: depthCap_def res_simps)

lemma tick_Inr: "tick c = Inr c' \<longleftrightarrow> ctr_n c < ctr_max c \<and> c' = c\<lparr>ctr_n := ctr_n c + 1\<rparr>"
  by (auto simp: tick_def Let_def)

lemma tick_Inl: "tick c = Inl e \<longleftrightarrow> ctr_max c \<le> ctr_n c \<and> e = ctr_err c"
  by (auto simp: tick_def Let_def)

lemma spend_latches:
  "bud_exhausted b \<Longrightarrow> bud_exhausted (fst (spend n b))"
  by (auto simp: spend_def Let_def split: js.splits)

lemma spend_max: "bud_max (fst (spend n b)) = bud_max b"
  by (auto simp: spend_def Let_def split: js.splits)

lemma spend_mono: "bud_spent b \<le> bud_spent (fst (spend n b))"
  by (auto simp: spend_def Let_def split: js.splits)

lemma spend_over: "bud_max b < bud_spent (fst (spend n b)) \<Longrightarrow> bud_spent b \<le> bud_max b \<Longrightarrow>
    bud_exhausted (fst (spend n b)) \<and> snd (spend n b) = Inl BudgetExceeded"
  by (auto simp: spend_def Let_def split: js.splits if_splits)

definition budget_ok :: "budget_state \<Rightarrow> bool" where
  "budget_ok b \<longleftrightarrow> (bud_spent b \<le> bud_max b \<or> bud_exhausted b)"

lemma budget_step_ok: "budget_ok b \<Longrightarrow> budget_ok (budget_step b x)"
  by (cases x) (auto simp: budget_ok_def spend_def trip_def Let_def split: js.splits)

lemma budget_run_ok: "budget_ok b \<Longrightarrow> budget_ok (budget_run b xs)"
  by (induction xs arbitrary: b) (auto intro: budget_step_ok)

lemma budget_step_latches: "bud_exhausted b \<Longrightarrow> bud_exhausted (budget_step b x)"
  by (cases x) (auto simp: trip_def intro: spend_latches)

lemma budget_run_latches: "bud_exhausted b \<Longrightarrow> bud_exhausted (budget_run b xs)"
  by (induction xs arbitrary: b) (auto intro: budget_step_latches)

lemma dl_remaining_bounds: "0 \<le> dl_remaining d now \<and> dl_remaining d now \<le> int (dl_total d)"
  by (auto simp: dl_remaining_def dl_elapsed_def Let_def split: js.splits)

end
