(* ===== verification/Asn1_Types.thy ===== *)
theory Asn1_Types
  imports Limits
begin

text \<open>
  lib/asn1-der.js, the shared vocabulary: the universal tag table, tag classes, and the node the
  decoder returns.  A node's \<open>content\<close> and \<open>children\<close> are \<open>None\<close> where the code holds \<open>null\<close>, its
  \<open>length\<close> is \<open>contentEnd - contentStart\<close> (\<open>node_length\<close>) and its \<open>header\<close> is
  \<open>{ start: n_start, end: contentStart }\<close>.  Slices are copies here: the code's zero-copy views
  are never written through by the modelled operations.
\<close>

definition reservedUniversalTag :: "js \<Rightarrow> bool" where
  "reservedUniversalTag v = (case v of
      Num n \<Rightarrow> if n < 0 then False else n = 0 \<or> n = 15 \<or> n \<ge> 37
    | _ \<Rightarrow> False)"

text \<open>\<open>UNIVERSAL_TYPES\<close>: the tag number and whether its form is \<open>"constructed"\<close>.\<close>

definition UNIVERSAL_TYPES :: "(string \<times> nat \<times> bool) list" where
  "UNIVERSAL_TYPES =
    [(''BOOLEAN'', 0x01, False), (''INTEGER'', 0x02, False), (''BIT_STRING'', 0x03, False),
     (''OCTET_STRING'', 0x04, False), (''NULL'', 0x05, False), (''OBJECT_IDENTIFIER'', 0x06, False),
     (''EXTERNAL'', 0x08, True), (''ENUMERATED'', 0x0a, False), (''EMBEDDED_PDV'', 0x0b, True),
     (''UTF8_STRING'', 0x0c, False), (''SEQUENCE'', 0x10, True), (''SET'', 0x11, True),
     (''NUMERIC_STRING'', 0x12, False), (''PRINTABLE_STRING'', 0x13, False),
     (''TELETEX_STRING'', 0x14, False), (''IA5_STRING'', 0x16, False), (''UTC_TIME'', 0x17, False),
     (''GENERALIZED_TIME'', 0x18, False), (''VISIBLE_STRING'', 0x1a, False),
     (''UNIVERSAL_STRING'', 0x1c, False), (''CHARACTER_STRING'', 0x1d, True),
     (''BMP_STRING'', 0x1e, False)]"

abbreviation (input) "TAG_BOOLEAN \<equiv> 0x01 :: nat"
abbreviation (input) "TAG_INTEGER \<equiv> 0x02 :: nat"
abbreviation (input) "TAG_BIT_STRING \<equiv> 0x03 :: nat"
abbreviation (input) "TAG_OCTET_STRING \<equiv> 0x04 :: nat"
abbreviation (input) "TAG_NULL \<equiv> 0x05 :: nat"
abbreviation (input) "TAG_OID \<equiv> 0x06 :: nat"
abbreviation (input) "TAG_ENUMERATED \<equiv> 0x0a :: nat"
abbreviation (input) "TAG_UTF8_STRING \<equiv> 0x0c :: nat"
abbreviation (input) "TAG_SEQUENCE \<equiv> 0x10 :: nat"
abbreviation (input) "TAG_SET \<equiv> 0x11 :: nat"
abbreviation (input) "TAG_NUMERIC_STRING \<equiv> 0x12 :: nat"
abbreviation (input) "TAG_PRINTABLE_STRING \<equiv> 0x13 :: nat"
abbreviation (input) "TAG_TELETEX_STRING \<equiv> 0x14 :: nat"
abbreviation (input) "TAG_IA5_STRING \<equiv> 0x16 :: nat"
abbreviation (input) "TAG_UTC_TIME \<equiv> 0x17 :: nat"
abbreviation (input) "TAG_GENERALIZED_TIME \<equiv> 0x18 :: nat"
abbreviation (input) "TAG_VISIBLE_STRING \<equiv> 0x1a :: nat"
abbreviation (input) "TAG_UNIVERSAL_STRING \<equiv> 0x1c :: nat"
abbreviation (input) "TAG_BMP_STRING \<equiv> 0x1e :: nat"

definition CONSTRUCTED_ONLY_UNIVERSAL_TAGS :: "nat list" where
  "CONSTRUCTED_ONLY_UNIVERSAL_TAGS = map (\<lambda>(k, t, c). t) (filter (\<lambda>(k, t, c). c) UNIVERSAL_TYPES)"

abbreviation (input) "CLASS_UNIVERSAL \<equiv> 0x00 :: nat"
abbreviation (input) "CLASS_APPLICATION \<equiv> 0x40 :: nat"
abbreviation (input) "CLASS_CONTEXT \<equiv> 0x80 :: nat"
abbreviation (input) "CLASS_PRIVATE \<equiv> 0xC0 :: nat"
abbreviation (input) "CONSTRUCTED_BIT \<equiv> 0x20 :: nat"
abbreviation (input) "CLASS_MASK \<equiv> 0xC0 :: nat"

datatype tag_class = Universal | Application | Context | Private

definition className :: "nat \<Rightarrow> tag_class" where
  "className bits =
     (if bits = CLASS_UNIVERSAL then Universal
      else if bits = CLASS_APPLICATION then Application
      else if bits = CLASS_CONTEXT then Context
      else if bits = CLASS_PRIVATE then Private
      else Universal)"

fun class_bits :: "tag_class \<Rightarrow> nat" where
  "class_bits Universal = CLASS_UNIVERSAL"
| "class_bits Application = CLASS_APPLICATION"
| "class_bits Context = CLASS_CONTEXT"
| "class_bits Private = CLASS_PRIVATE"

datatype node = Node
  (tagClass: tag_class) (constructed: bool) (tagNumber: nat)
  (n_start: nat) (contentStart: nat) (contentEnd: nat)
  (content: "bytes option") (children: "node list option") (n_bytes: bytes) (n_ber: bool)

definition node_length :: "node \<Rightarrow> nat" where
  "node_length n = contentEnd n - contentStart n"

lemma className_bits [simp]: "className (class_bits c) = c"
  by (cases c) (auto simp: className_def)

lemma constructed_only_set:
  "t \<in> set CONSTRUCTED_ONLY_UNIVERSAL_TAGS \<longleftrightarrow>
     t = 0x08 \<or> t = 0x0b \<or> t = 0x10 \<or> t = 0x11 \<or> t = 0x1d"
  by (simp add: CONSTRUCTED_ONLY_UNIVERSAL_TAGS_def UNIVERSAL_TYPES_def)

lemma reserved_Num: "reservedUniversalTag (Num (int n)) \<longleftrightarrow> n = 0 \<or> n = 15 \<or> n \<ge> 37"
  by (auto simp add: reservedUniversalTag_def)

end
