(* ===== verification/Asn1_Decode.thy ===== *)
theory Asn1_Decode
  imports Asn1_Types
begin

text \<open>
  lib/asn1-der.js, the decoder: \<open>decode\<close> and \<open>_decodeTLV\<close>.  The one source function is split at
  its own steps: the identifier octets (\<open>high_tag\<close>, \<open>check_tag\<close>), the length octets
  (\<open>decode_length\<close>), both together (\<open>decode_header\<close>), the two content loops (\<open>kids_definite\<close>, \<open>kids_indefinite\<close>) and the node that is
  built at the end (\<open>finish_node\<close>).  The recursion carries a fuel; \<open>decode_fuel\<close> is shown to be
  enough for every input, so \<open>OutOfFuel\<close> never leaves \<open>decode\<close>.
\<close>

section \<open>Identifier octets\<close>

function high_tag :: "bytes \<Rightarrow> nat \<Rightarrow> nat \<Rightarrow> nat \<Rightarrow> nat \<Rightarrow> (nat \<times> nat) res" where
  "high_tag buf p limit tagNo seen =
     (if p \<ge> limit then Inl (Asn1E Asn1_truncated)
      else let tb = unat (buf ! p) in
        if seen = 0 \<and> tb = 0x80 then Inl (Asn1E Asn1_non_minimal_tag)
        else let tagNo' = tagNo * 128 + (tb AND 0x7F); seen' = seen + 1 in
          if seen' > 4 then Inl (Asn1E Asn1_tag_too_large)
          else if tb AND 0x80 = 0 then Inr (tagNo', p + 1)
          else high_tag buf (p + 1) limit tagNo' seen')"
  by pat_completeness auto
termination
  by (relation "measure (\<lambda>(buf, p, limit, t, s). limit - p)") auto

declare high_tag.simps [simp del]

definition decode_tag :: "bytes \<Rightarrow> nat \<Rightarrow> nat \<Rightarrow> nat \<Rightarrow> (nat \<times> nat) res" where
  "decode_tag buf first p limit =
     (let tagNo = first AND 0x1F in
      if tagNo = 0x1F then
        bindR (high_tag buf p limit 0 0) (\<lambda>(t, p').
          if t < 0x1F then Inl (Asn1E Asn1_non_minimal_tag) else Inr (t, p'))
      else Inr (tagNo, p))"

text \<open>The refusals that depend on the identifier alone, and the depth of constructed strings.\<close>

definition check_tag :: "nat \<Rightarrow> bool \<Rightarrow> nat \<Rightarrow> bool \<Rightarrow> nat \<Rightarrow> nat res" where
  "check_tag cls con tagNo ber strDepth =
     (let only = (tagNo \<in> set CONSTRUCTED_ONLY_UNIVERSAL_TAGS) in
      if cls = CLASS_UNIVERSAL \<and> tagNo = 0 then Inl (Asn1E Asn1_reserved_tag)
      else if cls = CLASS_UNIVERSAL \<and> reservedUniversalTag (Num (int tagNo))
        then Inl (Asn1E Asn1_reserved_tag)
      else if cls = CLASS_UNIVERSAL \<and> only \<and> \<not> con then Inl (Asn1E Asn1_bad_tlv)
      else if cls = CLASS_UNIVERSAL \<and> con \<and> \<not> only then
        (if \<not> (ber \<and> tagNo = TAG_OCTET_STRING)
         then Inl (Asn1E Asn1_constructed_primitive_type)
         else if strDepth + 1 > BER_MAX_STRING_NESTING
         then Inl (Asn1E Asn1_bad_constructed_string)
         else Inr (strDepth + 1))
      else Inr strDepth)"

section \<open>Length octets\<close>

text \<open>\<open>None\<close> is the indefinite length.\<close>

definition decode_length :: "bytes \<Rightarrow> nat \<Rightarrow> nat \<Rightarrow> bool \<Rightarrow> bool \<Rightarrow> (nat option \<times> nat) res" where
  "decode_length buf p limit ber con =
     (if p \<ge> limit then Inl (Asn1E Asn1_truncated)
      else let lenByte = unat (buf ! p); p = p + 1 in
        if lenByte < 0x80 then Inr (Some lenByte, p)
        else if lenByte = 0x80 then
          (if \<not> ber \<or> \<not> con then Inl (Asn1E Asn1_indefinite_length) else Inr (None, p))
        else let numLenBytes = lenByte AND 0x7F in
          if numLenBytes > 6 then Inl (Asn1E Asn1_length_too_large)
          else if p + numLenBytes > limit then Inl (Asn1E Asn1_truncated)
          else if buf ! p = 0x00 then Inl (Asn1E Asn1_non_minimal_length)
          else let length = be_val (slice buf p (p + numLenBytes)); p = p + numLenBytes in
            if length < 0x80 then Inl (Asn1E Asn1_non_minimal_length)
            else Inr (Some length, p))"

section \<open>The header of one element\<close>

text \<open>The class bits, the constructed bit, the tag number, the length, where the content starts, and
  the nesting depth of constructed strings from here on.\<close>

record header =
  h_cls :: nat
  h_con :: bool
  h_tag :: nat
  h_len :: "nat option"
  h_cs :: nat
  h_sd :: nat

definition decode_header :: "bytes \<Rightarrow> nat \<Rightarrow> nat \<Rightarrow> bool \<Rightarrow> nat \<Rightarrow> header res" where
  "decode_header buf start limit ber sd =
     (if start \<ge> limit then Inl (Asn1E Asn1_truncated)
      else let first = unat (buf ! start);
               cls = first AND CLASS_MASK;
               con = (first AND CONSTRUCTED_BIT \<noteq> 0) in
        bindR (decode_tag buf first (start + 1) limit) (\<lambda>(tag, p).
        bindR (check_tag cls con tag ber sd) (\<lambda>sd'.
        bindR (decode_length buf p limit ber con) (\<lambda>(len, cs).
          Inr \<lparr>h_cls = cls, h_con = con, h_tag = tag, h_len = len, h_cs = cs, h_sd = sd'\<rparr>))))"

section \<open>The node\<close>

text \<open>A constructed OCTET STRING read under BER is reassembled from its segments.\<close>

fun segments :: "node list \<Rightarrow> bytes list res" where
  "segments [] = Inr []"
| "segments (c # cs) =
     (if tagClass c \<noteq> Universal \<or> tagNumber c \<noteq> TAG_OCTET_STRING
      then Inl (Asn1E Asn1_bad_constructed_string)
      else case content c of
        None \<Rightarrow> Inl TypeErr
      | Some b \<Rightarrow> bindR (segments cs) (\<lambda>bs. Inr (b # bs)))"

definition finish_node ::
  "bytes \<Rightarrow> nat \<Rightarrow> nat \<Rightarrow> bool \<Rightarrow> nat \<Rightarrow> nat \<Rightarrow> nat \<Rightarrow> nat \<Rightarrow> bytes option \<Rightarrow> node list option \<Rightarrow> bool
     \<Rightarrow> node res" where
  "finish_node buf start cls con tagNo cs ce end cont kids ber =
     (let node = Node (className cls) con tagNo start cs ce cont kids (slice buf start end) False
      in if ber \<and> con \<and> cls = CLASS_UNIVERSAL \<and> tagNo = TAG_OCTET_STRING
         then (case kids of
                 None \<Rightarrow> Inl TypeErr
               | Some ks \<Rightarrow> bindR (segments ks) (\<lambda>bs.
                   Inr (Node (className cls) False tagNo start cs ce (Some (concat bs)) None
                          (slice buf start end) False)))
         else if ber \<and> con \<and> cls = CLASS_CONTEXT \<and> kids \<noteq> None
         then Inr (Node (className cls) con tagNo start cs ce cont kids (slice buf start end) True)
         else Inr node)"

section \<open>The recursion\<close>

type_synonym tlv_out = "(node \<times> nat \<times> counter_state) res"

text \<open>The two content loops, over the decoding \<open>f\<close> of one child at a position.\<close>

primrec kids_definite :: "nat \<Rightarrow> (nat \<Rightarrow> counter_state \<Rightarrow> tlv_out) \<Rightarrow> nat \<Rightarrow> nat \<Rightarrow> counter_state
     \<Rightarrow> (node list \<times> counter_state) res" where
  "kids_definite 0 f cp ce ctr = Inl OutOfFuel"
| "kids_definite (Suc fuel) f cp ce ctr =
     (if cp < ce then
        bindR (f cp ctr) (\<lambda>(child, cp', ctr).
        bindR (kids_definite fuel f cp' ce ctr) (\<lambda>(rest, ctr).
          Inr (child # rest, ctr)))
      else Inr ([], ctr))"

primrec kids_indefinite :: "nat \<Rightarrow> (nat \<Rightarrow> counter_state \<Rightarrow> tlv_out) \<Rightarrow> bytes \<Rightarrow> nat \<Rightarrow> nat
     \<Rightarrow> counter_state \<Rightarrow> (node list \<times> nat \<times> counter_state) res" where
  "kids_indefinite 0 f buf cp limit ctr = Inl OutOfFuel"
| "kids_indefinite (Suc fuel) f buf cp limit ctr =
     (if cp + 2 > limit then Inl (Asn1E Asn1_truncated)
      else if buf ! cp = 0x00 \<and> buf ! (cp + 1) = 0x00 then Inr ([], cp, ctr)
      else
        bindR (f cp ctr) (\<lambda>(child, cp', ctr).
        bindR (kids_indefinite fuel f buf cp' limit ctr) (\<lambda>(rest, ce, ctr).
          Inr (child # rest, ce, ctr))))"

primrec decodeTLV :: "nat \<Rightarrow> bytes \<Rightarrow> nat \<Rightarrow> nat \<Rightarrow> nat \<Rightarrow> bool \<Rightarrow> nat \<Rightarrow> nat \<Rightarrow> counter_state
     \<Rightarrow> tlv_out" where
  "decodeTLV 0 buf limit depth md ber sd start ctr = Inl OutOfFuel"
| "decodeTLV (Suc fuel) buf limit depth md ber sd start ctr =
     (if depth > md then Inl (Asn1E Asn1_too_deep)
      else bindR (tick ctr) (\<lambda>ctr.
      bindR (decode_header buf start limit ber sd) (\<lambda>h.
        case h_len h of
          Some n \<Rightarrow>
            if h_cs h + n > limit then Inl (Asn1E Asn1_truncated)
            else if h_con h then
              bindR (kids_definite fuel (decodeTLV fuel buf (h_cs h + n) (depth + 1) md ber (h_sd h))
                       (h_cs h) (h_cs h + n) ctr) (\<lambda>(kids, ctr).
              bindR (finish_node buf start (h_cls h) (h_con h) (h_tag h) (h_cs h) (h_cs h + n)
                       (h_cs h + n) None (Some kids) ber) (\<lambda>node.
                Inr (node, h_cs h + n, ctr)))
            else
              bindR (finish_node buf start (h_cls h) (h_con h) (h_tag h) (h_cs h) (h_cs h + n)
                       (h_cs h + n) (Some (slice buf (h_cs h) (h_cs h + n))) None ber) (\<lambda>node.
                Inr (node, h_cs h + n, ctr))
        | None \<Rightarrow>
            bindR (kids_indefinite fuel (decodeTLV fuel buf limit (depth + 1) md ber (h_sd h))
                     buf (h_cs h) limit ctr) (\<lambda>(kids, ce, ctr).
            bindR (finish_node buf start (h_cls h) (h_con h) (h_tag h) (h_cs h) ce (ce + 2)
                     None (Some kids) ber) (\<lambda>node.
              Inr (node, ce + 2, ctr))))))"

record decode_opts =
  maxBytes :: js
  maxDepth :: js
  maxItems :: js
  allowTrailing :: bool
  ber :: bool

definition no_opts :: decode_opts where
  "no_opts = \<lparr>maxBytes = Undef, maxDepth = Undef, maxItems = Undef, allowTrailing = False, ber = False\<rparr>"

definition decode_fuel :: "bytes \<Rightarrow> nat" where
  "decode_fuel buf = 2 * length buf + 2"

definition decode :: "bytes \<Rightarrow> decode_opts \<Rightarrow> node res" where
  "decode buf opts =
     bindR (cap (maxBytes opts) (int DER_MAX_BYTES) Undef Undef None) (\<lambda>mb.
     bindR (depthCap (maxDepth opts) (int DER_MAX_DEPTH)) (\<lambda>md.
     bindR (cap (maxItems opts) (int DER_MAX_ITEMS) Undef Undef None) (\<lambda>mi.
       if int (length buf) > mb then Inl (Asn1E Asn1_too_large)
       else
         bindR (counter (Num mi) (Asn1E Asn1_too_many_items)) (\<lambda>ctr.
         bindR (decodeTLV (decode_fuel buf) buf (length buf) 0 (nat md) (ber opts) 0 0 ctr)
           (\<lambda>(node, end, ctr).
             if \<not> allowTrailing opts \<and> end \<noteq> length buf then Inl (Asn1E Asn1_trailing_bytes)
             else Inr node)))))"

end
