(* ===== verification/Base128.thy ===== *)
theory Base128
  imports Prelude
begin

text \<open>
  Base-128 numbers with continuation bits: the encoding that high tag numbers and the
  sub-identifiers of an OBJECT IDENTIFIER share (X.690 secs. 8.1.2.4 and 8.19).  \<open>fill128\<close> is the
  encoder's loop from the last octet back, \<open>b128_ok\<close> the shape a decoder accepts; the two lemmas
  \<open>b128_ok_b128\<close> and \<open>b128_val128\<close> say that the shape has exactly one member per number.
\<close>

text \<open>The counting loop: octets needed for \<open>v\<close>, at least one.\<close>

function count128 :: "nat \<Rightarrow> nat" where
  "count128 v = (if v < 128 then 1 else Suc (count128 (v div 128)))"
  by pat_completeness auto
termination by (relation "measure id") auto

declare count128.simps [simp del]

fun fill128 :: "nat \<Rightarrow> bool \<Rightarrow> nat \<Rightarrow> bytes" where
  "fill128 0 final v = []"
| "fill128 (Suc i) final v =
     fill128 i False (v div 128) @ [word_of_nat ((v AND 0x7F) OR (if final then 0x00 else 0x80))]"

definition b128 :: "nat \<Rightarrow> bytes" where
  "b128 v = fill128 (count128 v) True v"

definition val128 :: "bytes \<Rightarrow> nat" where
  "val128 bs = foldl (\<lambda>v b. v * 128 + (unat b AND 0x7F)) 0 bs"

definition cont_ok :: "bytes \<Rightarrow> bool" where
  "cont_ok bs \<longleftrightarrow> (\<forall>b \<in> set bs. 128 \<le> unat b) \<and> (bs \<noteq> [] \<longrightarrow> hd bs \<noteq> 0x80)"

definition b128_ok :: "bytes \<Rightarrow> bool" where
  "b128_ok bs \<longleftrightarrow> (\<exists>cs b. bs = cs @ [b] \<and> unat b < 128 \<and> cont_ok cs)"

lemma val128_Nil [simp]: "val128 [] = 0"
  by (simp add: val128_def)

lemma val128_snoc [simp]: "val128 (bs @ [b]) = val128 bs * 128 + unat b mod 128"
  by (simp add: val128_def byte_arith)

lemma length_fill128 [simp]: "length (fill128 n l v) = n"
  by (induction n l v rule: fill128.induct) auto

lemma cont_octet [simp]: "((v::nat) AND 0x7F) OR 0x80 = v mod 128 + 128"
  by (simp add: byte_arith)

lemma final_octet: "((v::nat) AND 0x7F) = v mod 128"
  by (simp add: byte_arith)

lemma last_octet: "((v::nat) AND 0x7F) OR (if l then 0 else 0x80) = v mod 128 + (if l then 0 else 128)"
  by (simp add: byte_arith)

lemma byte_mod128: "128 \<le> unat (b::byte) \<Longrightarrow> unat b mod 128 = unat b - 128"
proof -
  assume h: "128 \<le> unat b"
  then have "unat b - 128 < 128" using unat_byte_lt[of b] by linarith
  then show ?thesis using h by (simp only: le_mod_geq mod_less)
qed

lemma byte_eq_80: "(b::byte) = 0x80 \<longleftrightarrow> unat b = 128"
  by (simp add: word_unat_eq_iff)

lemma val128_fill: "v < 128 ^ n \<Longrightarrow> val128 (fill128 n l v) = v"
proof (induction n l v rule: fill128.induct)
  case (2 i l v)
  then have "v div 128 < 128 ^ i" by (simp add: less_mult_imp_div_less mult.commute)
  with 2 have "val128 (fill128 i False (v div 128)) = v div 128" by simp
  moreover have "unat (word_of_nat (v mod 128 + (if l then 0 else 128)) :: byte) mod 128 = v mod 128"
    unfolding unat_of_nat_byte by (simp add: mod_mod_cancel)
  ultimately show ?case by (simp add: last_octet del: of_nat_add)
qed simp

lemma count128_bounds: "v < 128 ^ count128 v" "0 < v \<Longrightarrow> 128 ^ (count128 v - 1) \<le> v" "0 < count128 v"
proof -
  have "v < 128 ^ count128 v \<and> (0 < v \<longrightarrow> 128 ^ (count128 v - 1) \<le> v) \<and> 0 < count128 v"
  proof (induction v rule: count128.induct)
    case (1 v)
    show ?case
    proof (cases "v < 128")
      case False
      let ?c = "count128 (v div 128)"
      from False 1 have IH: "v div 128 < 128 ^ ?c" "128 ^ (?c - 1) \<le> v div 128" "0 < ?c" by auto
      have "v < (v div 128 + 1) * 128" by simp
      also have "\<dots> \<le> 128 ^ ?c * 128" using IH(1) by (intro mult_right_mono) auto
      finally have "v < 128 ^ Suc ?c" by simp
      moreover have "128 ^ ?c \<le> v"
      proof -
        have "128 ^ ?c = 128 ^ (?c - 1) * (128::nat)" using IH(3) by (cases ?c) auto
        also have "\<dots> \<le> v div 128 * 128" using IH(2) by (intro mult_right_mono) auto
        finally show ?thesis by (meson div_times_less_eq_dividend le_trans)
      qed
      ultimately show ?thesis using False by (subst (1 2 3) count128.simps) simp
    qed (simp add: count128.simps)
  qed
  then show "v < 128 ^ count128 v" "0 < v \<Longrightarrow> 128 ^ (count128 v - 1) \<le> v" "0 < count128 v" by auto
qed

lemma count128_unique: "128 ^ n \<le> v \<Longrightarrow> v < 128 ^ Suc n \<Longrightarrow> count128 v = Suc n"
proof (induction n arbitrary: v)
  case (Suc n)
  then have "128 \<le> v" by (metis le_trans one_le_numeral one_le_power power_Suc mult_le_mono2 mult.right_neutral)
  moreover have "128 ^ n \<le> v div 128" using Suc.prems(1) by (simp add: less_eq_div_iff_mult_less_eq mult.commute)
  moreover have "v div 128 < 128 ^ Suc n" using Suc.prems(2) by (simp add: less_mult_imp_div_less mult.commute)
  ultimately show ?case using Suc.IH by (subst count128.simps) simp
qed (simp add: count128.simps)

lemma val128_b128 [simp]: "val128 (b128 v) = v"
  by (simp add: b128_def val128_fill count128_bounds)

lemma length_b128: "length (b128 v) = count128 v"
  by (simp add: b128_def)

lemma fill_cont: "b \<in> set (fill128 n False v) \<Longrightarrow> 128 \<le> unat b"
proof (induction n arbitrary: v)
  case (Suc n)
  have "128 \<le> unat (word_of_nat (v mod 128 + 128) :: byte)"
    unfolding unat_of_nat_byte by (simp add: mod_less)
  then show ?case using Suc by (auto simp del: of_nat_add unat_of_nat_byte)
qed simp

lemma hd_fill: "0 < n \<Longrightarrow> v < 128 ^ n \<Longrightarrow> 128 ^ (n - 1) \<le> v \<Longrightarrow> hd (fill128 n False v) \<noteq> 0x80"
proof (induction n arbitrary: v)
  case (Suc n)
  show ?case
  proof (cases n)
    case 0
    then have "unat (word_of_nat (v mod 128 + 128) :: byte) \<noteq> 128"
      using Suc.prems unfolding unat_of_nat_byte by simp
    then show ?thesis by (simp add: 0 byte_eq_80 del: of_nat_add unat_of_nat_byte)
  next
    case (Suc m)
    have "hd (fill128 n False (v div 128)) \<noteq> 0x80"
      using Suc.prems Suc
      by (intro Suc.IH) (simp_all add: less_mult_imp_div_less mult.commute less_eq_div_iff_mult_less_eq)
    moreover have "fill128 n False (v div 128) \<noteq> []" by (metis Suc length_fill128 list.size(3) nat.distinct(1))
    ultimately show ?thesis by simp
  qed
qed simp

lemma b128_split: "b128 v = fill128 (count128 v - 1) False (v div 128) @ [word_of_nat (v mod 128)]"
  using count128_bounds(3)[of v] by (cases "count128 v") (auto simp: b128_def final_octet)

lemma cont_ok_fill: "cont_ok (fill128 (count128 v - 1) False (v div 128))"
proof (cases "v < 128")
  case True
  then show ?thesis by (simp add: count128.simps cont_ok_def)
next
  case False
  then have c: "count128 v - 1 = count128 (v div 128)" by (simp add: count128.simps[of v])
  have "hd (fill128 (count128 (v div 128)) False (v div 128)) \<noteq> 0x80"
    using False by (intro hd_fill count128_bounds) simp
  then show ?thesis unfolding c cont_ok_def using fill_cont by blast
qed

lemma b128_ok_b128: "b128_ok (b128 v)"
proof -
  have "unat (word_of_nat (v mod 128) :: byte) < 128" unfolding unat_of_nat_byte by simp
  then show ?thesis unfolding b128_ok_def b128_split using cont_ok_fill by blast
qed

lemma byte_cont: "128 \<le> unat (b::byte) \<Longrightarrow> word_of_nat (unat b mod 128 + 128) = b"
proof -
  assume "128 \<le> unat b"
  then have "unat b mod 128 + 128 = unat b" by (simp add: byte_mod128)
  then show ?thesis by (simp only: word_of_nat_unat_byte)
qed

lemma fill_val: "(\<forall>b \<in> set bs. 128 \<le> unat b) \<Longrightarrow> fill128 (length bs) False (val128 bs) = bs"
proof (induction bs rule: rev_induct)
  case (snoc b bs)
  have "(val128 bs * 128 + unat b mod 128) div 128 = val128 bs"
    "(val128 bs * 128 + unat b mod 128) mod 128 = unat b mod 128" by simp_all
  then show ?case using snoc by (simp add: byte_cont del: of_nat_add)
qed simp

lemma val128_bound: "val128 bs < 128 ^ length bs"
proof (induction bs rule: rev_induct)
  case (snoc b bs)
  have "val128 bs * 128 + unat b mod 128 < (val128 bs + 1) * 128" by simp
  also have "\<dots> \<le> 128 ^ length bs * 128" using snoc by (intro mult_right_mono) auto
  finally show ?case by simp
qed simp

lemma val128_ge: "cont_ok cs \<Longrightarrow> cs \<noteq> [] \<Longrightarrow> 128 ^ (length cs - 1) \<le> val128 cs"
proof (induction cs rule: rev_induct)
  case (snoc b cs)
  show ?case
  proof (cases "cs = []")
    case True
    with snoc.prems have "128 \<le> unat b" "b \<noteq> 0x80" by (auto simp: cont_ok_def)
    then have "1 \<le> unat b mod 128" by (simp add: byte_eq_80 byte_mod128)
    then show ?thesis using True val128_snoc[of "[]" b] by simp
  next
    case False
    then have "128 ^ (length cs - 1) \<le> val128 cs" using snoc by (auto simp: cont_ok_def)
    moreover have "(128::nat) ^ length cs = 128 ^ (length cs - 1) * 128"
      using False by (cases cs) auto
    ultimately show ?thesis by simp
  qed
qed simp

lemma b128_val128: "b128_ok bs \<Longrightarrow> b128 (val128 bs) = bs"
proof -
  assume "b128_ok bs"
  then obtain cs b where bs: "bs = cs @ [b]" and b: "unat b < 128" and cs: "cont_ok cs"
    by (auto simp: b128_ok_def)
  let ?v = "val128 bs"
  have d: "?v div 128 = val128 cs" "?v mod 128 = unat b" using b by (auto simp: bs)
  have "count128 ?v = Suc (length cs)"
  proof (cases "cs = []")
    case True
    then show ?thesis using b val128_snoc[of "[]" b] by (simp add: bs count128.simps)
  next
    case False
    have "128 ^ length cs = 128 ^ (length cs - 1) * (128::nat)" using False by (cases cs) auto
    then have "128 ^ length cs \<le> ?v" using val128_ge[OF cs False] by (simp add: bs)
    then show ?thesis using val128_bound[of bs] by (intro count128_unique) (simp_all add: bs)
  qed
  then show ?thesis using cs d by (simp add: b128_split fill_val cont_ok_def bs)
qed

end
