(* ===== verification/Ranges.thy ===== *)
theory Ranges
  imports Values
begin

text \<open>
  lib/guard-range.js: the narrowing of a caller's integer to a bounded one.  Each guard takes the
  error its caller's factory would build.  \<open>range_int\<close> and its two instances return a Number,
  \<open>range_uint64\<close> and \<open>decimalUint64\<close> a BigInt; all three are \<open>int\<close> here.
\<close>

definition UINT31_MAX :: int where "UINT31_MAX = 2147483647"
definition SAFE_MAX :: int where "SAFE_MAX = 9007199254740991"
definition SAFE_MIN :: int where "SAFE_MIN = - 9007199254740991"
definition UINT64_MAX :: int where "UINT64_MAX = 18446744073709551615"

definition range_int :: "js \<Rightarrow> js \<Rightarrow> js \<Rightarrow> err \<Rightarrow> int res" where
  "range_int v mn mx e = (case (mn, mx) of
      (Big lo, Big hi) \<Rightarrow>
        if hi > SAFE_MAX then Inl TypeErr
        else if lo < SAFE_MIN then Inl TypeErr
        else (case v of
                Big n \<Rightarrow> if n < lo \<or> n > hi then Inl e else Inr n
              | _ \<Rightarrow> Inl e)
    | _ \<Rightarrow> Inl TypeErr)"

definition uint31 :: "js \<Rightarrow> err \<Rightarrow> int res" where
  "uint31 v e = range_int v (Big 0) (Big UINT31_MAX) e"

definition positiveInt31 :: "js \<Rightarrow> err \<Rightarrow> int res" where
  "positiveInt31 v e = range_int v (Big 1) (Big UINT31_MAX) e"

definition range_uint64 :: "js \<Rightarrow> err \<Rightarrow> int res" where
  "range_uint64 v e =
     bindR (case v of
              Big n \<Rightarrow> Inr n
            | Num n \<Rightarrow> if is_safe_integer n \<and> n \<ge> 0 then Inr n else Inl e
            | _ \<Rightarrow> Inl e)
       (\<lambda>n. if n < 0 \<or> n > UINT64_MAX then Inl e else Inr n)"

text \<open>The digit scan of \<open>decimalUint64\<close>; \<open>v\<close> is the value so far.\<close>

fun decimal_scan :: "err \<Rightarrow> int \<Rightarrow> jsstr \<Rightarrow> int res" where
  "decimal_scan e v [] = Inr v"
| "decimal_scan e v (c # cs) =
     (if c < 48 \<or> c > 57 then Inl e else decimal_scan e (v * 10 + int (c - 48)) cs)"

definition decimalUint64 :: "js \<Rightarrow> err \<Rightarrow> int res" where
  "decimalUint64 value e = (case value of
      Str s \<Rightarrow>
        if s = [] then Inl e
        else if length s > 1 \<and> hd s = 48 then Inl e
        else if length s > 20 then Inl e
        else bindR (decimal_scan e 0 s) (\<lambda>v. if v > UINT64_MAX then Inl e else Inr v)
    | _ \<Rightarrow> Inl e)"

definition authoredInteger :: "js \<Rightarrow> err \<Rightarrow> int res" where
  "authoredInteger v e = (case v of
      Big n \<Rightarrow> Inr n
    | Num n \<Rightarrow> if is_safe_integer n then Inr n else Inl e
    | _ \<Rightarrow> Inl e)"

section \<open>Decimal text of a number\<close>

text \<open>\<open>String(n)\<close> of a non-negative integer, as character codes.\<close>

fun digits_of :: "nat \<Rightarrow> jsstr" where
  "digits_of n = (if n < 10 then [48 + n] else digits_of (n div 10) @ [48 + n mod 10])"

declare digits_of.simps [simp del]

lemma digits_of_ne [simp]: "digits_of n \<noteq> []"
  by (subst digits_of.simps) simp

lemma digits_of_hd: "hd (digits_of n) = 48 \<longleftrightarrow> n = 0"
proof (induction n rule: digits_of.induct)
  case (1 n)
  show ?case
  proof (cases "n < 10")
    case False
    with 1 have "hd (digits_of (n div 10)) = 48 \<longleftrightarrow> n div 10 = 0" by simp
    then show ?thesis using False by (subst digits_of.simps) auto
  qed (subst digits_of.simps, simp)
qed

lemma digits_of_length: "n < 10 ^ k \<Longrightarrow> 0 < k \<Longrightarrow> length (digits_of n) \<le> k"
proof (induction n arbitrary: k rule: digits_of.induct)
  case (1 n)
  show ?case
  proof (cases "n < 10")
    case True
    then show ?thesis using 1 by (subst digits_of.simps) simp
  next
    case False
    with 1(2) have "1 < k" by (cases k; cases "k - 1") auto
    then obtain j where k: "k = Suc j" and j: "0 < j" by (cases k) auto
    have "n div 10 < 10 ^ j" using 1(2) by (simp add: k less_mult_imp_div_less mult.commute)
    then have "length (digits_of (n div 10)) \<le> j" using False j by (intro 1(1))
    then show ?thesis using False by (subst digits_of.simps) (simp add: k)
  qed
qed

lemma decimal_scan_append:
  "decimal_scan e v (xs @ ys) = bindR (decimal_scan e v xs) (\<lambda>w. decimal_scan e w ys)"
  by (induction xs arbitrary: v) auto

lemma decimal_scan_digits: "decimal_scan e 0 (digits_of n) = Inr (int n)"
proof (induction n rule: digits_of.induct)
  case (1 n)
  show ?case
  proof (cases "n < 10")
    case True
    then show ?thesis by (subst digits_of.simps) simp
  next
    case False
    with 1 have "decimal_scan e 0 (digits_of (n div 10)) = Inr (int (n div 10))" by simp
    moreover have "int (n div 10) * 10 + int (n mod 10) = int n"
      by (metis div_mult_mod_eq of_nat_add of_nat_mult of_nat_numeral)
    moreover have "n mod 10 < 10" by simp
    ultimately show ?thesis using False by (subst digits_of.simps) (simp add: decimal_scan_append)
  qed
qed

lemma decimal_scan_unique:
  "decimal_scan e 0 s = Inr v \<Longrightarrow> s \<noteq> [] \<Longrightarrow> \<not> (length s > 1 \<and> hd s = 48) \<Longrightarrow>
     0 \<le> v \<and> s = digits_of (nat v)"
proof (induction s arbitrary: v rule: rev_induct)
  case (snoc c cs)
  show ?case
  proof (cases "cs = []")
    case True
    then show ?thesis using snoc.prems by (subst digits_of.simps) (auto split: if_splits)
  next
    case False
    from snoc.prems(1) obtain w where w: "decimal_scan e 0 cs = Inr w"
      and c: "48 \<le> c" "c \<le> 57" and v: "v = w * 10 + int (c - 48)"
      by (auto simp: decimal_scan_append res_simps split: if_splits)
    have hd: "hd cs \<noteq> 48" using snoc.prems(3) False by (cases cs) auto
    then have IH: "0 \<le> w" "cs = digits_of (nat w)" using snoc.IH[OF w False] by auto
    have "w \<noteq> 0" using hd IH digits_of_hd by auto
    then have "nat v \<ge> 10" "nat v div 10 = nat w" "nat v mod 10 = c - 48"
      using IH c v by (simp_all add: nat_add_distrib nat_mult_distrib)
    then show ?thesis using IH v c by (subst digits_of.simps) simp
  qed
qed simp

lemma range_int_Inr: "range_int v mn mx e = Inr n \<longleftrightarrow>
   (\<exists>lo hi. mn = Big lo \<and> mx = Big hi \<and> hi \<le> SAFE_MAX \<and> SAFE_MIN \<le> lo \<and> v = Big n \<and> lo \<le> n \<and> n \<le> hi)"
  by (auto simp: range_int_def split: js.splits if_splits)

lemma range_uint64_Inr: "range_uint64 v e = Inr n \<longleftrightarrow>
   0 \<le> n \<and> n \<le> UINT64_MAX \<and> (v = Big n \<or> v = Num n \<and> is_safe_integer n)"
  by (auto simp: range_uint64_def res_simps split: js.splits if_splits)

lemma range_uint64_Big [simp]: "0 \<le> n \<Longrightarrow> n \<le> UINT64_MAX \<Longrightarrow> range_uint64 (Big n) e = Inr n"
  by (simp add: range_uint64_def)

text \<open>
  \<open>decimalUint64\<close> accepts exactly the canonical decimal text of the numbers below \<open>2^64\<close>.
\<close>

lemma decimalUint64_iff:
  "decimalUint64 value e = Inr v \<longleftrightarrow> 0 \<le> v \<and> v \<le> UINT64_MAX \<and> value = Str (digits_of (nat v))"
proof
  assume L: "decimalUint64 value e = Inr v"
  then obtain s where s: "value = Str s" "s \<noteq> []" "\<not> (length s > 1 \<and> hd s = 48)"
      "decimal_scan e 0 s = Inr v" "v \<le> UINT64_MAX"
    by (auto simp: decimalUint64_def res_simps split: js.splits if_splits)
  then show "0 \<le> v \<and> v \<le> UINT64_MAX \<and> value = Str (digits_of (nat v))"
    using decimal_scan_unique by blast
next
  assume R: "0 \<le> v \<and> v \<le> UINT64_MAX \<and> value = Str (digits_of (nat v))"
  then have lt: "nat v < 10 ^ 20" by (simp add: UINT64_MAX_def nat_less_iff)
  have "length (digits_of (nat v)) \<le> 20" by (rule digits_of_length[OF lt]) simp
  moreover have "\<not> (length (digits_of (nat v)) > 1 \<and> hd (digits_of (nat v)) = 48)"
    by (auto simp: digits_of_hd) (simp add: digits_of.simps)
  ultimately show "decimalUint64 value e = Inr v"
    using R by (auto simp: decimalUint64_def decimal_scan_digits)
qed

end
