(* ===== verification/Oid_Codec.thy ===== *)
theory Oid_Codec
  imports Base128 Ranges Limits
begin

text \<open>
  OBJECT IDENTIFIER content octets: the canonical dotted-decimal check of lib/guard-identifier.js
  and \<open>encodeOidContent\<close> / \<open>decodeOidContent\<close> of lib/asn1-der.js.  The two are inverse to each
  other on everything either accepts (\<open>oid_codec\<close>).
\<close>

section \<open>Text\<close>

fun split_char :: "nat \<Rightarrow> jsstr \<Rightarrow> jsstr list" where
  "split_char c [] = [[]]"
| "split_char c (x # xs) =
     (if x = c then [] # split_char c xs
      else case split_char c xs of [] \<Rightarrow> [[x]] | y # ys \<Rightarrow> (x # y) # ys)"

fun join_char :: "nat \<Rightarrow> jsstr list \<Rightarrow> jsstr" where
  "join_char c [] = []"
| "join_char c [x] = x"
| "join_char c (x # xs) = x @ c # join_char c xs"

text \<open>\<open>BigInt(p)\<close> of a run of ASCII digits.\<close>

definition parse_dec :: "jsstr \<Rightarrow> nat" where
  "parse_dec p = foldl (\<lambda>v c. v * 10 + (c - 48)) 0 p"

lemma split_char_ne [simp]: "split_char c xs \<noteq> []"
  by (induction xs) (auto split: list.splits)

lemma split_char_nosep: "c \<notin> set xs \<Longrightarrow> split_char c (xs @ ys) =
    (case split_char c ys of [] \<Rightarrow> [xs] | z # zs \<Rightarrow> (xs @ z) # zs)"
  by (induction xs) (auto split: list.splits)

lemma split_char_sep: "c \<notin> set xs \<Longrightarrow> split_char c (xs @ c # ys) = xs # split_char c ys"
  by (simp add: split_char_nosep)

lemma split_join: "xs \<noteq> [] \<Longrightarrow> (\<And>x. x \<in> set xs \<Longrightarrow> c \<notin> set x) \<Longrightarrow> split_char c (join_char c xs) = xs"
proof (induction c xs rule: join_char.induct)
  case (2 c x)
  then show ?case using split_char_nosep[of c x "[]"] by simp
next
  case (3 c x y zs)
  then show ?case by (simp add: split_char_sep)
qed simp

lemma join_split: "join_char c (split_char c xs) = xs"
proof (induction xs)
  case (Cons x xs)
  then show ?case by (cases "split_char c xs"; cases "tl (split_char c xs)") auto
qed simp

section \<open>lib/guard-identifier.js\<close>

text \<open>The scan of \<open>_isDottedDecimal\<close>: \<open>arcs\<close>, \<open>digits\<close> and \<open>leadingZero\<close> are its locals, \<open>prev\<close> the
  character code before the current one.\<close>

fun dotted_scan :: "nat \<Rightarrow> nat \<Rightarrow> bool \<Rightarrow> nat \<Rightarrow> jsstr \<Rightarrow> bool" where
  "dotted_scan arcs digits leadingZero prev [] =
     (if digits = 0 \<or> leadingZero then False else arcs \<ge> 1)"
| "dotted_scan arcs digits leadingZero prev (c # cs) =
     (if c = 0x2e then
        (if digits = 0 \<or> leadingZero then False else dotted_scan (arcs + 1) 0 False c cs)
      else if c < 0x30 \<or> c > 0x39 then False
      else dotted_scan arcs (digits + 1) (leadingZero \<or> digits = 1 \<and> prev = 0x30) c cs)"

definition isDottedDecimal_canonical :: "jsstr \<Rightarrow> bool" where
  "isDottedDecimal_canonical str = (if str = [] then False else dotted_scan 0 0 False 0 str)"

text \<open>\<open>bounds\<close> is the error of \<open>boundsCode\<close> (\<open>None\<close> for the \<open>null\<close> that skips the arc bounds),
  \<open>count\<close> the error of \<open>countCode || boundsCode\<close>.\<close>

definition assertCanonicalOid :: "js \<Rightarrow> err \<Rightarrow> err option \<Rightarrow> err \<Rightarrow> jsstr res" where
  "assertCanonicalOid v code bounds count = (case v of
      Str str \<Rightarrow>
        if \<not> isDottedDecimal_canonical str then Inl code
        else (case bounds of
                None \<Rightarrow> Inr str
              | Some bcode \<Rightarrow>
                  let parts = split_char 46 str in
                  if length parts - 1 > OID_MAX_SUBIDENTIFIERS then Inl count
                  else let root = parse_dec (parts ! 0); second = parse_dec (parts ! 1) in
                    if root > 2 then Inl bcode
                    else if root < 2 \<and> second > 39 then Inl bcode
                    else Inr str)
    | _ \<Rightarrow> Inl code)"

section \<open>lib/asn1-der.js: encodeOidContent\<close>

definition subid_octets :: "nat \<Rightarrow> bytes res" where
  "subid_octets v =
     (let count = count128 v in
      if count > OID_MAX_SUBIDENTIFIER_BYTES then Inl (OidE Oid_subidentifier_too_large)
      else Inr (map (\<lambda>k. let octet = drop_bit (7 * k) v AND 0x7F in
                    word_of_nat (if k = 0 then octet else octet OR 0x80)) (rev [0..<count])))"

definition encodeOidContent :: "js \<Rightarrow> bytes res" where
  "encodeOidContent dotted =
     bindR (assertCanonicalOid dotted (OidE Oid_bad_input) (Some (OidE Oid_bad_arc))
              (OidE Oid_too_many_subidentifiers)) (\<lambda>str.
       let arcs = map parse_dec (split_char 46 str);
           a1 = arcs ! 0; a2 = arcs ! 1;
           subids = (a1 * 40 + a2) # drop 2 arcs
       in bindR (mapR subid_octets subids) (\<lambda>os. Inr (concat os)))"

section \<open>lib/asn1-der.js: decodeOidContent\<close>

text \<open>The octet loop; \<open>grp\<close> is the slice from \<open>arcStart\<close> to the current octet, \<open>arcs\<close> the
  sub-identifiers completed so far.\<close>

fun oid_scan :: "nat list \<Rightarrow> bytes \<Rightarrow> bytes \<Rightarrow> nat list res" where
  "oid_scan arcs grp [] = (if grp \<noteq> [] then Inl (OidE Oid_truncated) else Inr arcs)"
| "oid_scan arcs grp (b # bs) =
     (if grp = [] \<and> b = 0x80 then Inl (OidE Oid_non_minimal)
      else if length grp \<ge> OID_MAX_SUBIDENTIFIER_BYTES then Inl (OidE Oid_subidentifier_too_large)
      else if unat b AND 0x80 = 0 then
        (if length arcs \<ge> OID_MAX_SUBIDENTIFIERS then Inl (OidE Oid_too_many_subidentifiers)
         else oid_scan (arcs @ [val128 (grp @ [b])]) [] bs)
      else oid_scan arcs (grp @ [b]) bs)"

definition split_first :: "nat \<Rightarrow> nat \<times> nat" where
  "split_first first =
     (if first < 40 then (0, first) else if first < 80 then (1, first - 40) else (2, first - 80))"

definition decodeOidContent :: "bytes \<Rightarrow> jsstr res" where
  "decodeOidContent buf =
     (if length buf = 0 then Inl (OidE Oid_empty)
      else bindR (oid_scan [] [] buf) (\<lambda>arcs.
        let (a1, a2) = split_first (hd arcs) in
        Inr (join_char 46 (digits_of a1 # digits_of a2 # map digits_of (tl arcs)))))"

section \<open>Canonical decimal text\<close>

definition canon_num :: "jsstr \<Rightarrow> bool" where
  "canon_num x \<longleftrightarrow> x \<noteq> [] \<and> (\<forall>c \<in> set x. 48 \<le> c \<and> c \<le> 57) \<and> \<not> (1 < length x \<and> hd x = 48)"

lemma decimal_scan_parse: "(\<forall>c \<in> set x. 48 \<le> c \<and> c \<le> 57) \<Longrightarrow>
    decimal_scan e (int v) x = Inr (int (foldl (\<lambda>v c. v * 10 + (c - 48)) v x))"
proof (induction x arbitrary: v)
  case (Cons c x)
  have "decimal_scan e (int v) (c # x) = decimal_scan e (int (v * 10 + (c - 48))) x"
    using Cons.prems by (simp add: algebra_simps)
  also have "\<dots> = Inr (int (foldl (\<lambda>v c. v * 10 + (c - 48)) (v * 10 + (c - 48)) x))"
    using Cons.prems by (intro Cons.IH) simp
  finally show ?case by simp
qed simp

lemma digits_of_chars: "c \<in> set (digits_of n) \<Longrightarrow> 48 \<le> c \<and> c \<le> 57"
proof (induction n rule: digits_of.induct)
  case (1 n)
  show ?case
  proof (cases "n < 10")
    case False
    have "c \<in> set (digits_of (n div 10)) \<or> c = 48 + n mod 10"
      using 1(2) False by (subst (asm) digits_of.simps) auto
    moreover have "n mod 10 < 10" by simp
    ultimately show ?thesis using 1(1) False by auto
  qed (use 1(2) in \<open>subst (asm) digits_of.simps, auto\<close>)
qed

lemma parse_digits [simp]: "parse_dec (digits_of n) = n"
  using decimal_scan_parse[of "digits_of n" undefined 0] digits_of_chars
    decimal_scan_digits[of undefined n] by (auto simp: parse_dec_def)

lemma canon_digits [simp]: "canon_num (digits_of n)"
  using digits_of_chars[of _ n] digits_of_hd[of n]
  by (auto simp: canon_num_def) (simp add: digits_of.simps)

lemma canon_num_iff: "canon_num x \<longleftrightarrow> x = digits_of (parse_dec x)"
proof
  assume c: "canon_num x"
  have "decimal_scan undefined 0 x = Inr (int (parse_dec x))"
    using decimal_scan_parse[of x undefined 0] c by (simp add: canon_num_def parse_dec_def)
  then show "x = digits_of (parse_dec x)"
    using decimal_scan_unique[of undefined x "int (parse_dec x)"] c by (auto simp: canon_num_def)
qed (metis canon_digits)

lemma dotted_scan_iff:
  assumes "\<forall>c \<in> set pre. 48 \<le> c \<and> c \<le> 57"
    and "k = length pre" and "lz = (1 < length pre \<and> hd pre = 48)"
    and "pre \<noteq> [] \<Longrightarrow> prev = last pre"
  shows "dotted_scan a k lz prev s \<longleftrightarrow>
     (\<forall>x \<in> set (split_char 46 (pre @ s)). canon_num x) \<and> 2 \<le> a + length (split_char 46 (pre @ s))"
  using assms
proof (induction s arbitrary: a k lz prev pre)
  case Nil
  then have "46 \<notin> set pre" by auto
  then have "split_char 46 pre = [pre]" using split_char_nosep[of 46 pre "[]"] by simp
  then show ?case using Nil by (auto simp: canon_num_def)
next
  case (Cons c s)
  have np: "46 \<notin> set pre" using Cons.prems(1) by auto
  show ?case
  proof (cases "c = 46")
    case True
    have "dotted_scan (a + 1) 0 False 46 s \<longleftrightarrow>
       (\<forall>x \<in> set (split_char 46 s). canon_num x) \<and> 2 \<le> a + 1 + length (split_char 46 s)"
      using Cons.IH[of "[]" 0 False 46 "a + 1"] by simp
    then show ?thesis using True np Cons.prems
      by (auto simp: split_char_sep canon_num_def)
  next
    case False
    show ?thesis
    proof (cases "48 \<le> c \<and> c \<le> 57")
      case True
      have "dotted_scan a (k + 1) (lz \<or> k = 1 \<and> prev = 48) c s \<longleftrightarrow>
        (\<forall>x \<in> set (split_char 46 ((pre @ [c]) @ s)). canon_num x) \<and>
        2 \<le> a + length (split_char 46 ((pre @ [c]) @ s))"
      proof (rule Cons.IH)
        show "(lz \<or> k = 1 \<and> prev = 48) = (1 < length (pre @ [c]) \<and> hd (pre @ [c]) = 48)"
          using Cons.prems by (cases pre) auto
      qed (use Cons.prems True in auto)
      then show ?thesis using False True by simp
    next
      case bad: False
      have "\<exists>x \<in> set (split_char 46 (pre @ c # s)). c \<in> set x"
        using False np split_char_nosep[of 46 "pre @ [c]" s] by (auto split: list.splits)
      then have "\<exists>x \<in> set (split_char 46 (pre @ c # s)). \<not> canon_num x"
        using bad by (auto simp: canon_num_def)
      then show ?thesis using False bad by auto
    qed
  qed
qed

lemma isDottedDecimal_iff:
  "isDottedDecimal_canonical s \<longleftrightarrow> (\<exists>arcs. 2 \<le> length arcs \<and> s = join_char 46 (map digits_of arcs))"
proof
  assume d: "isDottedDecimal_canonical s"
  then have h: "\<forall>x \<in> set (split_char 46 s). canon_num x" "2 \<le> length (split_char 46 s)"
    using dotted_scan_iff[of "[]" 0 False 0 0 s]
    by (auto simp: isDottedDecimal_canonical_def split: if_splits)
  have "split_char 46 s = map digits_of (map parse_dec (split_char 46 s))"
    using h(1) canon_num_iff by (auto simp: o_def intro!: nth_equalityI)
  then show "\<exists>arcs. 2 \<le> length arcs \<and> s = join_char 46 (map digits_of arcs)"
    using h(2) join_split[of 46 s] by (metis length_map)
next
  assume "\<exists>arcs. 2 \<le> length arcs \<and> s = join_char 46 (map digits_of arcs)"
  then obtain arcs where a: "2 \<le> length arcs" and s: "s = join_char 46 (map digits_of arcs)" by blast
  have "split_char 46 s = map digits_of arcs"
    unfolding s using a digits_of_chars by (intro split_join) (auto, fastforce)
  moreover have "s \<noteq> []"
    using calculation a by (cases arcs) auto
  ultimately show "isDottedDecimal_canonical s"
    using dotted_scan_iff[of "[]" 0 False 0 0 s] a by (auto simp: isDottedDecimal_canonical_def)
qed

section \<open>Sub-identifier octets\<close>

lemma fill128_map: "fill128 n False v =
    map (\<lambda>k. word_of_nat ((drop_bit (7 * k) v AND 0x7F) OR 0x80)) (rev [0..<n])"
proof (induction n arbitrary: v)
  case (Suc n)
  have e: "[0..<Suc n] = 0 # map Suc [0..<n]" by (simp add: map_Suc_upt upt_conv_Cons del: upt_Suc)
  have "drop_bit (7 * Suc k) v = drop_bit (7 * k) (v div 128)" for k
    by (simp add: drop_bit_eq_div div_mult2_eq power_add)
  then show ?case unfolding e by (simp add: Suc rev_map o_def del: upt_Suc)
qed simp

lemma subid_octets_b128:
  "subid_octets v = (if count128 v > OID_MAX_SUBIDENTIFIER_BYTES
     then Inl (OidE Oid_subidentifier_too_large) else Inr (b128 v))"
proof -
  obtain n where n: "count128 v = Suc n" using count128_bounds(3)[of v] by (cases "count128 v") auto
  have e: "[0..<Suc n] = 0 # map Suc [0..<n]" by (simp add: map_Suc_upt upt_conv_Cons del: upt_Suc)
  have d: "drop_bit (7 * Suc k) v = drop_bit (7 * k) (v div 128)" for k
    by (simp add: drop_bit_eq_div div_mult2_eq power_add)
  have "map (\<lambda>k. let octet = drop_bit (7 * k) v AND 0x7F in
          word_of_nat (if k = 0 then octet else octet OR 0x80)) (rev [0..<count128 v]) = b128 v"
    unfolding n e b128_split using fill128_map[of n "v div 128"]
    by (simp add: n Let_def rev_map o_def d final_octet del: upt_Suc mult_Suc_right)
  then show ?thesis by (simp add: subid_octets_def)
qed

lemma mapR_subid: "mapR subid_octets vs = Inr os \<longleftrightarrow>
    (\<forall>v \<in> set vs. count128 v \<le> OID_MAX_SUBIDENTIFIER_BYTES) \<and> os = map b128 vs"
  by (induction vs arbitrary: os) (auto simp: res_simps subid_octets_b128)

lemma unat_and_80: "unat (b::byte) AND 0x80 = 0 \<longleftrightarrow> unat b < 128"
  by (rule nat_and_80_byte) simp

lemma oid_scan_cont: "cont_ok (grp @ cs) \<Longrightarrow> length (grp @ cs) \<le> OID_MAX_SUBIDENTIFIER_BYTES \<Longrightarrow>
    oid_scan arcs grp (cs @ rest) = oid_scan arcs (grp @ cs) rest"
proof (induction cs arbitrary: grp)
  case (Cons c cs)
  have c: "128 \<le> unat c" "grp = [] \<Longrightarrow> c \<noteq> 0x80" using Cons.prems(1) by (auto simp: cont_ok_def)
  have "oid_scan arcs (grp @ [c]) (cs @ rest) = oid_scan arcs (grp @ [c] @ cs) rest"
    using Cons.IH[of "grp @ [c]"] Cons.prems by simp
  then show ?case using c Cons.prems(2) by (auto simp: unat_and_80)
qed simp

lemma oid_scan_b128:
  assumes "count128 v \<le> OID_MAX_SUBIDENTIFIER_BYTES" and "length arcs < OID_MAX_SUBIDENTIFIERS"
  shows "oid_scan arcs [] (b128 v @ rest) = oid_scan (arcs @ [v]) [] rest"
proof -
  from b128_ok_b128[of v] obtain cs b where b: "b128 v = cs @ [b]" "unat b < 128" "cont_ok cs"
    by (auto simp: b128_ok_def)
  have len: "length cs < OID_MAX_SUBIDENTIFIER_BYTES"
    using assms(1) length_b128[of v] b(1) by simp
  have ne: "b \<noteq> 0x80" using b(2) by (auto simp: byte_eq_80)
  have "val128 (cs @ [b]) = v" using val128_b128[of v] b(1) by simp
  then show ?thesis
    using oid_scan_cont[of "[]" cs arcs "b # rest"] b(2,3) ne len assms(2)
    by (simp add: b(1) unat_and_80)
qed

lemma oid_scan_concat:
  "(\<forall>v \<in> set vs. count128 v \<le> OID_MAX_SUBIDENTIFIER_BYTES) \<Longrightarrow>
     length arcs + length vs \<le> OID_MAX_SUBIDENTIFIERS \<Longrightarrow>
     oid_scan arcs [] (concat (map b128 vs)) = Inr (arcs @ vs)"
  by (induction vs arbitrary: arcs) (auto simp: oid_scan_b128)

lemma oid_scan_Inr:
  "oid_scan arcs grp bs = Inr subs \<Longrightarrow> cont_ok grp \<Longrightarrow> length grp \<le> OID_MAX_SUBIDENTIFIER_BYTES \<Longrightarrow>
   length arcs \<le> OID_MAX_SUBIDENTIFIERS \<Longrightarrow>
     \<exists>vs. subs = arcs @ vs \<and> grp @ bs = concat (map b128 vs) \<and>
       (\<forall>v \<in> set vs. count128 v \<le> OID_MAX_SUBIDENTIFIER_BYTES) \<and> length subs \<le> OID_MAX_SUBIDENTIFIERS"
proof (induction arcs grp bs rule: oid_scan.induct)
  case (1 arcs grp)
  then show ?case by (auto split: if_splits)
next
  case (2 arcs grp b bs)
  show ?case
  proof (cases "unat b < 128")
    case True
    let ?v = "val128 (grp @ [b])"
    have ok: "b128_ok (grp @ [b])" using True 2 by (auto simp: b128_ok_def)
    have v: "b128 ?v = grp @ [b]" by (rule b128_val128[OF ok])
    have lt: "length grp < OID_MAX_SUBIDENTIFIER_BYTES" "length arcs < OID_MAX_SUBIDENTIFIERS"
      and nx: "oid_scan (arcs @ [?v]) [] bs = Inr subs" and g: "\<not> (grp = [] \<and> b = 0x80)"
      using "2.prems"(1) True by (auto simp: unat_and_80 split: if_splits)
    have "count128 ?v \<le> OID_MAX_SUBIDENTIFIER_BYTES" using lt v length_b128[of ?v] by simp
    moreover have "\<exists>vs. subs = (arcs @ [?v]) @ vs \<and> [] @ bs = concat (map b128 vs) \<and>
       (\<forall>v \<in> set vs. count128 v \<le> OID_MAX_SUBIDENTIFIER_BYTES) \<and> length subs \<le> OID_MAX_SUBIDENTIFIERS"
      by (rule "2.IH"(1)) (use g lt True nx in \<open>auto simp: unat_and_80 cont_ok_def\<close>)
    ultimately obtain vs where "subs = arcs @ ?v # vs" "bs = concat (map b128 vs)"
       "\<forall>v \<in> set (?v # vs). count128 v \<le> OID_MAX_SUBIDENTIFIER_BYTES" "length subs \<le> OID_MAX_SUBIDENTIFIERS"
      by auto
    then show ?thesis using v by (intro exI[of _ "?v # vs"]) (simp del: val128_snoc)
  next
    case False
    have lt: "length grp < OID_MAX_SUBIDENTIFIER_BYTES"
      and nx: "oid_scan arcs (grp @ [b]) bs = Inr subs" and g: "\<not> (grp = [] \<and> b = 0x80)"
      using "2.prems"(1) False by (auto simp: unat_and_80 split: if_splits)
    have "cont_ok (grp @ [b])" using "2.prems"(2) g False by (cases grp) (auto simp: cont_ok_def)
    then have "\<exists>vs. subs = arcs @ vs \<and> (grp @ [b]) @ bs = concat (map b128 vs) \<and>
       (\<forall>v \<in> set vs. count128 v \<le> OID_MAX_SUBIDENTIFIER_BYTES) \<and> length subs \<le> OID_MAX_SUBIDENTIFIERS"
      by (intro "2.IH"(2)) (use g lt False nx "2.prems"(4) in \<open>auto simp: unat_and_80\<close>)
    then show ?thesis by simp
  qed
qed

lemma b128_ne [simp]: "b128 v \<noteq> []"
  by (simp add: b128_split)

lemma oid_scan_iff: "oid_scan [] [] bs = Inr vs \<longleftrightarrow> bs = concat (map b128 vs) \<and>
    (\<forall>v \<in> set vs. count128 v \<le> OID_MAX_SUBIDENTIFIER_BYTES) \<and> length vs \<le> OID_MAX_SUBIDENTIFIERS"
  using oid_scan_concat[of vs "[]"] oid_scan_Inr[of "[]" "[]" bs vs] by (auto simp: cont_ok_def)

section \<open>Arcs and sub-identifiers\<close>

definition arcs_ok :: "nat list \<Rightarrow> bool" where
  "arcs_ok arcs \<longleftrightarrow> 2 \<le> length arcs \<and> arcs ! 0 \<le> 2 \<and> (arcs ! 0 < 2 \<longrightarrow> arcs ! 1 \<le> 39) \<and>
     length arcs - 1 \<le> OID_MAX_SUBIDENTIFIERS"

definition subids_of :: "nat list \<Rightarrow> nat list" where
  "subids_of arcs = (arcs ! 0 * 40 + arcs ! 1) # drop 2 arcs"

definition arcs_of :: "nat list \<Rightarrow> nat list" where
  "arcs_of subs = (let (a1, a2) = split_first (hd subs) in a1 # a2 # tl subs)"

lemma arcs_subids: "arcs_ok arcs \<Longrightarrow> arcs_of (subids_of arcs) = arcs"
proof -
  assume a: "arcs_ok arcs"
  then obtain a1 a2 rest where e: "arcs = a1 # a2 # rest"
    by (cases arcs; cases "tl arcs") (auto simp: arcs_ok_def)
  have "a1 = 0 \<or> a1 = 1 \<or> a1 = 2" using a e by (auto simp: arcs_ok_def)
  then show ?thesis using a
    by (auto simp: e arcs_ok_def arcs_of_def subids_of_def split_first_def)
qed

lemma subids_arcs: "subs \<noteq> [] \<Longrightarrow> length subs \<le> OID_MAX_SUBIDENTIFIERS \<Longrightarrow>
    arcs_ok (arcs_of subs) \<and> subids_of (arcs_of subs) = subs"
  by (cases subs) (auto simp: arcs_ok_def arcs_of_def subids_of_def split_first_def)

lemma digits_no_dot: "46 \<notin> set (digits_of n)"
  using digits_of_chars[of 46 n] by auto

lemma split_join_digits: "arcs \<noteq> [] \<Longrightarrow>
    split_char 46 (join_char 46 (map digits_of arcs)) = map digits_of arcs"
  using digits_no_dot by (intro split_join) auto

lemma encodeOid_iff: "encodeOidContent v = Inr bs \<longleftrightarrow>
   (\<exists>arcs. v = Str (join_char 46 (map digits_of arcs)) \<and> arcs_ok arcs \<and>
      (\<forall>s \<in> set (subids_of arcs). count128 s \<le> OID_MAX_SUBIDENTIFIER_BYTES) \<and>
      bs = concat (map b128 (subids_of arcs)))"
proof -
  have inner: "encodeOidContent (Str (join_char 46 (map digits_of arcs))) = Inr bs \<longleftrightarrow>
      arcs_ok arcs \<and> (\<forall>s \<in> set (subids_of arcs). count128 s \<le> OID_MAX_SUBIDENTIFIER_BYTES) \<and>
      bs = concat (map b128 (subids_of arcs))" if "2 \<le> length arcs" for arcs
  proof -
    have ne: "arcs \<noteq> []" using that by auto
    have d: "isDottedDecimal_canonical (join_char 46 (map digits_of arcs))"
      using that by (auto simp: isDottedDecimal_iff)
    have p: "map parse_dec (map digits_of arcs) = arcs" by (simp add: o_def)
    have i: "map digits_of arcs ! 0 = digits_of (arcs ! 0)" "map digits_of arcs ! 1 = digits_of (arcs ! 1)"
      using that ne by (auto simp: nth_map)
    show ?thesis
      using that
      by (auto simp: encodeOidContent_def assertCanonicalOid_def d split_join_digits[OF ne] p i
          Let_def res_simps mapR_subid subid_octets_b128 arcs_ok_def subids_of_def simp del: map_map split: if_splits)
  qed
  show ?thesis
  proof
    assume e: "encodeOidContent v = Inr bs"
    then obtain str where v: "v = Str str" and "isDottedDecimal_canonical str"
      by (auto simp: encodeOidContent_def assertCanonicalOid_def res_simps split: js.splits if_splits)
    then obtain arcs where "2 \<le> length arcs" "str = join_char 46 (map digits_of arcs)"
      by (auto simp: isDottedDecimal_iff)
    then show "\<exists>arcs. v = Str (join_char 46 (map digits_of arcs)) \<and> arcs_ok arcs \<and>
      (\<forall>s \<in> set (subids_of arcs). count128 s \<le> OID_MAX_SUBIDENTIFIER_BYTES) \<and>
      bs = concat (map b128 (subids_of arcs))" using inner e v by blast
  qed (use inner in \<open>auto simp: arcs_ok_def\<close>)
qed

lemma decodeOid_iff: "decodeOidContent bs = Inr str \<longleftrightarrow>
   (\<exists>subs. subs \<noteq> [] \<and> bs = concat (map b128 subs) \<and>
      (\<forall>s \<in> set subs. count128 s \<le> OID_MAX_SUBIDENTIFIER_BYTES) \<and>
      length subs \<le> OID_MAX_SUBIDENTIFIERS \<and> str = join_char 46 (map digits_of (arcs_of subs)))"
proof -
  have ne: "concat (map b128 vs) \<noteq> [] \<longleftrightarrow> vs \<noteq> []" for vs
    by (cases vs) auto
  have "decodeOidContent bs = Inr str \<longleftrightarrow>
      (\<exists>subs. bs \<noteq> [] \<and> oid_scan [] [] bs = Inr subs \<and> str = join_char 46 (map digits_of (arcs_of subs)))"
    by (auto simp: decodeOidContent_def res_simps arcs_of_def split: prod.splits)
  also have "\<dots> \<longleftrightarrow> (\<exists>subs. subs \<noteq> [] \<and> bs = concat (map b128 subs) \<and>
      (\<forall>s \<in> set subs. count128 s \<le> OID_MAX_SUBIDENTIFIER_BYTES) \<and>
      length subs \<le> OID_MAX_SUBIDENTIFIERS \<and> str = join_char 46 (map digits_of (arcs_of subs)))"
    unfolding oid_scan_iff by (metis ne)
  finally show ?thesis .
qed

lemma oid_codec: "encodeOidContent (Str d) = Inr bs \<longleftrightarrow> decodeOidContent bs = Inr d"
proof
  assume "encodeOidContent (Str d) = Inr bs"
  then obtain arcs where a: "d = join_char 46 (map digits_of arcs)" "arcs_ok arcs"
      "\<forall>s \<in> set (subids_of arcs). count128 s \<le> OID_MAX_SUBIDENTIFIER_BYTES"
      "bs = concat (map b128 (subids_of arcs))" by (auto simp: encodeOid_iff)
  have "length (subids_of arcs) = length arcs - 1" using a(2) by (auto simp: subids_of_def arcs_ok_def)
  then show "decodeOidContent bs = Inr d"
    using a arcs_subids[OF a(2)] unfolding decodeOid_iff
    by (intro exI[of _ "subids_of arcs"]) (auto simp: arcs_ok_def subids_of_def)
next
  assume "decodeOidContent bs = Inr d"
  then obtain subs where "subs \<noteq> []" "bs = concat (map b128 subs)"
      "\<forall>s \<in> set subs. count128 s \<le> OID_MAX_SUBIDENTIFIER_BYTES" "length subs \<le> OID_MAX_SUBIDENTIFIERS"
      "d = join_char 46 (map digits_of (arcs_of subs))" by (auto simp: decodeOid_iff)
  then show "encodeOidContent (Str d) = Inr bs"
    using subids_arcs[of subs] by (auto simp: encodeOid_iff intro!: exI[of _ "arcs_of subs"])
qed

end
