(* ===== verification/Asn1_Encode.thy ===== *)
theory Asn1_Encode
  imports Asn1_Types Base128 Oid_Codec
begin

text \<open>
  lib/asn1-der.js, the encoder: length and identifier octets, \<open>encodeTLV\<close>, \<open>encodeConstructed\<close>,
  and INTEGER content octets.  The values the code type-checks (a length, a tag number, class bits,
  a content) are \<open>js\<close> values.
\<close>

section \<open>Length octets\<close>

text \<open>The counting loop \<open>for (probe = n; probe > 0; probe = floor(probe / 256)) count++\<close>.\<close>

function count256 :: "nat \<Rightarrow> nat" where
  "count256 n = (if n > 0 then Suc (count256 (n div 256)) else 0)"
  by pat_completeness auto
termination by (relation "measure id") auto

declare count256.simps [simp del]

definition encodeLength :: "js \<Rightarrow> bytes res" where
  "encodeLength v = (case v of
      Num k \<Rightarrow>
        if k < 0 then Inl (Asn1E Asn1_bad_length)
        else let n = nat k in
          if n < 0x80 then Inr [word_of_nat n]
          else let count = count256 n in
            if count > 126 then Inl (Asn1E Asn1_length_too_large)
            else Inr (word_of_nat (0x80 OR count) # be_bytes count n)
    | _ \<Rightarrow> Inl (Asn1E Asn1_bad_length))"

section \<open>Identifier octets\<close>

definition encodeIdentifier :: "js \<Rightarrow> bool \<Rightarrow> js \<Rightarrow> bytes res" where
  "encodeIdentifier classBits con tagNo = (case tagNo of
      Num t \<Rightarrow>
        if t < 0 then Inl (Asn1E Asn1_bad_tag)
        else (case classBits of
          Num c \<Rightarrow>
            if to_int32 c \<noteq> c \<or> c AND NOT (0xC0 OR 0x20) \<noteq> 0 then Inl (Asn1E Asn1_bad_tag)
            else if t > 0x0fffffff then Inl (Asn1E Asn1_tag_too_large)
            else let cls = nat c; tag = nat t in
              if cls AND CLASS_MASK = CLASS_UNIVERSAL \<and> reservedUniversalTag (Num t)
              then Inl (Asn1E Asn1_reserved_tag)
              else let lead = cls OR (if con then CONSTRUCTED_BIT else 0) in
                if tag < 0x1f then Inr [word_of_nat (lead OR tag)]
                else Inr (word_of_nat (lead OR 0x1f) # fill128 (count128 tag) True tag)
        | _ \<Rightarrow> Inl (Asn1E Asn1_bad_tag))
    | _ \<Rightarrow> Inl (Asn1E Asn1_bad_tag))"

section \<open>TLVs\<close>

definition is_byte_value :: "js \<Rightarrow> byte res" where
  "is_byte_value v = (case v of
      Num n \<Rightarrow> if n < 0 \<or> n > 255 then Inl (Asn1E Asn1_not_buffer) else Inr (word_of_int n)
    | _ \<Rightarrow> Inl (Asn1E Asn1_not_buffer))"

definition contentBytes :: "js \<Rightarrow> bytes res" where
  "contentBytes v = (case v of
      Undef \<Rightarrow> Inr []
    | Null \<Rightarrow> Inr []
    | Buf b \<Rightarrow> Inr b
    | Arr xs \<Rightarrow> mapR is_byte_value xs
    | _ \<Rightarrow> Inl (Asn1E Asn1_not_buffer))"

definition encodeTLV :: "js \<Rightarrow> bool \<Rightarrow> js \<Rightarrow> js \<Rightarrow> bytes res" where
  "encodeTLV classBits con tagNo cont =
     bindR (contentBytes cont) (\<lambda>body.
     bindR (encodeIdentifier classBits con tagNo) (\<lambda>i.
     bindR (encodeLength (Num (int (length body)))) (\<lambda>l. Inr (i @ l @ body))))"

definition encodeConstructed :: "nat \<Rightarrow> nat \<Rightarrow> bytes list \<Rightarrow> bytes res" where
  "encodeConstructed classBits tagNo parts =
     (let total = sum_list (map length parts) in
      bindR (encodeIdentifier (Num (int classBits)) True (Num (int tagNo))) (\<lambda>i.
      bindR (encodeLength (Num (int total))) (\<lambda>l. Inr (i @ l @ concat parts))))"

definition universal :: "nat \<Rightarrow> bool \<Rightarrow> bytes \<Rightarrow> bytes res" where
  "universal tagNo con cont = encodeTLV (Num (int CLASS_UNIVERSAL)) con (Num (int tagNo)) (Buf cont)"

text \<open>\<open>node.children || []\<close>: the children of a node that has none are the empty list.\<close>

definition sequenceTlv :: "node \<Rightarrow> bytes res" where
  "sequenceTlv nd =
     (let body = (case content nd of
                    Some c \<Rightarrow> c
                  | None \<Rightarrow> concat (map n_bytes (case children nd of None \<Rightarrow> [] | Some ks \<Rightarrow> ks)))
      in bindR (encodeIdentifier (Num (int CLASS_UNIVERSAL)) True (Num (int TAG_SEQUENCE))) (\<lambda>i.
         bindR (encodeLength (Num (int (length body)))) (\<lambda>l. Inr (i @ l @ body))))"

section \<open>INTEGER content\<close>

text \<open>The negative branch searches the least length whose two's complement holds the value.\<close>

function neg_len :: "int \<Rightarrow> nat \<Rightarrow> nat" where
  "neg_len v len = (if v < - (2 ^ (8 * len - 1)) then neg_len v (len + 1) else len)"
  by pat_completeness auto
termination
proof (relation "measure (\<lambda>(v, len). nat (- v) - len)", goal_cases)
  case (2 v len)
  have e: "8 * len - 1 < 2 ^ (8 * len - 1)" by (rule less_exp)
  have l: "len \<le> 2 ^ (8 * len - 1)" using e by linarith
  then have "int len \<le> int (2 ^ (8 * len - 1))" by (simp only: of_nat_le_iff)
  also have "\<dots> = 2 ^ (8 * len - 1)" by simp
  also have "\<dots> < - v" using 2 by linarith
  finally have "len < nat (- v)" by linarith
  then show ?case by (simp only: in_measure prod.case diff_less_mono2)
qed simp

declare neg_len.simps [simp del]

definition intToDer :: "js \<Rightarrow> bytes res" where
  "intToDer x =
     bindR (case x of
              Num n \<Rightarrow> if is_safe_integer n then Inr n else Inl (Asn1E Asn1_bad_integer)
            | Big n \<Rightarrow> Inr n
            | _ \<Rightarrow> Inl (Asn1E Asn1_bad_integer))
     (\<lambda>v.
       if v = 0 then Inr [0]
       else if v > 0 then
         let n = count256 (nat v);
             pad = (if drop_bit (8 * (n - 1)) (nat v) AND 0xFF \<ge> 0x80 then 1 else 0)
         in Inr (be_bytes (n + pad) (nat v))
       else
         let len = neg_len v 1; tc = 2 ^ (8 * len) + v
         in Inr (be_bytes len (nat tc)))"

definition intContent :: "js \<Rightarrow> bytes res" where
  "intContent v =
     bindR (case v of
        Buf b \<Rightarrow>
          if length b = 0 then Inl (Asn1E Asn1_bad_integer)
          else if length b > 1 \<and> b ! 0 = 0x00 \<and> unat (b ! 1) AND 0x80 = 0
            then Inl (Asn1E Asn1_non_minimal_integer)
          else if length b > 1 \<and> b ! 0 = 0xff \<and> unat (b ! 1) AND 0x80 \<noteq> 0
            then Inl (Asn1E Asn1_non_minimal_integer)
          else Inr b
      | _ \<Rightarrow> intToDer v)
     (\<lambda>c. if length c > DER_MAX_INTEGER_BYTES + 1 then Inl (Asn1E Asn1_integer_too_large) else Inr c)"

section \<open>Lemmas: octet counts\<close>

lemma count256_bounds: "n < 256 ^ count256 n" "0 < n \<Longrightarrow> 256 ^ (count256 n - 1) \<le> n" "0 < n \<Longrightarrow> 0 < count256 n"
proof -
  have "n < 256 ^ count256 n \<and> (0 < n \<longrightarrow> 256 ^ (count256 n - 1) \<le> n \<and> 0 < count256 n)"
  proof (induction n rule: count256.induct)
    case (1 n)
    show ?case
    proof (cases "n = 0")
      case False
      let ?c = "count256 (n div 256)"
      from False 1 have IH: "n div 256 < 256 ^ ?c"
        "0 < n div 256 \<longrightarrow> 256 ^ (?c - 1) \<le> n div 256 \<and> 0 < ?c" by auto
      have "n < (n div 256 + 1) * 256" by simp
      also have "\<dots> \<le> 256 ^ ?c * 256" using IH(1) by (intro mult_right_mono) auto
      finally have up: "n < 256 ^ Suc ?c" by simp
      have "256 ^ ?c \<le> n"
      proof (cases "n div 256 = 0")
        case True
        then show ?thesis using False by (simp add: count256.simps[of 0])
      next
        case nz: False
        then have "256 ^ ?c = 256 ^ (?c - 1) * (256::nat)" using IH(2) by (cases ?c) auto
        also have "\<dots> \<le> n div 256 * 256" using IH(2) nz by (intro mult_right_mono) auto
        finally show ?thesis by (meson div_times_less_eq_dividend le_trans)
      qed
      then show ?thesis using False up by (subst (1 2 3) count256.simps) simp
    qed (simp add: count256.simps)
  qed
  then show "n < 256 ^ count256 n" "0 < n \<Longrightarrow> 256 ^ (count256 n - 1) \<le> n" "0 < n \<Longrightarrow> 0 < count256 n"
    by auto
qed

lemma count256_unique: "256 ^ k \<le> n \<Longrightarrow> n < 256 ^ Suc k \<Longrightarrow> count256 n = Suc k"
proof (induction k arbitrary: n)
  case 0
  then show ?case by (simp add: count256.simps[of n] count256.simps[of 0])
next
  case (Suc k)
  have "256 ^ k \<le> n div 256" using Suc.prems(1) by (simp add: less_eq_div_iff_mult_less_eq mult.commute)
  moreover have "n div 256 < 256 ^ Suc k" using Suc.prems(2) by (simp add: less_mult_imp_div_less mult.commute)
  moreover have "0 < n" using Suc.prems(1) by (cases n) auto
  ultimately show ?case using Suc.IH by (subst count256.simps) simp
qed

lemma count256_le: "n < 256 ^ k \<Longrightarrow> count256 n \<le> k"
proof (cases "n = 0")
  case False
  assume n: "n < 256 ^ k"
  show ?thesis
  proof (rule ccontr)
    assume "\<not> count256 n \<le> k"
    then have "256 ^ k \<le> (256::nat) ^ (count256 n - 1)" by (intro power_increasing) auto
    also have "\<dots> \<le> n" using count256_bounds(2)[of n] False by blast
    finally show False using n by linarith
  qed
qed (simp add: count256.simps)

end
