(* ===== verification/Asn1_Read.thy ===== *)
theory Asn1_Read
  imports Asn1_Decode Asn1_Encode
begin

text \<open>
  lib/asn1-der.js, the typed readers \<open>read.*\<close> that have no text or time in them: BOOLEAN, INTEGER,
  ENUMERATED, BIT STRING, OCTET STRING, NULL, OBJECT IDENTIFIER, and their implicitly tagged forms.
  A primitive node always carries its content; a node built by hand without one makes the code
  dereference \<open>null\<close>, the \<open>TypeErr\<close> of \<open>content_of\<close>.
\<close>

definition expectUniversal :: "node \<Rightarrow> nat \<Rightarrow> unit res" where
  "expectUniversal n tag =
     (if tagClass n \<noteq> Universal \<or> tagNumber n \<noteq> tag then Inl (Asn1E Asn1_unexpected_tag) else Inr ())"

definition expectPrimitive :: "node \<Rightarrow> unit res" where
  "expectPrimitive n = (if constructed n then Inl (Asn1E Asn1_expected_primitive) else Inr ())"

text \<open>The test the implicit readers open with.\<close>

definition expectContext :: "node \<Rightarrow> nat \<Rightarrow> unit res" where
  "expectContext n tag =
     (if tagClass n \<noteq> Context \<or> tagNumber n \<noteq> tag then Inl (Asn1E Asn1_unexpected_tag) else Inr ())"

definition content_of :: "node \<Rightarrow> bytes res" where
  "content_of n = (case content n of None \<Rightarrow> Inl TypeErr | Some c \<Rightarrow> Inr c)"

section \<open>BOOLEAN and NULL\<close>

definition boolean_content :: "bytes \<Rightarrow> bool res" where
  "boolean_content c =
     (if length c \<noteq> 1 then Inl (Asn1E Asn1_bad_boolean)
      else if c ! 0 = 0x00 then Inr False
      else if c ! 0 = 0xff then Inr True
      else Inl (Asn1E Asn1_bad_boolean))"

definition readBoolean :: "node \<Rightarrow> bool res" where
  "readBoolean n = bindR (expectUniversal n TAG_BOOLEAN) (\<lambda>_. bindR (expectPrimitive n) (\<lambda>_.
     bindR (content_of n) boolean_content))"

definition readBooleanImplicit :: "node \<Rightarrow> nat \<Rightarrow> bool res" where
  "readBooleanImplicit n tag = bindR (expectContext n tag) (\<lambda>_. bindR (expectPrimitive n) (\<lambda>_.
     bindR (content_of n) boolean_content))"

definition null_content :: "bytes \<Rightarrow> unit res" where
  "null_content c = (if length c \<noteq> 0 then Inl (Asn1E Asn1_bad_null) else Inr ())"

definition readNull :: "node \<Rightarrow> unit res" where
  "readNull n = bindR (expectUniversal n TAG_NULL) (\<lambda>_. bindR (expectPrimitive n) (\<lambda>_.
     bindR (content_of n) null_content))"

definition readNullImplicit :: "node \<Rightarrow> nat \<Rightarrow> unit res" where
  "readNullImplicit n tag = bindR (expectContext n tag) (\<lambda>_. bindR (expectPrimitive n) (\<lambda>_.
     bindR (content_of n) null_content))"

section \<open>INTEGER and ENUMERATED\<close>

definition integer_content :: "bytes \<Rightarrow> int res" where
  "integer_content c =
     (if length c = 0 then Inl (Asn1E Asn1_bad_integer)
      else if length c > DER_MAX_INTEGER_BYTES + 1 then Inl (Asn1E Asn1_integer_too_large)
      else if length c > 1 \<and> c ! 0 = 0x00 \<and> unat (c ! 1) AND 0x80 = 0
        then Inl (Asn1E Asn1_non_minimal_integer)
      else if length c > 1 \<and> c ! 0 = 0xff \<and> unat (c ! 1) AND 0x80 \<noteq> 0
        then Inl (Asn1E Asn1_non_minimal_integer)
      else let neg = (unat (c ! 0) AND 0x80 \<noteq> 0); mag = int (be_val c)
        in Inr (if neg then mag - 2 ^ (8 * length c) else mag))"

definition readIntegerLikeContent :: "node \<Rightarrow> int res" where
  "readIntegerLikeContent n = bindR (expectPrimitive n) (\<lambda>_. bindR (content_of n) integer_content)"

definition readInteger :: "node \<Rightarrow> int res" where
  "readInteger n = bindR (expectUniversal n TAG_INTEGER) (\<lambda>_. readIntegerLikeContent n)"

definition readEnumerated :: "node \<Rightarrow> int res" where
  "readEnumerated n = bindR (expectUniversal n TAG_ENUMERATED) (\<lambda>_. readIntegerLikeContent n)"

definition readIntegerImplicit :: "node \<Rightarrow> nat \<Rightarrow> int res" where
  "readIntegerImplicit n tag = bindR (expectContext n tag) (\<lambda>_. readIntegerLikeContent n)"

section \<open>BIT STRING\<close>

text \<open>The result is the number of unused bits and the octets.\<close>

definition bit_string_content :: "bytes \<Rightarrow> (nat \<times> bytes) res" where
  "bit_string_content c =
     (if length c = 0 then Inl (Asn1E Asn1_bad_bit_string)
      else let unusedBits = unat (c ! 0) in
        if unusedBits > 7 then Inl (Asn1E Asn1_bad_bit_string)
        else if unusedBits > 0 \<and> length c = 1 then Inl (Asn1E Asn1_bad_bit_string)
        else if unusedBits > 0 \<and> length c > 1 \<and>
                unat (c ! (length c - 1)) AND (push_bit unusedBits 1 - 1) \<noteq> 0
          then Inl (Asn1E Asn1_bad_bit_string)
        else Inr (unusedBits, drop 1 c))"

definition readBitStringContent :: "node \<Rightarrow> (nat \<times> bytes) res" where
  "readBitStringContent n = bindR (expectPrimitive n) (\<lambda>_. bindR (content_of n) bit_string_content)"

definition readBitString :: "node \<Rightarrow> (nat \<times> bytes) res" where
  "readBitString n = bindR (expectUniversal n TAG_BIT_STRING) (\<lambda>_. readBitStringContent n)"

definition readBitStringImplicit :: "node \<Rightarrow> nat \<Rightarrow> (nat \<times> bytes) res" where
  "readBitStringImplicit n tag = bindR (expectContext n tag) (\<lambda>_. readBitStringContent n)"

section \<open>OCTET STRING and OBJECT IDENTIFIER\<close>

definition readOctetString :: "node \<Rightarrow> bytes res" where
  "readOctetString n = bindR (expectUniversal n TAG_OCTET_STRING) (\<lambda>_. bindR (expectPrimitive n) (\<lambda>_.
     content_of n))"

text \<open>The segments of a constructed context value decoded under BER.  An empty content is a Buffer,
  which is truthy: only \<open>null\<close> fails the last test.\<close>

fun implicit_segments :: "node list \<Rightarrow> bytes list res" where
  "implicit_segments [] = Inr []"
| "implicit_segments (seg # rest) =
     (if tagClass seg \<noteq> Universal \<or> tagNumber seg \<noteq> TAG_OCTET_STRING \<or> constructed seg
      then Inl (Asn1E Asn1_bad_constructed_string)
      else case content seg of
        None \<Rightarrow> Inl (Asn1E Asn1_bad_constructed_string)
      | Some b \<Rightarrow> bindR (implicit_segments rest) (\<lambda>bs. Inr (b # bs)))"

definition readOctetStringImplicit :: "node \<Rightarrow> nat \<Rightarrow> bytes res" where
  "readOctetStringImplicit n tag = bindR (expectContext n tag) (\<lambda>_.
     if constructed n \<and> n_ber n then
       (case children n of
          None \<Rightarrow> Inl TypeErr
        | Some ks \<Rightarrow> bindR (implicit_segments ks) (\<lambda>bs. Inr (concat bs)))
     else bindR (expectPrimitive n) (\<lambda>_. content_of n))"

definition readOid :: "node \<Rightarrow> jsstr res" where
  "readOid n = bindR (expectUniversal n TAG_OID) (\<lambda>_. bindR (expectPrimitive n) (\<lambda>_.
     bindR (content_of n) decodeOidContent))"

section \<open>Two's complement\<close>

definition twos :: "bytes \<Rightarrow> int" where
  "twos c = (if 128 \<le> unat (hd c) then int (be_val c) - 256 ^ length c else int (be_val c))"

definition fits :: "nat \<Rightarrow> int \<Rightarrow> bool" where
  "fits k v \<longleftrightarrow> - (128 * 256 ^ (k - 1)) \<le> v \<and> v < 128 * 256 ^ (k - 1)"

definition minimal :: "bytes \<Rightarrow> bool" where
  "minimal c \<longleftrightarrow> c \<noteq> [] \<and>
     (length c > 1 \<longrightarrow> \<not> (c ! 0 = 0 \<and> unat (c ! 1) < 128) \<and> \<not> (c ! 0 = 0xff \<and> 128 \<le> unat (c ! 1)))"

lemma pow_half: "0 < k \<Longrightarrow> (2::int) ^ (8 * k - 1) = 128 * 256 ^ (k - 1)"
proof -
  assume "0 < k"
  then obtain j where j: "k = Suc j" by (cases k) auto
  have "(2::int) ^ (8 * k - 1) = 2 ^ 7 * (2 ^ 8) ^ j" by (simp add: j power_add power_mult)
  then show ?thesis by (simp add: j)
qed

lemma pow_full: "(2::int) ^ (8 * k) = 256 ^ k"
  by (simp add: power_mult)

lemma be_val_half: "c \<noteq> [] \<Longrightarrow> 128 \<le> unat (hd c) \<longleftrightarrow> 128 * 256 ^ (length c - 1) \<le> be_val c"
proof (cases c)
  case (Cons b bs)
  have "be_val bs < 256 ^ length bs" by (rule be_val_bound)
  moreover have "128 * 256 ^ length bs \<le> unat b * 256 ^ length bs" if "128 \<le> unat b"
    using that by (intro mult_right_mono) auto
  moreover have "unat b * 256 ^ length bs \<le> 127 * 256 ^ length bs" if "\<not> 128 \<le> unat b"
    using that by (intro mult_right_mono) auto
  ultimately show ?thesis
    unfolding Cons list.sel be_val_Cons list.size(4) add_Suc_right add_0_right diff_Suc_1 by linarith
qed simp

lemma be_val_bound_int: "c \<noteq> [] \<Longrightarrow> int (be_val c) < 2 * (128 * 256 ^ (length c - 1))"
proof -
  assume "c \<noteq> []"
  then obtain k where k: "length c = Suc k" by (cases c) auto
  have "int (be_val c) < int (256 ^ length c)" using be_val_bound[of c] by (simp only: of_nat_less_iff)
  then show ?thesis by (simp add: k)
qed

lemma half_int: "c \<noteq> [] \<Longrightarrow> 128 \<le> unat (hd c) \<longleftrightarrow> 128 * 256 ^ (length c - 1) \<le> int (be_val c)"
  using be_val_half[of c] by (metis (mono_tags) of_nat_le_iff of_nat_mult of_nat_numeral of_nat_power)

lemma full_half: "c \<noteq> [] \<Longrightarrow> (256::int) ^ length c = 2 * (128 * 256 ^ (length c - 1))"
  by (cases c) auto

lemma fits_twos: "c \<noteq> [] \<Longrightarrow> fits (length c) (twos c)"
  using be_val_bound_int[of c] half_int[of c] full_half[of c]
  by (auto simp: fits_def twos_def)

lemma twos_inject: "c \<noteq> [] \<Longrightarrow> length c = length d \<Longrightarrow> twos c = twos d \<Longrightarrow> c = d"
proof -
  assume h: "c \<noteq> []" "length c = length d" "twos c = twos d"
  then have d: "d \<noteq> []" by auto
  have "int (be_val c) = int (be_val d)"
    using h(3) half_int[OF h(1)] half_int[OF d] full_half[OF h(1)] be_val_bound_int[OF h(1)] be_val_bound_int[OF d]
    unfolding twos_def h(2) by (auto split: if_splits)
  then show ?thesis using h(2) by (intro be_val_inject) auto
qed

lemma twos_surj: "0 < k \<Longrightarrow> fits k v \<Longrightarrow> twos (be_bytes k (nat (v mod 256 ^ k))) = v"
proof -
  assume k: "0 < k" and v: "fits k v"
  let ?c = "be_bytes k (nat (v mod 256 ^ k))"
  have ne: "?c \<noteq> []" using k by (metis length_be_bytes length_0_conv less_numeral_extra(3))
  have full: "(256::int) ^ k = 2 * (128 * 256 ^ (k - 1))" using k by (cases k) auto
  have m: "0 \<le> v mod 256 ^ k" "v mod 256 ^ k < 256 ^ k" by simp_all
  then have "nat (v mod 256 ^ k) < 256 ^ k" by (simp add: nat_less_iff)
  then have bv: "int (be_val ?c) = v mod 256 ^ k" using m by simp
  have "v mod 256 ^ k = (if v < 0 then v + 256 ^ k else v)"
  proof (cases "v < 0")
    case True
    have "(v + 256 ^ k) mod 256 ^ k = v + 256 ^ k"
      using v True unfolding full fits_def by (intro mod_pos_pos_trivial) linarith+
    then show ?thesis using True by simp
  next
    case False
    then show ?thesis using v unfolding full fits_def by (simp add: mod_pos_pos_trivial)
  qed
  then show ?thesis
    using v half_int[OF ne] bv full unfolding twos_def fits_def length_be_bytes by (auto split: if_splits)
qed

lemma not_fits: "128 * 256 ^ (k - 1) \<le> v \<Longrightarrow> \<not> fits k v"
  unfolding fits_def by linarith

lemma fits_mono: "fits j v \<Longrightarrow> j \<le> k \<Longrightarrow> fits k v"
proof -
  assume v: "fits j v" and "j \<le> k"
  then have "(256::int) ^ (j - 1) \<le> 256 ^ (k - 1)" by (intro power_increasing) auto
  then show ?thesis using v unfolding fits_def by linarith
qed

lemma tail_bounds:
  assumes "r \<noteq> []"
  shows "0 \<le> int (be_val r)" and "int (be_val r) < 256 ^ length r"
    and "(256::int) ^ length r = 2 * (128 * 256 ^ (length r - 1))"
  using be_val_bound_int[OF assms] full_half[OF assms] by auto

lemma signed_byte:
  "u < 256 \<Longrightarrow> (if 128 \<le> u then int u - 256 else int u) = 0 \<longleftrightarrow> u = 0"
  "u < 256 \<Longrightarrow> (if 128 \<le> u then int u - 256 else int u) = -1 \<longleftrightarrow> u = 255"
  by auto

lemma minimal_fits:
  assumes "c \<noteq> []"
  shows "minimal c \<longleftrightarrow> length c = 1 \<or> \<not> fits (length c - 1) (twos c)"
proof (cases "length c = 1")
  case False
  then obtain b r where c: "c = b # r" and r: "r \<noteq> []" using assms by (cases c) auto
  note t = tail_bounds[OF r]
  have h: "hd r = r ! 0" using r by (simp add: hd_conv_nth)
  define s where "s = (if 128 \<le> unat b then int (unat b) - 256 else int (unat b))"
  have tw: "twos c = s * 256 ^ length r + int (be_val r)"
    by (simp add: twos_def c be_val_Cons s_def algebra_simps)
  have fits: "fits (length c - 1) (twos c) \<longleftrightarrow>
      - (128 * 256 ^ (length r - 1)) \<le> twos c \<and> twos c < 128 * 256 ^ (length r - 1)"
    by (simp add: fits_def c)
  have m: "minimal c \<longleftrightarrow> \<not> (s = 0 \<and> unat (hd r) < 128) \<and> \<not> (s = -1 \<and> 128 \<le> unat (hd r))"
  proof -
    have "b = 0 \<longleftrightarrow> unat b = 0" "b = 0xff \<longleftrightarrow> unat b = 255" by (simp_all add: word_unat_eq_iff)
    then have "b = 0 \<longleftrightarrow> s = 0" "b = 0xff \<longleftrightarrow> s = -1"
      unfolding s_def using signed_byte[of "unat b"] by (simp_all only: unat_byte_lt)
    then show ?thesis using r by (simp add: minimal_def c h)
  qed
  consider "s \<le> -2" | "s = -1" | "s = 0" | "1 \<le> s" by linarith
  then have "fits (length c - 1) (twos c) \<longleftrightarrow> s = 0 \<and> unat (hd r) < 128 \<or> s = -1 \<and> 128 \<le> unat (hd r)"
  proof cases
    case 1
    then have "s * 256 ^ length r \<le> (-2) * 256 ^ length r" by (intro mult_right_mono) auto
    then have "twos c < - (128 * 256 ^ (length r - 1))" using t tw by linarith
    then show ?thesis unfolding fits using 1 by auto
  next
    case 2
    then show ?thesis unfolding fits unfolding tw using half_int[OF r] t by auto
  next
    case 3
    then show ?thesis unfolding fits unfolding tw using half_int[OF r] t by auto
  next
    case 4
    then have "1 * 256 ^ length r \<le> s * 256 ^ length r" by (intro mult_right_mono) auto
    then have "128 * 256 ^ (length r - 1) < twos c" using t tw by linarith
    then show ?thesis unfolding fits using 4 by auto
  qed
  then show ?thesis using False m by auto
qed (use assms in \<open>simp add: minimal_def\<close>)

section \<open>INTEGER content is canonical\<close>

lemma neg_len_least:
  "len \<le> neg_len v len \<and> - (2 ^ (8 * neg_len v len - 1)) \<le> v \<and>
   (neg_len v len = len \<or> v < - (2 ^ (8 * (neg_len v len - 1) - 1)))"
proof (induction v len rule: neg_len.induct)
  case (1 v len)
  show ?case
  proof (cases "v < - (2 ^ (8 * len - 1))")
    case True
    then have "neg_len v len = neg_len v (len + 1)" by (simp add: neg_len.simps[of v len])
    then show ?thesis using 1[OF True] True by auto
  next
    case False
    then have "neg_len v len = len" by (simp add: neg_len.simps[of v len])
    then show ?thesis using False by auto
  qed
qed

lemma drop_byte: "0 < n \<Longrightarrow> v < 256 ^ n \<Longrightarrow> drop_bit (8 * (n - 1)) v AND 0xFF = (v::nat) div 256 ^ (n - 1)"
proof -
  assume n: "0 < n" and v: "v < 256 ^ n"
  then have "v < 256 * 256 ^ (n - 1)" by (cases n) auto
  then have "v div 256 ^ (n - 1) < 256" by (simp add: less_mult_imp_div_less)
  then show ?thesis by (simp add: drop_bit_eq_div nat_and_ff power_mult)
qed

lemma intToDer_Big:
  "\<exists>c. intToDer (Big v) = Inr c \<and> c \<noteq> [] \<and> twos c = v \<and> (length c = 1 \<or> \<not> fits (length c - 1) v)"
proof -
  consider "v = 0" | "0 < v" | "v < 0" by linarith
  then show ?thesis
  proof cases
    case 2
    define n where "n = count256 (nat v)"
    define p where "p = (if 128 \<le> nat v div 256 ^ (n - 1) then 1 else (0::nat))"
    have n: "0 < n" "nat v < 256 ^ n" "256 ^ (n - 1) \<le> nat v"
      using 2 count256_bounds[of "nat v"] by (simp_all add: n_def)
    have res: "intToDer (Big v) = Inr (be_bytes (n + p) (nat v))"
      unfolding intToDer_def p_def drop_byte[OF n(1,2), symmetric] using 2 by (simp add: Let_def flip: n_def)
    have full: "(256::int) ^ n = 2 * (128 * 256 ^ (n - 1))" using n(1) by (cases n) auto
    have up: "v < 256 ^ n" using n(2) 2 by (simp add: nat_less_iff)
    have lo: "256 ^ (n - 1) \<le> v" using n(3) 2 by (simp add: le_nat_iff)
    have half: "128 \<le> nat v div 256 ^ (n - 1) \<longleftrightarrow> 128 * 256 ^ (n - 1) \<le> v"
      using 2 by (simp add: less_eq_div_iff_mult_less_eq le_nat_iff)
    have fit: "fits (n + p) v"
    proof (cases "p = 1")
      case True
      have "(256::int) ^ n \<le> 128 * 256 ^ n" by simp
      then show ?thesis using up 2 unfolding fits_def True add_diff_cancel_right' by linarith
    next
      case False
      then have "p = 0" "\<not> 128 \<le> nat v div 256 ^ (n - 1)" by (metis p_def)+
      then have "p = 0" "\<not> 128 * 256 ^ (n - 1) \<le> v" by (metis half)+
      then show ?thesis using 2 unfolding fits_def by auto
    qed
    have least: "n + p = 1 \<or> \<not> fits (n + p - 1) v"
    proof (cases "p = 1")
      case True
      then have "128 \<le> nat v div 256 ^ (n - 1)" by (metis p_def zero_neq_one)
      then have "128 * 256 ^ (n - 1) \<le> v" by (rule half[THEN iffD1])
      then have "\<not> fits n v" by (intro not_fits)
      then show ?thesis by (simp add: True)
    next
      case False
      then have p: "p = 0" by (metis p_def)
      show ?thesis
      proof (cases "n = 1")
        case n1: False
        then have "n - 1 = Suc (n - 1 - 1)" using n(1) by linarith
        then have "(256::int) ^ (n - 1) = 256 * 256 ^ (n - 1 - 1)" by (metis power_Suc)
        moreover have "(0::int) < 256 ^ (n - 1 - 1)" by simp
        ultimately have "128 * 256 ^ (n - 1 - 1) \<le> v" using lo by linarith
        then have "\<not> fits (n - 1) v" by (intro not_fits)
        then show ?thesis by (simp add: p)
      qed (simp add: p)
    qed
    have "v < 256 ^ (n + p)" by (rule less_le_trans[OF up]) (intro power_increasing, auto)
    then have "be_bytes (n + p) (nat (v mod 256 ^ (n + p))) = be_bytes (n + p) (nat v)"
      using 2 by (simp add: mod_pos_pos_trivial)
    then have "twos (be_bytes (n + p) (nat v)) = v" using twos_surj[OF _ fit] n(1) by simp
    then show ?thesis using res least n(1)
      by (intro exI[of _ "be_bytes (n + p) (nat v)"]) (auto dest: arg_cong[of _ _ length])
  next
    case 3
    define n where "n = neg_len v 1"
    have n: "1 \<le> n" "- (2 ^ (8 * n - 1)) \<le> v" "n = 1 \<or> v < - (2 ^ (8 * (n - 1) - 1))"
      using neg_len_least[of 1 v] by (auto simp: n_def)
    have fit: "fits n v" using n 3 pow_half[of n] by (simp add: fits_def)
    have least: "n = 1 \<or> \<not> fits (n - 1) v" using n pow_half[of "n - 1"] by (auto simp: fits_def)
    have full: "(256::int) ^ n = 2 * (128 * 256 ^ (n - 1))" using n(1) by (cases n) auto
    have "(v + 256 ^ n) mod 256 ^ n = v + 256 ^ n"
      using fit 3 unfolding full fits_def by (intro mod_pos_pos_trivial) linarith+
    then have "nat (v mod 256 ^ n) = nat (2 ^ (8 * n) + v)" by (simp add: pow_full add.commute)
    moreover have "intToDer (Big v) = Inr (be_bytes n (nat (2 ^ (8 * n) + v)))"
      using 3 by (simp add: intToDer_def Let_def n_def)
    ultimately show ?thesis using twos_surj[OF _ fit] least n(1)
      by (intro exI[of _ "be_bytes n (nat (2 ^ (8 * n) + v))"]) (auto dest: arg_cong[of _ _ length])
  qed (simp add: intToDer_def twos_def be_val_def)
qed

lemma intToDer_iff: "intToDer (Big v) = Inr c \<longleftrightarrow> minimal c \<and> twos c = v"
proof -
  obtain d where d: "intToDer (Big v) = Inr d" "d \<noteq> []" "twos d = v" "length d = 1 \<or> \<not> fits (length d - 1) v"
    using intToDer_Big by blast
  have "c = d" if c: "minimal c" "twos c = v"
  proof -
    have ne: "c \<noteq> []" using c(1) by (simp add: minimal_def)
    have c': "length c = 1 \<or> \<not> fits (length c - 1) v" using minimal_fits[OF ne] c by simp
    have f: "fits (length c) v" "fits (length d) v" using fits_twos[OF ne] fits_twos[OF d(2)] c(2) d(3) by auto
    have l: "0 < length c" "0 < length d" using ne d(2) by auto
    have "\<not> length c \<le> length d - 1" if "length d \<noteq> 1" using fits_mono[OF f(1)] d(4) that by blast
    moreover have "\<not> length d \<le> length c - 1" if "length c \<noteq> 1" using fits_mono[OF f(2)] c' that by blast
    ultimately have "length c = length d" using l by linarith
    then show "c = d" using twos_inject[OF ne] c(2) d(3) by simp
  qed
  moreover have "minimal d" using minimal_fits[OF d(2)] d(3,4) by simp
  ultimately show ?thesis using d by auto
qed

lemma integer_content_iff:
  "integer_content c = Inr v \<longleftrightarrow> minimal c \<and> length c \<le> DER_MAX_INTEGER_BYTES + 1 \<and> twos c = v"
proof (cases "c = []")
  case False
  have "c ! 0 = hd c" using False by (simp add: hd_conv_nth)
  then have sgn: "(if unat (c ! 0) AND 0x80 \<noteq> 0 then int (be_val c) - 2 ^ (8 * length c) else int (be_val c)) = twos c"
    by (simp add: twos_def nat_and_80_byte pow_full not_less)
  show ?thesis using False
    unfolding integer_content_def Let_def sgn by (auto simp: minimal_def nat_and_80_byte not_less)
qed (simp add: integer_content_def minimal_def)

lemma integer_codec: "integer_content c = Inr v \<longleftrightarrow> intContent (Big v) = Inr c"
  by (auto simp: integer_content_iff intContent_def res_simps intToDer_iff)

end
