(* ===== verification/Asn1_Header.thy ===== *)
theory Asn1_Header
  imports Asn1_Decode Asn1_Encode
begin

text \<open>
  The identifier and length octets in both directions: \<open>ident\<close> and \<open>len_octets\<close> are what
  \<open>encodeIdentifier\<close> and \<open>encodeLength\<close> emit, and the decoder's readers accept exactly those
  octets.  Soundness says that an accepted prefix is the canonical one, completeness that the
  canonical one is accepted.
\<close>

section \<open>The canonical octets\<close>

definition con_bit :: "bool \<Rightarrow> nat" where
  "con_bit con = (if con then 32 else 0)"

definition ident :: "tag_class \<Rightarrow> bool \<Rightarrow> nat \<Rightarrow> bytes" where
  "ident c con t =
     (if t < 31 then [word_of_nat (class_bits c + con_bit con + t)]
      else word_of_nat (class_bits c + con_bit con + 31) # b128 t)"

definition len_octets :: "nat \<Rightarrow> bytes" where
  "len_octets n = (if n < 128 then [word_of_nat n]
     else word_of_nat (128 + count256 n) # be_bytes (count256 n) n)"

definition tag_legal :: "tag_class \<Rightarrow> nat \<Rightarrow> bool" where
  "tag_legal c t \<longleftrightarrow> t \<le> 0x0fffffff \<and> \<not> (c = Universal \<and> (t = 0 \<or> t = 15 \<or> t \<ge> 37))"

lemma ident_ne [simp]: "ident c con t \<noteq> []"
  by (simp add: ident_def)

lemma len_octets_ne [simp]: "len_octets n \<noteq> []"
  by (simp add: len_octets_def)

lemma class_bits_cases: "class_bits c \<in> {0, 64, 128, 192}"
  by (cases c) auto

lemma lead_or: "class_bits c OR (if con then 0x20 else 0) = class_bits c + con_bit con"
  by (cases c; cases con) (simp_all add: con_bit_def)

lemma lead_or_low:
  assumes "t < 32"
  shows "(class_bits c + con_bit con) OR t = class_bits c + con_bit con + t"
proof -
  obtain k where k: "class_bits c + con_bit con = k * 2 ^ 5"
    by (cases c; cases con) (auto simp: con_bit_def intro: that[of 0] that[of 1] that[of 2]
      that[of 3] that[of 4] that[of 5] that[of 6] that[of 7])
  show ?thesis unfolding k using assms by (intro nat_or_low) simp
qed

lemma lead_universal: "(class_bits c AND 0xC0 = 0) \<longleftrightarrow> c = Universal"
  by (cases c) simp_all

lemma class_bits_int: "to_int32 (int (class_bits c)) = int (class_bits c)"
  "int (class_bits c) AND NOT (0xC0 OR 0x20) = 0" "int (class_bits c) AND - 225 = 0"
  by (cases c; simp add: to_int32_def)+

lemma encodeIdentifier_ident:
  "encodeIdentifier (Num (int (class_bits c))) con (Num (int t)) =
     (if t > 0x0fffffff then Inl (Asn1E Asn1_tag_too_large)
      else if c = Universal \<and> (t = 0 \<or> t = 15 \<or> t \<ge> 37) then Inl (Asn1E Asn1_reserved_tag)
      else Inr (ident c con t))"
  by (simp add: encodeIdentifier_def class_bits_int Let_def lead_universal reserved_Num lead_or
      lead_or_low ident_def b128_def)

lemma encodeIdentifier_Inr:
  "encodeIdentifier (Num (int (class_bits c))) con (Num (int t)) = Inr bs \<longleftrightarrow>
     tag_legal c t \<and> bs = ident c con t"
  by (auto simp: encodeIdentifier_ident tag_legal_def)

lemma encodeLength_octets:
  assumes "n < 256 ^ 6"
  shows "encodeLength (Num (int n)) = Inr (len_octets n)"
proof -
  have c: "count256 n \<le> 6" using assms by (rule count256_le)
  then have "0x80 OR count256 n = 128 + count256 n" by (intro nat_or_80) simp
  then show ?thesis using c by (simp add: encodeLength_def Let_def len_octets_def)
qed

section \<open>The leading octet\<close>

lemma byte_split:
  assumes n: "(n::nat) < 256"
  shows "n = class_bits (className (n AND 0xC0)) + con_bit (n AND 0x20 \<noteq> 0) + n mod 32"
proof -
  have "n div 64 \<in> {0, 1, 2, 3}" using n by auto
  then have "class_bits (className (n AND 0xC0)) = n div 64 * 64"
    unfolding nat_and_c0[OF n] by (elim insertE) (simp_all add: className_def)
  moreover have "con_bit (n AND 0x20 \<noteq> 0) = n div 32 mod 2 * 32"
    unfolding nat_and_20 con_bit_def by (auto simp: mod_2_eq_odd)
  moreover have "n = n div 32 * 32 + n mod 32" by simp
  moreover have "n div 32 = n div 64 * 2 + n div 32 mod 2"
    using div_mult2_eq[of n 32 2] by simp
  ultimately show ?thesis by linarith
qed

lemma lead_scaled: "class_bits c + con_bit con = (class_bits c div 64 * 2 + of_bool con) * 32"
  by (cases c; cases con) (simp_all add: con_bit_def)

lemma byte_join:
  assumes "m < 32"
  shows "(class_bits c + con_bit con + m) mod 32 = m"
    and "className ((class_bits c + con_bit con + m) AND 0xC0) = c"
    and "(class_bits c + con_bit con + m) AND 0xC0 = class_bits c"
    and "((class_bits c + con_bit con + m) AND 0x20 \<noteq> 0) = con"
    and "class_bits c + con_bit con + m < 256"
proof -
  let ?n = "class_bits c + con_bit con + m"
  show lt: "?n < 256" using assms by (cases c; cases con) (auto simp: con_bit_def)
  show "?n mod 32 = m" unfolding lead_scaled using assms by (simp only: mod_mult_self3 mod_less)
  have d: "?n div 32 = class_bits c div 64 * 2 + of_bool con" unfolding lead_scaled using assms by simp
  have d64: "?n div 64 = class_bits c div 64" using d div_mult2_eq[of ?n 32 2] by (cases con) simp_all
  show eq: "?n AND 0xC0 = class_bits c"
    unfolding nat_and_c0[OF lt] d64 by (cases c) simp_all
  show "className (?n AND 0xC0) = c" unfolding eq by simp
  show "(?n AND 0x20 \<noteq> 0) = con" unfolding nat_and_20 d by (cases con) simp_all
qed

section \<open>High tag numbers\<close>

lemma slice_snoc_cons: "p < p' \<Longrightarrow> p < length buf \<Longrightarrow> grp @ slice buf p p' = (grp @ [buf ! p]) @ slice buf (Suc p) p'"
  by (simp add: slice_cons)

lemma cont_ok_snoc: "cont_ok (bs @ [b]) \<longleftrightarrow> cont_ok bs \<and> 128 \<le> unat b \<and> (bs = [] \<longrightarrow> b \<noteq> 0x80)"
  by (cases bs) (auto simp: cont_ok_def)

lemma high_tag_sound:
  assumes "high_tag buf p limit (val128 grp) (length grp) = Inr (t, p')"
    and "cont_ok grp" and "limit \<le> length buf"
  shows "p < p' \<and> p' \<le> limit \<and> b128_ok (grp @ slice buf p p') \<and>
    t = val128 (grp @ slice buf p p') \<and> length grp + (p' - p) \<le> 4"
  using assms
proof (induction "limit - p" arbitrary: p grp rule: less_induct)
  case less
  let ?b = "buf ! p"
  have p: "p < limit" "p < length buf" and lead: "grp = [] \<longrightarrow> ?b \<noteq> 0x80" and len: "length grp < 4"
    using less.prems by (auto simp: high_tag.simps[of buf p] Let_def byte_eq_80 split: if_splits)
  have v: "val128 grp * 128 + (unat ?b AND 0x7F) = val128 (grp @ [?b])" by (simp add: byte_arith)
  show ?case
  proof (cases "unat ?b < 128")
    case True
    then have "t = val128 (grp @ [?b])" "p' = Suc p"
      using less.prems(1) p v by (auto simp: high_tag.simps[of buf p] Let_def unat_and_80 split: if_splits)
    then show ?thesis using p len True less.prems(2) by (auto simp: slice_cons b128_ok_def)
  next
    case False
    then have rec: "high_tag buf (Suc p) limit (val128 (grp @ [?b])) (length (grp @ [?b])) = Inr (t, p')"
      using less.prems(1) p v
      by (simp add: high_tag.simps[of buf p] Let_def unat_and_80 split: if_splits del: val128_snoc)
    have "cont_ok (grp @ [?b])" using less.prems(2) False lead by (simp add: cont_ok_snoc)
    moreover have "limit - Suc p < limit - p" using p by simp
    ultimately have IH: "Suc p < p' \<and> p' \<le> limit \<and> b128_ok ((grp @ [?b]) @ slice buf (Suc p) p') \<and>
        t = val128 ((grp @ [?b]) @ slice buf (Suc p) p') \<and> length (grp @ [?b]) + (p' - Suc p) \<le> 4"
      using less.hyps rec less.prems(3) by blast
    then have "grp @ slice buf p p' = (grp @ [?b]) @ slice buf (Suc p) p'"
      using p by (intro slice_snoc_cons) auto
    with IH show ?thesis by auto
  qed
qed

lemma high_tag_complete:
  assumes "slice buf p (p + Suc (length cs)) = cs @ [b]" and "b128_ok (grp @ cs @ [b])"
    and "length grp + Suc (length cs) \<le> 4" and "p + Suc (length cs) \<le> limit" and "limit \<le> length buf"
  shows "high_tag buf p limit (val128 grp) (length grp) = Inr (val128 (grp @ cs @ [b]), p + Suc (length cs))"
  using assms
proof (induction cs arbitrary: p grp)
  case Nil
  then have "buf ! p = b" "unat b < 128" by (auto simp: slice_cons b128_ok_def)
  then show ?case using Nil.prems
    by (auto simp: high_tag.simps[of buf p] Let_def unat_and_80 byte_arith byte_eq_80)
next
  case (Cons c cs)
  then have p: "p < limit" "buf ! p = c" and rest: "slice buf (Suc p) (Suc p + Suc (length cs)) = cs @ [b]"
    by (auto simp: slice_cons)
  from Cons.prems(2) have "cont_ok (grp @ c # cs)" by (auto simp: b128_ok_def butlast_append dest: arg_cong[of _ _ butlast])
  then have c: "128 \<le> unat c" "grp = [] \<longrightarrow> c \<noteq> 0x80" by (auto simp: cont_ok_def)
  have IH: "high_tag buf (Suc p) limit (val128 (grp @ [c])) (length (grp @ [c])) =
      Inr (val128 ((grp @ [c]) @ cs @ [b]), Suc p + Suc (length cs))"
    using Cons.prems rest by (intro Cons.IH) auto
  have v: "val128 grp * 128 + (unat c AND 0x7F) = val128 (grp @ [c])" by (simp add: byte_arith)
  show ?case using IH Cons.prems(3) p c v
    by (simp add: high_tag.simps[of buf p] Let_def unat_and_80 byte_eq_80 del: val128_snoc)
qed

section \<open>The identifier\<close>

lemma val128_tag_bound: "length bs \<le> 4 \<Longrightarrow> val128 bs \<le> 0x0fffffff"
proof -
  assume l: "length bs \<le> 4"
  have "val128 bs < 128 ^ length bs" by (rule val128_bound)
  also have "\<dots> \<le> 128 ^ 4" using l by (intro power_increasing) auto
  finally show ?thesis by simp
qed

lemma decode_tag_sound:
  assumes "decode_tag buf (unat (buf ! start)) (start + 1) limit = Inr (t, p)"
    and "start < limit" and "limit \<le> length buf"
  defines "c \<equiv> className (unat (buf ! start) AND CLASS_MASK)"
    and "con \<equiv> (unat (buf ! start) AND CONSTRUCTED_BIT \<noteq> 0)"
  shows "start < p \<and> p \<le> limit \<and> t \<le> 0x0fffffff \<and> slice buf start p = ident c con t"
proof -
  let ?b = "buf ! start"
  have b: "unat ?b = class_bits c + con_bit con + unat ?b mod 32"
    unfolding c_def con_def by (rule byte_split) simp
  have w: "?b = word_of_nat (class_bits c + con_bit con + unat ?b mod 32)"
    by (subst b[symmetric]) simp
  show ?thesis
  proof (cases "unat ?b mod 32 = 31")
    case False
    then have m: "unat ?b mod 32 < 31" using mod_less_divisor[of 32 "unat ?b"] by linarith
    have t: "t = unat ?b mod 32" "p = Suc start"
      using assms(1) False by (auto simp: decode_tag_def Let_def byte_arith)
    have "[?b] = ident c con t" unfolding ident_def t(1) using m w by simp
    then show ?thesis using assms(2,3) m by (simp add: t(2) slice_cons) (simp add: t(1))
  next
    case True
    then have h: "high_tag buf (Suc start) limit (val128 []) (length ([] :: bytes)) = Inr (t, p)" and t31: "\<not> t < 31"
      using assms(1) by (auto simp: decode_tag_def Let_def byte_arith res_simps split: if_splits)
    from high_tag_sound[OF h _ assms(3)]
    have s: "Suc start < p" "p \<le> limit" "b128_ok (slice buf (Suc start) p)"
      "t = val128 (slice buf (Suc start) p)" "p - Suc start \<le> 4" by (auto simp: cont_ok_def)
    have "length (slice buf (Suc start) p) \<le> 4" using s(5) by simp
    then have "t \<le> 0x0fffffff" unfolding s(4) by (rule val128_tag_bound)
    moreover have "?b # slice buf (Suc start) p = ident c con t"
      using w t31 b128_val128[OF s(3)] by (simp add: ident_def True s(4))
    moreover have "slice buf start p = ?b # slice buf (Suc start) p"
      using s(1) assms(2,3) by (intro slice_cons) auto
    ultimately show ?thesis using s(1,2) by simp
  qed
qed

lemma count128_4: "t \<le> 0x0fffffff \<Longrightarrow> count128 t \<le> 4"
proof (rule ccontr)
  assume t: "t \<le> 0x0fffffff" and "\<not> count128 t \<le> 4"
  then have "128 ^ 4 \<le> (128::nat) ^ (count128 t - 1)" by (intro power_increasing) auto
  also have "\<dots> \<le> t"
    using \<open>\<not> count128 t \<le> 4\<close> by (intro count128_bounds) (auto simp: count128.simps intro: Suc_leI gr0I)
  finally show False using t by simp
qed

lemma decode_tag_complete:
  assumes "slice buf start p = ident c con t" and "t \<le> 0x0fffffff" and "start < p"
    and "p \<le> limit" and "limit \<le> length buf"
  shows "decode_tag buf (unat (buf ! start)) (start + 1) limit = Inr (t, p)"
    and "className (unat (buf ! start) AND CLASS_MASK) = c"
    and "unat (buf ! start) AND CLASS_MASK = class_bits c"
    and "(unat (buf ! start) AND CONSTRUCTED_BIT \<noteq> 0) = con"
proof -
  define m where "m = (if t < 31 then t else 31)"
  have m: "m < 32" by (simp add: m_def)
  have sp: "slice buf start p = buf ! start # slice buf (Suc start) p"
    using assms(3-5) by (intro slice_cons) auto
  then have "buf ! start = word_of_nat (class_bits c + con_bit con + m)"
    and tl: "slice buf (Suc start) p = (if t < 31 then [] else b128 t)"
    using assms(1) by (auto simp: ident_def m_def split: if_splits)
  then have b: "unat (buf ! start) = class_bits c + con_bit con + m"
    using byte_join(5)[OF m, of c con] by (simp del: of_nat_add)
  show "className (unat (buf ! start) AND CLASS_MASK) = c"
    "unat (buf ! start) AND CLASS_MASK = class_bits c"
    "(unat (buf ! start) AND CONSTRUCTED_BIT \<noteq> 0) = con"
    unfolding b using byte_join[OF m] by auto
  have low: "unat (buf ! start) AND 0x1F = m" unfolding b nat_and_1f by (rule byte_join(1)[OF m])
  show "decode_tag buf (unat (buf ! start)) (start + 1) limit = Inr (t, p)"
  proof (cases "t < 31")
    case True
    then have "length (slice buf (Suc start) p) = 0" using tl by simp
    then have "p = Suc start" using assms(3-5) by simp
    then show ?thesis using True by (simp add: decode_tag_def low m_def)
  next
    case False
    obtain cs b where bs: "b128 t = cs @ [b]" using b128_ok_b128[of t] by (auto simp: b128_ok_def)
    have "length (slice buf (Suc start) p) = length (b128 t)" using tl False by simp
    then have len: "p = Suc start + Suc (length cs)" using assms(3-5) bs by simp
    have "Suc (length cs) \<le> 4" using count128_4[OF assms(2)] by (simp add: bs flip: length_b128)
    then have "high_tag buf (Suc start) limit (val128 []) (length ([] :: bytes)) =
        Inr (val128 ([] @ cs @ [b]), Suc start + Suc (length cs))"
      using tl False len assms(4,5) b128_ok_b128[of t] bs by (intro high_tag_complete) auto
    moreover have "val128 (cs @ [b]) = t" by (metis bs val128_b128)
    ultimately have "high_tag buf (start + 1) limit 0 0 = Inr (t, p)" using len by simp
    then show ?thesis using False by (simp add: decode_tag_def low m_def)
  qed
qed

section \<open>The length\<close>

lemma be_val_hd: "bs \<noteq> [] \<Longrightarrow> hd bs \<noteq> 0 \<Longrightarrow> 256 ^ (length bs - 1) \<le> be_val bs"
proof (cases bs)
  case (Cons b cs)
  assume "hd bs \<noteq> 0"
  then have "0 < unat b" using Cons by (simp add: word_unat_eq_iff)
  then have "1 * 256 ^ length cs \<le> unat b * 256 ^ length cs + be_val cs"
    by (intro trans_le_add1 mult_right_mono) auto
  then show ?thesis by (simp only: Cons be_val_Cons length_Cons diff_Suc_1 mult_1)
qed simp

lemma count256_be_val: "bs \<noteq> [] \<Longrightarrow> hd bs \<noteq> 0 \<Longrightarrow> count256 (be_val bs) = length bs"
  using be_val_hd[of bs] be_val_bound[of bs] count256_unique[of "length bs - 1" "be_val bs"]
  by (cases bs) auto

lemma hd_be_bytes: "0 < n \<Longrightarrow> hd (be_bytes (count256 n) n) \<noteq> 0"
proof
  assume n: "0 < n" and h: "hd (be_bytes (count256 n) n) = 0"
  obtain bs where bs: "be_bytes (count256 n) n = 0 # bs"
    using h count256_bounds(3)[OF n] by (cases "be_bytes (count256 n) n") (auto dest: arg_cong[of _ _ length])
  then have len: "length bs = count256 n - 1" by (metis length_be_bytes length_Cons diff_Suc_1)
  have "n = be_val (0 # bs)" using be_val_be_bytes_id[OF count256_bounds(1), of n] bs by metis
  then have "n < 256 ^ (count256 n - 1)" using be_val_bound[of bs] len by (simp add: be_val_Cons)
  then show False using count256_bounds(2)[OF n] by simp
qed

lemma decode_length_sound:
  assumes "decode_length buf p limit br con = Inr (Some n, q)" and "limit \<le> length buf"
  shows "p < q \<and> q \<le> limit \<and> n < 256 ^ 6 \<and> slice buf p q = len_octets n"
proof -
  let ?b = "buf ! p"
  have p: "p < limit" using assms(1) by (auto simp: decode_length_def split: if_splits)
  show ?thesis
  proof (cases "unat ?b < 0x80")
    case True
    then have "n = unat ?b" "q = Suc p" using assms(1) p by (auto simp: decode_length_def Let_def)
    then show ?thesis using p True assms(2) by (simp add: slice_cons len_octets_def)
  next
    case False
    define k where "k = unat ?b mod 128"
    have k: "k \<le> 6" "q = Suc p + k" "q \<le> limit" "buf ! Suc p \<noteq> 0"
      "n = be_val (slice buf (Suc p) q)" "128 \<le> n" "unat ?b \<noteq> 128"
      using assms(1) False p by (auto simp: decode_length_def Let_def byte_arith k_def split: if_splits)
    have kb: "unat ?b = 128 + k" using False by (simp add: k_def byte_mod128)
    let ?s = "slice buf (Suc p) q"
    have s: "length ?s = k" using k assms(2) by simp
    have "k \<noteq> 0" using k kb by simp
    then have cons: "?s = buf ! Suc p # slice buf (Suc (Suc p)) q" using k assms(2) by (intro slice_cons) auto
    then have "count256 n = k" unfolding k(5) using k(4) s by (subst count256_be_val) auto
    moreover have "be_bytes k n = ?s" using be_bytes_be_val[of ?s] s k(5) by simp
    moreover have "?b = word_of_nat (128 + k)" using kb word_of_nat_unat_byte[of ?b] by metis
    moreover have "slice buf p q = ?b # ?s" using k p assms(2) by (intro slice_cons) auto
    ultimately have "slice buf p q = len_octets n" using k(6) by (simp add: len_octets_def)
    moreover have "n < 256 ^ 6"
    proof -
      have "n < 256 ^ k" using be_val_bound[of ?s] s k(5) by simp
      also have "\<dots> \<le> 256 ^ 6" using k(1) by (intro power_increasing) auto
      finally show ?thesis .
    qed
    ultimately show ?thesis using k by simp
  qed
qed

lemma decode_length_complete:
  assumes "slice buf p q = len_octets n" and "n < 256 ^ 6" and "p < q" and "q \<le> limit"
    and "limit \<le> length buf"
  shows "decode_length buf p limit br con = Inr (Some n, q)"
proof -
  have sp: "slice buf p q = buf ! p # slice buf (Suc p) q" using assms(3-5) by (intro slice_cons) auto
  show ?thesis
  proof (cases "n < 128")
    case True
    then have b: "buf ! p = word_of_nat n" and "slice buf (Suc p) q = []"
      using assms(1) sp by (auto simp: len_octets_def)
    then have "length (slice buf (Suc p) q) = 0" by simp
    then have "q = Suc p" using assms(3-5) by simp
    then show ?thesis using True b assms(3,4) by (simp add: decode_length_def Let_def)
  next
    case False
    define k where "k = count256 n"
    have k: "k \<le> 6" "0 < k" using False assms(2) count256_bounds(3)[of n] by (auto simp: k_def count256_le)
    have b: "buf ! p = word_of_nat (128 + k)" and t: "slice buf (Suc p) q = be_bytes k n"
      using assms(1) sp False by (auto simp: len_octets_def k_def)
    have ub: "unat (buf ! p) = 128 + k" using b k by (simp del: of_nat_add)
    have "length (slice buf (Suc p) q) = k" using t by simp
    then have q: "q = Suc p + k" using assms(3-5) by simp
    have "buf ! Suc p = hd (slice buf (Suc p) q)" using q k assms(4,5) by (subst slice_cons) auto
    then have "buf ! Suc p \<noteq> 0" using hd_be_bytes[of n] False t by (simp add: k_def)
    moreover have "be_val (slice buf (Suc p) q) = n" unfolding t k_def using count256_bounds(1) by simp
    moreover have "(128 + k) mod 128 = k" using k by simp
    ultimately show ?thesis using ub q k assms(3,4) False
      by (simp add: decode_length_def Let_def nat_and_7f)
  qed
qed

lemma decode_length_progress:
  "decode_length buf p limit br con = Inr (l, q) \<Longrightarrow> limit \<le> length buf \<Longrightarrow> p < q \<and> q \<le> limit"
  by (auto simp: decode_length_def Let_def split: if_splits)

end
