(* ===== verification/Asn1_Tree.thy ===== *)
theory Asn1_Tree
  imports Asn1_Header
begin

text \<open>
  The abstract reading of the codec.  A \<open>tlv\<close> is the value a DER element denotes, \<open>enc\<close> its
  encoding through the code's own \<open>encodeTLV\<close> and \<open>encodeConstructed\<close>, \<open>tree_of\<close> the value of a
  decoded node.  The strict decoder is the inverse of \<open>enc\<close> on the values whose universal types
  have the form DER gives them (\<open>der_shape\<close>), which is the statement that each value has exactly one
  accepted encoding.  Beside it: progress, fuel and the resource caps, for the strict and the BER
  door alike.
\<close>

section \<open>Values and their encoding\<close>

datatype tlv = TPrim tag_class nat bytes | TCons tag_class nat "tlv list"

primrec tree_of :: "node \<Rightarrow> tlv" where
  "tree_of (Node c con t s cs ce cont kids b r) =
     (case map_option (map tree_of) kids of
        Some ts \<Rightarrow> TCons c t ts
      | None \<Rightarrow> TPrim c t (case cont of Some x \<Rightarrow> x | None \<Rightarrow> []))"

primrec enc :: "tlv \<Rightarrow> bytes res" where
  "enc (TPrim c t b) = encodeTLV (Num (int (class_bits c))) False (Num (int t)) (Buf b)"
| "enc (TCons c t ts) = bindR (mapR id (map enc ts)) (\<lambda>ps. encodeConstructed (class_bits c) t ps)"

primrec height :: "tlv \<Rightarrow> nat" where
  "height (TPrim c t b) = 0"
| "height (TCons c t ts) = foldr (\<lambda>h m. max (Suc h) m) (map height ts) 0"

primrec nodes :: "tlv \<Rightarrow> nat" where
  "nodes (TPrim c t b) = 1"
| "nodes (TCons c t ts) = Suc (sum_list (map nodes ts))"

primrec der_shape :: "tlv \<Rightarrow> bool" where
  "der_shape (TPrim c t b) = (\<not> (c = Universal \<and> t \<in> set CONSTRUCTED_ONLY_UNIVERSAL_TAGS))"
| "der_shape (TCons c t ts) =
     ((c = Universal \<longrightarrow> t \<in> set CONSTRUCTED_ONLY_UNIVERSAL_TAGS) \<and> list_all id (map der_shape ts))"

fun tiled :: "nat \<Rightarrow> nat \<Rightarrow> node list \<Rightarrow> bool" where
  "tiled a b [] = (a = b)"
| "tiled a b (k # ks) = (n_start k = a \<and> tiled (contentEnd k) b ks)"

text \<open>Where a node of the strict decoder lies: its slices are the input's, and the children of a
  constructed node tile its content without gap or overlap.\<close>

fun located :: "bytes \<Rightarrow> node \<Rightarrow> bool" where
  "located buf (Node c con t s cs ce cont kids b r) =
     (s < cs \<and> cs \<le> ce \<and> ce \<le> length buf \<and> b = slice buf s ce \<and> \<not> r \<and>
      (case kids of
         None \<Rightarrow> \<not> con \<and> cont = Some (slice buf cs ce)
       | Some ks \<Rightarrow> con \<and> cont = None \<and> tiled cs ce ks \<and> (\<forall>k \<in> set ks. located buf k)))"

lemma height_le_iff [simp]: "height (TCons c t ts) \<le> m \<longleftrightarrow> (\<forall>x \<in> set ts. Suc (height x) \<le> m)"
  by (induction ts) auto

declare height.simps(2) [simp del]

lemma mapR_id_map: "mapR id (map f xs) = mapR f xs"
  by (induction xs) auto

lemma enc_TPrim: "length b < 256 ^ 6 \<Longrightarrow> enc (TPrim c t b) = Inr bs \<longleftrightarrow>
    tag_legal c t \<and> bs = ident c False t @ len_octets (length b) @ b"
  by (auto simp: encodeTLV_def contentBytes_def res_simps encodeIdentifier_Inr encodeLength_octets)

lemma encodeConstructed_Inr: "length (concat ps) < 256 ^ 6 \<Longrightarrow>
    encodeConstructed (class_bits c) t ps = Inr bs \<longleftrightarrow>
    tag_legal c t \<and> bs = ident c True t @ len_octets (length (concat ps)) @ concat ps"
  by (auto simp: encodeConstructed_def res_simps encodeIdentifier_Inr encodeLength_octets length_concat)

text \<open>The two spellings of a constructed element agree: the parts written in place, and the
  concatenation handed to \<open>encodeTLV\<close>.\<close>

lemma encodeConstructed_encodeTLV:
  "encodeConstructed c t ps = encodeTLV (Num (int c)) True (Num (int t)) (Buf (concat ps))"
  by (simp add: encodeConstructed_def encodeTLV_def contentBytes_def length_concat)

section \<open>Readers of one element\<close>

text \<open>
  What the content loops rely on: a reader that succeeds moves forward inside its limit and only
  ever raises the item count, by at least one and never past its cap.
\<close>

locale tlv_reader =
  fixes f :: "nat \<Rightarrow> counter_state \<Rightarrow> tlv_out" and limit :: nat
  assumes progress: "f cp ctr = Inr (n, e, ctr') \<Longrightarrow> cp < e \<and> e \<le> limit"
    and counts: "f cp ctr = Inr (n, e, ctr') \<Longrightarrow>
      ctr_max ctr' = ctr_max ctr \<and> ctr_err ctr' = ctr_err ctr \<and> ctr_n ctr < ctr_n ctr' \<and>
      ctr_n ctr' \<le> ctr_max ctr"
begin

lemma definite_counts:
  "kids_definite fuel f cp ce ctr = Inr (ks, ctr') \<Longrightarrow>
     ctr_max ctr' = ctr_max ctr \<and> ctr_err ctr' = ctr_err ctr \<and> ctr_n ctr \<le> ctr_n ctr' \<and>
     (ctr_n ctr \<le> ctr_max ctr \<longrightarrow> ctr_n ctr' \<le> ctr_max ctr)"
proof (induction fuel arbitrary: cp ctr ks)
  case (Suc fuel)
  then show ?case by (fastforce simp: res_simps split: if_splits dest: counts)
qed simp

lemma indefinite_counts:
  "kids_indefinite fuel f buf cp lim ctr = Inr (ks, ce, ctr') \<Longrightarrow>
     ctr_max ctr' = ctr_max ctr \<and> ctr_err ctr' = ctr_err ctr \<and> ctr_n ctr \<le> ctr_n ctr' \<and>
     (ctr_n ctr \<le> ctr_max ctr \<longrightarrow> ctr_n ctr' \<le> ctr_max ctr)"
proof (induction fuel arbitrary: cp ctr ks)
  case (Suc fuel)
  then show ?case by (fastforce simp: res_simps split: if_splits dest: counts)
qed simp

lemma indefinite_progress:
  "kids_indefinite fuel f buf cp limit ctr = Inr (ks, ce, ctr') \<Longrightarrow> cp \<le> ce \<and> ce + 2 \<le> limit"
proof (induction fuel arbitrary: cp ctr ks)
  case (Suc fuel)
  then show ?case by (fastforce simp: res_simps split: if_splits dest: progress)
qed simp

lemma definite_total:
  assumes "\<And>cp ctr. lo \<le> cp \<Longrightarrow> cp < limit \<Longrightarrow> ctr_err ctr \<noteq> OutOfFuel \<Longrightarrow> f cp ctr \<noteq> Inl OutOfFuel"
  shows "limit - cp < fuel \<Longrightarrow> lo \<le> cp \<Longrightarrow> ctr_err ctr \<noteq> OutOfFuel \<Longrightarrow>
    kids_definite fuel f cp limit ctr \<noteq> Inl OutOfFuel"
proof (induction fuel arbitrary: cp ctr)
  case (Suc fuel)
  show ?case
  proof (cases "f cp ctr")
    case (Inl e)
    then show ?thesis using assms[of cp ctr] Suc.prems by auto
  next
    case (Inr x)
    obtain n e c' where x: "x = (n, e, c')" by (cases x)
    have "kids_definite fuel f e limit c' \<noteq> Inl OutOfFuel" if "cp < limit"
      using progress[OF Inr[unfolded x]] counts[OF Inr[unfolded x]] Suc.prems that
      by (intro Suc.IH) auto
    then show ?thesis by (auto simp: Inr x res_simps)
  qed
qed simp

lemma indefinite_total:
  assumes "\<And>cp ctr. lo \<le> cp \<Longrightarrow> cp < limit \<Longrightarrow> ctr_err ctr \<noteq> OutOfFuel \<Longrightarrow> f cp ctr \<noteq> Inl OutOfFuel"
  shows "limit - cp < fuel \<Longrightarrow> lo \<le> cp \<Longrightarrow> ctr_err ctr \<noteq> OutOfFuel \<Longrightarrow>
    kids_indefinite fuel f buf cp limit ctr \<noteq> Inl OutOfFuel"
proof (induction fuel arbitrary: cp ctr)
  case (Suc fuel)
  show ?case
  proof (cases "f cp ctr")
    case (Inl e)
    then show ?thesis using assms[of cp ctr] Suc.prems by auto
  next
    case (Inr x)
    obtain n e c' where x: "x = (n, e, c')" by (cases x)
    have "kids_indefinite fuel f buf e limit c' \<noteq> Inl OutOfFuel" if "cp < limit"
      using progress[OF Inr[unfolded x]] counts[OF Inr[unfolded x]] Suc.prems that
      by (intro Suc.IH) auto
    then show ?thesis by (auto simp: Inr x res_simps)
  qed
qed simp

end

section \<open>Every decode moves forward, counts, and has fuel enough\<close>

lemma high_tag_progress: "high_tag buf p limit t s = Inr (t', q) \<Longrightarrow> p < q \<and> q \<le> limit"
proof (induction "limit - p" arbitrary: p t s rule: less_induct)
  case less
  from less.prems have "p < limit \<and> (q = Suc p \<or> (\<exists>t s. high_tag buf (Suc p) limit t s = Inr (t', q)))"
    by (auto simp: high_tag.simps[of buf p] Let_def split: if_splits)
  then show ?case using less.hyps[of "Suc p"] by (fastforce simp: diff_less_mono2)
qed

lemma decode_tag_progress:
  "decode_tag buf first p limit = Inr (t, q) \<Longrightarrow> p \<le> limit \<Longrightarrow> p \<le> q \<and> q \<le> limit"
  by (auto simp: decode_tag_def Let_def res_simps split: if_splits dest!: high_tag_progress)

lemma decode_header_progress:
  "decode_header buf start limit br sd = Inr h \<Longrightarrow> limit \<le> length buf \<Longrightarrow> start + 1 < h_cs h \<and> h_cs h \<le> limit"
proof -
  assume h: "decode_header buf start limit br sd = Inr h" and l: "limit \<le> length buf"
  from h obtain first tag p con len where s: "start < limit"
    "decode_tag buf first (start + 1) limit = Inr (tag, p)" "decode_length buf p limit br con = Inr (len, h_cs h)"
    by (auto simp: decode_header_def Let_def res_simps split: if_splits)
  have "start + 1 \<le> p \<and> p \<le> limit" using s by (intro decode_tag_progress[OF s(2)]) auto
  then show ?thesis using decode_length_progress[OF s(3) l] by simp
qed

text \<open>The three ways an element can end, each with the facts its success leaves behind.\<close>

lemma decodeTLV_SucE:
  assumes "decodeTLV (Suc fuel) buf limit depth md br sd start ctr = Inr (nd, e, ctr')"
  obtains (prim) n ctr1 h where "depth \<le> md" "tick ctr = Inr ctr1" "decode_header buf start limit br sd = Inr h"
      "h_len h = Some n" "h_cs h + n \<le> limit" "\<not> h_con h"
      "finish_node buf start (h_cls h) False (h_tag h) (h_cs h) (h_cs h + n) (h_cs h + n)
         (Some (slice buf (h_cs h) (h_cs h + n))) None br = Inr nd" "e = h_cs h + n" "ctr' = ctr1"
  | (con) n ks ctr1 h where "depth \<le> md" "tick ctr = Inr ctr1" "decode_header buf start limit br sd = Inr h"
      "h_len h = Some n" "h_cs h + n \<le> limit" "h_con h"
      "kids_definite fuel (decodeTLV fuel buf (h_cs h + n) (depth + 1) md br (h_sd h)) (h_cs h) (h_cs h + n) ctr1 = Inr (ks, ctr')"
      "finish_node buf start (h_cls h) True (h_tag h) (h_cs h) (h_cs h + n) (h_cs h + n) None (Some ks) br = Inr nd"
      "e = h_cs h + n"
  | (indef) ks ce ctr1 h where "depth \<le> md" "tick ctr = Inr ctr1" "decode_header buf start limit br sd = Inr h"
      "h_len h = None"
      "kids_indefinite fuel (decodeTLV fuel buf limit (depth + 1) md br (h_sd h)) buf (h_cs h) limit ctr1 = Inr (ks, ce, ctr')"
      "finish_node buf start (h_cls h) (h_con h) (h_tag h) (h_cs h) ce (ce + 2) None (Some ks) br = Inr nd"
      "e = ce + 2"
proof -
  from assms obtain ctr1 h where h: "depth \<le> md" "tick ctr = Inr ctr1" "decode_header buf start limit br sd = Inr h"
    by (auto simp: res_simps split: if_splits)
  show ?thesis
  proof (cases "h_len h")
    case None
    then show ?thesis using assms h by (auto simp: res_simps intro: indef)
  next
    case (Some n)
    then show ?thesis using assms h by (cases "h_con h") (auto simp: res_simps split: if_splits intro: con prim)
  qed
qed

lemma decodeTLV_reader:
  "limit \<le> length buf \<Longrightarrow> tlv_reader (decodeTLV fuel buf limit depth md br sd) limit"
proof (induction fuel arbitrary: limit depth sd)
  case (Suc fuel)
  have d: "tlv_reader (decodeTLV fuel buf l (depth + 1) md br sd') l" if "l \<le> limit" for l sd'
    using that Suc.prems by (intro Suc.IH) simp
  show ?case
  proof (rule tlv_reader.intro, goal_cases)
    case (1 cp ctr n e ctr')
    then show ?case
    proof (cases rule: decodeTLV_SucE)
      case (indef ks ce ctr1 h)
      then show ?thesis
        using tlv_reader.indefinite_progress[OF d indef(5)] decode_header_progress[OF indef(3) Suc.prems] by simp
    qed (use decode_header_progress[OF _ Suc.prems] in force)+
  next
    case (2 cp ctr n e ctr')
    then show ?case
    proof (cases rule: decodeTLV_SucE)
      case (con n ks ctr1 h)
      then show ?thesis using tlv_reader.definite_counts[OF d con(7)] by (auto simp: tick_Inr)
    next
      case (indef ks ce ctr1 h)
      then show ?thesis using tlv_reader.indefinite_counts[OF d indef(5)] by (auto simp: tick_Inr)
    qed (auto simp: tick_Inr)
  qed
qed (auto intro!: tlv_reader.intro)

interpretation der: tlv_reader
  "decodeTLV fuel buf (min limit (length buf)) depth md br sd" "min limit (length buf)"
  for fuel buf limit depth md br sd
  by (rule decodeTLV_reader) simp

lemma segments_fuel: "segments ks \<noteq> Inl OutOfFuel"
  by (induction ks) (auto simp: res_simps split: option.splits)

lemma finish_node_fuel: "finish_node buf s cls con t cs ce e cont kids br \<noteq> Inl OutOfFuel"
  using segments_fuel by (auto simp: finish_node_def Let_def res_simps split: option.splits)

lemma high_tag_fuel: "high_tag buf p limit t s \<noteq> Inl OutOfFuel"
  by (induction buf p limit t s rule: high_tag.induct, subst high_tag.simps) (auto simp: Let_def)

lemma header_fuel: "decode_tag buf first p limit \<noteq> Inl OutOfFuel"
  "check_tag cls con tag br sd \<noteq> Inl OutOfFuel" "decode_length buf p limit br con \<noteq> Inl OutOfFuel"
  using high_tag_fuel
  by (auto simp: decode_tag_def check_tag_def decode_length_def Let_def res_simps split: if_splits)

lemma decode_header_fuel: "decode_header buf start limit br sd \<noteq> Inl OutOfFuel"
  unfolding decode_header_def by (intro total_intros header_fuel) simp_all

lemma decodeTLV_total:
  "limit \<le> length buf \<Longrightarrow> limit - start < fuel \<Longrightarrow> ctr_err ctr \<noteq> OutOfFuel \<Longrightarrow>
     decodeTLV fuel buf limit depth md br sd start ctr \<noteq> Inl OutOfFuel"
proof (induction fuel arbitrary: limit depth sd start ctr)
  case (Suc fuel)
  have t: "tick ctr \<noteq> Inl OutOfFuel" using Suc.prems(3) by (simp add: tick_Inl)
  have kids: "kids_definite fuel (decodeTLV fuel buf l (depth + 1) md br (h_sd h)) (h_cs h) l c \<noteq> Inl OutOfFuel"
    "kids_indefinite fuel (decodeTLV fuel buf l (depth + 1) md br (h_sd h)) buf (h_cs h) l c \<noteq> Inl OutOfFuel"
    if "tick ctr = Inr c" "decode_header buf start limit br sd = Inr h" "l \<le> limit" for h l c
  proof -
    have cs: "start + 1 < h_cs h" "h_cs h \<le> limit" using decode_header_progress[OF that(2) Suc.prems(1)] by auto
    have e: "ctr_err c \<noteq> OutOfFuel" using that(1) Suc.prems(3) by (auto simp: tick_Inr)
    have child: "decodeTLV fuel buf l (depth + 1) md br (h_sd h) q c \<noteq> Inl OutOfFuel"
      if "h_cs h \<le> q" "ctr_err c \<noteq> OutOfFuel" for q c
      using that cs Suc.prems \<open>l \<le> limit\<close> by (intro Suc.IH) auto
    have r: "tlv_reader (decodeTLV fuel buf l (depth + 1) md br (h_sd h)) l"
      using that(3) Suc.prems(1) by (intro decodeTLV_reader) simp
    show "kids_definite fuel (decodeTLV fuel buf l (depth + 1) md br (h_sd h)) (h_cs h) l c \<noteq> Inl OutOfFuel"
      using cs Suc.prems(2) that(3) e by (intro tlv_reader.definite_total[OF r, where lo = "h_cs h"] child) auto
    show "kids_indefinite fuel (decodeTLV fuel buf l (depth + 1) md br (h_sd h)) buf (h_cs h) l c \<noteq> Inl OutOfFuel"
      using cs Suc.prems(2) that(3) e by (intro tlv_reader.indefinite_total[OF r, where lo = "h_cs h"] child) auto
  qed
  show ?case unfolding decodeTLV.simps
    by (intro total_intros decode_header_fuel finish_node_fuel t kids) simp_all
qed simp

section \<open>What is returned fits the caps\<close>

text \<open>An element costs at least one tick for each element of its value, and its nesting is the depth that was
  checked: under BER a reassembled string has fewer elements than were read, never more.\<close>

definition sized :: "nat \<Rightarrow> (nat \<Rightarrow> counter_state \<Rightarrow> tlv_out) \<Rightarrow> bool" where
  "sized room f \<longleftrightarrow> (\<forall>cp ctr n e ctr'. f cp ctr = Inr (n, e, ctr') \<longrightarrow>
     height (tree_of n) < room \<and> ctr_n ctr + nodes (tree_of n) \<le> ctr_n ctr')"

definition kids_sized :: "nat \<Rightarrow> node list \<Rightarrow> counter_state \<Rightarrow> counter_state \<Rightarrow> bool" where
  "kids_sized room ks ctr ctr' \<longleftrightarrow> (\<forall>k \<in> set ks. height (tree_of k) < room) \<and>
     ctr_n ctr + sum_list (map nodes (map tree_of ks)) \<le> ctr_n ctr'"

lemma kids_sized_Cons:
  "sized room f \<Longrightarrow> f cp ctr = Inr (k, e, c) \<Longrightarrow> kids_sized room ks c ctr' \<Longrightarrow> kids_sized room (k # ks) ctr ctr'"
  by (fastforce simp: sized_def kids_sized_def)

lemma definite_sized: "sized room f \<Longrightarrow> kids_definite fuel f cp ce ctr = Inr (ks, ctr') \<Longrightarrow> kids_sized room ks ctr ctr'"
proof (induction fuel arbitrary: cp ctr ks)
  case (Suc fuel)
  show ?case
  proof (cases "cp < ce")
    case True
    then obtain k e c ks' where "f cp ctr = Inr (k, e, c)" "ks = k # ks'" "kids_definite fuel f e ce c = Inr (ks', ctr')"
      using Suc.prems(2) by (auto simp: res_simps)
    then show ?thesis using kids_sized_Cons[OF Suc.prems(1)] Suc.IH[OF Suc.prems(1)] by blast
  qed (use Suc.prems in \<open>auto simp: kids_sized_def\<close>)
qed simp

lemma indefinite_sized:
  "sized room f \<Longrightarrow> kids_indefinite fuel f buf cp lim ctr = Inr (ks, ce, ctr') \<Longrightarrow> kids_sized room ks ctr ctr'"
proof (induction fuel arbitrary: cp ctr ks)
  case (Suc fuel)
  show ?case
  proof (cases "buf ! cp = 0 \<and> buf ! (cp + 1) = 0")
    case False
    then obtain k e c ks' where "f cp ctr = Inr (k, e, c)" "ks = k # ks'"
      "kids_indefinite fuel f buf e lim c = Inr (ks', ce, ctr')"
      using Suc.prems(2) by (auto simp: res_simps split: if_splits)
    then show ?thesis using kids_sized_Cons[OF Suc.prems(1)] Suc.IH[OF Suc.prems(1)] by blast
  qed (use Suc.prems in \<open>auto simp: kids_sized_def split: if_splits\<close>)
qed simp

lemma finish_node_prim: "finish_node buf s cls False t cs ce e cont None br = Inr nd \<Longrightarrow>
    height (tree_of nd) = 0 \<and> nodes (tree_of nd) = 1"
  by (auto simp: finish_node_def Let_def)

lemma finish_node_sized:
  assumes "finish_node buf s cls con t cs ce e cont (Some ks) br = Inr nd" and "kids_sized room ks ctr ctr'"
  shows "height (tree_of nd) \<le> room \<and> ctr_n ctr + nodes (tree_of nd) \<le> Suc (ctr_n ctr')"
  using assms by (auto simp: finish_node_def Let_def kids_sized_def res_simps Suc_le_eq split: if_splits)

lemma decodeTLV_sized: "sized (Suc md - depth) (decodeTLV fuel buf limit depth md br sd)"
proof (induction fuel arbitrary: limit depth sd)
  case (Suc fuel)
  have room: "Suc md - (depth + 1) = md - depth" by simp
  note kids = Suc.IH[of "depth + 1", unfolded room]
  show ?case unfolding sized_def
  proof (intro allI impI)
    fix cp ctr nd e ctr'
    assume "decodeTLV (Suc fuel) buf limit depth md br sd cp ctr = Inr (nd, e, ctr')"
    then show "height (tree_of nd) < Suc md - depth \<and> ctr_n ctr + nodes (tree_of nd) \<le> ctr_n ctr'"
    proof (cases rule: decodeTLV_SucE)
      case (prim n ctr1 h)
      then show ?thesis using finish_node_prim[OF prim(7)] by (auto simp: tick_Inr)
    next
      case (con n ks ctr1 h)
      then show ?thesis using finish_node_sized[OF con(8) definite_sized[OF kids con(7)]] by (auto simp: tick_Inr)
    next
      case (indef ks ce ctr1 h)
      then show ?thesis using finish_node_sized[OF indef(6) indefinite_sized[OF kids indef(5)]] by (auto simp: tick_Inr)
    qed
  qed
qed (simp add: sized_def)

section \<open>Strict decoding accepts only encodings\<close>

lemma cls_class: "(n::nat) < 256 \<Longrightarrow> n AND CLASS_MASK = class_bits (className (n AND CLASS_MASK))"
proof -
  assume n: "n < 256"
  then have "n div 64 \<in> {0, 1, 2, 3}" by auto
  then show ?thesis unfolding nat_and_c0[OF n] by (elim insertE) (simp_all add: className_def)
qed

lemma class_bits_0 [simp]: "class_bits c = 0 \<longleftrightarrow> c = Universal" "class_bits c = 128 \<longleftrightarrow> c = Context"
  by (cases c; simp)+

lemma decode_length_strict: "decode_length buf p limit False con = Inr (l, q) \<Longrightarrow> \<exists>n. l = Some n"
  by (auto simp: decode_length_def Let_def split: if_splits)

lemma decode_header_sound:
  assumes "decode_header buf start limit False sd = Inr h" and "limit \<le> length buf"
  obtains c n where "h_cls h = class_bits c" and "h_len h = Some n" and "n < 256 ^ 6"
    and "tag_legal c (h_tag h)"
    and "c = Universal \<longrightarrow> h_con h = (h_tag h \<in> set CONSTRUCTED_ONLY_UNIVERSAL_TAGS)"
    and "slice buf start (h_cs h) = ident c (h_con h) (h_tag h) @ len_octets n"
    and "start < h_cs h" and "h_cs h \<le> limit"
proof -
  let ?b = "unat (buf ! start)"
  obtain c where cN: "className (?b AND CLASS_MASK) = c" and cb: "?b AND CLASS_MASK = class_bits c"
    using cls_class[of ?b] by auto
  from assms(1) obtain p len where st: "start < limit"
    and tag: "decode_tag buf ?b (start + 1) limit = Inr (h_tag h, p)"
    and chk: "check_tag (?b AND CLASS_MASK) (h_con h) (h_tag h) False sd = Inr (h_sd h)"
    and len: "decode_length buf p limit False (h_con h) = Inr (h_len h, h_cs h)"
    and con: "h_con h = (?b AND CONSTRUCTED_BIT \<noteq> 0)" and cls: "h_cls h = ?b AND CLASS_MASK"
    by (auto simp: decode_header_def Let_def res_simps split: if_splits)
  from decode_tag_sound[OF tag st assms(2)]
  have t: "start < p" "p \<le> limit" "h_tag h \<le> 0x0fffffff" "slice buf start p = ident c (h_con h) (h_tag h)"
    by (simp_all add: con cN)
  obtain n where n: "h_len h = Some n" using decode_length_strict[OF len] by blast
  from decode_length_sound[OF len[unfolded n] assms(2)]
  have l: "p < h_cs h" "h_cs h \<le> limit" "n < 256 ^ 6" "slice buf p (h_cs h) = len_octets n" by auto
  have "slice buf start (h_cs h) = slice buf start p @ slice buf p (h_cs h)"
    using t l by (intro slice_append[symmetric]) auto
  moreover have "tag_legal c (h_tag h)"
    "c = Universal \<longrightarrow> h_con h = (h_tag h \<in> set CONSTRUCTED_ONLY_UNIVERSAL_TAGS)"
    using chk t(3) unfolding cb
    by (auto simp: check_tag_def tag_legal_def reserved_Num Let_def split: if_splits)
  ultimately show ?thesis using that[of c n] cls cb n t l by auto
qed

lemma finish_node_strict [simp]:
  "finish_node buf s cls con t cs ce e cont kids False =
     Inr (Node (className cls) con t s cs ce cont kids (slice buf s e) False)"
  by (simp add: finish_node_def)

text \<open>What a strict decode of the octets from \<open>cp\<close> promises of its result.\<close>

definition strict_item :: "bytes \<Rightarrow> nat \<Rightarrow> nat \<Rightarrow> counter_state \<Rightarrow> node \<Rightarrow> nat \<Rightarrow> counter_state \<Rightarrow> bool" where
  "strict_item buf room cp ctr nd e ctr' \<longleftrightarrow>
     enc (tree_of nd) = Inr (slice buf cp e) \<and> der_shape (tree_of nd) \<and> located buf nd \<and>
     n_start nd = cp \<and> contentEnd nd = e \<and> height (tree_of nd) \<le> room \<and>
     ctr_n ctr' = ctr_n ctr + nodes (tree_of nd)"

locale strict_reader = tlv_reader +
  fixes buf :: bytes and room :: nat
  assumes item: "f cp ctr = Inr (nd, e, ctr') \<Longrightarrow> strict_item buf room cp ctr nd e ctr'"
begin

lemma kids_strict:
  "kids_definite fuel f cp limit ctr = Inr (ks, ctr') \<Longrightarrow> cp \<le> limit \<Longrightarrow>
     \<exists>ps. mapR enc (map tree_of ks) = Inr ps \<and> concat ps = slice buf cp limit \<and> tiled cp limit ks \<and>
       (\<forall>k \<in> set ks. located buf k \<and> der_shape (tree_of k) \<and> height (tree_of k) \<le> room) \<and>
       ctr_n ctr' = ctr_n ctr + sum_list (map nodes (map tree_of ks))"
proof (induction fuel arbitrary: cp ctr ks)
  case (Suc fuel)
  show ?case
  proof (cases "cp < limit")
    case True
    then obtain k e c ks' where k: "f cp ctr = Inr (k, e, c)" and ks: "ks = k # ks'"
      and rest: "kids_definite fuel f e limit c = Inr (ks', ctr')"
      using Suc.prems by (auto simp: res_simps)
    from progress[OF k] have e: "cp < e" "e \<le> limit" by auto
    from Suc.IH[OF rest e(2)] obtain ps where ps: "mapR enc (map tree_of ks') = Inr ps"
      "concat ps = slice buf e limit" "tiled e limit ks'"
      "\<forall>k \<in> set ks'. located buf k \<and> der_shape (tree_of k) \<and> height (tree_of k) \<le> room"
      "ctr_n ctr' = ctr_n c + sum_list (map nodes (map tree_of ks'))" by auto
    have "slice buf cp e @ slice buf e limit = slice buf cp limit" using e by (intro slice_append) auto
    then show ?thesis using ps item[OF k] by (auto simp: ks strict_item_def)
  qed (use Suc.prems in auto)
qed simp

end

lemma decodeTLV_strict:
  "limit \<le> length buf \<Longrightarrow> strict_reader (decodeTLV fuel buf limit depth md False sd) limit buf (md - depth)"
proof (induction fuel arbitrary: limit depth sd)
  case (Suc fuel)
  show ?case
  proof (rule strict_reader.intro[OF decodeTLV_reader[OF Suc.prems]], unfold_locales)
    fix cp ctr nd e ctr'
    assume "decodeTLV (Suc fuel) buf limit depth md False sd cp ctr = Inr (nd, e, ctr')"
    then show "strict_item buf (md - depth) cp ctr nd e ctr'"
    proof (cases rule: decodeTLV_SucE)
      case (prim n ctr1 h)
      from decode_header_sound[OF prim(3) Suc.prems] obtain c where c: "h_cls h = class_bits c" "n < 256 ^ 6"
        "tag_legal c (h_tag h)" "c = Universal \<longrightarrow> h_con h = (h_tag h \<in> set CONSTRUCTED_ONLY_UNIVERSAL_TAGS)"
        "slice buf cp (h_cs h) = ident c (h_con h) (h_tag h) @ len_octets n" "cp < h_cs h" "h_cs h \<le> limit"
        using prim(4) by auto
      have "slice buf cp e = slice buf cp (h_cs h) @ slice buf (h_cs h) e"
        using c prim(8) by (intro slice_append[symmetric]) auto
      moreover have len: "length (slice buf (h_cs h) e) = n" using prim(5,8) Suc.prems by simp
      ultimately have "enc (TPrim c (h_tag h) (slice buf (h_cs h) e)) = Inr (slice buf cp e)"
        using c prim(6) by (subst enc_TPrim) auto
      then show ?thesis using prim c Suc.prems by (auto simp: strict_item_def tick_Inr simp del: enc.simps)
    next
      case (con n ks ctr1 h)
      from decode_header_sound[OF con(3) Suc.prems] obtain c where c: "h_cls h = class_bits c" "n < 256 ^ 6"
        "tag_legal c (h_tag h)" "c = Universal \<longrightarrow> h_con h = (h_tag h \<in> set CONSTRUCTED_ONLY_UNIVERSAL_TAGS)"
        "slice buf cp (h_cs h) = ident c (h_con h) (h_tag h) @ len_octets n" "cp < h_cs h" "h_cs h \<le> limit"
        using con(4) by auto
      have "strict_reader (decodeTLV fuel buf (h_cs h + n) (depth + 1) md False (h_sd h)) (h_cs h + n) buf (md - (depth + 1))"
        using con(5) Suc.prems by (intro Suc.IH) simp
      from strict_reader.kids_strict[OF this con(7)] obtain ps where ps:
        "mapR enc (map tree_of ks) = Inr ps" "concat ps = slice buf (h_cs h) e" "tiled (h_cs h) e ks"
        "\<forall>k \<in> set ks. located buf k \<and> der_shape (tree_of k) \<and> height (tree_of k) \<le> md - (depth + 1)"
        "ctr_n ctr' = ctr_n ctr1 + sum_list (map nodes (map tree_of ks))" by (auto simp: con(9))
      have room: "ks \<noteq> [] \<longrightarrow> depth < md"
        using con(7) by (cases fuel; cases fuel) (auto simp: res_simps split: if_splits)
      have "slice buf cp e = slice buf cp (h_cs h) @ slice buf (h_cs h) e"
        using c con(9) by (intro slice_append[symmetric]) auto
      moreover have "length (concat ps) = n" unfolding ps(2) using con(5,9) Suc.prems by simp
      ultimately have "encodeConstructed (class_bits c) (h_tag h) ps = Inr (slice buf cp e)"
        using c con(6) ps(2) by (subst encodeConstructed_Inr) auto
      then have "enc (TCons c (h_tag h) (map tree_of ks)) = Inr (slice buf cp e)"
        using ps(1) by (simp only: enc.simps mapR_id_map bindR.simps)
      moreover have "\<forall>k \<in> set ks. Suc (height (tree_of k)) \<le> md - depth" using ps(4) room by fastforce
      ultimately show ?thesis using con c ps Suc.prems
        by (auto simp: strict_item_def tick_Inr simp del: enc.simps)
    next
      case (indef ks ce ctr1 h)
      from decode_header_sound[OF indef(3) Suc.prems] show ?thesis using indef(4) by auto
    qed
  qed
qed (auto intro!: strict_reader.intro tlv_reader.intro strict_reader_axioms.intro)

interpretation strict: strict_reader
  "decodeTLV fuel buf (min limit (length buf)) depth md False sd" "min limit (length buf)" buf "md - depth"
  for fuel buf limit depth md sd
  by (rule decodeTLV_strict) simp

section \<open>Strict decoding accepts every encoding\<close>

lemma slice_split2:
  assumes "slice buf i j = xs @ ys" and "i \<le> j" and "j \<le> length buf"
  shows "slice buf i (i + length xs) = xs" and "slice buf (i + length xs) j = ys"
    and "i + length xs + length ys = j"
proof -
  have "length (slice buf i j) = j - i" using assms(2,3) by simp
  then have l: "length xs + length ys = j - i" by (simp only: assms(1) length_append)
  then show "i + length xs + length ys = j" using assms(2) by simp
  have "slice buf i (i + length xs) @ slice buf (i + length xs) j = xs @ ys"
    using assms l by (subst slice_append) auto
  then show "slice buf i (i + length xs) = xs" "slice buf (i + length xs) j = ys"
    using assms l by (auto simp: append_eq_append_conv)
qed

lemma decode_header_complete:
  assumes "slice buf start e = ident c con t @ len_octets n @ body" and "length body = n" and "n < 256 ^ 6"
    and "tag_legal c t" and "c = Universal \<longrightarrow> con = (t \<in> set CONSTRUCTED_ONLY_UNIVERSAL_TAGS)"
    and "start < e" and "e \<le> limit" and "limit \<le> length buf"
  shows "\<exists>h. decode_header buf start limit False sd = Inr h \<and> h_cls h = class_bits c \<and> h_con h = con \<and>
    h_tag h = t \<and> h_len h = Some n \<and> h_cs h + n = e \<and> slice buf (h_cs h) e = body \<and> h_sd h = sd \<and> start < h_cs h"
proof -
  let ?p = "start + length (ident c con t)"
  let ?q = "?p + length (len_octets n)"
  note s1 = slice_split2[OF assms(1)]
  have s: "slice buf start ?p = ident c con t" "slice buf ?p e = len_octets n @ body" "?p + length (len_octets n @ body) = e"
    using s1 assms(6-8) by auto
  have l: "slice buf ?p ?q = len_octets n" "slice buf ?q e = body" "?q + n = e"
    using slice_split2[OF s(2)] s(3) assms(2,7,8) by auto
  have pos: "0 < length (ident c con t)" "0 < length (len_octets n)" by simp_all
  have t: "t \<le> 0x0fffffff" using assms(4) by (simp add: tag_legal_def)
  have dt: "decode_tag buf (unat (buf ! start)) (start + 1) limit = Inr (t, ?p)"
    "(unat (buf ! start) AND CLASS_MASK) = class_bits c" "(unat (buf ! start) AND CONSTRUCTED_BIT \<noteq> 0) = con"
    using decode_tag_complete[OF s(1) t _ _ assms(8)] pos l(3) assms(7) by auto
  have dl: "decode_length buf ?p limit False con = Inr (Some n, ?q)"
    using l(1,3) pos assms(3,7,8) by (intro decode_length_complete) auto
  have chk: "check_tag (class_bits c) con t False sd = Inr sd"
    using assms(4,5) by (auto simp: check_tag_def reserved_Num tag_legal_def Let_def)
  have "start < limit" using assms(6,7) by simp
  then show ?thesis using dt dl chk l pos by (simp add: decode_header_def Let_def del: One_nat_def)
qed

lemma tick_ok: "ctr_n c < ctr_max c \<Longrightarrow> tick c = Inr (c\<lparr>ctr_n := ctr_n c + 1\<rparr>)"
  by (simp add: tick_Inr)

lemma nodes_pos: "0 < nodes t"
  by (cases t) auto

text \<open>The loop over the children: each is decoded from its own octets, in order.\<close>

lemma kids_complete:
  assumes child: "\<And>t cp e ctr bs. t \<in> set ts \<Longrightarrow> enc t = Inr bs \<Longrightarrow> slice buf cp e = bs \<Longrightarrow> lo \<le> cp \<Longrightarrow> cp < e \<Longrightarrow> e \<le> ce \<Longrightarrow>
      ctr_n ctr + nodes t \<le> ctr_max ctr \<Longrightarrow>
      \<exists>nd. f cp ctr = Inr (nd, e, ctr\<lparr>ctr_n := ctr_n ctr + nodes t\<rparr>) \<and> tree_of nd = t"
    and ne: "\<And>t bs. t \<in> set ts \<Longrightarrow> enc t = Inr bs \<Longrightarrow> bs \<noteq> []"
    and "ce \<le> length buf"
  shows "mapR enc ts = Inr ps \<Longrightarrow> slice buf cp ce = concat ps \<Longrightarrow> lo \<le> cp \<Longrightarrow> cp \<le> ce \<Longrightarrow> ce - cp < fuel \<Longrightarrow>
    ctr_n ctr + sum_list (map nodes ts) \<le> ctr_max ctr \<Longrightarrow>
    \<exists>ks. kids_definite fuel f cp ce ctr = Inr (ks, ctr\<lparr>ctr_n := ctr_n ctr + sum_list (map nodes ts)\<rparr>) \<and> map tree_of ks = ts"
  using child ne
proof (induction ts arbitrary: ps cp fuel ctr)
  case Nil
  have "length (slice buf cp ce) = ce - cp" using assms(3) by simp
  then have "cp = ce" using Nil.prems(1,2,4) by simp
  then show ?case using Nil by (cases fuel) auto
next
  case (Cons t ts)
  from Cons.prems(1) obtain b ps' where b: "enc t = Inr b" and ps': "mapR enc ts = Inr ps'" and ps: "ps = b # ps'"
    by (auto simp: res_simps)
  let ?e = "cp + length b"
  have bne: "b \<noteq> []" using Cons.prems(8)[OF _ b] by simp
  have sl: "slice buf cp ?e = b" "slice buf ?e ce = concat ps'" "?e + length (concat ps') = ce"
    using slice_split2[of buf cp ce b "concat ps'"] Cons.prems(2,4) assms(3) ps by auto
  have len: "0 < length b" "?e \<le> ce" using bne sl(3) by auto
  let ?c = "ctr\<lparr>ctr_n := ctr_n ctr + nodes t\<rparr>"
  have "ctr_n ctr + nodes t \<le> ctr_max ctr" using Cons.prems(6) by simp
  with Cons.prems(7)[OF _ b sl(1) Cons.prems(3)] len
  obtain k where k: "f cp ctr = Inr (k, ?e, ?c)" "tree_of k = t" by force
  obtain fu where fu: "fuel = Suc fu" using Cons.prems(5) by (cases fuel) auto
  have "\<exists>ks. kids_definite fu f ?e ce ?c = Inr (ks, ?c\<lparr>ctr_n := ctr_n ?c + sum_list (map nodes ts)\<rparr>) \<and> map tree_of ks = ts"
  proof (rule Cons.IH[OF ps' sl(2)])
    show "ce - ?e < fu" using len Cons.prems(5) fu by linarith
    show "enc x = Inr y \<Longrightarrow> y \<noteq> []" if "x \<in> set ts" for x y using Cons.prems(8) that by auto
  qed (use len Cons.prems(3,6,7) in auto)
  then obtain ks where ks: "kids_definite fu f ?e ce ?c = Inr (ks, ?c\<lparr>ctr_n := ctr_n ?c + sum_list (map nodes ts)\<rparr>)"
    "map tree_of ks = ts" by auto
  have "cp < ce" using len by linarith
  then show ?case using k ks by (auto simp: fu add.assoc)
qed

lemma enc_ne: "enc t = Inr bs \<Longrightarrow> bs \<noteq> []"
  by (cases t) (auto simp: encodeConstructed_def encodeTLV_def encodeIdentifier_Inr res_simps)

lemma decodeTLV_complete:
  "enc t = Inr bs \<Longrightarrow> der_shape t \<Longrightarrow> length bs < 256 ^ 6 \<Longrightarrow> slice buf start e = bs \<Longrightarrow> start < e \<Longrightarrow> e \<le> limit \<Longrightarrow>
   limit \<le> length buf \<Longrightarrow> depth + height t \<le> md \<Longrightarrow> ctr_n ctr + nodes t \<le> ctr_max ctr \<Longrightarrow> e - start < fuel \<Longrightarrow>
   \<exists>nd. decodeTLV fuel buf limit depth md False sd start ctr = Inr (nd, e, ctr\<lparr>ctr_n := ctr_n ctr + nodes t\<rparr>) \<and> tree_of nd = t"
proof (induction t arbitrary: bs start e limit depth fuel sd ctr)
  case (TPrim c t b)
  obtain fu where fu: "fuel = Suc fu" using TPrim.prems(10) by (cases fuel) auto
  have lb: "length b < 256 ^ 6"
    using TPrim.prems(1,3) by (auto simp: encodeTLV_def contentBytes_def res_simps)
  have e: "tag_legal c t" "slice buf start e = ident c False t @ len_octets (length b) @ b"
    using TPrim.prems(1,4) by (auto simp: enc_TPrim[OF lb] simp del: enc.simps)
  from decode_header_complete[OF e(2) refl lb e(1)] TPrim.prems
  obtain h where h: "decode_header buf start limit False sd = Inr h" "h_cls h = class_bits c" "h_con h = False"
    "h_tag h = t" "h_len h = Some (length b)" "h_cs h + length b = e" "slice buf (h_cs h) e = b" by auto
  show ?case using TPrim.prems h by (simp add: fu tick_ok)
next
  case (TCons c t ts)
  obtain fu where fu: "fuel = Suc fu" using TCons.prems(10) by (cases fuel) auto
  obtain ps where ps: "mapR enc ts = Inr ps" "encodeConstructed (class_bits c) t ps = Inr bs"
    using TCons.prems(1) by (auto simp: mapR_id_map res_simps)
  have lb: "length (concat ps) < 256 ^ 6"
    using ps(2) TCons.prems(3) by (auto simp: encodeConstructed_def res_simps)
  have e: "tag_legal c t" "slice buf start e = ident c True t @ len_octets (length (concat ps)) @ concat ps"
    using ps(2) TCons.prems(4) by (auto simp: encodeConstructed_Inr[OF lb])
  from decode_header_complete[OF e(2) refl lb e(1)] TCons.prems
  obtain h where h: "decode_header buf start limit False sd = Inr h" "h_cls h = class_bits c" "h_con h"
    "h_tag h = t" "h_len h = Some (length (concat ps))" "h_cs h + length (concat ps) = e"
    "slice buf (h_cs h) e = concat ps" "h_sd h = sd" "start < h_cs h" by auto
  let ?c = "ctr\<lparr>ctr_n := ctr_n ctr + 1\<rparr>"
  let ?f = "decodeTLV fu buf e (depth + 1) md False sd"
  have child: "\<exists>nd. ?f cp ctr' = Inr (nd, e', ctr'\<lparr>ctr_n := ctr_n ctr' + nodes x\<rparr>) \<and> tree_of nd = x"
    if "x \<in> set ts" "enc x = Inr b" "slice buf cp e' = b" "h_cs h \<le> cp" "cp < e'" "e' \<le> e"
      "ctr_n ctr' + nodes x \<le> ctr_max ctr'" for x cp e' ctr' b
  proof (rule TCons.IH[OF that(1,2)])
    show "length b < 256 ^ 6" using that(3-6) TCons.prems(3,4,5,6,7) h(9) by auto
    have "height (TCons c t ts) \<le> md - depth" using TCons.prems(8) by linarith
    then have "Suc (height x) \<le> md - depth" using that(1) unfolding height_le_iff by blast
    then show "depth + 1 + height x \<le> md" by linarith
  qed (use that TCons.prems fu h in auto)
  have "\<exists>ks. kids_definite fu ?f (h_cs h) e ?c = Inr (ks, ?c\<lparr>ctr_n := ctr_n ?c + sum_list (map nodes ts)\<rparr>) \<and> map tree_of ks = ts"
    using TCons.prems fu h by (intro kids_complete[OF child enc_ne _ ps(1)]) auto
  then obtain ks where ks: "kids_definite fu ?f (h_cs h) e ?c = Inr (ks, ctr\<lparr>ctr_n := ctr_n ctr + nodes (TCons c t ts)\<rparr>)"
    "map tree_of ks = ts" by auto
  show ?case using TCons.prems h ks by (simp add: fu tick_ok)
qed

section \<open>The entry point\<close>

text \<open>The three caps of one call, once they have been validated.\<close>

definition caps_of :: "decode_opts \<Rightarrow> (int \<times> int \<times> int) res" where
  "caps_of opts =
     bindR (cap (maxBytes opts) (int DER_MAX_BYTES) Undef Undef None) (\<lambda>mb.
     bindR (depthCap (maxDepth opts) (int DER_MAX_DEPTH)) (\<lambda>md.
     bindR (cap (maxItems opts) (int DER_MAX_ITEMS) Undef Undef None) (\<lambda>mi. Inr (mb, md, mi))))"

lemma decode_Inr_iff: "decode buf opts = Inr nd \<longleftrightarrow>
  (\<exists>mb md mi ctr e ctr'. caps_of opts = Inr (mb, md, mi) \<and> int (length buf) \<le> mb \<and>
     counter (Num mi) (Asn1E Asn1_too_many_items) = Inr ctr \<and>
     decodeTLV (decode_fuel buf) buf (length buf) 0 (nat md) (ber opts) 0 0 ctr = Inr (nd, e, ctr') \<and>
     (allowTrailing opts \<or> e = length buf))"
  by (auto simp: decode_def caps_of_def res_simps not_less)

lemma counter_Inr: "counter (Num m) e = Inr ctr \<longleftrightarrow> 0 \<le> m \<and> ctr = \<lparr>ctr_max = nat m, ctr_err = e, ctr_n = 0\<rparr>"
  by (auto simp: counter_def)

lemma caps_no_opts: "maxBytes opts = Undef \<Longrightarrow> maxDepth opts = Undef \<Longrightarrow> maxItems opts = Undef \<Longrightarrow>
    caps_of opts = Inr (int DER_MAX_BYTES, int DER_MAX_DEPTH, int DER_MAX_ITEMS)"
  by (simp add: caps_of_def depthCap_def MAX_DECODE_DEPTH_CEILING_def DER_MAX_DEPTH_def)

lemma cap_fuel: "(\<And>x. E = Some x \<Longrightarrow> x \<noteq> OutOfFuel) \<Longrightarrow> cap v d a b E \<noteq> Inl OutOfFuel"
  by (auto simp: cap_def Let_def split: js.splits option.splits)

lemma decode_not_fuel: "decode buf opts \<noteq> Inl OutOfFuel"
proof -
  have c: "counter (Num m) (Asn1E a) \<noteq> Inl OutOfFuel" for m a by (simp add: counter_def)
  have d: "depthCap v n \<noteq> Inl OutOfFuel" for v n
    unfolding depthCap_def by (intro total_intros cap_fuel) simp_all
  have t: "decodeTLV (decode_fuel buf) buf (length buf) 0 md br 0 0 ctr \<noteq> Inl OutOfFuel"
    if "counter (Num m) (Asn1E a) = Inr ctr" for md br ctr m a
    using that by (intro decodeTLV_total) (auto simp: decode_fuel_def counter_Inr)
  show ?thesis unfolding decode_def by (intro total_intros cap_fuel c d t) simp_all
qed

lemma decode_strict_item:
  assumes "decode buf opts = Inr nd" and "\<not> ber opts"
  obtains mb md mi e ctr ctr' where "caps_of opts = Inr (mb, md, mi)" and "int (length buf) \<le> mb"
    and "ctr_n ctr = 0" and "ctr_n ctr' \<le> nat mi" and "strict_item buf (nat md) 0 ctr nd e ctr'"
    and "allowTrailing opts \<or> e = length buf" and "0 < e" and "e \<le> length buf"
proof -
  from assms obtain mb md mi ctr e ctr' where h: "caps_of opts = Inr (mb, md, mi)" "int (length buf) \<le> mb"
    "counter (Num mi) (Asn1E Asn1_too_many_items) = Inr ctr"
    "decodeTLV (decode_fuel buf) buf (length buf) 0 (nat md) False 0 0 ctr = Inr (nd, e, ctr')"
    "allowTrailing opts \<or> e = length buf"
    unfolding decode_Inr_iff by auto
  have c: "ctr_n ctr = 0" "ctr_max ctr = nat mi" using h(3) by (auto simp: counter_Inr)
  have d: "decodeTLV (decode_fuel buf) buf (min (length buf) (length buf)) 0 (nat md) False 0 0 ctr = Inr (nd, e, ctr')"
    using h(4) by simp
  show ?thesis
    using that[OF h(1,2) c(1) _ _ h(5)] strict.item[OF d] der.progress[OF d] der.counts[OF d] c(2) by auto
qed

lemma decode_complete_opts:
  assumes "enc t = Inr bs" and "der_shape t" and "length bs < 256 ^ 6"
    and "caps_of opts = Inr (mb, md, mi)" and "int (length bs) \<le> mb" and "int (height t) \<le> md"
    and "int (nodes t) \<le> mi" and "\<not> ber opts"
  shows "\<exists>nd. decode bs opts = Inr nd \<and> tree_of nd = t"
proof -
  let ?ctr = "\<lparr>ctr_max = nat mi, ctr_err = Asn1E Asn1_too_many_items, ctr_n = 0\<rparr>"
  have "\<exists>nd. decodeTLV (decode_fuel bs) bs (length bs) 0 (nat md) False 0 0 ?ctr =
      Inr (nd, length bs, ?ctr\<lparr>ctr_n := ctr_n ?ctr + nodes t\<rparr>) \<and> tree_of nd = t"
    using assms enc_ne[OF assms(1)] nodes_pos[of t]
    by (intro decodeTLV_complete[OF assms(1,2,3)]) (auto simp: decode_fuel_def)
  moreover have "0 \<le> mi" using assms(7) by linarith
  ultimately show ?thesis using assms(4,5,8) by (auto simp: decode_Inr_iff counter_Inr)
qed

section \<open>Properties\<close>

definition der_sample :: bytes where
  "der_sample = [0x30, 0x03, 0x02, 0x01, 0x05]"

definition der_sample_node :: node where
  "der_sample_node = Node Universal True 16 0 2 5 None
     (Some [Node Universal False 2 2 4 5 (Some [5]) None [2, 1, 5] False]) der_sample False"

text \<open>C1: strict DER has one encoding per value.  Whatever \<open>decode\<close> accepts without the BER and
  trailing options is exactly what the encoder emits for the value it returns.\<close>

theorem decode_canonical:
  assumes "decode buf opts = Inr nd" and "\<not> ber opts" and "\<not> allowTrailing opts"
  shows "enc (tree_of nd) = Inr buf \<and> der_shape (tree_of nd)"
proof (rule decode_strict_item[OF assms(1,2)], goal_cases)
  case (1 mb md mi e ctr ctr')
  then have "e = length buf" using assms(3) by simp
  then show ?case using 1(5) by (auto simp: strict_item_def)
qed

lemmas decoder_num =
  decodeTLV.simps(2)[of "pred_numeral k" for k, folded numeral_eq_Suc]
  kids_definite.simps(2)[of "pred_numeral k" for k, folded numeral_eq_Suc]
  kids_indefinite.simps(2)[of "pred_numeral k" for k, folded numeral_eq_Suc]

lemmas decoder_eval =
  decoder_num decode_header_def decode_tag_def check_tag_def decode_length_def finish_node_def
  className_def tick_def reservedUniversalTag_def constructed_only_set Let_def
  slice_def decode_fuel_def

lemma der_sample_decodes: "decode der_sample no_opts = Inr der_sample_node"
  unfolding decode_Inr_iff
  by (simp add: caps_no_opts counter_Inr decoder_eval no_opts_def der_sample_def der_sample_node_def
      DER_MAX_BYTES_def DER_MAX_DEPTH_def DER_MAX_ITEMS_def)

theorem decode_canonical_witness:
  "enc (tree_of der_sample_node) = Inr der_sample \<and> der_shape (tree_of der_sample_node)"
  by (rule decode_canonical[OF der_sample_decodes]) (simp_all add: no_opts_def)

text \<open>C2: the encoder is read back.  Every value of DER shape that fits the caps decodes, from its
  encoding, to itself.\<close>

theorem decode_encode:
  assumes "enc t = Inr bs" and "der_shape t"
    and "length bs \<le> DER_MAX_BYTES" and "height t \<le> DER_MAX_DEPTH" and "nodes t \<le> DER_MAX_ITEMS"
  shows "\<exists>nd. decode bs no_opts = Inr nd \<and> tree_of nd = t"
  using assms caps_no_opts[of no_opts]
  by (intro decode_complete_opts[OF assms(1,2)]) (auto simp: no_opts_def DER_MAX_BYTES_def)

theorem decode_encode_witness:
  "\<exists>nd. decode [0x30, 0x02, 0x05, 0x00] no_opts = Inr nd \<and>
     tree_of nd = TCons Universal 16 [TPrim Universal 5 []]"
  by (rule decode_encode)
    (simp_all add: DER_MAX_BYTES_def DER_MAX_DEPTH_def DER_MAX_ITEMS_def height.simps(2) constructed_only_set
      encodeTLV_def contentBytes_def encodeConstructed_def encodeIdentifier_def to_int32_def reserved_Num Let_def
      encodeLength_def reservedUniversalTag_def)

text \<open>C3: the decoder is total.  On every input and every option the recursion ends within the fuel
  \<open>decode\<close> gives it, so a result or one of the code's own errors comes back.\<close>

theorem decode_terminates: "decode buf opts \<noteq> Inl OutOfFuel"
  by (rule decode_not_fuel)

text \<open>C4: the caps hold of what is returned, by the strict and by the BER door: the input is within
  \<open>maxBytes\<close>, the nesting within \<open>maxDepth\<close> (itself at most the ceiling), the elements within \<open>maxItems\<close>.\<close>

theorem decode_within_caps:
  assumes "decode buf opts = Inr nd"
  shows "\<exists>mb md mi. caps_of opts = Inr (mb, md, mi) \<and> int (length buf) \<le> mb \<and>
    height (tree_of nd) \<le> nat md \<and> md \<le> int MAX_DECODE_DEPTH_CEILING \<and> nodes (tree_of nd) \<le> nat mi"
proof -
  from assms obtain mb md mi ctr e ctr' where h: "caps_of opts = Inr (mb, md, mi)" "int (length buf) \<le> mb"
    "counter (Num mi) (Asn1E Asn1_too_many_items) = Inr ctr"
    "decodeTLV (decode_fuel buf) buf (length buf) 0 (nat md) (ber opts) 0 0 ctr = Inr (nd, e, ctr')"
    unfolding decode_Inr_iff by auto
  have d: "decodeTLV (decode_fuel buf) buf (min (length buf) (length buf)) 0 (nat md) (ber opts) 0 0 ctr = Inr (nd, e, ctr')"
    using h(4) by simp
  have "height (tree_of nd) < Suc (nat md) - 0 \<and> ctr_n ctr + nodes (tree_of nd) \<le> ctr_n ctr'"
    using decodeTLV_sized h(4) unfolding sized_def by blast
  moreover have "ctr_n ctr' \<le> nat mi" using der.counts[OF d] h(3) by (auto simp: counter_Inr)
  moreover have "md \<le> int MAX_DECODE_DEPTH_CEILING"
    using h(1) depthCap_Inr by (auto simp: caps_of_def res_simps)
  ultimately show ?thesis using h(1,2) by auto
qed

theorem decode_within_caps_witness:
  "\<exists>mb md mi. caps_of no_opts = Inr (mb, md, mi) \<and> int (length der_sample) \<le> mb \<and>
    height (tree_of der_sample_node) \<le> nat md \<and> md \<le> int MAX_DECODE_DEPTH_CEILING \<and>
    nodes (tree_of der_sample_node) \<le> nat mi"
  by (rule decode_within_caps[OF der_sample_decodes])

text \<open>Where every returned node lies.  Its \<open>bytes\<close> and \<open>content\<close> are the slices of the input its
  offsets name, and the children of a constructed node tile its content.\<close>

theorem decode_located:
  assumes "decode buf opts = Inr nd" and "\<not> ber opts"
  shows "located buf nd \<and> n_start nd = 0"
  by (rule decode_strict_item[OF assms]) (auto simp: strict_item_def)

theorem decode_located_witness: "located der_sample der_sample_node \<and> n_start der_sample_node = 0"
  by (rule decode_located[OF der_sample_decodes]) (simp add: no_opts_def)

end
