(* ===== verification/Utf8.thy ===== *)
theory Utf8
  imports Values
begin

text \<open>
  Text of the language and its platform codecs: UTF-16 code units and code points, the UTF-8 encoder
  behind \<open>Buffer.from(s, "utf8")\<close> and the fatal \<open>TextDecoder\<close>, latin1, and
  \<open>assertWellFormedUtf16\<close> of lib/guard-text.js.  The strict decoder accepts exactly the encodings of
  well-formed strings (\<open>utf8_text\<close>).
\<close>

section \<open>UTF-16\<close>

definition high_surr :: "nat \<Rightarrow> bool" where "high_surr u \<longleftrightarrow> 0xD800 \<le> u \<and> u \<le> 0xDBFF"
definition low_surr :: "nat \<Rightarrow> bool" where "low_surr u \<longleftrightarrow> 0xDC00 \<le> u \<and> u \<le> 0xDFFF"

definition unit_string :: "jsstr \<Rightarrow> bool" where
  "unit_string s \<longleftrightarrow> (\<forall>u \<in> set s. u < 0x10000)"

text \<open>A scalar value: a code point that is no surrogate.\<close>

definition scalar :: "nat \<Rightarrow> bool" where
  "scalar c \<longleftrightarrow> c \<le> 0x10FFFF \<and> \<not> (0xD800 \<le> c \<and> c \<le> 0xDFFF)"

definition units_of :: "nat \<Rightarrow> jsstr" where
  "units_of c = (if c < 0x10000 then [c]
     else [0xD800 + (c - 0x10000) div 0x400, 0xDC00 + (c - 0x10000) mod 0x400])"

fun code_points :: "jsstr \<Rightarrow> nat list option" where
  "code_points [] = Some []"
| "code_points (u # us) =
     (if high_surr u then
        (case us of
           [] \<Rightarrow> None
         | v # vs \<Rightarrow> if low_surr v
             then map_option (Cons (0x10000 + (u - 0xD800) * 0x400 + (v - 0xDC00))) (code_points vs)
             else None)
      else if low_surr u then None
      else map_option (Cons u) (code_points us))"

section \<open>lib/guard-text.js\<close>

fun assertWellFormedUtf16 :: "jsstr \<Rightarrow> err \<Rightarrow> unit res" where
  "assertWellFormedUtf16 [] e = Inr ()"
| "assertWellFormedUtf16 (u # us) e =
     (if u < 0xd800 \<or> u > 0xdfff then assertWellFormedUtf16 us e
      else if u > 0xdbff then Inl e
      else case us of
        [] \<Rightarrow> Inl e
      | nxt # rest \<Rightarrow> if nxt < 0xdc00 \<or> nxt > 0xdfff then Inl e else assertWellFormedUtf16 rest e)"

section \<open>UTF-8\<close>

definition utf8_char :: "nat \<Rightarrow> bytes" where
  "utf8_char c =
     (if c < 0x80 then [word_of_nat c]
      else if c < 0x800 then [word_of_nat (0xC0 + c div 0x40), word_of_nat (0x80 + c mod 0x40)]
      else if c < 0x10000 then
        [word_of_nat (0xE0 + c div 0x1000), word_of_nat (0x80 + c div 0x40 mod 0x40), word_of_nat (0x80 + c mod 0x40)]
      else [word_of_nat (0xF0 + c div 0x40000), word_of_nat (0x80 + c div 0x1000 mod 0x40),
            word_of_nat (0x80 + c div 0x40 mod 0x40), word_of_nat (0x80 + c mod 0x40)])"

text \<open>The UTF-8 decoder of the Encoding standard in fatal mode: the bounds \<open>lo\<close> and \<open>hi\<close> of the next
  continuation octet, how many are needed, and the value so far.\<close>

fun utf8_points :: "nat \<Rightarrow> nat \<Rightarrow> nat \<Rightarrow> nat \<Rightarrow> bytes \<Rightarrow> nat list option" where
  "utf8_points need acc lo hi [] = (if need = 0 then Some [] else None)"
| "utf8_points need acc lo hi (b # bs) =
     (let x = unat b in
      if need = 0 then
        (if x \<le> 0x7F then map_option (Cons x) (utf8_points 0 0 0x80 0xBF bs)
         else if 0xC2 \<le> x \<and> x \<le> 0xDF then utf8_points 1 (x - 0xC0) 0x80 0xBF bs
         else if 0xE0 \<le> x \<and> x \<le> 0xEF then
           utf8_points 2 (x - 0xE0) (if x = 0xE0 then 0xA0 else 0x80) (if x = 0xED then 0x9F else 0xBF) bs
         else if 0xF0 \<le> x \<and> x \<le> 0xF4 then
           utf8_points 3 (x - 0xF0) (if x = 0xF0 then 0x90 else 0x80) (if x = 0xF4 then 0x8F else 0xBF) bs
         else None)
      else if lo \<le> x \<and> x \<le> hi then
        (let acc' = acc * 0x40 + (x - 0x80) in
         if need = 1 then map_option (Cons acc') (utf8_points 0 0 0x80 0xBF bs)
         else utf8_points (need - 1) acc' 0x80 0xBF bs)
      else None)"

definition utf8_decode :: "bytes \<Rightarrow> jsstr option" where
  "utf8_decode bs = map_option (\<lambda>cs. concat (map units_of cs)) (utf8_points 0 0 0x80 0xBF bs)"

text \<open>The encoder on a well-formed string; a lone surrogate becomes U+FFFD, as the platform does.\<close>

fun lossy_points :: "jsstr \<Rightarrow> nat list" where
  "lossy_points [] = []"
| "lossy_points (u # us) =
     (if high_surr u then
        (case us of
           [] \<Rightarrow> [0xFFFD]
         | v # vs \<Rightarrow> if low_surr v
             then (0x10000 + (u - 0xD800) * 0x400 + (v - 0xDC00)) # lossy_points vs
             else 0xFFFD # lossy_points us)
      else if low_surr u then 0xFFFD # lossy_points us
      else u # lossy_points us)"

definition utf8_encode :: "jsstr \<Rightarrow> bytes" where
  "utf8_encode s = concat (map utf8_char (lossy_points s))"

definition latin1_decode :: "bytes \<Rightarrow> jsstr" where
  "latin1_decode bs = map unat bs"

definition latin1_encode :: "jsstr \<Rightarrow> bytes" where
  "latin1_encode s = map word_of_nat s"

section \<open>Well-formed strings\<close>

lemma wellFormed_iff: "assertWellFormedUtf16 s e = Inr () \<longleftrightarrow> code_points s \<noteq> None"
proof (induction s rule: code_points.induct)
  case (2 u us)
  have h: "(u < 0xd800 \<or> u > 0xdfff) = (\<not> high_surr u \<and> \<not> low_surr u)" "high_surr u \<Longrightarrow> \<not> u > 0xdbff"
    "low_surr u \<Longrightarrow> u > 0xdbff" "high_surr u \<Longrightarrow> \<not> low_surr u" by (auto simp: high_surr_def low_surr_def)
  have l: "(v < 0xdc00 \<or> v > 0xdfff) = (\<not> low_surr v)" for v by (auto simp: low_surr_def)
  show ?case
  proof (cases "high_surr u")
    case True
    show ?thesis
    proof (cases us)
      case Nil
      then show ?thesis using True h by simp
    next
      case (Cons v vs)
      then show ?thesis using True h 2(1)[OF True Cons]
        by (cases "low_surr v") (simp_all only: assertWellFormedUtf16.simps code_points.simps h l list.case if_True if_False simp_thms option.map_disc_iff sum.simps)
    qed
  next
    case False
    then show ?thesis using h 2(2) by (cases "low_surr u") simp_all
  qed
qed simp

lemma lossy_code_points: "code_points s = Some cs \<Longrightarrow> lossy_points s = cs"
proof (induction s arbitrary: cs rule: code_points.induct)
  case (2 u us)
  then show ?case by (cases us) (auto split: if_splits)
qed simp

lemma code_points_scalar: "code_points s = Some cs \<Longrightarrow> unit_string s \<Longrightarrow> (\<forall>c \<in> set cs. scalar c) \<and> concat (map units_of cs) = s"
proof (induction s arbitrary: cs rule: code_points.induct)
  case (2 u us)
  show ?case
  proof (cases "high_surr u")
    case True
    then obtain v vs ds where us: "us = v # vs" and v: "low_surr v" and ds: "code_points vs = Some ds"
      and cs: "cs = (0x10000 + (u - 0xD800) * 0x400 + (v - 0xDC00)) # ds"
      using 2(3) by (auto split: list.splits if_splits)
    have IH: "(\<forall>c \<in> set ds. scalar c) \<and> concat (map units_of ds) = vs"
      using 2(1)[OF True us v ds] 2(4) us by (simp add: unit_string_def)
    let ?p = "u - 0xD800" and ?q = "v - 0xDC00"
    have q: "?q < 0x400" "?p < 0x400" using True v by (auto simp: high_surr_def low_surr_def)
    have "(?p * 0x400 + ?q) div 0x400 = ?p" "(?p * 0x400 + ?q) mod 0x400 = ?q" using q by simp_all
    moreover have "0xD800 + ?p = u" "0xDC00 + ?q = v" using True v by (auto simp: high_surr_def low_surr_def)
    ultimately have "units_of (0x10000 + ?p * 0x400 + ?q) = [u, v]" by (simp add: units_of_def add.assoc)
    then show ?thesis using IH q by (auto simp: cs us scalar_def)
  next
    case False
    then have nl: "\<not> low_surr u" using 2(3) by (auto split: if_splits)
    then obtain ds where ds: "code_points us = Some ds" and cs: "cs = u # ds" using 2(3) False by auto
    have u: "u < 0x10000" using 2(4) by (simp add: unit_string_def)
    then show ?thesis using 2(2)[OF False nl ds] 2(4) False nl
      by (auto simp: cs units_of_def scalar_def high_surr_def low_surr_def unit_string_def)
  qed
qed simp

lemma code_points_units: "(\<forall>c \<in> set cs. scalar c) \<Longrightarrow> code_points (concat (map units_of cs)) = Some cs"
proof (induction cs)
  case (Cons c cs)
  show ?case
  proof (cases "c < 0x10000")
    case True
    have "\<not> high_surr c" "\<not> low_surr c" using Cons.prems by (auto simp: scalar_def high_surr_def low_surr_def)
    then show ?thesis using Cons True by (simp add: units_of_def)
  next
    case False
    have "c \<le> 0x10FFFF" using Cons.prems by (simp add: scalar_def)
    then have "c - 0x10000 < 0x400 * 0x400" using False by linarith
    then have d: "(c - 0x10000) div 0x400 < 0x400" by (simp add: less_mult_imp_div_less)
    have "0x10000 + (c - 0x10000) div 0x400 * 0x400 + (c - 0x10000) mod 0x400 = c" using False by simp
    then show ?thesis using Cons False d by (simp add: units_of_def high_surr_def low_surr_def)
  qed
qed simp

section \<open>UTF-8, both ways\<close>

lemma byte_nat: "n < 256 \<Longrightarrow> unat (word_of_nat n :: byte) = n"
  by simp

lemma byte_back: "unat (b::byte) = n \<Longrightarrow> word_of_nat n = b"
  by auto

abbreviation (input) "points0 \<equiv> utf8_points 0 0 0x80 0xBF"

lemma quot64: "(a * 64 + b) div 64 = a" "(a * 64 + b) mod 64 = b" if "b < 64" for a b :: nat
  using that by simp_all

lemma quot4096: "((a * 64 + b) * 64 + c) div 4096 = a" if "b < 64" "c < 64" for a b c :: nat
  using that div_mult2_eq[of "(a * 64 + b) * 64 + c" 64 64] quot64[of c "a * 64 + b"] quot64[of b a] by simp

lemma quot262144: "(((a * 64 + b) * 64 + c) * 64 + d) div 262144 = a" if "b < 64" "c < 64" "d < 64" for a b c d :: nat
  using that div_mult2_eq[of "((a * 64 + b) * 64 + c) * 64 + d" 64 4096]
    quot64[of d "(a * 64 + b) * 64 + c"] quot4096[of b c a] by simp

lemma split64: "(c::nat) = c div 64 * 64 + c mod 64"
  by simp

lemma div_64_64: "(c::nat) div 64 div 64 = c div 4096" "c div 4096 div 64 = c div 262144"
  by (simp_all add: div_mult2_eq[symmetric])

lemma utf8_char_points:
  assumes "scalar c"
  shows "utf8_points 0 a lo hi (utf8_char c @ bs) = map_option (Cons c) (points0 bs)"
proof -
  have le: "c \<le> 0x10FFFF" and ns: "\<not> (0xD800 \<le> c \<and> c \<le> 0xDFFF)" using assms by (auto simp: scalar_def)
  define p q r where "p = c div 64" and "q = c div 4096" and "r = c div 262144"
  have cp: "c = p * 64 + c mod 64" and pq: "p = q * 64 + p mod 64" and qr: "q = r * 64 + q mod 64"
    using div_64_64[of c] by (simp_all add: p_def q_def r_def) (metis div_mult_mod_eq)+
  have m: "c mod 64 < 64" "p mod 64 < 64" "q mod 64 < 64" by simp_all
  have k: "x mod 64 \<le> 63" for x :: nat using mod_less_divisor[of 64 x] by linarith
  consider "c < 0x80" | "0x80 \<le> c" "c < 0x800" | "0x800 \<le> c" "c < 0x10000" | "0x10000 \<le> c" by linarith
  then show ?thesis
  proof cases
    case 2
    then have b: "2 \<le> p" "p \<le> 31" using cp m by linarith+
    have "unat (word_of_nat (0xC0 + p) :: byte) = 0xC0 + p" "unat (word_of_nat (0x80 + c mod 64) :: byte) = 0x80 + c mod 64"
      by (rule byte_nat; use b m in linarith)+
    moreover have "p * 64 + c mod 64 = c" using cp by simp
    ultimately show ?thesis using 2 b m by (auto simp: utf8_char_def Let_def k simp del: of_nat_add simp flip: p_def)
  next
    case 3
    have b: "q \<le> 15" "q = 0 \<longrightarrow> 32 \<le> p mod 64" "q = 13 \<longrightarrow> p mod 64 < 32"
      using 3 cp pq m ns by linarith+
    have "unat (word_of_nat (0xE0 + q) :: byte) = 0xE0 + q" "unat (word_of_nat (0x80 + c mod 64) :: byte) = 0x80 + c mod 64"
      "unat (word_of_nat (0x80 + p mod 64) :: byte) = 0x80 + p mod 64"
      by (rule byte_nat; use b m in linarith)+
    moreover have "(q * 64 + p mod 64) * 64 + c mod 64 = c" using cp pq by simp
    ultimately show ?thesis using 3 b m by (auto simp: utf8_char_def Let_def k simp del: of_nat_add simp flip: p_def q_def)
  next
    case 4
    have b: "r \<le> 4" "r = 0 \<longrightarrow> 16 \<le> q mod 64" "r = 4 \<longrightarrow> q mod 64 < 16"
      using 4 cp pq qr m le by linarith+
    have "unat (word_of_nat (0xF0 + r) :: byte) = 0xF0 + r" "unat (word_of_nat (0x80 + c mod 64) :: byte) = 0x80 + c mod 64"
      "unat (word_of_nat (0x80 + p mod 64) :: byte) = 0x80 + p mod 64" "unat (word_of_nat (0x80 + q mod 64) :: byte) = 0x80 + q mod 64"
      by (rule byte_nat; use b m in linarith)+
    moreover have "((r * 64 + q mod 64) * 64 + p mod 64) * 64 + c mod 64 = c" using cp pq qr by simp
    ultimately show ?thesis using 4 b m by (auto simp: utf8_char_def Let_def k simp del: of_nat_add simp flip: p_def q_def r_def)
  qed (simp add: utf8_char_def byte_nat)
qed

lemma char2: "2 \<le> a \<Longrightarrow> a \<le> 31 \<Longrightarrow> e < 64 \<Longrightarrow>
    utf8_char (a * 64 + e) = [word_of_nat (0xC0 + a), word_of_nat (0x80 + e)]"
proof -
  assume h: "2 \<le> a" "a \<le> 31" "e < 64"
  then have "\<not> a * 64 + e < 0x80" "a * 64 + e < 0x800" by linarith+
  then show ?thesis using quot64[of e a] h by (simp add: utf8_char_def del: of_nat_add)
qed

lemma char3: "a \<le> 15 \<Longrightarrow> (a = 0 \<longrightarrow> 32 \<le> e) \<Longrightarrow> e < 64 \<Longrightarrow> f < 64 \<Longrightarrow>
    utf8_char ((a * 64 + e) * 64 + f) = [word_of_nat (0xE0 + a), word_of_nat (0x80 + e), word_of_nat (0x80 + f)]"
proof -
  assume h: "a \<le> 15" "a = 0 \<longrightarrow> 32 \<le> e" "e < 64" "f < 64"
  let ?c = "(a * 64 + e) * 64 + f"
  have u: "32 \<le> a * 64 + e" "a * 64 + e < 1024" using h by (cases "a = 0"; simp)+
  have "\<not> ?c < 0x80" "\<not> ?c < 0x800" "?c < 0x10000" using u h(4) unfolding add_mult_distrib by linarith+
  moreover have "?c div 0x1000 = a" "?c div 0x40 mod 0x40 = e" "?c mod 0x40 = f"
    by (simp_all only: quot64 quot4096 h)
  ultimately show ?thesis by (simp only: utf8_char_def if_False if_True)
qed

lemma char4: "a \<le> 4 \<Longrightarrow> (a = 0 \<longrightarrow> 16 \<le> e) \<Longrightarrow> e < 64 \<Longrightarrow> f < 64 \<Longrightarrow> g < 64 \<Longrightarrow>
    utf8_char (((a * 64 + e) * 64 + f) * 64 + g) =
      [word_of_nat (0xF0 + a), word_of_nat (0x80 + e), word_of_nat (0x80 + f), word_of_nat (0x80 + g)]"
proof -
  assume h: "a \<le> 4" "a = 0 \<longrightarrow> 16 \<le> e" "e < 64" "f < 64" "g < 64"
  let ?c = "((a * 64 + e) * 64 + f) * 64 + g"
  have "16 \<le> a * 64 + e" using h by (cases "a = 0") auto
  then have u: "1024 \<le> (a * 64 + e) * 64 + f" unfolding add_mult_distrib by linarith
  have "\<not> ?c < 0x80" "\<not> ?c < 0x800" "\<not> ?c < 0x10000" using u unfolding add_mult_distrib by linarith+
  moreover have "?c div 0x40000 = a" "?c div 0x1000 mod 0x40 = e" "?c div 0x40 mod 0x40 = f" "?c mod 0x40 = g"
    by (simp_all only: quot64 quot4096 quot262144 h)
  ultimately show ?thesis by (simp only: utf8_char_def if_False)
qed

text \<open>One character at the head of accepted octets, by the number of octets its first one announces.\<close>

lemma points0_cases:
  assumes "points0 (b # bs) = Some cs"
  obtains c rest ds where "cs = c # ds" and "points0 rest = Some ds" and "length rest \<le> length bs"
    and "scalar c" and "b # bs = utf8_char c @ rest"
proof -
  let ?x = "unat b"
  consider "?x \<le> 0x7F" | "0xC2 \<le> ?x" "?x \<le> 0xDF" | "0xE0 \<le> ?x" "?x \<le> 0xEF" | "0xF0 \<le> ?x" "?x \<le> 0xF4"
    using assms by (auto simp: Let_def split: if_splits)
  then show ?thesis
  proof cases
    case 1
    then obtain ds where "points0 bs = Some ds" "cs = ?x # ds" using assms by (auto simp: Let_def)
    moreover have "utf8_char ?x = [b]" using 1 by (simp add: utf8_char_def)
    ultimately show ?thesis using that[of ?x ds bs] 1 by (simp add: scalar_def)
  next
    case 2
    then obtain y r ds where bs: "bs = y # r" "0x80 \<le> unat y" "unat y \<le> 0xBF" "points0 r = Some ds"
      "cs = ((?x - 0xC0) * 64 + (unat y - 0x80)) # ds"
      using assms by (cases bs) (auto simp: Let_def split: if_splits)
    have "utf8_char ((?x - 0xC0) * 64 + (unat y - 0x80)) = [b, y]"
      using 2 bs(2,3) by (subst char2) auto
    moreover have "scalar ((?x - 0xC0) * 64 + (unat y - 0x80))" using 2 bs(2,3) by (auto simp: scalar_def)
    ultimately show ?thesis using that[OF bs(5,4)] bs(1) by simp
  next
    case 3
    let ?lo = "if ?x = 0xE0 then 0xA0 else 0x80" and ?hi = "if ?x = 0xED then 0x9F else (0xBF::nat)"
    have st: "utf8_points 2 (?x - 0xE0) ?lo ?hi bs = Some cs" using assms 3 by (simp add: Let_def)
    then obtain y z r ds where bs: "bs = y # z # r" "?lo \<le> unat y" "unat y \<le> ?hi" "0x80 \<le> unat z" "unat z \<le> 0xBF"
      "points0 r = Some ds" "cs = (((?x - 0xE0) * 64 + (unat y - 0x80)) * 64 + (unat z - 0x80)) # ds"
      by (cases bs; cases "tl bs") (auto simp: Let_def split: if_splits)
    let ?c = "((?x - 0xE0) * 64 + (unat y - 0x80)) * 64 + (unat z - 0x80)"
    have y: "0x80 \<le> unat y" "unat y \<le> 0xBF" using bs(2,3) by (auto split: if_splits)
    have "utf8_char ?c = [b, y, z]" using 3 y bs(2,4,5) by (subst char3) (auto split: if_splits)
    moreover have "scalar ?c"
    proof (cases "?x \<le> 0xEC")
      case True
      then have "?c \<le> 0xCFFF" using y bs(5) unfolding add_mult_distrib by linarith
      then show ?thesis by (simp add: scalar_def)
    next
      case False
      show ?thesis
      proof (cases "?x = 0xED")
        case True
        then have "?c \<le> 0xD7FF" using bs(3,5) by auto
        then show ?thesis by (simp add: scalar_def)
      next
        case f: False
        then have "0xE000 \<le> ?c" "?c \<le> 0xFFFF" using False 3 y bs(5) unfolding add_mult_distrib by linarith+
        then show ?thesis by (simp add: scalar_def)
      qed
    qed
    ultimately show ?thesis using that[OF bs(7,6)] bs(1) by simp
  next
    case 4
    let ?lo = "if ?x = 0xF0 then 0x90 else 0x80" and ?hi = "if ?x = 0xF4 then 0x8F else (0xBF::nat)"
    have st: "utf8_points 3 (?x - 0xF0) ?lo ?hi bs = Some cs" using assms 4 by (simp add: Let_def)
    then obtain y z w r ds where bs: "bs = y # z # w # r" "?lo \<le> unat y" "unat y \<le> ?hi" "0x80 \<le> unat z" "unat z \<le> 0xBF"
      "0x80 \<le> unat w" "unat w \<le> 0xBF" "points0 r = Some ds"
      "cs = ((((?x - 0xF0) * 64 + (unat y - 0x80)) * 64 + (unat z - 0x80)) * 64 + (unat w - 0x80)) # ds"
      by (cases bs; cases "tl bs"; cases "tl (tl bs)") (auto simp: Let_def split: if_splits)
    let ?c = "(((?x - 0xF0) * 64 + (unat y - 0x80)) * 64 + (unat z - 0x80)) * 64 + (unat w - 0x80)"
    have y: "0x80 \<le> unat y" "unat y \<le> 0xBF" using bs(2,3) by (auto split: if_splits)
    have "utf8_char ?c = [b, y, z, w]" using 4 y bs(2,4-7) by (subst char4) (auto split: if_splits)
    moreover have "scalar ?c"
    proof -
      have "?c \<le> 0x10FFFF"
      proof (cases "?x = 0xF4")
        case True
        then show ?thesis using bs(3,5,7) by auto
      next
        case False
        then show ?thesis using 4 y bs(5,7) unfolding add_mult_distrib by linarith
      qed
      moreover have "0x10000 \<le> ?c"
      proof (cases "?x = 0xF0")
        case True
        then have "0x90 \<le> unat y" using bs(2) by simp
        then show ?thesis using True unfolding add_mult_distrib by linarith
      next
        case False
        then show ?thesis using 4 unfolding add_mult_distrib by linarith
      qed
      ultimately show ?thesis by (simp add: scalar_def)
    qed
    ultimately show ?thesis using that[OF bs(9,8)] bs(1) by simp
  qed
qed

lemma points_sound: "points0 bs = Some cs \<Longrightarrow> (\<forall>c \<in> set cs. scalar c) \<and> bs = concat (map utf8_char cs)"
proof (induction "length bs" arbitrary: bs cs rule: less_induct)
  case less
  show ?case
  proof (cases bs)
    case (Cons b bs')
    from less.prems[unfolded Cons] show ?thesis
    proof (cases rule: points0_cases)
      case (1 c rest ds)
      have "length rest < length bs" using 1(3) by (simp add: Cons)
      from less.hyps[OF this 1(2)] show ?thesis using 1 by (simp add: Cons)
    qed
  qed (use less.prems in auto)
qed

lemma points_complete: "(\<forall>c \<in> set cs. scalar c) \<Longrightarrow> points0 (concat (map utf8_char cs)) = Some cs"
  by (induction cs) (simp_all add: utf8_char_points)

text \<open>The fatal decoder accepts exactly the encodings of well-formed strings.\<close>

lemma utf8_text:
  "utf8_decode bs = Some s \<longleftrightarrow> unit_string s \<and> code_points s \<noteq> None \<and> utf8_encode s = bs"
proof
  assume "utf8_decode bs = Some s"
  then obtain cs where cs: "points0 bs = Some cs" and s: "s = concat (map units_of cs)"
    by (auto simp: utf8_decode_def)
  from points_sound[OF cs] have sc: "\<forall>c \<in> set cs. scalar c" and bs: "bs = concat (map utf8_char cs)" by auto
  have cp: "code_points s = Some cs" unfolding s by (rule code_points_units[OF sc])
  have "\<forall>u \<in> set (units_of c). u < 0x10000" if "scalar c" for c
  proof (cases "c < 0x10000")
    case False
    have "c - 0x10000 < 0x400 * 0x400" using that False unfolding scalar_def by linarith
    then have "(c - 0x10000) div 0x400 < 0x400" by (simp add: less_mult_imp_div_less)
    moreover have "(c - 0x10000) mod 0x400 < 0x400" by simp
    ultimately show ?thesis using False unfolding units_of_def by (auto simp: less_eq_Suc_le)
  qed (simp add: units_of_def)
  then have "unit_string s" using sc by (auto simp: unit_string_def s)
  then show "unit_string s \<and> code_points s \<noteq> None \<and> utf8_encode s = bs"
    using cp bs by (simp add: utf8_encode_def lossy_code_points[OF cp])
next
  assume "unit_string s \<and> code_points s \<noteq> None \<and> utf8_encode s = bs"
  then obtain cs where cs: "code_points s = Some cs" and u: "unit_string s" and bs: "bs = concat (map utf8_char cs)"
    by (auto simp: utf8_encode_def lossy_code_points)
  from code_points_scalar[OF cs u] show "utf8_decode bs = Some s"
    by (simp add: utf8_decode_def bs points_complete)
qed

end
