(* ===== verification/Guard_List.thy ===== *)
theory Guard_List
  imports Values "HOL-Library.Multiset"
begin

text \<open>
  lib/guard-list.js: the list operations the toolkit uses in place of the array prototype's.  An
  array with no holes and no accessors is a list; \<open>null\<close> where the code tests for it is \<open>None\<close>.
  \<open>sortedCopy\<close> sorts stably by a comparator, as \<open>Array.prototype.sort\<close> does.
\<close>

fun contains :: "'a list \<Rightarrow> 'a \<Rightarrow> bool" where
  "contains [] v = False"
| "contains (x # xs) v = (x = v \<or> contains xs v)"

fun containsAll :: "'a list \<Rightarrow> 'a list \<Rightarrow> bool" where
  "containsAll xs [] = True"
| "containsAll xs (v # vs) = (contains xs v \<and> containsAll xs vs)"

fun anyMatches :: "'a list \<Rightarrow> ('a \<Rightarrow> bool) \<Rightarrow> bool" where
  "anyMatches [] p = False"
| "anyMatches (x # xs) p = (p x \<or> anyMatches xs p)"

fun allMatch :: "'a list \<Rightarrow> ('a \<Rightarrow> bool) \<Rightarrow> bool" where
  "allMatch [] p = True"
| "allMatch (x # xs) p = (p x \<and> allMatch xs p)"

fun firstMatch :: "'a list \<Rightarrow> ('a \<Rightarrow> bool) \<Rightarrow> 'a option" where
  "firstMatch [] p = None"
| "firstMatch (x # xs) p = (if p x then Some x else firstMatch xs p)"

definition removeAt :: "'a list \<Rightarrow> int \<Rightarrow> 'a list res" where
  "removeAt xs i = (if i < 0 \<or> i \<ge> int (length xs) then Inl RangeErr
     else Inr (take (nat i) xs @ drop (nat i + 1) xs))"

fun insert_by :: "('a \<Rightarrow> 'a \<Rightarrow> int) \<Rightarrow> 'a \<Rightarrow> 'a list \<Rightarrow> 'a list" where
  "insert_by cmp x [] = [x]"
| "insert_by cmp x (y # ys) = (if cmp x y \<le> 0 then x # y # ys else y # insert_by cmp x ys)"

definition sortedCopy :: "('a \<Rightarrow> 'a \<Rightarrow> int) \<Rightarrow> 'a list \<Rightarrow> 'a list" where
  "sortedCopy cmp xs = foldr (insert_by cmp) xs []"

text \<open>\<open>copyMap(list, fn, onCount)\<close>: the count is checked before any slot is read.\<close>

definition copyMap :: "'a list \<Rightarrow> ('a \<Rightarrow> 'b res) \<Rightarrow> (nat \<Rightarrow> unit res) \<Rightarrow> 'b list res" where
  "copyMap xs f onCount = bindR (onCount (length xs)) (\<lambda>_. mapR f xs)"

text \<open>\<open>Buffer.compare\<close>: octet by octet, then the shorter first.\<close>

fun buf_compare :: "bytes \<Rightarrow> bytes \<Rightarrow> int" where
  "buf_compare [] [] = 0"
| "buf_compare [] (y # ys) = -1"
| "buf_compare (x # xs) [] = 1"
| "buf_compare (x # xs) (y # ys) =
     (if unat x < unat y then -1 else if unat y < unat x then 1 else buf_compare xs ys)"

section \<open>Membership and removal\<close>

lemma contains_set [simp]: "contains xs v \<longleftrightarrow> v \<in> set xs"
  by (induction xs) auto

lemma containsAll_set [simp]: "containsAll xs vs \<longleftrightarrow> set vs \<subseteq> set xs"
  by (induction vs) auto

lemma anyMatches_set [simp]: "anyMatches xs p \<longleftrightarrow> (\<exists>x \<in> set xs. p x)"
  by (induction xs) auto

lemma allMatch_set [simp]: "allMatch xs p \<longleftrightarrow> (\<forall>x \<in> set xs. p x)"
  by (induction xs) auto

lemma firstMatch_Some: "firstMatch xs p = Some x \<Longrightarrow> x \<in> set xs \<and> p x"
  by (induction xs) (auto split: if_splits)

lemma removeAt_mset: "removeAt xs i = Inr ys \<Longrightarrow> mset xs = add_mset (xs ! nat i) (mset ys)"
proof -
  assume "removeAt xs i = Inr ys"
  then have i: "nat i < length xs" and ys: "ys = take (nat i) xs @ drop (nat i + 1) xs"
    by (auto simp: removeAt_def split: if_splits)
  have "xs = take (nat i) xs @ xs ! nat i # drop (Suc (nat i)) xs" using i by (rule id_take_nth_drop)
  then have "mset xs = mset (take (nat i) xs @ xs ! nat i # drop (Suc (nat i)) xs)" by simp
  then show ?thesis by (simp add: ys)
qed

section \<open>Sorting by a total comparator\<close>

text \<open>A comparator whose answer orders its arguments.\<close>

locale preference =
  fixes cmp :: "'a \<Rightarrow> 'a \<Rightarrow> int"
  assumes total: "cmp x y \<le> 0 \<or> cmp y x \<le> 0"
    and trans: "cmp x y \<le> 0 \<Longrightarrow> cmp y z \<le> 0 \<Longrightarrow> cmp x z \<le> 0"
begin

definition ordered :: "'a list \<Rightarrow> bool" where
  "ordered = sorted_wrt (\<lambda>x y. cmp x y \<le> 0)"

lemma ordered_Nil [simp]: "ordered []"
  by (simp add: ordered_def)

lemma insert_mset: "mset (insert_by cmp x ys) = add_mset x (mset ys)"
  by (induction ys) auto

lemma insert_set: "set (insert_by cmp x ys) = insert x (set ys)"
  by (metis insert_mset set_mset_add_mset_insert set_mset_mset)

lemma insert_ordered: "ordered ys \<Longrightarrow> ordered (insert_by cmp x ys)"
proof (induction ys)
  case (Cons y ys)
  show ?case
  proof (cases "cmp x y \<le> 0")
    case True
    then show ?thesis using Cons.prems trans by (auto simp: ordered_def)
  next
    case False
    then have "cmp y x \<le> 0" using total by blast
    then show ?thesis using Cons False by (auto simp: ordered_def insert_set)
  qed
qed (simp add: ordered_def)

lemma sorted_mset: "mset (sortedCopy cmp xs) = mset xs"
  by (induction xs) (auto simp: sortedCopy_def insert_mset)

lemma sorted_ordered: "ordered (sortedCopy cmp xs)"
  by (induction xs) (simp_all add: sortedCopy_def insert_ordered)

lemma sorted_length: "length (sortedCopy cmp xs) = length xs"
  by (metis sorted_mset size_mset)

text \<open>Sorting forgets the order of the input, where the comparator tells the elements apart.\<close>

lemma ordered_unique_on:
  "ordered xs \<Longrightarrow> ordered ys \<Longrightarrow> mset xs = mset ys \<Longrightarrow>
     (\<And>x y. x \<in> set xs \<Longrightarrow> y \<in> set xs \<Longrightarrow> cmp x y \<le> 0 \<Longrightarrow> cmp y x \<le> 0 \<Longrightarrow> x = y) \<Longrightarrow> xs = ys"
proof (induction xs arbitrary: ys)
  case (Cons x xs)
  then obtain y ys' where ys: "ys = y # ys'" by (cases ys) auto
  have st: "set (x # xs) = set (y # ys')" using Cons.prems(3) ys mset_eq_setD by blast
  then have "cmp x y \<le> 0 \<or> x = y" "cmp y x \<le> 0 \<or> x = y"
    using Cons.prems(1,2) by (auto simp: ordered_def ys)
  moreover have "y \<in> set (x # xs)" using st by simp
  ultimately have "x = y" using Cons.prems(4)[of x y] by auto
  then show ?case using Cons.IH[of ys'] Cons.prems by (simp add: ordered_def ys)
qed simp

lemma sorted_canonical_on:
  "mset xs = mset ys \<Longrightarrow> (\<And>x y. x \<in> set xs \<Longrightarrow> y \<in> set xs \<Longrightarrow> cmp x y \<le> 0 \<Longrightarrow> cmp y x \<le> 0 \<Longrightarrow> x = y) \<Longrightarrow>
     sortedCopy cmp xs = sortedCopy cmp ys"
  by (rule ordered_unique_on) (simp_all add: sorted_mset sorted_ordered mset_eq_setD[OF sorted_mset])

end

text \<open>One that is zero only on equal arguments.\<close>

locale comparator = preference +
  assumes antisym: "cmp x y \<le> 0 \<Longrightarrow> cmp y x \<le> 0 \<Longrightarrow> x = y"
begin

lemma ordered_unique: "ordered xs \<Longrightarrow> ordered ys \<Longrightarrow> mset xs = mset ys \<Longrightarrow> xs = ys"
  by (rule ordered_unique_on) (auto intro: antisym)

text \<open>The order of the input does not reach the output.\<close>

lemma sorted_canonical: "mset xs = mset ys \<Longrightarrow> sortedCopy cmp xs = sortedCopy cmp ys"
  by (intro ordered_unique sorted_ordered) (simp add: sorted_mset)

end

lemma buf_compare_total: "buf_compare x y \<le> 0 \<or> buf_compare y x \<le> 0"
  by (induction x y rule: buf_compare.induct) auto

lemma buf_compare_trans: "buf_compare x y \<le> 0 \<Longrightarrow> buf_compare y z \<le> 0 \<Longrightarrow> buf_compare x z \<le> 0"
proof (induction x y arbitrary: z rule: buf_compare.induct)
  case (1)
  then show ?case by simp
next
  case (2 y ys)
  then show ?case by (cases z) auto
next
  case (4 x xs y ys)
  show ?case
  proof (cases z)
    case (Cons w ws)
    have "unat x \<le> unat y" "unat y \<le> unat w" using 4(2,3) by (auto simp: Cons split: if_splits)
    moreover have "buf_compare xs ws \<le> 0" if e: "unat x = unat w"
    proof -
      have "unat x = unat y" "unat y = unat w" using calculation e by auto
      then show ?thesis using 4(1)[of ws] 4(2,3) by (simp add: Cons)
    qed
    ultimately show ?thesis by (auto simp: Cons)
  qed (use 4 in auto)
qed simp

lemma buf_compare_antisym: "buf_compare x y \<le> 0 \<Longrightarrow> buf_compare y x \<le> 0 \<Longrightarrow> x = y"
  by (induction x y rule: buf_compare.induct) (auto split: if_splits simp: word_unat_eq_iff)

lemma buf_compare_swap: "buf_compare y x = - buf_compare x y"
  by (induction x y rule: buf_compare.induct) auto

lemma buf_compare_zero [simp]: "buf_compare x y = 0 \<longleftrightarrow> x = y"
  by (induction x y rule: buf_compare.induct) (auto simp: word_unat_eq_iff)

lemma buf_compare_less_trans: "buf_compare x y < 0 \<Longrightarrow> buf_compare y z < 0 \<Longrightarrow> buf_compare x z < 0"
  using buf_compare_trans[of x y z] buf_compare_swap[of z y] buf_compare_zero[of x z]
  by (metis leD neg_less_0_iff_less not_less_iff_gr_or_eq order_less_imp_le)

interpretation buf_order: comparator buf_compare
  by unfold_locales (fact buf_compare_total, erule (1) buf_compare_trans, erule (1) buf_compare_antisym)


interpretation first_order: preference "\<lambda>a b. buf_compare (fst a) (fst b)"
  by unfold_locales (fact buf_compare_total, erule (1) buf_compare_trans)

end
