(* ===== verification/Asn1_Build.thy ===== *)
theory Asn1_Build
  imports Asn1_Read Asn1_Tree Utf8 Guard_List
begin

text \<open>
  lib/asn1-der.js, the string readers and the builders \<open>build.*\<close>.  A builder takes the caller's value
  as a \<open>js\<close> value and returns the TLV; the string types share their character tests with the readers.
\<close>

section \<open>Character sets\<close>

definition isPrintableChar :: "nat \<Rightarrow> bool" where
  "isPrintableChar c \<longleftrightarrow> (c \<ge> 65 \<and> c \<le> 90) \<or> (c \<ge> 97 \<and> c \<le> 122) \<or> (c \<ge> 48 \<and> c \<le> 57) \<or>
     c \<in> set [32, 39, 40, 41, 43, 44, 45, 46, 47, 58, 61, 63]"

definition isPrintableString :: "js \<Rightarrow> bool" where
  "isPrintableString v = (case v of Str s \<Rightarrow> list_all isPrintableChar s | _ \<Rightarrow> False)"

definition isNumericString :: "jsstr \<Rightarrow> bool" where
  "isNumericString s = list_all (\<lambda>c. (c \<ge> 48 \<and> c \<le> 57) \<or> c = 32) s"

section \<open>String readers\<close>

definition decodeIa5 :: "bytes \<Rightarrow> jsstr res" where
  "decodeIa5 b = (if list_ex (\<lambda>x. unat x > 0x7F) b then Inl (Asn1E Asn1_bad_ia5_string)
     else Inr (latin1_decode b))"

definition decodeVisible :: "bytes \<Rightarrow> jsstr res" where
  "decodeVisible b = (if list_ex (\<lambda>x. unat x < 0x20 \<or> unat x > 0x7E) b
     then Inl (Asn1E Asn1_bad_visible_string) else Inr (latin1_decode b))"

definition decodePrintable :: "bytes \<Rightarrow> jsstr res" where
  "decodePrintable b = (let s = latin1_decode b in
     if \<not> isPrintableString (Str s) then Inl (Asn1E Asn1_bad_printable_string) else Inr s)"

definition decodeUtf8Strict :: "bytes \<Rightarrow> jsstr res" where
  "decodeUtf8Strict b = (case utf8_decode b of
     None \<Rightarrow> Inl (Asn1E Asn1_bad_utf8_string) | Some s \<Rightarrow> Inr s)"

fun utf16be_units :: "bytes \<Rightarrow> jsstr res" where
  "utf16be_units (a # b # rest) =
     (let u = unat a * 256 + unat b in
      if u \<ge> 0xD800 \<and> u \<le> 0xDFFF then Inl (Asn1E Asn1_bad_bmp_string)
      else bindR (utf16be_units rest) (\<lambda>us. Inr (u # us)))"
| "utf16be_units bs = Inr []"

definition decodeUtf16be :: "bytes \<Rightarrow> jsstr res" where
  "decodeUtf16be b = (if length b mod 2 \<noteq> 0 then Inl (Asn1E Asn1_bad_bmp_string) else utf16be_units b)"

fun utf32be_units :: "bytes \<Rightarrow> jsstr res" where
  "utf32be_units (a # b # c # d # rest) =
     (let cp = unat a * 0x1000000 + unat b * 0x10000 + unat c * 0x100 + unat d in
      if cp > 0x10FFFF \<or> (cp \<ge> 0xD800 \<and> cp \<le> 0xDFFF) then Inl (Asn1E Asn1_bad_universal_string)
      else bindR (utf32be_units rest) (\<lambda>us. Inr (units_of cp @ us)))"
| "utf32be_units bs = Inr []"

definition decodeUtf32be :: "bytes \<Rightarrow> jsstr res" where
  "decodeUtf32be b = (if length b mod 4 \<noteq> 0 then Inl (Asn1E Asn1_bad_universal_string) else utf32be_units b)"

definition readString :: "node \<Rightarrow> jsstr res" where
  "readString n =
     (if tagClass n \<noteq> Universal then Inl (Asn1E Asn1_expected_string)
      else bindR (expectPrimitive n) (\<lambda>_.
        if tagNumber n = TAG_UTF8_STRING then bindR (content_of n) decodeUtf8Strict
        else if tagNumber n = TAG_PRINTABLE_STRING then bindR (content_of n) decodePrintable
        else if tagNumber n = TAG_IA5_STRING then bindR (content_of n) decodeIa5
        else if tagNumber n = TAG_TELETEX_STRING then bindR (content_of n) (\<lambda>c. Inr (latin1_decode c))
        else if tagNumber n = TAG_VISIBLE_STRING then bindR (content_of n) decodeVisible
        else if tagNumber n = TAG_BMP_STRING then bindR (content_of n) decodeUtf16be
        else if tagNumber n = TAG_UNIVERSAL_STRING then bindR (content_of n) decodeUtf32be
        else Inl (Asn1E Asn1_expected_string)))"

definition readNumericString :: "node \<Rightarrow> jsstr res" where
  "readNumericString n = bindR (expectUniversal n TAG_NUMERIC_STRING) (\<lambda>_. bindR (expectPrimitive n) (\<lambda>_.
     bindR (content_of n) (\<lambda>c. let s = latin1_decode c in
       if \<not> isNumericString s then Inl (Asn1E Asn1_bad_numeric_string) else Inr s)))"

section \<open>Builders\<close>

definition asString :: "js \<Rightarrow> jsstr res" where
  "asString v = (case v of Str s \<Rightarrow> Inr s | _ \<Rightarrow> Inl (Asn1E Asn1_bad_string))"

definition asBuffer :: "js \<Rightarrow> bytes res" where
  "asBuffer v = (case v of Buf b \<Rightarrow> Inr b | _ \<Rightarrow> Inl (Asn1E Asn1_not_buffer))"

definition asBufferArray :: "js \<Rightarrow> bytes list res" where
  "asBufferArray v = (case v of Arr xs \<Rightarrow> mapR asBuffer xs | _ \<Rightarrow> Inl (Asn1E Asn1_bad_children))"

definition build_boolean :: "bool \<Rightarrow> bytes res" where
  "build_boolean v = universal TAG_BOOLEAN False [if v then 0xff else 0x00]"

definition build_integer :: "js \<Rightarrow> bytes res" where
  "build_integer v = bindR (intContent v) (universal TAG_INTEGER False)"

definition build_enumerated :: "js \<Rightarrow> bytes res" where
  "build_enumerated v = bindR (intContent v) (universal TAG_ENUMERATED False)"

definition build_nullValue :: "bytes res" where
  "build_nullValue = universal TAG_NULL False []"

definition build_oid :: "js \<Rightarrow> bytes res" where
  "build_oid v = bindR (encodeOidContent v) (universal TAG_OID False)"

definition build_octetString :: "js \<Rightarrow> bytes res" where
  "build_octetString v = bindR (asBuffer v) (universal TAG_OCTET_STRING False)"

definition bitString_content :: "js \<Rightarrow> js \<Rightarrow> bytes res" where
  "bitString_content buf unusedBits =
     bindR (cap (if unusedBits = Undef \<or> unusedBits = Null then Num 0 else unusedBits) 0 (Num 0) (Num 7)
              (Some (Asn1E Asn1_bad_bit_string))) (\<lambda>u.
     bindR (asBuffer buf) (\<lambda>body.
       if u > 0 \<and> length body = 0 then Inl (Asn1E Asn1_bad_bit_string)
       else if u > 0 \<and> length body > 0 \<and> unat (last body) AND (push_bit (nat u) 1 - 1) \<noteq> 0
         then Inl (Asn1E Asn1_bad_bit_string)
       else Inr (word_of_int u # body)))"

definition build_bitString :: "js \<Rightarrow> js \<Rightarrow> bytes res" where
  "build_bitString buf unusedBits = bindR (bitString_content buf unusedBits) (universal TAG_BIT_STRING False)"

definition bit_position :: "js \<Rightarrow> nat res" where
  "bit_position v = (case v of
      Num p \<Rightarrow> if p < 0 \<or> to_int32 p \<noteq> p then Inl (Asn1E Asn1_bad_bit_string) else Inr (nat p)
    | _ \<Rightarrow> Inl (Asn1E Asn1_bad_bit_string))"

text \<open>The second loop, \<open>buf[p >> 3] |= 0x80 >> (p & 7)\<close> for each position in turn.\<close>

definition set_bit_at :: "nat \<Rightarrow> bytes \<Rightarrow> bytes" where
  "set_bit_at p buf = buf[p div 8 := word_of_nat (unat (buf ! (p div 8)) OR drop_bit (p mod 8) 0x80)]"

definition namedBits :: "nat list \<Rightarrow> bytes" where
  "namedBits ps = (let hi = Max (set ps) in
     foldl (\<lambda>buf p. set_bit_at p buf) (replicate (hi div 8 + 1) 0) ps)"

definition build_namedBitString :: "js \<Rightarrow> bytes res" where
  "build_namedBitString positions = (case positions of
      Arr xs \<Rightarrow> bindR (mapR bit_position xs) (\<lambda>ps.
        if ps = [] then build_bitString (Buf []) (Num 0)
        else build_bitString (Buf (namedBits ps)) (Num (7 - int (Max (set ps) mod 8))))
    | _ \<Rightarrow> Inl (Asn1E Asn1_bad_bit_string))"

definition utf8_content :: "js \<Rightarrow> bytes res" where
  "utf8_content v = bindR (asString v) (\<lambda>s.
     bindR (assertWellFormedUtf16 s (Asn1E Asn1_bad_utf8_string)) (\<lambda>_. Inr (utf8_encode s)))"

definition build_utf8 :: "js \<Rightarrow> bytes res" where
  "build_utf8 v = bindR (utf8_content v) (universal TAG_UTF8_STRING False)"

definition ia5_content :: "js \<Rightarrow> bytes res" where
  "ia5_content v = bindR (asString v) (\<lambda>s.
     if list_ex (\<lambda>c. c > 0x7F) s then Inl (Asn1E Asn1_bad_ia5_string) else Inr (latin1_encode s))"

definition build_ia5 :: "js \<Rightarrow> bytes res" where
  "build_ia5 v = bindR (ia5_content v) (universal TAG_IA5_STRING False)"

definition printable_content :: "js \<Rightarrow> bytes res" where
  "printable_content v = bindR (asString v) (\<lambda>s.
     if \<not> isPrintableString (Str s) then Inl (Asn1E Asn1_bad_printable_string) else Inr (latin1_encode s))"

definition build_printable :: "js \<Rightarrow> bytes res" where
  "build_printable v = bindR (printable_content v) (universal TAG_PRINTABLE_STRING False)"

definition bmp_content :: "js \<Rightarrow> bytes res" where
  "bmp_content v = bindR (asString v) (\<lambda>s.
     if list_ex (\<lambda>u. u \<ge> 0xD800 \<and> u \<le> 0xDFFF) s then Inl (Asn1E Asn1_bad_bmp_string)
     else Inr (concat (map (\<lambda>u. [word_of_nat (u div 256 AND 0xFF), word_of_nat (u AND 0xFF)]) s)))"

definition build_bmpString :: "js \<Rightarrow> bytes res" where
  "build_bmpString v = bindR (bmp_content v) (universal TAG_BMP_STRING False)"

definition build_sequence :: "js \<Rightarrow> bytes res" where
  "build_sequence v = bindR (asBufferArray v) (encodeConstructed CLASS_UNIVERSAL TAG_SEQUENCE)"

definition build_set :: "js \<Rightarrow> bytes res" where
  "build_set v = bindR (asBufferArray v) (\<lambda>parts.
     encodeConstructed CLASS_UNIVERSAL TAG_SET (sortedCopy buf_compare parts))"

definition build_setOf :: "js \<Rightarrow> bytes res" where
  "build_setOf v = bindR (asBufferArray v) (\<lambda>parts.
     encodeConstructed CLASS_UNIVERSAL TAG_SET (sortedCopy buf_compare parts))"

definition build_explicit :: "js \<Rightarrow> js \<Rightarrow> bytes res" where
  "build_explicit tagNo inner = bindR (asBuffer inner) (\<lambda>b.
     encodeTLV (Num (int CLASS_CONTEXT)) True tagNo (Buf b))"

definition build_contextPrimitive :: "js \<Rightarrow> js \<Rightarrow> bytes res" where
  "build_contextPrimitive tagNo cont = bindR (asBuffer cont) (\<lambda>b.
     encodeTLV (Num (int CLASS_CONTEXT)) False tagNo (Buf b))"

definition build_contextConstructed :: "js \<Rightarrow> js \<Rightarrow> bytes res" where
  "build_contextConstructed tagNo cont = bindR (asBuffer cont) (\<lambda>b.
     encodeTLV (Num (int CLASS_CONTEXT)) True tagNo (Buf b))"

definition build_implicit :: "js \<Rightarrow> js \<Rightarrow> bytes res" where
  "build_implicit tagNo tlv = bindR (asBuffer tlv) (\<lambda>buf.
     bindR (decode buf no_opts) (\<lambda>nd.
       encodeTLV (Num (int CLASS_CONTEXT)) (constructed nd) tagNo
         (Buf (drop (length buf - node_length nd) buf))))"

definition build_raw :: "js \<Rightarrow> bytes res" where
  "build_raw v = asBuffer v"

section \<open>The contract of a primitive type\<close>

text \<open>
  A universal primitive type is a tag and two functions on content octets, the builder's and the
  reader's, which are inverse on the values of the type (\<open>dom\<close> excludes what no JavaScript value is).
  From that one law: on any element \<open>decode\<close> accepts, the reader returns \<open>v\<close> exactly when the builder
  emits that element for \<open>v\<close>.
\<close>

definition primitive_tag :: "nat \<Rightarrow> bool" where
  "primitive_tag t \<longleftrightarrow> t \<noteq> 0 \<and> t \<noteq> 15 \<and> t < 37 \<and> t \<notin> set CONSTRUCTED_ONLY_UNIVERSAL_TAGS"

locale primitive_type =
  fixes tag :: nat and put :: "'a \<Rightarrow> bytes res" and get :: "bytes \<Rightarrow> 'a res" and dom :: "'a \<Rightarrow> bool"
  assumes tag: "primitive_tag tag"
    and law: "get c = Inr v \<longleftrightarrow> dom v \<and> put v = Inr c"
begin

definition build :: "'a \<Rightarrow> bytes res" where
  "build v = bindR (put v) (universal tag False)"

definition read :: "node \<Rightarrow> 'a res" where
  "read n = bindR (expectUniversal n tag) (\<lambda>_. bindR (expectPrimitive n) (\<lambda>_. bindR (content_of n) get))"

lemma universal_enc: "universal tag False c = enc (TPrim Universal tag c)"
  by (simp add: universal_def)

lemma read_Inr: "located buf n \<Longrightarrow> read n = Inr v \<longleftrightarrow> (\<exists>c. tree_of n = TPrim Universal tag c \<and> get c = Inr v)"
  by (cases n) (auto simp: read_def expectUniversal_def expectPrimitive_def content_of_def res_simps split: option.splits)

lemma codec:
  assumes d: "decode buf no_opts = Inr nd"
  shows "read nd = Inr v \<longleftrightarrow> dom v \<and> build v = Inr buf"
proof -
  have o: "\<not> ber no_opts" "\<not> allowTrailing no_opts" by (simp_all add: no_opts_def)
  from d o obtain mb md mi where caps: "caps_of no_opts = Inr (mb, md, mi)" "int (length buf) \<le> mb"
    and e: "enc (tree_of nd) = Inr buf" and loc: "located buf nd"
    by (elim decode_strict_item) (auto simp: strict_item_def)
  have mb: "length buf \<le> DER_MAX_BYTES" "int (length buf) \<le> mb" "0 \<le> md" "1 \<le> mi"
    using caps caps_no_opts[of no_opts] by (auto simp: no_opts_def DER_MAX_ITEMS_def)
  have inj: "tree_of nd = TPrim Universal tag c" if "enc (TPrim Universal tag c) = Inr buf" for c
  proof -
    have "\<exists>nd'. decode buf no_opts = Inr nd' \<and> tree_of nd' = TPrim Universal tag c"
      using that tag mb o(1) caps(1)
      by (intro decode_complete_opts[where mb = mb and md = md and mi = mi])
        (auto simp: primitive_tag_def DER_MAX_BYTES_def simp del: enc.simps)
    then show ?thesis using d by simp
  qed
  show ?thesis unfolding read_Inr[OF loc]
  proof
    assume "\<exists>c. tree_of nd = TPrim Universal tag c \<and> get c = Inr v"
    then show "dom v \<and> build v = Inr buf" using e by (auto simp: build_def universal_enc law simp del: enc.simps)
  next
    assume "dom v \<and> build v = Inr buf"
    then obtain c where "get c = Inr v" "enc (TPrim Universal tag c) = Inr buf"
      by (auto simp: build_def universal_enc law res_simps simp del: enc.simps)
    then show "\<exists>c. tree_of nd = TPrim Universal tag c \<and> get c = Inr v" using inj by blast
  qed
qed

text \<open>Whatever the builder emits within the size cap decodes, and reads back.\<close>

lemma build_read:
  assumes "build v = Inr buf" and "dom v" and "length buf \<le> DER_MAX_BYTES"
  shows "\<exists>nd. decode buf no_opts = Inr nd \<and> read nd = Inr v"
proof -
  from assms(1) obtain c where c: "enc (TPrim Universal tag c) = Inr buf"
    by (auto simp: build_def universal_enc res_simps simp del: enc.simps)
  have "\<exists>nd. decode buf no_opts = Inr nd \<and> tree_of nd = TPrim Universal tag c"
    using c tag assms(3) caps_no_opts[of no_opts]
    by (intro decode_complete_opts) (auto simp: primitive_tag_def no_opts_def DER_MAX_BYTES_def DER_MAX_ITEMS_def simp del: enc.simps)
  then show ?thesis using codec assms(1,2) by blast
qed

end

lemma latin1_roundtrip: "latin1_encode s = c \<and> (\<forall>u \<in> set s. u < 256) \<longleftrightarrow> s = latin1_decode c"
proof
  assume h: "latin1_encode s = c \<and> (\<forall>u \<in> set s. u < 256)"
  then have "map (\<lambda>u. unat (word_of_nat u :: byte)) s = map (\<lambda>u. u) s" by (intro map_cong) auto
  then show "s = latin1_decode c" using h by (auto simp: latin1_encode_def latin1_decode_def comp_def)
qed (auto simp: latin1_encode_def latin1_decode_def comp_def)

interpretation p_boolean: primitive_type TAG_BOOLEAN
  "\<lambda>v. Inr [if v then 0xff else 0x00]" boolean_content "\<lambda>_. True"
proof
  show "boolean_content c = Inr v \<longleftrightarrow> True \<and> Inr [if v then 0xff else 0x00] = (Inr c :: bytes res)" for c v
    by (cases c; cases v) (auto simp: boolean_content_def)
qed (simp add: primitive_tag_def constructed_only_set)

interpretation p_integer: primitive_type TAG_INTEGER "\<lambda>v. intContent (Big v)" integer_content "\<lambda>_. True"
  by unfold_locales (simp_all add: primitive_tag_def constructed_only_set integer_codec)

interpretation p_enumerated: primitive_type TAG_ENUMERATED "\<lambda>v. intContent (Big v)" integer_content "\<lambda>_. True"
  by unfold_locales (simp_all add: primitive_tag_def constructed_only_set integer_codec)

interpretation p_null: primitive_type TAG_NULL "\<lambda>_. Inr []" null_content "\<lambda>_. True"
  by unfold_locales (auto simp: primitive_tag_def constructed_only_set null_content_def)

interpretation p_oid: primitive_type TAG_OID "\<lambda>d. encodeOidContent (Str d)" decodeOidContent "\<lambda>_. True"
  by unfold_locales (simp_all add: primitive_tag_def constructed_only_set oid_codec)

interpretation p_octets: primitive_type TAG_OCTET_STRING "\<lambda>b. asBuffer (Buf b)" Inr "\<lambda>_. True"
  by unfold_locales (auto simp: primitive_tag_def constructed_only_set asBuffer_def)

interpretation p_utf8: primitive_type TAG_UTF8_STRING "\<lambda>s. utf8_content (Str s)" decodeUtf8Strict unit_string
proof
  show "decodeUtf8Strict c = Inr v \<longleftrightarrow> unit_string v \<and> utf8_content (Str v) = Inr c" for c v
  proof -
    have "decodeUtf8Strict c = Inr v \<longleftrightarrow> utf8_decode c = Some v"
      by (auto simp: decodeUtf8Strict_def split: option.splits)
    moreover have "utf8_content (Str v) = Inr c \<longleftrightarrow> code_points v \<noteq> None \<and> utf8_encode v = c"
      by (simp add: utf8_content_def asString_def res_simps wellFormed_iff)
    ultimately show ?thesis by (simp add: utf8_text)
  qed
qed (simp add: primitive_tag_def constructed_only_set)

interpretation p_ia5: primitive_type TAG_IA5_STRING "\<lambda>s. ia5_content (Str s)" decodeIa5 "\<lambda>_. True"
proof
  show "decodeIa5 c = Inr v \<longleftrightarrow> True \<and> ia5_content (Str v) = Inr c" for c v
    using latin1_roundtrip[of v c]
    by (auto simp: decodeIa5_def ia5_content_def asString_def list_ex_iff not_less latin1_decode_def) fastforce+
qed (simp add: primitive_tag_def constructed_only_set)

lemma printable_low: "isPrintableChar c \<Longrightarrow> c < 256"
  by (auto simp: isPrintableChar_def)

interpretation p_printable: primitive_type TAG_PRINTABLE_STRING "\<lambda>s. printable_content (Str s)" decodePrintable "\<lambda>_. True"
proof
  show "decodePrintable c = Inr v \<longleftrightarrow> True \<and> printable_content (Str v) = Inr c" for c v
    using latin1_roundtrip[of v c] printable_low
    by (auto simp: decodePrintable_def printable_content_def asString_def isPrintableString_def list_all_iff Let_def)
qed (simp add: primitive_tag_def constructed_only_set)

subsection \<open>BMPString\<close>

abbreviation (input) "bmp_unit u \<equiv> [word_of_nat (u div 256 AND 0xFF), word_of_nat (u AND 0xFF) :: byte]"

lemma bmp_unit_val:
  assumes "u < 0x10000"
  shows "unat (word_of_nat (u div 256 AND 0xFF) :: byte) * 256 + unat (word_of_nat (u AND 0xFF) :: byte) = u"
proof -
  have "u div 256 < 256" using assms by (simp add: less_mult_imp_div_less)
  then show ?thesis unfolding nat_and_ff unat_of_nat_byte by simp
qed

lemma utf16_bmp: "unit_string s \<Longrightarrow> list_all (\<lambda>u. \<not> (0xD800 \<le> u \<and> u \<le> 0xDFFF)) s \<Longrightarrow>
    utf16be_units (concat (map (\<lambda>u. bmp_unit u) s)) = Inr s"
proof (induction s)
  case (Cons u s)
  then have IH: "utf16be_units (concat (map (\<lambda>u. bmp_unit u) s)) = Inr s" by (simp add: unit_string_def)
  have u: "u < 0x10000" "\<not> (0xD800 \<le> u \<and> u \<le> 0xDFFF)" using Cons.prems by (simp_all add: unit_string_def)
  have "utf16be_units (bmp_unit u @ concat (map (\<lambda>u. bmp_unit u) s)) = Inr (u # s)"
    unfolding append.simps utf16be_units.simps Let_def bmp_unit_val[OF u(1)] IH using u(2) by simp
  then show ?case by simp
qed simp

lemma bmp_utf16: "even (length c) \<Longrightarrow> utf16be_units c = Inr s \<Longrightarrow>
    unit_string s \<and> list_all (\<lambda>u. \<not> (0xD800 \<le> u \<and> u \<le> 0xDFFF)) s \<and> concat (map (\<lambda>u. bmp_unit u) s) = c"
proof (induction c arbitrary: s rule: utf16be_units.induct)
  case (1 a b rest)
  let ?u = "unat a * 256 + unat b"
  from 1 obtain us where us: "utf16be_units rest = Inr us" "s = ?u # us" "\<not> (0xD800 \<le> ?u \<and> ?u \<le> 0xDFFF)"
    by (auto simp: Let_def res_simps split: if_splits)
  have lt: "?u < 0x10000" using unat_byte_lt[of a] unat_byte_lt[of b] by linarith
  have "?u div 256 = unat a" "?u mod 256 = unat b" by auto
  then have "bmp_unit ?u = [a, b]" unfolding nat_and_ff by (simp_all del: of_nat_add)
  then show ?case using lt 1(1)[OF refl us(3) _ us(1)] 1(2) us
    by (auto simp: unit_string_def simp del: of_nat_add)
qed (auto simp: unit_string_def)

interpretation p_bmp: primitive_type TAG_BMP_STRING "\<lambda>s. bmp_content (Str s)" decodeUtf16be unit_string
proof
  show "decodeUtf16be c = Inr v \<longleftrightarrow> unit_string v \<and> bmp_content (Str v) = Inr c" for c v
  proof -
    have put: "bmp_content (Str v) = Inr c \<longleftrightarrow>
        list_all (\<lambda>u. \<not> (0xD800 \<le> u \<and> u \<le> 0xDFFF)) v \<and> concat (map (\<lambda>u. bmp_unit u) v) = c"
      by (auto simp: bmp_content_def asString_def list_all_iff list_ex_iff)
    have len: "even (length (concat (map (\<lambda>u. bmp_unit u) v)))" by (induction v) auto
    show ?thesis
    proof
      assume h: "decodeUtf16be c = Inr v"
      then have "even (length c)" "utf16be_units c = Inr v" by (auto simp: decodeUtf16be_def mod_2_eq_odd split: if_splits)
      then show "unit_string v \<and> bmp_content (Str v) = Inr c" unfolding put using bmp_utf16 by blast
    next
      assume h: "unit_string v \<and> bmp_content (Str v) = Inr c"
      then have "utf16be_units c = Inr v" unfolding put using utf16_bmp[of v] by auto
      moreover have "even (length c)" using h len unfolding put by auto
      ultimately show "decodeUtf16be c = Inr v" by (simp add: decodeUtf16be_def)
    qed
  qed
qed (simp add: primitive_tag_def constructed_only_set)

subsection \<open>BIT STRING\<close>

lemma cap_bits: "cap (if Num k = Undef \<or> Num k = Null then Num 0 else Num k) 0 (Num 0) (Num 7) (Some e) = Inr u \<longleftrightarrow>
    u = k \<and> 0 \<le> k \<and> k \<le> 7"
  by (auto simp: cap_def)

interpretation p_bits: primitive_type TAG_BIT_STRING
  "\<lambda>(u, b). bitString_content (Buf b) (Num (int u))" bit_string_content "\<lambda>_. True"
proof
  show "bit_string_content c = Inr v \<longleftrightarrow> True \<and> (case v of (u, b) \<Rightarrow> bitString_content (Buf b) (Num (int u))) = Inr c" for c v
  proof -
    obtain u b where v: "v = (u, b)" by (cases v)
    have put: "bitString_content (Buf b) (Num (int u)) = Inr c \<longleftrightarrow> u \<le> 7 \<and> (u > 0 \<longrightarrow> b \<noteq> []) \<and>
        (u > 0 \<longrightarrow> b \<noteq> [] \<longrightarrow> unat (last b) AND (push_bit u 1 - 1) = 0) \<and> c = word_of_nat u # b"
      unfolding bitString_content_def by (auto simp: res_simps cap_bits asBuffer_def simp del: js.distinct)
    have get: "bit_string_content c = Inr (u, b) \<longleftrightarrow> u \<le> 7 \<and> (u > 0 \<longrightarrow> b \<noteq> []) \<and>
        (u > 0 \<longrightarrow> b \<noteq> [] \<longrightarrow> unat (last b) AND (push_bit u 1 - 1) = 0) \<and> c = word_of_nat u # b"
    proof (cases c)
      case (Cons x r)
      have lst: "r \<noteq> [] \<Longrightarrow> (x # r) ! length r = last r" by (metis last_conv_nth length_0_conv nth_Cons' diff_Suc_1 length_Cons last_ConsR list.distinct(1))
      have "word_of_nat u = x \<and> u \<le> 7 \<longleftrightarrow> unat x = u \<and> u \<le> 7" by auto
      then show ?thesis using lst by (auto simp: Cons bit_string_content_def Let_def)
    qed (simp add: bit_string_content_def)
    show ?thesis unfolding v using put get by simp
  qed
qed (simp add: primitive_tag_def constructed_only_set)

subsection \<open>Named bits\<close>

definition bit_at :: "bytes \<Rightarrow> nat \<Rightarrow> bool" where
  "bit_at buf p \<longleftrightarrow> bit (unat (buf ! (p div 8))) (7 - p mod 8)"

lemma drop_bit_80: "k < 8 \<Longrightarrow> drop_bit k (0x80::nat) = 2 ^ (7 - k)"
proof -
  assume "k < 8"
  then have "(2::nat) ^ (7 - k) = 2 ^ 7 div 2 ^ k" by (intro power_diff) auto
  then show ?thesis by (simp add: drop_bit_eq_div)
qed

lemma or_bit_byte: "n < 256 \<Longrightarrow> k < 8 \<Longrightarrow> unat (word_of_nat (n OR 2 ^ k) :: byte) = n OR 2 ^ k"
proof -
  assume h: "n < 256" "k < 8"
  have "n OR 2 ^ k < 2 ^ 8"
  proof -
    have t: "take_bit 8 n = n" "take_bit 8 ((2::nat) ^ k) = 2 ^ k"
      using h by (auto simp: take_bit_nat_eq_self_iff)
    have "take_bit 8 (n OR 2 ^ k) = n OR 2 ^ k" unfolding take_bit_or t ..
    then show ?thesis by (metis take_bit_nat_less_exp)
  qed
  then show ?thesis by simp
qed

lemma set_bit_at: "p div 8 < length buf \<Longrightarrow> length (set_bit_at p buf) = length buf \<and>
    (\<forall>q. q div 8 < length buf \<longrightarrow> bit_at (set_bit_at p buf) q = (bit_at buf q \<or> q = p))"
proof -
  assume p: "p div 8 < length buf"
  have d: "drop_bit (p mod 8) (0x80::nat) = 2 ^ (7 - p mod 8)" by (rule drop_bit_80) simp
  have e: "unat (word_of_nat (unat (buf ! (p div 8)) OR 2 ^ (7 - p mod 8)) :: byte) = unat (buf ! (p div 8)) OR 2 ^ (7 - p mod 8)"
    by (rule or_bit_byte) auto
  have "bit_at (set_bit_at p buf) q = (bit_at buf q \<or> q = p)" if "q div 8 < length buf" for q
  proof (cases "q div 8 = p div 8")
    case True
    have "7 - q mod 8 = 7 - p mod 8 \<longleftrightarrow> q mod 8 = p mod 8"
      using mod_less_divisor[of 8 q] mod_less_divisor[of 8 p] by linarith
    then have "7 - q mod 8 = 7 - p mod 8 \<longleftrightarrow> q = p" using True by (metis div_mult_mod_eq)
    moreover have "set_bit_at p buf ! (q div 8) = word_of_nat (unat (buf ! (p div 8)) OR 2 ^ (7 - p mod 8))"
      using p True by (simp add: set_bit_at_def d)
    ultimately show ?thesis unfolding bit_at_def True
      by (simp only: e bit_or_iff bit_exp_iff possible_bit_nat simp_thms)
  next
    case False
    then have "q \<noteq> p" by auto
    then show ?thesis using False by (simp add: bit_at_def set_bit_at_def)
  qed
  then show ?thesis by (simp add: set_bit_at_def)
qed

lemma set_bits_fold: "(\<forall>p \<in> set ps. p div 8 < length buf) \<Longrightarrow>
    length (foldl (\<lambda>buf p. set_bit_at p buf) buf ps) = length buf \<and>
    (\<forall>q. q div 8 < length buf \<longrightarrow> bit_at (foldl (\<lambda>buf p. set_bit_at p buf) buf ps) q = (bit_at buf q \<or> q \<in> set ps))"
proof (induction ps arbitrary: buf)
  case (Cons p ps)
  from Cons.prems have p: "p div 8 < length buf" by simp
  note s = set_bit_at[OF p]
  have "\<forall>r \<in> set ps. r div 8 < length (set_bit_at p buf)" using Cons.prems s by simp
  from Cons.IH[OF this] s show ?case by auto
qed simp

text \<open>A bit of the string is set exactly when its position was named.\<close>

lemma namedBits_spec:
  assumes "ps \<noteq> []"
  shows "length (namedBits ps) = Max (set ps) div 8 + 1"
    and "q div 8 \<le> Max (set ps) div 8 \<Longrightarrow> bit_at (namedBits ps) q = (q \<in> set ps)"
proof -
  let ?n = "Max (set ps) div 8 + 1"
  have b: "\<forall>p \<in> set ps. p div 8 < length (replicate ?n (0::byte))"
    by (auto simp: less_Suc_eq_le intro!: div_le_mono Max_ge)
  note f = set_bits_fold[OF b]
  show "length (namedBits ps) = ?n" using f by (simp add: namedBits_def Let_def)
  assume q: "q div 8 \<le> Max (set ps) div 8"
  then have "replicate ?n (0::byte) ! (q div 8) = 0" by (intro nth_replicate) simp
  then have "bit_at (replicate ?n 0) q = False" by (simp only: bit_at_def unsigned_0 bit_0_eq bot_apply) simp
  then show "bit_at (namedBits ps) q = (q \<in> set ps)" using f q by (simp add: namedBits_def Let_def)
qed

lemma low_bits_zero: "(\<forall>i < u. \<not> bit (n::nat) i) \<Longrightarrow> n AND (push_bit u 1 - 1) = 0"
proof -
  assume h: "\<forall>i < u. \<not> bit n i"
  have "n AND mask u = 0" by (rule bit_eqI) (use h in \<open>auto simp: bit_and_iff bit_mask_iff\<close>)
  then show ?thesis by (simp add: mask_eq_exp_minus_1)
qed

text \<open>The trailing bits of the last octet are clear, so the BIT STRING that carries it is DER.\<close>

lemma namedBits_content:
  assumes "ps \<noteq> []"
  shows "bitString_content (Buf (namedBits ps)) (Num (7 - int (Max (set ps) mod 8))) =
    Inr (word_of_nat (7 - Max (set ps) mod 8) # namedBits ps)"
proof -
  let ?hi = "Max (set ps)"
  let ?u = "7 - ?hi mod 8"
  have m: "?hi mod 8 \<le> 7" using mod_less_divisor[of 8 ?hi] by linarith
  note sp = namedBits_spec[OF assms]
  have ne: "namedBits ps \<noteq> []" using sp(1) by auto
  have lst: "last (namedBits ps) = namedBits ps ! (?hi div 8)" using ne sp(1) by (simp add: last_conv_nth)
  have "\<not> bit (unat (last (namedBits ps))) i" if i: "i < ?u" for i
  proof -
    let ?q = "?hi div 8 * 8 + (7 - i)"
    have q: "?q div 8 = ?hi div 8" "?q mod 8 = 7 - i" by simp_all
    have "?hi < ?q" using i m by (metis add_less_cancel_left div_mult_mod_eq less_diff_conv add.commute)
    then have "?q \<notin> set ps" by (meson List.finite_set Max_ge not_le)
    then have "\<not> bit_at (namedBits ps) ?q" using sp(2)[of ?q] q by simp
    moreover have "7 - (7 - i) = i" using i by simp
    ultimately show ?thesis unfolding bit_at_def q lst by simp
  qed
  then have z: "unat (last (namedBits ps)) AND (push_bit ?u 1 - 1) = 0" by (intro low_bits_zero) simp
  have i: "7 - int (?hi mod 8) = int ?u" using m by simp
  have j: "nat (7 - int (?hi mod 8)) = ?u" using m by simp
  show ?thesis using ne z m unfolding bitString_content_def i
    by (simp add: cap_def asBuffer_def j)
qed

section \<open>Properties\<close>

lemma read_by_contract:
  "readInteger = p_integer.read" "readEnumerated = p_enumerated.read" "readBoolean = p_boolean.read"
  "readOid = p_oid.read" "readBitString = p_bits.read"
  by (simp_all only: fun_eq_iff readInteger_def readEnumerated_def readBoolean_def readOid_def readBitString_def
      readIntegerLikeContent_def readBitStringContent_def p_integer.read_def p_enumerated.read_def
      p_boolean.read_def p_oid.read_def p_bits.read_def simp_thms)

lemma build_by_contract:
  "build_integer (Big v) = p_integer.build v" "build_enumerated (Big v) = p_enumerated.build v"
  "build_boolean b = p_boolean.build b" "build_oid (Str d) = p_oid.build d"
  "build_bitString (Buf bs) (Num (int u)) = p_bits.build (u, bs)"
  "build_utf8 (Str s) = p_utf8.build s" "build_ia5 (Str s) = p_ia5.build s"
  "build_printable (Str s) = p_printable.build s" "build_bmpString (Str s) = p_bmp.build s"
  by (simp_all only: build_integer_def build_enumerated_def build_boolean_def build_oid_def build_bitString_def
      build_utf8_def build_ia5_def build_printable_def build_bmpString_def p_integer.build_def
      p_enumerated.build_def p_boolean.build_def p_oid.build_def p_bits.build_def p_utf8.build_def
      p_ia5.build_def p_printable.build_def p_bmp.build_def bindR.simps prod.case)

lemma readString_by_tag:
  "tagNumber nd = TAG_UTF8_STRING \<Longrightarrow> readString nd = Inr s \<longleftrightarrow> p_utf8.read nd = Inr s"
  "tagNumber nd = TAG_IA5_STRING \<Longrightarrow> readString nd = Inr s \<longleftrightarrow> p_ia5.read nd = Inr s"
  "tagNumber nd = TAG_PRINTABLE_STRING \<Longrightarrow> readString nd = Inr s \<longleftrightarrow> p_printable.read nd = Inr s"
  "tagNumber nd = TAG_BMP_STRING \<Longrightarrow> readString nd = Inr s \<longleftrightarrow> p_bmp.read nd = Inr s"
  by (auto simp: readString_def expectUniversal_def p_utf8.read_def p_ia5.read_def p_printable.read_def p_bmp.read_def)

definition int_sample :: bytes where "int_sample = [0x02, 0x02, 0xFF, 0x7F]"

lemma int_sample_decodes:
  "decode int_sample no_opts = Inr (Node Universal False 2 0 2 4 (Some [0xFF, 0x7F]) None int_sample False)"
  unfolding decode_Inr_iff
  by (simp add: caps_no_opts counter_Inr decoder_eval no_opts_def int_sample_def
      DER_MAX_BYTES_def DER_MAX_DEPTH_def DER_MAX_ITEMS_def)

text \<open>C5: INTEGER is canonical in both directions.  On any element \<open>decode\<close> accepts, \<open>read.integer\<close>
  returns \<open>v\<close> exactly when \<open>build.integer\<close> emits that element for the BigInt \<open>v\<close>: the two's complement
  reading, its minimality rule and the size cap agree on both sides.\<close>

theorem integer_read_build:
  assumes "decode buf no_opts = Inr nd"
  shows "readInteger nd = Inr v \<longleftrightarrow> build_integer (Big v) = Inr buf"
  unfolding read_by_contract build_by_contract using p_integer.codec[OF assms] by simp

theorem integer_read_build_witness:
  "readInteger (Node Universal False 2 0 2 4 (Some [0xFF, 0x7F]) None int_sample False) = Inr (-129) \<longleftrightarrow>
     build_integer (Big (-129)) = Inr int_sample"
  by (rule integer_read_build[OF int_sample_decodes])

text \<open>C6: OBJECT IDENTIFIER is canonical in both directions: \<open>read.oid\<close> renders the dotted string
  exactly when \<open>build.oid\<close> emits the element for it, the sub-identifier limits and the split of the
  first octet included.\<close>

theorem oid_read_build:
  assumes "decode buf no_opts = Inr nd"
  shows "readOid nd = Inr d \<longleftrightarrow> build_oid (Str d) = Inr buf"
  unfolding read_by_contract build_by_contract using p_oid.codec[OF assms] by simp

definition oid_sample :: bytes where "oid_sample = [0x06, 0x03, 0x55, 0x04, 0x03]"

lemma oid_sample_decodes:
  "decode oid_sample no_opts = Inr (Node Universal False 6 0 2 5 (Some [0x55, 0x04, 0x03]) None oid_sample False)"
  unfolding decode_Inr_iff
  by (simp add: caps_no_opts counter_Inr decoder_eval no_opts_def oid_sample_def
      DER_MAX_BYTES_def DER_MAX_DEPTH_def DER_MAX_ITEMS_def)

theorem oid_read_build_witness:
  "readOid (Node Universal False 6 0 2 5 (Some [0x55, 0x04, 0x03]) None oid_sample False) = Inr [50, 46, 53, 46, 52, 46, 51] \<longleftrightarrow>
     build_oid (Str [50, 46, 53, 46, 52, 46, 51]) = Inr oid_sample"
  by (rule oid_read_build[OF oid_sample_decodes])

text \<open>C7: the four string types that can be built and read are inverse on strings of code units:
  what \<open>read.string\<close> returns for a UTF8String, IA5String, PrintableString or BMPString is exactly what
  its builder encodes to that element, so no substitution (U+FFFD) and no unmapped character passes.\<close>

theorem string_read_build:
  assumes "decode buf no_opts = Inr nd"
  shows "(tagNumber nd = TAG_UTF8_STRING \<longrightarrow> (readString nd = Inr s \<longleftrightarrow> unit_string s \<and> build_utf8 (Str s) = Inr buf)) \<and>
    (tagNumber nd = TAG_IA5_STRING \<longrightarrow> (readString nd = Inr s \<longleftrightarrow> build_ia5 (Str s) = Inr buf)) \<and>
    (tagNumber nd = TAG_PRINTABLE_STRING \<longrightarrow> (readString nd = Inr s \<longleftrightarrow> build_printable (Str s) = Inr buf)) \<and>
    (tagNumber nd = TAG_BMP_STRING \<longrightarrow> (readString nd = Inr s \<longleftrightarrow> unit_string s \<and> build_bmpString (Str s) = Inr buf))"
  unfolding build_by_contract
  using readString_by_tag p_utf8.codec[OF assms] p_ia5.codec[OF assms] p_printable.codec[OF assms]
    p_bmp.codec[OF assms] by auto

definition text_sample :: bytes where "text_sample = [0x0C, 0x02, 0xC3, 0xA9]"

lemma text_sample_decodes:
  "decode text_sample no_opts = Inr (Node Universal False 12 0 2 4 (Some [0xC3, 0xA9]) None text_sample False)"
  unfolding decode_Inr_iff
  by (simp add: caps_no_opts counter_Inr decoder_eval no_opts_def text_sample_def
      DER_MAX_BYTES_def DER_MAX_DEPTH_def DER_MAX_ITEMS_def)

theorem string_read_build_witness:
  "readString (Node Universal False 12 0 2 4 (Some [0xC3, 0xA9]) None text_sample False) = Inr [0xE9] \<longleftrightarrow>
     unit_string [0xE9] \<and> build_utf8 (Str [0xE9]) = Inr text_sample"
  using string_read_build[OF text_sample_decodes, of "[0xE9]"] by simp

text \<open>BIT STRING is canonical in both directions, the unused bits and their zero padding
  included.\<close>

theorem bit_string_read_build:
  assumes "decode buf no_opts = Inr nd"
  shows "readBitString nd = Inr (u, bs) \<longleftrightarrow> build_bitString (Buf bs) (Num (int u)) = Inr buf"
  unfolding read_by_contract build_by_contract using p_bits.codec[OF assms] by simp

definition bits_sample :: bytes where "bits_sample = [0x03, 0x02, 0x01, 0x06]"

lemma bits_sample_decodes:
  "decode bits_sample no_opts = Inr (Node Universal False 3 0 2 4 (Some [0x01, 0x06]) None bits_sample False)"
  unfolding decode_Inr_iff
  by (simp add: caps_no_opts counter_Inr decoder_eval no_opts_def bits_sample_def
      DER_MAX_BYTES_def DER_MAX_DEPTH_def DER_MAX_ITEMS_def)

theorem bit_string_read_build_witness:
  "readBitString (Node Universal False 3 0 2 4 (Some [0x01, 0x06]) None bits_sample False) = Inr (1, [0x06]) \<longleftrightarrow>
     build_bitString (Buf [0x06]) (Num (int 1)) = Inr bits_sample"
  by (rule bit_string_read_build[OF bits_sample_decodes])

text \<open>\<open>build.namedBitString\<close> always succeeds on a non-empty list of positions it accepts, sets
  exactly the named bits, and leaves no trailing zero octet: its content is the unused count and the
  shortest string that holds the highest position (X.690 sec. 11.2.2).\<close>

theorem named_bit_string:
  assumes "ps \<noteq> []" and "\<forall>p \<in> set ps. p < 2 ^ 31"
  shows "build_namedBitString (Arr (map (\<lambda>p. Num (int p)) ps)) =
      universal TAG_BIT_STRING False (word_of_nat (7 - Max (set ps) mod 8) # namedBits ps)
    \<and> length (namedBits ps) = Max (set ps) div 8 + 1
    \<and> (\<forall>q. q div 8 \<le> Max (set ps) div 8 \<longrightarrow> bit_at (namedBits ps) q = (q \<in> set ps))"
proof -
  have "to_int32 (int p) = int p" if "p \<in> set ps" for p
    using assms(2) that by (auto simp: to_int32_def)
  then have "mapR bit_position (map (\<lambda>p. Num (int p)) ps) = Inr ps"
    unfolding mapR_Inr_iff by (auto simp: list_all2_conv_all_nth bit_position_def)
  then show ?thesis
    using namedBits_content[OF assms(1)] namedBits_spec[OF assms(1)] assms(1)
    by (simp add: build_namedBitString_def build_bitString_def)
qed

theorem named_bit_string_witness:
  "build_namedBitString (Arr [Num (int 5), Num (int 6)]) =
      universal TAG_BIT_STRING False (word_of_nat (7 - Max (set [5, 6]) mod 8) # namedBits [5, 6::nat])
    \<and> length (namedBits [5, 6]) = 1 \<and> bit_at (namedBits [5, 6]) 6 \<and> \<not> bit_at (namedBits [5, 6]) 7"
  using named_bit_string[of "[5, 6]"] by simp

text \<open>A SET OF does not depend on the order its members were handed over in, and its content
  octets are the members in ascending order of their encodings (X.690 sec. 11.6).\<close>

theorem set_of_canonical:
  assumes "mset xs = mset ys"
  shows "build_setOf (Arr (map Buf xs)) = build_setOf (Arr (map Buf ys)) \<and>
    mset (sortedCopy buf_compare xs) = mset xs \<and>
    sorted_wrt (\<lambda>a b. buf_compare a b \<le> 0) (sortedCopy buf_compare xs)"
proof -
  have m: "mapR asBuffer (map Buf zs) = Inr zs" for zs by (induction zs) (auto simp: asBuffer_def)
  show ?thesis
    using buf_order.sorted_canonical[OF assms] buf_order.sorted_mset[of xs] buf_order.sorted_ordered[of xs]
    by (simp add: build_setOf_def asBufferArray_def m buf_order.ordered_def)
qed

theorem set_of_canonical_witness:
  "build_setOf (Arr (map Buf [[2, 1, 5], [2, 1, 3]])) = build_setOf (Arr (map Buf [[2, 1, 3], [2, 1, 5]])) \<and>
    mset (sortedCopy buf_compare [[2, 1, 5], [2, 1, 3]]) = mset [[2, 1, 5], [2, 1, 3]] \<and>
    sorted_wrt (\<lambda>a b. buf_compare a b \<le> 0) (sortedCopy buf_compare [[2, 1, 5], [2, 1, 3]])"
  by (rule set_of_canonical) simp

end
