(* ===== verification/Js_Date.thy ===== *)
theory Js_Date
  imports Values
begin

text \<open>
  The part of the language's Date the modules use (ECMA-262, "Date Objects"): a Date is its time
  value in milliseconds since 1970 UTC, the getters decompose it and \<open>Date.UTC\<close> and the setters
  compose one, over the proleptic Gregorian calendar.  \<open>year_of_day\<close> computes the year the standard
  defines as the largest whose first day is not after the day; the section on decomposition shows
  that composing and decomposing are inverse.
\<close>

section \<open>Days and years\<close>

definition leap :: "int \<Rightarrow> bool" where
  "leap y \<longleftrightarrow> (y mod 4 = 0 \<and> y mod 100 \<noteq> 0) \<or> y mod 400 = 0"

definition day_from_year :: "int \<Rightarrow> int" where
  "day_from_year y = 365 * (y - 1970) + (y - 1969) div 4 - (y - 1901) div 100 + (y - 1601) div 400"

definition days_in_year :: "int \<Rightarrow> int" where
  "days_in_year y = (if leap y then 366 else 365)"

text \<open>An estimate within one year of the answer, then one step up or down.\<close>

definition year_of_day :: "int \<Rightarrow> int" where
  "year_of_day d = (let y = 1970 + (400 * d) div 146097 in
     if d < day_from_year y then y - 1
     else if day_from_year (y + 1) \<le> d then y + 1 else y)"

lemma div_bounds: "0 < (k::int) \<Longrightarrow> k * (x div k) \<le> x" "0 < k \<Longrightarrow> x < k * (x div k) + k"
  using mult_div_mod_eq[of k x] pos_mod_bound[of k x] pos_mod_sign[of k x] by linarith+

lemma div_less_bound: "0 < (k::int) \<Longrightarrow> x < c * k \<Longrightarrow> x div k < c"
  using div_bounds(1)[of k x] by (metis mult.commute mult_less_cancel_left_pos le_less_trans)

lemma div_step: "1 < (k::int) \<Longrightarrow> (x + 1) div k = x div k + (if (x + 1) mod k = 0 then 1 else 0)"
proof -
  assume k: "1 < k"
  have x: "x = k * (x div k) + x mod k" by simp
  have m: "0 \<le> x mod k" "x mod k < k" using k by simp_all
  show ?thesis
  proof (cases "x mod k = k - 1")
    case True
    moreover have "k * (x div k + 1) = k * (x div k) + k" by (simp add: distrib_left)
    ultimately have "x + 1 = k * (x div k + 1) + 0" using x by linarith
    then have "(x + 1) div k = x div k + 1" "(x + 1) mod k = 0" using k
      by (metis int_div_pos_eq order_refl less_trans zero_less_one)
        (metis \<open>x + 1 = k * (x div k + 1) + 0\<close> add.right_neutral mod_mult_self1_is_0)
    then show ?thesis by simp
  next
    case False
    then have "x + 1 = k * (x div k) + (x mod k + 1)" "x mod k + 1 < k" using x m by linarith+
    then have "(x + 1) div k = x div k" "(x + 1) mod k = x mod k + 1"
      using m by (intro int_div_pos_eq[of _ _ _ "x mod k + 1"] int_mod_pos_eq[of _ _ "x div k"]; linarith)+
    then show ?thesis using m by simp
  qed
qed

lemma leap_count: "(p400 \<Longrightarrow> p100) \<Longrightarrow> (p100 \<Longrightarrow> p4) \<Longrightarrow>
    (x::int) + 365 + (a + (if p4 then 1 else 0)) - (b + (if p100 then 1 else 0)) + (c + (if p400 then 1 else 0)) =
    x + a - b + c + (if p4 \<and> \<not> p100 \<or> p400 then 366 else 365)"
  by auto

lemma day_from_year_Suc: "day_from_year (y + 1) = day_from_year y + days_in_year y"
proof -
  have m: "(y - 1968) mod 4 = 0 \<longleftrightarrow> y mod 4 = 0" "(y - 1900) mod 100 = 0 \<longleftrightarrow> y mod 100 = 0"
    "(y - 1600) mod 400 = 0 \<longleftrightarrow> y mod 400 = 0"
    using dvd_diff_right_iff[of 4 1968 y] dvd_diff_right_iff[of 100 1900 y] dvd_diff_right_iff[of 400 1600 y]
    by (simp_all add: mod_eq_0_iff_dvd dvd_diff_left_iff)
  have d: "y mod 400 = 0 \<Longrightarrow> y mod 100 = 0" "y mod 100 = 0 \<Longrightarrow> y mod 4 = 0"
    by (auto simp: mod_eq_0_iff_dvd intro: dvd_trans[of _ 400] dvd_trans[of _ 100])
  have e: "y - 1969 + 1 = y - 1968" "y - 1901 + 1 = y - 1900" "y - 1601 + 1 = y - 1600" by simp_all
  have s4: "(y - 1968) div 4 = (y - 1969) div 4 + (if y mod 4 = 0 then 1 else 0)"
    by (rule div_step[of 4 "y - 1969", unfolded e m]) simp
  have s100: "(y - 1900) div 100 = (y - 1901) div 100 + (if y mod 100 = 0 then 1 else 0)"
    by (rule div_step[of 100 "y - 1901", unfolded e m]) simp
  have s400: "(y - 1600) div 400 = (y - 1601) div 400 + (if y mod 400 = 0 then 1 else 0)"
    by (rule div_step[of 400 "y - 1601", unfolded e m]) simp
  have "day_from_year (y + 1) = 365 * (y - 1970) + 365 + (y - 1968) div 4 - (y - 1900) div 100 + (y - 1600) div 400"
  proof -
    have "y + 1 - 1970 = y - 1970 + 1" "y + 1 - 1969 = y - 1968" "y + 1 - 1901 = y - 1900" "y + 1 - 1601 = y - 1600"
      by simp_all
    then show ?thesis unfolding day_from_year_def by (simp only: distrib_left mult_1_right)
  qed
  also have "\<dots> = day_from_year y + days_in_year y"
    unfolding s4 s100 s400 day_from_year_def days_in_year_def leap_def by (rule leap_count) (rule d, assumption)+
  finally show ?thesis .
qed

lemma day_from_year_less: "day_from_year y < day_from_year (y + 1)"
  by (simp add: day_from_year_Suc days_in_year_def)

lemma day_from_year_mono: "y \<le> z \<Longrightarrow> day_from_year y \<le> day_from_year z"
proof (induction "nat (z - y)" arbitrary: z)
  case (Suc n)
  then have "day_from_year y \<le> day_from_year (z - 1)" by (intro Suc.hyps) auto
  then show ?case using day_from_year_less[of "z - 1"] by simp
qed simp

lemma year_estimate:
  assumes "4 * a \<le> (y::int) - 1969" "y - 1969 < 4 * a + 4" "100 * b \<le> y - 1901" "y - 1901 < 100 * b + 100"
    "400 * c \<le> y - 1601" "y - 1601 < 400 * c + 400"
  shows "146097 * (y - 1970) - 800 \<le> 400 * (365 * (y - 1970) + a - b + c)"
    and "400 * (365 * (y - 1970) + a - b + c) \<le> 146097 * (y - 1970) + 800"
  using assms unfolding right_diff_distrib distrib_left by linarith+

lemma day_from_year_bounds:
  "146097 * (y - 1970) - 800 \<le> 400 * day_from_year y" "400 * day_from_year y \<le> 146097 * (y - 1970) + 800"
proof -
  have b: "4 * ((y - 1969) div 4) \<le> y - 1969" "y - 1969 < 4 * ((y - 1969) div 4) + 4"
    "100 * ((y - 1901) div 100) \<le> y - 1901" "y - 1901 < 100 * ((y - 1901) div 100) + 100"
    "400 * ((y - 1601) div 400) \<le> y - 1601" "y - 1601 < 400 * ((y - 1601) div 400) + 400"
    by (rule div_bounds; simp)+
  show "146097 * (y - 1970) - 800 \<le> 400 * day_from_year y"
    "400 * day_from_year y \<le> 146097 * (y - 1970) + 800"
    by (unfold day_from_year_def) (rule year_estimate[OF b])+
qed

lemma year_of_day_bounds: "day_from_year (year_of_day d) \<le> d \<and> d < day_from_year (year_of_day d + 1)"
proof -
  define y where "y = 1970 + (400 * d) div 146097"
  have q: "y - 1970 = 400 * d div 146097" by (simp add: y_def)
  have y: "146097 * (y - 1970) \<le> 400 * d" "400 * d < 146097 * (y - 1970) + 146097"
    using div_bounds[of 146097 "400 * d"] by (simp_all only: q zero_less_numeral)
  have "day_from_year (y - 1) \<le> d" "d < day_from_year (y + 2)"
    using y day_from_year_bounds(2)[of "y - 1"] day_from_year_bounds(1)[of "y + 2"]
    unfolding right_diff_distrib distrib_left by linarith+
  then show ?thesis unfolding year_of_day_def Let_def y_def[symmetric]
    by (auto simp: not_less not_le add.assoc)
qed

lemma year_of_day_unique: "day_from_year y \<le> d \<Longrightarrow> d < day_from_year (y + 1) \<Longrightarrow> year_of_day d = y"
proof (rule ccontr)
  assume y: "day_from_year y \<le> d" "d < day_from_year (y + 1)" and "year_of_day d \<noteq> y"
  then consider "year_of_day d + 1 \<le> y" | "y + 1 \<le> year_of_day d" by linarith
  then show False
    using year_of_day_bounds[of d] y day_from_year_mono by cases fastforce+
qed

section \<open>Months\<close>

definition month_table :: "bool \<Rightarrow> int list" where
  "month_table l = (if l then [31, 29, 31, 30, 31, 30, 31, 31, 30, 31, 30, 31]
                    else [31, 28, 31, 30, 31, 30, 31, 31, 30, 31, 30, 31])"

definition month_start :: "bool \<Rightarrow> nat \<Rightarrow> int" where
  "month_start l m = sum_list (take m (month_table l))"

definition month_days :: "int \<Rightarrow> nat \<Rightarrow> int" where
  "month_days y m = month_table (leap y) ! m"

text \<open>The month (from 0) a day of the year lies in: how many months begin at or before it, less one.\<close>

definition month_of :: "bool \<Rightarrow> int \<Rightarrow> nat" where
  "month_of l n = length (filter (\<lambda>m. month_start l m \<le> n) [1..<12])"

definition civil_of_day :: "int \<Rightarrow> int \<times> nat \<times> int" where
  "civil_of_day d =
     (let y = year_of_day d; n = d - day_from_year y; m = month_of (leap y) n
      in (y, m, n - month_start (leap y) m + 1))"

text \<open>\<open>MakeDay\<close>: a month outside 0 to 11 carries into the year, a date outside the month into the days.\<close>

definition make_day :: "int \<Rightarrow> int \<Rightarrow> int \<Rightarrow> int" where
  "make_day y m dt = (let ym = y + m div 12 in
     day_from_year ym + month_start (leap ym) (nat (m mod 12)) + dt - 1)"

lemma upt_12: "[1..<12] = [1, 2, 3, 4, 5, 6, 7, 8, 9, 10, 11]"
  by (simp add: upt_rec)

lemma month_cases: "m < 12 \<Longrightarrow> m = 0 \<or> m = 1 \<or> m = 2 \<or> m = 3 \<or> m = 4 \<or> m = 5 \<or> m = 6 \<or> m = 7 \<or>
    m = 8 \<or> m = 9 \<or> m = 10 \<or> m = (11::nat)"
  by (auto simp: eval_nat_numeral less_Suc_eq)

lemma month_start_values:
  "month_start l 0 = 0" "month_start l 1 = 31" "month_start l (Suc 0) = 31"
  "month_start l 2 = 59 + of_bool l" "month_start l 3 = 90 + of_bool l" "month_start l 4 = 120 + of_bool l"
  "month_start l 5 = 151 + of_bool l" "month_start l 6 = 181 + of_bool l" "month_start l 7 = 212 + of_bool l"
  "month_start l 8 = 243 + of_bool l" "month_start l 9 = 273 + of_bool l" "month_start l 10 = 304 + of_bool l"
  "month_start l 11 = 334 + of_bool l" "month_start l 12 = 365 + of_bool l"
  by (cases l; simp add: month_start_def month_table_def)+

lemma month_start_Suc: "m < 12 \<Longrightarrow> month_start l (Suc m) = month_start l m + month_table l ! m"
  by (simp add: month_start_def take_Suc_conv_app_nth month_table_def)

lemma month_start_Suc_values:
  "month_start l (Suc 1) = 59 + of_bool l" "month_start l (Suc 2) = 90 + of_bool l"
  by (simp_all add: month_start_values flip: numeral_2_eq_2 numeral_3_eq_3)

lemma month_of_unique: "m < 12 \<Longrightarrow> month_start l m \<le> n \<Longrightarrow> n < month_start l (Suc m) \<Longrightarrow> month_of l n = m"
proof -
  assume m: "m < 12" and lo: "month_start l m \<le> n" and hi: "n < month_start l (Suc m)"
  from m have "m = 0 \<or> m = 1 \<or> m = 2 \<or> m = 3 \<or> m = 4 \<or> m = 5 \<or> m = 6 \<or> m = 7 \<or> m = 8 \<or> m = 9 \<or> m = 10 \<or> m = 11"
    by (rule month_cases)
  then show ?thesis
    using lo hi unfolding month_of_def upt_12
    by (elim disjE; cases l) (simp_all add: month_start_values month_start_Suc_values[simplified])
qed

section \<open>Composing and decomposing a day\<close>

definition civil_ok :: "int \<Rightarrow> nat \<Rightarrow> int \<Rightarrow> bool" where
  "civil_ok y m d \<longleftrightarrow> m < 12 \<and> 1 \<le> d \<and> d \<le> month_days y m"

lemma month_start_mono: "i \<le> j \<Longrightarrow> j \<le> 12 \<Longrightarrow> month_start l i \<le> month_start l j"
proof (induction j)
  case (Suc j)
  have "month_table l ! j \<ge> 0" using Suc.prems by (auto simp: month_table_def less_Suc_eq eval_nat_numeral nth_Cons')
  then show ?case using Suc month_start_Suc[of j l] by (cases "i = Suc j") auto
qed simp

lemma month_start_days_in_year: "month_start (leap y) 12 = days_in_year y"
  by (simp add: month_start_values days_in_year_def)

lemma make_day_eq: "m < 12 \<Longrightarrow> make_day y (int m) d = day_from_year y + month_start (leap y) m + d - 1"
  by (simp add: make_day_def Let_def)

lemma civil_of_make_day: "civil_ok y m d \<Longrightarrow> civil_of_day (make_day y (int m) d) = (y, m, d)"
proof -
  assume ok: "civil_ok y m d"
  then have m: "m < 12" and d: "1 \<le> d" "d \<le> month_days y m" by (auto simp: civil_ok_def)
  let ?n = "month_start (leap y) m + d - 1"
  have D: "make_day y (int m) d = day_from_year y + ?n" using m by (simp add: make_day_eq)
  have hi: "?n < month_start (leap y) (Suc m)" using d by (simp add: month_start_Suc[OF m] month_days_def)
  have "month_start (leap y) 0 \<le> month_start (leap y) m" using m by (intro month_start_mono) auto
  then have lo: "0 \<le> ?n" using d by (simp add: month_start_values)
  have "month_start (leap y) (Suc m) \<le> month_start (leap y) 12" using m by (intro month_start_mono) auto
  then have "?n < days_in_year y" using hi by (simp add: month_start_days_in_year)
  then have y: "year_of_day (day_from_year y + ?n) = y"
    using lo by (intro year_of_day_unique) (auto simp: day_from_year_Suc)
  have "month_of (leap y) ?n = m" using m d hi by (intro month_of_unique) auto
  then show ?thesis unfolding D civil_of_day_def y Let_def by simp
qed

lemma month_exists: "0 \<le> n \<Longrightarrow> n < month_start l k \<Longrightarrow> k \<le> 12 \<Longrightarrow> \<exists>m < k. month_start l m \<le> n \<and> n < month_start l (Suc m)"
proof (induction k)
  case (Suc k)
  then show ?case by (cases "n < month_start l k") (auto intro: less_SucI)
qed (simp add: month_start_values)

lemma make_day_of_civil:
  assumes "civil_of_day t = (y, m, d)"
  shows "civil_ok y m d" and "make_day y (int m) d = t"
proof -
  let ?n = "t - day_from_year (year_of_day t)"
  have y: "y = year_of_day t" using assms by (auto simp: civil_of_day_def Let_def)
  have b: "0 \<le> ?n" "?n < month_start (leap y) 12"
    using year_of_day_bounds[of t] by (auto simp: month_start_days_in_year day_from_year_Suc y)
  then obtain k where k: "k < 12" "month_start (leap y) k \<le> ?n" "?n < month_start (leap y) (Suc k)"
    using month_exists[OF b] by auto
  have mk: "month_of (leap y) ?n = k" using k by (rule month_of_unique)
  then have m: "m = k" and d: "d = ?n - month_start (leap y) k + 1"
    using assms by (auto simp: civil_of_day_def Let_def y)
  show "civil_ok y m d" using k by (simp add: civil_ok_def m d month_days_def month_start_Suc)
  show "make_day y (int m) d = t" using k(1) by (simp add: make_day_eq m d) (simp add: y)
qed

section \<open>Time values\<close>

definition ms_per_day :: int where
  "ms_per_day = 86400000"

definition make_time :: "int \<Rightarrow> int \<Rightarrow> int \<Rightarrow> int \<Rightarrow> int" where
  "make_time h mi s ms = h * 3600000 + mi * 60000 + s * 1000 + ms"

definition utc_year :: "int \<Rightarrow> int" where "utc_year t = fst (civil_of_day (t div ms_per_day))"
definition utc_month :: "int \<Rightarrow> nat" where "utc_month t = fst (snd (civil_of_day (t div ms_per_day)))"
definition utc_date :: "int \<Rightarrow> int" where "utc_date t = snd (snd (civil_of_day (t div ms_per_day)))"
definition utc_hours :: "int \<Rightarrow> int" where "utc_hours t = t mod ms_per_day div 3600000"
definition utc_minutes :: "int \<Rightarrow> int" where "utc_minutes t = t mod ms_per_day div 60000 mod 60"
definition utc_seconds :: "int \<Rightarrow> int" where "utc_seconds t = t mod ms_per_day div 1000 mod 60"
definition utc_ms :: "int \<Rightarrow> int" where "utc_ms t = t mod ms_per_day mod 1000"

text \<open>A time value past 8.64e15 is NaN: \<open>None\<close>.\<close>

definition time_clip :: "int \<Rightarrow> int option" where
  "time_clip t = (if \<bar>t\<bar> \<le> 8640000000000000 then Some t else None)"

definition set_utc_full_year :: "int \<Rightarrow> int \<Rightarrow> int \<Rightarrow> int \<Rightarrow> int option" where
  "set_utc_full_year t y m d = time_clip (make_day y m d * ms_per_day + t mod ms_per_day)"

definition set_utc_hours :: "int \<Rightarrow> int \<Rightarrow> int \<Rightarrow> int \<Rightarrow> int \<Rightarrow> int option" where
  "set_utc_hours t h mi s ms = time_clip (t div ms_per_day * ms_per_day + make_time h mi s ms)"

text \<open>\<open>Date.UTC\<close> reads a year of 0 to 99 as 1900 to 1999.\<close>

definition date_UTC :: "int \<Rightarrow> int \<Rightarrow> int \<Rightarrow> int \<Rightarrow> int \<Rightarrow> int \<Rightarrow> int \<Rightarrow> int option" where
  "date_UTC y m d h mi s ms =
     (let yr = (if 0 \<le> y \<and> y \<le> 99 then 1900 + y else y)
      in time_clip (make_day yr m d * ms_per_day + make_time h mi s ms))"

definition clock_ok :: "int \<Rightarrow> int \<Rightarrow> int \<Rightarrow> int \<Rightarrow> bool" where
  "clock_ok h mi s ms \<longleftrightarrow> 0 \<le> h \<and> h \<le> 23 \<and> 0 \<le> mi \<and> mi \<le> 59 \<and> 0 \<le> s \<and> s \<le> 59 \<and> 0 \<le> ms \<and> ms \<le> 999"

lemma clock_bounds: "clock_ok h mi s ms \<Longrightarrow> 0 \<le> make_time h mi s ms \<and> make_time h mi s ms < ms_per_day"
  by (auto simp: clock_ok_def make_time_def ms_per_day_def)

lemma clock_parts:
  assumes "clock_ok h mi s ms"
  shows "make_time h mi s ms div 3600000 = h" "make_time h mi s ms div 60000 mod 60 = mi"
    "make_time h mi s ms div 1000 mod 60 = s" "make_time h mi s ms mod 1000 = ms"
proof -
  note b = assms[unfolded clock_ok_def]
  show "make_time h mi s ms div 3600000 = h"
    using b by (intro int_div_pos_eq[of _ _ _ "mi * 60000 + s * 1000 + ms"]) (auto simp: make_time_def)
  have "make_time h mi s ms div 60000 = h * 60 + mi"
    using b by (intro int_div_pos_eq[of _ _ _ "s * 1000 + ms"]) (auto simp: make_time_def)
  then show "make_time h mi s ms div 60000 mod 60 = mi" using b by simp
  have "make_time h mi s ms div 1000 = (h * 60 + mi) * 60 + s"
    using b by (intro int_div_pos_eq[of _ _ _ ms]) (auto simp: make_time_def)
  moreover have "((h * 60 + mi) * 60 + s) mod 60 = s" using b by (intro int_mod_pos_eq[of _ _ "h * 60 + mi"]) auto
  ultimately show "make_time h mi s ms div 1000 mod 60 = s" by (simp only:)
  show "make_time h mi s ms mod 1000 = ms"
    using b by (intro int_mod_pos_eq[of _ _ "h * 3600 + mi * 60 + s"]) (auto simp: make_time_def)
qed

lemma day_time:
  assumes "0 \<le> t" "t < ms_per_day"
  shows "(d * ms_per_day + t) div ms_per_day = d" "(d * ms_per_day + t) mod ms_per_day = t"
  using assms by (auto simp: ms_per_day_def)

text \<open>Every field of a composed instant is the one that went in.\<close>

lemma utc_fields:
  assumes "civil_ok y m d" and "clock_ok h mi s ms"
  defines "t \<equiv> make_day y (int m) d * ms_per_day + make_time h mi s ms"
  shows "utc_year t = y" "utc_month t = m" "utc_date t = d" "utc_hours t = h" "utc_minutes t = mi"
    "utc_seconds t = s" "utc_ms t = ms"
  using day_time[of "make_time h mi s ms" "make_day y (int m) d"] clock_bounds[OF assms(2)]
    civil_of_make_day[OF assms(1)] clock_parts[OF assms(2)]
  by (simp_all add: t_def utc_year_def utc_month_def utc_date_def utc_hours_def utc_minutes_def utc_seconds_def utc_ms_def)

lemma utc_fields_ok: "civil_ok (utc_year t) (utc_month t) (utc_date t)"
  "clock_ok (utc_hours t) (utc_minutes t) (utc_seconds t) (utc_ms t)"
proof -
  show "civil_ok (utc_year t) (utc_month t) (utc_date t)"
    by (rule make_day_of_civil(1)[of "t div ms_per_day"]) (simp add: utc_year_def utc_month_def utc_date_def)
  have "t mod ms_per_day < 24 * 3600000" "0 \<le> t mod ms_per_day" by (simp_all add: ms_per_day_def)
  moreover from this have "t mod ms_per_day div 3600000 < 24" by (intro div_less_bound) simp_all
  ultimately have "utc_hours t \<le> 23" "0 \<le> utc_hours t"
    by (simp_all add: utc_hours_def pos_imp_zdiv_nonneg_iff)
  moreover have "x mod 60 \<le> 59" "x mod 1000 \<le> 999" for x :: int
    using pos_mod_bound[of 60 x] pos_mod_bound[of 1000 x] by linarith+
  ultimately show "clock_ok (utc_hours t) (utc_minutes t) (utc_seconds t) (utc_ms t)"
    by (simp add: clock_ok_def utc_minutes_def utc_seconds_def utc_ms_def)
qed

lemma recompose: "(r::int) = a * 1000 + ms \<Longrightarrow> a = b * 60 + s \<Longrightarrow> b = c * 60 + m \<Longrightarrow>
    c * 3600000 + m * 60000 + s * 1000 + ms = r"
  by simp

lemma utc_compose:
  "make_day (utc_year t) (int (utc_month t)) (utc_date t) * ms_per_day +
     make_time (utc_hours t) (utc_minutes t) (utc_seconds t) (utc_ms t) = t"
proof -
  have d: "make_day (utc_year t) (int (utc_month t)) (utc_date t) = t div ms_per_day"
    by (rule make_day_of_civil(2)[of "t div ms_per_day"]) (simp add: utc_year_def utc_month_def utc_date_def)
  let ?r = "t mod ms_per_day"
  have e: "?r div 1000 div 60 = ?r div 60000" "?r div 60000 div 60 = ?r div 3600000"
    by (simp_all add: zdiv_zmult2_eq[symmetric])
  have "make_time (utc_hours t) (utc_minutes t) (utc_seconds t) (utc_ms t) = ?r"
    unfolding make_time_def utc_hours_def utc_minutes_def utc_seconds_def utc_ms_def
    by (rule recompose[of _ "?r div 1000" _ "?r div 60000"])
      (simp_all only: e[symmetric] div_mult_mod_eq)
  then show ?thesis unfolding d by simp
qed

end
