(* ===== verification/Asn1_Time.thy ===== *)
theory Asn1_Time
  imports Asn1_Build Js_Date Ranges
begin

text \<open>
  lib/asn1-der.js, the time types: the field scanner and \<open>read.time\<close>, and the strings that
  \<open>build.utcTime\<close> and \<open>build.generalizedTime\<close> encode.  A Date is its time value, \<open>None\<close> where it is
  NaN (an invalid Date); a returned Date is always valid.
\<close>

section \<open>Scanning\<close>

fun digits_fold :: "nat \<Rightarrow> jsstr \<Rightarrow> nat option" where
  "digits_fold v [] = Some v"
| "digits_fold v (c # cs) = (if c < 48 \<or> c > 57 then None else digits_fold (v * 10 + (c - 48)) cs)"

definition digitsToInt :: "jsstr \<Rightarrow> nat \<Rightarrow> nat \<Rightarrow> nat option" where
  "digitsToInt s start cnt =
     (if start + cnt > length s then None else digits_fold 0 (take cnt (drop start s)))"

record time_fields =
  tf_year :: nat
  tf_month :: nat
  tf_day :: nat
  tf_hour :: nat
  tf_min :: nat
  tf_sec :: nat
  tf_hasFrac :: bool
  tf_ms :: nat
  tf_fracLastIsZero :: bool

text \<open>\<open>charCodeAt\<close>, \<open>None\<close> for the NaN of an index past the end.\<close>

definition char_at :: "jsstr \<Rightarrow> nat \<Rightarrow> nat option" where
  "char_at s i = (if i < length s then Some (s ! i) else None)"

definition is_digit :: "nat \<Rightarrow> bool" where
  "is_digit c \<longleftrightarrow> 48 \<le> c \<and> c \<le> 57"

definition frac_digit :: "jsstr \<Rightarrow> nat \<Rightarrow> nat" where
  "frac_digit ds i = (if i < length ds then ds ! i - 48 else 0)"

text \<open>The fraction: its milliseconds, whether its last digit is zero, and the position after it.\<close>

definition scanFraction :: "jsstr \<Rightarrow> nat \<Rightarrow> (nat \<times> bool \<times> nat) option" where
  "scanFraction s pos =
     (if char_at s pos \<noteq> Some 46 then None
      else let ds = takeWhile is_digit (drop (pos + 1) s); fi = length ds in
        if fi = 0 then None
        else Some (frac_digit ds 0 * 100 + frac_digit ds 1 * 10 + frac_digit ds 2,
                   char_at s (pos + fi) = Some 48, pos + 1 + fi))"

definition scanTimeFields :: "jsstr \<Rightarrow> nat \<Rightarrow> bool \<Rightarrow> time_fields option" where
  "scanTimeFields s yearLen allowFrac =
     Option.bind (digitsToInt s 0 yearLen) (\<lambda>year.
     Option.bind (digitsToInt s yearLen 2) (\<lambda>month.
     Option.bind (digitsToInt s (yearLen + 2) 2) (\<lambda>day.
     Option.bind (digitsToInt s (yearLen + 4) 2) (\<lambda>hour.
     Option.bind (digitsToInt s (yearLen + 6) 2) (\<lambda>min.
     Option.bind (digitsToInt s (yearLen + 8) 2) (\<lambda>sec.
     Option.bind (if allowFrac then scanFraction s (yearLen + 10) else Some (0, False, yearLen + 10))
       (\<lambda>(ms, lastZero, pos).
         if pos + 1 \<noteq> length s \<or> char_at s pos \<noteq> Some 90 then None
         else Some \<lparr>tf_year = year, tf_month = month, tf_day = day, tf_hour = hour, tf_min = min,
                    tf_sec = sec, tf_hasFrac = allowFrac, tf_ms = ms, tf_fracLastIsZero = lastZero\<rparr>)))))))"

section \<open>Reading a time\<close>

definition date_of_fields :: "int \<Rightarrow> int \<Rightarrow> int \<Rightarrow> int \<Rightarrow> int \<Rightarrow> int \<Rightarrow> int \<Rightarrow> int res" where
  "date_of_fields year month day hour mins sec ms =
     (case Option.bind (set_utc_full_year 0 year (month - 1) day) (\<lambda>d. set_utc_hours d hour mins sec ms) of
        None \<Rightarrow> Inl (Asn1E Asn1_bad_time)
      | Some d \<Rightarrow>
          if utc_year d \<noteq> year \<or> int (utc_month d) \<noteq> month - 1 \<or> utc_date d \<noteq> day \<or>
             utc_hours d \<noteq> hour \<or> utc_minutes d \<noteq> mins \<or> utc_seconds d \<noteq> sec
          then Inl (Asn1E Asn1_bad_time) else Inr d)"

definition readTime :: "node \<Rightarrow> bool \<Rightarrow> int res" where
  "readTime n allowFractional =
     (if tagClass n \<noteq> Universal then Inl (Asn1E Asn1_expected_time)
      else bindR (expectPrimitive n) (\<lambda>_. bindR (content_of n) (\<lambda>c.
        let s = latin1_decode c in
        bindR (if tagNumber n = TAG_UTC_TIME then
                 (case scanTimeFields s 2 False of
                    None \<Rightarrow> Inl (Asn1E Asn1_bad_utctime)
                  | Some t \<Rightarrow> Inr (t, int (tf_year t) + (if tf_year t < 50 then 2000 else 1900)))
               else if tagNumber n = TAG_GENERALIZED_TIME then
                 (case scanTimeFields s 4 False of
                    Some t \<Rightarrow> Inr (t, int (tf_year t))
                  | None \<Rightarrow>
                      if \<not> allowFractional then Inl (Asn1E Asn1_bad_generalizedtime)
                      else case scanTimeFields s 4 True of
                        None \<Rightarrow> Inl (Asn1E Asn1_bad_generalizedtime)
                      | Some t \<Rightarrow> if tf_fracLastIsZero t then Inl (Asn1E Asn1_bad_generalizedtime)
                          else Inr (t, int (tf_year t)))
               else Inl (Asn1E Asn1_expected_time))
          (\<lambda>(t, year).
            date_of_fields year (int (tf_month t)) (int (tf_day t)) (int (tf_hour t)) (int (tf_min t))
              (int (tf_sec t)) (if tagNumber n = TAG_GENERALIZED_TIME \<and> tf_hasFrac t then int (tf_ms t) else 0)))))"

section \<open>Writing a time\<close>

definition fmtTwo :: "nat \<Rightarrow> jsstr" where
  "fmtTwo n = (if n < 10 then [48] else []) @ digits_of n"

definition fractionString :: "nat \<Rightarrow> jsstr" where
  "fractionString ms =
     (if ms = 0 then []
      else let digits = (if ms < 10 then [48, 48] else if ms < 100 then [48] else []) @ digits_of ms
           in 46 # rev (dropWhile (\<lambda>c. c = 48) (rev digits)))"

text \<open>The getters of an invalid Date answer NaN: it fails neither bound, and prints as \<open>NaN\<close>.\<close>

definition generalizedTimeString :: "int option \<Rightarrow> bool \<Rightarrow> jsstr res" where
  "generalizedTimeString date fractional = (case date of
      None \<Rightarrow> Inr (js_lit ''0NaN'' @ concat (replicate 5 (js_lit ''NaN'')) @
                   (if fractional then js_lit ''.NaN'' else []) @ [90])
    | Some t \<Rightarrow>
        let y = utc_year t in
        if y < 0 \<or> y > 9999 then Inl (Asn1E Asn1_bad_generalizedtime)
        else let y4 = [48, 48, 48] @ digits_of (nat y) in
          Inr (drop (length y4 - 4) y4 @
               fmtTwo (utc_month t + 1) @ fmtTwo (nat (utc_date t)) @ fmtTwo (nat (utc_hours t)) @
               fmtTwo (nat (utc_minutes t)) @ fmtTwo (nat (utc_seconds t)) @
               (if fractional then fractionString (nat (utc_ms t)) else []) @ [90]))"

definition utcTimeString :: "int option \<Rightarrow> jsstr res" where
  "utcTimeString date = (case date of
      None \<Rightarrow> Inr (concat (replicate 6 (js_lit ''NaN'')) @ [90])
    | Some t \<Rightarrow>
        let y = utc_year t in
        if y < 1950 \<or> y > 2049 then Inl (Asn1E Asn1_bad_utctime)
        else Inr (fmtTwo (nat (y mod 100)) @ fmtTwo (utc_month t + 1) @ fmtTwo (nat (utc_date t)) @
                  fmtTwo (nat (utc_hours t)) @ fmtTwo (nat (utc_minutes t)) @ fmtTwo (nat (utc_seconds t)) @ [90]))"

definition build_utcTime :: "int option \<Rightarrow> bytes res" where
  "build_utcTime date = bindR (utcTimeString date) (\<lambda>s. universal TAG_UTC_TIME False (latin1_encode s))"

definition build_generalizedTime :: "int option \<Rightarrow> bool \<Rightarrow> bytes res" where
  "build_generalizedTime date fractional = bindR (generalizedTimeString date fractional) (\<lambda>s.
     universal TAG_GENERALIZED_TIME False (latin1_encode s))"

section \<open>Two-digit fields\<close>

definition two :: "nat \<Rightarrow> jsstr" where
  "two n = [48 + n div 10, 48 + n mod 10]"

lemma fmtTwo_two: "n < 100 \<Longrightarrow> fmtTwo n = two n"
proof -
  assume n: "n < 100"
  then have d: "n div 10 < 10" by simp
  show ?thesis
  proof (cases "n < 10")
    case True
    then show ?thesis by (simp add: fmtTwo_def two_def digits_of.simps[of n])
  next
    case False
    then show ?thesis using d by (simp add: fmtTwo_def two_def digits_of.simps[of n] digits_of.simps[of "n div 10"])
  qed
qed

lemma digits_of_push: "d < 10 \<Longrightarrow> digits_of (x * 10 + d) = (if x = 0 then [48 + d] else digits_of x @ [48 + d])"
proof (cases "x = 0")
  case False
  assume d: "d < 10"
  then have "(x * 10 + d) div 10 = x" "(x * 10 + d) mod 10 = d" "\<not> x * 10 + d < 10" using False by auto
  then show ?thesis using False by (subst digits_of.simps) (simp only: if_False)
qed (simp add: digits_of.simps)

lemma four_digits: "(n::nat) < 10000 \<Longrightarrow> \<exists>a b c d. n = ((a * 10 + b) * 10 + c) * 10 + d \<and> a < 10 \<and> b < 10 \<and> c < 10 \<and> d < 10"
proof -
  assume n: "n < 10000"
  have "n = n div 10 * 10 + n mod 10" "n div 10 = n div 10 div 10 * 10 + n div 10 mod 10"
    "n div 10 div 10 = n div 10 div 10 div 10 * 10 + n div 10 div 10 mod 10" by (simp_all only: div_mult_mod_eq)
  moreover have "n div 10 div 10 div 10 < 10" using n by (simp add: less_mult_imp_div_less)
  ultimately have "n = ((n div 10 div 10 div 10 * 10 + n div 10 div 10 mod 10) * 10 + n div 10 mod 10) * 10 + n mod 10"
    "n div 10 div 10 div 10 < 10" by (simp_all only:)
  then show ?thesis using mod_less_divisor[of 10] by (metis zero_less_numeral)
qed

lemma hundreds: "(y::nat) < 100 \<Longrightarrow> (x * 100 + y) div 100 = x" "y < 100 \<Longrightarrow> (x * 100 + y) mod 100 = y"
  by simp_all

lemma year_four: "n < 10000 \<Longrightarrow> (let y4 = [48, 48, 48] @ digits_of n in drop (length y4 - 4) y4) = two (n div 100) @ two (n mod 100)"
proof -
  assume "n < 10000"
  then obtain a b c d where n: "n = ((a * 10 + b) * 10 + c) * 10 + d" and l: "a < 10" "b < 10" "c < 10" "d < 10"
    using four_digits by blast
  have h: "n = (a * 10 + b) * 100 + (c * 10 + d)" "c * 10 + d < 100" using n l by simp_all
  have q: "n div 100 = a * 10 + b" "n mod 100 = c * 10 + d" unfolding h(1) by (rule hundreds[OF h(2)])+
  have t: "two (a * 10 + b) = [48 + a, 48 + b]" "two (c * 10 + d) = [48 + c, 48 + d]" using l by (simp_all add: two_def)
  have "digits_of n = (if a * 10 + b = 0 then (if c = 0 then [48 + d] else [48 + c, 48 + d])
      else (if a = 0 then [48 + b] else [48 + a, 48 + b]) @ [48 + c, 48 + d])"
    unfolding n using l digits_of_push[of b a] digits_of_push[of c "a * 10 + b"] digits_of_push[of d "(a * 10 + b) * 10 + c"]
    by (auto simp: digits_of.simps[of a])
  then show ?thesis unfolding q t by (auto simp: Let_def)
qed

lemma digits_fold_two: "n < 100 \<Longrightarrow> digits_fold v (two n @ rest) = digits_fold (v * 100 + n) rest"
proof -
  assume n: "n < 100"
  then have "n div 10 < 10" by simp
  moreover have "\<not> 9 < n mod 10" using mod_less_divisor[of 10 n] by linarith
  moreover have "(v * 10 + n div 10) * 10 + n mod 10 = v * 100 + n" by simp
  ultimately show ?thesis by (simp add: two_def algebra_simps)
qed

lemma length_two [simp]: "length (two n) = 2"
  by (simp add: two_def)

lemma digits_fold_Some: "length x = 2 \<Longrightarrow> digits_fold v x = Some w \<Longrightarrow> \<exists>n. n < 100 \<and> x = two n \<and> w = v * 100 + n"
proof -
  assume "length x = 2" and f: "digits_fold v x = Some w"
  then obtain a b where x: "x = [a, b]" by (auto simp: length_Suc_conv numeral_2_eq_2)
  with f have ab: "48 \<le> a" "a \<le> 57" "48 \<le> b" "b \<le> 57" "w = (v * 10 + (a - 48)) * 10 + (b - 48)"
    by (auto split: if_splits)
  have "a = 48 + (a - 48)" "b = 48 + (b - 48)" "a - 48 < 10" "b - 48 < 10" using ab by linarith+
  then obtain c d where cd: "a = 48 + c" "b = 48 + d" "c < 10" "d < 10" by blast
  have "x = two (c * 10 + d)" using cd by (simp add: x two_def)
  moreover have "c * 10 + d < 100" "w = v * 100 + (c * 10 + d)" using cd ab(5) by auto
  ultimately show ?thesis by blast
qed

section \<open>The text of a time\<close>

definition year_text :: "nat \<Rightarrow> nat \<Rightarrow> jsstr" where
  "year_text yl y = (if yl = 2 then two y else two (y div 100) @ two (y mod 100))"

definition fields_text :: "nat \<Rightarrow> time_fields \<Rightarrow> jsstr" where
  "fields_text yl f = year_text yl (tf_year f) @ two (tf_month f) @ two (tf_day f) @ two (tf_hour f) @
     two (tf_min f) @ two (tf_sec f)"

definition fields_small :: "nat \<Rightarrow> time_fields \<Rightarrow> bool" where
  "fields_small yl f \<longleftrightarrow> tf_year f < 10 ^ yl \<and> tf_month f < 100 \<and> tf_day f < 100 \<and> tf_hour f < 100 \<and>
     tf_min f < 100 \<and> tf_sec f < 100"

definition year_len :: "nat \<Rightarrow> bool" where
  "year_len yl \<longleftrightarrow> yl = 2 \<or> yl = 4"

lemma length_year_text: "year_len yl \<Longrightarrow> length (year_text yl y) = yl"
  by (auto simp: year_text_def year_len_def)

lemma length_fields_text: "year_len yl \<Longrightarrow> length (fields_text yl f) = yl + 10"
  by (simp add: fields_text_def length_year_text)

lemma year_digits: "year_len yl \<Longrightarrow> y < 10 ^ yl \<Longrightarrow> digits_fold 0 (year_text yl y) = Some y"
  using digits_fold_two[of y 0 "[]"] digits_fold_two[of "y div 100" 0 "two (y mod 100)"]
    digits_fold_two[of "y mod 100" "y div 100" "[]"]
  by (auto simp: year_len_def year_text_def less_mult_imp_div_less)

lemma digits_year: "year_len yl \<Longrightarrow> length x = yl \<Longrightarrow> digits_fold 0 x = Some y \<Longrightarrow> y < 10 ^ yl \<and> x = year_text yl y"
proof -
  assume yl: "year_len yl" and len: "length x = yl" and f: "digits_fold 0 x = Some y"
  show ?thesis
  proof (cases "yl = 2")
    case True
    then show ?thesis using digits_fold_Some[of x 0 y] len f by (auto simp: year_text_def)
  next
    case False
    then have l4: "length x = 4" "yl = 4" using yl len by (auto simp: year_len_def)
    define p q where "p = take 2 x" and "q = drop 2 x"
    have x: "x = p @ q" "length p = 2" "length q = 2" using l4 by (simp_all add: p_def q_def)
    have app: "digits_fold v (a @ b) = Option.bind (digits_fold v a) (\<lambda>w. digits_fold w b)" for v a b
      by (induction v a rule: digits_fold.induct) auto
    from f x obtain w where w: "digits_fold 0 p = Some w" "digits_fold w q = Some y"
      by (auto simp: app Option.bind_eq_Some_conv)
    obtain m n where "m < 100" "p = two m" "w = m" "n < 100" "q = two n" "y = w * 100 + n"
      using digits_fold_Some[OF x(2) w(1)] digits_fold_Some[OF x(3) w(2)] by auto
    then show ?thesis using False l4 x hundreds[of n m] by (auto simp: year_text_def)
  qed
qed

lemma digitsToInt_mid: "digitsToInt (pre @ x @ rest) (length pre) (length x) = digits_fold 0 x"
  by (simp add: digitsToInt_def)

lemma digitsToInt_Some: "digitsToInt s p n = Some v \<longleftrightarrow> p + n \<le> length s \<and> digits_fold 0 (take n (drop p s)) = Some v"
  by (auto simp: digitsToInt_def)

lemma two_back: "digitsToInt s p 2 = Some v \<Longrightarrow> v < 100 \<and> p + 2 \<le> length s \<and> drop p s = two v @ drop (p + 2) s"
proof -
  assume h: "digitsToInt s p 2 = Some v"
  then have l: "p + 2 \<le> length s" and d: "digits_fold 0 (take 2 (drop p s)) = Some v" by (auto simp: digitsToInt_Some)
  from digits_fold_Some[OF _ d] l have "v < 100" "take 2 (drop p s) = two v" by auto
  moreover have "drop p s = take 2 (drop p s) @ drop (p + 2) s" by (metis append_take_drop_id drop_drop add.commute)
  ultimately show ?thesis using l by simp
qed

text \<open>The scanner up to the seconds: it accepts exactly the text of small fields.\<close>

definition scan_head :: "jsstr \<Rightarrow> nat \<Rightarrow> (nat \<times> nat \<times> nat \<times> nat \<times> nat \<times> nat) option" where
  "scan_head s yl =
     Option.bind (digitsToInt s 0 yl) (\<lambda>year.
     Option.bind (digitsToInt s yl 2) (\<lambda>month.
     Option.bind (digitsToInt s (yl + 2) 2) (\<lambda>day.
     Option.bind (digitsToInt s (yl + 4) 2) (\<lambda>hour.
     Option.bind (digitsToInt s (yl + 6) 2) (\<lambda>mins.
     Option.bind (digitsToInt s (yl + 8) 2) (\<lambda>sec. Some (year, month, day, hour, mins, sec)))))))"

lemma scan_head_text:
  assumes "year_len yl" and "fields_small yl f"
  shows "scan_head (fields_text yl f @ rest) yl =
    Some (tf_year f, tf_month f, tf_day f, tf_hour f, tf_min f, tf_sec f)"
proof -
  let ?y = "year_text yl (tf_year f)"
  let ?s = "fields_text yl f @ rest"
  have ly: "length ?y = yl" by (rule length_year_text[OF assms(1)])
  have d: "digits_fold 0 (two n) = Some n" if "n < 100" for n using digits_fold_two[OF that, of 0 "[]"] by simp
  have "digitsToInt ?s 0 yl = Some (tf_year f)"
    using digitsToInt_mid[of "[]" ?y] year_digits[OF assms(1)] assms(2) ly
    by (simp add: fields_text_def fields_small_def)
  moreover have "digitsToInt ?s yl 2 = Some (tf_month f)"
    using digitsToInt_mid[of ?y "two (tf_month f)"] d assms(2) ly by (simp add: fields_text_def fields_small_def)
  moreover have "digitsToInt ?s (yl + 2) 2 = Some (tf_day f)"
    using digitsToInt_mid[of "?y @ two (tf_month f)" "two (tf_day f)"] d assms(2) ly by (simp add: fields_text_def fields_small_def)
  moreover have "digitsToInt ?s (yl + 4) 2 = Some (tf_hour f)"
    using digitsToInt_mid[of "?y @ two (tf_month f) @ two (tf_day f)" "two (tf_hour f)"] d assms(2) ly
    by (simp add: fields_text_def fields_small_def)
  moreover have "digitsToInt ?s (yl + 6) 2 = Some (tf_min f)"
    using digitsToInt_mid[of "?y @ two (tf_month f) @ two (tf_day f) @ two (tf_hour f)" "two (tf_min f)"] d assms(2) ly
    by (simp add: fields_text_def fields_small_def)
  moreover have "digitsToInt ?s (yl + 8) 2 = Some (tf_sec f)"
    using digitsToInt_mid[of "?y @ two (tf_month f) @ two (tf_day f) @ two (tf_hour f) @ two (tf_min f)" "two (tf_sec f)"] d assms(2) ly
    by (simp add: fields_text_def fields_small_def)
  ultimately show ?thesis by (simp add: scan_head_def)
qed

lemma scan_head_Some:
  assumes "year_len yl" and "scan_head s yl = Some (y, mo, d, h, mi, se)"
  shows "y < 10 ^ yl \<and> mo < 100 \<and> d < 100 \<and> h < 100 \<and> mi < 100 \<and> se < 100 \<and> yl + 10 \<le> length s \<and>
    s = year_text yl y @ two mo @ two d @ two h @ two mi @ two se @ drop (yl + 10) s"
proof -
  from assms(2) have b: "digitsToInt s 0 yl = Some y" "digitsToInt s yl 2 = Some mo" "digitsToInt s (yl + 2) 2 = Some d"
    "digitsToInt s (yl + 4) 2 = Some h" "digitsToInt s (yl + 6) 2 = Some mi" "digitsToInt s (yl + 8) 2 = Some se"
    by (auto simp: scan_head_def Option.bind_eq_Some_conv)
  note t = b(2-6)[THEN two_back, unfolded add.assoc numeral_plus_numeral add_num_simps]
  have y: "y < 10 ^ yl \<and> take yl s = year_text yl y"
    using b(1) digits_year[OF assms(1), of "take yl s" y] by (auto simp: digitsToInt_Some)
  have "s = take yl s @ drop yl s" by simp
  also have "drop yl s = two mo @ two d @ two h @ two mi @ two se @ drop (yl + 10) s"
    using t by (simp only:)
  finally show ?thesis using y t by auto
qed

definition read_fields_time :: "time_fields \<Rightarrow> int \<Rightarrow> int \<Rightarrow> int res" where
  "read_fields_time f year ms = date_of_fields year (int (tf_month f)) (int (tf_day f)) (int (tf_hour f))
     (int (tf_min f)) (int (tf_sec f)) ms"

lemma scanTimeFields_head: "scanTimeFields s yl b =
   Option.bind (scan_head s yl) (\<lambda>(year, month, day, hour, mins, sec).
     Option.bind (if b then scanFraction s (yl + 10) else Some (0, False, yl + 10))
       (\<lambda>(ms, lastZero, pos).
         if pos + 1 \<noteq> length s \<or> char_at s pos \<noteq> Some 90 then None
         else Some \<lparr>tf_year = year, tf_month = month, tf_day = day, tf_hour = hour, tf_min = mins,
                    tf_sec = sec, tf_hasFrac = b, tf_ms = ms, tf_fracLastIsZero = lastZero\<rparr>))"
  by (simp only: scanTimeFields_def scan_head_def Option.bind_assoc Option.bind.simps prod.case)

lemma drop_last: "n + 1 = length s \<Longrightarrow> char_at s n = Some c \<Longrightarrow> drop n s = [c]"
  by (auto simp: char_at_def Cons_nth_drop_Suc[symmetric] split: if_splits)

lemma char_at_mid: "char_at (xs @ c # ys) (length xs) = Some c"
  by (simp add: char_at_def)

lemma scan_plain:
  assumes "year_len yl"
  shows "scanTimeFields s yl False = Some f \<longleftrightarrow>
    fields_small yl f \<and> s = fields_text yl f @ [90] \<and> \<not> tf_hasFrac f \<and> tf_ms f = 0 \<and> \<not> tf_fracLastIsZero f"
proof
  assume "scanTimeFields s yl False = Some f"
  then obtain y mo d h mi se where hd: "scan_head s yl = Some (y, mo, d, h, mi, se)"
    and l: "yl + 10 + 1 = length s" "char_at s (yl + 10) = Some 90"
    and f: "f = \<lparr>tf_year = y, tf_month = mo, tf_day = d, tf_hour = h, tf_min = mi, tf_sec = se,
      tf_hasFrac = False, tf_ms = 0, tf_fracLastIsZero = False\<rparr>"
    by (auto simp: scanTimeFields_head Option.bind_eq_Some_conv split: if_splits)
  from scan_head_Some[OF assms hd] drop_last[OF l]
  show "fields_small yl f \<and> s = fields_text yl f @ [90] \<and> \<not> tf_hasFrac f \<and> tf_ms f = 0 \<and> \<not> tf_fracLastIsZero f"
    by (simp add: f fields_small_def fields_text_def)
next
  assume h: "fields_small yl f \<and> s = fields_text yl f @ [90] \<and> \<not> tf_hasFrac f \<and> tf_ms f = 0 \<and> \<not> tf_fracLastIsZero f"
  moreover have "char_at (fields_text yl f @ [90]) (yl + 10) = Some 90"
    using char_at_mid[of "fields_text yl f" 90 "[]"] length_fields_text[OF assms, of f] by (simp only:)
  moreover have "yl + 10 + 1 = length (fields_text yl f @ [90])" using length_fields_text[OF assms, of f] by simp
  ultimately show "scanTimeFields s yl False = Some f"
    using scan_head_text[OF assms, of f "[90]"] h by (simp add: scanTimeFields_head del: length_append)
qed

section \<open>The fraction\<close>

lemma three_digits: "(n::nat) < 1000 \<Longrightarrow> \<exists>a b c. n = (a * 10 + b) * 10 + c \<and> a < 10 \<and> b < 10 \<and> c < 10"
proof -
  assume n: "n < 1000"
  have "n = n div 10 * 10 + n mod 10" "n div 10 = n div 10 div 10 * 10 + n div 10 mod 10" by (simp_all only: div_mult_mod_eq)
  moreover have "n div 10 div 10 < 10" using n by (simp add: less_mult_imp_div_less)
  ultimately have "n = (n div 10 div 10 * 10 + n div 10 mod 10) * 10 + n mod 10" "n div 10 div 10 < 10"
    by (simp_all only:)
  then show ?thesis using mod_less_divisor[of 10] by (metis zero_less_numeral)
qed

lemma fraction_digits:
  assumes "a < 10" "b < 10" "c < 10" and "(a * 10 + b) * 10 + c \<noteq> 0"
  shows "fractionString ((a * 10 + b) * 10 + c) =
    (if c \<noteq> 0 then [46, 48 + a, 48 + b, 48 + c] else if b \<noteq> 0 then [46, 48 + a, 48 + b] else [46, 48 + a])"
proof -
  have d: "(if (a * 10 + b) * 10 + c < 10 then [48, 48] else if (a * 10 + b) * 10 + c < 100 then [48] else []) @
      digits_of ((a * 10 + b) * 10 + c) = [48 + a, 48 + b, 48 + c]"
    using assms digits_of_push[of b a] digits_of_push[of c "a * 10 + b"] by (auto simp: digits_of.simps[of a])
  show ?thesis unfolding fractionString_def Let_def d using assms by auto
qed

lemma scanFraction_text:
  assumes "ms < 1000" and "ms \<noteq> 0" and "length pre = pos"
  shows "scanFraction (pre @ fractionString ms @ [90]) pos = Some (ms, False, pos + length (fractionString ms))"
proof -
  obtain a b c where ms: "ms = (a * 10 + b) * 10 + c" and l: "a < 10" "b < 10" "c < 10"
    using three_digits[OF assms(1)] by blast
  have nz: "(a * 10 + b) * 10 + c \<noteq> 0" using assms(2)[unfolded ms] .
  have f: "fractionString ms =
    (if c \<noteq> 0 then [46, 48 + a, 48 + b, 48 + c] else if b \<noteq> 0 then [46, 48 + a, 48 + b] else [46, 48 + a])"
    unfolding ms by (rule fraction_digits[OF l nz])
  have "a \<noteq> 0" if "c = 0" "b = 0" using assms(2) that by (simp add: ms)
  then show ?thesis unfolding f using assms(3) l
    by (auto simp: scanFraction_def char_at_def is_digit_def frac_digit_def Let_def nth_append ms)
qed

section \<open>Properties of times\<close>

definition compose :: "int \<Rightarrow> nat \<Rightarrow> int \<Rightarrow> int \<Rightarrow> int \<Rightarrow> int \<Rightarrow> int \<Rightarrow> int" where
  "compose y m d h mi s ms = make_day y (int m) d * ms_per_day + make_time h mi s ms"

lemma year_range: "0 \<le> y \<Longrightarrow> y \<le> 9999 \<Longrightarrow> civil_ok y m d \<Longrightarrow> \<bar>make_day y (int m) d\<bar> \<le> 3000000"
proof -
  assume y: "0 \<le> y" "y \<le> 9999" and ok: "civil_ok y m d"
  let ?t = "make_day y (int m) d"
  have "civil_of_day ?t = (y, m, d)" by (rule civil_of_make_day[OF ok])
  then have "year_of_day ?t = y" by (simp add: civil_of_day_def Let_def)
  then have "day_from_year y \<le> ?t" "?t < day_from_year (y + 1)" using year_of_day_bounds[of ?t] by auto
  moreover have "day_from_year 0 \<le> day_from_year y" "day_from_year (y + 1) \<le> day_from_year 10000"
    using y by (auto intro: day_from_year_mono)
  moreover have "day_from_year 0 = -719528" "day_from_year 10000 = 2932897" by (simp_all add: day_from_year_def)
  ultimately show ?thesis by linarith
qed

lemma date_of_fields_Inr:
  assumes "0 \<le> y" "y \<le> 9999" "civil_ok y m d" "clock_ok h mi s ms"
  shows "date_of_fields y (int m + 1) d h mi s ms = Inr (compose y m d h mi s ms)"
proof -
  have b: "\<bar>make_day y (int m) d\<bar> \<le> 3000000" by (rule year_range[OF assms(1-3)])
  have "set_utc_full_year 0 y (int m) d = Some (make_day y (int m) d * ms_per_day)"
    using b by (simp add: set_utc_full_year_def time_clip_def ms_per_day_def)
  moreover have "set_utc_hours (make_day y (int m) d * ms_per_day) h mi s ms = Some (compose y m d h mi s ms)"
    using b clock_bounds[OF assms(4)] by (auto simp: set_utc_hours_def time_clip_def compose_def ms_per_day_def)
  ultimately show ?thesis using utc_fields[OF assms(3,4)] by (simp add: date_of_fields_def compose_def)
qed

lemma date_of_fields_sound:
  assumes "date_of_fields y (int mo) d h mi s ms = Inr t" and "0 \<le> ms" "ms \<le> 999"
  shows "utc_year t = y \<and> utc_month t + 1 = mo \<and> utc_date t = d \<and> utc_hours t = h \<and> utc_minutes t = mi \<and>
    utc_seconds t = s \<and> utc_ms t = ms"
proof -
  from assms(1) obtain d0 where d0: "set_utc_hours d0 h mi s ms = Some t"
    and f: "utc_year t = y" "int (utc_month t) = int mo - 1" "utc_date t = d" "utc_hours t = h" "utc_minutes t = mi" "utc_seconds t = s"
    by (auto simp: date_of_fields_def Option.bind_eq_Some_conv split: option.splits if_splits)
  from d0 have "t = d0 div ms_per_day * ms_per_day + make_time h mi s ms"
    by (auto simp: set_utc_hours_def time_clip_def split: if_splits)
  then have "t = (d0 div ms_per_day * 86400 + h * 3600 + mi * 60 + s) * 1000 + ms"
    by (simp add: make_time_def ms_per_day_def)
  then have "t mod 1000 = ms" using assms(2,3) by (simp only: mod_mult_self3 mod_pos_pos_trivial)
  then have "utc_ms t = ms" by (simp add: utc_ms_def ms_per_day_def mod_mod_cancel)
  then show ?thesis using f by auto
qed

definition fields_of :: "int \<Rightarrow> nat \<Rightarrow> time_fields" where
  "fields_of t y = \<lparr>tf_year = y, tf_month = utc_month t + 1, tf_day = nat (utc_date t),
     tf_hour = nat (utc_hours t), tf_min = nat (utc_minutes t), tf_sec = nat (utc_seconds t),
     tf_hasFrac = False, tf_ms = 0, tf_fracLastIsZero = False\<rparr>"

lemma month_days_31: "m < 12 \<Longrightarrow> month_days y m \<le> 31"
  by (drule month_cases) (auto simp: month_days_def month_table_def eval_nat_numeral)

lemma fields_of_small: "y < 10 ^ yl \<Longrightarrow> fields_small yl (fields_of t y)"
  using utc_fields_ok[of t] month_days_31[of "utc_month t" "utc_year t"]
  by (auto simp: fields_small_def fields_of_def civil_ok_def clock_ok_def)

lemma fields_of_text: "fmtTwo (utc_month t + 1) @ fmtTwo (nat (utc_date t)) @ fmtTwo (nat (utc_hours t)) @
    fmtTwo (nat (utc_minutes t)) @ fmtTwo (nat (utc_seconds t)) = two (utc_month t + 1) @ two (nat (utc_date t)) @
    two (nat (utc_hours t)) @ two (nat (utc_minutes t)) @ two (nat (utc_seconds t))"
  using fields_of_small[of 0 1 t] by (simp add: fields_small_def fields_of_def fmtTwo_two)

lemma generalized_text: "generalizedTimeString (Some t) b = Inr s \<longleftrightarrow> 0 \<le> utc_year t \<and> utc_year t \<le> 9999 \<and>
    s = fields_text 4 (fields_of t (nat (utc_year t))) @ (if b then fractionString (nat (utc_ms t)) else []) @ [90]"
proof (cases "0 \<le> utc_year t \<and> utc_year t \<le> 9999")
  case True
  then have "nat (utc_year t) < 10000" by (auto simp: nat_less_iff)
  note y = year_four[OF this]
  have "generalizedTimeString (Some t) b = Inr ((let y4 = [48, 48, 48] @ digits_of (nat (utc_year t)) in drop (length y4 - 4) y4) @
      (fmtTwo (utc_month t + 1) @ fmtTwo (nat (utc_date t)) @ fmtTwo (nat (utc_hours t)) @ fmtTwo (nat (utc_minutes t)) @
      fmtTwo (nat (utc_seconds t))) @ (if b then fractionString (nat (utc_ms t)) else []) @ [90])"
    using True by (simp add: generalizedTimeString_def Let_def)
  then show ?thesis using True unfolding y fields_of_text
    by (auto simp: fields_text_def fields_of_def year_text_def)
qed (auto simp: generalizedTimeString_def Let_def)

lemma utc_text: "utcTimeString (Some t) = Inr s \<longleftrightarrow> 1950 \<le> utc_year t \<and> utc_year t \<le> 2049 \<and>
    s = fields_text 2 (fields_of t (nat (utc_year t mod 100))) @ [90]"
proof (cases "1950 \<le> utc_year t \<and> utc_year t \<le> 2049")
  case True
  have "utc_year t mod 100 < 100" by simp
  then have "nat (utc_year t mod 100) < 100" by linarith
  then have "utcTimeString (Some t) = Inr (two (nat (utc_year t mod 100)) @
      (fmtTwo (utc_month t + 1) @ fmtTwo (nat (utc_date t)) @ fmtTwo (nat (utc_hours t)) @ fmtTwo (nat (utc_minutes t)) @
      fmtTwo (nat (utc_seconds t))) @ [90])"
    using True by (simp add: utcTimeString_def Let_def fmtTwo_two)
  then show ?thesis using True unfolding fields_of_text
    by (auto simp: fields_text_def fields_of_def year_text_def)
qed (auto simp: utcTimeString_def Let_def)

text \<open>The time value a text names, without and with its milliseconds.\<close>

lemma date_of_fields_of:
  assumes "0 \<le> utc_year t" "utc_year t \<le> 9999" and that: "0 \<le> ms" "ms \<le> 999"
  shows "date_of_fields (utc_year t) (int (tf_month (fields_of t y))) (int (tf_day (fields_of t y))) (int (tf_hour (fields_of t y)))
     (int (tf_min (fields_of t y))) (int (tf_sec (fields_of t y))) ms = Inr (t - utc_ms t + ms)"
proof -
  note ok = utc_fields_ok[of t]
  have n: "0 \<le> utc_date t" "0 \<le> utc_hours t" "0 \<le> utc_minutes t" "0 \<le> utc_seconds t"
    using ok by (auto simp: civil_ok_def clock_ok_def)
  have c: "clock_ok (utc_hours t) (utc_minutes t) (utc_seconds t) ms" using ok(2) that by (auto simp: clock_ok_def)
  have "compose (utc_year t) (utc_month t) (utc_date t) (utc_hours t) (utc_minutes t) (utc_seconds t) ms = t - utc_ms t + ms"
    using utc_compose[of t] by (simp add: compose_def make_time_def)
  then show ?thesis using date_of_fields_Inr[OF assms(1,2) ok(1) c] n by (simp add: fields_of_def add.commute[of 1])
qed

lemma fields_text_ascii: "year_len yl \<Longrightarrow> fields_small yl f \<Longrightarrow> \<forall>c \<in> set (fields_text yl f). c < 256"
proof -
  have two: "\<forall>c \<in> set (two n). c < 256" if "n < 100" for n
    using that mod_less_divisor[of 10 n] by (auto simp: two_def simp del: mod_less_divisor)
  assume yl: "year_len yl" and f: "fields_small yl f"
  have "\<forall>c \<in> set (year_text yl (tf_year f)). c < 256"
  proof (cases "yl = 2")
    case True
    then have "tf_year f < 100" using f by (simp add: fields_small_def)
    then show ?thesis using two[of "tf_year f"] True by (simp add: year_text_def)
  next
    case False
    then have "tf_year f < 100 * 100" using yl f by (simp add: year_len_def fields_small_def)
    then have "tf_year f div 100 < 100" by (rule less_mult_imp_div_less)
    then have "\<forall>c \<in> set (two (tf_year f div 100)). c < 256" "\<forall>c \<in> set (two (tf_year f mod 100)). c < 256"
      by (intro two; simp)+
    then show ?thesis using False by (auto simp: year_text_def)
  qed
  moreover have "\<forall>c \<in> set (two (tf_month f)). c < 256" "\<forall>c \<in> set (two (tf_day f)). c < 256"
    "\<forall>c \<in> set (two (tf_hour f)). c < 256" "\<forall>c \<in> set (two (tf_min f)). c < 256" "\<forall>c \<in> set (two (tf_sec f)). c < 256"
    using f by (intro two; simp add: fields_small_def)+
  ultimately show ?thesis by (auto simp: fields_text_def)
qed

section \<open>Properties\<close>

lemma universal_decodes:
  assumes "universal t False c = Inr der" and "primitive_tag t" and "length der \<le> DER_MAX_BYTES"
  shows "\<exists>nd. decode der no_opts = Inr nd \<and> tagClass nd = Universal \<and> \<not> constructed nd \<and> tagNumber nd = t \<and> content nd = Some c"
proof -
  have e: "enc (TPrim Universal t c) = Inr der" using assms(1) by (simp add: universal_def)
  have "\<exists>nd. decode der no_opts = Inr nd \<and> tree_of nd = TPrim Universal t c"
    using e assms(2,3) caps_no_opts[of no_opts]
    by (intro decode_complete_opts) (auto simp: primitive_tag_def no_opts_def DER_MAX_BYTES_def DER_MAX_ITEMS_def simp del: enc.simps)
  then obtain nd where nd: "decode der no_opts = Inr nd" "tree_of nd = TPrim Universal t c" by blast
  have "located der nd" by (rule decode_strict_item[OF nd(1)]) (simp_all add: no_opts_def strict_item_def)
  then show ?thesis using nd by (cases nd) (auto split: option.splits)
qed

lemma decoded_primitive:
  assumes "decode buf no_opts = Inr nd" and "tagClass nd = Universal" and "\<not> constructed nd" and "content nd = Some c"
  shows "universal (tagNumber nd) False c = Inr buf"
proof -
  have e: "enc (tree_of nd) = Inr buf" and l: "located buf nd"
    by (rule decode_strict_item[OF assms(1)]; auto simp: no_opts_def strict_item_def)+
  then have "tree_of nd = TPrim Universal (tagNumber nd) c" using assms(2-4) by (cases nd) (auto split: option.splits)
  then show ?thesis using e by (simp add: universal_def)
qed

lemma text_back: "\<forall>c \<in> set s. c < 256 \<Longrightarrow> latin1_decode (latin1_encode s) = s"
  using latin1_roundtrip[of s "latin1_encode s"] by simp

lemma readTime_node:
  assumes "tagClass nd = Universal" "\<not> constructed nd" "content nd = Some (latin1_encode s)" "\<forall>c \<in> set s. c < 256"
  shows "tagNumber nd = TAG_UTC_TIME \<Longrightarrow> scanTimeFields s 2 False = Some f \<Longrightarrow>
      readTime nd b = read_fields_time f (int (tf_year f) + (if tf_year f < 50 then 2000 else 1900)) 0"
    and "tagNumber nd = TAG_GENERALIZED_TIME \<Longrightarrow> scanTimeFields s 4 False = Some f \<Longrightarrow> \<not> tf_hasFrac f \<Longrightarrow>
      readTime nd b = read_fields_time f (int (tf_year f)) 0"
    and "tagNumber nd = TAG_GENERALIZED_TIME \<Longrightarrow> scanTimeFields s 4 False = None \<Longrightarrow> scanTimeFields s 4 True = Some f \<Longrightarrow>
      tf_hasFrac f \<Longrightarrow> \<not> tf_fracLastIsZero f \<Longrightarrow> readTime nd True = read_fields_time f (int (tf_year f)) (int (tf_ms f))"
  using assms by (simp_all add: readTime_def expectPrimitive_def content_of_def text_back read_fields_time_def)

lemma year_two: "1950 \<le> y \<Longrightarrow> y \<le> 2049 \<Longrightarrow> int (nat (y mod 100)) + (if nat (y mod 100) < 50 then 2000 else 1900) = y"
proof -
  assume y: "1950 \<le> y" "y \<le> 2049"
  have "y mod 100 = (if y < 2000 then y - 1900 else y - 2000)"
  proof (cases "y < 2000")
    case True
    then have "(y - 1900) mod 100 = y - 1900" using y by (intro mod_pos_pos_trivial) auto
    moreover have "(y - 1900) mod 100 = y mod 100" using mod_diff_right_eq[of y 1900 100] by simp
    ultimately show ?thesis using True by simp
  next
    case False
    then have "(y - 2000) mod 100 = y - 2000" using y by (intro mod_pos_pos_trivial) auto
    moreover have "(y - 2000) mod 100 = y mod 100" using mod_diff_right_eq[of y 2000 100] by simp
    ultimately show ?thesis using False by simp
  qed
  then show ?thesis using y by auto
qed

lemma year_len_24: "year_len 2" "year_len 4"
  by (simp_all add: year_len_def)

lemma read_fields_of:
  assumes "0 \<le> utc_year t" "utc_year t \<le> 9999"
  shows "read_fields_time (fields_of t y) (utc_year t) 0 = Inr (t - utc_ms t)"
  using date_of_fields_of[OF assms, of 0 y] by (simp add: read_fields_time_def)

lemma utc_build_read:
  assumes "build_utcTime (Some t) = Inr der" and "length der \<le> DER_MAX_BYTES"
  shows "\<exists>nd. decode der no_opts = Inr nd \<and> readTime nd b = Inr (t - utc_ms t)"
proof -
  define f where "f = fields_of t (nat (utc_year t mod 100))"
  obtain s where s: "utcTimeString (Some t) = Inr s" and u: "universal TAG_UTC_TIME False (latin1_encode s) = Inr der"
    using assms(1) by (auto simp: build_utcTime_def res_simps)
  have y: "1950 \<le> utc_year t" "utc_year t \<le> 2049" and tx: "s = fields_text 2 f @ [90]"
    using s unfolding utc_text f_def by auto
  have "nat (utc_year t mod 100) < 10 ^ 2" by (simp add: nat_less_iff)
  then have small: "fields_small 2 f" unfolding f_def by (rule fields_of_small)
  have scan: "scanTimeFields s 2 False = Some f"
    using small by (simp add: scan_plain year_len_24 tx) (simp add: f_def fields_of_def)
  have asc: "\<forall>c \<in> set s. c < 256" using fields_text_ascii[OF year_len_24(1) small] by (simp add: tx)
  obtain nd where nd: "decode der no_opts = Inr nd" "tagClass nd = Universal" "\<not> constructed nd"
    "tagNumber nd = TAG_UTC_TIME" "content nd = Some (latin1_encode s)"
    using universal_decodes[OF u _ assms(2)] by (auto simp: primitive_tag_def constructed_only_set)
  have "tf_year f = nat (utc_year t mod 100)" by (simp add: f_def fields_of_def)
  then have "readTime nd b = read_fields_time f (utc_year t) 0"
    using readTime_node(1)[OF nd(2,3,5) asc nd(4) scan, of b] year_two[OF y] by simp
  then show ?thesis using nd(1) read_fields_of[of t] y by (simp add: f_def)
qed

lemma generalized_build_read:
  assumes "build_generalizedTime (Some t) frac = Inr der" and "length der \<le> DER_MAX_BYTES" and "frac \<longrightarrow> b"
  shows "\<exists>nd. decode der no_opts = Inr nd \<and> readTime nd b = Inr (if frac then t else t - utc_ms t)"
proof -
  define f where "f = fields_of t (nat (utc_year t))"
  let ?fr = "if frac then fractionString (nat (utc_ms t)) else []"
  obtain s where s: "generalizedTimeString (Some t) frac = Inr s"
    and u: "universal TAG_GENERALIZED_TIME False (latin1_encode s) = Inr der"
    using assms(1) by (auto simp: build_generalizedTime_def res_simps)
  have y: "0 \<le> utc_year t" "utc_year t \<le> 9999" and tx: "s = fields_text 4 f @ ?fr @ [90]"
    using s unfolding generalized_text f_def by auto
  have "nat (utc_year t) < 10 ^ 4" using y by (simp add: nat_less_iff)
  then have small: "fields_small 4 f" unfolding f_def by (rule fields_of_small)
  have ms: "0 \<le> utc_ms t" "utc_ms t \<le> 999" using utc_fields_ok(2)[of t] by (auto simp: clock_ok_def)
  have fy: "int (tf_year f) = utc_year t" "\<not> tf_hasFrac f" using y by (simp_all add: f_def fields_of_def)
  obtain nd where nd: "decode der no_opts = Inr nd" "tagClass nd = Universal" "\<not> constructed nd"
    "tagNumber nd = TAG_GENERALIZED_TIME" "content nd = Some (latin1_encode s)"
    using universal_decodes[OF u _ assms(2)] by (auto simp: primitive_tag_def constructed_only_set)
  note asc4 = fields_text_ascii[OF year_len_24(2) small]
  show ?thesis
  proof (cases "?fr = []")
    case True
    then have s': "s = fields_text 4 f @ [90]" by (simp add: tx)
    then have scan: "scanTimeFields s 4 False = Some f"
      using small by (simp add: scan_plain year_len_24) (simp add: f_def fields_of_def)
    have asc: "\<forall>c \<in> set s. c < 256" using asc4 by (simp add: s')
    have "readTime nd b = Inr (t - utc_ms t)"
      using readTime_node(2)[OF nd(2,3,5) asc nd(4) scan fy(2), of b] fy(1) read_fields_of[OF y] by (simp add: f_def)
    moreover have "frac \<longrightarrow> utc_ms t = 0" using True ms by (auto simp: fractionString_def Let_def split: if_splits)
    ultimately show ?thesis using nd(1) by auto
  next
    case False
    let ?ms = "nat (utc_ms t)"
    have fr: "frac" "b" "?ms \<noteq> 0" "?ms < 1000"
      using False assms(3) ms by (auto simp: fractionString_def split: if_splits)
    have s': "s = fields_text 4 f @ fractionString ?ms @ [90]" using tx fr by simp
    define g where "g = f\<lparr>tf_hasFrac := True, tf_ms := ?ms, tf_fracLastIsZero := False\<rparr>"
    obtain r where fs: "fractionString ?ms = 46 # r" "r \<noteq> []"
    proof -
      obtain a b c where abc: "?ms = (a * 10 + b) * 10 + c" "a < 10" "b < 10" "c < 10" using three_digits[OF fr(4)] by blast
      have "(a * 10 + b) * 10 + c \<noteq> 0" using fr(3)[unfolded abc(1)] .
      from fraction_digits[OF abc(2-4) this] show ?thesis
        using that unfolding abc(1) by (auto split: if_splits)
    qed
    have l14: "length (fields_text 4 f) = 14" using length_fields_text[OF year_len_24(2)] by simp
    have no_plain: "scanTimeFields s 4 False = None"
    proof (rule ccontr)
      assume "scanTimeFields s 4 False \<noteq> None"
      then obtain h where "scanTimeFields s 4 False = Some h" by auto
      then have "length s = 15" using length_fields_text[OF year_len_24(2), of h] by (auto simp: scan_plain year_len_24)
      then show False using fs l14 by (simp add: s')
    qed
    have sf: "scanFraction s 14 = Some (?ms, False, 14 + length (fractionString ?ms))"
      unfolding s' by (rule scanFraction_text[OF fr(4,3) l14])
    have pos: "14 + length (fractionString ?ms) + 1 = length s" "char_at s (14 + length (fractionString ?ms)) = Some 90"
      using l14 char_at_mid[of "fields_text 4 f @ fractionString ?ms" 90 "[]"] by (simp_all add: s')
    have hd: "scan_head s 4 = Some (tf_year f, tf_month f, tf_day f, tf_hour f, tf_min f, tf_sec f)"
      unfolding s' by (rule scan_head_text[OF year_len_24(2) small])
    have g: "g = \<lparr>tf_year = tf_year f, tf_month = tf_month f, tf_day = tf_day f, tf_hour = tf_hour f, tf_min = tf_min f,
        tf_sec = tf_sec f, tf_hasFrac = True, tf_ms = ?ms, tf_fracLastIsZero = False\<rparr>" by (simp add: g_def)
    have scan: "scanTimeFields s 4 True = Some g"
      unfolding scanTimeFields_head hd g using sf pos by simp
    have asc: "\<forall>c \<in> set s. c < 256"
    proof -
      have "\<forall>c \<in> set (fractionString ?ms). c < 256"
      proof -
        obtain a b c where abc: "?ms = (a * 10 + b) * 10 + c" "a < 10" "b < 10" "c < 10" using three_digits[OF fr(4)] by blast
        have "(a * 10 + b) * 10 + c \<noteq> 0" using fr(3)[unfolded abc(1)] .
        from fraction_digits[OF abc(2-4) this] show ?thesis unfolding abc(1) using abc(2-4) by auto
      qed
      then show ?thesis using asc4 by (auto simp: s')
    qed
    have "readTime nd True = read_fields_time g (int (tf_year g)) (int (tf_ms g))"
      by (rule readTime_node(3)[OF nd(2,3,5) asc nd(4) no_plain scan]) (simp_all add: g_def)
    also have "\<dots> = date_of_fields (utc_year t) (int (tf_month f)) (int (tf_day f)) (int (tf_hour f)) (int (tf_min f)) (int (tf_sec f)) (utc_ms t)"
      using fy(1) ms by (simp add: read_fields_time_def g_def)
    also have "\<dots> = Inr t" using date_of_fields_of[OF y ms] by (simp add: f_def)
    finally show ?thesis using nd(1) fr by auto
  qed
qed

section \<open>A concrete time\<close>

definition epoch_sample :: bytes where
  "epoch_sample = [0x17, 0x0D, 0x37, 0x30, 0x30, 0x31, 0x30, 0x31, 0x30, 0x30, 0x30, 0x30, 0x30, 0x30, 0x5A]"

definition epoch_node :: node where
  "epoch_node = Node Universal False 23 0 2 15 (Some (drop 2 epoch_sample)) None epoch_sample False"

lemma months_1970: "filter (\<lambda>m. month_start False m \<le> 0) [1..<12] = []"
  unfolding upt_12 by (simp add: month_start_values)

lemma epoch_getters: "utc_year 0 = 1970" "utc_month 0 = 0" "utc_date 0 = 1" "utc_hours 0 = 0" "utc_minutes 0 = 0"
  "utc_seconds 0 = 0" "utc_ms 0 = 0"
  using months_1970
  by (simp_all add: utc_year_def utc_month_def utc_date_def utc_hours_def utc_minutes_def utc_seconds_def utc_ms_def
      civil_of_day_def year_of_day_def day_from_year_def leap_def month_of_def month_start_values Let_def)

lemma epoch_decodes: "decode epoch_sample no_opts = Inr epoch_node"
  unfolding decode_Inr_iff
  by (simp add: caps_no_opts counter_Inr decoder_eval no_opts_def epoch_sample_def epoch_node_def
      DER_MAX_BYTES_def DER_MAX_DEPTH_def DER_MAX_ITEMS_def)

lemma epoch_builds: "build_utcTime (Some 0) = Inr epoch_sample"
  by (simp add: build_utcTime_def utcTimeString_def epoch_getters fmtTwo_def digits_of.simps latin1_encode_def
      universal_def encodeTLV_def contentBytes_def encodeIdentifier_def encodeLength_def epoch_sample_def
      reservedUniversalTag_def constructed_only_set to_int32_def)

lemma epoch_reads: "readTime epoch_node False = Inr 0"
  using utc_build_read[OF epoch_builds, of False] epoch_decodes
  by (auto simp: epoch_sample_def DER_MAX_BYTES_def epoch_getters)

text \<open>C8: a Date written as a DER time reads back as the same instant: to the second through
  \<open>build.utcTime\<close> (1950 to 2049) and \<open>build.generalizedTime\<close>, to the millisecond with the fractional
  option on both sides.\<close>

theorem time_build_read:
  assumes "length der \<le> DER_MAX_BYTES"
  shows "(build_utcTime (Some t) = Inr der \<longrightarrow>
      (\<exists>nd. decode der no_opts = Inr nd \<and> readTime nd b = Inr (t - utc_ms t))) \<and>
    (build_generalizedTime (Some t) False = Inr der \<longrightarrow>
      (\<exists>nd. decode der no_opts = Inr nd \<and> readTime nd b = Inr (t - utc_ms t))) \<and>
    (build_generalizedTime (Some t) True = Inr der \<longrightarrow>
      (\<exists>nd. decode der no_opts = Inr nd \<and> readTime nd True = Inr t))"
  using utc_build_read[OF _ assms] generalized_build_read[OF _ assms, where frac = False]
    generalized_build_read[OF _ assms, where frac = True and b = True] by auto

theorem time_build_read_witness:
  "\<exists>nd. decode epoch_sample no_opts = Inr nd \<and> readTime nd True = Inr 0"
proof -
  have "length epoch_sample \<le> DER_MAX_BYTES" by (simp add: epoch_sample_def DER_MAX_BYTES_def)
  from time_build_read[OF this, of 0 True] show ?thesis using epoch_builds epoch_getters by simp
qed

text \<open>The converse: a strictly accepted time is the one encoding the builder writes.\<close>

lemma latin1_back: "latin1_encode (latin1_decode c) = c"
  by (induction c) (simp_all add: latin1_encode_def latin1_decode_def)

lemma fields_of_read:
  assumes "read_fields_time f y 0 = Inr t" "\<not> tf_hasFrac f" "tf_ms f = 0" "\<not> tf_fracLastIsZero f"
  shows "utc_year t = y" "utc_ms t = 0" "fields_of t (tf_year f) = f"
proof -
  note d = date_of_fields_sound[OF assms(1)[unfolded read_fields_time_def], simplified]
  show "utc_year t = y" "utc_ms t = 0" using d by auto
  show "fields_of t (tf_year f) = f" using d assms(2-) by (cases f) (auto simp: fields_of_def)
qed

lemma readTime_strict_utc:
  assumes "readTime nd False = Inr t" and "tagNumber nd = TAG_UTC_TIME" and "content nd = Some c"
  shows "utcTimeString (Some t) = Inr (latin1_decode c)"
proof -
  obtain f where f: "scanTimeFields (latin1_decode c) 2 False = Some f"
    and r: "read_fields_time f (int (tf_year f) + (if tf_year f < 50 then 2000 else 1900)) 0 = Inr t"
    using assms by (auto simp: readTime_def res_simps content_of_def read_fields_time_def Let_def split: if_splits option.splits)
  have s: "fields_small 2 f" "latin1_decode c = fields_text 2 f @ [90]"
    and z: "\<not> tf_hasFrac f" "tf_ms f = 0" "\<not> tf_fracLastIsZero f"
    using f by (auto simp: scan_plain year_len_24)
  note g = fields_of_read[OF r z]
  have y: "tf_year f < 100" using s by (simp add: fields_small_def)
  then have "int (tf_year f) + (if tf_year f < 50 then 2000 else 1900) = utc_year t" "1950 \<le> utc_year t" "utc_year t \<le> 2049"
    using g(1) by auto
  moreover have "(int (tf_year f) + (if tf_year f < 50 then 2000 else 1900)) mod 100 = int (tf_year f)"
  proof -
    have "(int (tf_year f) + k * 100) mod 100 = int (tf_year f)" for k using y by simp
    from this[of 20] this[of 19] show ?thesis by simp
  qed
  ultimately have "nat (utc_year t mod 100) = tf_year f" "1950 \<le> utc_year t" "utc_year t \<le> 2049" by simp_all
  then show ?thesis unfolding utc_text using g(3) s(2) by simp
qed

lemma readTime_strict_generalized:
  assumes "readTime nd False = Inr t" and "tagNumber nd = TAG_GENERALIZED_TIME" and "content nd = Some c"
  shows "generalizedTimeString (Some t) b = Inr (latin1_decode c)"
proof -
  have ne: "TAG_GENERALIZED_TIME \<noteq> TAG_UTC_TIME" by simp
  obtain f where f: "scanTimeFields (latin1_decode c) 4 False = Some f"
    and r: "date_of_fields (int (tf_year f)) (int (tf_month f)) (int (tf_day f)) (int (tf_hour f)) (int (tf_min f))
        (int (tf_sec f)) (if tf_hasFrac f then int (tf_ms f) else 0) = Inr t"
    using assms ne by (auto simp: readTime_def res_simps content_of_def Let_def split: if_splits option.splits)
  have s: "fields_small 4 f" "latin1_decode c = fields_text 4 f @ [90]"
    and z: "\<not> tf_hasFrac f" "tf_ms f = 0" "\<not> tf_fracLastIsZero f"
    using f by (auto simp: scan_plain year_len_24)
  have "read_fields_time f (int (tf_year f)) 0 = Inr t" using r z by (simp add: read_fields_time_def)
  note g = fields_of_read[OF this z]
  have "tf_year f < 10000" using s by (simp add: fields_small_def)
  then have "0 \<le> utc_year t" "utc_year t \<le> 9999" "nat (utc_year t) = tf_year f" using g(1) by auto
  then show ?thesis unfolding generalized_text using g s(2) by (simp add: fractionString_def)
qed

lemma readTime_tag: "readTime nd b = Inr t \<Longrightarrow> tagClass nd = Universal \<and> \<not> constructed nd \<and>
    (\<exists>c. content nd = Some c) \<and> (tagNumber nd = TAG_UTC_TIME \<or> tagNumber nd = TAG_GENERALIZED_TIME)"
  by (auto simp: readTime_def res_simps content_of_def expectPrimitive_def Let_def split: if_splits option.splits)

text \<open>C9: reading is injective on accepted DER: a buffer the strict decoder and strict \<open>read.time\<close>
  accept (no fractional seconds) is byte for byte what the matching builder writes for the Date read,
  so no two encodings stand for one instant within a type.\<close>

theorem time_read_build:
  assumes "decode buf no_opts = Inr nd" and "readTime nd False = Inr t"
  shows "(tagNumber nd = TAG_UTC_TIME \<and> build_utcTime (Some t) = Inr buf) \<or>
    (tagNumber nd = TAG_GENERALIZED_TIME \<and> build_generalizedTime (Some t) b = Inr buf)"
proof -
  obtain c where n: "tagClass nd = Universal" "\<not> constructed nd" "content nd = Some c"
    and tag: "tagNumber nd = TAG_UTC_TIME \<or> tagNumber nd = TAG_GENERALIZED_TIME"
    using readTime_tag[OF assms(2)] by auto
  have u: "universal (tagNumber nd) False c = Inr buf" by (rule decoded_primitive[OF assms(1) n])
  from tag show ?thesis
  proof
    assume t: "tagNumber nd = TAG_UTC_TIME"
    then show ?thesis using readTime_strict_utc[OF assms(2) t n(3)] u
      by (simp add: build_utcTime_def latin1_back)
  next
    assume t: "tagNumber nd = TAG_GENERALIZED_TIME"
    then show ?thesis using readTime_strict_generalized[OF assms(2) t n(3), of b] u
      by (simp add: build_generalizedTime_def latin1_back)
  qed
qed

theorem time_read_build_witness: "build_utcTime (Some 0) = Inr epoch_sample"
  using time_read_build[OF epoch_decodes epoch_reads] by (auto simp: epoch_node_def)

text \<open>An invalid Date passes the year bounds of both builders (every comparison with NaN is false),
  and the text they write is one that \<open>read.time\<close> refuses.\<close>

lemma invalid_date_text: "replicate 5 x = [x, x, x, x, x]" "replicate 6 x = [x, x, x, x, x, x]"
  by (simp_all add: eval_nat_numeral)

lemma invalid_date_written: "\<exists>s g. utcTimeString None = Inr s \<and> scanTimeFields s 2 False = None \<and>
    generalizedTimeString None False = Inr g \<and> scanTimeFields g 4 False = None"
  by (simp add: utcTimeString_def generalizedTimeString_def scanTimeFields_def digitsToInt_def js_lit_def invalid_date_text)

end
