(* ===== verification/Merkle.thy ===== *)
theory Merkle
  imports Limits Ranges Guard_List "HOL-Library.While_Combinator"
begin

text \<open>
  lib/merkle.js: RFC 6962 tree hashes, the producers of inclusion and consistency proofs, and their
  verifiers.  SHA-256 is Node's, so it is the parameter \<open>H\<close> of every definition; what the proofs
  use of it is its output length (\<open>hash32\<close>) and, for soundness, that it has no collision among the
  inputs that the tree and the verifier hash.  Tree coordinates (BigInt) are \<open>nat\<close> once checked.
\<close>

section \<open>Checked inputs\<close>

definition SHA256_BYTES :: nat where "SHA256_BYTES = 32"

definition toBuffer :: "js \<Rightarrow> bytes res" where
  "toBuffer v = (case v of Buf b \<Rightarrow> Inr b | _ \<Rightarrow> Inl (MerkleE Merkle_bad_input))"

definition node32 :: "js \<Rightarrow> bytes res" where
  "node32 v = (case v of
      Buf b \<Rightarrow> if length b \<noteq> SHA256_BYTES then Inl (MerkleE Merkle_bad_hash_length) else Inr b
    | _ \<Rightarrow> Inl (MerkleE Merkle_bad_input))"

definition coerceCoord :: "js \<Rightarrow> nat res" where
  "coerceCoord v = bindR (range_uint64 v (MerkleE Merkle_bad_input)) (\<lambda>n. Inr (nat n))"

definition proofNodes :: "js \<Rightarrow> bytes list res" where
  "proofNodes proof = (case proof of
      Arr xs \<Rightarrow> copyMap xs node32 (\<lambda>n.
        if n > MERKLE_MAX_PROOF_NODES then Inl (MerkleE Merkle_proof_too_large) else Inr ())
    | _ \<Rightarrow> Inl (MerkleE Merkle_bad_proof))"

definition leafArray :: "js \<Rightarrow> bytes list res" where
  "leafArray v = (case v of
      Arr xs \<Rightarrow> copyMap xs node32 (\<lambda>n.
        if n > MERKLE_MAX_LEAVES then Inl (MerkleE Merkle_too_many_leaves) else Inr ())
    | _ \<Rightarrow> Inl (MerkleE Merkle_bad_input))"

section \<open>Tree hashes\<close>

definition leafHash :: "(bytes \<Rightarrow> bytes) \<Rightarrow> js \<Rightarrow> bytes res" where
  "leafHash H entry = bindR (toBuffer entry) (\<lambda>e. Inr (H (0 # e)))"

definition nodeHash :: "(bytes \<Rightarrow> bytes) \<Rightarrow> js \<Rightarrow> js \<Rightarrow> bytes res" where
  "nodeHash H left right = bindR (node32 left) (\<lambda>l. bindR (node32 right) (\<lambda>r. Inr (H (1 # l @ r))))"

definition emptyRootHash :: "(bytes \<Rightarrow> bytes) \<Rightarrow> bytes" where
  "emptyRootHash H = H []"

definition splitPoint :: "nat \<Rightarrow> nat" where
  "splitPoint n = while (\<lambda>k. k * 2 < n) (\<lambda>k. k * 2) 1"

lemma splitPoint_power: "2 \<le> n \<Longrightarrow> \<exists>j. splitPoint n = 2 ^ j \<and> 2 ^ j < n \<and> n \<le> 2 ^ Suc j"
  unfolding splitPoint_def
proof (rule while_rule[where P = "\<lambda>k. k < n \<and> (\<exists>j. k = 2 ^ j)" and r = "measure (\<lambda>k. n - k)"], goal_cases)
  case (2 s)
  then obtain j where "s = 2 ^ j" by blast
  then have "s * 2 = 2 ^ Suc j" by simp
  then show ?case using 2 by blast
next
  case (3 s)
  then obtain j where j: "s = 2 ^ j" "s < n" "\<not> s * 2 < n" by blast
  then show ?case by (auto simp: not_less mult.commute)
next
  case (5 s)
  then show ?case by (auto intro: diff_less_mono2)
qed (auto intro: exI[of _ 0] zero_less_power)

lemma splitPoint_bounds [simp]: "2 \<le> n \<Longrightarrow> 0 < splitPoint n" "2 \<le> n \<Longrightarrow> splitPoint n < n"
  using splitPoint_power[of n] by auto

lemma split_range: "\<not> hi \<le> lo \<Longrightarrow> hi - lo \<noteq> 1 \<Longrightarrow> 0 < splitPoint (hi - lo) \<and> splitPoint (hi - lo) < hi - lo"
  by simp

lemma split_range2: "\<not> hi - lo \<le> Suc 0 \<Longrightarrow> 0 < splitPoint (hi - lo) \<and> splitPoint (hi - lo) < hi - lo"
  by simp

lemma power_bracket: "(2::nat) ^ i < n \<Longrightarrow> n \<le> 2 ^ Suc j \<Longrightarrow> i \<le> j"
proof -
  assume "(2::nat) ^ i < n" "n \<le> 2 ^ Suc j"
  then have "(2::nat) ^ i < 2 ^ Suc j" by linarith
  then have "i < Suc j" by (rule power_less_imp_less_exp[rotated]) simp
  then show ?thesis by simp
qed

lemma splitPoint_eq: "2 ^ j < n \<Longrightarrow> n \<le> 2 ^ Suc j \<Longrightarrow> splitPoint n = 2 ^ j"
proof -
  assume n: "2 ^ j < n" "n \<le> 2 ^ Suc j"
  have "1 \<le> (2::nat) ^ j" by simp
  then have "2 \<le> n" using n(1) by linarith
  then obtain i where i: "splitPoint n = 2 ^ i" "2 ^ i < n" "n \<le> 2 ^ Suc i" using splitPoint_power by blast
  have "i = j" using power_bracket[OF i(2) n(2)] power_bracket[OF n(1) i(3)] by simp
  then show ?thesis using i by simp
qed

text \<open>
  \<open>_mth(leaves, lo, hi)\<close>, \<open>_path\<close> and \<open>_subproof\<close>.  The callers pass \<open>lo < hi \<le> length leaves\<close>; on an
  empty range the code recurses without end and the language raises its RangeError.
\<close>

function mth :: "(bytes \<Rightarrow> bytes) \<Rightarrow> bytes list \<Rightarrow> nat \<Rightarrow> nat \<Rightarrow> bytes res" where
  "mth H leaves lo hi =
     (if hi \<le> lo then Inl RangeErr
      else if hi - lo = 1 then Inr (leaves ! lo)
      else let k = splitPoint (hi - lo) in
        bindR (mth H leaves lo (lo + k)) (\<lambda>l. bindR (mth H leaves (lo + k) hi) (\<lambda>r.
          nodeHash H (Buf l) (Buf r))))"
  by pat_completeness auto
termination
  by (relation "measure (\<lambda>(H, leaves, lo, hi). hi - lo)") (auto dest: split_range)

function path :: "(bytes \<Rightarrow> bytes) \<Rightarrow> bytes list \<Rightarrow> nat \<Rightarrow> nat \<Rightarrow> nat \<Rightarrow> bytes list res" where
  "path H leaves lo hi m =
     (if hi \<le> lo then Inl RangeErr
      else if hi - lo = 1 then Inr []
      else let k = splitPoint (hi - lo) in
        if m < k then bindR (path H leaves lo (lo + k) m) (\<lambda>p. bindR (mth H leaves (lo + k) hi) (\<lambda>x. Inr (p @ [x])))
        else bindR (path H leaves (lo + k) hi (m - k)) (\<lambda>p. bindR (mth H leaves lo (lo + k)) (\<lambda>x. Inr (p @ [x]))))"
  by pat_completeness auto
termination
  by (relation "measure (\<lambda>(H, leaves, lo, hi, m). hi - lo)") (auto dest: split_range)


function subproof :: "(bytes \<Rightarrow> bytes) \<Rightarrow> bytes list \<Rightarrow> nat \<Rightarrow> nat \<Rightarrow> nat \<Rightarrow> bool \<Rightarrow> bytes list res" where
  "subproof H leaves lo hi m b =
     (if lo \<le> hi \<and> m = hi - lo then (if b then Inr [] else bindR (mth H leaves lo hi) (\<lambda>x. Inr [x]))
      else if hi - lo \<le> 1 then Inl RangeErr
      else let k = splitPoint (hi - lo) in
        if m \<le> k then bindR (subproof H leaves lo (lo + k) m b) (\<lambda>p. bindR (mth H leaves (lo + k) hi) (\<lambda>x. Inr (p @ [x])))
        else bindR (subproof H leaves (lo + k) hi (m - k) False) (\<lambda>p. bindR (mth H leaves lo (lo + k)) (\<lambda>x. Inr (p @ [x]))))"
  by pat_completeness auto
termination
  by (relation "measure (\<lambda>(H, leaves, lo, hi, m, b). hi - lo)") (auto dest: split_range2)

declare mth.simps [simp del] path.simps [simp del] subproof.simps [simp del]

definition root :: "(bytes \<Rightarrow> bytes) \<Rightarrow> js \<Rightarrow> bytes res" where
  "root H leafHashes = bindR (leafArray leafHashes) (\<lambda>leaves.
     if length leaves = 0 then Inr (emptyRootHash H) else mth H leaves 0 (length leaves))"

section \<open>Verifying an inclusion proof\<close>

text \<open>\<open>do { fn >>= 1n; sn >>= 1n; } while ((fn & 1n) === 0n && fn !== 0n)\<close>\<close>

fun skip_zeros :: "nat \<Rightarrow> nat \<Rightarrow> nat \<times> nat" where
  "skip_zeros fn sn =
     (if even (fn div 2) \<and> fn div 2 \<noteq> 0 then skip_zeros (fn div 2) (sn div 2) else (fn div 2, sn div 2))"

declare skip_zeros.simps [simp del]

fun inclusion_loop :: "(bytes \<Rightarrow> bytes) \<Rightarrow> nat \<Rightarrow> nat \<Rightarrow> bytes \<Rightarrow> bytes list \<Rightarrow> (nat \<times> bytes) res" where
  "inclusion_loop H fn sn r [] = Inr (sn, r)"
| "inclusion_loop H fn sn r (p # ps) =
     (if sn = 0 then Inl (MerkleE Merkle_bad_proof_length)
      else if odd fn \<or> fn = sn then bindR (nodeHash H (Buf p) (Buf r)) (\<lambda>r'.
        let (fn', sn') = (if even fn then skip_zeros fn sn else (fn, sn)) in
        inclusion_loop H (fn' div 2) (sn' div 2) r' ps)
      else bindR (nodeHash H (Buf r) (Buf p)) (\<lambda>r'. inclusion_loop H (fn div 2) (sn div 2) r' ps))"

definition constantTimeEqual :: "bytes \<Rightarrow> bytes \<Rightarrow> bool" where
  "constantTimeEqual a b \<longleftrightarrow> length a = length b \<and> a = b"

definition verifyInclusion :: "(bytes \<Rightarrow> bytes) \<Rightarrow> bag \<Rightarrow> bool res" where
  "verifyInclusion H opts =
     bindR (assertKnownKeys opts [''leafIndex'', ''treeSize'', ''leafHash'', ''rootHash'', ''proof'']
              (MerkleE Merkle_bad_input)) (\<lambda>_.
     bindR (coerceCoord (option_of opts ''leafIndex'')) (\<lambda>leafIndex.
     bindR (coerceCoord (option_of opts ''treeSize'')) (\<lambda>treeSize.
     if treeSize = 0 then Inl (MerkleE Merkle_empty_tree)
     else if leafIndex \<ge> treeSize then Inl (MerkleE Merkle_index_out_of_range)
     else bindR (node32 (option_of opts ''leafHash'')) (\<lambda>lh.
     bindR (node32 (option_of opts ''rootHash'')) (\<lambda>rootHash.
     bindR (proofNodes (option_of opts ''proof'')) (\<lambda>proof.
     bindR (inclusion_loop H leafIndex (treeSize - 1) lh proof) (\<lambda>(sn, r).
     if sn \<noteq> 0 then Inl (MerkleE Merkle_bad_proof_length) else Inr (constantTimeEqual r rootHash))))))))"

section \<open>Verifying a consistency proof\<close>

text \<open>\<open>while ((fn & 1n) === 1n) { fn >>= 1n; sn >>= 1n; }\<close>\<close>

function strip_ones :: "nat \<Rightarrow> nat \<Rightarrow> nat \<times> nat" where
  "strip_ones fn sn = (if odd fn then strip_ones (fn div 2) (sn div 2) else (fn, sn))"
  by pat_completeness auto
termination
  by (relation "measure fst") (auto elim!: oddE)

declare strip_ones.simps [simp del]

fun consistency_loop :: "(bytes \<Rightarrow> bytes) \<Rightarrow> nat \<Rightarrow> nat \<Rightarrow> bytes \<Rightarrow> bytes \<Rightarrow> bytes list \<Rightarrow> (nat \<times> bytes \<times> bytes) res" where
  "consistency_loop H fn sn fr sr [] = Inr (sn, fr, sr)"
| "consistency_loop H fn sn fr sr (c # cs) =
     (if sn = 0 then Inl (MerkleE Merkle_bad_proof_length)
      else if odd fn \<or> fn = sn then bindR (nodeHash H (Buf c) (Buf fr)) (\<lambda>fr'. bindR (nodeHash H (Buf c) (Buf sr)) (\<lambda>sr'.
        let (fn', sn') = (if even fn then skip_zeros fn sn else (fn, sn)) in
        consistency_loop H (fn' div 2) (sn' div 2) fr' sr' cs))
      else bindR (nodeHash H (Buf sr) (Buf c)) (\<lambda>sr'. consistency_loop H (fn div 2) (sn div 2) fr sr' cs))"

definition verifyConsistency :: "(bytes \<Rightarrow> bytes) \<Rightarrow> bag \<Rightarrow> bool res" where
  "verifyConsistency H opts =
     bindR (assertKnownKeys opts [''oldSize'', ''newSize'', ''oldRoot'', ''newRoot'', ''proof'']
              (MerkleE Merkle_bad_input)) (\<lambda>_.
     bindR (coerceCoord (option_of opts ''oldSize'')) (\<lambda>oldSize.
     bindR (coerceCoord (option_of opts ''newSize'')) (\<lambda>newSize.
     bindR (node32 (option_of opts ''oldRoot'')) (\<lambda>oldRoot.
     bindR (node32 (option_of opts ''newRoot'')) (\<lambda>newRoot.
     bindR (proofNodes (option_of opts ''proof'')) (\<lambda>proof.
     if oldSize > newSize then Inl (MerkleE Merkle_old_size_exceeds_new)
     else if oldSize = 0 then
       (let er = emptyRootHash H in
        if newSize = 0 then
          (if length proof \<noteq> 0 then Inl (MerkleE Merkle_bad_proof_length)
           else Inr (constantTimeEqual oldRoot er \<and> constantTimeEqual newRoot er))
        else Inl (MerkleE Merkle_no_consistency_claim))
     else if oldSize = newSize then
       (if length proof \<noteq> 0 then Inl (MerkleE Merkle_sizes_equal_nonempty_proof)
        else Inr (constantTimeEqual oldRoot newRoot))
     else if length proof = 0 then Inl (MerkleE Merkle_empty_consistency_proof)
     else
       let pth = (if oldSize AND (oldSize - 1) = 0 then oldRoot # proof else proof);
           (fn, sn) = strip_ones (oldSize - 1) (newSize - 1)
       in bindR (consistency_loop H fn sn (hd pth) (hd pth) (tl pth)) (\<lambda>(sn', fr, sr).
          if sn' \<noteq> 0 then Inl (MerkleE Merkle_bad_proof_length)
          else Inr (constantTimeEqual fr oldRoot \<and> constantTimeEqual sr newRoot))))))))"

section \<open>Producing proofs\<close>

definition inclusionProof :: "(bytes \<Rightarrow> bytes) \<Rightarrow> bag \<Rightarrow> bytes list res" where
  "inclusionProof H opts =
     bindR (assertKnownKeys opts [''leafHashes'', ''leafIndex''] (MerkleE Merkle_bad_input)) (\<lambda>_.
     bindR (leafArray (option_of opts ''leafHashes'')) (\<lambda>leaves.
     let n = length leaves in
     if n = 0 then Inl (MerkleE Merkle_empty_tree)
     else bindR (coerceCoord (option_of opts ''leafIndex'')) (\<lambda>leafIndex.
     bindR (range_int (Big (int leafIndex)) (Big 0) (Big (int (n - 1))) (MerkleE Merkle_index_out_of_range)) (\<lambda>m.
     path H leaves 0 n (nat m)))))"

definition consistencyProof :: "(bytes \<Rightarrow> bytes) \<Rightarrow> bag \<Rightarrow> bytes list res" where
  "consistencyProof H opts =
     bindR (assertKnownKeys opts [''leafHashes'', ''oldSize''] (MerkleE Merkle_bad_input)) (\<lambda>_.
     bindR (leafArray (option_of opts ''leafHashes'')) (\<lambda>leaves.
     let n = length leaves in
     bindR (coerceCoord (option_of opts ''oldSize'')) (\<lambda>oldSize.
     if oldSize > n then Inl (MerkleE Merkle_old_size_exceeds_new)
     else if oldSize = 0 then (if n = 0 then Inr [] else Inl (MerkleE Merkle_no_consistency_claim))
     else bindR (range_int (Big (int oldSize)) (Big 1) (Big (int n)) (MerkleE Merkle_bad_input)) (\<lambda>m.
       if nat m = n then Inr [] else subproof H leaves 0 n (nat m) True))))"

end
