(* ===== verification/Merkle_Proofs.thy ===== *)
theory Merkle_Proofs
  imports Merkle
begin

text \<open>
  lib/merkle.js against RFC 6962 section 2.1: the tree hash, audit path and consistency proof as
  functions of a list of leaves, the bottom-up verifiers as a schedule of sibling sides that the
  top-down recursion also yields, completeness of both proofs and their soundness.
\<close>

section \<open>RFC 6962\<close>

text \<open>The split of section 2.1: the largest power of two smaller than \<open>n\<close>.  It is stated for itself; that the
  doubling loop of the code finds it is \<open>splitPoint_rfc\<close>.\<close>

definition rfc_split :: "nat \<Rightarrow> nat" where
  "rfc_split n = Max {(2::nat) ^ i | i. (2::nat) ^ i < n}"

lemma powers_below: "finite {(2::nat) ^ i | i. (2::nat) ^ i < n}"
  by (rule finite_subset[of _ "{..n}"]) auto

lemma rfc_split_bounds: "2 \<le> n \<Longrightarrow> 0 < rfc_split n \<and> rfc_split n < n"
proof -
  assume n: "2 \<le> n"
  have "2 ^ 0 < n" using n by simp
  then have "{(2::nat) ^ i | i. (2::nat) ^ i < n} \<noteq> {}" by blast
  from Max_in[OF powers_below this] obtain i where "rfc_split n = 2 ^ i" "(2::nat) ^ i < n" unfolding rfc_split_def by blast
  then show ?thesis by simp
qed

lemma rfc_split_length: "\<not> n \<le> Suc 0 \<Longrightarrow> 0 < rfc_split n \<and> rfc_split n < n"
  using rfc_split_bounds[of n] by simp

lemma splitPoint_rfc: "2 \<le> n \<Longrightarrow> rfc_split n = splitPoint n"
  unfolding rfc_split_def
proof (rule Max_eqI[OF powers_below])
  assume n: "2 \<le> n"
  obtain j where j: "splitPoint n = 2 ^ j" "2 ^ j < n" "n \<le> 2 ^ Suc j" using splitPoint_power[OF n] by blast
  show "splitPoint n \<in> {(2::nat) ^ i | i. (2::nat) ^ i < n}" using j by auto
  show "y \<le> splitPoint n" if "y \<in> {(2::nat) ^ i | i. (2::nat) ^ i < n}" for y
    using that power_bracket[OF _ j(3)] j(1) by auto
qed

lemma split_length: "\<not> n \<le> Suc 0 \<Longrightarrow> 0 < splitPoint n \<and> splitPoint n < n"
  using splitPoint_bounds[of n] by simp

definition node :: "(bytes \<Rightarrow> bytes) \<Rightarrow> bytes \<Rightarrow> bytes \<Rightarrow> bytes" where
  "node H l r = H (1 # l @ r)"

function MTH :: "(bytes \<Rightarrow> bytes) \<Rightarrow> bytes list \<Rightarrow> bytes" where
  "MTH H D = (if D = [] then H [] else if length D = 1 then hd D
     else node H (MTH H (take (rfc_split (length D)) D)) (MTH H (drop (rfc_split (length D)) D)))"
  by pat_completeness auto
termination
  by (relation "measure (\<lambda>(H, D). length D)") (use rfc_split_bounds in \<open>auto simp: Suc_le_eq neq_Nil_conv\<close>)

function PATH :: "(bytes \<Rightarrow> bytes) \<Rightarrow> nat \<Rightarrow> bytes list \<Rightarrow> bytes list" where
  "PATH H m D = (if length D \<le> 1 then []
     else let k = rfc_split (length D) in
       if m < k then PATH H m (take k D) @ [MTH H (drop k D)] else PATH H (m - k) (drop k D) @ [MTH H (take k D)])"
  by pat_completeness auto
termination
  by (relation "measure (\<lambda>(H, m, D). length D)") (auto dest: rfc_split_length)

function PROOF :: "(bytes \<Rightarrow> bytes) \<Rightarrow> nat \<Rightarrow> bytes list \<Rightarrow> bool \<Rightarrow> bytes list" where
  "PROOF H m D b = (if m = length D \<or> length D \<le> 1 then (if b then [] else [MTH H D])
     else let k = rfc_split (length D) in
       if m \<le> k then PROOF H m (take k D) b @ [MTH H (drop k D)] else PROOF H (m - k) (drop k D) False @ [MTH H (take k D)])"
  by pat_completeness auto
termination
  by (relation "measure (\<lambda>(H, m, D, b). length D)") (auto dest: rfc_split_length)

declare MTH.simps [simp del] PATH.simps [simp del] PROOF.simps [simp del]

text \<open>From here on the split is the code's.\<close>

abbreviation left_half :: "'a list \<Rightarrow> 'a list" where
  "left_half D \<equiv> take (splitPoint (length D)) D"

abbreviation right_half :: "'a list \<Rightarrow> 'a list" where
  "right_half D \<equiv> drop (splitPoint (length D)) D"

lemma MTH_rec: "MTH H D = (if D = [] then H [] else if length D = 1 then hd D
    else node H (MTH H (left_half D)) (MTH H (right_half D)))"
proof (cases "2 \<le> length D")
  case True
  show ?thesis by (subst MTH.simps) (simp only: splitPoint_rfc[OF True])
next
  case False
  then have "D = [] \<or> length D = 1" by (cases D) (auto simp: Suc_le_eq)
  then show ?thesis by (subst MTH.simps) (elim disjE, simp_all)
qed

lemma PATH_rec: "PATH H m D = (if length D \<le> 1 then []
    else if m < splitPoint (length D) then PATH H m (left_half D) @ [MTH H (right_half D)]
    else PATH H (m - splitPoint (length D)) (right_half D) @ [MTH H (left_half D)])"
proof (cases "2 \<le> length D")
  case True
  show ?thesis by (subst PATH.simps) (simp only: splitPoint_rfc[OF True] Let_def)
next
  case False
  then show ?thesis by (subst PATH.simps) simp
qed

lemma PROOF_rec: "PROOF H m D b = (if m = length D \<or> length D \<le> 1 then (if b then [] else [MTH H D])
    else if m \<le> splitPoint (length D) then PROOF H m (left_half D) b @ [MTH H (right_half D)]
    else PROOF H (m - splitPoint (length D)) (right_half D) False @ [MTH H (left_half D)])"
proof (cases "2 \<le> length D")
  case True
  show ?thesis by (subst PROOF.simps) (simp only: splitPoint_rfc[OF True] Let_def)
next
  case False
  then show ?thesis by (subst PROOF.simps) simp
qed

lemma PATH_ind:
  assumes "\<And>(H :: bytes \<Rightarrow> bytes) m (D :: bytes list). (\<not> length D \<le> 1 \<Longrightarrow> m < splitPoint (length D) \<Longrightarrow> P H m (left_half D)) \<Longrightarrow>
    (\<not> length D \<le> 1 \<Longrightarrow> \<not> m < splitPoint (length D) \<Longrightarrow> P H (m - splitPoint (length D)) (right_half D)) \<Longrightarrow> P H m D"
  shows "P H m D"
proof (induction H m D rule: PATH.induct)
  case (1 H m D)
  show ?case by (rule assms) (use 1 splitPoint_rfc[of "length D"] in auto)
qed

lemma PROOF_ind:
  assumes "\<And>(H :: bytes \<Rightarrow> bytes) m (D :: bytes list) b. (\<not> (m = length D \<or> length D \<le> 1) \<Longrightarrow> m \<le> splitPoint (length D) \<Longrightarrow> P H m (left_half D) b) \<Longrightarrow>
    (\<not> (m = length D \<or> length D \<le> 1) \<Longrightarrow> \<not> m \<le> splitPoint (length D) \<Longrightarrow>
      P H (m - splitPoint (length D)) (right_half D) False) \<Longrightarrow> P H m D b"
  shows "P H m D b"
proof (induction H m D b rule: PROOF.induct)
  case (1 H m D b)
  show ?case by (rule assms) (use 1 splitPoint_rfc[of "length D"] in auto)
qed

definition hash32 :: "(bytes \<Rightarrow> bytes) \<Rightarrow> bool" where
  "hash32 H \<longleftrightarrow> (\<forall>x. length (H x) = SHA256_BYTES)"

definition hashes :: "bytes list \<Rightarrow> bool" where
  "hashes D \<longleftrightarrow> (\<forall>d \<in> set D. length d = SHA256_BYTES)"

lemma length_node [simp]: "hash32 H \<Longrightarrow> length (node H l r) = SHA256_BYTES"
  by (simp add: node_def hash32_def)

lemma hashes_parts [simp]: "hashes D \<Longrightarrow> hashes (take k D)" "hashes D \<Longrightarrow> hashes (drop k D)"
  by (auto simp: hashes_def dest: in_set_takeD in_set_dropD)

lemma hashes_append [simp]: "hashes (xs @ ys) \<longleftrightarrow> hashes xs \<and> hashes ys"
  by (auto simp: hashes_def)

lemma hashes_Cons [simp]: "hashes (x # xs) \<longleftrightarrow> length x = SHA256_BYTES \<and> hashes xs" "hashes []"
  by (auto simp: hashes_def)

lemma length_MTH [simp]: "hash32 H \<Longrightarrow> hashes D \<Longrightarrow> length (MTH H D) = SHA256_BYTES"
  by (subst MTH_rec) (auto simp: hash32_def hashes_def)

lemma hashes_PATH: "hash32 H \<Longrightarrow> hashes D \<Longrightarrow> hashes (PATH H m D)"
  by (induction H m D rule: PATH_ind) (subst PATH_rec, simp)

lemma hashes_PROOF: "hash32 H \<Longrightarrow> hashes D \<Longrightarrow> hashes (PROOF H m D b)"
  by (induction H m D b rule: PROOF_ind) (subst PROOF_rec, simp)

lemma nodeHash_node: "length l = SHA256_BYTES \<Longrightarrow> length r = SHA256_BYTES \<Longrightarrow>
    nodeHash H (Buf l) (Buf r) = Inr (node H l r)"
  by (simp add: nodeHash_def node32_def node_def)

lemma slice_halves:
  assumes "lo < hi" "hi \<le> length D" "k \<le> hi - lo"
  shows "take k (slice D lo hi) = slice D lo (lo + k)" "drop k (slice D lo hi) = slice D (lo + k) hi"
  using assms by (simp_all add: slice_def min_def drop_take add.commute)

lemma MTH_node: "2 \<le> length D \<Longrightarrow> MTH H D = node H (MTH H (left_half D)) (MTH H (right_half D))"
  by (subst MTH_rec) auto

lemma MTH_one: "MTH H [d] = d"
  by (subst MTH_rec) simp

theorem mth_MTH:
  assumes "hash32 H" "hashes D" "lo < hi" "hi \<le> length D"
  shows "mth H D lo hi = Inr (MTH H (slice D lo hi))"
  using assms
proof (induction H D lo hi rule: mth.induct)
  case (1 H D lo hi)
  let ?k = "splitPoint (hi - lo)"
  show ?case
  proof (cases "hi - lo = 1")
    case True
    then have "slice D lo hi = [D ! lo]" using 1(4-) slice_cons[of lo hi D] by (simp add: slice_def)
    then show ?thesis using True 1(5) by (simp add: mth.simps[of H D lo hi] MTH_one)
  next
    case False
    then have k: "0 < ?k" "?k < hi - lo" using 1(5) by auto
    have len: "length (slice D lo hi) = hi - lo" using 1(6) by simp
    have kl: "lo + ?k \<le> length D" using k 1(6) by linarith
    have l: "mth H D lo (lo + ?k) = Inr (MTH H (slice D lo (lo + ?k)))" using 1(3-) k kl False by (intro 1(1)) auto
    have "lo + ?k < hi" using k by linarith
    then have r: "mth H D (lo + ?k) hi = Inr (MTH H (slice D (lo + ?k) hi))" using 1(3-) False
      by (intro 1(2)[OF _ _ _ l]) auto
    have "MTH H (slice D lo hi) = node H (MTH H (slice D lo (lo + ?k))) (MTH H (slice D (lo + ?k) hi))"
      using MTH_node[of "slice D lo hi" H] slice_halves[OF 1(5,6), of ?k] len k by simp
    moreover have "hashes (slice D a b)" for a b using 1(4) by (simp add: slice_def)
    ultimately show ?thesis using 1(3-5) False l r by (subst mth.simps) (simp add: nodeHash_node Let_def)
  qed
qed

lemma path_PATH:
  assumes "hash32 H" "hashes D" "lo < hi" "hi \<le> length D" "m < hi - lo"
  shows "path H D lo hi m = Inr (PATH H m (slice D lo hi))"
  using assms
proof (induction H D lo hi m rule: path.induct)
  case (1 H D lo hi m)
  let ?k = "splitPoint (hi - lo)"
  show ?case
  proof (cases "hi - lo = 1")
    case True
    then show ?thesis using 1(5,6) by (simp add: path.simps[of H D lo hi] PATH_rec[of H m "slice D lo hi"])
  next
    case False
    then have k: "0 < ?k" "?k < hi - lo" using 1(5) by auto
    have len: "length (slice D lo hi) = hi - lo" using 1(6) by simp
    note h = slice_halves[OF 1(5,6) less_imp_le[OF k(2)]]
    have kl: "lo + ?k \<le> length D" using k 1(6) by linarith
    have l: "m < ?k \<Longrightarrow> path H D lo (lo + ?k) m = Inr (PATH H m (slice D lo (lo + ?k)))"
      using 1(3-) k kl False by (intro 1(1)) auto
    have r: "\<not> m < ?k \<Longrightarrow> path H D (lo + ?k) hi (m - ?k) = Inr (PATH H (m - ?k) (slice D (lo + ?k) hi))"
      using 1(3-) k kl False by (intro 1(2)) auto
    have n: "\<not> hi \<le> lo" "\<not> hi - lo \<le> 1" using k by linarith+
    have "mth H D (lo + ?k) hi = Inr (MTH H (slice D (lo + ?k) hi))" "mth H D lo (lo + ?k) = Inr (MTH H (slice D lo (lo + ?k)))"
      by (rule mth_MTH; use 1(3-6) k kl in linarith)+
    then show ?thesis using l r unfolding path.simps[of H D lo hi] PATH_rec[of H m "slice D lo hi"] len h
      by (simp only: n False if_False Let_def bindR.simps) simp
  qed
qed

lemma subproof_PROOF:
  assumes "hash32 H" "hashes D" "lo < hi" "hi \<le> length D" "0 < m" "m \<le> hi - lo"
  shows "subproof H D lo hi m b = Inr (PROOF H m (slice D lo hi) b)"
  using assms
proof (induction H D lo hi m b rule: subproof.induct)
  case (1 H D lo hi m b)
  let ?k = "splitPoint (hi - lo)"
  have len: "length (slice D lo hi) = hi - lo" using 1(6) by simp
  show ?case
  proof (cases "m = hi - lo")
    case True
    then show ?thesis using 1(3-6) len mth_MTH[OF 1(3-6)]
      unfolding subproof.simps[of H D lo hi] PROOF_rec[of H m "slice D lo hi"] by simp
  next
    case False
    then have n: "\<not> hi - lo \<le> 1" using 1(7,8) by linarith
    then have k: "0 < ?k" "?k < hi - lo" by simp_all
    note h = slice_halves[OF 1(5,6) less_imp_le[OF k(2)]]
    have kl: "lo + ?k \<le> length D" using k 1(6) by linarith
    have l: "m \<le> ?k \<Longrightarrow> subproof H D lo (lo + ?k) m b = Inr (PROOF H m (slice D lo (lo + ?k)) b)"
      using 1(3-) k kl n False by (intro 1(1)) auto
    have r: "\<not> m \<le> ?k \<Longrightarrow> subproof H D (lo + ?k) hi (m - ?k) False = Inr (PROOF H (m - ?k) (slice D (lo + ?k) hi) False)"
      using 1(3-) k kl n False by (intro 1(2)) auto
    have f: "\<not> (lo \<le> hi \<and> m = hi - lo)" "\<not> (m = hi - lo \<or> hi - lo \<le> 1)" using False n by auto
    have "mth H D (lo + ?k) hi = Inr (MTH H (slice D (lo + ?k) hi))" "mth H D lo (lo + ?k) = Inr (MTH H (slice D lo (lo + ?k)))"
      by (rule mth_MTH; use 1(3-6) k kl in linarith)+
    then show ?thesis using l r unfolding subproof.simps[of H D lo hi m b] PROOF_rec[of H m "slice D lo hi" b] len h
      by (simp only: f n if_False Let_def) (simp add: False)
  qed
qed

section \<open>The schedule of sibling sides\<close>

text \<open>
  Both verification loops consume one proof node per step, and whether it is hashed on the left
  (\<open>True\<close>) or on the right depends on the coordinates alone.  \<open>sched\<close> is that sequence as the loops
  compute it from the bits, \<open>sides\<close> and \<open>old_sides\<close> as the recursion of the RFC has it.
\<close>

lemma skip_zeros_le: "snd (skip_zeros fn sn) \<le> sn"
proof (induction fn sn rule: skip_zeros.induct)
  case (1 fn sn)
  then show ?case by (subst skip_zeros.simps) (auto dest: order.trans[OF _ div_le_dividend])
qed

function sched :: "nat \<Rightarrow> nat \<Rightarrow> bool list" where
  "sched fn sn = (if sn = 0 then []
     else if odd fn \<or> fn = sn then
       True # (let (fn', sn') = (if even fn then skip_zeros fn sn else (fn, sn)) in sched (fn' div 2) (sn' div 2))
     else False # sched (fn div 2) (sn div 2))"
  by pat_completeness auto
termination
proof (relation "measure snd", goal_cases)
  case (2 fn sn x a b)
  have "b \<le> sn" using 2(3,4) skip_zeros_le[of fn sn] by (cases "skip_zeros fn sn") (auto split: if_splits)
  then show ?case using 2(1) by (cases "b = 0") (auto intro: le_less_trans[OF div_le_dividend] less_le_trans[of "b div 2" b])
qed auto

declare sched.simps [simp del]

fun fold_step :: "(bytes \<Rightarrow> bytes) \<Rightarrow> bytes \<Rightarrow> bool \<times> bytes \<Rightarrow> bytes" where
  "fold_step H r (d, p) = (if d then node H p r else node H r p)"

fun fold_both :: "(bytes \<Rightarrow> bytes) \<Rightarrow> bytes \<times> bytes \<Rightarrow> bool \<times> bytes \<Rightarrow> bytes \<times> bytes" where
  "fold_both H (f, s) (d, p) = (if d then (node H p f, node H p s) else (f, node H s p))"

lemma fold_length: "hash32 H \<Longrightarrow> length r = SHA256_BYTES \<Longrightarrow> length (foldl (fold_step H) r xs) = SHA256_BYTES"
  by (induction xs arbitrary: r) auto

lemma inclusion_loop_sched:
  assumes "hash32 H" "length r = SHA256_BYTES" "hashes ps"
  shows "bindR (inclusion_loop H fn sn r ps) (\<lambda>(sn, r). if sn \<noteq> 0 then Inl (MerkleE Merkle_bad_proof_length) else Inr (f r)) =
    (if length ps = length (sched fn sn) then Inr (f (foldl (fold_step H) r (zip (sched fn sn) ps)))
     else Inl (MerkleE Merkle_bad_proof_length))"
  using assms
proof (induction fn sn arbitrary: r ps rule: sched.induct)
  case (1 fn sn)
  show ?case
  proof (cases ps)
    case Nil
    then show ?thesis by (subst (1 2) sched.simps) (auto simp: Let_def split: prod.splits)
  next
    case (Cons p qs)
    show ?thesis
    proof (cases "sn = 0")
      case True
      then show ?thesis by (simp add: Cons sched.simps[of fn])
    next
      case False
      let ?fs = "if even fn then skip_zeros fn sn else (fn, sn)"
      have n: "length (node H p r) = SHA256_BYTES" "length (node H r p) = SHA256_BYTES" "length p = SHA256_BYTES" "hashes qs"
        using 1(3-) Cons by auto
      show ?thesis
      proof (cases "odd fn \<or> fn = sn")
        case True
        obtain a b where ab: "?fs = (a, b)" by (cases ?fs)
        have s: "sched fn sn = True # sched (a div 2) (b div 2)" using False True ab by (subst sched.simps) simp
        show ?thesis using 1(1)[OF False True refl ab[symmetric] 1(3) n(1,4)] 1(3-) n ab False True
          by (simp add: Cons s nodeHash_node)
      next
        case f: False
        have s: "sched fn sn = False # sched (fn div 2) (sn div 2)" using False f by (subst sched.simps) simp
        show ?thesis using 1(2)[OF False f 1(3) n(2,4)] 1(3-) n False f
          by (simp add: Cons s nodeHash_node)
      qed
    qed
  qed
qed


lemma skip_zeros_self: "0 < f \<Longrightarrow> even f \<Longrightarrow> f < 2 ^ t \<Longrightarrow> \<exists>a u. skip_zeros f f = (a, a) \<and>
    skip_zeros (f + 2 ^ t) (f + 2 ^ t) = (a + 2 ^ u, a + 2 ^ u) \<and> a < 2 ^ u \<and> odd a \<and> a < f"
proof (induction f arbitrary: t rule: less_induct)
  case (less f)
  then obtain g where g: "f = 2 * g" "0 < g" by (auto elim!: evenE)
  then obtain u where t: "t = Suc u" using less.prems(3) by (cases t) auto
  have d: "f div 2 = g" "(f + 2 ^ t) div 2 = g + 2 ^ u" "g < 2 ^ u" "g < f" using g t less.prems(3) by auto
  show ?case
  proof (cases "odd g")
    case True
    then have "odd (g + 2 ^ u)" using d(3) by (cases u) auto
    then have "skip_zeros f f = (g, g)" "skip_zeros (f + 2 ^ t) (f + 2 ^ t) = (g + 2 ^ u, g + 2 ^ u)"
      using True by (subst skip_zeros.simps; simp only: d; simp)+
    then show ?thesis using True d by blast
  next
    case False
    have u: "even (g + 2 ^ u)" "g + 2 ^ u \<noteq> 0" using False d(3) g(2) by (cases u; simp)+
    have s: "skip_zeros f f = skip_zeros g g" "skip_zeros (f + 2 ^ t) (f + 2 ^ t) = skip_zeros (g + 2 ^ u) (g + 2 ^ u)"
      using False u g(2) by (subst skip_zeros.simps; simp only: d; simp)+
    obtain a v where "skip_zeros g g = (a, a)" "skip_zeros (g + 2 ^ u) (g + 2 ^ u) = (a + 2 ^ v, a + 2 ^ v)"
        "a < 2 ^ v" "odd a" "a < g"
      using less.IH[OF d(4) g(2) _ d(3)] False by blast
    then show ?thesis using d(4) by (auto simp: s intro!: exI[of _ v])
  qed
qed

lemma skip_zeros_power: "0 < t \<Longrightarrow> skip_zeros (2 ^ t) (2 ^ t) = (1, 1)"
proof (induction t)
  case (Suc t)
  then show ?case by (subst skip_zeros.simps) (cases t; simp)
qed simp

lemma sched_0 [simp]: "sched f 0 = []"
  by (subst sched.simps) simp

lemma sched_power: "sched (2 ^ t) (2 ^ t) = [True]"
proof (cases "t = 0")
  case True
  then show ?thesis by (simp add: sched.simps[of "Suc 0"])
next
  case False
  then show ?thesis by (simp add: sched.simps[of "2 ^ t"] skip_zeros_power)
qed

text \<open>A coordinate in the right half: the run of the right subtree, then the left half as sibling.\<close>

lemma half_sum: "(2 * g + 2 ^ Suc u) div 2 = g + (2::nat) ^ u" "(Suc (2 * g) + 2 ^ Suc u) div 2 = g + (2::nat) ^ u"
  by simp_all

lemma parity_cases:
  assumes "(x::nat) \<le> y"
  obtains g where "x = 2 * g" "x div 2 = g" "even x" | g where "x = Suc (2 * g)" "x div 2 = g" "odd x"
  by (cases "even x") (auto elim!: evenE oddE)

lemma half_lift: "0 < t \<Longrightarrow> (x + 2 ^ t) div 2 = x div 2 + (2::nat) ^ (t - 1)"
  by (cases t) simp_all

lemma sched_right: "f \<le> s \<Longrightarrow> s < 2 ^ t \<Longrightarrow> sched (f + 2 ^ t) (s + 2 ^ t) = sched f s @ [True]"
proof (induction f s arbitrary: t rule: sched.induct)
  case (1 f s)
  show ?case
  proof (cases "s = 0")
    case True
    then show ?thesis using 1(3) sched_power[of t] by simp
  next
    case False
    then have t: "0 < t" using 1(4) by (cases t) auto
    note h = half_lift[OF t]
    have b: "s div 2 < 2 ^ (t - 1)" "f div 2 \<le> s div 2" using 1(3,4) t by (cases t; simp add: div_le_mono)+
    have par: "odd (f + 2 ^ t) = odd f" using t by simp
    consider (odd) "odd f" | (eq) "even f" "f = s" | (right) "even f" "f \<noteq> s" by blast
    then show ?thesis
    proof cases
      case odd
      then have "sched (f + 2 ^ t) (s + 2 ^ t) = True # sched (f div 2 + 2 ^ (t - 1)) (s div 2 + 2 ^ (t - 1))"
        "sched f s = True # sched (f div 2) (s div 2)"
        using False par by (subst sched.simps; simp add: h)+
      then show ?thesis using 1(1)[OF False _ refl _ b(2,1)] odd by simp
    next
      case eq
      then have f0: "0 < f" using False by simp
      obtain a u where a: "skip_zeros f f = (a, a)" "skip_zeros (f + 2 ^ t) (f + 2 ^ t) = (a + 2 ^ u, a + 2 ^ u)"
        "a < 2 ^ u" "odd a" using skip_zeros_self[OF f0 eq(1)] 1(4) eq(2) by blast
      have u: "0 < u" using a(3,4) by (cases u) auto
      have "a div 2 < 2 ^ (u - 1)" using a(3) u by (cases u) auto
      then have "sched (a div 2 + 2 ^ (u - 1)) (a div 2 + 2 ^ (u - 1)) = sched (a div 2) (a div 2) @ [True]"
        using 1(1)[OF False _ refl, of a a "u - 1"] eq a(1) by simp
      moreover have "sched (f + 2 ^ t) (s + 2 ^ t) = True # sched (a div 2 + 2 ^ (u - 1)) (a div 2 + 2 ^ (u - 1))"
        "sched f s = True # sched (a div 2) (a div 2)"
        using eq False par a by (subst sched.simps; simp add: half_lift[OF u])+
      ultimately show ?thesis by simp
    next
      case right
      then have "sched (f + 2 ^ t) (s + 2 ^ t) = False # sched (f div 2 + 2 ^ (t - 1)) (s div 2 + 2 ^ (t - 1))"
        "sched f s = False # sched (f div 2) (s div 2)"
        using False par by (subst sched.simps; simp add: h)+
      then show ?thesis using 1(2)[OF False _ b(2,1)] right by simp
    qed
  qed
qed

text \<open>A coordinate in the left half, which is perfect: its run, then the right half as sibling.\<close>

lemma sched_left: "f < 2 ^ i \<Longrightarrow> 2 ^ i \<le> s \<Longrightarrow> s < 2 ^ Suc i \<Longrightarrow> sched f s = sched f (2 ^ i - 1) @ [False]"
proof (induction i arbitrary: f s)
  case 0
  then have "s = Suc 0" by simp
  then show ?case using 0 by (simp add: sched.simps[of 0 "Suc 0"])
next
  case (Suc i)
  have d: "(2 ^ Suc i - 1) div 2 = (2 ^ i - 1 :: nat)" by simp
  have IH: "sched (f div 2) (s div 2) = sched (f div 2) (2 ^ i - 1) @ [False]"
    using Suc.prems by (intro Suc.IH) auto
  have "(0::nat) < 2 ^ i" by (rule zero_less_power) simp
  then have n1: "2 ^ Suc i - 1 \<noteq> (0::nat)" unfolding power_Suc by linarith
  have nz: "s \<noteq> 0" "f \<noteq> s" "odd (2 ^ Suc i - 1 :: nat)" using Suc.prems by auto
  show ?case
  proof (cases "odd f")
    case True
    then have "sched f s = True # sched (f div 2) (s div 2)" "sched f (2 ^ Suc i - 1) = True # sched (f div 2) (2 ^ i - 1)"
      using nz n1 d by (subst sched.simps; simp del: One_nat_def)+
    then show ?thesis using IH by simp
  next
    case False
    then have "f \<noteq> 2 ^ Suc i - 1" using nz(3) by blast
    then have "sched f s = False # sched (f div 2) (s div 2)" "sched f (2 ^ Suc i - 1) = False # sched (f div 2) (2 ^ i - 1)"
      using nz n1 d False by (subst sched.simps; simp del: One_nat_def)+
    then show ?thesis using IH by simp
  qed
qed


section \<open>The sides as the RFC's recursion has them\<close>

function sides :: "nat \<Rightarrow> nat \<Rightarrow> bool list" where
  "sides m n = (if n \<le> 1 then [] else if m < splitPoint n then sides m (splitPoint n) @ [False]
     else sides (m - splitPoint n) (n - splitPoint n) @ [True])"
  by pat_completeness auto
termination
  by (relation "measure snd") (auto dest: split_length)

function old_sides :: "nat \<Rightarrow> nat \<Rightarrow> bool list" where
  "old_sides m n = (if m = n \<or> n \<le> 1 then [] else if m \<le> splitPoint n then old_sides m (splitPoint n) @ [False]
     else old_sides (m - splitPoint n) (n - splitPoint n) @ [True])"
  by pat_completeness auto
termination
  by (relation "measure snd") (auto dest: split_length)

declare sides.simps [simp del] old_sides.simps [simp del]

text \<open>The bit-level schedule of the verifier is the schedule of the recursion.\<close>

theorem sched_sides: "m < n \<Longrightarrow> sched m (n - 1) = sides m n"
proof (induction m n rule: sides.induct)
  case (1 m n)
  show ?case
  proof (cases "n \<le> 1")
    case True
    then show ?thesis using 1(3) by (simp add: sides.simps[of m])
  next
    case False
    then have "2 \<le> n" by simp
    then obtain j where k: "splitPoint n = 2 ^ j" and n: "2 ^ j < n" "n \<le> 2 ^ Suc j" using splitPoint_power by blast
    show ?thesis
    proof (cases "m < 2 ^ j")
      case True
      then have "sched m (n - 1) = sched m (2 ^ j - 1) @ [False]" using n by (intro sched_left) auto
      then show ?thesis using 1(1)[OF False] True False k by (simp add: sides.simps[of m n])
    next
      case m: False
      have "sched (m - 2 ^ j + 2 ^ j) (n - 2 ^ j - 1 + 2 ^ j) = sched (m - 2 ^ j) (n - 2 ^ j - 1) @ [True]"
        using n m 1(3) by (intro sched_right) auto
      moreover have "m - 2 ^ j + 2 ^ j = m" "n - 2 ^ j - 1 + 2 ^ j = n - 1" "m - 2 ^ j < n - 2 ^ j" using n m 1(3) by auto
      ultimately show ?thesis using 1(2)[OF False] m False k by (simp add: sides.simps[of m n])
    qed
  qed
qed

text \<open>The start of the consistency verifier: strip the trailing ones of the old tree's last index.\<close>

lemma strip_left: "f < 2 ^ i \<Longrightarrow> 2 ^ i \<le> s \<Longrightarrow> s < 2 ^ Suc i \<Longrightarrow>
    \<exists>a b u. strip_ones f s = (a, b) \<and> strip_ones f (2 ^ i - 1) = (a, 2 ^ u - 1) \<and> a < 2 ^ u \<and> 2 ^ u \<le> b \<and> b < 2 ^ Suc u"
proof (induction i arbitrary: f s)
  case 0
  then show ?case by (auto simp: strip_ones.simps[of 0] intro!: exI[of _ 0])
next
  case (Suc i)
  show ?case
  proof (cases "odd f")
    case True
    have d: "(2 ^ Suc i - 1) div 2 = (2 ^ i - 1 :: nat)" by simp
    have "\<exists>a b u. strip_ones (f div 2) (s div 2) = (a, b) \<and> strip_ones (f div 2) (2 ^ i - 1) = (a, 2 ^ u - 1) \<and>
        a < 2 ^ u \<and> 2 ^ u \<le> b \<and> b < 2 ^ Suc u" using Suc.prems by (intro Suc.IH) auto
    moreover have "strip_ones f s = strip_ones (f div 2) (s div 2)" "strip_ones f (2 ^ Suc i - 1) = strip_ones (f div 2) (2 ^ i - 1)"
      using True d by (subst strip_ones.simps; simp)+
    ultimately show ?thesis by simp
  next
    case False
    then have "strip_ones f s = (f, s)" "strip_ones f (2 ^ Suc i - 1) = (f, 2 ^ Suc i - 1)"
      by (subst strip_ones.simps; simp)+
    then show ?thesis using Suc.prems by blast
  qed
qed

lemma strip_right: "f < s \<Longrightarrow> s < 2 ^ t \<Longrightarrow>
    \<exists>a b u. strip_ones f s = (a, b) \<and> strip_ones (f + 2 ^ t) (s + 2 ^ t) = (a + 2 ^ u, b + 2 ^ u) \<and> a < b \<and> b < 2 ^ u"
proof (induction f arbitrary: s t rule: less_induct)
  case (less f)
  then have t: "0 < t" by (cases t) auto
  show ?case
  proof (cases "odd f")
    case True
    then obtain g where g: "f = Suc (2 * g)" by (auto elim!: oddE)
    have "f div 2 < f" "f div 2 < s div 2" "s div 2 < 2 ^ (t - 1)" using less.prems t by (cases t; simp add: g)+
    then have "\<exists>a b u. strip_ones (f div 2) (s div 2) = (a, b) \<and>
        strip_ones (f div 2 + 2 ^ (t - 1)) (s div 2 + 2 ^ (t - 1)) = (a + 2 ^ u, b + 2 ^ u) \<and> a < b \<and> b < 2 ^ u"
      by (rule less.IH)
    moreover have "strip_ones f s = strip_ones (f div 2) (s div 2)"
      "strip_ones (f + 2 ^ t) (s + 2 ^ t) = strip_ones (f div 2 + 2 ^ (t - 1)) (s div 2 + 2 ^ (t - 1))"
      using True t by (subst strip_ones.simps; simp add: half_lift[OF t])+
    ultimately show ?thesis by simp
  next
    case False
    then have "strip_ones f s = (f, s)" "strip_ones (f + 2 ^ t) (s + 2 ^ t) = (f + 2 ^ t, s + 2 ^ t)"
      using t by (subst strip_ones.simps; simp)+
    then show ?thesis using less.prems by blast
  qed
qed

lemma strip_all: "strip_ones (2 ^ i - 1) (2 ^ i - 1) = (0, 0)"
proof (induction i)
  case (Suc i)
  have "odd (2 ^ Suc i - 1 :: nat)" "(2 ^ Suc i - 1) div 2 = (2 ^ i - 1 :: nat)" by auto
  then show ?case using Suc by (subst strip_ones.simps) (simp only: if_True not_False_eq_True)
qed (simp add: strip_ones.simps)

definition start_sched :: "nat \<Rightarrow> nat \<Rightarrow> bool list" where
  "start_sched m n = (case strip_ones (m - 1) (n - 1) of (fn, sn) \<Rightarrow> sched fn sn)"

theorem start_old_sides: "0 < m \<Longrightarrow> m < n \<or> (m = n \<and> (\<exists>i. n = 2 ^ i)) \<Longrightarrow> start_sched m n = old_sides m n"
proof (induction m n rule: old_sides.induct)
  case (1 m n)
  show ?case
  proof (cases "m = n")
    case True
    then show ?thesis using 1(4) by (auto simp: start_sched_def strip_all[unfolded One_nat_def] old_sides.simps[of "2 ^ i" for i])
  next
    case False
    then have mn: "m < n" "2 \<le> n" using 1(3,4) by auto
    then obtain j where k: "splitPoint n = 2 ^ j" and n: "2 ^ j < n" "n \<le> 2 ^ Suc j" using splitPoint_power by blast
    have c: "\<not> (m = n \<or> n \<le> 1)" using mn by auto
    show ?thesis
    proof (cases "m \<le> 2 ^ j")
      case True
      have "m - 1 < 2 ^ j" "2 ^ j \<le> n - 1" "n - 1 < 2 ^ Suc j" using True 1(3) n by auto
      then obtain a b u where ab: "strip_ones (m - 1) (n - 1) = (a, b)" "strip_ones (m - 1) (2 ^ j - 1) = (a, 2 ^ u - 1)"
        "a < 2 ^ u" "2 ^ u \<le> b" "b < 2 ^ Suc u" using strip_left by metis
      then have "start_sched m n = start_sched m (2 ^ j) @ [False]" by (simp add: start_sched_def sched_left)
      moreover have "start_sched m (2 ^ j) = old_sides m (2 ^ j)" using 1(1)[OF c] True 1(3) k by (auto simp: le_less)
      ultimately show ?thesis using c True k by (simp add: old_sides.simps[of m n])
    next
      case m: False
      have lt: "m - 2 ^ j - 1 < n - 2 ^ j - 1" "n - 2 ^ j - 1 < 2 ^ j" using m mn n by auto
      have e: "m - 2 ^ j - 1 + 2 ^ j = m - 1" "n - 2 ^ j - 1 + 2 ^ j = n - 1" using m n by auto
      obtain a b u where ab: "strip_ones (m - 2 ^ j - 1) (n - 2 ^ j - 1) = (a, b)"
        "strip_ones (m - 1) (n - 1) = (a + 2 ^ u, b + 2 ^ u)" "a < b" "b < 2 ^ u"
        using strip_right[OF lt] unfolding e by metis
      then have "start_sched m n = start_sched (m - 2 ^ j) (n - 2 ^ j) @ [True]" by (simp add: start_sched_def sched_right)
      moreover have "start_sched (m - 2 ^ j) (n - 2 ^ j) = old_sides (m - 2 ^ j) (n - 2 ^ j)"
        using 1(2)[OF c] m diff_less_mono[of m n "2 ^ j"] mn k by (simp add: not_le)
      ultimately show ?thesis using c m k by (simp add: old_sides.simps[of m n])
    qed
  qed
qed


section \<open>Completeness\<close>

lemma PATH_folds:
  "m < length D \<Longrightarrow> length (PATH H m D) = length (sides m (length D)) \<and>
     foldl (fold_step H) (D ! m) (zip (sides m (length D)) (PATH H m D)) = MTH H D"
proof (induction H m D rule: PATH_ind)
  case (1 H m D)
  let ?k = "splitPoint (length D)"
  show ?case
  proof (cases "length D \<le> 1")
    case True
    then have "D = [D ! 0]" "m = 0" using 1(3) by (cases D; auto)+
    then show ?thesis using MTH_one[of H "D ! 0"] True
      unfolding PATH_rec[of H m D] sides.simps[of m "length D"] by simp
  next
    case False
    then have k: "0 < ?k" "?k < length D" by simp_all
    have M: "MTH H D = node H (MTH H (left_half D)) (MTH H (right_half D))" using False by (intro MTH_node) simp
    show ?thesis
    proof (cases "m < ?k")
      case True
      then show ?thesis using 1(1)[OF False True] False k M
        by (simp add: PATH_rec[of H m D] sides.simps[of m "length D"] min_absorb2)
    next
      case m: False
      then show ?thesis using 1(2)[OF False m] 1(3) False k M
        by (simp add: PATH_rec[of H m D] sides.simps[of m "length D"])
    qed
  qed
qed

lemma length_PATH: "length D \<le> 2 ^ e \<Longrightarrow> m < length D \<Longrightarrow> length (PATH H m D) \<le> e"
proof (induction H m D arbitrary: e rule: PATH_ind)
  case (1 H m D)
  let ?k = "splitPoint (length D)"
  show ?case
  proof (cases "length D \<le> 1")
    case False
    then obtain j where j: "?k = 2 ^ j" "2 ^ j < length D" "length D \<le> 2 ^ Suc j" using splitPoint_power[of "length D"] by auto
    then have "j \<le> e - 1" "0 < e" using power_bracket[OF j(2), of "e - 1"] 1(3) by (cases e; simp)+
    then have e': "0 < e" "(2::nat) ^ j \<le> 2 ^ (e - 1)" by (simp_all add: power_increasing)
    moreover have "length D - ?k \<le> 2 ^ j" using j by simp
    ultimately have e: "length D - ?k \<le> 2 ^ (e - 1)" "?k \<le> 2 ^ (e - 1)" "0 < e" using j(1) by linarith+
    show ?thesis
    proof (cases "m < ?k")
      case True
      then have "length (PATH H m (left_half D)) \<le> e - 1" using e j by (intro 1(1)[OF False]) auto
      then show ?thesis using True False e by (simp add: PATH_rec[of H m D])
    next
      case m: False
      then have "length (PATH H (m - ?k) (right_half D)) \<le> e - 1" using e 1(4) by (intro 1(2)[OF False]) auto
      then show ?thesis using m False e by (simp add: PATH_rec[of H m D])
    qed
  qed (simp add: PATH_rec[of H m D])
qed

lemma length_old_sides: "n \<le> 2 ^ e \<Longrightarrow> length (old_sides m n) \<le> e"
proof (induction m n arbitrary: e rule: old_sides.induct)
  case (1 m n)
  let ?k = "splitPoint n"
  show ?case
  proof (cases "m = n \<or> n \<le> 1")
    case False
    then obtain j where j: "?k = 2 ^ j" "2 ^ j < n" "n \<le> 2 ^ Suc j" using splitPoint_power[of n] by auto
    then have "j \<le> e - 1" "0 < e" using power_bracket[OF j(2), of "e - 1"] 1(3) by (cases e; simp)+
    then have e': "0 < e" "(2::nat) ^ j \<le> 2 ^ (e - 1)" by (simp_all add: power_increasing)
    moreover have "n - ?k \<le> 2 ^ j" using j by simp
    ultimately have e: "n - ?k \<le> 2 ^ (e - 1)" "?k \<le> 2 ^ (e - 1)" "0 < e" using j(1) by linarith+
    show ?thesis
    proof (cases "m \<le> ?k")
      case True
      then show ?thesis using 1(1)[OF False True e(2)] False e(3) by (simp add: old_sides.simps[of m n])
    next
      case m: False
      then show ?thesis using 1(2)[OF False m e(1)] False e(3) by (simp add: old_sides.simps[of m n])
    qed
  qed (simp add: old_sides.simps[of m n])
qed

lemma MTH_take:
  assumes "2 ^ j < m" "m \<le> 2 ^ Suc j" "m \<le> length D"
  shows "MTH H (take m D) = node H (MTH H (take (2 ^ j) D)) (MTH H (take (m - 2 ^ j) (drop (2 ^ j) D)))"
proof -
  have l: "length (take m D) = m" using assms(3) by simp
  have "1 \<le> (2::nat) ^ j" by simp
  then have "2 \<le> m" using assms(1) by linarith
  then have "MTH H (take m D) = node H (MTH H (take (2 ^ j) (take m D))) (MTH H (drop (2 ^ j) (take m D)))"
    using MTH_node[of "take m D" H] unfolding l splitPoint_eq[OF assms(1,2)] by simp
  moreover have "take (2 ^ j) (take m D) = take (2 ^ j) D" "drop (2 ^ j) (take m D) = take (m - 2 ^ j) (drop (2 ^ j) D)"
    using assms(1) by (simp_all add: drop_take)
  ultimately show ?thesis by simp
qed

lemma PROOF_folds:
  "0 < m \<Longrightarrow> m \<le> length D \<Longrightarrow> length (PROOF H m D False) = Suc (length (old_sides m (length D))) \<and>
     foldl (fold_both H) (hd (PROOF H m D False), hd (PROOF H m D False))
       (zip (old_sides m (length D)) (tl (PROOF H m D False))) = (MTH H (take m D), MTH H D)"
proof (induction "length D" arbitrary: m D rule: less_induct)
  case less
  let ?k = "splitPoint (length D)"
  show ?case
  proof (cases "m = length D")
    case True
    then show ?thesis unfolding PROOF_rec[of H m D] old_sides.simps[of m "length D"] by simp
  next
    case False
    then have n: "\<not> (m = length D \<or> length D \<le> 1)" "2 \<le> length D" using less.prems by auto
    obtain j where j: "?k = 2 ^ j" "2 ^ j < length D" "length D \<le> 2 ^ Suc j" using splitPoint_power[OF n(2)] by blast
    have M: "MTH H D = node H (MTH H (left_half D)) (MTH H (right_half D))" using n(2) by (rule MTH_node)
    show ?thesis
    proof (cases "m \<le> ?k")
      case True
      let ?p = "PROOF H m (left_half D) False"
      have "length (left_half D) = ?k" using j by simp
      note IH = less.hyps[of "left_half D" m, unfolded this]
      have h: "length ?p = Suc (length (old_sides m ?k))"
        "foldl (fold_both H) (hd ?p, hd ?p) (zip (old_sides m ?k) (tl ?p)) = (MTH H (take m (left_half D)), MTH H (left_half D))"
        using IH less.prems True j by auto
      have "?p \<noteq> []" using h(1) by auto
      moreover have "take m (left_half D) = take m D" using True by (simp add: min_def)
      ultimately show ?thesis using h True n(1) M
        by (simp add: PROOF_rec[of H m D] old_sides.simps[of m "length D"] hd_append)
    next
      case m: False
      let ?p = "PROOF H (m - ?k) (right_half D) False"
      have "length (right_half D) = length D - ?k" by simp
      note IH = less.hyps[of "right_half D" "m - ?k", unfolded this]
      have h: "length ?p = Suc (length (old_sides (m - ?k) (length D - ?k)))"
        "foldl (fold_both H) (hd ?p, hd ?p) (zip (old_sides (m - ?k) (length D - ?k)) (tl ?p)) =
           (MTH H (take (m - ?k) (right_half D)), MTH H (right_half D))"
        using IH less.prems m j by auto
      have "?p \<noteq> []" using h(1) by auto
      moreover have "MTH H (take m D) = node H (MTH H (left_half D)) (MTH H (take (m - ?k) (right_half D)))"
        using MTH_take[of j m D H] m j less.prems by simp
      ultimately show ?thesis using h m n(1) M
        by (simp add: PROOF_rec[of H m D] old_sides.simps[of m "length D"] hd_append)
    qed
  qed
qed

lemma and_pred_power: "0 < (m::nat) \<Longrightarrow> m AND (m - 1) = 0 \<longleftrightarrow> (\<exists>i. m = 2 ^ i)"
proof (induction m rule: less_induct)
  case (less m)
  show ?case
  proof (cases "even m")
    case True
    then obtain g where g: "m = 2 * g" "0 < g" using less.prems by (auto elim!: evenE)
    obtain h where "g = Suc h" using g(2) by (cases g) auto
    then have "m AND (m - 1) = 2 * (g AND (g - 1))" using g by (subst and_rec) simp
    moreover have "(\<exists>i. m = 2 ^ i) \<longleftrightarrow> (\<exists>i. g = 2 ^ i)"
    proof
      assume "\<exists>i. m = 2 ^ i"
      then obtain i where "2 * g = 2 ^ i" by (auto simp: g(1))
      then show "\<exists>i. g = 2 ^ i" by (cases i) auto
    next
      assume "\<exists>i. g = 2 ^ i"
      then show "\<exists>i. m = 2 ^ i" by (auto simp: g(1) intro: exI[of _ "Suc i" for i])
    qed
    ultimately show ?thesis using less.IH[of g] g by simp
  next
    case False
    then obtain g where g: "m = Suc (2 * g)" by (auto elim!: oddE)
    have "m AND (m - 1) = 2 * g" unfolding g by (subst and_rec) simp
    moreover have "(\<exists>i. m = 2 ^ i) \<longleftrightarrow> g = 0"
    proof
      assume "\<exists>i. m = 2 ^ i"
      then obtain i where "Suc (2 * g) = 2 ^ i" by (auto simp: g)
      then show "g = 0" by (cases i) (auto dest: arg_cong[of _ _ even])
    qed (auto simp: g intro: exI[of _ 0])
    ultimately show ?thesis by simp
  qed
qed


text \<open>The proof of the old root is left out exactly where the caller holds it.\<close>

lemma PROOF_True:
  "0 < m \<Longrightarrow> m < length D \<or> (m = length D \<and> (\<exists>i. m = 2 ^ i)) \<Longrightarrow>
     PROOF H m D False = (if \<exists>i. m = 2 ^ i then MTH H (take m D) # PROOF H m D True else PROOF H m D True)"
proof (induction "length D" arbitrary: m D rule: less_induct)
  case less
  let ?k = "splitPoint (length D)"
  show ?case
  proof (cases "m = length D")
    case True
    then show ?thesis using less.prems unfolding PROOF_rec[of H m D] by auto
  next
    case False
    then have n: "\<not> (m = length D \<or> length D \<le> 1)" "2 \<le> length D" using less.prems by auto
    obtain j where j: "?k = 2 ^ j" "2 ^ j < length D" "length D \<le> 2 ^ Suc j" using splitPoint_power[OF n(2)] by blast
    show ?thesis
    proof (cases "m \<le> ?k")
      case True
      have "PROOF H m (left_half D) False = (if \<exists>i. m = 2 ^ i then MTH H (take m (left_half D)) # PROOF H m (left_half D) True
          else PROOF H m (left_half D) True)"
        using less.prems True j by (intro less.hyps) (auto simp: le_less)
      moreover have "take m (left_half D) = take m D" using True by (simp add: min_def)
      ultimately show ?thesis using n True by (simp add: PROOF_rec[of H m D])
    next
      case m: False
      have "\<not> (\<exists>i. m = 2 ^ i)"
      proof
        assume "\<exists>i. m = 2 ^ i"
        then obtain i where i: "m = 2 ^ i" by blast
        have "(2::nat) ^ j < 2 ^ i" "(2::nat) ^ i < 2 ^ Suc j" using m j False less.prems by (auto simp: i)
        then have "j < i" "i < Suc j" by (simp_all only: power_strict_increasing_iff one_less_numeral_iff semiring_norm)
        then show False by simp
      qed
      then show ?thesis using n m by (simp add: PROOF_rec[of H m D])
    qed
  qed
qed

section \<open>Soundness\<close>

text \<open>
  What is hashed: by the tree of \<open>D\<close>, and by a verifier folding sided proof nodes.  A hash that does
  not collide on these inputs admits no other leaf and no other history.
\<close>

function tree_inputs :: "(bytes \<Rightarrow> bytes) \<Rightarrow> bytes list \<Rightarrow> bytes list" where
  "tree_inputs H D = (if length D \<le> 1 then []
     else (1 # MTH H (left_half D) @ MTH H (right_half D)) # tree_inputs H (left_half D) @ tree_inputs H (right_half D))"
  by pat_completeness auto
termination
  by (relation "measure (\<lambda>(H, D). length D)") (auto dest: split_length)

declare tree_inputs.simps [simp del]

fun step_inputs :: "bytes \<Rightarrow> bool \<times> bytes \<Rightarrow> bytes" where
  "step_inputs r (d, p) = 1 # (if d then p @ r else r @ p)"

fun fold_inputs :: "(bytes \<Rightarrow> bytes) \<Rightarrow> bytes \<Rightarrow> (bool \<times> bytes) list \<Rightarrow> bytes list" where
  "fold_inputs H r [] = []"
| "fold_inputs H r (x # xs) = step_inputs r x # fold_inputs H (fold_step H r x) xs"

fun both_inputs :: "(bytes \<Rightarrow> bytes) \<Rightarrow> bytes \<times> bytes \<Rightarrow> (bool \<times> bytes) list \<Rightarrow> bytes list" where
  "both_inputs H (f, s) [] = []"
| "both_inputs H (f, s) (x # xs) =
     (if fst x then [step_inputs f x] else []) @ step_inputs s x # both_inputs H (fold_both H (f, s) x) xs"

lemma fold_inputs_append: "fold_inputs H r (xs @ ys) = fold_inputs H r xs @ fold_inputs H (foldl (fold_step H) r xs) ys"
  by (induction xs arbitrary: r) auto

lemma both_inputs_append: "both_inputs H fs (xs @ ys) = both_inputs H fs xs @ both_inputs H (foldl (fold_both H) fs xs) ys"
proof (induction xs arbitrary: fs)
  case (Cons x xs)
  then show ?case by (cases fs; cases x) simp
qed (metis both_inputs.simps(1) append_Nil foldl_Nil surj_pair)

lemma node_inject:
  assumes "inj_on H S" "1 # l @ r \<in> S" "1 # l' @ r' \<in> S" "length l = length l'" "node H l r = node H l' r'"
  shows "l = l' \<and> r = r'"
proof -
  have "1 # l @ r = 1 # l' @ r'" using assms(5,2,3) inj_onD[OF assms(1)] by (auto simp: node_def)
  then show ?thesis using assms(4) by simp
qed

lemma tree_inputs_node: "2 \<le> length D \<Longrightarrow> set (tree_inputs H D) \<subseteq> S \<longleftrightarrow>
    1 # MTH H (left_half D) @ MTH H (right_half D) \<in> S \<and> set (tree_inputs H (left_half D)) \<subseteq> S \<and>
    set (tree_inputs H (right_half D)) \<subseteq> S"
  by (subst tree_inputs.simps) auto

lemma MTH_inject:
  assumes "hash32 H" "inj_on H S"
  shows "length D = length E \<Longrightarrow> hashes D \<Longrightarrow> hashes E \<Longrightarrow> set (tree_inputs H D) \<subseteq> S \<Longrightarrow>
    set (tree_inputs H E) \<subseteq> S \<Longrightarrow> MTH H D = MTH H E \<Longrightarrow> D = E"
proof (induction "length D" arbitrary: D E rule: less_induct)
  case less
  show ?case
  proof (cases "length D \<le> 1")
    case True
    then show ?thesis using less.prems(1,6) MTH_one[of H] by (cases D; cases E) auto
  next
    case False
    then have l: "2 \<le> length D" "2 \<le> length E" using less.prems(1) by auto
    note i = less.prems(4)[unfolded tree_inputs_node[OF l(1)]] less.prems(5)[unfolded tree_inputs_node[OF l(2)]]
    have "MTH H (left_half D) = MTH H (left_half E) \<and> MTH H (right_half D) = MTH H (right_half E)"
      using less.prems(6) i assms(1) less.prems(2,3) unfolding MTH_node[OF l(1)] MTH_node[OF l(2)]
      by (intro node_inject[OF assms(2)]) auto
    then have "left_half D = left_half E" "right_half D = right_half E"
      using i less.prems(1-3) l splitPoint_bounds[OF l(2)]
      by (auto intro!: less.hyps simp del: splitPoint_bounds)
    then show ?thesis using less.prems(1) by (metis append_take_drop_id)
  qed
qed

lemma zip_snoc: "length xs = Suc (length ys) \<Longrightarrow> \<exists>zs z. xs = zs @ [z] \<and> length zs = length ys"
  by (cases xs rule: rev_cases) auto

lemma inclusion_fold_sound:
  assumes "hash32 H" "inj_on H S"
  shows "m < length D \<Longrightarrow> length ps = length (sides m (length D)) \<Longrightarrow> hashes D \<Longrightarrow> hashes ps \<Longrightarrow>
    length lh = SHA256_BYTES \<Longrightarrow> set (tree_inputs H D) \<subseteq> S \<Longrightarrow> set (fold_inputs H lh (zip (sides m (length D)) ps)) \<subseteq> S \<Longrightarrow>
    foldl (fold_step H) lh (zip (sides m (length D)) ps) = MTH H D \<Longrightarrow> lh = D ! m"
proof (induction "length D" arbitrary: m D ps rule: less_induct)
  case less
  let ?k = "splitPoint (length D)"
  show ?case
  proof (cases "length D \<le> 1")
    case True
    then have "D = [D ! 0]" "m = 0" using less.prems(1) by (cases D; auto)+
    then show ?thesis using less.prems(8) MTH_one[of H "D ! 0"] True
      unfolding sides.simps[of m "length D"] by simp
  next
    case False
    then have l: "2 \<le> length D" by simp
    note i = less.prems(6)[unfolded tree_inputs_node[OF l]]
    have k: "?k < length D" "0 < ?k" using l by simp_all
    show ?thesis
    proof (cases "m < ?k")
      case True
      then have s: "sides m (length D) = sides m ?k @ [False]" using False by (subst sides.simps) simp
      then obtain qs p where p: "ps = qs @ [p]" "length qs = length (sides m ?k)" using zip_snoc[of ps] less.prems(2) by fastforce
      let ?r = "foldl (fold_step H) lh (zip (sides m ?k) qs)"
      have h: "hashes qs" "length p = SHA256_BYTES" using less.prems(4) p by simp_all
      have r: "length ?r = SHA256_BYTES" by (rule fold_length[OF assms(1) less.prems(5)])
      have f: "node H ?r p = MTH H D" "1 # ?r @ p \<in> S" "set (fold_inputs H lh (zip (sides m ?k) qs)) \<subseteq> S"
        using less.prems(7,8) p by (auto simp: s fold_inputs_append)
      have "?r = MTH H (left_half D) \<and> p = MTH H (right_half D)"
        using f i r assms(1) less.prems(3) unfolding MTH_node[OF l] by (intro node_inject[OF assms(2)]) auto
      then have "lh = left_half D ! m"
        using less.prems(3,5) f(3) i h(1) p(2) True k
        by (intro less.hyps[of "left_half D" m qs]) (auto simp: min_def)
      then show ?thesis using True by simp
    next
      case m: False
      then have s: "sides m (length D) = sides (m - ?k) (length D - ?k) @ [True]" using False by (subst sides.simps) simp
      then obtain qs p where p: "ps = qs @ [p]" "length qs = length (sides (m - ?k) (length D - ?k))" using zip_snoc[of ps] less.prems(2) by fastforce
      let ?r = "foldl (fold_step H) lh (zip (sides (m - ?k) (length D - ?k)) qs)"
      have h: "hashes qs" "length p = SHA256_BYTES" using less.prems(4) p by simp_all
      have f: "node H p ?r = MTH H D" "1 # p @ ?r \<in> S" "set (fold_inputs H lh (zip (sides (m - ?k) (length D - ?k)) qs)) \<subseteq> S"
        using less.prems(7,8) p by (auto simp: s fold_inputs_append)
      have "p = MTH H (left_half D) \<and> ?r = MTH H (right_half D)"
        using f i h(2) assms(1) less.prems(3) unfolding MTH_node[OF l] by (intro node_inject[OF assms(2)]) auto
      then have "lh = right_half D ! (m - ?k)"
        using less.prems(1,3,5) f(3) i h(1) p(2) m k
        by (intro less.hyps[of "right_half D" "m - ?k" qs]) auto
      then show ?thesis using m less.prems(1) by simp
    qed
  qed
qed


lemma fold_both_length: "hash32 H \<Longrightarrow> length (fst fs) = SHA256_BYTES \<Longrightarrow> length (snd fs) = SHA256_BYTES \<Longrightarrow>
    length (fst (foldl (fold_both H) fs xs)) = SHA256_BYTES \<and> length (snd (foldl (fold_both H) fs xs)) = SHA256_BYTES"
proof (induction xs arbitrary: fs)
  case (Cons x xs)
  obtain f s d p where e: "fs = (f, s)" "x = (d, p)" by (cases fs; cases x) auto
  show ?case using Cons.IH[of "fold_both H fs x"] Cons.prems by (simp add: e)
qed simp

lemma consistency_fold_sound:
  assumes "hash32 H" "inj_on H S"
  shows "0 < length old \<Longrightarrow> length old \<le> length D \<Longrightarrow> length ps = length (old_sides (length old) (length D)) \<Longrightarrow>
    hashes old \<Longrightarrow> hashes D \<Longrightarrow> hashes ps \<Longrightarrow> length q = SHA256_BYTES \<Longrightarrow> set (tree_inputs H D) \<subseteq> S \<Longrightarrow> set (tree_inputs H old) \<subseteq> S \<Longrightarrow>
    set (both_inputs H (q, q) (zip (old_sides (length old) (length D)) ps)) \<subseteq> S \<Longrightarrow>
    foldl (fold_both H) (q, q) (zip (old_sides (length old) (length D)) ps) = (MTH H old, MTH H D) \<Longrightarrow> old = take (length old) D"
proof (induction "length D" arbitrary: old D ps rule: less_induct)
  case less
  let ?k = "splitPoint (length D)"
  let ?m = "length old"
  show ?case
  proof (cases "?m = length D")
    case True
    then have "MTH H old = MTH H D" using less.prems(11) by (auto simp: old_sides.simps)
    then show ?thesis using MTH_inject[OF assms True less.prems(4,5)] less.prems(8,9) True by simp
  next
    case False
    then have "?m < length D" using less.prems(2) by simp
    then have l: "2 \<le> length D" and c: "\<not> (?m = length D \<or> length D \<le> 1)" using less.prems(1) by linarith+
    obtain j where j: "?k = 2 ^ j" "2 ^ j < length D" "length D \<le> 2 ^ Suc j" using splitPoint_power[OF l] by blast
    note i = less.prems(8)[unfolded tree_inputs_node[OF l]]
    show ?thesis
    proof (cases "?m \<le> ?k")
      case True
      then have s: "old_sides ?m (length D) = old_sides ?m ?k @ [False]" using c by (subst old_sides.simps) simp
      then obtain qs p where p: "ps = qs @ [p]" "length qs = length (old_sides ?m ?k)" using zip_snoc[of ps] less.prems(3) by fastforce
      obtain f r where r: "foldl (fold_both H) (q, q) (zip (old_sides ?m ?k) qs) = (f, r)" by fastforce
      have h: "hashes qs" "length p = SHA256_BYTES" "length r = SHA256_BYTES"
        using less.prems(6,7) p fold_both_length[OF assms(1), of "(q, q)" "zip (old_sides ?m ?k) qs"] r by simp_all
      have f: "f = MTH H old" "node H r p = MTH H D" "1 # r @ p \<in> S" "set (both_inputs H (q, q) (zip (old_sides ?m ?k) qs)) \<subseteq> S"
        using less.prems(10,11) p r by (auto simp: s both_inputs_append)
      have "r = MTH H (left_half D) \<and> p = MTH H (right_half D)"
        using f i h(3) assms(1) less.prems(5) unfolding MTH_node[OF l] by (intro node_inject[OF assms(2)]) auto
      then have "old = take ?m (left_half D)"
        using less.prems(1,4,5,7,9) f(1,4) i h(1) p(2) r True j
        by (intro less.hyps[of "left_half D" old qs]) auto
      then show ?thesis using True by (simp add: min_def)
    next
      case m: False
      then have s: "old_sides ?m (length D) = old_sides (?m - ?k) (length D - ?k) @ [True]" using c by (subst old_sides.simps) simp
      then obtain qs p where p: "ps = qs @ [p]" "length qs = length (old_sides (?m - ?k) (length D - ?k))"
        using zip_snoc[of ps] less.prems(3) by fastforce
      obtain f r where r: "foldl (fold_both H) (q, q) (zip (old_sides (?m - ?k) (length D - ?k)) qs) = (f, r)" by fastforce
      have h: "hashes qs" "length p = SHA256_BYTES" using less.prems(6) p by simp_all
      have f: "node H p f = MTH H old" "node H p r = MTH H D" "1 # p @ r \<in> S" "1 # p @ f \<in> S"
        "set (both_inputs H (q, q) (zip (old_sides (?m - ?k) (length D - ?k)) qs)) \<subseteq> S"
        using less.prems(10,11) p r by (auto simp: s both_inputs_append)
      have lo: "2 \<le> ?m" "splitPoint ?m = ?k"
        using m j less.prems(2) splitPoint_eq[of j ?m] l by (auto simp: not_le Suc_le_eq intro: le_less_trans[of 1 "2 ^ j"])
      note io = less.prems(9)[unfolded tree_inputs_node[OF lo(1)] lo(2)]
      have d: "p = MTH H (left_half D) \<and> r = MTH H (right_half D)"
        using f i h(2) assms(1) less.prems(5) unfolding MTH_node[OF l] by (intro node_inject[OF assms(2)]) auto
      have o: "p = MTH H (take ?k old) \<and> f = MTH H (drop ?k old)"
        using f io h(2) assms(1) less.prems(4) unfolding MTH_node[OF lo(1)] lo(2) by (intro node_inject[OF assms(2)]) auto
      have "take ?k old = left_half D"
        using d o i io m j less.prems(4,5) by (intro MTH_inject[OF assms]) auto
      moreover have "drop ?k old = take (length (drop ?k old)) (right_half D)"
        using less.prems(2,4,5,7) f(5) i io h(1) p(2) r m j d o
        by (intro less.hyps[of "right_half D" "drop ?k old" qs]) auto
      ultimately have "old = left_half D @ take (?m - ?k) (right_half D)" by (metis append_take_drop_id length_drop)
      also have "\<dots> = take ?m D" using m j take_add[of ?k "?m - ?k" D] by simp
      finally show ?thesis .
    qed
  qed
qed

section \<open>The consistency loop as a schedule\<close>

lemma consistency_loop_sched:
  assumes "hash32 H" "length f = SHA256_BYTES" "length s = SHA256_BYTES" "hashes ps"
  shows "bindR (consistency_loop H fn sn f s ps) (\<lambda>(sn, f, s). if sn \<noteq> 0 then Inl (MerkleE Merkle_bad_proof_length) else Inr (g f s)) =
    (if length ps = length (sched fn sn) then Inr (case foldl (fold_both H) (f, s) (zip (sched fn sn) ps) of (f, s) \<Rightarrow> g f s)
     else Inl (MerkleE Merkle_bad_proof_length))"
  using assms
proof (induction fn sn arbitrary: f s ps rule: sched.induct)
  case (1 fn sn)
  show ?case
  proof (cases ps)
    case Nil
    then show ?thesis by (subst (1 2) sched.simps) (auto simp: Let_def split: prod.splits)
  next
    case (Cons p qs)
    show ?thesis
    proof (cases "sn = 0")
      case True
      then show ?thesis by (simp add: Cons)
    next
      case False
      let ?fs = "if even fn then skip_zeros fn sn else (fn, sn)"
      have n: "length (node H p f) = SHA256_BYTES" "length (node H p s) = SHA256_BYTES" "length (node H s p) = SHA256_BYTES"
        "length p = SHA256_BYTES" "hashes qs"
        using 1(3-) Cons by auto
      show ?thesis
      proof (cases "odd fn \<or> fn = sn")
        case True
        obtain a b where ab: "?fs = (a, b)" by (cases ?fs)
        have e: "sched fn sn = True # sched (a div 2) (b div 2)" using False True ab by (subst sched.simps) simp
        show ?thesis using 1(1)[OF False True refl ab[symmetric] 1(3) n(1,2,5)] 1(3-) n ab False True
          by (simp add: Cons e nodeHash_node)
      next
        case c: False
        have e: "sched fn sn = False # sched (fn div 2) (sn div 2)" using False c by (subst sched.simps) simp
        show ?thesis using 1(2)[OF False c 1(3,4) n(3,5)] 1(3-) n False c
          by (simp add: Cons e nodeHash_node)
      qed
    qed
  qed
qed


section \<open>The verifiers and producers on checked input\<close>

lemma copy_nodes: "hashes D \<Longrightarrow> mapR node32 (map Buf D) = Inr D"
  by (induction D) (auto simp: node32_def)

lemma leafArray_hashes: "leafArray (Arr (map Buf D)) = Inr E \<Longrightarrow> E = D \<and> hashes D \<and> length D \<le> MERKLE_MAX_LEAVES"
proof -
  assume "leafArray (Arr (map Buf D)) = Inr E"
  then have m: "mapR node32 (map Buf D) = Inr E" "length D \<le> MERKLE_MAX_LEAVES"
    by (auto simp: leafArray_def copyMap_def res_simps split: if_splits)
  have "mapR node32 (map Buf D) = Inr E \<Longrightarrow> E = D \<and> hashes D"
    by (induction D arbitrary: E) (auto simp: res_simps node32_def hashes_def split: if_splits)
  then show ?thesis using m by blast
qed

lemma leafArray_accepts: "hashes D \<Longrightarrow> length D \<le> MERKLE_MAX_LEAVES \<Longrightarrow> leafArray (Arr (map Buf D)) = Inr D"
  by (simp add: leafArray_def copyMap_def copy_nodes)

lemma proofNodes_hashes: "proofNodes (Arr (map Buf ps)) = Inr qs \<Longrightarrow> qs = ps \<and> hashes ps \<and> length ps \<le> MERKLE_MAX_PROOF_NODES"
proof -
  assume "proofNodes (Arr (map Buf ps)) = Inr qs"
  then have m: "mapR node32 (map Buf ps) = Inr qs" "length ps \<le> MERKLE_MAX_PROOF_NODES" by (auto simp: proofNodes_def copyMap_def res_simps split: if_splits)
  from m(1) have "qs = ps \<and> hashes ps" by (induction ps arbitrary: qs) (auto simp: res_simps node32_def hashes_def split: if_splits)
  then show ?thesis using m(2) by blast
qed

lemma proofNodes_accepts: "hashes ps \<Longrightarrow> length ps \<le> MERKLE_MAX_PROOF_NODES \<Longrightarrow> proofNodes (Arr (map Buf ps)) = Inr ps"
  by (simp add: proofNodes_def copyMap_def copy_nodes)

lemma node32_Buf: "node32 (Buf b) = Inr c \<longleftrightarrow> b = c \<and> length b = SHA256_BYTES"
  by (auto simp: node32_def)

lemma coord: "n \<le> 2 ^ 64 - 1 \<Longrightarrow> coerceCoord (Big (int n)) = Inr n"
  by (simp add: coerceCoord_def UINT64_MAX_def)

lemma coord_Inr: "coerceCoord (Big (int n)) = Inr k \<longleftrightarrow> k = n \<and> n \<le> 2 ^ 64 - 1"
  by (auto simp: coerceCoord_def res_simps range_uint64_Inr UINT64_MAX_def)

lemma constantTimeEqual_eq [simp]: "constantTimeEqual a b \<longleftrightarrow> a = b"
  by (auto simp: constantTimeEqual_def)

lemma root_MTH: "hash32 H \<Longrightarrow> root H (Arr (map Buf D)) = Inr rt \<Longrightarrow> hashes D \<and> length D \<le> MERKLE_MAX_LEAVES \<and> rt = MTH H D"
proof -
  assume h: "hash32 H" and r: "root H (Arr (map Buf D)) = Inr rt"
  then obtain E where E: "leafArray (Arr (map Buf D)) = Inr E" by (auto simp: root_def res_simps)
  note e = leafArray_hashes[OF E]
  show ?thesis
  proof (cases "D = []")
    case True
    then show ?thesis using r E e by (simp add: root_def emptyRootHash_def MTH_rec[of H "[]"])
  next
    case False
    then show ?thesis using r E e mth_MTH[OF h, of D 0 "length D"] by (simp add: root_def)
  qed
qed

lemma root_accepts: "hash32 H \<Longrightarrow> hashes D \<Longrightarrow> length D \<le> MERKLE_MAX_LEAVES \<Longrightarrow> root H (Arr (map Buf D)) = Inr (MTH H D)"
  using mth_MTH[of H D 0 "length D"] leafArray_accepts[of D]
  by (cases "D = []") (simp_all add: root_def emptyRootHash_def MTH_rec[of H "[]"])

definition inclusion_opts :: "nat \<Rightarrow> nat \<Rightarrow> bytes \<Rightarrow> bytes list \<Rightarrow> bytes \<Rightarrow> bag" where
  "inclusion_opts m n lh ps rt = [(''leafIndex'', Big (int m)), (''treeSize'', Big (int n)), (''leafHash'', Buf lh),
     (''proof'', Arr (map Buf ps)), (''rootHash'', Buf rt)]"

definition consistency_opts :: "nat \<Rightarrow> nat \<Rightarrow> bytes \<Rightarrow> bytes \<Rightarrow> bytes list \<Rightarrow> bag" where
  "consistency_opts m n ort nrt ps = [(''oldSize'', Big (int m)), (''newSize'', Big (int n)), (''oldRoot'', Buf ort),
     (''newRoot'', Buf nrt), (''proof'', Arr (map Buf ps))]"

lemma verifyInclusion_sides:
  assumes "hash32 H" "m < n" "n \<le> 2 ^ 64 - 1" "length lh = SHA256_BYTES" "length rt = SHA256_BYTES" "hashes ps"
    "length ps \<le> MERKLE_MAX_PROOF_NODES"
  shows "verifyInclusion H (inclusion_opts m n lh ps rt) =
    (if length ps = length (sides m n) then Inr (foldl (fold_step H) lh (zip (sides m n) ps) = rt)
     else Inl (MerkleE Merkle_bad_proof_length))"
  using assms inclusion_loop_sched[OF assms(1,4,6), of m "n - 1" "\<lambda>r. constantTimeEqual r rt"]
    sched_sides[OF assms(2)]
  by (simp add: verifyInclusion_def inclusion_opts_def assertKnownKeys_def option_of_def coord node32_Buf[THEN iffD2]
      proofNodes_accepts del: One_nat_def)

lemma verifyInclusion_checked:
  assumes "verifyInclusion H (inclusion_opts m n lh ps rt) = Inr b"
  shows "m < n \<and> n \<le> 2 ^ 64 - 1 \<and> length lh = SHA256_BYTES \<and> length rt = SHA256_BYTES \<and> hashes ps \<and> length ps \<le> MERKLE_MAX_PROOF_NODES"
proof -
  have "m < n" "n \<le> 2 ^ 64 - 1" "length lh = SHA256_BYTES" "length rt = SHA256_BYTES" "\<exists>qs. proofNodes (Arr (map Buf ps)) = Inr qs"
    using assms by (auto simp: verifyInclusion_def inclusion_opts_def option_of_def res_simps node32_Buf coord_Inr split: if_splits)
  then show ?thesis by (auto dest: proofNodes_hashes)
qed

lemma verifyConsistency_sides:
  assumes "hash32 H" "0 < m" "m < n" "n \<le> 2 ^ 64 - 1" "length ort = SHA256_BYTES" "length nrt = SHA256_BYTES" "hashes ps"
    "length ps \<le> MERKLE_MAX_PROOF_NODES" "ps \<noteq> []"
  defines "pth \<equiv> if \<exists>i. m = 2 ^ i then ort # ps else ps"
  shows "verifyConsistency H (consistency_opts m n ort nrt ps) =
    (if length pth = Suc (length (old_sides m n))
     then Inr (foldl (fold_both H) (hd pth, hd pth) (zip (old_sides m n) (tl pth)) = (ort, nrt))
     else Inl (MerkleE Merkle_bad_proof_length))"
proof -
  obtain fn sn where st: "strip_ones (m - 1) (n - 1) = (fn, sn)" by fastforce
  have sc: "sched fn sn = old_sides m n" using start_old_sides[of m n] assms(2,3) st by (simp add: start_sched_def)
  have p: "pth \<noteq> []" "hashes pth" using assms(5,7,9) by (auto simp: pth_def)
  then have hp: "length (hd pth) = SHA256_BYTES" "hashes (tl pth)" by (cases pth; simp)+
  have l: "length pth = Suc (length xs) \<longleftrightarrow> length (tl pth) = length xs" for xs :: "bool list" using p(1) by (cases pth) auto
  have "m \<le> 2 ^ 64 - 1" "\<not> n < m" "m \<noteq> n" using assms(3,4) by auto
  then have "verifyConsistency H (consistency_opts m n ort nrt ps) =
    bindR (consistency_loop H fn sn (hd pth) (hd pth) (tl pth)) (\<lambda>(sn', fr, sr).
      if sn' \<noteq> 0 then Inl (MerkleE Merkle_bad_proof_length) else Inr (constantTimeEqual fr ort \<and> constantTimeEqual sr nrt))"
    using assms(2,4-9) st
    by (simp add: verifyConsistency_def consistency_opts_def assertKnownKeys_def option_of_def coord node32_Buf[THEN iffD2]
      proofNodes_accepts pth_def and_pred_power[unfolded One_nat_def] Let_def)
  then show ?thesis
    using consistency_loop_sched[OF assms(1) hp(1,1,2), of fn sn "\<lambda>f s. constantTimeEqual f ort \<and> constantTimeEqual s nrt"]
    by (simp add: sc l split: prod.splits)
qed

lemma verifyConsistency_checked:
  assumes "verifyConsistency H (consistency_opts m n ort nrt ps) = Inr b"
  shows "m \<le> n \<and> (m = 0 \<longrightarrow> n = 0) \<and> n \<le> 2 ^ 64 - 1 \<and> length ort = SHA256_BYTES \<and> length nrt = SHA256_BYTES \<and> hashes ps \<and>
    length ps \<le> MERKLE_MAX_PROOF_NODES \<and> (0 < m \<and> m < n \<longrightarrow> ps \<noteq> []) \<and>
    (0 < m \<and> m = n \<longrightarrow> b = (ort = nrt))"
proof -
  have g: "n \<le> 2 ^ 64 - 1" "length ort = SHA256_BYTES" "length nrt = SHA256_BYTES" "\<exists>qs. proofNodes (Arr (map Buf ps)) = Inr qs"
    using assms by (auto simp: verifyConsistency_def consistency_opts_def option_of_def res_simps node32_Buf coord_Inr split: if_splits)
  then have p: "hashes ps" "length ps \<le> MERKLE_MAX_PROOF_NODES"
    by (auto dest: proofNodes_hashes)
  have "m \<le> n \<and> (m = 0 \<longrightarrow> n = 0) \<and> (0 < m \<and> m < n \<longrightarrow> ps \<noteq> []) \<and> (0 < m \<and> m = n \<longrightarrow> b = (ort = nrt))"
    using assms proofNodes_accepts[OF p]
    by (auto simp: verifyConsistency_def consistency_opts_def option_of_def res_simps node32_Buf coord_Inr Let_def split: if_splits)
  then show ?thesis using g p by blast
qed


section \<open>Properties\<close>

text \<open>C10: the tree hash by index ranges that \<open>root\<close> computes is RFC 6962's MTH over the list of
  leaves, which splits at the largest power of two smaller than their number, for every number of leaves the cap admits, the empty tree included.\<close>

theorem root_is_MTH:
  assumes "hash32 H" and "hashes D" and "length D \<le> MERKLE_MAX_LEAVES"
  shows "root H (Arr (map Buf D)) = Inr (MTH H D)"
  by (rule root_accepts[OF assms])

text \<open>The bit arithmetic of both verifiers is the recursion of the RFC.  The loop of
  \<open>verifyInclusion\<close> takes exactly the sibling sides of the audit path of leaf \<open>m\<close> among \<open>n\<close>, and that of
  \<open>verifyConsistency\<close> those of the consistency proof, for every pair of coordinates.\<close>

theorem verifier_sides:
  assumes "0 < n"
  shows "(m < n \<longrightarrow> sched m (n - 1) = sides m n) \<and>
    (0 < m \<and> m < n \<longrightarrow> (case strip_ones (m - 1) (n - 1) of (fn, sn) \<Rightarrow> sched fn sn) = old_sides m n)"
  using sched_sides[of m n] start_old_sides[of m n] by (auto simp: start_sched_def)

text \<open>C11: inclusion proofs are complete: for every leaf of every tree within the cap, the producer
  answers, \<open>root\<close> answers, and the verifier accepts that proof of that leaf against that root.\<close>

theorem inclusion_complete:
  assumes "hash32 H" and "hashes D" and "length D \<le> MERKLE_MAX_LEAVES" and "m < length D"
  shows "\<exists>p rt. inclusionProof H [(''leafHashes'', Arr (map Buf D)), (''leafIndex'', Big (int m))] = Inr p \<and>
    root H (Arr (map Buf D)) = Inr rt \<and> verifyInclusion H (inclusion_opts m (length D) (D ! m) p rt) = Inr True"
proof -
  have D: "D \<noteq> []" "length D \<le> 2 ^ 20" using assms(3,4) by (auto simp: MERKLE_MAX_LEAVES_def)
  have "inclusionProof H [(''leafHashes'', Arr (map Buf D)), (''leafIndex'', Big (int m))] = Inr (PATH H m D)"
    using assms D path_PATH[of H D 0 "length D" m]
    by (simp add: inclusionProof_def assertKnownKeys_def option_of_def leafArray_accepts coord range_int_def SAFE_MAX_def
        SAFE_MIN_def Let_def)
  moreover have "verifyInclusion H (inclusion_opts m (length D) (D ! m) (PATH H m D) (MTH H D)) = Inr True"
  proof -
    have "length (PATH H m D) \<le> 20" by (rule length_PATH[OF D(2) assms(4)])
    then show ?thesis using PATH_folds[OF assms(4), of H] D assms hashes_PATH[of H D m]
      by (subst verifyInclusion_sides) (auto simp: MERKLE_MAX_PROOF_NODES_def hashes_def)
  qed
  ultimately show ?thesis using root_accepts[OF assms(1-3)] by blast
qed

text \<open>C12: inclusion proofs are sound: whatever proof makes the verifier accept a leaf hash at
  position \<open>m\<close> of a tree of \<open>D\<close>'s size against \<open>D\<close>'s root, that leaf hash is \<open>D\<close>'s, unless SHA-256
  collides on two of the inputs the tree and this verification hash.\<close>

theorem inclusion_sound:
  assumes "hash32 H" and "root H (Arr (map Buf D)) = Inr rt"
    and "verifyInclusion H (inclusion_opts m (length D) lh p rt) = Inr True"
    and "inj_on H (set (tree_inputs H D) \<union> set (fold_inputs H lh (zip (sides m (length D)) p)))"
  shows "lh = D ! m"
proof -
  note c = verifyInclusion_checked[OF assms(3)] root_MTH[OF assms(1,2)]
  have "length p = length (sides m (length D)) \<and> foldl (fold_step H) lh (zip (sides m (length D)) p) = rt"
    using assms(1,3) c by (subst (asm) verifyInclusion_sides) (auto split: if_splits)
  then show ?thesis using c by (intro inclusion_fold_sound[OF assms(1,4)]) auto
qed

text \<open>C13: consistency proofs are complete: between every non-empty prefix of a tree within the cap
  and the tree, the producer answers and its proof is accepted against the two roots.\<close>

theorem consistency_complete:
  assumes "hash32 H" and "hashes D" and "length D \<le> MERKLE_MAX_LEAVES" and "0 < m" and "m \<le> length D"
  shows "\<exists>p. consistencyProof H [(''leafHashes'', Arr (map Buf D)), (''oldSize'', Big (int m))] = Inr p \<and>
    verifyConsistency H (consistency_opts m (length D) (MTH H (take m D)) (MTH H D) p) = Inr True"
proof (cases "m = length D")
  case True
  then show ?thesis using assms
    by (simp add: consistencyProof_def verifyConsistency_def consistency_opts_def assertKnownKeys_def option_of_def
        leafArray_accepts coord node32_Buf[THEN iffD2] range_int_def SAFE_MAX_def SAFE_MIN_def MERKLE_MAX_LEAVES_def
        proofNodes_def copyMap_def Let_def)
next
  case False
  then have m: "m < length D" "D \<noteq> []" using assms(4,5) by auto
  let ?p = "PROOF H m D True"
  have pr: "consistencyProof H [(''leafHashes'', Arr (map Buf D)), (''oldSize'', Big (int m))] = Inr ?p"
    using assms m subproof_PROOF[of H D 0 "length D" m True]
    by (simp add: consistencyProof_def assertKnownKeys_def option_of_def leafArray_accepts coord range_int_def SAFE_MAX_def
        SAFE_MIN_def MERKLE_MAX_LEAVES_def Let_def)
  have F: "PROOF H m D False = (if \<exists>i. m = 2 ^ i then MTH H (take m D) # ?p else ?p)"
    using PROOF_True[of m D H] assms(4) m by blast
  have "length (old_sides m (length D)) \<le> 20"
    by (rule length_old_sides) (use assms(3) in \<open>simp add: MERKLE_MAX_LEAVES_def\<close>)
  then have "length (PROOF H m D False) \<le> 21" using PROOF_folds[OF assms(4,5), of H] by linarith
  then have "length ?p \<le> MERKLE_MAX_PROOF_NODES" by (auto simp: F MERKLE_MAX_PROOF_NODES_def split: if_splits)
  moreover have "\<not> length D \<le> 1" using m(1) assms(4) by linarith
  then have "?p \<noteq> []" using m by (subst PROOF_rec) auto
  moreover have "hashes ?p" by (rule hashes_PROOF[OF assms(1,2)])
  ultimately have "verifyConsistency H (consistency_opts m (length D) (MTH H (take m D)) (MTH H D) ?p) = Inr True"
    using PROOF_folds[OF assms(4,5), of H] assms m F
    by (subst verifyConsistency_sides) (auto simp: MERKLE_MAX_LEAVES_def)
  then show ?thesis using pr by blast
qed

text \<open>The nodes the verifier walks: the old root in front where the proof leaves it out, and the inputs
  it hashes from them.\<close>

definition walked :: "nat \<Rightarrow> bytes \<Rightarrow> bytes list \<Rightarrow> bytes list" where
  "walked m ort p = (if m AND (m - 1) = 0 then ort # p else p)"

definition consistency_inputs :: "(bytes \<Rightarrow> bytes) \<Rightarrow> nat \<Rightarrow> nat \<Rightarrow> bytes list \<Rightarrow> bytes list" where
  "consistency_inputs H m n q = both_inputs H (hd q, hd q) (zip (old_sides m n) (tl q))"

text \<open>C14: consistency proofs are sound, which is the append-only guarantee: a proof the verifier
  accepts between the root of \<open>old\<close> and the root of \<open>D\<close> shows that \<open>old\<close> is a prefix of \<open>D\<close>, unless
  SHA-256 collides on two of the inputs hashed.\<close>

theorem consistency_sound:
  assumes "hash32 H" and "root H (Arr (map Buf old)) = Inr ort" and "root H (Arr (map Buf D)) = Inr nrt"
    and "verifyConsistency H (consistency_opts (length old) (length D) ort nrt p) = Inr True"
    and "inj_on H (set (tree_inputs H D) \<union> set (tree_inputs H old) \<union>
      set (consistency_inputs H (length old) (length D) (walked (length old) ort p)))"
  shows "old = take (length old) D"
proof -
  note c = verifyConsistency_checked[OF assms(4)] root_MTH[OF assms(1,2)] root_MTH[OF assms(1,3)]
  consider "length old = 0" | "0 < length old" "length old = length D" | "0 < length old" "length old < length D"
    using c by linarith
  then show ?thesis
  proof cases
    case 2
    have "old = D" using c 2 by (intro MTH_inject[OF assms(1,5)]) auto
    then show ?thesis by simp
  next
    case 3
    let ?q = "walked (length old) ort p"
    have w: "?q = (if \<exists>i. length old = 2 ^ i then ort # p else p)"
      unfolding walked_def and_pred_power[OF 3(1)] by simp
    have p: "?q \<noteq> []" "hashes ?q" unfolding w using c 3 by auto
    have "length ?q = Suc (length (old_sides (length old) (length D))) \<and>
        foldl (fold_both H) (hd ?q, hd ?q) (zip (old_sides (length old) (length D)) (tl ?q)) = (ort, nrt)"
      using assms(1,4) c 3 verifyConsistency_sides[of H "length old" "length D" ort nrt p]
      unfolding w by (auto split: if_splits)
    moreover have "length (hd ?q) = SHA256_BYTES" "hashes (tl ?q)" using p by (cases ?q; simp)+
    ultimately show ?thesis using c 3 p
      by (intro consistency_fold_sound[OF assms(1,5), of old D "tl ?q" "hd ?q"]) (auto simp: consistency_inputs_def)
  qed simp
qed

section \<open>A concrete tree\<close>

text \<open>Two leaves, and a function of the right output length.\<close>

definition pad32 :: "bytes \<Rightarrow> bytes" where
  "pad32 x = take 32 (x @ replicate 32 0)"

definition leaf :: "byte \<Rightarrow> bytes" where
  "leaf b = replicate 32 b"

lemma pad32_ok: "hash32 pad32"
  by (auto simp: hash32_def pad32_def SHA256_BYTES_def min_def)

lemma leaves_ok: "hashes [leaf a, leaf b]"
  by (simp add: leaf_def SHA256_BYTES_def)

lemma split_2: "splitPoint 2 = 1" "splitPoint (Suc (Suc 0)) = 1"
  using splitPoint_eq[of 0 2] by (simp_all add: numeral_2_eq_2)

lemma MTH_2: "MTH H [a, b] = node H a b"
  by (subst MTH_rec) (simp add: split_2 MTH_one)

theorem root_is_MTH_witness: "root pad32 (Arr (map Buf [leaf 1, leaf 2])) = Inr (MTH pad32 [leaf 1, leaf 2])"
  by (rule root_is_MTH[OF pad32_ok leaves_ok]) (simp add: MERKLE_MAX_LEAVES_def)

theorem verifier_sides_witness: "sched 2 (7 - 1) = sides 2 7"
  using verifier_sides[of 7 2] by simp

theorem inclusion_complete_witness:
  "\<exists>p rt. inclusionProof pad32 [(''leafHashes'', Arr (map Buf [leaf 1, leaf 2])), (''leafIndex'', Big (int 1))] = Inr p \<and>
    root pad32 (Arr (map Buf [leaf 1, leaf 2])) = Inr rt \<and>
    verifyInclusion pad32 (inclusion_opts 1 (length [leaf 1, leaf 2]) ([leaf 1, leaf 2] ! 1) p rt) = Inr True"
  by (rule inclusion_complete[OF pad32_ok leaves_ok]) (simp_all add: MERKLE_MAX_LEAVES_def)

theorem consistency_complete_witness:
  "\<exists>p. consistencyProof pad32 [(''leafHashes'', Arr (map Buf [leaf 1, leaf 2])), (''oldSize'', Big (int 1))] = Inr p \<and>
    verifyConsistency pad32 (consistency_opts 1 (length [leaf 1, leaf 2]) (MTH pad32 (take 1 [leaf 1, leaf 2]))
      (MTH pad32 [leaf 1, leaf 2]) p) = Inr True"
  by (rule consistency_complete[OF pad32_ok leaves_ok]) (simp_all add: MERKLE_MAX_LEAVES_def)

lemma sample_root: "root pad32 (Arr (map Buf [leaf 1, leaf 2])) = Inr (node pad32 (leaf 1) (leaf 2))"
  using root_accepts[OF pad32_ok leaves_ok, of 1 2] by (simp add: MERKLE_MAX_LEAVES_def MTH_2)

lemma sample_sides: "sides 0 2 = [False]" "sides 1 2 = [True]" "old_sides 1 2 = [False]" "sides m 1 = []" "old_sides 1 1 = []"
  by (simp_all add: sides.simps[of _ "Suc 0"] sides.simps[of _ 2] old_sides.simps[of _ "Suc 0"] old_sides.simps[of _ 2] split_2)

lemmas sample_schedule = sample_sides sample_sides[unfolded One_nat_def]

theorem inclusion_sound_witness: "leaf 2 = [leaf 1, leaf 2] ! 1"
proof (rule inclusion_sound[OF pad32_ok sample_root, of 1 "leaf 2" "[leaf 1]"])
  show "verifyInclusion pad32 (inclusion_opts 1 (length [leaf 1, leaf 2]) (leaf 2) [leaf 1] (node pad32 (leaf 1) (leaf 2))) = Inr True"
    using leaves_ok[of 1 2] pad32_ok
    by (subst verifyInclusion_sides) (simp_all add: MERKLE_MAX_PROOF_NODES_def sample_schedule flip: numeral_2_eq_2)
  show "inj_on pad32 (set (tree_inputs pad32 [leaf 1, leaf 2]) \<union>
      set (fold_inputs pad32 (leaf 2) (zip (sides 1 (length [leaf 1, leaf 2])) [leaf 1])))"
    by (simp add: tree_inputs.simps[of pad32] split_2 MTH_one sample_schedule flip: numeral_2_eq_2)
qed

theorem consistency_sound_witness: "[leaf 1] = take (length [leaf 1]) [leaf 1, leaf 2]"
proof (rule consistency_sound[OF pad32_ok _ sample_root, of _ "leaf 1" "[leaf 2]"])
  have l: "hashes [leaf 1]" using leaves_ok[of 1 2] by simp
  show "root pad32 (Arr (map Buf [leaf 1])) = Inr (leaf 1)"
    using root_accepts[OF pad32_ok l] by (simp add: MERKLE_MAX_LEAVES_def MTH_one)
  show "verifyConsistency pad32 (consistency_opts (length [leaf 1]) (length [leaf 1, leaf 2]) (leaf 1)
      (node pad32 (leaf 1) (leaf 2)) [leaf 2]) = Inr True"
    using leaves_ok[of 1 2] pad32_ok
    by (subst verifyConsistency_sides)
      (simp_all add: MERKLE_MAX_PROOF_NODES_def sample_schedule exI[of _ 0] flip: numeral_2_eq_2)
  show "inj_on pad32 (set (tree_inputs pad32 [leaf 1, leaf 2]) \<union> set (tree_inputs pad32 [leaf 1]) \<union>
      set (consistency_inputs pad32 (length [leaf 1]) (length [leaf 1, leaf 2]) (walked (length [leaf 1]) (leaf 1) [leaf 2])))"
    by (simp add: tree_inputs.simps[of pad32] split_2 MTH_one sample_schedule consistency_inputs_def walked_def
        flip: numeral_2_eq_2)
qed

end
