(* ===== verification/ByteIO.thy ===== *)
theory ByteIO
  imports Values
begin

text \<open>
  lib/byte-reader.js and lib/byte-writer.js: the big-endian cursor and sink under the
  length-prefixed wire formats.  A reader is a window \<open>[pos, end)\<close> on a buffer; every operation
  returns its value and the moved reader, or throws.  \<open>code = None\<close> is an omitted code argument.
  A slot past the end of the buffer reads as \<open>undefined\<close> (\<open>None\<close> in \<open>u8\<close>, zero bits under a
  shift), and Node's multi-byte reads throw a RangeError there.
\<close>

section \<open>The reader\<close>

record reader =
  rd_buf :: bytes
  rd_pos :: int
  rd_end :: int
  rd_default :: err

definition ByteReader :: "bytes \<Rightarrow> int \<Rightarrow> int option \<Rightarrow> err \<Rightarrow> reader" where
  "ByteReader buf start end defaultCode =
     \<lparr>rd_buf = buf, rd_pos = to_int32 start,
      rd_end = (case end of None \<Rightarrow> int (length buf) | Some e \<Rightarrow> to_int32 e),
      rd_default = defaultCode\<rparr>"

definition rd_need :: "reader \<Rightarrow> int \<Rightarrow> err option \<Rightarrow> unit res" where
  "rd_need r n code =
     (if rd_pos r + n > rd_end r
      then Inl (case code of Some c \<Rightarrow> c | None \<Rightarrow> rd_default r)
      else Inr ())"

definition buf_at :: "bytes \<Rightarrow> int \<Rightarrow> nat option" where
  "buf_at buf p = (if 0 \<le> p \<and> p < int (length buf) then Some (unat (buf ! nat p)) else None)"

definition bits_of :: "nat option \<Rightarrow> nat" where
  "bits_of v = (case v of None \<Rightarrow> 0 | Some n \<Rightarrow> n)"

text \<open>\<open>buf.readUIntBE(p, n)\<close> and \<open>buf.subarray(i, j)\<close> with its clamping.\<close>

definition read_be :: "bytes \<Rightarrow> int \<Rightarrow> nat \<Rightarrow> nat res" where
  "read_be buf p n =
     (if 0 \<le> p \<and> p + int n \<le> int (length buf)
      then Inr (be_val (slice buf (nat p) (nat p + n))) else Inl RangeErr)"

definition subarray :: "bytes \<Rightarrow> int \<Rightarrow> int \<Rightarrow> bytes" where
  "subarray buf i j =
     (let len = int (length buf);
          clamp = (\<lambda>k. if k < 0 then max (len + k) 0 else min k len)
      in slice buf (nat (clamp i)) (nat (clamp j)))"

definition rd_u8 :: "reader \<Rightarrow> err option \<Rightarrow> (nat option \<times> reader) res" where
  "rd_u8 r code = bindR (rd_need r 1 code) (\<lambda>_.
     Inr (buf_at (rd_buf r) (rd_pos r), r\<lparr>rd_pos := rd_pos r + 1\<rparr>))"

definition rd_u16 :: "reader \<Rightarrow> err option \<Rightarrow> (nat \<times> reader) res" where
  "rd_u16 r code = bindR (rd_need r 2 code) (\<lambda>_.
     bindR (read_be (rd_buf r) (rd_pos r) 2) (\<lambda>v. Inr (v, r\<lparr>rd_pos := rd_pos r + 2\<rparr>)))"

definition rd_u24 :: "reader \<Rightarrow> err option \<Rightarrow> (nat \<times> reader) res" where
  "rd_u24 r code = bindR (rd_need r 3 code) (\<lambda>_.
     let at = (\<lambda>k. bits_of (buf_at (rd_buf r) (rd_pos r + k)));
         v = (push_bit 16 (at 0) OR push_bit 8 (at 1)) OR at 2
     in Inr (v, r\<lparr>rd_pos := rd_pos r + 3\<rparr>))"

definition rd_u32 :: "reader \<Rightarrow> err option \<Rightarrow> (nat \<times> reader) res" where
  "rd_u32 r code = bindR (rd_need r 4 code) (\<lambda>_.
     bindR (read_be (rd_buf r) (rd_pos r) 4) (\<lambda>v. Inr (v, r\<lparr>rd_pos := rd_pos r + 4\<rparr>)))"

definition rd_u64 :: "reader \<Rightarrow> err option \<Rightarrow> (nat \<times> reader) res" where
  "rd_u64 r code = bindR (rd_need r 8 code) (\<lambda>_.
     bindR (read_be (rd_buf r) (rd_pos r) 8) (\<lambda>v. Inr (v, r\<lparr>rd_pos := rd_pos r + 8\<rparr>)))"

definition rd_fixed :: "reader \<Rightarrow> nat \<Rightarrow> err option \<Rightarrow> (bytes \<times> reader) res" where
  "rd_fixed r n code = bindR (rd_need r (int n) code) (\<lambda>_.
     Inr (subarray (rd_buf r) (rd_pos r) (rd_pos r + int n), r\<lparr>rd_pos := rd_pos r + int n\<rparr>))"

definition rd_vector :: "reader \<Rightarrow> nat \<Rightarrow> nat \<Rightarrow> nat option \<Rightarrow> err \<Rightarrow> (bytes \<times> reader) res" where
  "rd_vector r lenWidth mn mx code =
     bindR (if lenWidth = 3 then rd_u24 r None else rd_u16 r None) (\<lambda>(len, r').
       if len < mn then Inl code
       else if (case mx of Some m \<Rightarrow> len > m | None \<Rightarrow> False) then Inl code
       else bindR (rd_need r' (int len) (Some code)) (\<lambda>_.
         Inr (subarray (rd_buf r') (rd_pos r') (rd_pos r' + int len),
              r'\<lparr>rd_pos := rd_pos r' + int len\<rparr>)))"

definition rd_subReader :: "reader \<Rightarrow> nat \<Rightarrow> err option \<Rightarrow> (reader \<times> reader) res" where
  "rd_subReader r len code = bindR (rd_need r (int len) code) (\<lambda>_.
     Inr (ByteReader (rd_buf r) (rd_pos r) (Some (rd_pos r + int len)) (rd_default r),
          r\<lparr>rd_pos := rd_pos r + int len\<rparr>))"

definition rd_remaining :: "reader \<Rightarrow> int" where
  "rd_remaining r = rd_end r - rd_pos r"

definition rd_atEnd :: "reader \<Rightarrow> bool" where
  "rd_atEnd r \<longleftrightarrow> rd_pos r = rd_end r"

section \<open>The writer\<close>

record writer =
  wr_parts :: "bytes list"
  wr_len :: nat
  wr_default :: err

definition ByteWriter :: "err \<Rightarrow> writer" where
  "ByteWriter d = \<lparr>wr_parts = [], wr_len = 0, wr_default = d\<rparr>"

definition wr_push :: "writer \<Rightarrow> bytes \<Rightarrow> writer" where
  "wr_push w b = w\<lparr>wr_parts := wr_parts w @ [b], wr_len := wr_len w + length b\<rparr>"

definition wr_fault :: "writer \<Rightarrow> err option \<Rightarrow> err" where
  "wr_fault w code = (case code of Some c \<Rightarrow> c | None \<Rightarrow> wr_default w)"

definition wr_uint :: "writer \<Rightarrow> js \<Rightarrow> js \<Rightarrow> err option \<Rightarrow> writer res" where
  "wr_uint w v width code = (case width of
      Num k \<Rightarrow>
        if k < 1 \<or> k > 4 then Inl (wr_fault w code)
        else
          let mx = (if k = 4 then 0xffffffff else 2 ^ (8 * nat k) - 1) in
          (case v of
             Num n \<Rightarrow>
               if \<not> is_safe_integer n \<or> n < 0 \<or> n > mx then Inl (wr_fault w code)
               else Inr (wr_push w (be_bytes (nat k) (nat n)))
           | _ \<Rightarrow> Inl (wr_fault w code))
    | _ \<Rightarrow> Inl (wr_fault w code))"

definition wr_u8 :: "writer \<Rightarrow> js \<Rightarrow> err option \<Rightarrow> writer res" where
  "wr_u8 w v code = wr_uint w v (Num 1) code"
definition wr_u16 :: "writer \<Rightarrow> js \<Rightarrow> err option \<Rightarrow> writer res" where
  "wr_u16 w v code = wr_uint w v (Num 2) code"
definition wr_u24 :: "writer \<Rightarrow> js \<Rightarrow> err option \<Rightarrow> writer res" where
  "wr_u24 w v code = wr_uint w v (Num 3) code"
definition wr_u32 :: "writer \<Rightarrow> js \<Rightarrow> err option \<Rightarrow> writer res" where
  "wr_u32 w v code = wr_uint w v (Num 4) code"

definition wr_u64 :: "writer \<Rightarrow> js \<Rightarrow> err option \<Rightarrow> writer res" where
  "wr_u64 w v code =
     bindR (case v of
              Big n \<Rightarrow> Inr n
            | Num n \<Rightarrow> if is_safe_integer n \<and> n \<ge> 0 then Inr n else Inl (wr_fault w code)
            | _ \<Rightarrow> Inl (wr_fault w code))
       (\<lambda>big. if big < 0 \<or> big > 0xffffffffffffffff then Inl (wr_fault w code)
              else Inr (wr_push w (be_bytes 8 (nat big))))"

definition wr_bytes :: "writer \<Rightarrow> js \<Rightarrow> err option \<Rightarrow> writer res" where
  "wr_bytes w v code = (case v of Buf b \<Rightarrow> Inr (wr_push w b) | _ \<Rightarrow> Inl (wr_fault w code))"

text \<open>The bounds are converted with \<open>Number(..)\<close>; an argument that does not convert to an integral
  number is refused, as \<open>NonInt\<close> is (a bound given as numeric text is outside the model and is
  refused too).  \<open>Number(null)\<close> is 0 and \<open>max == null\<close> is "no maximum".\<close>

definition js_Number :: "js \<Rightarrow> js" where
  "js_Number v = (case v of Num n \<Rightarrow> Num n | Big n \<Rightarrow> (if is_safe_integer n then Num n else NonInt)
     | Null \<Rightarrow> Num 0 | Bool b \<Rightarrow> Num (of_bool b) | _ \<Rightarrow> NonInt)"

definition wr_vector :: "writer \<Rightarrow> js \<Rightarrow> js \<Rightarrow> js \<Rightarrow> js \<Rightarrow> err option \<Rightarrow> writer res" where
  "wr_vector w lenWidth mn mx body code = (case body of
      Buf bs \<Rightarrow>
        let bodyLen = int (length bs) in
        (case js_Number mn of
           Num lo \<Rightarrow>
             if \<not> is_safe_integer lo \<or> lo < 0 then Inl (wr_fault w code)
             else bindR
               (if mx = Undef \<or> mx = Null then Inr None
                else (case js_Number mx of
                        Num hi \<Rightarrow> if \<not> is_safe_integer hi \<or> hi < lo then Inl (wr_fault w code)
                                  else Inr (Some hi)
                      | _ \<Rightarrow> Inl (wr_fault w code)))
               (\<lambda>hi.
                 if bodyLen < lo then Inl (wr_fault w code)
                 else if (case hi of Some h \<Rightarrow> bodyLen > h | None \<Rightarrow> False) then Inl (wr_fault w code)
                 else bindR (wr_uint w (Num bodyLen) lenWidth code) (\<lambda>w'. Inr (wr_push w' bs)))
         | _ \<Rightarrow> Inl (wr_fault w code))
    | _ \<Rightarrow> Inl (wr_fault w code))"

definition wr_length :: "writer \<Rightarrow> nat" where
  "wr_length w = wr_len w"

text \<open>\<open>Buffer.concat(parts, len)\<close>: the concatenation, cut or zero-filled to \<open>len\<close>.\<close>

definition wr_build :: "writer \<Rightarrow> bytes" where
  "wr_build w = (let all = concat (wr_parts w) in
     take (wr_len w) all @ replicate (wr_len w - length all) 0)"

section \<open>Lemmas: the window discipline of the reader\<close>

definition reader_ok :: "reader \<Rightarrow> bool" where
  "reader_ok r \<longleftrightarrow> 0 \<le> rd_pos r \<and> rd_pos r \<le> rd_end r \<and> rd_end r \<le> int (length (rd_buf r)) \<and>
     length (rd_buf r) < 2 ^ 31"

text \<open>The bytes the window still holds.\<close>

definition window :: "reader \<Rightarrow> bytes" where
  "window r = slice (rd_buf r) (nat (rd_pos r)) (nat (rd_end r))"

definition rd_fault :: "reader \<Rightarrow> err option \<Rightarrow> err" where
  "rd_fault r code = (case code of Some c \<Rightarrow> c | None \<Rightarrow> rd_default r)"

definition advance :: "reader \<Rightarrow> nat \<Rightarrow> reader" where
  "advance r n = r\<lparr>rd_pos := rd_pos r + int n\<rparr>"

lemma to_int32_id: "0 \<le> n \<Longrightarrow> n < 2 ^ 31 \<Longrightarrow> to_int32 n = n"
  by (simp add: to_int32_def)

lemma length_window: "reader_ok r \<Longrightarrow> length (window r) = nat (rd_end r - rd_pos r)"
  by (auto simp: reader_ok_def window_def)

lemma rd_need_iff: "reader_ok r \<Longrightarrow>
    rd_need r (int n) c = (if n \<le> length (window r) then Inr () else Inl (rd_fault r c))"
  by (auto simp: rd_need_def rd_fault_def length_window) (auto simp: reader_ok_def)

lemma reader_ok_advance: "reader_ok r \<Longrightarrow> n \<le> length (window r) \<Longrightarrow> reader_ok (advance r n)"
  unfolding length_window by (auto simp: reader_ok_def advance_def)

lemma window_advance: "reader_ok r \<Longrightarrow> window (advance r n) = drop n (window r)"
  by (auto simp: window_def advance_def slice_def drop_take reader_ok_def nat_add_distrib add.commute)

lemma slice_window: "reader_ok r \<Longrightarrow> n \<le> length (window r) \<Longrightarrow>
    slice (rd_buf r) (nat (rd_pos r)) (nat (rd_pos r) + n) = take n (window r)"
  unfolding length_window by (auto simp: window_def slice_def reader_ok_def min_def)

lemma subarray_window: "reader_ok r \<Longrightarrow> n \<le> length (window r) \<Longrightarrow>
    subarray (rd_buf r) (rd_pos r) (rd_pos r + int n) = take n (window r)"
proof -
  assume ok: "reader_ok r" and n: "n \<le> length (window r)"
  have "rd_pos r + int n \<le> int (length (rd_buf r))"
    using n ok unfolding length_window[OF ok] by (auto simp: reader_ok_def)
  then have "subarray (rd_buf r) (rd_pos r) (rd_pos r + int n) =
      slice (rd_buf r) (nat (rd_pos r)) (nat (rd_pos r) + n)"
    using ok by (auto simp: subarray_def Let_def reader_ok_def min_def nat_add_distrib)
  then show ?thesis by (simp add: slice_window[OF ok n])
qed

lemma read_be_window: "reader_ok r \<Longrightarrow> n \<le> length (window r) \<Longrightarrow>
    read_be (rd_buf r) (rd_pos r) n = Inr (be_val (take n (window r)))"
  by (auto simp: read_be_def slice_window) (auto simp: length_window reader_ok_def)

lemma buf_at_window: "reader_ok r \<Longrightarrow> k < length (window r) \<Longrightarrow>
    buf_at (rd_buf r) (rd_pos r + int k) = Some (unat (window r ! k))"
  unfolding length_window
  by (auto simp: buf_at_def reader_ok_def window_def slice_def nat_add_distrib)

lemma be_val_1: "be_val [a] = unat a"
  using be_val_Cons[of a "[]"] by simp

lemma be_val_3: "be_val [a, b, c] = unat a * 65536 + unat b * 256 + unat c"
  by (simp add: be_val_Cons)

lemma shift_or_24: "a < 256 \<Longrightarrow> b < 256 \<Longrightarrow> c < (256::nat) \<Longrightarrow>
    (push_bit 16 a OR push_bit 8 b) OR c = a * 65536 + b * 256 + c"
proof -
  assume b: "b < 256" and c: "c < (256::nat)"
  have "push_bit 16 a OR push_bit 8 b = a * 65536 + b * 256"
    using nat_or_low[of "b * 256" 16 a] b by (simp add: push_bit_eq_mult)
  moreover have "(a * 65536 + b * 256) OR c = a * 65536 + b * 256 + c"
    using nat_or_low[of c 8 "a * 256 + b"] c by (simp add: algebra_simps)
  ultimately show ?thesis by simp
qed

lemma rd_u8_ok: "reader_ok r \<Longrightarrow> rd_u8 r c =
    (if 1 \<le> length (window r) then Inr (Some (be_val (take 1 (window r))), advance r 1)
     else Inl (rd_fault r c))"
proof -
  assume ok: "reader_ok r"
  show ?thesis
    using rd_need_iff[OF ok, of 1 c] buf_at_window[OF ok, of 0]
    by (cases "window r") (auto simp: rd_u8_def advance_def be_val_1)
qed

lemma rd_u16_ok: "reader_ok r \<Longrightarrow> rd_u16 r c =
    (if 2 \<le> length (window r) then Inr (be_val (take 2 (window r)), advance r 2)
     else Inl (rd_fault r c))"
  using rd_need_iff[of r 2 c] by (auto simp: rd_u16_def read_be_window advance_def)

lemma rd_u32_ok: "reader_ok r \<Longrightarrow> rd_u32 r c =
    (if 4 \<le> length (window r) then Inr (be_val (take 4 (window r)), advance r 4)
     else Inl (rd_fault r c))"
  using rd_need_iff[of r 4 c] by (auto simp: rd_u32_def read_be_window advance_def)

lemma rd_u64_ok: "reader_ok r \<Longrightarrow> rd_u64 r c =
    (if 8 \<le> length (window r) then Inr (be_val (take 8 (window r)), advance r 8)
     else Inl (rd_fault r c))"
  using rd_need_iff[of r 8 c] by (auto simp: rd_u64_def read_be_window advance_def)

lemma rd_u24_ok:
  assumes ok: "reader_ok r"
  shows "rd_u24 r c =
    (if 3 \<le> length (window r) then Inr (be_val (take 3 (window r)), advance r 3)
     else Inl (rd_fault r c))"
proof (cases "3 \<le> length (window r)")
  case True
  then obtain x y z rest where w: "window r = x # y # z # rest"
    by (cases "window r"; cases "tl (window r)"; cases "tl (tl (window r))") auto
  have at: "buf_at (rd_buf r) (rd_pos r) = Some (unat x)"
      "buf_at (rd_buf r) (rd_pos r + 1) = Some (unat y)"
      "buf_at (rd_buf r) (rd_pos r + 2) = Some (unat z)"
    using buf_at_window[OF ok, of 0] buf_at_window[OF ok, of 1] buf_at_window[OF ok, of 2] w by auto
  show ?thesis
    using rd_need_iff[OF ok, of 3 c] True
    by (simp add: rd_u24_def at bits_of_def shift_or_24 Let_def w be_val_3 advance_def)
next
  case False
  then show ?thesis using rd_need_iff[OF ok, of 3 c] by (simp add: rd_u24_def)
qed

lemma rd_fixed_ok: "reader_ok r \<Longrightarrow> rd_fixed r n c =
    (if n \<le> length (window r) then Inr (take n (window r), advance r n) else Inl (rd_fault r c))"
  by (auto simp: rd_fixed_def rd_need_iff subarray_window advance_def)

definition vec_width :: "nat \<Rightarrow> nat" where
  "vec_width w = (if w = 3 then 3 else 2)"

lemma rd_vector_ok:
  assumes ok: "reader_ok r"
  shows "rd_vector r lw mn mx code =
    (if length (window r) < vec_width lw then Inl (rd_default r)
     else let len = be_val (take (vec_width lw) (window r));
              rest = drop (vec_width lw) (window r) in
       if len < mn \<or> (\<exists>m. mx = Some m \<and> len > m) \<or> length rest < len then Inl code
       else Inr (take len rest, advance r (vec_width lw + len)))"
proof -
  have adv: "advance (advance r a) b = advance r (a + b)" for a b
    by (simp add: advance_def)
  have hd: "(if lw = 3 then rd_u24 r None else rd_u16 r None) =
    (if length (window r) < vec_width lw then Inl (rd_default r)
     else Inr (be_val (take (vec_width lw) (window r)), advance r (vec_width lw)))"
    by (auto simp: vec_width_def rd_u24_ok[OF ok] rd_u16_ok[OF ok] rd_fault_def)
  show ?thesis
  proof (cases "length (window r) < vec_width lw")
    case False
    let ?r = "advance r (vec_width lw)"
    have ok': "reader_ok ?r" using False by (intro reader_ok_advance[OF ok]) simp
    have w': "window ?r = drop (vec_width lw) (window r)" by (rule window_advance[OF ok])
    show ?thesis
      unfolding rd_vector_def hd using False
      by (auto simp: Let_def rd_need_iff[OF ok'] subarray_window[OF ok'] w' rd_fault_def
            split: option.splits) (auto simp: advance_def)
  qed (simp add: rd_vector_def hd)
qed

lemma rd_subReader_ok:
  assumes ok: "reader_ok r" and n: "n \<le> length (window r)"
  shows "\<exists>sub. rd_subReader r n c = Inr (sub, advance r n) \<and> reader_ok sub \<and>
     window sub = take n (window r) \<and> rd_end sub = rd_pos r + int n \<and> rd_default sub = rd_default r"
proof -
  let ?s = "ByteReader (rd_buf r) (rd_pos r) (Some (rd_pos r + int n)) (rd_default r)"
  have b: "0 \<le> rd_pos r" "rd_pos r + int n \<le> int (length (rd_buf r))" "length (rd_buf r) < 2 ^ 31"
    using ok n unfolding length_window[OF ok] by (auto simp: reader_ok_def)
  then have i: "to_int32 (rd_pos r) = rd_pos r" "to_int32 (rd_pos r + int n) = rd_pos r + int n"
    by (auto intro!: to_int32_id)
  have "window ?s = take n (window r)"
    using slice_window[OF ok n] b by (simp add: window_def ByteReader_def i nat_add_distrib)
  moreover have "reader_ok ?s" using b by (simp add: reader_ok_def ByteReader_def i)
  ultimately show ?thesis
    using rd_need_iff[OF ok, of n c] n by (simp add: rd_subReader_def ByteReader_def i advance_def)
qed

section \<open>The contract of a fixed-width field\<close>

text \<open>
  One integer field of a wire format: a reader operation, a writer operation and a width in
  octets.  The laws say what each does on its own; the round trip follows from them once.
\<close>

definition writer_ok :: "writer \<Rightarrow> bool" where
  "writer_ok w \<longleftrightarrow> wr_len w = length (concat (wr_parts w))"

lemma wr_build_ok: "writer_ok w \<Longrightarrow> wr_build w = concat (wr_parts w)"
  by (simp add: wr_build_def writer_ok_def)

lemma writer_ok_push [simp]: "writer_ok w \<Longrightarrow> writer_ok (wr_push w b)"
  by (simp add: writer_ok_def wr_push_def)

lemma wr_build_push: "writer_ok w \<Longrightarrow> wr_build (wr_push w b) = wr_build w @ b"
  by (simp add: wr_build_ok) (simp add: wr_push_def)

lemma writer_ok_new [simp]: "writer_ok (ByteWriter d)"
  by (simp add: writer_ok_def ByteWriter_def)

lemma wr_build_new [simp]: "wr_build (ByteWriter d) = []"
  by (simp add: wr_build_def ByteWriter_def)

locale be_field =
  fixes rd :: "reader \<Rightarrow> err option \<Rightarrow> (nat \<times> reader) res"
    and wr :: "writer \<Rightarrow> js \<Rightarrow> err option \<Rightarrow> writer res"
    and width :: nat
  assumes rd_law: "reader_ok r \<Longrightarrow> rd r c =
      (if width \<le> length (window r) then Inr (be_val (take width (window r)), advance r width)
       else Inl (rd_fault r c))"
    and wr_law: "wr w (Num n) c = Inr w' \<Longrightarrow>
      0 \<le> n \<and> n < 256 ^ width \<and> w' = wr_push w (be_bytes width (nat n))"
begin

lemma rd_keeps_ok:
  assumes "reader_ok r" and "rd r c = Inr (v, r')"
  shows "reader_ok r' \<and> window r' = drop width (window r) \<and> rd_end r' = rd_end r \<and>
         rd_buf r' = rd_buf r \<and> v < 256 ^ width"
proof -
  from assms have len: "width \<le> length (window r)" and v: "v = be_val (take width (window r))"
    and r': "r' = advance r width"
    by (auto simp: rd_law split: if_splits)
  have "v < 256 ^ width" using be_val_bound[of "take width (window r)"] len by (simp add: v min_absorb2)
  then show ?thesis
    using reader_ok_advance[OF assms(1) len] window_advance[OF assms(1), of width]
    by (simp add: r' advance_def)
qed

lemma read_written:
  assumes w: "writer_ok w" "wr w (Num n) c = Inr w'"
    and r: "reader_ok r" "window r = drop (length (wr_build w)) (wr_build w') @ rest"
  shows "rd r c' = Inr (nat n, advance r width)"
    and "reader_ok (advance r width)" and "window (advance r width) = rest"
    and "writer_ok w'" and "\<exists>b. wr_build w' = wr_build w @ b"
proof -
  from wr_law[OF w(2)] have n: "0 \<le> n" "n < 256 ^ width"
    and w': "w' = wr_push w (be_bytes width (nat n))" by auto
  have win: "window r = be_bytes width (nat n) @ rest"
    using r(2) w(1) by (simp add: w' wr_build_push)
  have lt: "nat n < 256 ^ width" using n by (simp add: nat_less_iff)
  show "rd r c' = Inr (nat n, advance r width)"
    using lt by (simp add: rd_law[OF r(1)] win)
  show "reader_ok (advance r width)" using win by (intro reader_ok_advance[OF r(1)]) simp
  show "window (advance r width) = rest" by (simp add: window_advance[OF r(1)] win)
  show "writer_ok w'" "\<exists>b. wr_build w' = wr_build w @ b"
    using w(1) by (auto simp: w' wr_build_push)
qed

end

definition rd_u8_value :: "reader \<Rightarrow> err option \<Rightarrow> (nat \<times> reader) res" where
  "rd_u8_value r c = bindR (rd_u8 r c) (\<lambda>(v, r'). Inr (bits_of v, r'))"

lemma wr_uint_law:
  "wr_uint w (Num n) (Num (int k)) c = Inr w' \<Longrightarrow> 1 \<le> k \<Longrightarrow> k \<le> 4 \<Longrightarrow>
     0 \<le> n \<and> n < 256 ^ k \<and> w' = wr_push w (be_bytes k (nat n))"
proof -
  assume h: "wr_uint w (Num n) (Num (int k)) c = Inr w'" and k: "1 \<le> k" "k \<le> 4"
  consider "k = 1" | "k = 2" | "k = 3" | "k = 4" using k by linarith
  then show ?thesis
    using h by cases (auto simp: wr_uint_def Let_def split: if_splits)
qed

interpretation f_u8: be_field rd_u8_value wr_u8 1
proof
  show "rd_u8_value r c = (if 1 \<le> length (window r) then Inr (be_val (take 1 (window r)), advance r 1)
      else Inl (rd_fault r c))" if "reader_ok r" for r c
    by (simp add: rd_u8_value_def rd_u8_ok[OF that] bits_of_def)
  show "0 \<le> n \<and> n < 256 ^ 1 \<and> w' = wr_push w (be_bytes 1 (nat n))"
    if "wr_u8 w (Num n) c = Inr w'" for w n c w'
    using wr_uint_law[of w n 1 c w'] that by (simp add: wr_u8_def)
qed

interpretation f_u16: be_field rd_u16 wr_u16 2
proof
  show "0 \<le> n \<and> n < 256 ^ 2 \<and> w' = wr_push w (be_bytes 2 (nat n))"
    if "wr_u16 w (Num n) c = Inr w'" for w n c w'
    using wr_uint_law[of w n 2 c w'] that by (simp add: wr_u16_def)
qed (rule rd_u16_ok)

interpretation f_u24: be_field rd_u24 wr_u24 3
proof
  show "0 \<le> n \<and> n < 256 ^ 3 \<and> w' = wr_push w (be_bytes 3 (nat n))"
    if "wr_u24 w (Num n) c = Inr w'" for w n c w'
    using wr_uint_law[of w n 3 c w'] that by (simp add: wr_u24_def)
qed (rule rd_u24_ok)

interpretation f_u32: be_field rd_u32 wr_u32 4
proof
  show "0 \<le> n \<and> n < 256 ^ 4 \<and> w' = wr_push w (be_bytes 4 (nat n))"
    if "wr_u32 w (Num n) c = Inr w'" for w n c w'
    using wr_uint_law[of w n 4 c w'] that by (simp add: wr_u32_def)
qed (rule rd_u32_ok)

interpretation f_u64: be_field rd_u64 wr_u64 8
proof
  show "0 \<le> n \<and> n < 256 ^ 8 \<and> w' = wr_push w (be_bytes 8 (nat n))"
    if "wr_u64 w (Num n) c = Inr w'" for w n c w'
    using that by (auto simp: wr_u64_def split: if_splits)
qed (rule rd_u64_ok)

section \<open>A wire format as a sequence of fields\<close>

text \<open>
  What a format module does with the two classes is to write, respectively read, its fields in
  order.  A field is its value together with the operation it goes through; \<open>FVec\<close> is a vector of
  length prefix \<open>lw\<close> (2 or 3, the two the reader has).
\<close>

datatype field = FU8 int | FU16 int | FU24 int | FU32 int | FU64 int | FFixed bytes
  | FVec nat nat "nat option" bytes

fun field_wf :: "field \<Rightarrow> bool" where
  "field_wf (FVec lw mn mx b) = (lw = 2 \<or> lw = 3)"
| "field_wf f = True"

definition js_opt :: "nat option \<Rightarrow> js" where
  "js_opt m = (case m of None \<Rightarrow> Null | Some k \<Rightarrow> Num (int k))"

fun write_field :: "writer \<Rightarrow> field \<Rightarrow> writer res" where
  "write_field w (FU8 n) = wr_u8 w (Num n) None"
| "write_field w (FU16 n) = wr_u16 w (Num n) None"
| "write_field w (FU24 n) = wr_u24 w (Num n) None"
| "write_field w (FU32 n) = wr_u32 w (Num n) None"
| "write_field w (FU64 n) = wr_u64 w (Num n) None"
| "write_field w (FFixed b) = wr_bytes w (Buf b) None"
| "write_field w (FVec lw mn mx b) =
     wr_vector w (Num (int lw)) (Num (int mn)) (js_opt mx) (Buf b) None"

fun write_fields :: "writer \<Rightarrow> field list \<Rightarrow> writer res" where
  "write_fields w [] = Inr w"
| "write_fields w (f # fs) = bindR (write_field w f) (\<lambda>w'. write_fields w' fs)"

definition int_field :: "(int \<Rightarrow> field) \<Rightarrow> (nat \<times> reader) res \<Rightarrow> (field \<times> reader) res" where
  "int_field F m = bindR m (\<lambda>(v, r). Inr (F (int v), r))"

text \<open>Only the shape of the first argument is used: its operation, widths and bounds.\<close>

fun read_field :: "field \<Rightarrow> reader \<Rightarrow> (field \<times> reader) res" where
  "read_field (FU8 _) r = int_field FU8 (rd_u8_value r None)"
| "read_field (FU16 _) r = int_field FU16 (rd_u16 r None)"
| "read_field (FU24 _) r = int_field FU24 (rd_u24 r None)"
| "read_field (FU32 _) r = int_field FU32 (rd_u32 r None)"
| "read_field (FU64 _) r = int_field FU64 (rd_u64 r None)"
| "read_field (FFixed b) r =
     bindR (rd_fixed r (length b) None) (\<lambda>(v, r'). Inr (FFixed v, r'))"
| "read_field (FVec lw mn mx _) r =
     bindR (rd_vector r lw mn mx (rd_default r)) (\<lambda>(v, r'). Inr (FVec lw mn mx v, r'))"

fun read_fields :: "field list \<Rightarrow> reader \<Rightarrow> (field list \<times> reader) res" where
  "read_fields [] r = Inr ([], r)"
| "read_fields (f # fs) r = bindR (read_field f r) (\<lambda>(v, r').
     bindR (read_fields fs r') (\<lambda>(vs, r''). Inr (v # vs, r'')))"

text \<open>The relation between a written piece and the reader that meets it.\<close>

definition reads_back :: "field \<Rightarrow> writer \<Rightarrow> writer \<Rightarrow> bool" where
  "reads_back f w w' \<longleftrightarrow> writer_ok w' \<and> (\<exists>b. wr_build w' = wr_build w @ b \<and>
     (\<forall>r rest. reader_ok r \<and> window r = b @ rest \<longrightarrow>
        (\<exists>r'. read_field f r = Inr (f, r') \<and> reader_ok r' \<and> window r' = rest)))"

lemma int_field_back:
  assumes "be_field rd wr k" and "writer_ok w" and "wr w (Num n) None = Inr w'"
    and "\<And>r. read_field (F n) r = int_field F (rd r None)"
  shows "reads_back (F n) w w'"
proof -
  from be_field.wr_law[OF assms(1,3)] have n: "0 \<le> n" "n < 256 ^ k"
    and w': "w' = wr_push w (be_bytes k (nat n))" by auto
  have "\<exists>r'. read_field (F n) r = Inr (F n, r') \<and> reader_ok r' \<and> window r' = rest"
    if "reader_ok r" "window r = be_bytes k (nat n) @ rest" for r rest
  proof -
    have win: "window r = drop (length (wr_build w)) (wr_build w') @ rest"
      using that(2) assms(2) by (simp add: w' wr_build_push)
    show ?thesis
      using be_field.read_written(1-3)[OF assms(1-3) that(1) win] n
      by (simp add: assms(4) int_field_def)
  qed
  then show ?thesis
    using assms(2) by (auto simp: reads_back_def w' wr_build_push)
qed

lemma wr_vector_Inr:
  assumes "wr_vector w (Num (int lw)) (Num (int mn)) (js_opt mx) (Buf b) c = Inr w'"
    and "lw = 2 \<or> lw = 3"
  shows "mn \<le> length b" and "\<And>m. mx = Some m \<Longrightarrow> length b \<le> m"
    and "length b < 256 ^ lw" and "w' = wr_push (wr_push w (be_bytes lw (length b))) b"
proof -
  have "mn \<le> length b \<and> (\<forall>m. mx = Some m \<longrightarrow> length b \<le> m) \<and>
     (\<exists>w1. wr_uint w (Num (int (length b))) (Num (int lw)) c = Inr w1 \<and> w' = wr_push w1 b)"
    using assms(1) by (auto simp: wr_vector_def js_opt_def js_Number_def Let_def res_simps
        split: option.splits if_splits)
  then show "mn \<le> length b" "\<And>m. mx = Some m \<Longrightarrow> length b \<le> m"
    "length b < 256 ^ lw" "w' = wr_push (wr_push w (be_bytes lw (length b))) b"
    using wr_uint_law[of w "int (length b)" lw c] assms(2) by auto
qed

lemma vec_back:
  assumes "writer_ok w" and "write_field w (FVec lw mn mx b) = Inr w'" and "lw = 2 \<or> lw = 3"
  shows "reads_back (FVec lw mn mx b) w w'"
proof -
  note v = wr_vector_Inr[OF assms(2)[unfolded write_field.simps] assms(3)]
  have "vec_width lw = lw" using assms(3) by (auto simp: vec_width_def)
  then have "\<exists>r'. read_field (FVec lw mn mx b) r = Inr (FVec lw mn mx b, r') \<and> reader_ok r' \<and>
      window r' = rest" if "reader_ok r" "window r = (be_bytes lw (length b) @ b) @ rest" for r rest
    using that v(1-3)
    by (auto simp: rd_vector_ok Let_def window_advance intro!: reader_ok_advance)
  then show ?thesis
    using assms(1) by (auto simp: reads_back_def v(4) wr_build_push)
qed

lemma write_field_back:
  assumes "writer_ok w" and "write_field w f = Inr w'" and "field_wf f"
  shows "reads_back f w w'"
proof (cases f)
  case (FFixed b)
  then have w': "w' = wr_push w b" using assms(2) by (simp add: wr_bytes_def)
  have "\<exists>r'. read_field (FFixed b) r = Inr (FFixed b, r') \<and> reader_ok r' \<and> window r' = rest"
    if "reader_ok r" "window r = b @ rest" for r rest
    using that by (auto simp: rd_fixed_ok window_advance intro!: reader_ok_advance)
  then show ?thesis using assms(1) by (auto simp: FFixed reads_back_def w' wr_build_push)
next
  case (FVec lw mn mx b)
  then show ?thesis using vec_back assms by simp
qed (use assms in \<open>auto intro: int_field_back[OF f_u8.be_field_axioms]
      int_field_back[OF f_u16.be_field_axioms] int_field_back[OF f_u24.be_field_axioms]
      int_field_back[OF f_u32.be_field_axioms] int_field_back[OF f_u64.be_field_axioms]\<close>)

lemma write_fields_grows:
  "writer_ok w \<Longrightarrow> write_fields w fs = Inr w' \<Longrightarrow> list_all field_wf fs \<Longrightarrow>
     writer_ok w' \<and> (\<exists>b. wr_build w' = wr_build w @ b)"
proof (induction fs arbitrary: w)
  case (Cons f fs)
  then obtain w1 where "write_field w f = Inr w1" "write_fields w1 fs = Inr w'"
    by (auto simp: res_simps)
  then show ?case using Cons write_field_back[of w f w1] by (fastforce simp: reads_back_def)
qed auto

lemma write_fields_back:
  assumes "writer_ok w" and "write_fields w fs = Inr w'" and "list_all field_wf fs"
    and "reader_ok r" and "window r = drop (length (wr_build w)) (wr_build w')"
  shows "\<exists>r'. read_fields fs r = Inr (fs, r') \<and> reader_ok r' \<and> window r' = []"
  using assms
proof (induction fs arbitrary: w r)
  case (Cons f fs)
  from Cons.prems(2) obtain w1 where w1: "write_field w f = Inr w1" "write_fields w1 fs = Inr w'"
    by (auto simp: res_simps)
  from write_field_back[OF Cons.prems(1) w1(1)] Cons.prems(3) obtain b where
    ok1: "writer_ok w1" and b: "wr_build w1 = wr_build w @ b"
    and rb: "\<And>r rest. reader_ok r \<Longrightarrow> window r = b @ rest \<Longrightarrow>
        \<exists>r'. read_field f r = Inr (f, r') \<and> reader_ok r' \<and> window r' = rest"
    by (auto simp: reads_back_def)
  from write_fields_grows[OF ok1 w1(2)] Cons.prems(3) obtain b2 where
    b2: "wr_build w' = wr_build w1 @ b2" by auto
  have "window r = b @ b2" using Cons.prems(5) by (simp add: b2 b)
  from rb[OF Cons.prems(4) this] obtain r1 where
    r1: "read_field f r = Inr (f, r1)" "reader_ok r1" "window r1 = b2" by auto
  have "\<exists>r'. read_fields fs r1 = Inr (fs, r') \<and> reader_ok r' \<and> window r' = []"
    using Cons.prems(3) r1 by (intro Cons.IH[OF ok1 w1(2)]) (auto simp: b2)
  then show ?case using r1(1) by auto
qed auto

end
