(* ===== verification/Cbor.thy ===== *)
theory Cbor
  imports Limits Ranges Guard_List Utf8 Oid_Codec Js_Date
begin

text \<open>
  lib/cbor-det.js: the decoder for deterministically encoded CBOR (RFC 8949 section 4.2), the typed
  readers and the builders.  BigInt arguments are \<open>nat\<close> below \<open>2^64\<close>; the platform's view of a float's
  bits (\<open>DataView.getFloat16\<close> and its siblings) is written out as a sign, an odd significand and a
  power of two, and a round trip through a narrower format is exact representability in it.
\<close>

section \<open>Floats\<close>

datatype fval = FNaN | FInf bool | FZero bool | FFin bool nat int

text \<open>The significand without its trailing zero bits.\<close>

fun odd_part :: "nat \<Rightarrow> int \<Rightarrow> nat \<times> int" where
  "odd_part m e = (if m \<noteq> 0 \<and> even m then odd_part (m div 2) (e + 1) else (m, e))"

declare odd_part.simps [simp del]

definition float_bits :: "nat \<Rightarrow> nat \<Rightarrow> nat \<Rightarrow> fval" where
  "float_bits ebits mbits a =
     (let s = odd (a div 2 ^ (ebits + mbits)); x = a div 2 ^ mbits mod 2 ^ ebits; m = a mod 2 ^ mbits;
          emin = 2 - 2 ^ (ebits - 1) - int mbits in
      if x = 2 ^ ebits - 1 then (if m = 0 then FInf s else FNaN)
      else if x = 0 then (if m = 0 then FZero s else case odd_part m emin of (n, e) \<Rightarrow> FFin s n e)
      else case odd_part (2 ^ mbits + m) (emin + int x - 1) of (n, e) \<Rightarrow> FFin s n e)"

definition readFloatBits :: "nat \<Rightarrow> nat \<Rightarrow> fval" where
  "readFloatBits argument ai =
     (if ai = 25 then float_bits 5 10 argument
      else if ai = 26 then float_bits 8 23 argument
      else float_bits 11 52 argument)"

text \<open>Exact representability: \<open>Object.is\<close> of a value and its image in the narrower format.\<close>

definition representable :: "nat \<Rightarrow> nat \<Rightarrow> fval \<Rightarrow> bool" where
  "representable ebits mbits d =
     (case d of
        FFin s m e \<Rightarrow> let emin = 2 - 2 ^ (ebits - 1) - int mbits in
          m < 2 ^ (mbits + 1) \<and> emin \<le> e \<and> m * 2 ^ nat (e - emin) < 2 ^ (mbits + 2 ^ ebits - 2)
      | _ \<Rightarrow> True)"

definition halfRoundtrips :: "fval \<Rightarrow> bool" where "halfRoundtrips d = representable 5 10 d"
definition singleRoundtrips :: "fval \<Rightarrow> bool" where "singleRoundtrips d = representable 8 23 d"

section \<open>The head of an item\<close>

definition arg_bytes :: "nat \<Rightarrow> nat" where
  "arg_bytes ai = (if ai = 24 then 1 else if ai = 25 then 2 else if ai = 26 then 4 else 8)"

definition min_for_width :: "nat \<Rightarrow> nat" where
  "min_for_width k = (if k = 1 then 24 else if k = 2 then 256 else if k = 4 then 65536 else 4294967296)"

text \<open>The major type, the additional information, the argument and where the content starts.\<close>

definition item_head :: "bytes \<Rightarrow> nat \<Rightarrow> nat \<Rightarrow> (nat \<times> nat \<times> nat \<times> nat) res" where
  "item_head buf start limit =
     (if start \<ge> limit then Inl (CborE Cbor_truncated)
      else let ib = unat (buf ! start); p = start + 1; mt = drop_bit 5 ib; ai = ib AND 0x1F in
        if ib = 0xFF then Inl (CborE Cbor_unexpected_break)
        else if ai = 28 \<or> ai = 29 \<or> ai = 30 then Inl (CborE Cbor_reserved_ai)
        else if ai = 31 then
          (if mt = 2 \<or> mt = 3 \<or> mt = 4 \<or> mt = 5 then Inl (CborE Cbor_indefinite_length)
           else Inl (CborE Cbor_reserved_ai))
        else if ai \<le> 23 then Inr (mt, ai, ai, p)
        else let k = arg_bytes ai in
          if p + k > limit then Inl (CborE Cbor_truncated)
          else let argument = be_val (slice buf p (p + k)) in
            if mt \<noteq> 7 \<and> argument < min_for_width k then Inl (CborE Cbor_non_minimal_argument)
            else Inr (mt, ai, argument, p + k))"

definition check_simple :: "nat \<Rightarrow> nat \<Rightarrow> unit res" where
  "check_simple ai argument =
     (if ai \<le> 23 then Inr ()
      else if ai = 24 then (if argument < 32 then Inl (CborE Cbor_reserved_simple) else Inr ())
      else let d = readFloatBits argument ai in
        if d = FNaN then
          (if \<not> (ai = 25 \<and> argument = 0x7e00) then Inl (CborE Cbor_non_canonical_nan) else Inr ())
        else if ai = 26 then
          (if halfRoundtrips d then Inl (CborE Cbor_non_minimal_float) else Inr ())
        else if ai = 27 then
          (if halfRoundtrips d \<or> singleRoundtrips d then Inl (CborE Cbor_non_minimal_float) else Inr ())
        else Inr ())"

section \<open>Nodes\<close>

text \<open>\<open>children\<close> is \<open>null\<close>, a list of nodes (an array's elements, a tag's one item), or a list of pairs.\<close>

datatype 'a kids = NoKids | Items "'a list" | Pairs "('a \<times> 'a) list"

datatype cnode = CNode
  (majorType: nat) (cn_ai: nat) (argument: nat) (cn_content: "bytes option") (cn_children: "cnode kids")
  (cn_start: nat) (cn_contentStart: nat) (cn_end: nat) (cn_bytes: bytes)

section \<open>The recursion\<close>

type_synonym item_out = "(cnode \<times> nat \<times> nat) res"

text \<open>The loops over the elements of an array and the entries of a map, for the decoding \<open>f\<close> of one item
  at a position and an item count; \<open>prev\<close> holds the octets of the key before.\<close>

primrec elements :: "(nat \<Rightarrow> nat \<Rightarrow> item_out) \<Rightarrow> nat \<Rightarrow> nat \<Rightarrow> nat \<Rightarrow> (cnode list \<times> nat \<times> nat) res" where
  "elements f 0 p n = Inr ([], p, n)"
| "elements f (Suc k) p n =
     bindR (f p n) (\<lambda>(el, p, n). bindR (elements f k p n) (\<lambda>(rest, p, n). Inr (el # rest, p, n)))"

definition check_key :: "bytes option \<Rightarrow> bytes \<Rightarrow> unit res" where
  "check_key prev key =
     (case prev of
        None \<Rightarrow> Inr ()
      | Some pk \<Rightarrow> let c = buf_compare pk key in
          if c > 0 then Inl (CborE Cbor_unsorted_map_keys)
          else if c = 0 then Inl (CborE Cbor_duplicate_map_key) else Inr ())"

primrec entries :: "(nat \<Rightarrow> nat \<Rightarrow> item_out) \<Rightarrow> nat \<Rightarrow> bytes option \<Rightarrow> nat \<Rightarrow> nat
    \<Rightarrow> ((cnode \<times> cnode) list \<times> nat \<times> nat) res" where
  "entries f 0 prev p n = Inr ([], p, n)"
| "entries f (Suc k) prev p n =
     bindR (f p n) (\<lambda>(key, p, n). bindR (f p n) (\<lambda>(v, p, n).
     bindR (check_key prev (cn_bytes key)) (\<lambda>_.
     bindR (entries f k (Some (cn_bytes key)) p n) (\<lambda>(rest, p, n). Inr ((key, v) # rest, p, n)))))"

primrec decodeItem :: "nat \<Rightarrow> bytes \<Rightarrow> nat \<Rightarrow> nat \<Rightarrow> nat \<Rightarrow> nat \<Rightarrow> nat \<Rightarrow> nat \<Rightarrow> item_out" where
  "decodeItem 0 buf limit maxD mx depth start n = Inl OutOfFuel"
| "decodeItem (Suc fuel) buf limit maxD mx depth start n =
     (if depth > maxD then Inl (CborE Cbor_too_deep)
      else let n = n + 1 in
      if n > mx then Inl (CborE Cbor_too_many_items)
      else bindR (item_head buf start limit) (\<lambda>(mt, ai, arg, cs).
        let sub = decodeItem fuel buf limit maxD mx (depth + 1);
            node = (\<lambda>content children end n.
              (CNode mt ai arg content children start cs end (slice buf start end), end, n)) in
        if mt = 0 \<or> mt = 1 then Inr (node None NoKids cs n)
        else if mt = 2 \<or> mt = 3 then
          (if cs + arg > limit then Inl (CborE Cbor_truncated)
           else let c = slice buf cs (cs + arg) in
             if mt = 3 \<and> utf8_decode c = None then Inl (CborE Cbor_bad_utf8)
             else Inr (node (Some c) NoKids (cs + arg) n))
        else if mt = 4 then bindR (elements sub arg cs n) (\<lambda>(els, p, n). Inr (node None (Items els) p n))
        else if mt = 5 then bindR (entries sub arg None cs n) (\<lambda>(ps, p, n). Inr (node None (Pairs ps) p n))
        else if mt = 6 then bindR (sub cs n) (\<lambda>(inner, p, n). Inr (node None (Items [inner]) p n))
        else bindR (check_simple ai arg) (\<lambda>_. Inr (node None NoKids cs n))))"

record cbor_opts =
  co_maxBytes :: js
  co_maxDepth :: js
  co_maxItems :: js
  co_profile :: js
  co_allowTrailing :: bool

definition cbor_no_opts :: cbor_opts where
  "cbor_no_opts = \<lparr>co_maxBytes = Undef, co_maxDepth = Undef, co_maxItems = Undef, co_profile = Undef, co_allowTrailing = False\<rparr>"

definition profile :: "js \<Rightarrow> unit res" where
  "profile name = (if name = Undef \<or> name = Str (js_lit ''deterministic'') then Inr () else Inl TypeErr)"

definition cbor_fuel :: "int \<Rightarrow> nat" where
  "cbor_fuel maxDepth = nat maxDepth + 2"

definition cbor_decode :: "bytes \<Rightarrow> cbor_opts \<Rightarrow> cnode res" where
  "cbor_decode buf opts =
     bindR (cap (co_maxBytes opts) (int CBOR_MAX_BYTES) Undef Undef None) (\<lambda>maxBytes.
     bindR (depthCap (co_maxDepth opts) (int CBOR_MAX_DEPTH)) (\<lambda>maxDepth.
     bindR (cap (co_maxItems opts) (int CBOR_MAX_ITEMS) Undef Undef None) (\<lambda>maxItems.
     bindR (profile (co_profile opts)) (\<lambda>_.
     if int (length buf) > maxBytes then Inl (CborE Cbor_too_large)
     else bindR (decodeItem (cbor_fuel maxDepth) buf (length buf) (nat maxDepth) (nat maxItems) 0 0 0)
       (\<lambda>(node, end, n).
         if \<not> co_allowTrailing opts \<and> end \<noteq> length buf then Inl (CborE Cbor_trailing_bytes) else Inr node)))))"

section \<open>Readers\<close>

definition expectMajor :: "cnode \<Rightarrow> nat \<Rightarrow> unit res" where
  "expectMajor n mt = (if majorType n \<noteq> mt then Inl (CborE Cbor_unexpected_major) else Inr ())"

text \<open>What the code reads of a member that is \<open>null\<close> is its TypeError.\<close>

definition cn_data :: "cnode \<Rightarrow> bytes res" where
  "cn_data n = (case cn_content n of Some b \<Rightarrow> Inr b | None \<Rightarrow> Inl TypeErr)"

definition cn_items :: "cnode \<Rightarrow> cnode list res" where
  "cn_items n = (case cn_children n of Items xs \<Rightarrow> Inr xs | _ \<Rightarrow> Inl TypeErr)"

definition cn_pairs :: "cnode \<Rightarrow> (cnode \<times> cnode) list res" where
  "cn_pairs n = (case cn_children n of Pairs xs \<Rightarrow> Inr xs | _ \<Rightarrow> Inl TypeErr)"

definition tagInner :: "cnode \<Rightarrow> nat \<Rightarrow> cnode res" where
  "tagInner n tagNum =
     (if majorType n \<noteq> 6 \<or> argument n \<noteq> tagNum then Inl (CborE Cbor_unexpected_tag)
      else bindR (cn_items n) (\<lambda>xs. case xs of x # _ \<Rightarrow> Inr x | [] \<Rightarrow> Inl TypeErr))"

definition cbor_readUint :: "cnode \<Rightarrow> int res" where
  "cbor_readUint n = bindR (expectMajor n 0) (\<lambda>_. Inr (int (argument n)))"

definition cbor_readNint :: "cnode \<Rightarrow> int res" where
  "cbor_readNint n = bindR (expectMajor n 1) (\<lambda>_. Inr (-1 - int (argument n)))"

definition cbor_readInt :: "cnode \<Rightarrow> int res" where
  "cbor_readInt n = (if majorType n = 0 then Inr (int (argument n))
     else if majorType n = 1 then Inr (-1 - int (argument n)) else Inl (CborE Cbor_unexpected_major))"

definition readByteString :: "cnode \<Rightarrow> bytes res" where
  "readByteString n = bindR (expectMajor n 2) (\<lambda>_. cn_data n)"

text \<open>\<open>toString("utf8")\<close>: the content was held to well-formed UTF-8 when it was decoded.\<close>

definition readTextString :: "cnode \<Rightarrow> jsstr res" where
  "readTextString n = bindR (expectMajor n 3) (\<lambda>_. bindR (cn_data n) (\<lambda>b.
     case utf8_decode b of Some s \<Rightarrow> Inr s | None \<Rightarrow> Inl (CborE Cbor_bad_utf8)))"

definition readArray :: "cnode \<Rightarrow> cnode list res" where
  "readArray n = bindR (expectMajor n 4) (\<lambda>_. cn_items n)"

definition readMap :: "cnode \<Rightarrow> (cnode \<times> cnode) list res" where
  "readMap n = bindR (expectMajor n 5) (\<lambda>_. cn_pairs n)"

datatype map_key = TextKey jsstr | IntKey int

definition map_key_of :: "js \<Rightarrow> map_key res" where
  "map_key_of key = (case key of
      Str s \<Rightarrow> Inr (TextKey s)
    | Num k \<Rightarrow> if is_safe_integer k then Inr (IntKey k) else Inl TypeErr
    | Big k \<Rightarrow> Inr (IntKey k)
    | _ \<Rightarrow> Inl TypeErr)"

definition key_matches :: "map_key \<Rightarrow> cnode \<Rightarrow> bool" where
  "key_matches want k = (case want of
      TextKey s \<Rightarrow> majorType k = 3 \<and> readTextString k = Inr s
    | IntKey i \<Rightarrow> (majorType k = 0 \<or> majorType k = 1) \<and> cbor_readInt k = Inr i)"

fun map_lookup :: "map_key \<Rightarrow> (cnode \<times> cnode) list \<Rightarrow> cnode option" where
  "map_lookup want [] = None"
| "map_lookup want ((k, v) # ps) = (if key_matches want k then Some v else map_lookup want ps)"

definition readMapGet :: "cnode \<Rightarrow> js \<Rightarrow> cnode option res" where
  "readMapGet n key = bindR (expectMajor n 5) (\<lambda>_. bindR (map_key_of key) (\<lambda>want.
     bindR (cn_pairs n) (\<lambda>ps. Inr (map_lookup want ps))))"

definition cbor_readBoolean :: "cnode \<Rightarrow> bool res" where
  "cbor_readBoolean n = bindR (expectMajor n 7) (\<lambda>_.
     if cn_ai n = 20 then Inr False else if cn_ai n = 21 then Inr True else Inl (CborE Cbor_bad_simple))"

definition cbor_readNull :: "cnode \<Rightarrow> unit res" where
  "cbor_readNull n = bindR (expectMajor n 7) (\<lambda>_. if cn_ai n \<noteq> 22 then Inl (CborE Cbor_bad_simple) else Inr ())"

definition readUndefined :: "cnode \<Rightarrow> unit res" where
  "readUndefined n = bindR (expectMajor n 7) (\<lambda>_. if cn_ai n \<noteq> 23 then Inl (CborE Cbor_bad_simple) else Inr ())"

definition readFloat :: "cnode \<Rightarrow> fval res" where
  "readFloat n = bindR (expectMajor n 7) (\<lambda>_.
     if cn_ai n \<noteq> 25 \<and> cn_ai n \<noteq> 26 \<and> cn_ai n \<noteq> 27 then Inl (CborE Cbor_bad_simple)
     else Inr (readFloatBits (argument n) (cn_ai n)))"

definition readBiguint :: "cnode \<Rightarrow> nat res" where
  "readBiguint n = bindR (tagInner n 2) (\<lambda>inner.
     if majorType inner \<noteq> 2 then Inl (CborE Cbor_bad_tag_content)
     else bindR (cn_data inner) (\<lambda>c.
       if length c > CBOR_MAX_BIGUINT_BYTES then Inl (CborE Cbor_biguint_too_large)
       else if length c > 0 \<and> hd c = 0x00 then Inl (CborE Cbor_non_minimal_biguint)
       else if length c \<le> 8 then Inl (CborE Cbor_non_minimal_biguint)
       else Inr (be_val c)))"

definition MAX_EPOCH_SECONDS :: int where "MAX_EPOCH_SECONDS = 8640000000000"

definition cbor_readTime :: "cnode \<Rightarrow> int res" where
  "cbor_readTime n = bindR (tagInner n 1) (\<lambda>inner.
     if majorType inner \<noteq> 0 \<and> majorType inner \<noteq> 1 then Inl (CborE Cbor_bad_tag_content)
     else let secs = (if majorType inner = 0 then int (argument inner) else -1 - int (argument inner)) in
       if secs < - MAX_EPOCH_SECONDS \<or> secs > MAX_EPOCH_SECONDS then Inl (CborE Cbor_bad_time)
       else bindR (time_seconds (Num (if secs < 0 then - secs else secs))) (\<lambda>ms.
         case time_clip (if secs < 0 then - ms else ms) of
           Some t \<Rightarrow> Inr t | None \<Rightarrow> Inl (CborE Cbor_bad_time)))"

definition cbor_readOid :: "cnode \<Rightarrow> jsstr res" where
  "cbor_readOid n = bindR (tagInner n 111) (\<lambda>inner.
     if majorType inner \<noteq> 2 then Inl (CborE Cbor_bad_tag_content)
     else bindR (cn_data inner) decodeOidContent)"

section \<open>Builders\<close>

definition cbItem :: "js \<Rightarrow> bytes res" where
  "cbItem x = (case x of Buf b \<Rightarrow> Inr b | _ \<Rightarrow> Inl (CborE Cbor_not_buffer))"

definition cbor_asBuffer :: "js \<Rightarrow> bytes res" where
  "cbor_asBuffer x = (case x of Buf b \<Rightarrow> Inr b | _ \<Rightarrow> Inl (CborE Cbor_not_buffer))"

definition assertDecodes :: "bytes \<Rightarrow> bytes res" where
  "assertDecodes out = (case cbor_decode out cbor_no_opts of Inl e \<Rightarrow> Inl (CborE Cbor_bad_item) | Inr n \<Rightarrow> Inr out)"

definition capString :: "bytes \<Rightarrow> bytes res" where
  "capString out = (if length out > CBOR_MAX_BYTES then Inl (CborE Cbor_too_large) else Inr out)"

definition asText :: "js \<Rightarrow> jsstr res" where
  "asText s = (case s of Str t \<Rightarrow> Inr t | _ \<Rightarrow> Inl (CborE Cbor_bad_argument))"

definition authoredInt :: "js \<Rightarrow> int res" where
  "authoredInt v = authoredInteger v (CborE Cbor_bad_argument)"

definition cbor_head :: "nat \<Rightarrow> js \<Rightarrow> bytes res" where
  "cbor_head mt arg = bindR (authoredInt arg) (\<lambda>i.
     if i < 0 then Inl (CborE Cbor_bad_argument)
     else if i > 0xFFFFFFFFFFFFFFFF then Inl (CborE Cbor_bad_argument)
     else let a = nat i; mtb = push_bit 5 mt in
       if a \<le> 23 then Inr [word_of_nat (mtb OR a)]
       else if a < 256 then Inr [word_of_nat (mtb OR 24), word_of_nat a]
       else if a < 65536 then Inr (word_of_nat (mtb OR 25) # be_bytes 2 a)
       else if a < 4294967296 then Inr (word_of_nat (mtb OR 26) # be_bytes 4 a)
       else Inr (word_of_nat (mtb OR 27) # be_bytes 8 a))"

definition cbor_uint :: "js \<Rightarrow> bytes res" where
  "cbor_uint n = bindR (authoredInt n) (\<lambda>a.
     if a < 0 then Inl (CborE Cbor_bad_argument) else cbor_head 0 (Big a))"

definition cbor_nint :: "js \<Rightarrow> bytes res" where
  "cbor_nint n = bindR (authoredInt n) (\<lambda>a.
     if a \<ge> 0 then Inl (CborE Cbor_bad_argument) else cbor_head 1 (Big (-1 - a)))"

definition cbor_int :: "js \<Rightarrow> bytes res" where
  "cbor_int n = bindR (authoredInt n) (\<lambda>a. if a \<ge> 0 then cbor_head 0 (Big a) else cbor_head 1 (Big (-1 - a)))"

definition cbor_byteString :: "js \<Rightarrow> bytes res" where
  "cbor_byteString v = bindR (cbor_asBuffer v) (\<lambda>b.
     bindR (cbor_head 2 (Num (int (length b)))) (\<lambda>h. capString (h @ b)))"

definition cbor_textString :: "js \<Rightarrow> bytes res" where
  "cbor_textString v = bindR (asText v) (\<lambda>s.
     bindR (assertWellFormedUtf16 s (CborE Cbor_bad_utf8)) (\<lambda>_.
     let b = utf8_encode s in
     bindR (cbor_head 3 (Num (int (length b)))) (\<lambda>h. capString (h @ b))))"

definition cbor_array :: "js \<Rightarrow> bytes res" where
  "cbor_array v = (case v of
      Arr items \<Rightarrow> bindR (mapR cbItem items) (\<lambda>parts.
        bindR (cbor_head 4 (Num (int (length items)))) (\<lambda>h. assertDecodes (h @ concat parts)))
    | _ \<Rightarrow> Inl (CborE Cbor_bad_argument))"

definition cb_pair :: "js \<Rightarrow> (bytes \<times> bytes) res" where
  "cb_pair p = (case p of
      Arr [k, v] \<Rightarrow> bindR (cbItem k) (\<lambda>a. bindR (cbItem v) (\<lambda>b. Inr (a, b)))
    | _ \<Rightarrow> Inl (CborE Cbor_bad_argument))"

fun adjacent_equal :: "bytes list \<Rightarrow> bool" where
  "adjacent_equal (x # y # ys) = (buf_compare x y = 0 \<or> adjacent_equal (y # ys))"
| "adjacent_equal _ = False"

definition cbor_map :: "js \<Rightarrow> bytes res" where
  "cbor_map v = (case v of
      Arr pairs \<Rightarrow> bindR (mapR cb_pair pairs) (\<lambda>enc0.
        let enc = sortedCopy (\<lambda>a b. buf_compare (fst a) (fst b)) enc0 in
        if adjacent_equal (map fst enc) then Inl (CborE Cbor_duplicate_map_key)
        else bindR (cbor_head 5 (Num (int (length pairs)))) (\<lambda>h.
          assertDecodes (h @ concat (map (\<lambda>(k, v). k @ v) enc))))
    | _ \<Rightarrow> Inl (CborE Cbor_bad_argument))"

definition cbor_tag :: "js \<Rightarrow> js \<Rightarrow> bytes res" where
  "cbor_tag tagNum inner = bindR (cbor_head 6 tagNum) (\<lambda>h. bindR (cbItem inner) (\<lambda>b. assertDecodes (h @ b)))"

definition cbor_boolean :: "bool \<Rightarrow> bytes" where
  "cbor_boolean v = [if v then 0xF5 else 0xF4]"

definition cbor_nullValue :: bytes where "cbor_nullValue = [0xF6]"

definition cbor_raw :: "js \<Rightarrow> bytes res" where
  "cbor_raw v = bindR (cbor_asBuffer v) assertDecodes"

text \<open>The magnitude octets of a non-negative number, none for zero: the even-length hexadecimal text.\<close>

fun magnitude :: "nat \<Rightarrow> bytes" where
  "magnitude n = (if n = 0 then [] else magnitude (n div 256) @ [word_of_nat n])"

declare magnitude.simps [simp del]

definition cbor_biguint :: "js \<Rightarrow> bytes res" where
  "cbor_biguint v = bindR (authoredInt v) (\<lambda>a.
     if a < 0 then Inl (CborE Cbor_bad_argument)
     else let mag = magnitude (nat a) in
       if length mag \<le> 8 then Inl (CborE Cbor_bad_argument)
       else if length mag > CBOR_MAX_BIGUINT_BYTES then Inl (CborE Cbor_biguint_too_large)
       else bindR (cbor_byteString (Buf mag)) (\<lambda>b. cbor_tag (Num 2) (Buf b)))"

text \<open>\<open>build.time\<close> takes a Date (its time value, \<open>None\<close> for an invalid one) or an integer.\<close>

datatype time_arg = DateArg "int option" | SecondsArg js

definition cbor_time :: "time_arg \<Rightarrow> bytes res" where
  "cbor_time v = bindR (case v of
       DateArg None \<Rightarrow> Inl (CborE Cbor_bad_time)
     | DateArg (Some ms) \<Rightarrow> if ms mod 1000 \<noteq> 0 then Inl (CborE Cbor_bad_time) else Inr (ms div 1000)
     | SecondsArg s \<Rightarrow> authoredInt s)
   (\<lambda>secs. if secs < - MAX_EPOCH_SECONDS \<or> secs > MAX_EPOCH_SECONDS then Inl (CborE Cbor_bad_time)
     else bindR (cbor_int (Big secs)) (\<lambda>b. cbor_tag (Num 1) (Buf b)))"

definition cbor_oid :: "js \<Rightarrow> bytes res" where
  "cbor_oid dotted = bindR (encodeOidContent dotted) (\<lambda>c.
     bindR (cbor_byteString (Buf c)) (\<lambda>b. cbor_tag (Num 111) (Buf b)))"

end
