(* ===== verification/Cbor_Floats.thy ===== *)
theory Cbor_Floats
  imports Cbor
begin

text \<open>
  lib/cbor-det.js, when a floating-point item is in its shortest form, from IEEE 754 and not from the code's
  tests: no bit pattern of a narrower format has its value, and the one NaN is the half 0x7e00.  The value of a bit
  pattern is given by its sign, exponent and fraction fields (\<open>ieee_value\<close>); that the code's tests of
  exact representability decide this is \<open>check_simple_shortest\<close>.
\<close>

section \<open>The value of a bit pattern\<close>

text \<open>A finite number is its sign and its magnitude in units of \<open>2^-1074\<close>, the least positive number of the widest
  format; the sign of zero is kept.\<close>

datatype ieee = INaN | IInf bool | INum bool nat

definition least_unit :: "nat \<Rightarrow> nat \<Rightarrow> nat" where
  "least_unit ebits mbits = 1076 - 2 ^ (ebits - 1) - mbits"

definition ieee_value :: "nat \<Rightarrow> nat \<Rightarrow> nat \<Rightarrow> ieee" where
  "ieee_value ebits mbits a =
     (let sign = odd (a div 2 ^ (ebits + mbits)); exponent = a div 2 ^ mbits mod 2 ^ ebits; fraction = a mod 2 ^ mbits in
      if exponent = 2 ^ ebits - 1 then (if fraction = 0 then IInf sign else INaN)
      else INum sign ((if exponent = 0 then fraction else (2 ^ mbits + fraction) * 2 ^ (exponent - 1)) *
                        2 ^ least_unit ebits mbits))"

text \<open>The exponent and fraction bits of the three formats, by the additional information that announces them.\<close>

definition float_format :: "nat \<Rightarrow> nat \<times> nat" where
  "float_format ai = (if ai = 25 then (5, 10) else if ai = 26 then (8, 23) else (11, 52))"

definition format_value :: "nat \<Rightarrow> nat \<Rightarrow> ieee" where
  "format_value ai a = ieee_value (fst (float_format ai)) (snd (float_format ai)) a"

definition patterns :: "nat \<Rightarrow> nat set" where
  "patterns ai = {..< 2 ^ (1 + fst (float_format ai) + snd (float_format ai))}"

definition shortest_float :: "nat \<Rightarrow> nat \<Rightarrow> bool" where
  "shortest_float ai a \<longleftrightarrow>
     (if format_value ai a = INaN then ai = 25 \<and> a = 0x7e00
      else \<forall>narrower \<in> {25..<ai}. \<forall>a' \<in> patterns narrower. format_value narrower a' \<noteq> format_value ai a)"

section \<open>The code's reading of a bit pattern\<close>

primrec fval_value :: "fval \<Rightarrow> ieee" where
  "fval_value FNaN = INaN"
| "fval_value (FInf s) = IInf s"
| "fval_value (FZero s) = INum s 0"
| "fval_value (FFin s n e) = INum s (n * 2 ^ nat (e + 1074))"

fun fval_wf :: "fval \<Rightarrow> bool" where
  "fval_wf (FFin s n e) = (odd n \<and> -1074 \<le> e)"
| "fval_wf _ = True"

lemma odd_part_spec: "m \<noteq> 0 \<Longrightarrow> odd_part m e = (n, e') \<Longrightarrow> odd n \<and> e \<le> e' \<and> m = n * 2 ^ nat (e' - e)"
proof (induction m e rule: odd_part.induct)
  case (1 m e)
  show ?case
  proof (cases "even m")
    case True
    then have "m div 2 \<noteq> 0" "odd_part (m div 2) (e + 1) = (n, e')" using 1(2,3) by (auto simp: odd_part.simps[of m] elim!: evenE)
    from 1(1)[OF _ this] True 1(2) have h: "odd n" "e + 1 \<le> e'" "m div 2 = n * 2 ^ nat (e' - (e + 1))" by auto
    have "nat (e' - e) = Suc (nat (e' - (e + 1)))" using h(2) by simp
    then have "m = n * 2 ^ nat (e' - e)" using h(3) True by (simp add: mult.left_commute dvd_div_eq_mult)
    then show ?thesis using h by simp
  next
    case False
    then show ?thesis using 1(2,3) by (simp add: odd_part.simps[of m])
  qed
qed

definition format_ok :: "nat \<Rightarrow> nat \<Rightarrow> bool" where
  "format_ok eb mb \<longleftrightarrow> 2 \<le> eb \<and> 2 ^ (eb - 1) + mb \<le> 1076"

lemma least_unit_int: "format_ok eb mb \<Longrightarrow> int (least_unit eb mb) = (2 - 2 ^ (eb - 1) - int mb) + 1074"
proof -
  assume "format_ok eb mb"
  then have "2 ^ (eb - 1) + mb \<le> (1076::nat)" by (simp add: format_ok_def)
  moreover from this have "int (2 ^ (eb - 1) + mb) \<le> 1076" by linarith
  ultimately show ?thesis by (simp add: least_unit_def of_nat_diff)
qed

lemma float_bits_value:
  assumes "format_ok eb mb"
  shows "fval_value (float_bits eb mb a) = ieee_value eb mb a" and "fval_wf (float_bits eb mb a)"
proof -
  let ?emin = "2 - 2 ^ (eb - 1) - int mb"
  let ?x = "a div 2 ^ mb mod 2 ^ eb" and ?f = "a mod 2 ^ mb"
  note u = least_unit_int[OF assms]
  have split: "n * 2 ^ nat (e' + 1074) = c * (2 ^ j * 2 ^ least_unit eb mb)"
    if "e = ?emin + int j" "e \<le> e'" "c = n * 2 ^ nat (e' - e)" for n c :: nat and e e' j
  proof -
    have "nat (e' + 1074) = nat (e' - e) + (j + least_unit eb mb)" using that(1,2) u by linarith
    then show ?thesis using that(3) by (simp add: power_add mult.assoc)
  qed
  have min: "-1074 \<le> ?emin" using u by linarith
  have "fval_value (float_bits eb mb a) = ieee_value eb mb a \<and> fval_wf (float_bits eb mb a)"
  proof (cases "?x = 2 ^ eb - 1 \<or> (?x = 0 \<and> ?f = 0)")
    case True
    then show ?thesis by (auto simp: float_bits_def ieee_value_def Let_def)
  next
    case False
    show ?thesis
    proof (cases "?x = 0")
      case True
      obtain n e where o: "odd_part ?f ?emin = (n, e)" by fastforce
      have s: "odd n" "?emin \<le> e" "?f = n * 2 ^ nat (e - ?emin)" using odd_part_spec[OF _ o] False True by auto
      show ?thesis using False True o s min split[of ?emin 0 e ?f n] by (simp add: float_bits_def ieee_value_def Let_def)
    next
      case x: False
      let ?e = "?emin + int ?x - 1"
      obtain n e where o: "odd_part (2 ^ mb + ?f) ?e = (n, e)" by fastforce
      have s: "odd n" "?e \<le> e" "2 ^ mb + ?f = n * 2 ^ nat (e - ?e)" using odd_part_spec[OF _ o] by auto
      have e: "?e = ?emin + int (?x - 1)" using x by (simp add: of_nat_diff Suc_le_eq)
      have "-1074 \<le> e" using s(2) min e by linarith
      then show ?thesis using False x o s(1) split[OF e s(2,3)]
        by (simp add: float_bits_def ieee_value_def Let_def mult.assoc)
    qed
  qed
  then show "fval_value (float_bits eb mb a) = ieee_value eb mb a" "fval_wf (float_bits eb mb a)" by simp_all
qed

section \<open>Exact representability\<close>

text \<open>A bit pattern from its fields.\<close>

definition pack :: "nat \<Rightarrow> nat \<Rightarrow> bool \<Rightarrow> nat \<Rightarrow> nat \<Rightarrow> nat" where
  "pack eb mb s x f = (of_bool s * 2 ^ eb + x) * 2 ^ mb + f"

lemma pack_fields:
  assumes "x < 2 ^ eb" and "f < 2 ^ mb"
  shows "pack eb mb s x f < 2 ^ (1 + eb + mb)" and "odd (pack eb mb s x f div 2 ^ (eb + mb)) = s"
    and "pack eb mb s x f div 2 ^ mb mod 2 ^ eb = x" and "pack eb mb s x f mod 2 ^ mb = f"
proof -
  have d: "pack eb mb s x f div 2 ^ mb = of_bool s * 2 ^ eb + x" and m: "pack eb mb s x f mod 2 ^ mb = f"
    using assms(2) by (simp_all add: pack_def)
  have q: "(of_bool s * 2 ^ eb + x) div 2 ^ eb = of_bool s" "(of_bool s * 2 ^ eb + x) mod 2 ^ eb = x"
    using assms(1) by (simp_all add: div_mult_self3)
  have "pack eb mb s x f div 2 ^ (eb + mb) = of_bool s"
    using d q(1) by (simp add: power_add div_mult2_eq mult.commute[of "2 ^ eb"])
  then show "odd (pack eb mb s x f div 2 ^ (eb + mb)) = s" by simp
  show "pack eb mb s x f div 2 ^ mb mod 2 ^ eb = x" using d q(2) by simp
  show "pack eb mb s x f mod 2 ^ mb = f" by (rule m)
  have "of_bool s * 2 ^ eb + x + 1 \<le> 2 * 2 ^ eb" using assms(1) by (cases s) simp_all
  then have "(of_bool s * 2 ^ eb + x + 1) * 2 ^ mb \<le> 2 * 2 ^ eb * 2 ^ mb" by (rule mult_le_mono1)
  then show "pack eb mb s x f < 2 ^ (1 + eb + mb)" using assms(2) by (simp add: pack_def power_add algebra_simps)
qed

lemma pack_value:
  assumes "x < 2 ^ eb" and "f < 2 ^ mb"
  shows "ieee_value eb mb (pack eb mb s x f) =
    (if x = 2 ^ eb - 1 then (if f = 0 then IInf s else INaN)
     else INum s ((if x = 0 then f else (2 ^ mb + f) * 2 ^ (x - 1)) * 2 ^ least_unit eb mb))"
  using pack_fields[OF assms, of s] by (simp add: ieee_value_def Let_def)

text \<open>A number is in a format when it is a significand of \<open>mb + 1\<close> bits times an exponent in the format's range.\<close>

lemma finite_in_format:
  assumes "2 \<le> eb"
  shows "(\<exists>a < 2 ^ (1 + eb + mb). ieee_value eb mb a = INum s (c * 2 ^ least_unit eb mb)) \<longleftrightarrow>
    (\<exists>d j. c = d * 2 ^ j \<and> d < 2 ^ (mb + 1) \<and> c < 2 ^ (mb + 2 ^ eb - 2))" (is "?L \<longleftrightarrow> ?R")
proof -
  have four: "(4::nat) \<le> 2 ^ eb" using power_increasing[OF assms, of "2::nat"] by simp
  show ?thesis
  proof
    assume ?L
    then obtain a where v: "ieee_value eb mb a = INum s (c * 2 ^ least_unit eb mb)" by blast
    define x f where "x = a div 2 ^ mb mod 2 ^ eb" and "f = a mod 2 ^ mb"
    have b: "x < 2 ^ eb" "f < 2 ^ mb" by (simp_all add: x_def f_def)
    from v have x: "x \<noteq> 2 ^ eb - 1" and c: "c = (if x = 0 then f else (2 ^ mb + f) * 2 ^ (x - 1))"
      unfolding ieee_value_def Let_def x_def[symmetric] f_def[symmetric] by (auto split: if_splits)
    let ?d = "if x = 0 then f else 2 ^ mb + f"
    have d: "?d < 2 ^ (mb + 1)" "c = ?d * 2 ^ (x - 1)" using b c by simp_all
    have "x - 1 \<le> 2 ^ eb - 3" using x b four by linarith
    then have "(2::nat) ^ (x - 1) \<le> 2 ^ (2 ^ eb - 3)" by (rule power_increasing) simp
    then have "c < 2 ^ (mb + 1) * 2 ^ (2 ^ eb - 3)" unfolding d(2) using d(1) by (intro mult_less_le_imp_less) simp_all
    also have "\<dots> = 2 ^ ((mb + 1) + (2 ^ eb - 3))" by (simp only: power_add)
    also have "(mb + 1) + (2 ^ eb - 3) = mb + 2 ^ eb - 2" using four by linarith
    finally show ?R using d by blast
  next
    assume ?R
    then obtain d j where c: "c = d * 2 ^ j" "d < 2 ^ (mb + 1)" "c < 2 ^ (mb + 2 ^ eb - 2)" by blast
    show ?L
    proof (cases "c < 2 ^ mb")
      case True
      have "ieee_value eb mb (pack eb mb s 0 c) = INum s (c * 2 ^ least_unit eb mb)"
        using pack_value[of 0 eb c mb s] True four by simp
      then show ?thesis using pack_fields(1)[of 0 eb c mb s] True by auto
    next
      case False
      then have "0 < d" using c(1) by (cases d) auto
      then obtain t where t: "2 ^ t \<le> d" "d < 2 ^ Suc t" using ex_power_ivl1[of 2 d] by auto
      have "(2::nat) ^ t < 2 ^ (mb + 1)" using t(1) c(2) by linarith
      then have tm: "t \<le> mb" using power_strict_increasing_iff[of "2::nat" t "mb + 1"] by simp
      have "2 ^ mb \<le> c" using False by simp
      moreover have "c < 2 ^ Suc t * 2 ^ j" unfolding c(1) using t(2) by simp
      ultimately have "(2::nat) ^ mb < 2 ^ (Suc t + j)" by (simp add: power_add)
      then have mj: "mb \<le> t + j" using power_strict_increasing_iff[of "2::nat" mb "Suc t + j"] by simp
      define k where "k = t + j - mb"
      define f where "f = d * 2 ^ (mb - t) - 2 ^ mb"
      have "2 ^ t * 2 ^ (mb - t) \<le> d * 2 ^ (mb - t)" "d * 2 ^ (mb - t) < 2 ^ Suc t * 2 ^ (mb - t)" using t by simp_all
      moreover have "2 ^ t * 2 ^ (mb - t) = (2::nat) ^ mb" using tm by (simp add: power_add[symmetric])
      moreover from this have "2 ^ Suc t * 2 ^ (mb - t) = (2::nat) * 2 ^ mb" by (simp only: power_Suc mult.assoc)
      ultimately have "2 ^ mb \<le> d * 2 ^ (mb - t)" "d * 2 ^ (mb - t) < 2 * 2 ^ mb" by (simp_all only:)
      then have df: "2 ^ mb + f = d * 2 ^ (mb - t)" "f < 2 ^ mb" unfolding f_def by linarith+
      have "(mb - t) + k = j" using mj tm by (simp add: k_def)
      then have ck: "c = (2 ^ mb + f) * 2 ^ k" unfolding df(1) c(1) by (simp add: mult.assoc power_add[symmetric])
      have "2 ^ mb * 2 ^ k \<le> c" unfolding ck by simp
      then have "(2::nat) ^ (mb + k) < 2 ^ (mb + 2 ^ eb - 2)" using c(3) by (simp add: power_add)
      then have "mb + k < mb + 2 ^ eb - 2" by (simp only: power_strict_increasing_iff[of "2::nat"] one_less_numeral_iff semiring_norm(76))
      then have k: "Suc k < 2 ^ eb - 1" by linarith
      then have "Suc k < 2 ^ eb" "Suc k \<noteq> 2 ^ eb - 1" by linarith+
      then have "ieee_value eb mb (pack eb mb s (Suc k) f) = INum s (c * 2 ^ least_unit eb mb)"
        unfolding pack_value[OF \<open>Suc k < 2 ^ eb\<close> df(2)] ck by (simp del: One_nat_def)
      then show ?thesis using pack_fields(1)[OF \<open>Suc k < 2 ^ eb\<close> df(2), of s] by blast
    qed
  qed
qed

lemma odd_times_power: "odd n \<Longrightarrow> n * 2 ^ k = d * 2 ^ l \<Longrightarrow> l \<le> k \<and> d = n * 2 ^ (k - l)" for n d :: nat
proof -
  assume n: "odd n" and e: "n * 2 ^ k = d * 2 ^ l"
  have l: "l \<le> k"
  proof (rule ccontr)
    assume "\<not> l \<le> k"
    then obtain i where "l = k + Suc i" using less_imp_Suc_add[of k l] by auto
    then have "n = d * 2 ^ Suc i" using e by (simp add: power_add)
    then show False using n by simp
  qed
  then have "n * 2 ^ (k - l) * 2 ^ l = d * 2 ^ l" using e by (simp add: mult.assoc power_add[symmetric])
  then show ?thesis using l by simp
qed

lemma finite_multiple: "ieee_value eb mb a = INum s n \<Longrightarrow> \<exists>c. n = c * 2 ^ least_unit eb mb"
  by (auto simp: ieee_value_def Let_def split: if_splits)

lemma representable_finite:
  assumes "format_ok eb mb" and "odd n" and "-1074 \<le> e"
  shows "representable eb mb (FFin s n e) \<longleftrightarrow>
    (\<exists>a < 2 ^ (1 + eb + mb). ieee_value eb mb a = INum s (n * 2 ^ nat (e + 1074)))" (is "?L \<longleftrightarrow> ?R")
proof -
  let ?u = "least_unit eb mb" and ?k = "nat (e + 1074)"
  have eb: "2 \<le> eb" using assms(1) by (simp add: format_ok_def)
  have k: "2 - 2 ^ (eb - 1) - int mb \<le> e \<longleftrightarrow> ?u \<le> ?k" "nat (e - (2 - 2 ^ (eb - 1) - int mb)) = ?k - ?u"
    using least_unit_int[OF assms(1)] assms(3) by linarith+
  have L: "?L \<longleftrightarrow> n < 2 ^ (mb + 1) \<and> ?u \<le> ?k \<and> n * 2 ^ (?k - ?u) < 2 ^ (mb + 2 ^ eb - 2)"
    by (simp only: representable_def Let_def k fval.case)
  show ?thesis
  proof
    assume ?L
    then have l: "n < 2 ^ (mb + 1)" "?u \<le> ?k" "n * 2 ^ (?k - ?u) < 2 ^ (mb + 2 ^ eb - 2)" using L by simp_all
    have "n * 2 ^ ?k = n * 2 ^ (?k - ?u) * 2 ^ ?u" using l(2) by (simp add: mult.assoc power_add[symmetric])
    then show ?R using finite_in_format[OF eb, of mb s "n * 2 ^ (?k - ?u)"] l(1,3) by auto
  next
    assume R: ?R
    then obtain c where c: "n * 2 ^ ?k = c * 2 ^ ?u" using finite_multiple by blast
    from odd_times_power[OF assms(2) c] have u: "?u \<le> ?k" "c = n * 2 ^ (?k - ?u)" by simp_all
    from R finite_in_format[OF eb, of mb s c] c obtain d j where
      d: "c = d * 2 ^ j" "d < 2 ^ (mb + 1)" "c < 2 ^ (mb + 2 ^ eb - 2)" by auto
    have "d = n * 2 ^ (?k - ?u - j)" using odd_times_power[OF assms(2), of "?k - ?u" d j] d(1) u(2) by simp
    then have "n \<le> d" by simp
    then show ?L unfolding L using u d by simp
  qed
qed

lemma representable_iff:
  assumes "format_ok eb mb" and "fval_wf d" and "d \<noteq> FNaN"
  shows "representable eb mb d \<longleftrightarrow> (\<exists>a < 2 ^ (1 + eb + mb). ieee_value eb mb a = fval_value d)"
proof (cases d)
  case (FInf s)
  have "2 ^ eb - 1 < (2::nat) ^ eb" by simp
  then show ?thesis using pack_fields(1)[of "2 ^ eb - 1" eb 0 mb s] pack_value[of "2 ^ eb - 1" eb 0 mb s] FInf
    by (auto simp: representable_def)
next
  case (FZero s)
  have "(2::nat) ^ 2 \<le> 2 ^ eb" using assms(1) by (intro power_increasing) (simp_all add: format_ok_def)
  then have "0 \<noteq> (2::nat) ^ eb - 1" by simp
  then show ?thesis using pack_fields(1)[of 0 eb 0 mb s] pack_value[of 0 eb 0 mb s] FZero
    by (auto simp: representable_def)
next
  case (FFin s n e)
  then show ?thesis using representable_finite[OF assms(1), of n e s] assms(2) by simp
qed (use assms(3) in simp)

section \<open>The check is the shortest form\<close>

lemma formats_ok: "format_ok 5 10" "format_ok 8 23" "format_ok 11 52"
  by (simp_all add: format_ok_def)

lemma readFloatBits_value:
  assumes "ai \<in> {25, 26, 27}"
  shows "fval_value (readFloatBits a ai) = format_value ai a" and "fval_wf (readFloatBits a ai)"
  using assms float_bits_value[OF formats_ok(1)] float_bits_value[OF formats_ok(2)] float_bits_value[OF formats_ok(3)]
  by (auto simp: readFloatBits_def format_value_def float_format_def)

lemma roundtrips_iff:
  assumes "fval_wf d" and "d \<noteq> FNaN"
  shows "halfRoundtrips d \<longleftrightarrow> (\<exists>a \<in> patterns 25. format_value 25 a = fval_value d)"
    and "singleRoundtrips d \<longleftrightarrow> (\<exists>a \<in> patterns 26. format_value 26 a = fval_value d)"
  using representable_iff[OF formats_ok(1) assms] representable_iff[OF formats_ok(2) assms]
  by (simp_all add: halfRoundtrips_def singleRoundtrips_def patterns_def format_value_def float_format_def Bex_def)

theorem check_simple_shortest:
  assumes "ai \<in> {25, 26, 27}"
  shows "check_simple ai a = Inr () \<longleftrightarrow> shortest_float ai a"
proof -
  let ?d = "readFloatBits a ai"
  note v = readFloatBits_value[OF assms, of a]
  have nan: "format_value ai a = INaN \<longleftrightarrow> ?d = FNaN" unfolding v(1)[symmetric] by (cases ?d) simp_all
  have narrower: "{25..<25} = ({} :: nat set)" "{25..<26} = {25 :: nat}" "{25..<27} = {25, 26 :: nat}" by auto
  show ?thesis
  proof (cases "?d = FNaN")
    case True
    then show ?thesis using assms nan by (auto simp: check_simple_def shortest_float_def)
  next
    case False
    note r = roundtrips_iff[OF v(2) False, unfolded v(1)]
    show ?thesis using assms False nan r narrower by (auto simp: check_simple_def shortest_float_def Let_def)
  qed
qed

end
