(* ===== verification/Cbor_Tree.thy ===== *)
theory Cbor_Tree
  imports Cbor_Floats
begin

text \<open>
  lib/cbor-det.js, the deterministic encoding: the value a node stands for (\<open>cval\<close>), its one encoding
  (\<open>cenc\<close>), and the decoder as the inverse of that encoding on well-formed values (\<open>cval_ok\<close>): map keys
  strictly ascending, text well-formed, floats in their shortest form.
\<close>

section \<open>Values\<close>

datatype cval = CInt nat nat | CStr nat bytes | CArr "cval list" | CMap "(cval \<times> cval) list"
  | CTag nat cval | CSimple nat | CFloat nat nat

definition chead :: "nat \<Rightarrow> nat \<Rightarrow> bytes" where
  "chead mt a =
     (if a \<le> 23 then [word_of_nat (mt * 32 + a)]
      else if a < 256 then [word_of_nat (mt * 32 + 24), word_of_nat a]
      else if a < 65536 then word_of_nat (mt * 32 + 25) # be_bytes 2 a
      else if a < 4294967296 then word_of_nat (mt * 32 + 26) # be_bytes 4 a
      else word_of_nat (mt * 32 + 27) # be_bytes 8 a)"

primrec cenc :: "cval \<Rightarrow> bytes" where
  "cenc (CInt mt a) = chead mt a"
| "cenc (CStr mt b) = chead mt (length b) @ b"
| "cenc (CArr xs) = chead 4 (length xs) @ concat (map cenc xs)"
| "cenc (CMap ps) = chead 5 (length ps) @ concat (map (\<lambda>(k, v). k @ v) (map (map_prod cenc cenc) ps))"
| "cenc (CTag t v) = chead 6 t @ cenc v"
| "cenc (CSimple v) = chead 7 v"
| "cenc (CFloat ai a) = word_of_nat (224 + ai) # be_bytes (arg_bytes ai) a"

definition ascending :: "bytes list \<Rightarrow> bool" where
  "ascending = sorted_wrt (\<lambda>x y. buf_compare x y < 0)"

primrec cval_ok :: "cval \<Rightarrow> bool" where
  "cval_ok (CInt mt a) = (mt \<le> 1 \<and> a < 2 ^ 64)"
| "cval_ok (CStr mt b) = ((mt = 2 \<or> mt = 3) \<and> length b < 2 ^ 64 \<and> (mt = 3 \<longrightarrow> utf8_decode b \<noteq> None))"
| "cval_ok (CArr xs) = (length xs < 2 ^ 64 \<and> list_all id (map cval_ok xs))"
| "cval_ok (CMap ps) = (length ps < 2 ^ 64 \<and> list_all (\<lambda>(a, b). a \<and> b) (map (map_prod cval_ok cval_ok) ps) \<and>
     ascending (map (\<lambda>p. cenc (fst p)) ps))"
| "cval_ok (CTag t v) = (t < 2 ^ 64 \<and> cval_ok v)"
| "cval_ok (CSimple v) = (v \<le> 23 \<or> (32 \<le> v \<and> v < 256))"
| "cval_ok (CFloat ai a) = (ai \<in> {25, 26, 27} \<and> a < 256 ^ arg_bytes ai \<and> shortest_float ai a)"

primrec cheight :: "cval \<Rightarrow> nat" where
  "cheight (CInt mt a) = 0"
| "cheight (CStr mt b) = 0"
| "cheight (CArr xs) = foldr (\<lambda>h m. max (Suc h) m) (map cheight xs) 0"
| "cheight (CMap ps) = foldr (\<lambda>(g, h) m. max (Suc g) (max (Suc h) m)) (map (map_prod cheight cheight) ps) 0"
| "cheight (CTag t v) = Suc (cheight v)"
| "cheight (CSimple v) = 0"
| "cheight (CFloat ai a) = 0"

primrec csize :: "cval \<Rightarrow> nat" where
  "csize (CInt mt a) = 1"
| "csize (CStr mt b) = 1"
| "csize (CArr xs) = Suc (sum_list (map csize xs))"
| "csize (CMap ps) = Suc (sum_list (map (\<lambda>(a, b). a + b) (map (map_prod csize csize) ps)))"
| "csize (CTag t v) = Suc (csize v)"
| "csize (CSimple v) = 1"
| "csize (CFloat ai a) = 1"

definition leaf_val :: "nat \<Rightarrow> nat \<Rightarrow> nat \<Rightarrow> bytes option \<Rightarrow> cval" where
  "leaf_val mt ai a c =
     (case c of Some b \<Rightarrow> CStr mt b
      | None \<Rightarrow> if mt = 7 then (if ai \<le> 24 then CSimple a else CFloat ai a) else CInt mt a)"

primrec val_of :: "cnode \<Rightarrow> cval" where
  "val_of (CNode mt ai a c kids s cs e b) =
     (case map_kids val_of kids of
        NoKids \<Rightarrow> leaf_val mt ai a c
      | Items xs \<Rightarrow> if mt = 4 then CArr xs else CTag a (hd xs)
      | Pairs ps \<Rightarrow> CMap ps)"

text \<open>The shape of a node the decoder builds: which members are present for which major type, and its
  octets.\<close>

primrec node_ok :: "cnode \<Rightarrow> bool" where
  "node_ok (CNode mt ai a c kids s cs e b) =
     (b = cenc (val_of (CNode mt ai a c kids s cs e b)) \<and>
      (case map_kids node_ok kids of
         NoKids \<Rightarrow> (mt \<le> 1 \<and> c = None) \<or> ((mt = 2 \<or> mt = 3) \<and> c \<noteq> None) \<or>
           (mt = 7 \<and> c = None \<and> (ai \<le> 23 \<longrightarrow> a = ai) \<and> (ai = 24 \<longrightarrow> 32 \<le> a))
       | Items oks \<Rightarrow> (mt = 4 \<or> (mt = 6 \<and> length oks = 1)) \<and> list_all id oks
       | Pairs oks \<Rightarrow> mt = 5 \<and> list_all (\<lambda>(a, b). a \<and> b) oks))"

lemma cheight_CArr [simp]: "cheight (CArr xs) \<le> m \<longleftrightarrow> (\<forall>x \<in> set xs. Suc (cheight x) \<le> m)"
  by (induction xs) auto

lemma cheight_CMap [simp]: "cheight (CMap ps) \<le> m \<longleftrightarrow> (\<forall>(k, v) \<in> set ps. Suc (cheight k) \<le> m \<and> Suc (cheight v) \<le> m)"
  by (induction ps) auto

declare cheight.simps(3,4) [simp del]

lemma list_all_pairs [simp]: "list_all (\<lambda>(a, b). a \<and> b) (map (map_prod f f) ps) \<longleftrightarrow> (\<forall>(k, v) \<in> set ps. f k \<and> f v)"
  by (induction ps) auto

section \<open>Heads\<close>

lemma nat_shift5: "drop_bit 5 (n::nat) = n div 32"
  by (simp add: drop_bit_eq_div)

lemma head_octet: "mt \<le> 7 \<Longrightarrow> a < 32 \<Longrightarrow> unat (word_of_nat (mt * 32 + a) :: byte) = mt * 32 + a"
  unfolding unat_of_nat_byte by simp

lemma head_split: "a < 32 \<Longrightarrow> (mt * 32 + a) div 32 = (mt::nat)" "a < 32 \<Longrightarrow> (mt * 32 + a) mod 32 = a"
  by simp_all

lemma be_val_slice_bound: "be_val (slice buf p (p + k)) < 256 ^ k"
proof -
  have "be_val (slice buf p (p + k)) < 256 ^ length (slice buf p (p + k))" by (rule be_val_bound)
  also have "\<dots> \<le> 256 ^ k" by (rule power_increasing) simp_all
  finally show ?thesis .
qed

lemma be_slice: "p + k \<le> length buf \<Longrightarrow> be_bytes k (be_val (slice buf p (p + k))) = slice buf p (p + k)"
  using be_bytes_be_val[of "slice buf p (p + k)"] by simp

text \<open>What an accepted head says, and the head an argument has.\<close>

lemma item_head_sound:
  assumes "item_head buf start limit = Inr (mt, ai, a, cs)" and "limit \<le> length buf"
  shows "start < cs \<and> cs \<le> limit \<and> mt \<le> 7 \<and> a < 2 ^ 64 \<and>
    (mt \<noteq> 7 \<longrightarrow> slice buf start cs = chead mt a) \<and>
    (mt = 7 \<longrightarrow> (ai \<le> 23 \<and> a = ai \<and> slice buf start cs = chead 7 a) \<or>
      (ai = 24 \<and> a < 256 \<and> (32 \<le> a \<longrightarrow> slice buf start cs = chead 7 a)) \<or>
      (ai \<in> {25, 26, 27} \<and> a < 256 ^ arg_bytes ai \<and> slice buf start cs = word_of_nat (224 + ai) # be_bytes (arg_bytes ai) a))"
proof -
  let ?ib = "unat (buf ! start)"
  have st: "start < limit" using assms(1) by (auto simp: item_head_def split: if_splits)
  have m: "mt = ?ib div 32" "ai = ?ib mod 32"
    using assms(1) by (auto simp: item_head_def Let_def nat_shift5 byte_arith split: if_splits)
  have ib: "?ib = mt * 32 + ai" by (simp add: m)
  have "?ib < 8 * 32" by simp
  then have "?ib div 32 < 8" by (rule less_mult_imp_div_less)
  then have mt7: "mt \<le> 7" using m(1) by simp
  have ai32: "ai < 32" using m(2) by simp
  have oct: "buf ! start = word_of_nat (mt * 32 + ai)" using ib by (metis word_of_nat_unat_byte)
  show ?thesis
  proof (cases "ai \<le> 23")
    case True
    then have r: "a = ai" "cs = start + 1" using assms(1) m
      by (auto simp: item_head_def Let_def nat_shift5 byte_arith split: if_splits)
    have "slice buf start cs = [buf ! start]" using st assms(2) by (simp add: r slice_cons)
    then show ?thesis using True r mt7 st oct by (auto simp: chead_def)
  next
    case False
    let ?k = "arg_bytes ai"
    have "ai \<noteq> 28" "ai \<noteq> 29" "ai \<noteq> 30" "ai \<noteq> 31" using assms(1) m(2)
      by (auto simp: item_head_def Let_def nat_shift5 byte_arith split: if_splits)
    then have w: "ai = 24 \<or> ai = 25 \<or> ai = 26 \<or> ai = 27" using False ai32 by linarith
    have r: "ai \<in> {24, 25, 26, 27}" "cs = start + 1 + ?k" "cs \<le> limit" "a = be_val (slice buf (start + 1) cs)"
      "mt \<noteq> 7 \<longrightarrow> min_for_width ?k \<le> a"
      using assms(1) m False w by (auto simp: item_head_def Let_def nat_shift5 byte_arith split: if_splits)
    have b: "a < 256 ^ ?k" unfolding r(4) r(2) by (rule be_val_slice_bound)
    have "slice buf start cs = buf ! start # slice buf (start + 1) cs" using st assms(2) r(2) by (subst slice_cons) auto
    also have "slice buf (start + 1) cs = be_bytes ?k a" unfolding r(4) r(2) using r(2,3) assms(2) by (intro be_slice[symmetric]) simp
    finally have s: "slice buf start cs = word_of_nat (mt * 32 + ai) # be_bytes ?k a" by (simp add: oct)
    have a64: "a < 2 ^ 64" using b r(1) by (auto simp: arg_bytes_def)
    have one: "be_bytes 1 a = [word_of_nat a]" by (simp add: be_bytes.simps(2)[of 0, folded One_nat_def])
    have "(mt \<noteq> 7 \<or> (ai = 24 \<and> 24 \<le> a)) \<longrightarrow> slice buf start cs = chead mt a"
      using s r(1,5) b one by (auto simp: arg_bytes_def min_for_width_def chead_def)
    then show ?thesis using s r b a64 mt7 st by (auto simp: arg_bytes_def)
  qed
qed

lemma slice_prefix:
  assumes "slice buf i j = xs @ ys" and "i \<le> j" and "j \<le> length buf"
  shows "slice buf i (i + length xs) = xs" "slice buf (i + length xs) j = ys" "i + length xs + length ys = j"
proof -
  have "length (slice buf i j) = j - i" using assms(3) by simp
  then show l: "i + length xs + length ys = j" using assms(1,2) by (metis le_add_diff_inverse length_append add.assoc)
  have "slice buf i (i + length xs) @ slice buf (i + length xs) j = xs @ ys"
    using assms(1) l by (subst slice_append) auto
  then show "slice buf i (i + length xs) = xs" "slice buf (i + length xs) j = ys"
    using assms l by (auto simp: append_eq_append_conv)
qed

lemma item_head_wide:
  assumes "slice buf start (start + 1 + k) = word_of_nat (mt * 32 + ai) # be_bytes k a" and "k = arg_bytes ai"
    and "ai \<in> {24, 25, 26, 27}" and "mt \<le> 7" and "a < 256 ^ k" and "mt \<noteq> 7 \<longrightarrow> min_for_width k \<le> a"
    and "start + 1 + k \<le> limit" and "limit \<le> length buf"
  shows "item_head buf start limit = Inr (mt, ai, a, start + 1 + k)"
proof -
  have s: "slice buf start (start + 1 + k) = buf ! start # slice buf (start + 1) (start + 1 + k)"
    using assms(7,8) by (subst slice_cons) auto
  have "buf ! start = word_of_nat (mt * 32 + ai)" using assms(1) s by simp
  then have ib: "unat (buf ! start) = mt * 32 + ai" using head_octet[of mt ai] assms(3,4) by auto
  have "slice buf (start + 1) (start + 1 + k) = be_bytes k a" using assms(1) s by simp
  then have v: "be_val (slice buf (start + 1) (start + 1 + k)) = a" using assms(5) by simp
  have d: "unat (buf ! start) div 32 = mt" "unat (buf ! start) mod 32 = ai" unfolding ib using assms(3) by auto
  have n255: "unat (buf ! start) \<noteq> 255"
  proof
    assume "unat (buf ! start) = 255"
    then have "ai = 31" using d(2) by simp
    then show False using assms(3) by simp
  qed
  have ai: "ai \<noteq> 28" "ai \<noteq> 29" "ai \<noteq> 30" "ai \<noteq> 31" "\<not> ai \<le> 23" using assms(3) by auto
  have lt: "\<not> limit \<le> start" "\<not> limit < start + 1 + k" using assms(7) by auto
  have mn: "\<not> (mt \<noteq> 7 \<and> a < min_for_width k)" using assms(6) by auto
  show ?thesis
    unfolding item_head_def Let_def nat_shift5 byte_arith d assms(2)[symmetric] v
    using n255 ai lt mn by simp
qed

lemma item_head_complete:
  assumes "slice buf start e = chead mt a @ rest" and "start \<le> e" and "e \<le> limit" and "limit \<le> length buf" and "mt \<le> 7"
    and "a < 2 ^ 64" and "mt = 7 \<longrightarrow> a < 256"
  shows "\<exists>ai. item_head buf start limit = Inr (mt, ai, a, start + length (chead mt a)) \<and>
    slice buf (start + length (chead mt a)) e = rest \<and> start + length (chead mt a) + length rest = e \<and> ai \<le> 27 \<and>
    (mt = 7 \<longrightarrow> ai = (if a \<le> 23 then a else 24))"
proof -
  note p = slice_prefix[OF assms(1,2) order.trans[OF assms(3,4)]]
  have l: "start + length (chead mt a) \<le> limit" using p(3) assms(3) by simp
  have wide: "\<exists>ai. item_head buf start limit = Inr (mt, ai, a, start + length (chead mt a)) \<and> ai = w \<and> w \<in> {24, 25, 26, 27}"
    if "chead mt a = word_of_nat (mt * 32 + w) # be_bytes (arg_bytes w) a" "w \<in> {24, 25, 26, 27}"
      "a < 256 ^ arg_bytes w" "mt \<noteq> 7 \<longrightarrow> min_for_width (arg_bytes w) \<le> a" for w
    using item_head_wide[of buf start "arg_bytes w" mt w a limit] that p(1) l assms(4,5) by simp
  show ?thesis
  proof (cases "a \<le> 23")
    case True
    then have h: "chead mt a = [word_of_nat (mt * 32 + a)]" by (simp add: chead_def)
    have "start < length buf" using l h assms(4) by simp
    then have "slice buf start (start + 1) = [buf ! start]" by (simp add: slice_cons)
    then have "unat (buf ! start) = mt * 32 + a" using p(1) h head_octet[OF assms(5), of a] True by simp
    then have "unat (buf ! start) div 32 = mt" "unat (buf ! start) mod 32 = a" "unat (buf ! start) \<noteq> 255"
      using True assms(5) by auto
    then have "item_head buf start limit = Inr (mt, a, a, start + 1)"
      using True l h by (auto simp: item_head_def Let_def nat_shift5 byte_arith)
    then show ?thesis using p h True by auto
  next
    case False
    have one: "be_bytes 1 a = [word_of_nat a]" by (simp add: be_bytes.simps(2)[of 0, folded One_nat_def])
    consider "a < 256" | "256 \<le> a" "a < 65536" | "65536 \<le> a" "a < 4294967296" | "4294967296 \<le> a" by linarith
    then show ?thesis
    proof cases
      case 1
      then show ?thesis using wide[of 24] False p assms(7) one by (auto simp: chead_def arg_bytes_def min_for_width_def)
    next
      case 2
      then show ?thesis using wide[of 25] False p assms(7) by (auto simp: chead_def arg_bytes_def min_for_width_def)
    next
      case 3
      then show ?thesis using wide[of 26] False p assms(7) by (auto simp: chead_def arg_bytes_def min_for_width_def)
    next
      case 4
      then show ?thesis using wide[of 27] False p assms(6,7) by (auto simp: chead_def arg_bytes_def min_for_width_def)
    qed
  qed
qed


section \<open>Accepted items are encodings\<close>

text \<open>What a successful decode of an item at \<open>p\<close> promises.\<close>

definition good_item :: "bytes \<Rightarrow> nat \<Rightarrow> nat \<Rightarrow> nat \<Rightarrow> nat \<Rightarrow> nat \<Rightarrow> nat \<Rightarrow> cnode \<Rightarrow> nat \<Rightarrow> nat \<Rightarrow> bool" where
  "good_item buf limit depth maxD mx p n nd e n' \<longleftrightarrow>
     p < e \<and> e \<le> limit \<and> cenc (val_of nd) = slice buf p e \<and> cval_ok (val_of nd) \<and> cn_bytes nd = slice buf p e \<and> node_ok nd \<and>
     depth + cheight (val_of nd) \<le> maxD \<and> n' = n + csize (val_of nd) \<and> n' \<le> mx"

locale item_reader =
  fixes f :: "nat \<Rightarrow> nat \<Rightarrow> item_out" and buf :: bytes and limit depth maxD mx :: nat
  assumes good: "f p n = Inr (nd, e, n') \<Longrightarrow> good_item buf limit depth maxD mx p n nd e n'"
begin

lemma elements_good:
  "elements f k p n = Inr (xs, e, n') \<Longrightarrow> p \<le> limit \<Longrightarrow> n \<le> mx \<Longrightarrow>
     length xs = k \<and> p \<le> e \<and> e \<le> limit \<and> concat (map (cenc \<circ> val_of) xs) = slice buf p e \<and>
     (\<forall>x \<in> set xs. node_ok x \<and> cval_ok (val_of x) \<and> depth + cheight (val_of x) \<le> maxD) \<and>
     n' = n + sum_list (map (csize \<circ> val_of) xs) \<and> n' \<le> mx"
proof (induction k arbitrary: p n xs)
  case (Suc k)
  then obtain x q m ys where x: "f p n = Inr (x, q, m)" "elements f k q m = Inr (ys, e, n')" "xs = x # ys"
    by (auto simp: res_simps)
  note g = good[OF x(1), unfolded good_item_def]
  have "slice buf p q @ slice buf q e = slice buf p e" using g Suc.IH[OF x(2)] by (intro slice_append) auto
  then show ?case using g Suc.IH[OF x(2)] x(3) by auto
qed simp

lemma entries_good:
  "entries f k prev p n = Inr (xs, e, n') \<Longrightarrow> p \<le> limit \<Longrightarrow> n \<le> mx \<Longrightarrow>
     length xs = k \<and> p \<le> e \<and> e \<le> limit \<and> concat (map (\<lambda>(k, v). cenc (val_of k) @ cenc (val_of v)) xs) = slice buf p e \<and>
     (\<forall>(k, v) \<in> set xs. node_ok k \<and> node_ok v \<and> cval_ok (val_of k) \<and> cval_ok (val_of v) \<and> depth + cheight (val_of k) \<le> maxD \<and> depth + cheight (val_of v) \<le> maxD) \<and>
     n' = n + sum_list (map (\<lambda>(k, v). csize (val_of k) + csize (val_of v)) xs) \<and> n' \<le> mx \<and>
     ascending ((case prev of None \<Rightarrow> [] | Some b \<Rightarrow> [b]) @ map (\<lambda>(k, v). cenc (val_of k)) xs)"
proof (induction k arbitrary: prev p n xs)
  case 0
  then show ?case by (auto simp: ascending_def split: option.splits)
next
  case (Suc k)
  then obtain kn q m v q' m' ys where x: "f p n = Inr (kn, q, m)" "f q m = Inr (v, q', m')"
    "check_key prev (cn_bytes kn) = Inr ()" "entries f k (Some (cn_bytes kn)) q' m' = Inr (ys, e, n')" "xs = (kn, v) # ys"
    by (auto simp: res_simps)
  note g = good[OF x(1), unfolded good_item_def] good[OF x(2), unfolded good_item_def]
  note IH = Suc.IH[OF x(4)]
  have kb: "cn_bytes kn = cenc (val_of kn)" using g by simp
  have "slice buf p q @ slice buf q q' @ slice buf q' e = slice buf p e" using g IH by (simp add: slice_append)
  moreover have "ascending ((case prev of None \<Rightarrow> [] | Some b \<Rightarrow> [b]) @ map (\<lambda>(k, v). cenc (val_of k)) xs)"
  proof (cases prev)
    case None
    then show ?thesis using IH g x(5) kb by (simp add: ascending_def)
  next
    case (Some b)
    have asc: "ascending (cenc (val_of kn) # map (\<lambda>(k, v). cenc (val_of k)) ys)" using IH g kb by simp
    have lt: "buf_compare b (cenc (val_of kn)) < 0" using x(3) Some kb
      by (auto simp: check_key_def Let_def simp del: buf_compare_zero split: if_splits)
    show ?thesis using asc lt Some x(5) by (auto simp: ascending_def intro: buf_compare_less_trans[OF lt])
  qed
  ultimately show ?case using g IH x(5) by auto
qed

end


lemma cenc_ne: "cenc v \<noteq> []"
  by (cases v) (auto simp: chead_def)

lemma kids_map [simp]: "map_kids f NoKids = NoKids" "map_kids f (Items xs) = Items (map f xs)"
  "map_kids f (Pairs ps) = Pairs (map (map_prod f f) ps)"
  by simp_all

lemma decodeItem_reader:
  "limit \<le> length buf \<Longrightarrow> item_reader (decodeItem fuel buf limit maxD mx depth) buf limit depth maxD mx"
proof (induction fuel arbitrary: depth)
  case (Suc fuel)
  show ?case
  proof
    fix p n nd e n'
    assume d: "decodeItem (Suc fuel) buf limit maxD mx depth p n = Inr (nd, e, n')"
    let ?sub = "decodeItem fuel buf limit maxD mx (depth + 1)"
    from d obtain mt ai a cs where g: "depth \<le> maxD" "n + 1 \<le> mx" and h: "item_head buf p limit = Inr (mt, ai, a, cs)"
      by (auto simp: Let_def res_simps split: if_splits)
    note hs = item_head_sound[OF h Suc.prems]
    note sub = Suc.IH[OF Suc.prems, of "depth + 1"]
    have room: "depth + 1 + x \<le> maxD \<Longrightarrow> Suc x \<le> maxD - depth" for x by simp
    have join: "slice buf p cs @ slice buf cs e = slice buf p e" if "cs \<le> e" using hs that by (intro slice_append) auto
    consider (int) "mt \<le> 1" | (str) "mt = 2 \<or> mt = 3" | (arr) "mt = 4" | (map) "mt = 5" | (tag) "mt = 6" | (simple) "mt = 7"
      using hs by linarith
    then show "good_item buf limit depth maxD mx p n nd e n'"
    proof cases
      case int
      then have "mt = 0 \<or> mt = 1" by linarith
      then show ?thesis using d g h hs int
        by (auto simp: good_item_def Let_def leaf_val_def)
    next
      case str
      then have r: "cs + a \<le> limit" "e = cs + a" "n' = n + 1" "mt = 3 \<longrightarrow> utf8_decode (slice buf cs e) \<noteq> None"
        "nd = CNode mt ai a (Some (slice buf cs e)) NoKids p cs e (slice buf p e)"
        using d g h by (auto simp: Let_def split: if_splits)
      have "length (slice buf cs e) = a" using r(1,2) Suc.prems by simp
      then show ?thesis using r str g hs join by (auto simp: good_item_def leaf_val_def)
    next
      case arr
      then obtain xs where r: "elements ?sub a cs (n + 1) = Inr (xs, e, n')"
        "nd = CNode mt ai a None (Items xs) p cs e (slice buf p e)"
        using d g h by (auto simp: Let_def res_simps split: if_splits)
      have el: "length xs = a \<and> cs \<le> e \<and> e \<le> limit \<and> concat (map (cenc \<circ> val_of) xs) = slice buf cs e \<and>
        (\<forall>x \<in> set xs. node_ok x \<and> cval_ok (val_of x) \<and> depth + 1 + cheight (val_of x) \<le> maxD) \<and>
        n' = n + 1 + sum_list (map (csize \<circ> val_of) xs) \<and> n' \<le> mx"
        using item_reader.elements_good[OF sub r(1)] hs g by simp
      then have "cheight (CArr (List.map val_of xs)) \<le> maxD - depth" by auto
      then have "depth + cheight (CArr (List.map val_of xs)) \<le> maxD" using g(1) by linarith
      then show ?thesis using r arr g hs join el
        by (auto simp: good_item_def comp_def)
    next
      case map
      then obtain xs where r: "entries ?sub a None cs (n + 1) = Inr (xs, e, n')"
        "nd = CNode mt ai a None (Pairs xs) p cs e (slice buf p e)"
        using d g h by (auto simp: Let_def res_simps split: if_splits)
      have el: "length xs = a \<and> cs \<le> e \<and> e \<le> limit \<and> concat (map (\<lambda>(k, v). cenc (val_of k) @ cenc (val_of v)) xs) = slice buf cs e \<and>
        (\<forall>(k, v) \<in> set xs. node_ok k \<and> node_ok v \<and> cval_ok (val_of k) \<and> cval_ok (val_of v) \<and> depth + 1 + cheight (val_of k) \<le> maxD \<and>
          depth + 1 + cheight (val_of v) \<le> maxD) \<and>
        n' = n + 1 + sum_list (map (\<lambda>(k, v). csize (val_of k) + csize (val_of v)) xs) \<and> n' \<le> mx \<and>
        ascending (map (\<lambda>(k, v). cenc (val_of k)) xs)"
        using item_reader.entries_good[OF sub r(1)] hs g by simp
      have "cheight (CMap (List.map (map_prod val_of val_of) xs)) \<le> maxD - depth" using el by fastforce
      then have "depth + cheight (CMap (List.map (map_prod val_of val_of) xs)) \<le> maxD" using g(1) by linarith
      moreover have "concat (List.map (\<lambda>(k, v). k @ v) (List.map (map_prod cenc cenc) (List.map (map_prod val_of val_of) xs))) =
          concat (List.map (\<lambda>(k, v). cenc (val_of k) @ cenc (val_of v)) xs)"
        by (simp add: comp_def case_prod_unfold map_prod_def)
      moreover have "List.map (\<lambda>p. cenc (fst p)) (List.map (map_prod val_of val_of) xs) = List.map (\<lambda>(k, v). cenc (val_of k)) xs"
        by (simp add: comp_def case_prod_unfold)
      moreover have "sum_list (List.map (\<lambda>(a, b). a + b) (List.map (map_prod csize csize) (List.map (map_prod val_of val_of) xs))) =
          sum_list (List.map (\<lambda>(k, v). csize (val_of k) + csize (val_of v)) xs)"
        by (simp add: comp_def case_prod_unfold map_prod_def)
      ultimately show ?thesis using r map g hs join el
        by (auto simp: good_item_def simp del: map_map)
    next
      case tag
      then obtain x where r: "?sub cs (n + 1) = Inr (x, e, n')"
        "nd = CNode mt ai a None (Items [x]) p cs e (slice buf p e)"
        using d g h by (auto simp: Let_def res_simps split: if_splits)
      note x = item_reader.good[OF sub r(1), unfolded good_item_def]
      then show ?thesis using r tag g hs join by (auto simp: good_item_def)
    next
      case simple
      then have r: "check_simple ai a = Inr ()" "nd = CNode mt ai a None NoKids p cs e (slice buf p e)" "e = cs" "n' = n + 1"
        using d g h by (auto simp: Let_def res_simps split: if_splits)
      then have "ai = 24 \<longrightarrow> 32 \<le> a" by (auto simp: check_simple_def split: if_splits)
      moreover have "ai \<in> {25, 26, 27} \<Longrightarrow> shortest_float ai a" using check_simple_shortest r(1) by blast
      ultimately show ?thesis using r simple g hs by (auto simp: good_item_def leaf_val_def)
    qed
  qed
qed (auto intro: item_reader.intro)

interpretation cbor: item_reader "decodeItem fuel buf (min limit (length buf)) maxD mx depth" buf "min limit (length buf)" depth maxD mx
  for fuel buf limit maxD mx depth
  by (rule decodeItem_reader) simp

end
