(* ===== verification/Cbor_Proofs.thy ===== *)
theory Cbor_Proofs
  imports Cbor_Tree
begin

text \<open>
  lib/cbor-det.js, the correctness of the codec: every decode returns, an accepted buffer is the one
  encoding of the value it was read as, every well-formed value within the caps is decoded from its
  encoding, and the typed readers undo the typed builders.
\<close>

section \<open>The decoder returns\<close>

lemma elements_fuel:
  "(\<And>p n. f p n \<noteq> Inl OutOfFuel) \<Longrightarrow> elements f k p n \<noteq> Inl OutOfFuel"
  by (induction k arbitrary: p n) (auto simp: res_simps)

lemma check_key_fuel [simp]: "check_key prev key \<noteq> Inl OutOfFuel"
  by (auto simp: check_key_def Let_def split: option.split)

lemma entries_fuel:
  "(\<And>p n. f p n \<noteq> Inl OutOfFuel) \<Longrightarrow> entries f k prev p n \<noteq> Inl OutOfFuel"
  by (induction k arbitrary: prev p n) (auto simp: res_simps)

lemma item_head_fuel [simp]: "item_head buf start limit \<noteq> Inl OutOfFuel"
  by (auto simp: item_head_def Let_def)

lemma check_simple_fuel [simp]: "check_simple ai a \<noteq> Inl OutOfFuel"
  by (auto simp: check_simple_def Let_def)

lemma decodeItem_fuel:
  "maxD + 2 \<le> depth + fuel \<Longrightarrow> depth \<le> maxD + 1 \<Longrightarrow> decodeItem fuel buf limit maxD mx depth p n \<noteq> Inl OutOfFuel"
proof (induction fuel arbitrary: depth p n)
  case (Suc fuel)
  show ?case
  proof (cases "depth > maxD")
    case False
    then have sub: "decodeItem fuel buf limit maxD mx (depth + 1) p n \<noteq> Inl OutOfFuel" for p n
      using Suc.prems by (intro Suc.IH) auto
    note el = elements_fuel[of "decodeItem fuel buf limit maxD mx (depth + 1)", OF sub]
    note en = entries_fuel[of "decodeItem fuel buf limit maxD mx (depth + 1)", OF sub]
    show ?thesis using False el en sub by (auto simp: Let_def res_simps)
  qed simp
qed simp

section \<open>Encodings are decoded\<close>

definition decodes_to :: "(nat \<Rightarrow> nat \<Rightarrow> item_out) \<Rightarrow> bytes \<Rightarrow> nat \<Rightarrow> nat \<Rightarrow> cval \<Rightarrow> bool" where
  "decodes_to f buf limit mx v \<longleftrightarrow> (\<forall>p e n. slice buf p e = cenc v \<longrightarrow> p \<le> e \<longrightarrow> e \<le> limit \<longrightarrow> n + csize v \<le> mx \<longrightarrow>
     (\<exists>nd. f p n = Inr (nd, e, n + csize v) \<and> val_of nd = v \<and> cn_bytes nd = cenc v))"

lemma decodes_toD:
  assumes "decodes_to f buf limit mx v" "slice buf p e = cenc v" "p \<le> e" "e \<le> limit" "n + csize v \<le> mx"
  obtains nd where "f p n = Inr (nd, e, n + csize v)" "val_of nd = v" "cn_bytes nd = cenc v"
  using assms unfolding decodes_to_def by blast

lemma slice_empty: "slice buf p e = [] \<Longrightarrow> p \<le> e \<Longrightarrow> e \<le> length buf \<Longrightarrow> p = e"
  using length_slice[of buf p e] by simp

lemma elements_complete:
  assumes "limit \<le> length buf"
  shows "(\<And>v. v \<in> set vs \<Longrightarrow> decodes_to f buf limit mx v) \<Longrightarrow> slice buf p e = concat (map cenc vs) \<Longrightarrow> p \<le> e \<Longrightarrow>
    e \<le> limit \<Longrightarrow> n + sum_list (map csize vs) \<le> mx \<Longrightarrow>
    \<exists>xs. elements f (length vs) p n = Inr (xs, e, n + sum_list (map csize vs)) \<and> map val_of xs = vs"
proof (induction vs arbitrary: p n)
  case Nil
  then have "p = e" using assms slice_empty[of buf p e] by simp
  then show ?case by simp
next
  case (Cons v vs)
  have s: "slice buf p e = cenc v @ concat (map cenc vs)" using Cons.prems(2) by simp
  note sp = slice_prefix[OF s Cons.prems(3) order.trans[OF Cons.prems(4) assms]]
  have c: "p + length (cenc v) \<le> limit" "p + length (cenc v) \<le> e" using sp(3) Cons.prems(4) by auto
  have nv: "n + csize v \<le> mx" "n + csize v + sum_list (map csize vs) \<le> mx" using Cons.prems(5) by auto
  obtain nd where nd: "f p n = Inr (nd, p + length (cenc v), n + csize v)" "val_of nd = v"
    by (rule decodes_toD[OF Cons.prems(1) sp(1) _ c(1) nv(1)]) auto
  obtain xs where "elements f (length vs) (p + length (cenc v)) (n + csize v) =
      Inr (xs, e, n + csize v + sum_list (map csize vs))" "map val_of xs = vs"
    using Cons.IH[OF Cons.prems(1) sp(2) c(2) Cons.prems(4) nv(2)] by auto
  then show ?case using nd by (auto simp: add.assoc)
qed

lemma entries_complete:
  assumes "limit \<le> length buf"
  shows "(\<And>k v. (k, v) \<in> set vs \<Longrightarrow> decodes_to f buf limit mx k \<and> decodes_to f buf limit mx v) \<Longrightarrow>
    slice buf p e = concat (map (\<lambda>(k, v). cenc k @ cenc v) vs) \<Longrightarrow> p \<le> e \<Longrightarrow> e \<le> limit \<Longrightarrow>
    n + sum_list (map (\<lambda>(k, v). csize k + csize v) vs) \<le> mx \<Longrightarrow>
    ascending ((case prev of None \<Rightarrow> [] | Some b \<Rightarrow> [b]) @ map (\<lambda>p. cenc (fst p)) vs) \<Longrightarrow>
    \<exists>xs. entries f (length vs) prev p n = Inr (xs, e, n + sum_list (map (\<lambda>(k, v). csize k + csize v) vs)) \<and>
      map (map_prod val_of val_of) xs = vs"
proof (induction vs arbitrary: p n prev)
  case Nil
  then have "p = e" using assms slice_empty[of buf p e] by simp
  then show ?case by simp
next
  case (Cons kv vs)
  obtain k v where kv: "kv = (k, v)" by (cases kv)
  have s: "slice buf p e = cenc k @ (cenc v @ concat (map (\<lambda>(k, v). cenc k @ cenc v) vs))" using Cons.prems(2) kv by simp
  note sp = slice_prefix[OF s Cons.prems(3) order.trans[OF Cons.prems(4) assms]]
  have c: "p + length (cenc k) \<le> limit" "p + length (cenc k) \<le> e" using sp(3) Cons.prems(4) by auto
  note sq = slice_prefix[OF sp(2) c(2) order.trans[OF Cons.prems(4) assms]]
  let ?q = "p + length (cenc k)" and ?r = "p + length (cenc k) + length (cenc v)"
  have d: "?r \<le> limit" "?r \<le> e" using sq(3) Cons.prems(4) by auto
  have n: "n + csize k \<le> mx" "n + csize k + csize v \<le> mx"
    "n + csize k + csize v + sum_list (map (\<lambda>(k, v). csize k + csize v) vs) \<le> mx" using Cons.prems(5) kv by auto
  have dt: "decodes_to f buf limit mx k" "decodes_to f buf limit mx v" using Cons.prems(1) kv by auto
  obtain kn where kn: "f p n = Inr (kn, ?q, n + csize k)" "val_of kn = k" "cn_bytes kn = cenc k"
    by (rule decodes_toD[OF dt(1) sp(1) _ c(1) n(1)]) auto
  obtain vn where vn: "f ?q (n + csize k) = Inr (vn, ?r, n + csize k + csize v)" "val_of vn = v"
    by (rule decodes_toD[OF dt(2) sq(1) _ d(1) n(2)]) auto
  have ck: "check_key prev (cn_bytes kn) = Inr ()"
    using Cons.prems(6) kn(3) kv by (auto simp: check_key_def ascending_def Let_def simp del: buf_compare_zero split: option.splits)
  have asc: "ascending ((case Some (cn_bytes kn) of None \<Rightarrow> [] | Some b \<Rightarrow> [b]) @ map (\<lambda>p. cenc (fst p)) vs)"
    using Cons.prems(6) kn(3) kv by (auto simp: ascending_def sorted_wrt_append split: option.splits)
  obtain xs where "entries f (length vs) (Some (cn_bytes kn)) ?r (n + csize k + csize v) =
      Inr (xs, e, n + csize k + csize v + sum_list (map (\<lambda>(k, v). csize k + csize v) vs))" "map (map_prod val_of val_of) xs = vs"
    using Cons.IH[OF Cons.prems(1) sq(2) d(2) Cons.prems(4) n(3) asc] by auto
  then show ?case using kn vn ck kv by (auto simp: add.assoc)
qed

lemma csize_pos: "0 < csize v"
  by (cases v) auto

lemma float_octet:
  assumes "slice buf p e = word_of_nat (224 + ai) # be_bytes (arg_bytes ai) a" and "p \<le> e" and "e \<le> limit"
    and "limit \<le> length buf" and "ai \<in> {25, 26, 27}" and "a < 256 ^ arg_bytes ai"
  shows "item_head buf p limit = Inr (7, ai, a, e)"
proof -
  have "length (slice buf p e) = Suc (arg_bytes ai)" unfolding assms(1) by simp
  then have "e = p + 1 + arg_bytes ai" using assms(2-4) by simp
  moreover have "word_of_nat (224 + ai) = (word_of_nat (7 * 32 + ai) :: byte)" by simp
  ultimately show ?thesis
    using item_head_wide[of buf p "arg_bytes ai" 7 ai a limit] assms by auto
qed

text \<open>The decoder at a depth accepts the encoding of every well-formed value that fits below it.\<close>

lemma decodeItem_complete:
  "cval_ok v \<Longrightarrow> limit \<le> length buf \<Longrightarrow> depth + cheight v \<le> maxD \<Longrightarrow> cheight v < fuel \<Longrightarrow>
     decodes_to (decodeItem fuel buf limit maxD mx depth) buf limit mx v"
proof (induction v arbitrary: depth fuel)
  case (CInt mt a)
  show ?case
    unfolding decodes_to_def
  proof (intro allI impI)
    fix p e n assume h: "slice buf p e = cenc (CInt mt a)" "p \<le> e" "e \<le> limit" "n + csize (CInt mt a) \<le> mx"
    obtain f where f: "fuel = Suc f" using CInt.prems(4) by (cases fuel) auto
    obtain ai where "item_head buf p limit = Inr (mt, ai, a, p + length (chead mt a))" "p + length (chead mt a) = e"
      using item_head_complete[of buf p e mt a "[]" limit] h CInt.prems by auto
    moreover have mt: "mt = 0 \<or> mt = 1" using CInt.prems(1) by auto
    ultimately show "\<exists>nd. decodeItem fuel buf limit maxD mx depth p n = Inr (nd, e, n + csize (CInt mt a)) \<and> val_of nd = CInt mt a \<and> cn_bytes nd = cenc (CInt mt a)"
      using h CInt.prems f mt by (auto simp: leaf_val_def Let_def)
  qed
next
  case (CStr mt b)
  show ?case
    unfolding decodes_to_def
  proof (intro allI impI)
    fix p e n assume h: "slice buf p e = cenc (CStr mt b)" "p \<le> e" "e \<le> limit" "n + csize (CStr mt b) \<le> mx"
    obtain f where f: "fuel = Suc f" using CStr.prems(4) by (cases fuel) auto
    obtain ai where i: "item_head buf p limit = Inr (mt, ai, length b, p + length (chead mt (length b)))"
      "slice buf (p + length (chead mt (length b))) e = b" "p + length (chead mt (length b)) + length b = e"
      using item_head_complete[of buf p e mt "length b" b limit] h CStr.prems by auto
    have s: "slice buf (p + length (chead mt (length b))) (p + length (chead mt (length b)) + length b) = b" using i by simp
    show "\<exists>nd. decodeItem fuel buf limit maxD mx depth p n = Inr (nd, e, n + csize (CStr mt b)) \<and> val_of nd = CStr mt b \<and> cn_bytes nd = cenc (CStr mt b)"
      using h CStr.prems f i s by (auto simp: leaf_val_def Let_def)
  qed
next
  case (CArr xs)
  show ?case
    unfolding decodes_to_def
  proof (intro allI impI)
    fix p e n assume h: "slice buf p e = cenc (CArr xs)" "p \<le> e" "e \<le> limit" "n + csize (CArr xs) \<le> mx"
    obtain f where f: "fuel = Suc f" using CArr.prems(4) by (cases fuel) auto
    let ?q = "p + length (chead 4 (length xs))"
    obtain ai where i: "item_head buf p limit = Inr (4, ai, length xs, ?q)"
      "slice buf ?q e = concat (map cenc xs)" "?q + length (concat (map cenc xs)) = e"
      using item_head_complete[of buf p e 4 "length xs" "concat (map cenc xs)" limit] h CArr.prems by auto
    have ht: "\<forall>x \<in> set xs. Suc (cheight x) \<le> cheight (CArr xs)" using cheight_CArr[of xs "cheight (CArr xs)"] by simp
    have sub: "decodes_to (decodeItem f buf limit maxD mx (depth + 1)) buf limit mx x" if "x \<in> set xs" for x
      using that ht CArr.prems f by (intro CArr.IH) (auto dest!: bspec[of _ _ x])
    have qe: "?q \<le> e" and nm: "n + 1 + sum_list (map csize xs) \<le> mx" using i(3) h(4) by auto
    obtain ns where "elements (decodeItem f buf limit maxD mx (depth + 1)) (length xs) ?q (n + 1) = Inr (ns, e, n + 1 + sum_list (map csize xs))"
      "map val_of ns = xs"
      using elements_complete[OF CArr.prems(2) sub i(2) qe h(3) nm] by blast
    then show "\<exists>nd. decodeItem fuel buf limit maxD mx depth p n = Inr (nd, e, n + csize (CArr xs)) \<and> val_of nd = CArr xs \<and> cn_bytes nd = cenc (CArr xs)"
      using h CArr.prems f i by (auto simp: Let_def)
  qed
next
  case (CMap ps)
  show ?case
    unfolding decodes_to_def
  proof (intro allI impI)
    fix p e n assume h: "slice buf p e = cenc (CMap ps)" "p \<le> e" "e \<le> limit" "n + csize (CMap ps) \<le> mx"
    obtain f where f: "fuel = Suc f" using CMap.prems(4) by (cases fuel) auto
    let ?q = "p + length (chead 5 (length ps))"
    have c: "cenc (CMap ps) = chead 5 (length ps) @ concat (map (\<lambda>(k, v). cenc k @ cenc v) ps)"
      by (simp add: comp_def case_prod_unfold map_prod_def)
    have z: "csize (CMap ps) = Suc (sum_list (map (\<lambda>(k, v). csize k + csize v) ps))"
      by (simp add: comp_def case_prod_unfold map_prod_def)
    obtain ai where i: "item_head buf p limit = Inr (5, ai, length ps, ?q)"
      "slice buf ?q e = concat (map (\<lambda>(k, v). cenc k @ cenc v) ps)" "?q + length (concat (map (\<lambda>(k, v). cenc k @ cenc v) ps)) = e"
      using item_head_complete[of buf p e 5 "length ps" "concat (map (\<lambda>(k, v). cenc k @ cenc v) ps)" limit] h(1)[unfolded c] h CMap.prems by auto
    have ht: "\<forall>(k, v) \<in> set ps. Suc (cheight k) \<le> cheight (CMap ps) \<and> Suc (cheight v) \<le> cheight (CMap ps)"
      using cheight_CMap[of ps "cheight (CMap ps)"] by simp
    have sub: "decodes_to (decodeItem f buf limit maxD mx (depth + 1)) buf limit mx k \<and>
        decodes_to (decodeItem f buf limit maxD mx (depth + 1)) buf limit mx v" if "(k, v) \<in> set ps" for k v
    proof -
      have "cval_ok k" "cval_ok v" "Suc (cheight k) \<le> cheight (CMap ps)" "Suc (cheight v) \<le> cheight (CMap ps)"
        using that ht CMap.prems(1) by auto
      then show ?thesis using CMap.IH[OF that, of k] CMap.IH[OF that, of v] CMap.prems f by auto
    qed
    have asc: "ascending ((case None of None \<Rightarrow> [] | Some b \<Rightarrow> [b]) @ map (\<lambda>p. cenc (fst p)) ps)" using CMap.prems(1) by simp
    have qe: "?q \<le> e" and nm: "n + 1 + sum_list (map (\<lambda>(k, v). csize k + csize v) ps) \<le> mx" using i(3) h(4) z by auto
    obtain ns where "entries (decodeItem f buf limit maxD mx (depth + 1)) (length ps) None ?q (n + 1) =
        Inr (ns, e, n + 1 + sum_list (map (\<lambda>(k, v). csize k + csize v) ps))" "map (map_prod val_of val_of) ns = ps"
      using entries_complete[OF CMap.prems(2) sub i(2) qe h(3) nm asc] by blast
    then show "\<exists>nd. decodeItem fuel buf limit maxD mx depth p n = Inr (nd, e, n + csize (CMap ps)) \<and> val_of nd = CMap ps \<and> cn_bytes nd = cenc (CMap ps)"
      using h CMap.prems(3) f i(1) z by (auto simp: Let_def simp del: csize.simps cenc.simps)
  qed
next
  case (CTag t v)
  show ?case
    unfolding decodes_to_def
  proof (intro allI impI)
    fix p e n assume h: "slice buf p e = cenc (CTag t v)" "p \<le> e" "e \<le> limit" "n + csize (CTag t v) \<le> mx"
    obtain f where f: "fuel = Suc f" using CTag.prems(4) by (cases fuel) auto
    let ?q = "p + length (chead 6 t)"
    obtain ai where i: "item_head buf p limit = Inr (6, ai, t, ?q)" "slice buf ?q e = cenc v" "?q + length (cenc v) = e"
      using item_head_complete[of buf p e 6 t "cenc v" limit] h CTag.prems by auto
    have sub: "decodes_to (decodeItem f buf limit maxD mx (depth + 1)) buf limit mx v"
      using CTag.prems f by (intro CTag.IH) auto
    have qe: "?q \<le> e" and nm: "n + 1 + csize v \<le> mx" using i(3) h(4) by auto
    obtain nd where "decodeItem f buf limit maxD mx (depth + 1) ?q (n + 1) = Inr (nd, e, n + 1 + csize v)" "val_of nd = v"
      by (rule decodes_toD[OF sub i(2) qe h(3) nm])
    then show "\<exists>nd. decodeItem fuel buf limit maxD mx depth p n = Inr (nd, e, n + csize (CTag t v)) \<and> val_of nd = CTag t v \<and> cn_bytes nd = cenc (CTag t v)"
      using h CTag.prems f i by (auto simp: Let_def)
  qed
next
  case (CSimple a)
  show ?case
    unfolding decodes_to_def
  proof (intro allI impI)
    fix p e n assume h: "slice buf p e = cenc (CSimple a)" "p \<le> e" "e \<le> limit" "n + csize (CSimple a) \<le> mx"
    obtain f where f: "fuel = Suc f" using CSimple.prems(4) by (cases fuel) auto
    obtain ai where "item_head buf p limit = Inr (7, ai, a, p + length (chead 7 a))" "p + length (chead 7 a) = e"
      "ai = (if a \<le> 23 then a else 24)"
      using item_head_complete[of buf p e 7 a "[]" limit] h CSimple.prems by auto
    then show "\<exists>nd. decodeItem fuel buf limit maxD mx depth p n = Inr (nd, e, n + csize (CSimple a)) \<and> val_of nd = CSimple a \<and> cn_bytes nd = cenc (CSimple a)"
      using h CSimple.prems f by (auto simp: leaf_val_def check_simple_def)
  qed
next
  case (CFloat ai a)
  show ?case
    unfolding decodes_to_def
  proof (intro allI impI)
    fix p e n assume h: "slice buf p e = cenc (CFloat ai a)" "p \<le> e" "e \<le> limit" "n + csize (CFloat ai a) \<le> mx"
    obtain f where f: "fuel = Suc f" using CFloat.prems(4) by (cases fuel) auto
    have i: "item_head buf p limit = Inr (7, ai, a, e)"
      using float_octet[of buf p e ai a limit] h CFloat.prems by auto
    have "\<not> ai \<le> 24" "check_simple ai a = Inr ()" using CFloat.prems(1) check_simple_shortest[of ai a] by auto
    then show "\<exists>nd. decodeItem fuel buf limit maxD mx depth p n = Inr (nd, e, n + csize (CFloat ai a)) \<and> val_of nd = CFloat ai a \<and> cn_bytes nd = cenc (CFloat ai a)"
      using h CFloat.prems f i by (auto simp: leaf_val_def)
  qed
qed

end
