(* ===== verification/Cbor_Codec.thy ===== *)
theory Cbor_Codec
  imports Cbor_Proofs
begin

text \<open>
  lib/cbor-det.js, the entry point with its default caps as a bijection between accepted buffers and
  well-formed values, and the typed readers and builders as the two directions of it.
\<close>

section \<open>The entry point\<close>

lemma cbor_decode_default: "cbor_decode buf cbor_no_opts = Inr nd \<longleftrightarrow>
    length buf \<le> CBOR_MAX_BYTES \<and>
    (\<exists>n. decodeItem (CBOR_MAX_DEPTH + 2) buf (length buf) CBOR_MAX_DEPTH CBOR_MAX_ITEMS 0 0 0 = Inr (nd, length buf, n))"
  by (auto simp: cbor_decode_def cbor_no_opts_def depthCap_def profile_def cbor_fuel_def res_simps
      MAX_DECODE_DEPTH_CEILING_def CBOR_MAX_DEPTH_def CBOR_MAX_BYTES_def nat_add_distrib)

definition fits :: "cval \<Rightarrow> bool" where
  "fits v \<longleftrightarrow> length (cenc v) \<le> CBOR_MAX_BYTES \<and> cheight v \<le> CBOR_MAX_DEPTH \<and> csize v \<le> CBOR_MAX_ITEMS"

lemma cbor_accepted:
  assumes "cbor_decode buf cbor_no_opts = Inr nd"
  shows "cenc (val_of nd) = buf" "cval_ok (val_of nd)" "fits (val_of nd)" "node_ok nd"
proof -
  from assms obtain n where "decodeItem (CBOR_MAX_DEPTH + 2) buf (length buf) CBOR_MAX_DEPTH CBOR_MAX_ITEMS 0 0 0 = Inr (nd, length buf, n)"
    and l: "length buf \<le> CBOR_MAX_BYTES" by (auto simp: cbor_decode_default)
  from item_reader.good[OF decodeItem_reader[OF order.refl] this(1)] l
  show "cenc (val_of nd) = buf" "cval_ok (val_of nd)" "fits (val_of nd)" "node_ok nd"
    by (auto simp: good_item_def fits_def)
qed

lemma cbor_encoded:
  assumes "cval_ok v" and "fits v"
  obtains nd where "cbor_decode (cenc v) cbor_no_opts = Inr nd" "val_of nd = v"
proof -
  let ?b = "cenc v"
  have "decodes_to (decodeItem (CBOR_MAX_DEPTH + 2) ?b (length ?b) CBOR_MAX_DEPTH CBOR_MAX_ITEMS 0) ?b (length ?b) CBOR_MAX_ITEMS v"
    using assms by (intro decodeItem_complete) (auto simp: fits_def)
  from decodes_toD[OF this, of 0 "length ?b" 0]
  obtain nd where "decodeItem (CBOR_MAX_DEPTH + 2) ?b (length ?b) CBOR_MAX_DEPTH CBOR_MAX_ITEMS 0 0 0 = Inr (nd, length ?b, csize v)"
      "val_of nd = v"
    using assms by (auto simp: fits_def)
  then show thesis using assms that by (auto simp: cbor_decode_default fits_def)
qed

lemma cbor_value:
  assumes "cbor_decode buf cbor_no_opts = Inr nd" and "cval_ok v" and "fits v"
  shows "val_of nd = v \<longleftrightarrow> cenc v = buf"
proof
  assume e: "cenc v = buf"
  obtain nd' where "cbor_decode (cenc v) cbor_no_opts = Inr nd'" "val_of nd' = v" by (rule cbor_encoded[OF assms(2,3)])
  then show "val_of nd = v" using assms(1) e by simp
qed (use cbor_accepted(1)[OF assms(1)] in simp)

section \<open>What a node of each major type holds\<close>

lemma node_members:
  assumes "node_ok nd"
  shows "majorType nd \<le> 1 \<Longrightarrow> val_of nd = CInt (majorType nd) (argument nd)"
    and "majorType nd = 2 \<or> majorType nd = 3 \<Longrightarrow> \<exists>b. cn_content nd = Some b \<and> val_of nd = CStr (majorType nd) b"
    and "majorType nd = 4 \<Longrightarrow> \<exists>xs. cn_children nd = Items xs \<and> val_of nd = CArr (map val_of xs) \<and> (\<forall>x \<in> set xs. node_ok x)"
    and "majorType nd = 5 \<Longrightarrow> \<exists>ps. cn_children nd = Pairs ps \<and> val_of nd = CMap (map (map_prod val_of val_of) ps) \<and>
      (\<forall>(k, v) \<in> set ps. node_ok k \<and> node_ok v)"
    and "majorType nd = 6 \<Longrightarrow> \<exists>x. cn_children nd = Items [x] \<and> val_of nd = CTag (argument nd) (val_of x) \<and> node_ok x"
    and "majorType nd = 7 \<Longrightarrow> val_of nd = (if cn_ai nd \<le> 24 then CSimple (argument nd) else CFloat (cn_ai nd) (argument nd)) \<and>
      (cn_ai nd \<le> 23 \<longrightarrow> argument nd = cn_ai nd) \<and> (cn_ai nd = 24 \<longrightarrow> 32 \<le> argument nd)"
    and "majorType nd \<le> 7"
proof -
  obtain mt ai a c kids s cs e b where nd: "nd = CNode mt ai a c kids s cs e b" by (cases nd)
  show "majorType nd \<le> 1 \<Longrightarrow> val_of nd = CInt (majorType nd) (argument nd)"
    "majorType nd = 2 \<or> majorType nd = 3 \<Longrightarrow> \<exists>b. cn_content nd = Some b \<and> val_of nd = CStr (majorType nd) b"
    "majorType nd = 4 \<Longrightarrow> \<exists>xs. cn_children nd = Items xs \<and> val_of nd = CArr (map val_of xs) \<and> (\<forall>x \<in> set xs. node_ok x)"
    "majorType nd = 5 \<Longrightarrow> \<exists>ps. cn_children nd = Pairs ps \<and> val_of nd = CMap (map (map_prod val_of val_of) ps) \<and>
      (\<forall>(k, v) \<in> set ps. node_ok k \<and> node_ok v)"
    "majorType nd = 6 \<Longrightarrow> \<exists>x. cn_children nd = Items [x] \<and> val_of nd = CTag (argument nd) (val_of x) \<and> node_ok x"
    "majorType nd = 7 \<Longrightarrow> val_of nd = (if cn_ai nd \<le> 24 then CSimple (argument nd) else CFloat (cn_ai nd) (argument nd)) \<and>
      (cn_ai nd \<le> 23 \<longrightarrow> argument nd = cn_ai nd) \<and> (cn_ai nd = 24 \<longrightarrow> 32 \<le> argument nd)"
    "majorType nd \<le> 7"
    using assms unfolding nd by (cases kids; auto simp: leaf_val_def length_Suc_conv)+
qed

lemma val_cases:
  assumes "node_ok nd"
  shows "val_of nd = CInt mt a \<Longrightarrow> majorType nd = mt \<and> argument nd = a \<and> mt \<le> 1"
    and "val_of nd = CStr mt b \<Longrightarrow> majorType nd = mt \<and> cn_content nd = Some b \<and> (mt = 2 \<or> mt = 3)"
    and "val_of nd = CTag t v \<Longrightarrow> \<exists>x. majorType nd = 6 \<and> argument nd = t \<and> cn_children nd = Items [x] \<and> val_of x = v \<and> node_ok x"
proof -
  have "majorType nd \<le> 1 \<or> majorType nd = 2 \<or> majorType nd = 3 \<or> majorType nd = 4 \<or> majorType nd = 5 \<or> majorType nd = 6 \<or> majorType nd = 7"
    using node_members(7)[OF assms] by linarith
  then show "val_of nd = CInt mt a \<Longrightarrow> majorType nd = mt \<and> argument nd = a \<and> mt \<le> 1"
    "val_of nd = CStr mt b \<Longrightarrow> majorType nd = mt \<and> cn_content nd = Some b \<and> (mt = 2 \<or> mt = 3)"
    "val_of nd = CTag t v \<Longrightarrow> \<exists>x. majorType nd = 6 \<and> argument nd = t \<and> cn_children nd = Items [x] \<and> val_of x = v \<and> node_ok x"
    using node_members[OF assms] by (auto split: if_splits)
qed

section \<open>Heads the builders write\<close>

lemma chead_length: "length (chead mt a) \<le> 9"
  by (auto simp: chead_def)

lemma cbor_head_big: "cbor_head mt (Big i) = (if 0 \<le> i \<and> i < 2 ^ 64 then Inr (chead mt (nat i)) else Inl (CborE Cbor_bad_argument))"
proof -
  have o: "x < 32 \<Longrightarrow> push_bit 5 mt OR x = mt * 32 + x" for x using nat_or_low[of x 5 mt] by (simp add: push_bit_eq_mult)
  show ?thesis by (auto simp: cbor_head_def authoredInt_def authoredInteger_def chead_def Let_def o)
qed

lemma cbor_head_num: "is_safe_integer i \<Longrightarrow> cbor_head mt (Num i) = cbor_head mt (Big i)"
  by (simp add: cbor_head_def authoredInt_def authoredInteger_def)

lemma safe_length: "n \<le> 2 ^ 52 \<Longrightarrow> is_safe_integer (int n)"
  by (simp add: is_safe_integer_def max_safe_def)

lemma cbor_head_len: "n \<le> 2 ^ 52 \<Longrightarrow> cbor_head mt (Num (int n)) = Inr (chead mt n)"
  by (simp add: cbor_head_num safe_length cbor_head_big)

lemma chead_length_le: "length b \<le> CBOR_MAX_BYTES \<Longrightarrow> length b \<le> 2 ^ 52"
  by (simp add: CBOR_MAX_BYTES_def)

lemma byteString_iff: "length b \<le> 2 ^ 52 \<Longrightarrow> cbor_byteString (Buf b) = Inr out \<longleftrightarrow>
    out = cenc (CStr 2 b) \<and> length out \<le> CBOR_MAX_BYTES"
  by (auto simp: cbor_byteString_def cbor_asBuffer_def cbor_head_len capString_def)

lemma textString_iff: "length (utf8_encode s) \<le> 2 ^ 52 \<Longrightarrow> cbor_textString (Str s) = Inr out \<longleftrightarrow>
    code_points s \<noteq> None \<and> out = cenc (CStr 3 (utf8_encode s)) \<and> length out \<le> CBOR_MAX_BYTES"
  by (auto simp: cbor_textString_def asText_def cbor_head_len capString_def Let_def res_simps wellFormed_iff)

lemma assertDecodes_iff: "assertDecodes b = Inr out \<longleftrightarrow> out = b \<and> (\<exists>nd. cbor_decode b cbor_no_opts = Inr nd)"
  by (auto simp: assertDecodes_def split: sum.splits)

lemma tag_iff: "t \<le> 2 ^ 52 \<Longrightarrow> cbor_tag (Num (int t)) (Buf b) = Inr out \<longleftrightarrow>
    out = chead 6 t @ b \<and> (\<exists>nd. cbor_decode out cbor_no_opts = Inr nd)"
  by (auto simp: cbor_tag_def cbor_head_len cbItem_def assertDecodes_iff)

lemma cbor_int_iff: "cbor_int (Big i) = Inr out \<longleftrightarrow> - (2 ^ 64) \<le> i \<and> i < 2 ^ 64 \<and>
    out = cenc (CInt (if 0 \<le> i then 0 else 1) (nat (if 0 \<le> i then i else -1 - i)))"
  by (auto simp: cbor_int_def authoredInt_def authoredInteger_def cbor_head_big)

lemma fits_int: "fits (CInt mt a)"
  using chead_length[of mt a] by (simp add: fits_def CBOR_MAX_BYTES_def CBOR_MAX_ITEMS_def)

lemma fits_str: "fits (CStr mt b) \<longleftrightarrow> length (cenc (CStr mt b)) \<le> CBOR_MAX_BYTES"
  by (simp add: fits_def CBOR_MAX_ITEMS_def)

lemma fits_tag_leaf: "cheight v = 0 \<Longrightarrow> csize v = 1 \<Longrightarrow> fits (CTag t v) \<longleftrightarrow> length (cenc (CTag t v)) \<le> CBOR_MAX_BYTES"
  by (simp add: fits_def CBOR_MAX_ITEMS_def CBOR_MAX_DEPTH_def)

lemma accepted_length: "cbor_decode buf cbor_no_opts = Inr nd \<Longrightarrow> length buf \<le> CBOR_MAX_BYTES"
  by (simp add: cbor_decode_default)

section \<open>Magnitudes\<close>

lemma magnitude_val [simp]: "be_val (magnitude n) = n"
  by (induction n rule: magnitude.induct) (subst magnitude.simps, simp)

lemma magnitude_step: "n * 256 + unat b \<noteq> 0 \<Longrightarrow> magnitude (n * 256 + unat b) = magnitude n @ [b]"
proof -
  assume nz: "n * 256 + unat b \<noteq> 0"
  have m: "(n * 256 + unat b) div 256 = n" "(n * 256 + unat b) mod 256 = unat b" by simp_all
  have w: "(word_of_nat (n * 256 + unat b) :: byte) = b" by (metis m(2) of_nat_mod_256 word_of_nat_unat_byte)
  show ?thesis using magnitude.simps[of "n * 256 + unat b"] nz unfolding m(1) w by simp
qed

lemma magnitude_be_val: "bs = [] \<or> hd bs \<noteq> 0 \<Longrightarrow> magnitude (be_val bs) = bs"
proof (induction bs rule: rev_induct)
  case (snoc b bs)
  have "be_val bs * 256 + unat b \<noteq> 0"
  proof (cases "bs = []")
    case True
    then show ?thesis using snoc.prems by (simp add: unat_eq_0)
  next
    case False
    then have "magnitude (be_val bs) = bs" using snoc by simp
    then have "be_val bs \<noteq> 0" using False by (metis magnitude.simps)
    then show ?thesis by simp
  qed
  from magnitude_step[OF this] have "magnitude (be_val (bs @ [b])) = magnitude (be_val bs) @ [b]" unfolding be_val_snoc .
  moreover have "magnitude (be_val bs) = bs" using snoc by (cases bs) (auto simp: magnitude.simps[of 0])
  ultimately show ?case by simp
qed (simp add: magnitude.simps)

lemma magnitude_hd: "n \<noteq> 0 \<Longrightarrow> magnitude n \<noteq> [] \<and> hd (magnitude n) \<noteq> 0"
proof (induction n rule: magnitude.induct)
  case (1 n)
  show ?case
  proof (cases "n div 256 = 0")
    case True
    then have "n < 256" by simp
    then have "magnitude n = [word_of_nat n]" using 1 by (subst magnitude.simps) (simp add: magnitude.simps[of 0])
    moreover have "unat (word_of_nat n :: byte) = n" using \<open>n < 256\<close> by (rule byte_nat)
    moreover have "(word_of_nat n :: byte) \<noteq> 0" using calculation(2) 1(2) by (metis unat_0)
    ultimately show ?thesis by simp
  next
    case False
    then show ?thesis using 1 by (subst (1 2) magnitude.simps) auto
  qed
qed

lemma magnitude_iff: "be_val c = n \<and> (c = [] \<or> hd c \<noteq> 0) \<longleftrightarrow> c = magnitude n"
proof
  assume "c = magnitude n"
  then show "be_val c = n \<and> (c = [] \<or> hd c \<noteq> 0)"
    using magnitude_hd[of n] by (cases "n = 0") (auto simp: magnitude.simps[of 0])
qed (use magnitude_be_val[of c] in auto)

section \<open>Readers and builders\<close>

lemma readInt_val: "node_ok nd \<Longrightarrow> cbor_readInt nd = Inr i \<longleftrightarrow>
    val_of nd = CInt (if 0 \<le> i then 0 else 1) (nat (if 0 \<le> i then i else -1 - i))"
proof
  assume ok: "node_ok nd" and "cbor_readInt nd = Inr i"
  then have "(majorType nd = 0 \<and> i = int (argument nd)) \<or> (majorType nd = 1 \<and> i = -1 - int (argument nd))"
    by (auto simp: cbor_readInt_def split: if_splits)
  then show "val_of nd = CInt (if 0 \<le> i then 0 else 1) (nat (if 0 \<le> i then i else -1 - i))"
    using node_members(1)[OF ok] by auto
next
  assume "node_ok nd" "val_of nd = CInt (if 0 \<le> i then 0 else 1) (nat (if 0 \<le> i then i else -1 - i))"
  from val_cases(1)[OF this] show "cbor_readInt nd = Inr i" by (auto simp: cbor_readInt_def split: if_splits)
qed

lemma readByteString_val: "node_ok nd \<Longrightarrow> readByteString nd = Inr b \<longleftrightarrow> val_of nd = CStr 2 b"
  using node_members(2)[of nd] val_cases(2)[of nd 2 b]
  by (auto simp: readByteString_def expectMajor_def cn_data_def)

lemma readText_val: "node_ok nd \<Longrightarrow> readTextString nd = Inr s \<longleftrightarrow>
    val_of nd = CStr 3 (utf8_encode s) \<and> unit_string s \<and> code_points s \<noteq> None"
proof
  assume ok: "node_ok nd" and "readTextString nd = Inr s"
  then obtain b where b: "majorType nd = 3" "cn_content nd = Some b" "utf8_decode b = Some s"
    by (auto simp: readTextString_def expectMajor_def cn_data_def res_simps split: option.splits if_splits)
  then show "val_of nd = CStr 3 (utf8_encode s) \<and> unit_string s \<and> code_points s \<noteq> None"
    using node_members(2)[OF ok] b(3)[unfolded utf8_text] by auto
next
  assume ok: "node_ok nd" and v: "val_of nd = CStr 3 (utf8_encode s) \<and> unit_string s \<and> code_points s \<noteq> None"
  have "utf8_decode (utf8_encode s) = Some s" unfolding utf8_text using v by simp
  then show "readTextString nd = Inr s"
    using val_cases(2)[OF ok, of 3 "utf8_encode s"] v by (simp add: readTextString_def expectMajor_def cn_data_def)
qed

lemma tagInner_val: "node_ok nd \<Longrightarrow> tagInner nd t = Inr x \<Longrightarrow> val_of nd = CTag t (val_of x) \<and> node_ok x"
  using node_members(5)[of nd] by (auto simp: tagInner_def cn_items_def res_simps split: if_splits)

lemma tagInner_back: "node_ok nd \<Longrightarrow> val_of nd = CTag t v \<Longrightarrow> \<exists>x. tagInner nd t = Inr x \<and> val_of x = v \<and> node_ok x"
  using val_cases(3)[of nd t v] by (auto simp: tagInner_def cn_items_def)

lemma readBiguint_val: "node_ok nd \<Longrightarrow> readBiguint nd = Inr n \<longleftrightarrow>
    val_of nd = CTag 2 (CStr 2 (magnitude n)) \<and> 8 < length (magnitude n) \<and> length (magnitude n) \<le> CBOR_MAX_BIGUINT_BYTES"
proof
  assume ok: "node_ok nd" and "readBiguint nd = Inr n"
  then obtain x c where x: "tagInner nd 2 = Inr x" "majorType x = 2" "cn_content x = Some c" "length c \<le> CBOR_MAX_BIGUINT_BYTES"
    "\<not> (0 < length c \<and> hd c = 0)" "8 < length c" "be_val c = n"
    by (auto simp: readBiguint_def res_simps cn_data_def split: option.splits)
  have "c = magnitude n" using x by (auto simp: magnitude_iff[symmetric])
  then show "val_of nd = CTag 2 (CStr 2 (magnitude n)) \<and> 8 < length (magnitude n) \<and> length (magnitude n) \<le> CBOR_MAX_BIGUINT_BYTES"
    using tagInner_val[OF ok x(1)] node_members(2)[of x] x by auto
next
  assume ok: "node_ok nd" and v: "val_of nd = CTag 2 (CStr 2 (magnitude n)) \<and> 8 < length (magnitude n) \<and> length (magnitude n) \<le> CBOR_MAX_BIGUINT_BYTES"
  then obtain x where x: "tagInner nd 2 = Inr x" "val_of x = CStr 2 (magnitude n)" "node_ok x"
    using tagInner_back by blast
  have "majorType x = 2" "cn_content x = Some (magnitude n)" using val_cases(2)[OF x(3,2)] by auto
  then show "readBiguint nd = Inr n" using x v magnitude_iff[of "magnitude n" n]
    by (auto simp: readBiguint_def cn_data_def)
qed

definition epoch_int :: "int \<Rightarrow> cval" where
  "epoch_int s = CInt (if 0 \<le> s then 0 else 1) (nat (if 0 \<le> s then s else -1 - s))"

lemma epoch_clip: "- MAX_EPOCH_SECONDS \<le> s \<Longrightarrow> s \<le> MAX_EPOCH_SECONDS \<Longrightarrow>
    bindR (time_seconds (Num (if s < 0 then - s else s))) (\<lambda>ms.
      case time_clip (if s < 0 then - ms else ms) of Some t \<Rightarrow> Inr t | None \<Rightarrow> Inl (CborE Cbor_bad_time)) = Inr (s * 1000)"
  by (auto simp: time_seconds_def scale_def positive_def is_safe_integer_def max_safe_def Let_def time_clip_def
      MAX_EPOCH_SECONDS_def)

lemma readTime_val: "node_ok nd \<Longrightarrow> cbor_readTime nd = Inr t \<longleftrightarrow> (\<exists>s. t = s * 1000 \<and> - MAX_EPOCH_SECONDS \<le> s \<and>
    s \<le> MAX_EPOCH_SECONDS \<and> val_of nd = CTag 1 (epoch_int s))"
proof
  assume ok: "node_ok nd" and r: "cbor_readTime nd = Inr t"
  then obtain x where x: "tagInner nd 1 = Inr x" "majorType x = 0 \<or> majorType x = 1"
    by (auto simp: cbor_readTime_def res_simps split: if_splits)
  let ?s = "if majorType x = 0 then int (argument x) else -1 - int (argument x)"
  have b: "\<not> (?s < - MAX_EPOCH_SECONDS \<or> ?s > MAX_EPOCH_SECONDS)" using r x
    by (auto simp: cbor_readTime_def Let_def split: if_splits)
  then have "t = ?s * 1000" using r x epoch_clip[of ?s] by (simp add: cbor_readTime_def Let_def split: if_splits)
  moreover have "val_of nd = CTag 1 (epoch_int ?s)"
    using tagInner_val[OF ok x(1)] node_members(1)[of x] x(2) by (auto simp: epoch_int_def)
  ultimately show "\<exists>s. t = s * 1000 \<and> - MAX_EPOCH_SECONDS \<le> s \<and> s \<le> MAX_EPOCH_SECONDS \<and> val_of nd = CTag 1 (epoch_int s)"
    using b by (intro exI[of _ ?s]) auto
next
  assume ok: "node_ok nd" and "\<exists>s. t = s * 1000 \<and> - MAX_EPOCH_SECONDS \<le> s \<and> s \<le> MAX_EPOCH_SECONDS \<and> val_of nd = CTag 1 (epoch_int s)"
  then obtain s where s: "t = s * 1000" "- MAX_EPOCH_SECONDS \<le> s" "s \<le> MAX_EPOCH_SECONDS" "val_of nd = CTag 1 (epoch_int s)" by blast
  from tagInner_back[OF ok s(4)] obtain x where x: "tagInner nd 1 = Inr x" "val_of x = epoch_int s" "node_ok x" by blast
  have m: "majorType x = (if 0 \<le> s then 0 else 1)" "argument x = nat (if 0 \<le> s then s else -1 - s)"
    using val_cases(1)[OF x(3) x(2)[unfolded epoch_int_def]] by auto
  have "(if majorType x = 0 then int (argument x) else -1 - int (argument x)) = s" using m by (auto split: if_splits)
  then show "cbor_readTime nd = Inr t" using x m s epoch_clip[OF s(2,3)] by (simp add: cbor_readTime_def Let_def)
qed

lemma oid_content_length: "decodeOidContent c = Inr d \<Longrightarrow> length c \<le> 2 ^ 16"
proof -
  have b: "length (concat (map b128 subs)) \<le> length subs * OID_MAX_SUBIDENTIFIER_BYTES"
    if "\<forall>s \<in> set subs. count128 s \<le> OID_MAX_SUBIDENTIFIER_BYTES" for subs
    using that by (induction subs) (auto simp: length_b128)
  assume "decodeOidContent c = Inr d"
  then obtain subs where s: "c = concat (map b128 subs)" "\<forall>s \<in> set subs. count128 s \<le> OID_MAX_SUBIDENTIFIER_BYTES"
    "length subs \<le> OID_MAX_SUBIDENTIFIERS" by (auto simp: decodeOid_iff)
  have "length c \<le> length subs * 32" using b[OF s(2)] s(1) by (simp add: OID_MAX_SUBIDENTIFIER_BYTES_def)
  also have "\<dots> \<le> 128 * 32" using s(3) by (simp add: OID_MAX_SUBIDENTIFIERS_def)
  finally show ?thesis by simp
qed

lemma readOid_val: "node_ok nd \<Longrightarrow> cbor_readOid nd = Inr d \<longleftrightarrow>
    (\<exists>c. val_of nd = CTag 111 (CStr 2 c) \<and> decodeOidContent c = Inr d)"
proof
  assume ok: "node_ok nd" and "cbor_readOid nd = Inr d"
  then obtain x c where x: "tagInner nd 111 = Inr x" "majorType x = 2" "cn_content x = Some c" "decodeOidContent c = Inr d"
    by (auto simp: cbor_readOid_def res_simps cn_data_def split: option.splits)
  then show "\<exists>c. val_of nd = CTag 111 (CStr 2 c) \<and> decodeOidContent c = Inr d"
    using tagInner_val[OF ok x(1)] node_members(2)[of x] by auto
next
  assume ok: "node_ok nd" and "\<exists>c. val_of nd = CTag 111 (CStr 2 c) \<and> decodeOidContent c = Inr d"
  then obtain c where c: "val_of nd = CTag 111 (CStr 2 c)" "decodeOidContent c = Inr d" by blast
  from tagInner_back[OF ok c(1)] obtain x where "tagInner nd 111 = Inr x" "val_of x = CStr 2 c" "node_ok x" by blast
  then show "cbor_readOid nd = Inr d" using val_cases(2)[of x 2 c] c by (auto simp: cbor_readOid_def cn_data_def)
qed

text \<open>A builder of a tagged leaf, against a buffer the decoder accepts.\<close>

lemma tagged_leaf:
  assumes "cbor_decode buf cbor_no_opts = Inr nd" and "cval_ok v" and "cheight v = 0" and "csize v = 1" and "t \<le> 2 ^ 52"
  shows "(cbor_tag (Num (int t)) (Buf (cenc v)) = Inr buf) = (val_of nd = CTag t v)"
proof -
  have "cval_ok (CTag t v)" using assms(2,5) by simp
  moreover have "fits (CTag t v) \<longleftrightarrow> length (cenc (CTag t v)) \<le> CBOR_MAX_BYTES" using assms(3,4) by (rule fits_tag_leaf)
  ultimately show ?thesis
    using cbor_value[OF assms(1), of "CTag t v"] accepted_length[OF assms(1)] cbor_accepted(1,3)[OF assms(1)] assms(1,5)
    by (auto simp: tag_iff)
qed

lemma build_int_value:
  assumes "cbor_decode buf cbor_no_opts = Inr nd"
  shows "cbor_int (Big i) = Inr buf \<longleftrightarrow> val_of nd = CInt (if 0 \<le> i then 0 else 1) (nat (if 0 \<le> i then i else -1 - i))"
    (is "_ \<longleftrightarrow> _ = ?v")
proof -
  have "cval_ok ?v \<longleftrightarrow> - (2 ^ 64) \<le> i \<and> i < 2 ^ 64" by auto
  then show ?thesis
    using cbor_value[OF assms, of ?v] fits_int cbor_accepted(1,2)[OF assms] by (fastforce simp: cbor_int_iff)
qed

lemma build_bytes_value:
  assumes "cbor_decode buf cbor_no_opts = Inr nd" and "length b \<le> 2 ^ 52"
  shows "cbor_byteString (Buf b) = Inr buf \<longleftrightarrow> val_of nd = CStr 2 b"
  using assms(2) cbor_value[OF assms(1), of "CStr 2 b"] accepted_length[OF assms(1)] cbor_accepted(1)[OF assms(1)]
  by (auto simp: byteString_iff fits_str)

lemma build_text_value:
  assumes "cbor_decode buf cbor_no_opts = Inr nd" and "length (utf8_encode s) \<le> 2 ^ 52"
  shows "unit_string s \<and> cbor_textString (Str s) = Inr buf \<longleftrightarrow>
      val_of nd = CStr 3 (utf8_encode s) \<and> unit_string s \<and> code_points s \<noteq> None"
proof -
  have u: "utf8_decode (utf8_encode s) \<noteq> None" if "unit_string s" "code_points s \<noteq> None"
    using utf8_text[of "utf8_encode s" s] that by simp
  show ?thesis
    using assms(2) u cbor_value[OF assms(1), of "CStr 3 (utf8_encode s)"] accepted_length[OF assms(1)] cbor_accepted(1)[OF assms(1)]
    by (auto simp: textString_iff fits_str)
qed

lemma decoded_str_length:
  assumes "cbor_decode buf cbor_no_opts = Inr nd" and "val_of nd = CStr mt b"
  shows "length b \<le> 2 ^ 52"
  using cbor_accepted(1)[OF assms(1)] accepted_length[OF assms(1)] assms(2) by (auto simp: CBOR_MAX_BYTES_def)

section \<open>Maps\<close>

lemma buf_compare_irrefl [simp]: "\<not> buf_compare x x < 0"
proof -
  have e: "buf_compare x x = 0" by simp
  show ?thesis unfolding e by simp
qed

lemma keys_distinct: "ascending ks \<Longrightarrow> distinct ks"
  by (induction ks) (auto simp: ascending_def)

lemma key_match_value: "node_ok k \<Longrightarrow> key_matches want k \<Longrightarrow>
    val_of k = (case want of TextKey s \<Rightarrow> CStr 3 (utf8_encode s)
      | IntKey i \<Rightarrow> CInt (if 0 \<le> i then 0 else 1) (nat (if 0 \<le> i then i else -1 - i)))"
  by (cases want) (auto simp: key_matches_def readInt_val readText_val simp del: of_nat_0_le_iff)

lemma map_lookup_unique:
  assumes "\<And>k v. (k, v) \<in> set ps \<Longrightarrow> node_ok k" and "distinct (map (\<lambda>(k, v). cenc (val_of k)) ps)"
    and "(k, v) \<in> set ps" and "key_matches want k"
  shows "map_lookup want ps = Some v"
  using assms
proof (induction ps)
  case (Cons p ps)
  obtain k' v' where p: "p = (k', v')" by (cases p)
  show ?case
  proof (cases "key_matches want k'")
    case True
    then have "val_of k' = val_of k" using key_match_value[OF Cons.prems(1) True, of v'] key_match_value[OF Cons.prems(1,4)] Cons.prems(3) p by simp
    have "(k, v) \<notin> set ps"
    proof
      assume "(k, v) \<in> set ps"
      then have "cenc (val_of k) \<in> set (map (\<lambda>(k, v). cenc (val_of k)) ps)" by force
      then show False using Cons.prems(2) p \<open>val_of k' = val_of k\<close> by simp
    qed
    then have "(k, v) = p" using Cons.prems(3) by simp
    then show ?thesis using True p by simp
  next
    case False
    then have "(k, v) \<in> set ps" using Cons.prems(3,4) p by auto
    moreover have "node_ok k" if "(k, v) \<in> set ps" for k v using Cons.prems(1)[of k v] that by simp
    ultimately have "map_lookup want ps = Some v" using Cons.prems(2,4) by (intro Cons.IH) auto
    then show ?thesis using p False by simp
  qed
qed simp

lemma adjacent_distinct: "buf_order.ordered ks \<Longrightarrow> adjacent_equal ks \<longleftrightarrow> \<not> distinct ks"
proof (induction ks rule: adjacent_equal.induct)
  case (1 x y ys)
  have "x \<noteq> y \<Longrightarrow> x \<notin> set ys"
  proof
    assume ne: "x \<noteq> y" and "x \<in> set ys"
    then have "buf_compare x y \<le> 0" "buf_compare y x \<le> 0" using 1(2) by (auto simp: buf_order.ordered_def)
    then show False using ne buf_order.antisym by blast
  qed
  then show ?case using 1 by (auto simp: buf_order.ordered_def)
qed auto

lemma sorted_keys: "buf_order.ordered (map fst (sortedCopy (\<lambda>a b. buf_compare (fst a) (fst b)) xs))"
  using first_order.sorted_ordered[of xs] by (simp add: first_order.ordered_def buf_order.ordered_def sorted_wrt_map)

lemma sorted_pairs_canonical:
  fixes xs ys :: "(bytes \<times> 'a) list"
  assumes "mset xs = mset ys" and "distinct (map fst xs)"
  shows "sortedCopy (\<lambda>a b. buf_compare (fst a) (fst b)) xs = sortedCopy (\<lambda>a b. buf_compare (fst a) (fst b)) ys"
    (is "?s xs = ?s ys")
proof -
  have m: "mset (?s xs) = mset xs" "mset (?s ys) = mset xs" using first_order.sorted_mset assms(1) by metis+
  then have "map fst (?s xs) = map fst (?s ys)"
    by (intro buf_order.ordered_unique sorted_keys) (simp add: mset_map)
  moreover have "set (?s xs) = set xs" "set (?s ys) = set xs" using m by (metis set_mset_mset)+
  moreover have "inj_on fst (set xs)" using assms(2) by (simp add: distinct_map)
  ultimately show ?thesis by (intro map_inj_on[of fst]) auto
qed

definition pair_js :: "bytes \<times> bytes \<Rightarrow> js" where
  "pair_js p = Arr [Buf (fst p), Buf (snd p)]"

lemma cbor_map_pairs: "cbor_map (Arr (map pair_js xs)) =
    (if distinct (map fst xs) then bindR (cbor_head 5 (Num (int (length xs)))) (\<lambda>h.
       assertDecodes (h @ concat (map (\<lambda>(k, v). k @ v) (sortedCopy (\<lambda>a b. buf_compare (fst a) (fst b)) xs))))
     else Inl (CborE Cbor_duplicate_map_key))"
proof -
  have m: "mapR cb_pair (map pair_js xs) = Inr xs" by (induction xs) (auto simp: pair_js_def cb_pair_def cbItem_def)
  have "mset (map fst (sortedCopy (\<lambda>a b. buf_compare (fst a) (fst b)) xs)) = mset (map fst xs)"
    using first_order.sorted_mset[of xs] by (simp add: mset_map)
  then have d: "distinct (map fst (sortedCopy (\<lambda>a b. buf_compare (fst a) (fst b)) xs)) = distinct (map fst xs)"
    by (rule mset_eq_imp_distinct_iff)
  show ?thesis by (simp add: cbor_map_def m adjacent_distinct[OF sorted_keys] d)
qed

section \<open>Properties\<close>

text \<open>C18: with the default caps the decoder accepts exactly the deterministic encodings.  A buffer decodes
  to a node of value \<open>v\<close> when, and only when, it is the one encoding of \<open>v\<close>, with the shortest heads, \<open>v\<close> is
  well-formed and within the size, depth and item caps.  Well-formed is: valid text, map keys strictly ascending,
  and every float in the shortest IEEE 754 format that has a bit pattern of its value, NaN as the one half 0x7e00.\<close>

theorem cbor_accepts_exactly:
  "(\<exists>nd. cbor_decode buf cbor_no_opts = Inr nd \<and> val_of nd = v) = (buf = cenc v \<and> cval_ok v \<and> fits v)"
  using cbor_accepted[of buf] cbor_encoded[of v] by metis

text \<open>C19: the CBOR decoder is total: on every input and every option the recursion ends within the fuel
  the entry point gives it.\<close>

theorem cbor_terminates: "cbor_decode buf opts \<noteq> Inl OutOfFuel"
proof -
  have "decodeItem (cbor_fuel d) buf (length buf) (nat d) mx 0 0 0 \<noteq> Inl OutOfFuel" for d mx
    by (rule decodeItem_fuel) (auto simp: cbor_fuel_def)
  then show ?thesis
    unfolding cbor_decode_def cap_def depthCap_def profile_def
    by (intro total_intros) (auto split: js.splits if_splits prod.splits simp: res_simps)
qed

text \<open>Integers, byte strings and text strings: on a decoded buffer the reader gives a value exactly
  when the builder given that value writes the buffer.\<close>

theorem cbor_scalar_read_build:
  assumes "cbor_decode buf cbor_no_opts = Inr nd"
  shows "(cbor_readInt nd = Inr i \<longleftrightarrow> cbor_int (Big i) = Inr buf) \<and>
    (length b \<le> 2 ^ 52 \<longrightarrow> (readByteString nd = Inr b \<longleftrightarrow> cbor_byteString (Buf b) = Inr buf)) \<and>
    (length (utf8_encode s) \<le> 2 ^ 52 \<longrightarrow>
      (readTextString nd = Inr s \<longleftrightarrow> unit_string s \<and> cbor_textString (Str s) = Inr buf))"
  using readInt_val readByteString_val readText_val cbor_accepted(4)[OF assms] build_int_value[OF assms]
    build_bytes_value[OF assms] build_text_value[OF assms] by auto

definition cbor_sample :: bytes where "cbor_sample = [0x19, 0x01, 0xF4]"

definition cbor_sample_node :: cnode where
  "cbor_sample_node = CNode 0 25 500 None NoKids 0 3 3 cbor_sample"

lemma cbor_sample_decodes: "cbor_decode cbor_sample cbor_no_opts = Inr cbor_sample_node"
proof -
  have "CBOR_MAX_DEPTH + 2 = Suc 65" by (simp add: CBOR_MAX_DEPTH_def)
  show ?thesis unfolding cbor_decode_default \<open>CBOR_MAX_DEPTH + 2 = Suc 65\<close> decodeItem.simps(2)
  by (simp add: CBOR_MAX_BYTES_def CBOR_MAX_DEPTH_def CBOR_MAX_ITEMS_def cbor_sample_def cbor_sample_node_def
      item_head_def Let_def nat_shift5 byte_arith arg_bytes_def min_for_width_def slice_def be_val_def)
qed

theorem cbor_scalar_read_build_witness:
  "cbor_readInt cbor_sample_node = Inr 500 \<and> cbor_int (Big 500) = Inr cbor_sample"
proof -
  have "cbor_readInt cbor_sample_node = Inr 500" by (simp add: cbor_readInt_def cbor_sample_node_def)
  then show ?thesis using cbor_scalar_read_build[OF cbor_sample_decodes, of 500 "[]" "[]"] by simp
qed

text \<open>C20: the tagged leaves: on a decoded buffer the readers of big integers (tag 2), epoch times (tag 1) and
  object identifiers (tag 111) give a value exactly when the builder given that value writes the buffer.\<close>

theorem cbor_tagged_read_build:
  assumes "cbor_decode buf cbor_no_opts = Inr nd"
  shows "(readBiguint nd = Inr n \<longleftrightarrow> cbor_biguint (Big (int n)) = Inr buf) \<and>
    (cbor_readTime nd = Inr t \<longleftrightarrow> cbor_time (DateArg (Some t)) = Inr buf) \<and>
    (cbor_readOid nd = Inr d \<longleftrightarrow> cbor_oid (Str d) = Inr buf)"
proof (intro conjI)
  note ok = cbor_accepted(4)[OF assms]
  have bs: "cbor_byteString (Buf b) = Inr out \<longleftrightarrow> out = cenc (CStr 2 b) \<and> length out \<le> CBOR_MAX_BYTES"
    if "length b \<le> 2 ^ 52" for b out using that by (rule byteString_iff)
  have str: "(\<exists>x. cbor_byteString (Buf c) = Inr x \<and> cbor_tag (Num (int t)) (Buf x) = Inr buf) \<longleftrightarrow> val_of nd = CTag t (CStr 2 c)"
    if "length c \<le> 2 ^ 16" "t \<le> 2 ^ 52" for c t
    using tagged_leaf[OF assms, of "CStr 2 c" t] that chead_length[of 2 "length c"] bs[of c]
    by (auto simp: CBOR_MAX_BYTES_def)
  show "readBiguint nd = Inr n \<longleftrightarrow> cbor_biguint (Big (int n)) = Inr buf"
    using str[of "magnitude n" 2]
    by (auto simp: readBiguint_val[OF ok] cbor_biguint_def authoredInt_def authoredInteger_def Let_def res_simps CBOR_MAX_BIGUINT_BYTES_def)
  have time: "(\<exists>x. cbor_int (Big s) = Inr x \<and> cbor_tag (Num 1) (Buf x) = Inr buf) \<longleftrightarrow> val_of nd = CTag 1 (epoch_int s)"
    if "- MAX_EPOCH_SECONDS \<le> s" "s \<le> MAX_EPOCH_SECONDS" for s
    using tagged_leaf[OF assms, of "epoch_int s" 1] that
    by (auto simp: cbor_int_iff epoch_int_def MAX_EPOCH_SECONDS_def)
  have secs: "(\<exists>s. t = s * 1000 \<and> P s) \<longleftrightarrow> t mod 1000 = 0 \<and> P (t div 1000)" for P
    by (metis dvd_div_mult_self mod_0_imp_dvd mod_mult_self2_is_0 nonzero_mult_div_cancel_right zero_neq_numeral)
  show "cbor_readTime nd = Inr t \<longleftrightarrow> cbor_time (DateArg (Some t)) = Inr buf"
    unfolding readTime_val[OF ok] secs using time[of "t div 1000"]
    by (auto simp: cbor_time_def res_simps)
  show "cbor_readOid nd = Inr d \<longleftrightarrow> cbor_oid (Str d) = Inr buf"
    using str[OF oid_content_length, of _ d 111] oid_codec[of d]
    by (auto simp: readOid_val[OF ok] cbor_oid_def res_simps)
qed

definition cbor_time_node :: cnode where
  "cbor_time_node = CNode 6 1 1 None (Items [CNode 0 0 0 None NoKids 1 2 2 [0x00]]) 0 1 2 [0xC1, 0x00]"

lemma cbor_time_decodes: "cbor_decode [0xC1, 0x00] cbor_no_opts = Inr cbor_time_node"
proof -
  have "CBOR_MAX_DEPTH + 2 = Suc (Suc 64)" by (simp add: CBOR_MAX_DEPTH_def)
  show ?thesis unfolding cbor_decode_default \<open>CBOR_MAX_DEPTH + 2 = Suc (Suc 64)\<close> decodeItem.simps(2)
  by (simp add: CBOR_MAX_BYTES_def CBOR_MAX_DEPTH_def CBOR_MAX_ITEMS_def cbor_time_node_def
      item_head_def Let_def nat_shift5 byte_arith arg_bytes_def min_for_width_def slice_def be_val_def)
qed

theorem cbor_tagged_read_build_witness:
  "cbor_readTime cbor_time_node = Inr 0 \<and> cbor_time (DateArg (Some 0)) = Inr [0xC1, 0x00]"
proof -
  have "cbor_readTime cbor_time_node = Inr 0"
    by (simp add: cbor_readTime_def cbor_time_node_def tagInner_def expectMajor_def cn_items_def MAX_EPOCH_SECONDS_def
        time_seconds_def scale_def positive_def is_safe_integer_def max_safe_def Let_def time_clip_def)
  then show ?thesis using cbor_tagged_read_build[OF cbor_time_decodes, of 0 0 "[]"] by simp
qed

text \<open>Map lookup.  In a decoded map an entry whose key is the asked text or integer is the one
  \<open>readMapGet\<close> returns; without such an entry it returns \<open>null\<close>.\<close>

theorem cbor_map_get:
  assumes "cbor_decode buf cbor_no_opts = Inr nd" and "majorType nd = 5" and "map_key_of key = Inr want"
  shows "\<exists>ps. readMap nd = Inr ps \<and> distinct (map (\<lambda>(k, v). cn_bytes k) ps) \<and>
    (\<forall>k v. (k, v) \<in> set ps \<and> key_matches want k \<longrightarrow> readMapGet nd key = Inr (Some v)) \<and>
    ((\<forall>(k, v) \<in> set ps. \<not> key_matches want k) \<longrightarrow> readMapGet nd key = Inr None)"
proof -
  from node_members(4)[OF cbor_accepted(4)[OF assms(1)] assms(2)] obtain ps where
    ps: "cn_children nd = Pairs ps" "val_of nd = CMap (map (map_prod val_of val_of) ps)" "\<forall>(k, v) \<in> set ps. node_ok k \<and> node_ok v" by blast
  have get: "readMapGet nd key = Inr (map_lookup want ps)"
    using assms(2,3) ps by (simp add: readMapGet_def expectMajor_def cn_pairs_def)
  have "ascending (map (\<lambda>p. cenc (fst p)) (map (map_prod val_of val_of) ps))"
    using cbor_accepted(2)[OF assms(1)] ps(2) by (simp add: comp_def)
  then have d: "distinct (map (\<lambda>(k, v). cenc (val_of k)) ps)" using keys_distinct by (fastforce simp: comp_def case_prod_unfold)
  have bytes: "cn_bytes k = cenc (val_of k)" if "node_ok k" for k using that by (cases k) auto
  have e: "map (\<lambda>(k, v). cn_bytes k) ps = map (\<lambda>(k, v). cenc (val_of k)) ps" using ps(3) bytes by (auto simp: case_prod_unfold)
  have "distinct (map (\<lambda>(k, v). cn_bytes k) ps)" unfolding e by (rule d)
  moreover have "map_lookup want ps = None" if "\<forall>(k, v) \<in> set ps. \<not> key_matches want k"
    using that by (induction ps) auto
  moreover have "readMap nd = Inr ps" using assms(2) ps by (simp add: readMap_def expectMajor_def cn_pairs_def)
  moreover have "map_lookup want ps = Some v" if "(k, v) \<in> set ps" "key_matches want k" for k v
    using map_lookup_unique[OF _ d that] ps(3) by auto
  ultimately show ?thesis using get by auto
qed

definition cbor_map_sample :: bytes where "cbor_map_sample = [0xA1, 0x61, 0x61, 0x05]"

definition cbor_map_sample_node :: cnode where
  "cbor_map_sample_node = CNode 5 1 1 None (Pairs [(CNode 3 1 1 (Some [0x61]) NoKids 1 2 3 [0x61, 0x61],
     CNode 0 5 5 None NoKids 3 4 4 [0x05])]) 0 1 4 cbor_map_sample"

lemma cbor_map_sample_decodes: "cbor_decode cbor_map_sample cbor_no_opts = Inr cbor_map_sample_node"
proof -
  have "CBOR_MAX_DEPTH + 2 = Suc (Suc 64)" by (simp add: CBOR_MAX_DEPTH_def)
  show ?thesis unfolding cbor_decode_default \<open>CBOR_MAX_DEPTH + 2 = Suc (Suc 64)\<close> decodeItem.simps(2)
  by (simp add: CBOR_MAX_BYTES_def CBOR_MAX_DEPTH_def CBOR_MAX_ITEMS_def cbor_map_sample_def cbor_map_sample_node_def
      item_head_def Let_def nat_shift5 byte_arith arg_bytes_def min_for_width_def slice_def be_val_def utf8_decode_def check_key_def)
qed

theorem cbor_map_get_witness:
  "readMapGet cbor_map_sample_node (Str [0x61]) = Inr (Some (CNode 0 5 5 None NoKids 3 4 4 [0x05]))"
proof -
  have "majorType cbor_map_sample_node = 5" "map_key_of (Str [0x61]) = Inr (TextKey [0x61])"
    by (simp_all add: cbor_map_sample_node_def map_key_of_def)
  from cbor_map_get[OF cbor_map_sample_decodes this] show ?thesis
    by (simp add: cbor_map_sample_node_def readMap_def expectMajor_def cn_pairs_def key_matches_def readTextString_def
        cn_data_def utf8_decode_def units_of_def)
qed

text \<open>C21: a built map does not depend on the order its entries were handed over in, and a repeated key is
  refused whatever the order.\<close>

theorem cbor_map_canonical:
  assumes "mset xs = mset ys"
  shows "cbor_map (Arr (map pair_js xs)) = cbor_map (Arr (map pair_js ys)) \<and>
    (\<not> distinct (map fst xs) \<longrightarrow> cbor_map (Arr (map pair_js xs)) = Inl (CborE Cbor_duplicate_map_key))"
proof -
  have "distinct (map fst xs) = distinct (map fst ys)"
    using mset_eq_imp_distinct_iff[of "map fst xs" "map fst ys"] assms by (simp add: mset_map)
  moreover have "length xs = length ys" using assms by (rule mset_eq_length)
  ultimately show ?thesis using sorted_pairs_canonical[OF assms] by (auto simp: cbor_map_pairs)
qed

theorem cbor_map_canonical_witness:
  "cbor_map (Arr (map pair_js [([0x61, 0x62], [1]), ([1], [2])])) = cbor_map (Arr (map pair_js [([1], [2]), ([0x61, 0x62], [1])]))"
  using cbor_map_canonical[of "[([0x61, 0x62], [1]), ([1], [2])]" "[([1], [2]), ([0x61, 0x62], [1])]"] by simp

end
