(* ===== verification/Ip_Text.thy ===== *)
theory Ip_Text
  imports Oid_Codec
begin

text \<open>
  lib/ip-utils.js: IPv4 and IPv6 addresses as text.  Strings are lists of UTF-16 units; every
  function here is handed a string, the answer to anything else being \<open>false\<close> or \<open>null\<close>.
\<close>

section \<open>Characters and splitting\<close>

definition isDigitCode :: "nat \<Rightarrow> bool" where
  "isDigitCode c \<longleftrightarrow> 48 \<le> c \<and> c \<le> 57"

definition isHexCode :: "nat \<Rightarrow> bool" where
  "isHexCode c \<longleftrightarrow> (48 \<le> c \<and> c \<le> 57) \<or> (97 \<le> c \<and> c \<le> 102) \<or> (65 \<le> c \<and> c \<le> 70)"

text \<open>\<open>indexOf\<close> from the left, the separator skipped whole.\<close>

function split_scan :: "jsstr \<Rightarrow> jsstr \<Rightarrow> jsstr \<Rightarrow> jsstr list" where
  "split_scan sep acc [] = [rev acc]"
| "split_scan sep acc (c # cs) =
     (if sep \<noteq> [] \<and> take (length sep) (c # cs) = sep then rev acc # split_scan sep [] (drop (length sep) (c # cs))
      else split_scan sep (c # acc) cs)"
  by pat_completeness auto

termination by (relation "measure (\<lambda>(sep, acc, s). length s)") auto

definition splitOn :: "jsstr \<Rightarrow> jsstr \<Rightarrow> jsstr list" where
  "splitOn str sep = split_scan sep [] str"

text \<open>\<open>Number\<close> of a run of decimal or hexadecimal digits, \<open>toString(16)\<close>, \<open>padStart\<close>.\<close>

definition hex_value :: "nat \<Rightarrow> nat" where
  "hex_value c = (if c \<le> 57 then c - 48 else if c \<le> 70 then c - 55 else c - 87)"

definition parse_hex :: "jsstr \<Rightarrow> nat" where
  "parse_hex s = foldl (\<lambda>v c. v * 16 + hex_value c) 0 s"

definition hex_char :: "nat \<Rightarrow> nat" where
  "hex_char d = (if d < 10 then 48 + d else 87 + d)"

fun hex_of :: "nat \<Rightarrow> jsstr" where
  "hex_of n = (if n < 16 then [hex_char n] else hex_of (n div 16) @ [hex_char (n mod 16)])"

declare hex_of.simps [simp del]

definition lower_hex :: "jsstr \<Rightarrow> jsstr" where
  "lower_hex s = map (\<lambda>c. if 65 \<le> c \<and> c \<le> 90 then c + 32 else c) s"

definition pad4 :: "jsstr \<Rightarrow> jsstr" where
  "pad4 s = replicate (4 - length s) 48 @ s"

section \<open>IPv4\<close>

definition isOctet :: "jsstr \<Rightarrow> bool" where
  "isOctet p \<longleftrightarrow> 1 \<le> length p \<and> length p \<le> 3 \<and> list_all isDigitCode p \<and> \<not> (length p > 1 \<and> hd p = 48) \<and> parse_dec p \<le> 255"

definition isIPv4 :: "jsstr \<Rightarrow> bool" where
  "isIPv4 s = (let parts = splitOn s [46] in length parts = 4 \<and> list_all isOctet parts)"

definition endsInANumber :: "jsstr \<Rightarrow> bool" where
  "endsInANumber s =
     (let parts0 = splitOn s [46] in
      if last parts0 = [] \<and> length parts0 = 1 then False
      else let parts = (if last parts0 = [] then butlast parts0 else parts0); lst = last parts in
        if lst = [] then False
        else if list_all isDigitCode lst then True
        else length lst \<ge> 2 \<and> lst ! 0 = 48 \<and> (lst ! 1 OR 0x20) = 0x78 \<and> list_all isHexCode (drop 2 lst))"

section \<open>IPv6\<close>

definition isHexGroup :: "jsstr \<Rightarrow> bool" where
  "isHexGroup g \<longleftrightarrow> 1 \<le> length g \<and> length g \<le> 4 \<and> list_all isHexCode g"

definition isDottedQuadShape :: "jsstr \<Rightarrow> bool" where
  "isDottedQuadShape t = (let q = splitOn t [46] in
     length q = 4 \<and> list_all (\<lambda>p. 1 \<le> length p \<and> length p \<le> 3 \<and> list_all isDigitCode p) q)"

definition IPV6_TEXT_MAX_LEN :: nat where "IPV6_TEXT_MAX_LEN = 45"

definition after_last :: "nat \<Rightarrow> jsstr \<Rightarrow> jsstr" where
  "after_last c s = rev (takeWhile (\<lambda>x. x \<noteq> c) (rev s))"

definition before_last :: "nat \<Rightarrow> jsstr \<Rightarrow> jsstr" where
  "before_last c s = take (length s - length (after_last c s) - 1) s"

text \<open>An IPv4 tail is rewritten as the two groups it stands for.\<close>

definition embedded_quad :: "jsstr \<Rightarrow> jsstr option" where
  "embedded_quad ip =
     (let tail = after_last 58 ip in
      if 46 \<notin> set tail then Some ip
      else if \<not> isDottedQuadShape tail \<or> \<not> isIPv4 tail then None
      else let q = map parse_dec (splitOn tail [46]) in
        Some (before_last 58 ip @ [58] @ hex_of (push_bit 8 (q ! 0) OR q ! 1) @ [58] @ hex_of (push_bit 8 (q ! 2) OR q ! 3)))"

definition colon_parts :: "jsstr \<Rightarrow> jsstr list" where
  "colon_parts s = (if s = [] then [] else splitOn s [58])"

definition expand_groups :: "jsstr \<Rightarrow> jsstr list option" where
  "expand_groups ip =
     (let dbl = splitOn ip [58, 58] in
      if length dbl > 2 then None
      else let left = colon_parts (dbl ! 0); right = (if length dbl = 2 then colon_parts (dbl ! 1) else []) in
        if length dbl = 1 \<and> length left \<noteq> 8 then None
        else let fill = 8 - int (length left) - int (length right) in
          if (if length dbl = 2 then fill < 1 else fill \<noteq> 0) then None
          else let groups = left @ replicate (nat fill) [48] @ right in
            if length groups \<noteq> 8 then None
            else if list_all isHexGroup groups then Some groups else None)"

definition expandIpv6Hex :: "jsstr \<Rightarrow> jsstr option" where
  "expandIpv6Hex ip =
     (if length ip > IPV6_TEXT_MAX_LEN \<or> 58 \<notin> set ip then None
      else case embedded_quad ip of
        None \<Rightarrow> None
      | Some ip \<Rightarrow> map_option (\<lambda>gs. concat (map (\<lambda>g. pad4 (lower_hex g)) gs)) (expand_groups ip))"

definition isIpLiteral :: "jsstr \<Rightarrow> bool" where
  "isIpLiteral s \<longleftrightarrow> isIPv4 s \<or> expandIpv6Hex s \<noteq> None"

text \<open>\<open>Buffer.from(hex, "hex")\<close> of an even run of hexadecimal digits.\<close>

fun from_hex :: "jsstr \<Rightarrow> bytes" where
  "from_hex (a # b # cs) = word_of_nat (hex_value a * 16 + hex_value b) # from_hex cs"
| "from_hex _ = []"

definition packIpLiteral :: "jsstr \<Rightarrow> bytes option" where
  "packIpLiteral s =
     (if isIPv4 s then Some (map (\<lambda>p. word_of_nat (parse_dec p)) (splitOn s [46]))
      else map_option from_hex (expandIpv6Hex s))"

section \<open>The canonical text\<close>

text \<open>The longest run of zero groups, the first of equal ones: its start and its length.\<close>

fun zero_run :: "nat \<Rightarrow> nat list \<Rightarrow> nat option \<times> nat \<Rightarrow> nat option \<times> nat \<Rightarrow> nat option \<times> nat" where
  "zero_run i [] cur best = best"
| "zero_run i (n # ns) (curStart, curLen) (bestStart, bestLen) =
     (if n = 0 then
        let cs = (case curStart of None \<Rightarrow> i | Some s \<Rightarrow> s); cl = curLen + 1 in
        zero_run (i + 1) ns (Some cs, cl) (if cl > bestLen then (Some cs, cl) else (bestStart, bestLen))
      else zero_run (i + 1) ns (None, 0) (bestStart, bestLen))"

definition joinOn :: "jsstr list \<Rightarrow> nat \<Rightarrow> nat \<Rightarrow> nat \<Rightarrow> jsstr" where
  "joinOn list from to sep = join_char sep (slice list from to)"

definition ipv6Text :: "nat list \<Rightarrow> jsstr" where
  "ipv6Text nums =
     (let hex = map hex_of nums in
      case zero_run 0 nums (None, 0) (None, 0) of (bestStart, bestLen) \<Rightarrow>
        if bestLen < 2 then joinOn hex 0 8 58
        else let s = the bestStart in joinOn hex 0 s 58 @ [58, 58] @ joinOn hex (s + bestLen) 8 58)"

fun pairs_be :: "bytes \<Rightarrow> nat list" where
  "pairs_be (a # b # bs) = (push_bit 8 (unat a) OR unat b) # pairs_be bs"
| "pairs_be _ = []"

definition textFromOctets :: "bytes \<Rightarrow> jsstr option" where
  "textFromOctets buf =
     (if length buf = 4 then Some (join_char 46 (map (\<lambda>b. digits_of (unat b)) buf))
      else if length buf \<noteq> 16 then None
      else Some (ipv6Text (pairs_be buf)))"

fun hex_quads :: "jsstr \<Rightarrow> nat list" where
  "hex_quads (a # b # c # d # cs) = parse_hex [a, b, c, d] # hex_quads cs"
| "hex_quads _ = []"

definition canonicalizeIpv6 :: "jsstr \<Rightarrow> jsstr option" where
  "canonicalizeIpv6 value = map_option (\<lambda>hex. ipv6Text (hex_quads hex)) (expandIpv6Hex value)"

end
