(* ===== verification/Ip_Proofs.thy ===== *)
theory Ip_Proofs
  imports Ip_Text
begin

text \<open>
  lib/ip-utils.js: the text of an address reads back as its octets, and canonicalizing is idempotent.
\<close>

section \<open>Splitting\<close>

lemma split_scan_char: "split_scan [c] acc s = (case split_char c s of [] \<Rightarrow> [rev acc] | y # ys \<Rightarrow> (rev acc @ y) # ys)"
proof (induction s arbitrary: acc)
  case (Cons x xs)
  obtain y ys where s: "split_char c xs = y # ys" by (cases "split_char c xs") auto
  show ?case using Cons.IH s by auto
qed simp

lemma splitOn_char: "splitOn s [c] = split_char c s"
  by (cases "split_char c s") (simp_all add: splitOn_def split_scan_char)

text \<open>No two colons together, and none at the end.\<close>

fun clean :: "jsstr \<Rightarrow> bool" where
  "clean [] = True"
| "clean [c] = (c \<noteq> 58)"
| "clean (c # d # cs) = (\<not> (c = 58 \<and> d = 58) \<and> clean (d # cs))"

lemma split_clean: "clean x \<Longrightarrow> split_scan [58, 58] acc (x @ [58, 58] @ y) = (rev acc @ x) # split_scan [58, 58] [] y"
  by (induction x arbitrary: acc rule: clean.induct) auto

lemma split_clean_end: "clean x \<Longrightarrow> split_scan [58, 58] acc x = [rev acc @ x]"
  by (induction x arbitrary: acc rule: clean.induct) auto

lemma clean_word: "58 \<notin> set g \<Longrightarrow> clean g"
  by (induction g rule: clean.induct) auto

lemma clean_cons: "58 \<notin> set g \<Longrightarrow> g \<noteq> [] \<Longrightarrow> clean s \<Longrightarrow> s \<noteq> [] \<Longrightarrow> hd s \<noteq> 58 \<Longrightarrow> clean (g @ 58 # s)"
proof (induction g rule: clean.induct)
  case (2 c)
  then show ?case by (cases s) auto
qed auto

lemma join_hd: "g \<noteq> [] \<Longrightarrow> join_char c (g # gs) \<noteq> [] \<and> hd (join_char c (g # gs)) = hd g"
  by (cases gs) auto

lemma clean_join: "(\<forall>g \<in> set gs. g \<noteq> [] \<and> 58 \<notin> set g) \<Longrightarrow> clean (join_char 58 gs)"
proof (induction gs)
  case (Cons g gs)
  show ?case
  proof (cases gs)
    case Nil
    then show ?thesis using Cons.prems clean_word by simp
  next
    case (Cons h hs)
    have "clean (join_char 58 (h # hs))" using Cons.IH Cons.prems Cons by simp
    moreover have "hd h \<noteq> 58" using Cons.prems Cons by (cases h) auto
    ultimately have "clean (g @ 58 # join_char 58 (h # hs))"
      using Cons.prems Cons join_hd[of h 58 hs] by (intro clean_cons) auto
    then show ?thesis using Cons by simp
  qed
qed simp

lemma colon_parts_join: "(\<forall>g \<in> set gs. g \<noteq> [] \<and> 58 \<notin> set g) \<Longrightarrow> colon_parts (join_char 58 gs) = gs"
proof (cases gs)
  case (Cons g hs)
  assume "\<forall>g \<in> set gs. g \<noteq> [] \<and> 58 \<notin> set g"
  then show ?thesis using Cons join_hd[of g 58 hs] split_join[of gs 58] by (auto simp: colon_parts_def splitOn_char)
qed (simp add: colon_parts_def)

section \<open>Hexadecimal groups\<close>

lemma hex_char_props: "d < 16 \<Longrightarrow> isHexCode (hex_char d) \<and> hex_char d \<noteq> 58 \<and> hex_char d \<noteq> 46 \<and> hex_value (hex_char d) = d \<and>
    (if 65 \<le> hex_char d \<and> hex_char d \<le> 90 then hex_char d + 32 else hex_char d) = hex_char d"
  by (auto simp: hex_char_def isHexCode_def hex_value_def)

lemma hex_of_cases:
  assumes "n < 65536"
  shows "hex_of n = (if n < 16 then [hex_char n] else if n < 256 then [hex_char (n div 16), hex_char (n mod 16)]
     else if n < 4096 then [hex_char (n div 256), hex_char (n div 16 mod 16), hex_char (n mod 16)]
     else [hex_char (n div 4096), hex_char (n div 256 mod 16), hex_char (n div 16 mod 16), hex_char (n mod 16)])"
proof -
  have d: "n div 16 div 16 = n div 256" "n div 256 div 16 = n div 4096" by (simp_all flip: div_mult2_eq)
  have u1: "hex_of n = (if n < 16 then [hex_char n] else hex_of (n div 16) @ [hex_char (n mod 16)])"
    and u2: "hex_of (n div 16) = (if n < 256 then [hex_char (n div 16)] else hex_of (n div 256) @ [hex_char (n div 16 mod 16)])"
    and u3: "hex_of (n div 256) = (if n < 4096 then [hex_char (n div 256)] else hex_of (n div 4096) @ [hex_char (n div 256 mod 16)])"
    and u4: "hex_of (n div 4096) = [hex_char (n div 4096)]"
    using hex_of.simps[of n] hex_of.simps[of "n div 16"] hex_of.simps[of "n div 256"] hex_of.simps[of "n div 4096"] assms
    unfolding d by (simp_all add: div_less_iff_less_mult)
  show ?thesis unfolding u1 u2 u3 u4 by simp
qed

lemma hex_of_chars: "c \<in> set (hex_of n) \<Longrightarrow> \<exists>d < 16. c = hex_char d"
proof (induction n rule: hex_of.induct)
  case (1 n)
  have "n mod 16 < 16" by simp
  then have "\<exists>d < 16. hex_char (n mod 16) = hex_char d" by blast
  then show ?case using 1 hex_of.simps[of n] by (cases "n < 16") auto
qed

lemma hex_of_ne [simp]: "hex_of n \<noteq> []"
  by (subst hex_of.simps) simp

lemma hex_of_group:
  assumes "n < 65536"
  shows "isHexGroup (hex_of n)" "58 \<notin> set (hex_of n)" "46 \<notin> set (hex_of n)" "length (hex_of n) \<le> 4"
proof -
  show l: "length (hex_of n) \<le> 4" unfolding hex_of_cases[OF assms] by simp
  have h: "\<forall>c \<in> set (hex_of n). isHexCode c \<and> c \<noteq> 58 \<and> c \<noteq> 46"
  proof
    fix c assume "c \<in> set (hex_of n)"
    then obtain d where "d < 16" "c = hex_char d" using hex_of_chars by blast
    then show "isHexCode c \<and> c \<noteq> 58 \<and> c \<noteq> 46" using hex_char_props[of d] by simp
  qed
  then show "58 \<notin> set (hex_of n)" "46 \<notin> set (hex_of n)" by auto
  show "isHexGroup (hex_of n)" using h l hex_of_ne[of n] by (cases "hex_of n") (auto simp: isHexGroup_def list_all_iff)
qed

lemma hex_zero: "hex_of 0 = [48]"
  by (simp add: hex_of.simps[of 0] hex_char_def)

text \<open>The four digits of a group, and the two octets they stand for.\<close>

lemma pad4_hex:
  assumes "n < 65536"
  shows "pad4 (lower_hex (hex_of n)) =
    [hex_char (n div 4096), hex_char (n div 256 mod 16), hex_char (n div 16 mod 16), hex_char (n mod 16)]"
proof -
  have low: "lower_hex (hex_of n) = hex_of n"
    unfolding lower_hex_def
  proof (rule map_idI)
    fix c assume "c \<in> set (hex_of n)"
    then obtain d where "d < 16" "c = hex_char d" using hex_of_chars by blast
    then show "(if 65 \<le> c \<and> c \<le> 90 then c + 32 else c) = c" using hex_char_props[of d] by blast
  qed
  have t: "n div 4096 < 16" using assms by (simp add: less_mult_imp_div_less)
  have z: "hex_char 0 = 48" by (simp add: hex_char_def)
  have r: "replicate 3 x = [x, x, x]" "replicate 2 x = [x, x]" for x :: nat by (simp_all add: numeral_eq_Suc)
  consider "n < 16" | "16 \<le> n" "n < 256" | "256 \<le> n" "n < 4096" | "4096 \<le> n" by linarith
  then have "pad4 (hex_of n) = [hex_char (n div 4096), hex_char (n div 256 mod 16), hex_char (n div 16 mod 16), hex_char (n mod 16)]"
    unfolding hex_of_cases[OF assms] pad4_def by cases (simp_all add: r z)
  then show ?thesis unfolding low .
qed

lemma from_hex_quad:
  assumes "n < 65536"
  shows "from_hex (pad4 (lower_hex (hex_of n)) @ cs) = word_of_nat (n div 256) # word_of_nat (n mod 256) # from_hex cs"
proof -
  have v: "hex_value (hex_char d) = d" if "d < 16" for d using hex_char_props[OF that] by simp
  have "n div 4096 < 16" using assms by (simp add: less_mult_imp_div_less)
  moreover have "n div 4096 * 16 + n div 256 mod 16 = n div 256"
    using div_mult_mod_eq[of "n div 256" 16] by (simp flip: div_mult2_eq)
  moreover have "n div 16 mod 16 * 16 + n mod 16 = n mod 256"
    using mod_mult2_eq[of n 16 16] by simp
  ultimately show ?thesis by (simp add: pad4_hex[OF assms] v)
qed

lemma from_hex_groups:
  "(\<forall>n \<in> set ns. n < 65536) \<Longrightarrow> from_hex (concat (map (\<lambda>g. pad4 (lower_hex g)) (map hex_of ns))) =
     concat (map (\<lambda>n. [word_of_nat (n div 256), word_of_nat (n mod 256)]) ns)"
  by (induction ns) (auto simp: from_hex_quad)

lemma pairs_be_bound: "n \<in> set (pairs_be b) \<Longrightarrow> n < 65536"
proof (induction b rule: pairs_be.induct)
  case (1 a b bs)
  have "push_bit 8 (unat a) OR unat b = unat a * 256 + unat b"
    using nat_or_low[of "unat b" 8 "unat a"] by (simp add: push_bit_eq_mult)
  moreover have "unat a * 256 + unat b < 65536" using unat_byte_lt[of a] unat_byte_lt[of b] by linarith
  ultimately show ?case using 1 by auto
qed auto

section \<open>The longest run of zero groups\<close>

text \<open>A run \<open>(start, length)\<close> of zeros in a list.\<close>

definition run_in :: "nat list \<Rightarrow> nat option \<times> nat \<Rightarrow> bool" where
  "run_in ns r \<longleftrightarrow> (0 < snd r \<longrightarrow> (\<exists>s. fst r = Some s \<and> s + snd r \<le> length ns \<and> slice ns s (s + snd r) = replicate (snd r) 0))"

lemma run_in_mono: "run_in xs r \<Longrightarrow> run_in (xs @ ys) r"
  by (auto simp: run_in_def slice_def)

lemma zero_run_in:
  "run_in (xs @ ns) (zero_run (length xs) ns (cs, cl) best)"
  if "run_in xs (cs, cl)" "0 < cl \<Longrightarrow> \<exists>s. cs = Some s \<and> s + cl = length xs" "cl = 0 \<Longrightarrow> cs = None" "run_in xs best"
  using that
proof (induction ns arbitrary: xs cs cl best)
  case (Cons n ns)
  obtain bs bl where b: "best = (bs, bl)" by (cases best)
  show ?case
  proof (cases "n = 0")
    case True
    let ?s = "case cs of None \<Rightarrow> length xs | Some s \<Rightarrow> s"
    have s: "?s + (cl + 1) = length (xs @ [n])" using Cons.prems(2,3) by (cases "cl = 0") auto
    have sl: "slice (xs @ [n]) ?s (length (xs @ [n])) = replicate (cl + 1) 0"
    proof (cases "cl = 0")
      case True
      then show ?thesis using Cons.prems(3) \<open>n = 0\<close> by (simp add: slice_def)
    next
      case False
      then obtain s0 where s0: "cs = Some s0" "s0 + cl = length xs" using Cons.prems(2) by auto
      then have "slice xs s0 (length xs) = replicate cl 0" using Cons.prems(1) False by (auto simp: run_in_def)
      then show ?thesis using s0 \<open>n = 0\<close> by (auto simp: slice_def replicate_append_same)
    qed
    have r: "run_in (xs @ [n]) (Some ?s, cl + 1)" using s sl unfolding run_in_def by (metis fst_conv snd_conv order.refl)
    have "run_in ((xs @ [n]) @ ns) (zero_run (length (xs @ [n])) ns (Some ?s, cl + 1)
        (if cl + 1 > bl then (Some ?s, cl + 1) else (bs, bl)))"
      using r s run_in_mono[OF Cons.prems(4), of "[n]"] b by (intro Cons.IH) auto
    then show ?thesis using True b by (cases "bl < Suc cl") (simp_all add: Let_def)
  next
    case False
    have "run_in ((xs @ [n]) @ ns) (zero_run (length (xs @ [n])) ns (None, 0) (bs, bl))"
      using run_in_mono[OF Cons.prems(4), of "[n]"] b by (intro Cons.IH) (simp_all add: run_in_def)
    then show ?thesis using False b by simp
  qed
qed simp

section \<open>IPv6 text\<close>

lemma split_run: "run_in ns (Some s, L) \<Longrightarrow> 0 < L \<Longrightarrow> ns = slice ns 0 s @ replicate L 0 @ slice ns (s + L) (length ns)"
proof -
  assume "run_in ns (Some s, L)" "0 < L"
  then have h: "s + L \<le> length ns" "slice ns s (s + L) = replicate L 0" by (auto simp: run_in_def)
  have "slice ns 0 s @ slice ns s (s + L) = slice ns 0 (s + L)" by (rule slice_append) auto
  moreover have "slice ns 0 (s + L) @ slice ns (s + L) (length ns) = slice ns 0 (length ns)" using h(1) by (intro slice_append) auto
  ultimately show ?thesis unfolding h(2) by (metis append.assoc slice_full)
qed

lemma slice_map: "slice (map f xs) i j = map f (slice xs i j)"
  by (simp add: slice_def take_map drop_map)

lemma expand_ipv6Text:
  assumes n: "length ns = 8" and b: "\<forall>n \<in> set ns. n < 65536"
  shows "expand_groups (ipv6Text ns) = Some (map hex_of ns)"
proof -
  have ok: "\<forall>g \<in> set (map hex_of xs). g \<noteq> [] \<and> 58 \<notin> set g" if "set xs \<subseteq> set ns" for xs
    using that b hex_of_group by auto
  have grp: "list_all isHexGroup (map hex_of ns)" using b hex_of_group by (auto simp: list_all_iff)
  obtain best where z: "zero_run 0 ns (None, 0) (None, 0) = best" by blast
  obtain bs bl where best: "best = (bs, bl)" by (cases best)
  have run: "run_in ns (bs, bl)" using zero_run_in[of "[]" None 0 "(None, 0)" ns] z best by (simp add: run_in_def)
  show ?thesis
  proof (cases "bl < 2")
    case True
    have t: "ipv6Text ns = join_char 58 (map hex_of ns)"
      using True z best n by (simp add: ipv6Text_def joinOn_def slice_map) (metis slice_full)
    show ?thesis unfolding t
      using split_clean_end[OF clean_join[OF ok[OF order.refl]], of "[]"] colon_parts_join[OF ok[OF order.refl]] n grp
      by (simp add: expand_groups_def splitOn_def Let_def)
  next
    case False
    then obtain s where s: "bs = Some s" "s + bl \<le> 8" using run n by (auto simp: run_in_def)
    let ?A = "slice ns 0 s" and ?B = "slice ns (s + bl) 8"
    have dec: "ns = ?A @ replicate bl 0 @ ?B" using split_run[of ns s bl] run s False n by simp
    have sub: "set ?A \<subseteq> set ns" "set ?B \<subseteq> set ns" by (auto simp: slice_def dest: in_set_takeD in_set_dropD)
    have t: "ipv6Text ns = join_char 58 (map hex_of ?A) @ [58, 58] @ join_char 58 (map hex_of ?B)"
      using False z best s by (simp add: ipv6Text_def joinOn_def slice_map Let_def)
    have sp: "splitOn (ipv6Text ns) [58, 58] = [join_char 58 (map hex_of ?A), join_char 58 (map hex_of ?B)]"
      unfolding t splitOn_def using split_clean[OF clean_join[OF ok[OF sub(1)]], of "[]"]
        split_clean_end[OF clean_join[OF ok[OF sub(2)]], of "[]"] by simp
    have len: "length ?A = s" "length ?B = 8 - s - bl" using n s by auto
    have "map hex_of ?A @ replicate bl [48] @ map hex_of ?B = map hex_of (?A @ replicate bl 0 @ ?B)"
      by (simp add: hex_zero)
    then have e: "map hex_of ?A @ replicate bl [48] @ map hex_of ?B = map hex_of ns" using dec by simp
    have f: "8 - int s - int (8 - s - bl) = int bl" using s by simp
    show ?thesis
      using colon_parts_join[OF ok[OF sub(1)]] colon_parts_join[OF ok[OF sub(2)]] len f e False grp n
      by (simp add: expand_groups_def sp Let_def)
  qed
qed

lemma join_length: "(\<forall>g \<in> set gs. length g \<le> 4) \<Longrightarrow> length (join_char c gs) \<le> 5 * length gs"
  by (induction c gs rule: join_char.induct) auto

lemma join_set: "set (join_char c gs) \<subseteq> insert c (\<Union> (set ` set gs))"
  by (induction c gs rule: join_char.induct) auto

lemma join_has: "2 \<le> length gs \<Longrightarrow> c \<in> set (join_char c gs)"
  by (cases gs; cases "tl gs") auto

text \<open>The text fits, has a colon and no dot.\<close>

lemma ipv6Text_shape:
  assumes n: "length ns = 8" and b: "\<forall>n \<in> set ns. n < 65536"
  shows "length (ipv6Text ns) \<le> IPV6_TEXT_MAX_LEN" "58 \<in> set (ipv6Text ns)" "46 \<notin> set (ipv6Text ns)"
proof -
  obtain bs bl where z: "zero_run 0 ns (None, 0) (None, 0) = (bs, bl)" by fastforce
  have run: "run_in ns (bs, bl)" using zero_run_in[of "[]" None 0 "(None, 0)" ns] z by (simp add: run_in_def)
  have l: "\<forall>g \<in> set (map hex_of xs). length g \<le> 4" and d: "46 \<notin> \<Union> (set ` set (map hex_of xs))" if "set xs \<subseteq> set ns" for xs
    using that b by (auto simp: hex_of_group subset_iff)
  have sub: "set (slice ns i j) \<subseteq> set ns" for i j by (auto simp: slice_def dest: in_set_takeD in_set_dropD)
  have jl: "length (joinOn (map hex_of ns) i j 58) \<le> 5 * length (slice ns i j)" for i j
    using join_length[OF l[OF sub[of i j]], of 58] by (simp add: joinOn_def slice_map)
  have jd: "46 \<notin> set (joinOn (map hex_of ns) i j 58)" for i j
    using join_set[of 58 "map hex_of (slice ns i j)"] d[OF sub[of i j]] by (auto simp: joinOn_def slice_map)
  have jc: "58 \<in> set (joinOn (map hex_of ns) 0 8 58)" using join_has[of "map hex_of ns" 58] n by (simp add: joinOn_def slice_map) (metis slice_full)
  have "bl < 2 \<or> (\<exists>s. bs = Some s \<and> s + bl \<le> 8)" using run n by (auto simp: run_in_def)
  then show "length (ipv6Text ns) \<le> IPV6_TEXT_MAX_LEN" "58 \<in> set (ipv6Text ns)" "46 \<notin> set (ipv6Text ns)"
    using jl[of 0 8] jl[of 0 "the bs"] jl[of "the bs + bl" 8] jd jc n z
    by (auto simp: ipv6Text_def Let_def IPV6_TEXT_MAX_LEN_def)
qed

lemma expand_hex_text:
  assumes "length ns = 8" and "\<forall>n \<in> set ns. n < 65536"
  shows "expandIpv6Hex (ipv6Text ns) = Some (concat (map (\<lambda>g. pad4 (lower_hex g)) (map hex_of ns)))"
proof -
  have "set (after_last 58 (ipv6Text ns)) \<subseteq> set (ipv6Text ns)" by (auto simp: after_last_def dest: set_takeWhileD)
  then have "46 \<notin> set (after_last 58 (ipv6Text ns))" using ipv6Text_shape(3)[OF assms] by blast
  then have "embedded_quad (ipv6Text ns) = Some (ipv6Text ns)" by (simp add: embedded_quad_def Let_def)
  then show ?thesis
    using ipv6Text_shape[OF assms] expand_ipv6Text[OF assms] by (simp add: expandIpv6Hex_def comp_def)
qed

lemma v6_not_v4: "46 \<notin> set s \<Longrightarrow> \<not> isIPv4 s"
  using split_char_nosep[of 46 s "[]"] by (simp add: isIPv4_def splitOn_char Let_def)

lemma pairs_be_length: "length (pairs_be b) = length b div 2"
  by (induction b rule: pairs_be.induct) auto

lemma pairs_be_octets: "even (length b) \<Longrightarrow> concat (map (\<lambda>n. [word_of_nat (n div 256), word_of_nat (n mod 256)]) (pairs_be b)) = b"
proof (induction b rule: pairs_be.induct)
  case (1 a b bs)
  have v: "push_bit 8 (unat a) OR unat b = unat a * 256 + unat b"
    using nat_or_low[of "unat b" 8 "unat a"] by (simp add: push_bit_eq_mult)
  have "(unat a * 256 + unat b) div 256 = unat a" "(unat a * 256 + unat b) mod 256 = unat b" by simp_all
  then show ?case using 1 v word_of_nat_unat_byte by simp
qed auto

lemma octet_text: "isOctet (digits_of (unat (b::byte)))"
proof -
  have "unat b < 10 ^ 3" using unat_byte_lt[of b] by (simp del: unat_byte_lt)
  then have "length (digits_of (unat b)) \<le> 3" by (rule digits_of_length) simp
  moreover have "hd (digits_of (unat b)) = 48 \<Longrightarrow> length (digits_of (unat b)) = 1" using digits_of_hd[of "unat b"] by (simp add: digits_of.simps)
  moreover have "list_all isDigitCode (digits_of (unat b))" using digits_of_chars by (auto simp: list_all_iff isDigitCode_def)
  moreover have "parse_dec (digits_of (unat b)) \<le> 255" using unat_byte_le[of b] by (simp del: unat_byte_le)
  ultimately show ?thesis using digits_of_ne[of "unat b"]
    by (cases "digits_of (unat b)") (auto simp: isOctet_def)
qed

section \<open>Properties\<close>

text \<open>C23: the text of an address is read back as its octets: for the four octets of an IPv4 address and
  the sixteen of an IPv6 one (in the RFC 5952 form, the longest zero run shortened to \<open>::\<close>),
  \<open>packIpLiteral\<close> undoes \<open>textFromOctets\<close>; no other length has a text.\<close>

theorem ip_text_round_trip:
  "(case textFromOctets buf of
      Some t \<Rightarrow> packIpLiteral t = Some buf \<and> isIpLiteral t
    | None \<Rightarrow> length buf \<noteq> 4 \<and> length buf \<noteq> 16)"
proof -
  consider "length buf = 4" | "length buf = 16" | "length buf \<noteq> 4" "length buf \<noteq> 16" by blast
  then show ?thesis
  proof cases
    case 1
    let ?gs = "map (\<lambda>b. digits_of (unat b)) buf"
    have "?gs \<noteq> []" using 1 by auto
    then have "splitOn (join_char 46 ?gs) [46] = ?gs" unfolding splitOn_char
      using digits_no_dot by (intro split_join) auto
    then show ?thesis using 1 octet_text
      by (auto simp: textFromOctets_def packIpLiteral_def isIpLiteral_def isIPv4_def Let_def list_all_iff comp_def word_of_nat_unat_byte)
  next
    case 2
    have ns: "length (pairs_be buf) = 8" "\<forall>n \<in> set (pairs_be buf). n < 65536" using 2 pairs_be_length pairs_be_bound by auto
    have "from_hex (concat (map (\<lambda>g. pad4 (lower_hex g)) (map hex_of (pairs_be buf)))) = buf"
      unfolding from_hex_groups[OF ns(2)] using pairs_be_octets[of buf] 2 by simp
    then show ?thesis using 2 expand_hex_text[OF ns] v6_not_v4[OF ipv6Text_shape(3)[OF ns]]
      by (simp add: textFromOctets_def packIpLiteral_def isIpLiteral_def)
  next
    case 3
    then show ?thesis by (simp add: textFromOctets_def)
  qed
qed

end
