(* ===== verification/Rc2.thy ===== *)
theory Rc2
  imports Values
begin

text \<open>
  lib/rc2.js: the RC2 block cipher (RFC 2268) and its CBC mode, kept by the code for reading old
  containers.  The values the code masks with \<open>0xffff\<close> are \<open>16 word\<close>s, whose arithmetic wraps as the
  mask does; the sums stay far below the 32 bits at which the operators of the language would wrap.  An
  index outside an array reads \<open>undefined\<close>, which every operator applied to it here takes as 0.
\<close>

section \<open>The key schedule\<close>

definition PITABLE :: "nat list" where
  "PITABLE = [
    0xd9, 0x78, 0xf9, 0xc4, 0x19, 0xdd, 0xb5, 0xed, 0x28, 0xe9, 0xfd, 0x79, 0x4a, 0xa0, 0xd8, 0x9d,
    0xc6, 0x7e, 0x37, 0x83, 0x2b, 0x76, 0x53, 0x8e, 0x62, 0x4c, 0x64, 0x88, 0x44, 0x8b, 0xfb, 0xa2,
    0x17, 0x9a, 0x59, 0xf5, 0x87, 0xb3, 0x4f, 0x13, 0x61, 0x45, 0x6d, 0x8d, 0x09, 0x81, 0x7d, 0x32,
    0xbd, 0x8f, 0x40, 0xeb, 0x86, 0xb7, 0x7b, 0x0b, 0xf0, 0x95, 0x21, 0x22, 0x5c, 0x6b, 0x4e, 0x82,
    0x54, 0xd6, 0x65, 0x93, 0xce, 0x60, 0xb2, 0x1c, 0x73, 0x56, 0xc0, 0x14, 0xa7, 0x8c, 0xf1, 0xdc,
    0x12, 0x75, 0xca, 0x1f, 0x3b, 0xbe, 0xe4, 0xd1, 0x42, 0x3d, 0xd4, 0x30, 0xa3, 0x3c, 0xb6, 0x26,
    0x6f, 0xbf, 0x0e, 0xda, 0x46, 0x69, 0x07, 0x57, 0x27, 0xf2, 0x1d, 0x9b, 0xbc, 0x94, 0x43, 0x03,
    0xf8, 0x11, 0xc7, 0xf6, 0x90, 0xef, 0x3e, 0xe7, 0x06, 0xc3, 0xd5, 0x2f, 0xc8, 0x66, 0x1e, 0xd7,
    0x08, 0xe8, 0xea, 0xde, 0x80, 0x52, 0xee, 0xf7, 0x84, 0xaa, 0x72, 0xac, 0x35, 0x4d, 0x6a, 0x2a,
    0x96, 0x1a, 0xd2, 0x71, 0x5a, 0x15, 0x49, 0x74, 0x4b, 0x9f, 0xd0, 0x5e, 0x04, 0x18, 0xa4, 0xec,
    0xc2, 0xe0, 0x41, 0x6e, 0x0f, 0x51, 0xcb, 0xcc, 0x24, 0x91, 0xaf, 0x50, 0xa1, 0xf4, 0x70, 0x39,
    0x99, 0x7c, 0x3a, 0x85, 0x23, 0xb8, 0xb4, 0x7a, 0xfc, 0x02, 0x36, 0x5b, 0x25, 0x55, 0x97, 0x31,
    0x2d, 0x5d, 0xfa, 0x98, 0xe3, 0x8a, 0x92, 0xae, 0x05, 0xdf, 0x29, 0x10, 0x67, 0x6c, 0xba, 0xc9,
    0xd3, 0x00, 0xe6, 0xcf, 0xe1, 0x9e, 0xa8, 0x2c, 0x63, 0x16, 0x01, 0x3f, 0x58, 0xe2, 0x89, 0xa9,
    0x0d, 0x38, 0x34, 0x1b, 0xab, 0x33, 0xff, 0xb0, 0xbb, 0x48, 0x0c, 0x5f, 0xb9, 0xb1, 0xcd, 0x2e,
    0xc5, 0xf3, 0xdb, 0x47, 0xe5, 0xa5, 0x9c, 0x77, 0x0a, 0xa6, 0x20, 0x68, 0xfe, 0x7f, 0xc1, 0xad]"

definition u8_at :: "nat list \<Rightarrow> int \<Rightarrow> nat" where
  "u8_at xs i = (if 0 \<le> i \<and> nat i < length xs then xs ! nat i else 0)"

text \<open>A store into a typed array; one outside it is dropped.\<close>

definition u8_set :: "nat list \<Rightarrow> int \<Rightarrow> nat \<Rightarrow> nat list" where
  "u8_set xs i v = (if 0 \<le> i then xs[nat i := v mod 256] else xs)"

definition fill_up :: "int \<Rightarrow> nat list \<Rightarrow> nat list" where
  "fill_up T L = fold (\<lambda>i L. u8_set L i (PITABLE ! ((u8_at L (i - 1) + u8_at L (i - T)) mod 256))) [T..127] L"

definition fill_down :: "int \<Rightarrow> nat list \<Rightarrow> nat list" where
  "fill_down T8 L =
     fold (\<lambda>i L. u8_set L i (PITABLE ! (u8_at L (i + 1) XOR u8_at L (i + T8)))) (rev [0..127 - T8]) L"

definition expandKey :: "bytes \<Rightarrow> nat \<Rightarrow> 16 word list" where
  "expandKey key effectiveBits =
     (let T = length key;
          L = map unat (take 128 key) @ replicate (128 - T) 0;
          L = fill_up (int T) L;
          T8 = int ((effectiveBits + 7) div 8);
          TM = 0xff div 2 ^ ((8 - effectiveBits mod 8) mod 8);
          L = u8_set L (128 - T8) (PITABLE ! (u8_at L (128 - T8) AND TM));
          L = fill_down T8 L
      in map (\<lambda>i. word_of_nat (L ! (2 * i) + L ! (2 * i + 1) * 256)) [0..<64])"

section \<open>One block\<close>

definition rotl16 :: "16 word \<Rightarrow> nat \<Rightarrow> 16 word" where
  "rotl16 x n = push_bit n x OR drop_bit (16 - n) x"

definition rotr16 :: "16 word \<Rightarrow> nat \<Rightarrow> 16 word" where
  "rotr16 x n = drop_bit n x OR push_bit (16 - n) x"

definition SHIFT :: "nat list" where
  "SHIFT = [1, 2, 3, 5]"

type_synonym regs = "16 word list"

text \<open>What both directions of a mixing and a mashing step add to or take from register \<open>k\<close>.\<close>

definition mix_term :: "16 word list \<Rightarrow> nat \<Rightarrow> nat \<Rightarrow> regs \<Rightarrow> 16 word" where
  "mix_term K j k R = K ! j + (R ! ((k + 3) mod 4) AND R ! ((k + 2) mod 4)) +
     (NOT (R ! ((k + 3) mod 4)) AND R ! ((k + 1) mod 4))"

definition mash_term :: "16 word list \<Rightarrow> nat \<Rightarrow> regs \<Rightarrow> 16 word" where
  "mash_term K k R = K ! (unat (R ! ((k + 3) mod 4)) mod 64)"

definition mix_one :: "16 word list \<Rightarrow> nat \<Rightarrow> regs \<times> nat \<Rightarrow> regs \<times> nat" where
  "mix_one K k s = (case s of (R, j) \<Rightarrow> (R[k := rotl16 (R ! k + mix_term K j k R) (SHIFT ! k)], j + 1))"

definition mix :: "16 word list \<Rightarrow> regs \<times> nat \<Rightarrow> regs \<times> nat" where
  "mix K = fold (mix_one K) [0..<4]"

definition mash_one :: "16 word list \<Rightarrow> nat \<Rightarrow> regs \<times> nat \<Rightarrow> regs \<times> nat" where
  "mash_one K k s = (case s of (R, j) \<Rightarrow> (R[k := R ! k + mash_term K k R], j))"

definition mash :: "16 word list \<Rightarrow> regs \<times> nat \<Rightarrow> regs \<times> nat" where
  "mash K = fold (mash_one K) [0..<4]"

text \<open>Here \<open>j\<close> counts down from 63, to -1 after the last step.\<close>

definition rMix_one :: "16 word list \<Rightarrow> nat \<Rightarrow> regs \<times> int \<Rightarrow> regs \<times> int" where
  "rMix_one K k s = (case s of (R, j) \<Rightarrow>
     let R = R[k := rotr16 (R ! k) (SHIFT ! k)] in (R[k := R ! k - mix_term K (nat j) k R], j - 1))"

definition rMix :: "16 word list \<Rightarrow> regs \<times> int \<Rightarrow> regs \<times> int" where
  "rMix K = fold (rMix_one K) (rev [0..<4])"

definition rMash_one :: "16 word list \<Rightarrow> nat \<Rightarrow> regs \<times> int \<Rightarrow> regs \<times> int" where
  "rMash_one K k s = (case s of (R, j) \<Rightarrow> (R[k := R ! k - mash_term K k R], j))"

definition rMash :: "16 word list \<Rightarrow> regs \<times> int \<Rightarrow> regs \<times> int" where
  "rMash K = fold (rMash_one K) (rev [0..<4])"

definition octet_at :: "bytes \<Rightarrow> nat \<Rightarrow> nat" where
  "octet_at b i = (if i < length b then unat (b ! i) else 0)"

definition load_block :: "bytes \<Rightarrow> nat \<Rightarrow> regs" where
  "load_block b off = map (\<lambda>k. word_of_nat (octet_at b (off + 2 * k) OR push_bit 8 (octet_at b (off + 2 * k + 1)))) [0..<4]"

definition encBlock :: "16 word list \<Rightarrow> bytes \<Rightarrow> nat \<Rightarrow> regs" where
  "encBlock K b off =
     fst (((mix K ^^ 5) \<circ> mash K \<circ> (mix K ^^ 6) \<circ> mash K \<circ> (mix K ^^ 5)) (load_block b off, 0))"

definition decBlock :: "16 word list \<Rightarrow> bytes \<Rightarrow> nat \<Rightarrow> regs" where
  "decBlock K b off =
     fst (((rMix K ^^ 5) \<circ> rMash K \<circ> (rMix K ^^ 6) \<circ> rMash K \<circ> (rMix K ^^ 5)) (load_block b off, 63))"

definition wordsToBytes :: "regs \<Rightarrow> bytes" where
  "wordsToBytes R = concat (map (\<lambda>k. [word_of_nat (unat (R ! k)), word_of_nat (unat (drop_bit 8 (R ! k)))]) [0..<4])"

definition encryptBlock :: "bytes \<Rightarrow> nat \<Rightarrow> bytes \<Rightarrow> bytes" where
  "encryptBlock key effectiveBits block = wordsToBytes (encBlock (expandKey key effectiveBits) block 0)"

definition decryptBlock :: "bytes \<Rightarrow> nat \<Rightarrow> bytes \<Rightarrow> bytes" where
  "decryptBlock key effectiveBits block = wordsToBytes (decBlock (expandKey key effectiveBits) block 0)"

section \<open>Cipher block chaining\<close>

definition xor_block :: "bytes \<Rightarrow> bytes \<Rightarrow> bytes" where
  "xor_block a b = map (\<lambda>i. word_of_nat (octet_at a i XOR octet_at b i)) [0..<8]"

text \<open>The loops over the blocks, from the rest of the input and the block chained in.\<close>

fun cbc_decrypt_blocks :: "nat \<Rightarrow> 16 word list \<Rightarrow> bytes \<Rightarrow> bytes \<Rightarrow> bytes" where
  "cbc_decrypt_blocks 0 K prev ct = []"
| "cbc_decrypt_blocks (Suc n) K prev ct =
     xor_block (wordsToBytes (decBlock K ct 0)) prev @ cbc_decrypt_blocks n K (take 8 ct) (drop 8 ct)"

fun cbc_encrypt_blocks :: "nat \<Rightarrow> 16 word list \<Rightarrow> bytes \<Rightarrow> bytes \<Rightarrow> bytes" where
  "cbc_encrypt_blocks 0 K prev pt = []"
| "cbc_encrypt_blocks (Suc n) K prev pt =
     (let enc = wordsToBytes (encBlock K (xor_block pt prev) 0)
      in enc @ cbc_encrypt_blocks n K enc (drop 8 pt))"

definition cbcDecrypt :: "bytes \<Rightarrow> nat \<Rightarrow> bytes \<Rightarrow> bytes \<Rightarrow> err \<Rightarrow> bytes res" where
  "cbcDecrypt key effectiveBits iv ct e =
     (if length ct = 0 \<or> length ct mod 8 \<noteq> 0 then Inl e
      else let out = cbc_decrypt_blocks (length ct div 8) (expandKey key effectiveBits) iv ct;
               pad = unat (last out) in
        if pad < 1 \<or> pad > 8 \<or> pad > length out then Inl e
        else if \<not> list_all (\<lambda>i. unat (out ! (length out - 1 - i)) = pad) [0..<pad] then Inl e
        else Inr (take (length out - pad) out))"

definition cbcEncrypt :: "bytes \<Rightarrow> nat \<Rightarrow> bytes \<Rightarrow> bytes \<Rightarrow> bytes" where
  "cbcEncrypt key effectiveBits iv pt =
     (let padLen = 8 - length pt mod 8;
          padded = pt @ replicate padLen (word_of_nat padLen)
      in cbc_encrypt_blocks (length padded div 8) (expandKey key effectiveBits) iv padded)"

section \<open>Decryption undoes encryption\<close>

lemma rot_back: "0 < n \<Longrightarrow> n < 16 \<Longrightarrow> rotr16 (rotl16 x n) n = x"
  apply (rule bit_word_eqI)
  apply (auto simp: rotr16_def rotl16_def bit_simps)
  subgoal for i by (cases "n + i < 16") (auto simp: add.commute)
  done

lemma upt_4: "[0..<4] = [0, 1, 2, 3::nat]"
  by (simp add: upt_rec numeral_eq_Suc)

lemma less_4: "k < 4 \<longleftrightarrow> k = 0 \<or> k = 1 \<or> k = 2 \<or> k = (3::nat)"
  by auto

lemma shift_bounds: "k < 4 \<Longrightarrow> 0 < SHIFT ! k \<and> SHIFT ! k < 16"
  by (auto simp: less_4 SHIFT_def)

lemma mix_term_same: "length R = 4 \<Longrightarrow> k < 4 \<Longrightarrow> mix_term K j k (R[k := x]) = mix_term K j k R"
  by (auto simp: less_4 mix_term_def)

lemma mash_term_same: "length R = 4 \<Longrightarrow> k < 4 \<Longrightarrow> mash_term K k (R[k := x]) = mash_term K k R"
  by (auto simp: less_4 mash_term_def)

text \<open>\<open>undoes g f\<close>: from the state \<open>f\<close> leaves, with the counter one behind, \<open>g\<close> goes back.\<close>

definition behind :: "regs \<times> nat \<Rightarrow> regs \<times> int" where
  "behind s = (fst s, int (snd s) - 1)"

definition undoes :: "(regs \<times> int \<Rightarrow> regs \<times> int) \<Rightarrow> (regs \<times> nat \<Rightarrow> regs \<times> nat) \<Rightarrow> bool" where
  "undoes g f \<longleftrightarrow> (\<forall>s. length (fst s) = 4 \<longrightarrow> length (fst (f s)) = 4 \<and> g (behind (f s)) = behind s)"

lemma undoes_id: "undoes id id"
  by (simp add: undoes_def)

lemma undoes_comp:
  assumes "undoes g f" and "undoes g' f'"
  shows "undoes (g' \<circ> g) (f \<circ> f')"
  unfolding undoes_def
proof (intro allI impI)
  fix s :: "regs \<times> nat" assume s: "length (fst s) = 4"
  have 1: "length (fst (f' s)) = 4" "g' (behind (f' s)) = behind s"
    using assms(2) s unfolding undoes_def by blast+
  have 2: "length (fst (f (f' s))) = 4" "g (behind (f (f' s))) = behind (f' s)"
    using assms(1) 1(1) unfolding undoes_def by blast+
  show "length (fst ((f \<circ> f') s)) = 4 \<and> (g' \<circ> g) (behind ((f \<circ> f') s)) = behind s" using 1 2 by simp
qed

lemma undoes_funpow: "undoes g f \<Longrightarrow> undoes (g ^^ n) (f ^^ n)"
proof (induction n)
  case (Suc n)
  then show ?case using undoes_comp[of g f "g ^^ n" "f ^^ n"] by (simp add: funpow_swap1 comp_def funpow_Suc_right del: funpow.simps) 
qed (simp add: undoes_id)

lemma undoes_fold: "(\<And>k. k \<in> set ks \<Longrightarrow> undoes (g k) (f k)) \<Longrightarrow> undoes (fold g (rev ks)) (fold f ks)"
proof (induction ks)
  case (Cons k ks)
  have split: "fold g (rev (k # ks)) = g k \<circ> fold g (rev ks)" "fold f (k # ks) = fold f ks \<circ> f k" by (simp_all add: fun_eq_iff)
  show ?case unfolding split using Cons by (intro undoes_comp) auto
qed (simp add: undoes_id[unfolded id_def] id_def)

lemma mix_one_undone: "k < 4 \<Longrightarrow> undoes (rMix_one K k) (mix_one K k)"
  using shift_bounds[of k]
  by (auto simp: undoes_def behind_def mix_one_def rMix_one_def Let_def rot_back mix_term_same)

lemma mix_undone: "undoes (rMix K) (mix K)"
  unfolding rMix_def mix_def by (rule undoes_fold) (auto intro: mix_one_undone)

lemma mash_one_undone: "k < 4 \<Longrightarrow> undoes (rMash_one K k) (mash_one K k)"
  by (auto simp: undoes_def behind_def mash_one_def rMash_one_def mash_term_same)

lemma mash_undone: "undoes (rMash K) (mash K)"
  unfolding rMash_def mash_def by (rule undoes_fold) (auto intro: mash_one_undone)

lemma mix_counter: "snd (mix K s) = snd s + 4" "snd (mash K s) = snd s"
  by (cases s; simp add: mix_def mash_def mix_one_def mash_one_def upt_4)+

lemma mix_counters: "snd ((mix K ^^ n) s) = snd s + 4 * n"
  by (induction n) (simp_all add: mix_counter)

definition enc_regs :: "16 word list \<Rightarrow> regs \<Rightarrow> regs" where
  "enc_regs K R = fst (((mix K ^^ 5) \<circ> mash K \<circ> (mix K ^^ 6) \<circ> mash K \<circ> (mix K ^^ 5)) (R, 0))"

definition dec_regs :: "16 word list \<Rightarrow> regs \<Rightarrow> regs" where
  "dec_regs K R = fst (((rMix K ^^ 5) \<circ> rMash K \<circ> (rMix K ^^ 6) \<circ> rMash K \<circ> (rMix K ^^ 5)) (R, 63))"

lemma dec_enc_regs:
  assumes "length R = 4"
  shows "length (enc_regs K R) = 4" "dec_regs K (enc_regs K R) = R"
proof -
  let ?f = "(mix K ^^ 5) \<circ> mash K \<circ> (mix K ^^ 6) \<circ> mash K \<circ> (mix K ^^ 5)"
  let ?g = "(rMix K ^^ 5) \<circ> rMash K \<circ> (rMix K ^^ 6) \<circ> rMash K \<circ> (rMix K ^^ 5)"
  have "undoes ((rMix K ^^ 5) \<circ> (rMash K \<circ> ((rMix K ^^ 6) \<circ> (rMash K \<circ> (rMix K ^^ 5)))))
     ((mix K ^^ 5) \<circ> mash K \<circ> (mix K ^^ 6) \<circ> mash K \<circ> (mix K ^^ 5))"
    by (intro undoes_comp undoes_funpow mix_undone mash_undone)
  then have u: "undoes ?g ?f" by (simp only: comp_assoc)
  have c: "snd (?f (R, 0)) = 64" by (simp add: mix_counter mix_counters)
  have l: "length (fst (?f (R, 0))) = 4" "?g (behind (?f (R, 0))) = behind (R, 0)"
    using u assms unfolding undoes_def by auto
  show "length (enc_regs K R) = 4" using l(1) by (simp add: enc_regs_def)
  have "behind (?f (R, 0)) = (enc_regs K R, 63)" using c by (simp only: behind_def enc_regs_def) simp
  then have "?g (enc_regs K R, 63) = behind (R, 0)" using l(2) by metis
  then show "dec_regs K (enc_regs K R) = R" unfolding dec_regs_def by (simp only: behind_def fst_conv)
qed

text \<open>The registers are finitely many, so encryption, being one to one, reaches all of them.\<close>

lemma regs_finite: "finite {R :: regs. length R = 4}"
proof -
  have "{R :: regs. length R = 4} = {R. set R \<subseteq> UNIV \<and> length R = 4}" by simp
  then show ?thesis using finite_lists_length_eq[of "UNIV :: 16 word set" 4] by (simp only: finite)
qed

lemma enc_dec_regs:
  assumes "length R = 4"
  shows "length (dec_regs K R) = 4" "enc_regs K (dec_regs K R) = R"
proof -
  have "inj_on (enc_regs K) {R. length R = 4}" by (rule inj_on_inverseI[of _ "dec_regs K"]) (simp add: dec_enc_regs(2))
  then have "enc_regs K ` {R. length R = 4} = {R. length R = 4}"
    by (intro endo_inj_surj regs_finite) (auto simp: dec_enc_regs(1))
  then obtain S where "length S = 4" "R = enc_regs K S" using assms by blast
  then show "length (dec_regs K R) = 4" "enc_regs K (dec_regs K R) = R" by (simp_all add: dec_enc_regs(2))
qed

section \<open>Octets and registers\<close>

lemma octet_at_append: "length a = 8 \<Longrightarrow> i < 8 \<Longrightarrow> octet_at (a @ b) i = octet_at a i"
  by (simp add: octet_at_def nth_append)

lemma load_block_append: "length a = 8 \<Longrightarrow> load_block (a @ b) 0 = load_block a 0"
  by (auto simp: load_block_def octet_at_append)

lemma length_words [simp]: "length (wordsToBytes R) = 8"
  by (simp add: wordsToBytes_def upt_4)

lemma length_load [simp]: "length (load_block b i) = 4"
  by (simp add: load_block_def)

lemma register_octets:
  "word_of_nat (unat (ucast w :: byte) OR push_bit 8 (unat (ucast (drop_bit 8 w) :: byte))) = (w :: 16 word)"
  by (rule bit_word_eqI) (auto simp: bit_simps bit_of_nat_iff not_less)

lemma octets_register:
  fixes a b :: byte
  defines "w \<equiv> (word_of_nat (unat a OR push_bit 8 (unat b)) :: 16 word)"
  shows "ucast w = a" "ucast (drop_bit 8 w) = b"
  unfolding w_def
  by (rule bit_word_eqI; auto simp: bit_simps bit_of_nat_iff not_less dest: bit_imp_le_length)+

lemma list_4: "length R = 4 \<longleftrightarrow> (\<exists>a b c d. R = [a, b, c, d])"
  by (auto simp: length_Suc_conv numeral_eq_Suc)

lemma list_8: "length R = 8 \<longleftrightarrow> (\<exists>a b c d e f g h. R = [a, b, c, d, e, f, g, h])"
  by (auto simp: length_Suc_conv numeral_eq_Suc)

lemma load_words: "length R = 4 \<Longrightarrow> load_block (wordsToBytes R) 0 = R"
  by (auto simp: list_4 load_block_def wordsToBytes_def upt_4 octet_at_def register_octets)

lemma words_load: "length b = 8 \<Longrightarrow> wordsToBytes (load_block b 0) = b"
  by (auto simp: list_8 load_block_def wordsToBytes_def upt_4 octet_at_def octets_register)

lemma encBlock_regs: "encBlock K b i = enc_regs K (load_block b i)" "decBlock K b i = dec_regs K (load_block b i)"
  by (simp_all add: encBlock_def enc_regs_def decBlock_def dec_regs_def)

lemma block_round_trip:
  assumes "length b = 8"
  shows "wordsToBytes (decBlock K (wordsToBytes (encBlock K b 0) @ r) 0) = b"
    and "wordsToBytes (encBlock K (wordsToBytes (decBlock K b 0)) 0) = b"
  using assms
  by (simp_all add: encBlock_regs load_block_append load_words words_load dec_enc_regs enc_dec_regs)

section \<open>Chaining\<close>

lemma length_xor [simp]: "length (xor_block a b) = 8"
  by (simp add: xor_block_def)

definition byte_at :: "bytes \<Rightarrow> nat \<Rightarrow> byte" where
  "byte_at b i = (if i < length b then b ! i else 0)"

lemma xor_octets: "word_of_nat (unat a XOR unat b) = (a XOR b :: byte)"
  by (rule bit_word_eqI) (auto simp: bit_simps bit_of_nat_iff)

lemma xor_block_bytes: "xor_block a b = map (\<lambda>i. byte_at a i XOR byte_at b i) [0..<8]"
proof -
  have "octet_at c i = unat (byte_at c i)" for c i by (simp add: octet_at_def byte_at_def)
  then show ?thesis by (simp add: xor_block_def xor_octets)
qed

lemma byte_at_xor: "i < 8 \<Longrightarrow> byte_at (xor_block a b) i = byte_at a i XOR byte_at b i"
  by (simp add: xor_block_bytes byte_at_def)

lemma xor_back: "length a = 8 \<Longrightarrow> xor_block (xor_block a b) b = a"
  by (rule nth_equalityI) (auto simp: xor_block_bytes[of "xor_block a b"] byte_at_xor xor.assoc byte_at_def[of a])

lemma xor_take: "xor_block (take 8 a) b = xor_block a b"
  by (simp add: xor_block_bytes byte_at_def)

lemma cbc_length:
  "length (cbc_encrypt_blocks n K prev pt) = 8 * n" "length (cbc_decrypt_blocks n K prev ct) = 8 * n"
  by (induction n arbitrary: prev pt ct) (simp_all add: Let_def)

lemma cbc_decrypt_append: "length ct = 8 * n \<Longrightarrow> cbc_decrypt_blocks n K prev (ct @ r) = cbc_decrypt_blocks n K prev ct"
proof (induction n arbitrary: prev ct)
  case (Suc n)
  have "decBlock K (ct @ r) 0 = decBlock K (take 8 ct) 0" "decBlock K ct 0 = decBlock K (take 8 ct) 0"
    using Suc.prems load_block_append[of "take 8 ct" "drop 8 ct @ r"] load_block_append[of "take 8 ct" "drop 8 ct"]
    unfolding encBlock_regs append.assoc [symmetric] append_take_drop_id by simp_all
  then show ?case using Suc by simp
qed simp

lemma cbc_decrypts: "length pt = 8 * n \<Longrightarrow> cbc_decrypt_blocks n K prev (cbc_encrypt_blocks n K prev pt) = pt"
proof (induction n arbitrary: prev pt)
  case (Suc n)
  let ?e = "wordsToBytes (encBlock K (xor_block pt prev) 0)"
  have "wordsToBytes (decBlock K (?e @ r) 0) = xor_block pt prev" for r by (rule block_round_trip(1)) simp
  moreover have "xor_block (xor_block pt prev) prev = take 8 pt"
    using xor_back[of "take 8 pt" prev] Suc.prems by (simp add: xor_take)
  ultimately show ?case using Suc by (simp add: Let_def)
qed simp

lemma cbc_encrypts: "length ct = 8 * n \<Longrightarrow> cbc_encrypt_blocks n K prev (cbc_decrypt_blocks n K prev ct) = ct"
proof (induction n arbitrary: prev ct)
  case (Suc n)
  let ?d = "wordsToBytes (decBlock K ct 0)" and ?r = "cbc_decrypt_blocks n K (take 8 ct) (drop 8 ct)"
  have "xor_block (xor_block ?d prev @ ?r) prev = xor_block (xor_block ?d prev) prev"
    using xor_take[of "xor_block ?d prev @ ?r" prev] by simp
  then have x: "xor_block (xor_block ?d prev @ ?r) prev = ?d" by (simp add: xor_back)
  have "?d = wordsToBytes (decBlock K (take 8 ct) 0)"
    using Suc.prems load_block_append[of "take 8 ct" "drop 8 ct"] by (simp add: encBlock_regs)
  then have "wordsToBytes (encBlock K ?d 0) = take 8 ct" using Suc.prems block_round_trip(2)[of "take 8 ct" K] by simp
  then show ?case using Suc x by (simp add: Let_def)
qed simp

section \<open>Padding\<close>

lemma last_octets:
  assumes "m \<le> length out"
  shows "list_all (\<lambda>i. unat (out ! (length out - 1 - i)) = v) [0..<m] \<longleftrightarrow>
    (\<forall>x \<in> set (drop (length out - m) out). unat x = v)"
proof
  assume l: "list_all (\<lambda>i. unat (out ! (length out - 1 - i)) = v) [0..<m]"
  show "\<forall>x \<in> set (drop (length out - m) out). unat x = v"
  proof
    fix x assume "x \<in> set (drop (length out - m) out)"
    then obtain i where "i < m" "x = out ! (length out - m + i)" using assms by (auto simp: in_set_conv_nth)
    then have "x = out ! (length out - 1 - (m - 1 - i))" "m - 1 - i < m" using assms by auto
    then show "unat x = v" using l by (auto simp: list_all_iff)
  qed
next
  assume "\<forall>x \<in> set (drop (length out - m) out). unat x = v"
  then have d: "unat (drop (length out - m) out ! (m - 1 - i)) = v" if "i < m" for i
    using that assms nth_mem[of "m - 1 - i" "drop (length out - m) out"] by fastforce
  have "unat (out ! (length out - 1 - i)) = v" if "i < m" for i
  proof -
    have "length out - m + (m - 1 - i) = length out - 1 - i" using that assms by simp
    then show ?thesis using d[OF that] that assms by (simp del: diff_diff_left)
  qed
  then show "list_all (\<lambda>i. unat (out ! (length out - 1 - i)) = v) [0..<m]"
    by (simp add: list_all_iff)
qed

lemma pad_count:
  assumes "n mod 8 = (0::nat)" "1 \<le> p" "p \<le> 8" "p \<le> n"
  shows "8 - (n - p) mod 8 = p"
proof -
  obtain q where q: "n = 8 * q" using assms(1) using mod_0_imp_dvd dvd_def by metis
  then have "n - p = 8 - p + (q - 1) * 8" using assms by (cases q) auto
  then have "(n - p) mod 8 = (8 - p) mod 8" by simp
  then show ?thesis using assms(2,3) by (cases "p = 8") auto
qed

text \<open>The padding the code checks: the last octet counts it, and every octet of it is that count.\<close>

lemma unpad_iff:
  fixes out :: bytes
  assumes "length out mod 8 = 0" "out \<noteq> []"
  defines "pad \<equiv> unat (last out)"
  shows "(pad \<ge> 1 \<and> pad \<le> 8 \<and> pad \<le> length out \<and> list_all (\<lambda>i. unat (out ! (length out - 1 - i)) = pad) [0..<pad] \<and>
      pt = take (length out - pad) out) \<longleftrightarrow>
    out = pt @ replicate (8 - length pt mod 8) (word_of_nat (8 - length pt mod 8))" (is "?l \<longleftrightarrow> ?r")
proof
  assume l: ?l
  then have "\<forall>x \<in> set (drop (length out - pad) out). unat x = pad" using last_octets[of pad out pad] by blast
  then have "\<forall>x \<in> set (drop (length out - pad) out). x = word_of_nat pad"
    by (metis word_of_nat_unat_byte)
  then have d: "drop (length out - pad) out = replicate pad (word_of_nat pad)"
    using l by (intro replicate_eqI) auto
  have "length pt = length out - pad" using l by simp
  moreover have "1 \<le> pad" "pad \<le> 8" "pad \<le> length out" using l by simp_all
  ultimately have "8 - length pt mod 8 = pad" using pad_count[of "length out" pad] assms(1) by simp
  then show ?r using d l by (metis append_take_drop_id)
next
  define m where "m = 8 - length pt mod 8"
  assume ?r
  then have r: "out = pt @ replicate m (word_of_nat m)" by (simp add: m_def)
  have n: "1 \<le> m" "m \<le> 8" unfolding m_def by (simp_all add: Suc_leI)
  then have v: "unat (word_of_nat m :: byte) = m" by (simp add: unat_of_nat)
  then have p: "pad = m" using r n by (simp add: pad_def)
  have "drop (length pt) out = replicate m (word_of_nat m)" "take (length pt) out = pt" "length out = length pt + m"
    using r by simp_all
  then show ?l using n v unfolding p by (subst last_octets) auto
qed

text \<open>C40: RC2 in CBC mode is a bijection between plaintexts and accepted ciphertexts: for every key, effective
  key length and initialisation vector, a ciphertext decrypts to a plaintext exactly when encrypting that
  plaintext gives the ciphertext.  So decryption undoes encryption, and the one way to be accepted is to
  carry the padding the encryption writes.\<close>

theorem rc2_cbc_exact: "cbcDecrypt key bits iv ct e = Inr pt \<longleftrightarrow> cbcEncrypt key bits iv pt = ct"
proof -
  let ?K = "expandKey key bits" and ?p = "pt @ replicate (8 - length pt mod 8) (word_of_nat (8 - length pt mod 8))"
  let ?out = "cbc_decrypt_blocks (length ct div 8) ?K iv ct"
  have whole: "length ?p mod 8 = 0" "length ?p > 0" by (simp_all, presburger)
  show ?thesis
  proof (cases "length ct = 0 \<or> length ct mod 8 \<noteq> 0")
    case True
    then have "cbcEncrypt key bits iv pt \<noteq> ct" using whole cbc_length(1)[of "length ?p div 8" ?K iv ?p]
      by (auto simp: cbcEncrypt_def Let_def)
    then show ?thesis using True by (auto simp: cbcDecrypt_def)
  next
    case False
    then have len: "length ct = 8 * (length ct div 8)" by presburger
    have out: "length ?out mod 8 = 0" "?out \<noteq> []" using cbc_length(2)[of "length ct div 8" ?K iv ct] len False by auto
    have "cbcDecrypt key bits iv ct e = Inr pt \<longleftrightarrow> ?out = ?p"
      using unpad_iff[OF out, of pt] False by (auto simp: cbcDecrypt_def Let_def)
    also have "\<dots> \<longleftrightarrow> cbc_encrypt_blocks (length ?p div 8) ?K iv ?p = ct"
    proof
      assume "?out = ?p"
      then have "length ?p div 8 = length ct div 8" using cbc_length(2)[of "length ct div 8" ?K iv ct] by simp
      then show "cbc_encrypt_blocks (length ?p div 8) ?K iv ?p = ct" using cbc_encrypts[OF len] \<open>?out = ?p\<close> by metis
    next
      assume e: "cbc_encrypt_blocks (length ?p div 8) ?K iv ?p = ct"
      have l: "length ?p = 8 * (length ?p div 8)" using whole(1) by presburger
      have "length ct div 8 = length ?p div 8" using cbc_length(1)[of "length ?p div 8" ?K iv ?p] e by simp
      then show "?out = ?p" using cbc_decrypts[OF l, of ?K iv] e by simp
    qed
    finally show ?thesis by (simp add: cbcEncrypt_def Let_def)
  qed
qed

end
