(* ===== verification/Dist_Names.thy ===== *)
theory Dist_Names
  imports Ip_Text Utf8
begin

text \<open>
  lib/guard-name.js: distinguished names, host names, mailboxes and URIs as names are compared.
  \<open>lc\<close> is the platform's \<open>String.prototype.toLowerCase\<close>, a parameter: the Unicode case mapping is a
  table of the platform, and nothing here relies on more than its being a function.
\<close>

section \<open>Control bytes\<close>

fun assertNoControlBytes :: "err \<Rightarrow> jsstr \<Rightarrow> unit res" where
  "assertNoControlBytes e [] = Inr ()"
| "assertNoControlBytes e (c # cs) =
     (if c = 0 \<or> (c < 0x20 \<and> c \<noteq> 0x09) then Inl e else assertNoControlBytes e cs)"

fun assertPrintableIa5 :: "err \<Rightarrow> bytes \<Rightarrow> unit res" where
  "assertPrintableIa5 e [] = Inr ()"
| "assertPrintableIa5 e (b # bs) =
     (if unat b < 0x20 \<or> unat b > 0x7e then Inl e else assertPrintableIa5 e bs)"

definition isSpace :: "nat \<Rightarrow> bool" where
  "isSpace c \<longleftrightarrow> c = 0x20 \<or> c = 0x09 \<or> c = 0x0a \<or> c = 0x0d"

section \<open>Distinguished names\<close>

record atv =
  at_type :: jsstr
  at_value :: js

type_synonym rdn = "atv list"
type_synonym dn = "rdn list"

text \<open>challengePassword, localKeyId and role, as the registry resolves them.\<close>

definition case_exact_oids :: "jsstr list" where
  "case_exact_oids = [js_lit ''1.2.840.113549.1.9.7'', js_lit ''1.2.840.113549.1.9.21'', js_lit ''2.5.4.72'']"

definition isCaseExactType :: "jsstr \<Rightarrow> bool" where
  "isCaseExactType type \<longleftrightarrow> type \<in> set case_exact_oids"

fun prep_scan :: "jsstr \<Rightarrow> bool \<Rightarrow> jsstr \<Rightarrow> jsstr" where
  "prep_scan out lastWasSpace [] = out"
| "prep_scan out lastWasSpace (c # cs) =
     (if isSpace c then prep_scan out True cs
      else prep_scan ((if lastWasSpace \<and> out \<noteq> [] then out @ [0x20] else out) @ [c]) False cs)"

definition prepAttrValue :: "err \<Rightarrow> js \<Rightarrow> js res" where
  "prepAttrValue e v = (case v of
      Str s \<Rightarrow> bindR (assertNoControlBytes e s) (\<lambda>_. Inr (Str (prep_scan [] True s)))
    | _ \<Rightarrow> Inr v)"

definition folded :: "(jsstr \<Rightarrow> jsstr) \<Rightarrow> js \<Rightarrow> js" where
  "folded lc v = (case v of Str s \<Rightarrow> Str (lc s) | _ \<Rightarrow> v)"

text \<open>The inner loop of \<open>rdnEqual\<close>: the first unused attribute that is the same, and what it leaves
  unused.  The attributes marked in \<open>used\<close> are the ones no longer in the list.\<close>

fun match_attr :: "(jsstr \<Rightarrow> jsstr) \<Rightarrow> err \<Rightarrow> jsstr \<Rightarrow> js \<Rightarrow> rdn \<Rightarrow> rdn option res" where
  "match_attr lc e typeA prepA [] = Inr None"
| "match_attr lc e typeA prepA (eb # bs) =
     (if typeA \<noteq> at_type eb then bindR (match_attr lc e typeA prepA bs) (\<lambda>r. Inr (map_option (Cons eb) r))
      else bindR (prepAttrValue e (at_value eb)) (\<lambda>prepB.
        if (if isCaseExactType typeA \<or> isCaseExactType (at_type eb) then prepA = prepB
            else folded lc prepA = folded lc prepB)
        then Inr (Some bs)
        else bindR (match_attr lc e typeA prepA bs) (\<lambda>r. Inr (map_option (Cons eb) r))))"

fun rdn_match :: "(jsstr \<Rightarrow> jsstr) \<Rightarrow> err \<Rightarrow> rdn \<Rightarrow> rdn \<Rightarrow> bool res" where
  "rdn_match lc e [] bs = Inr True"
| "rdn_match lc e (ea # as) bs =
     bindR (prepAttrValue e (at_value ea)) (\<lambda>prepA.
     bindR (match_attr lc e (at_type ea) prepA bs) (\<lambda>r.
       case r of None \<Rightarrow> Inr False | Some bs' \<Rightarrow> rdn_match lc e as bs'))"

definition rdnEqual :: "(jsstr \<Rightarrow> jsstr) \<Rightarrow> err \<Rightarrow> rdn \<Rightarrow> rdn \<Rightarrow> bool res" where
  "rdnEqual lc e a b = (if length a \<noteq> length b then Inr False else rdn_match lc e a b)"

fun rdns_match :: "(jsstr \<Rightarrow> jsstr) \<Rightarrow> err \<Rightarrow> dn \<Rightarrow> dn \<Rightarrow> bool res" where
  "rdns_match lc e (a # as) (b # bs) =
     bindR (rdnEqual lc e a b) (\<lambda>same. if same then rdns_match lc e as bs else Inr False)"
| "rdns_match lc e _ _ = Inr True"

definition dnEqual :: "(jsstr \<Rightarrow> jsstr) \<Rightarrow> err \<Rightarrow> dn \<Rightarrow> dn \<Rightarrow> bool res" where
  "dnEqual lc e rdnsA rdnsB = (if length rdnsA \<noteq> length rdnsB then Inr False else rdns_match lc e rdnsA rdnsB)"

section \<open>Distribution-point names\<close>

datatype dpn = FullName "bytes list" | RelativeName bytes

definition dpnCorresponds :: "dpn \<Rightarrow> dpn \<Rightarrow> bool" where
  "dpnCorresponds a b = (case (a, b) of
      (RelativeName x, RelativeName y) \<Rightarrow> x = y
    | (FullName xs, FullName ys) \<Rightarrow> list_ex (\<lambda>x. list_ex (\<lambda>y. x = y) ys) xs
    | _ \<Rightarrow> False)"

section \<open>The string form of a distinguished name\<close>

definition DN_SPECIAL :: "nat set" where
  "DN_SPECIAL = {0x2c, 0x2b, 0x22, 0x5c, 0x3c, 0x3e, 0x3b}"

definition hexNibble :: "nat \<Rightarrow> nat option" where
  "hexNibble c = (if 0x30 \<le> c \<and> c \<le> 0x39 then Some (c - 0x30)
     else if 0x41 \<le> c \<and> c \<le> 0x46 then Some (c - 0x41 + 10)
     else if 0x61 \<le> c \<and> c \<le> 0x66 then Some (c - 0x61 + 10) else None)"

definition isAttrTypeStart :: "nat \<Rightarrow> bool" where
  "isAttrTypeStart c \<longleftrightarrow> (0x41 \<le> c \<and> c \<le> 0x5a) \<or> (0x61 \<le> c \<and> c \<le> 0x7a)"

definition isAttrTypeChar :: "nat \<Rightarrow> bool" where
  "isAttrTypeChar c \<longleftrightarrow> isAttrTypeStart c \<or> (0x30 \<le> c \<and> c \<le> 0x39) \<or> c = 0x2d"

definition isAttributeDescriptor :: "jsstr \<Rightarrow> bool" where
  "isAttributeDescriptor name = (case name of [] \<Rightarrow> False | c # cs \<Rightarrow> isAttrTypeStart c \<and> list_all isAttrTypeChar cs)"

text \<open>The run of characters an attribute type is read from, by its first character.\<close>

definition type_run :: "jsstr \<Rightarrow> jsstr" where
  "type_run s = (case s of
      [] \<Rightarrow> []
    | c # _ \<Rightarrow> if isDigitCode c then takeWhile (\<lambda>x. isDigitCode x \<or> x = 0x2e) s
              else if isAttrTypeStart c then takeWhile isAttrTypeChar s else [])"

definition opensAsDnString :: "jsstr \<Rightarrow> bool" where
  "opensAsDnString s =
     (let run = type_run s in
      run \<noteq> [] \<and> (isDigitCode (hd s) \<longrightarrow> isDottedDecimal_canonical run) \<and>
      length run < length s \<and> s ! length run = 0x3d)"

definition upper_hex_char :: "nat \<Rightarrow> nat" where
  "upper_hex_char d = (if d < 10 then 48 + d else 55 + d)"

definition escape_hex :: "nat \<Rightarrow> jsstr" where
  "escape_hex c = [0x5c, upper_hex_char (c div 16), upper_hex_char (c mod 16)]"

definition escape_char :: "nat \<Rightarrow> jsstr" where
  "escape_char c = (if c < 0x20 \<or> c = 0x7f then escape_hex c else if c \<in> DN_SPECIAL then [0x5c, c] else [c])"

definition escapeDnValue :: "jsstr \<Rightarrow> jsstr" where
  "escapeDnValue v =
     (let out = concat (map escape_char v);
          out = (if out \<noteq> [] \<and> last out = 0x20 then butlast out @ [0x5c, 0x20] else out)
      in if out \<noteq> [] \<and> (hd out = 0x23 \<or> hd out = 0x20) then 0x5c # out else out)"

definition escapeControlBytes :: "jsstr \<Rightarrow> jsstr" where
  "escapeControlBytes s = concat (map (\<lambda>c. if c < 0x20 \<or> c = 0x7f
     then [0x5c, 0x78, upper_hex_char (c div 16), upper_hex_char (c mod 16)] else [c]) s)"

definition flushPending :: "err \<Rightarrow> jsstr \<Rightarrow> bytes \<Rightarrow> jsstr res" where
  "flushPending e value pending =
     (if pending = [] then Inr value
      else case utf8_decode pending of None \<Rightarrow> Inl e | Some d \<Rightarrow> Inr (value @ d))"

text \<open>The loop over an attribute value: \<open>atStart\<close> is \<open>i === valueStart\<close>.  It returns the value and the rest
  of the string, which opens with a separator.\<close>

function dn_value :: "err \<Rightarrow> bool \<Rightarrow> bool \<Rightarrow> jsstr \<Rightarrow> bytes \<Rightarrow> jsstr \<Rightarrow> (jsstr \<times> jsstr) res" where
  "dn_value e atStart lastBare value pending s =
     (case s of
        [] \<Rightarrow> bindR (flushPending e value pending) (\<lambda>v. if lastBare then Inl e else Inr (v, []))
      | c # cs \<Rightarrow>
          if c = 0x2c \<or> c = 0x2b then
            bindR (flushPending e value pending) (\<lambda>v. if lastBare then Inl e else Inr (v, c # cs))
          else if c = 0x5c then
            (case cs of
               [] \<Rightarrow> Inl e
             | e1 # r \<Rightarrow>
                 (case hexNibble e1 of
                    Some h1 \<Rightarrow>
                      (case r of
                         [] \<Rightarrow> Inl e
                       | x # r' \<Rightarrow>
                           (case hexNibble x of
                              None \<Rightarrow> Inl e
                            | Some h2 \<Rightarrow> dn_value e False False value (pending @ [word_of_nat (h1 * 16 + h2)]) r'))
                  | None \<Rightarrow>
                      if e1 \<noteq> 0x20 \<and> e1 \<noteq> 0x23 \<and> e1 \<noteq> 0x3d \<and> e1 \<notin> DN_SPECIAL then Inl e
                      else bindR (flushPending e value pending) (\<lambda>v. dn_value e False False (v @ [e1]) [] r)))
          else if c = 0 \<or> c = 0x22 \<or> c = 0x3b \<or> c = 0x3c \<or> c = 0x3e then Inl e
          else if c = 0x20 \<and> atStart then Inl e
          else bindR (flushPending e value pending) (\<lambda>v. dn_value e False (c = 0x20) (v @ [c]) [] cs))"
  by pat_completeness auto

termination by (relation "measure (\<lambda>(e, a, l, v, p, s). length s)") auto

declare dn_value.simps [simp del]

text \<open>\<open>#\<close> and the hexadecimal digits after it, or an escaped value.\<close>

definition dn_component :: "err \<Rightarrow> jsstr \<Rightarrow> ((jsstr option \<times> jsstr option) \<times> jsstr) res" where
  "dn_component e s =
     (if s \<noteq> [] \<and> hd s = 0x23 then
        let cs = tl s; hex = takeWhile (\<lambda>c. hexNibble c \<noteq> None) cs in
        if hex = [] \<or> odd (length hex) then Inl e
        else Inr ((None, Some hex), drop (length hex) cs)
      else bindR (dn_value e True False [] [] s) (\<lambda>(v, r). Inr ((Some v, None), r)))"

lemma flushPending_ok: "flushPending e v [] = Inr v"
  by (simp add: flushPending_def)

lemma dn_value_length: "dn_value e a l v p s = Inr (w, r) \<Longrightarrow> length r \<le> length s"
proof (induction s arbitrary: a l v p rule: length_induct)
  case (1 s)
  have IH: "\<And>t a l v p. length t < length s \<Longrightarrow> dn_value e a l v p t = Inr (w, r) \<Longrightarrow> length r \<le> length s"
    using 1(1) by (metis less_imp_le order_trans)
  show ?case
  proof (cases s)
    case Nil
    then show ?thesis using 1(2) by (auto simp: dn_value.simps[of _ _ _ _ _ "[]"] bindR_eq_Inr split: if_splits)
  next
    case (Cons c cs)
    show ?thesis
    proof (rule ccontr)
      assume big: "\<not> length r \<le> length s"
      then have no: "dn_value e a l v p t \<noteq> Inr (w, r)" if "length t < length s" for t a l v p
        using IH that by blast
      from 1(2) big show False
        by (subst (asm) dn_value.simps)
          (auto simp: bindR_eq_Inr no Cons split: list.splits if_splits option.splits)
    qed
  qed
qed

lemma dn_component_length: "dn_component e s = Inr (vh, r) \<Longrightarrow> length r \<le> length s"
  unfolding dn_component_def
  by (auto simp: res_simps Let_def split: if_splits dest!: dn_value_length)

record dn_atv =
  dt_type :: jsstr
  dt_value :: "jsstr option"
  dt_hex :: "jsstr option"

text \<open>The component loop of \<open>parseDnString\<close>: what follows \<open>rdns\<close> and the open relative name \<open>atvs\<close>.\<close>

function dn_parse :: "err \<Rightarrow> dn_atv list list \<Rightarrow> dn_atv list \<Rightarrow> jsstr \<Rightarrow> dn_atv list list res" where
  "dn_parse e rdns atvs s =
     (let run = type_run s in
      if run = [] then Inl e
      else case drop (length run) s of
        [] \<Rightarrow> Inl e
      | c # cs \<Rightarrow>
          if c \<noteq> 0x3d then Inl e
          else case dn_component e cs of
            Inl err \<Rightarrow> Inl err
          | Inr ((v, h), r) \<Rightarrow>
              let atvs = atvs @ [\<lparr>dt_type = run, dt_value = v, dt_hex = h\<rparr>] in
              case r of
                [] \<Rightarrow> Inr (rdns @ [atvs])
              | sep # r1 \<Rightarrow>
                  if sep \<noteq> 0x2c \<and> sep \<noteq> 0x2b then Inl e
                  else if sep = 0x2b then (if r1 = [] then Inl e else dn_parse e rdns atvs r1)
                  else if r1 = [] then Inl e
                  else let r2 = dropWhile (\<lambda>c. c = 0x20) r1 in
                       if r2 = [] then Inl e else dn_parse e (rdns @ [atvs]) [] r2)"
  by pat_completeness auto

lemma type_run_prefix: "length (type_run s) \<le> length s"
  by (auto simp: type_run_def length_takeWhile_le split: list.split)

lemma dn_parse_step:
  assumes "drop (length (type_run s)) s = c # cs" "dn_component e cs = Inr b" "(vh, sep # r) = b"
  shows "length r < length s"
proof -
  have "length (c # cs) \<le> length s" unfolding assms(1) [symmetric] by simp
  then show ?thesis using dn_component_length[of e cs vh "sep # r"] assms(2,3) by simp
qed

termination dn_parse
proof (relation "measure (\<lambda>(e, rdns, atvs, s). length s)", goal_cases)
  case 1 then show ?case by simp
next
  case (2 e rdns atvs s)
  then show ?case by (auto dest: dn_parse_step)
next
  case (3 e rdns atvs s)
  then show ?case
    by (auto dest!: dn_parse_step intro: le_less_trans[OF length_dropWhile_le])
qed

declare dn_parse.simps [simp del]

definition parseDnString :: "err \<Rightarrow> jsstr \<Rightarrow> dn_atv list list res" where
  "parseDnString e str = (if str = [] then Inr [] else dn_parse e [] [] str)"

end
