(* ===== verification/Host_Names.thy ===== *)
theory Host_Names
  imports Dist_Names
begin

text \<open>
  lib/guard-name.js: host names, mailboxes and URIs, and the rule each form of GeneralName is compared
  by.  A value that is not a string or not a buffer answers \<open>NotComparable\<close> where the code does.
\<close>

section \<open>ASCII text\<close>

definition isAsciiText :: "jsstr \<Rightarrow> bool" where
  "isAsciiText s \<longleftrightarrow> list_all (\<lambda>c. \<not> c > 0x7f) s"

definition asciiHost :: "jsstr \<Rightarrow> bool" where
  "asciiHost h \<longleftrightarrow> length h > 0 \<and> isAsciiText h"

definition lowerAscii :: "jsstr \<Rightarrow> jsstr" where
  "lowerAscii s = map (\<lambda>c. if 0x41 \<le> c \<and> c \<le> 0x5a then c + 32 else c) s"

text \<open>\<open>charCodeAt\<close>: \<open>NaN\<close> past the end, which equals nothing.\<close>

definition char_is :: "jsstr \<Rightarrow> nat \<Rightarrow> nat \<Rightarrow> bool" where
  "char_is s i c \<longleftrightarrow> i < length s \<and> s ! i = c"

definition stripTrailingDot :: "jsstr \<Rightarrow> jsstr" where
  "stripTrailingDot s = (if s \<noteq> [] \<and> last s = 0x2e then butlast s else s)"

definition uriSchemeIs :: "jsstr \<Rightarrow> jsstr \<Rightarrow> bool" where
  "uriSchemeIs s scheme =
     (if length s \<le> length scheme then False
      else if s ! length scheme \<noteq> 0x3a then False
      else lowerAscii (take (length scheme) s) = scheme)"

section \<open>Host names\<close>

definition LDH_ALNUM :: "nat \<Rightarrow> bool" where
  "LDH_ALNUM c \<longleftrightarrow> isAttrTypeStart c \<or> isDigitCode c"

definition MAX_LABEL :: nat where "MAX_LABEL = 63"
definition MAX_HOST :: nat where "MAX_HOST = 253"
definition MAX_LOCAL_PART :: nat where "MAX_LOCAL_PART = 64"

definition isHostLabel :: "jsstr \<Rightarrow> bool" where
  "isHostLabel s =
     (if length s = 0 \<or> length s > MAX_LABEL then False
      else if \<not> LDH_ALNUM (hd s) \<or> \<not> LDH_ALNUM (last s) then False
      else list_all (\<lambda>c. LDH_ALNUM c \<or> c = 0x2d) (slice s 1 (length s - 1)))"

definition hostLabels :: "jsstr \<Rightarrow> jsstr list" where
  "hostLabels s = split_char 0x2e s"

definition isHostName :: "jsstr \<Rightarrow> bool" where
  "isHostName s = (if length s = 0 \<or> length s > MAX_HOST then False else list_all isHostLabel (hostLabels s))"

definition isHostNameChar :: "nat \<Rightarrow> bool" where
  "isHostNameChar c \<longleftrightarrow> LDH_ALNUM c \<or> c = 0x2d \<or> c = 0x2e \<or> c = 0x5f"

definition isFqdnHost :: "jsstr \<Rightarrow> bool" where
  "isFqdnHost host = (let h = stripTrailingDot host in isHostName h \<and> \<not> endsInANumber h)"

definition isAlnumLower :: "nat \<Rightarrow> bool" where
  "isAlnumLower c \<longleftrightarrow> (0x61 \<le> c \<and> c \<le> 0x7a) \<or> (0x30 \<le> c \<and> c \<le> 0x39)"

function xn_groups :: "jsstr \<Rightarrow> bool" where
  "xn_groups s =
     (if takeWhile isAlnumLower s = [] then False
      else case dropWhile isAlnumLower s of
        [] \<Rightarrow> True
      | c # cs \<Rightarrow> if c \<noteq> 0x2d then False else xn_groups cs)"
  by pat_completeness auto

lemma dropWhile_Cons_length: "dropWhile P s = c # cs \<Longrightarrow> length cs < length s"
  by (metis Suc_le_eq length_Cons length_dropWhile_le)

termination xn_groups by (relation "measure length") (auto dest: dropWhile_Cons_length)

declare xn_groups.simps [simp del]

definition isXnLabel :: "jsstr \<Rightarrow> bool" where
  "isXnLabel l \<longleftrightarrow> length l \<ge> 4 \<and> take 4 l = [0x78, 0x6e, 0x2d, 0x2d] \<and> xn_groups (drop 4 l)"

section \<open>URIs\<close>

definition isSchemeChar :: "nat \<Rightarrow> bool" where
  "isSchemeChar c \<longleftrightarrow> LDH_ALNUM c \<or> c = 0x2b \<or> c = 0x2e \<or> c = 0x2d"

record uri_parts =
  up_scheme :: jsstr
  up_hasAuthority :: bool
  up_host :: "jsstr option"
  up_bracketed :: bool
  up_authStart :: nat
  up_authEnd :: nat

definition digit_tail :: "jsstr \<Rightarrow> nat" where
  "digit_tail s = length s - length (takeWhile isDigitCode (rev s))"

definition portStripIndex :: "jsstr \<Rightarrow> nat" where
  "portStripIndex s = (let i = digit_tail s in if i > 0 \<and> s ! (i - 1) = 0x3a then i - 1 else length s)"

definition auth_stop :: "nat \<Rightarrow> bool" where
  "auth_stop d \<longleftrightarrow> d = 0x2f \<or> d = 0x3f \<or> d = 0x23"

definition count_char :: "nat \<Rightarrow> jsstr \<Rightarrow> nat" where
  "count_char c s = length (filter (\<lambda>x. x = c) s)"

text \<open>The slice after the first \<open>c\<close>, for \<open>indexOf\<close>.\<close>

definition after_first :: "nat \<Rightarrow> jsstr \<Rightarrow> jsstr" where
  "after_first c s = tl (dropWhile (\<lambda>x. x \<noteq> c) s)"

definition uriParts :: "jsstr \<Rightarrow> uri_parts option" where
  "uriParts uri =
     (if uri = [] \<or> \<not> isAttrTypeStart (hd uri) then None
      else let p = 1 + length (takeWhile isSchemeChar (tl uri)) in
        if \<not> char_is uri p 0x3a then None
        else let scheme = take p uri in
          if \<not> char_is uri (p + 1) 0x2f \<or> \<not> char_is uri (p + 2) 0x2f
          then Some \<lparr>up_scheme = scheme, up_hasAuthority = False, up_host = None, up_bracketed = False,
                     up_authStart = p + 1, up_authEnd = p + 1\<rparr>
          else let authStart = p + 3;
                   auth = takeWhile (\<lambda>d. \<not> auth_stop d) (drop authStart uri);
                   authEnd = authStart + length auth in
            if count_char 0x40 auth > 1 then None
            else let authority = (if 0x40 \<in> set auth then after_first 0x40 auth else auth);
                     host = take (portStripIndex authority) authority;
                     parts = (\<lambda>h b. Some \<lparr>up_scheme = scheme, up_hasAuthority = True, up_host = h, up_bracketed = b,
                                        up_authStart = authStart, up_authEnd = authEnd\<rparr>)
              in if host = [] then parts None False
                 else if length host \<ge> 2 \<and> hd host = 0x5b \<and> last host = 0x5d
                 then parts (Some (slice host 1 (length host - 1))) True
                 else parts (Some host) False)"

definition isUnreserved :: "nat \<Rightarrow> bool" where
  "isUnreserved c \<longleftrightarrow> LDH_ALNUM c \<or> c = 0x2d \<or> c = 0x2e \<or> c = 0x5f \<or> c = 0x7e"

fun pctNormalize :: "jsstr \<Rightarrow> jsstr" where
  "pctNormalize (c # a # b # cs) =
     (if c \<noteq> 0x25 then c # pctNormalize (a # b # cs)
      else case (hexNibble a, hexNibble b) of
        (Some hi, Some lo) \<Rightarrow>
          let v = hi * 16 + lo in
          (if isUnreserved v then [v] else [0x25, upper_hex_char hi, upper_hex_char lo]) @ pctNormalize cs
      | _ \<Rightarrow> c # pctNormalize (a # b # cs))"
| "pctNormalize s = s"

text \<open>\<open>_removeDotSegments\<close>: the segments kept so far and the rest of the path.\<close>

function remove_segments :: "jsstr list \<Rightarrow> jsstr \<Rightarrow> jsstr list" where
  "remove_segments kept path =
     (if path = [] then kept
      else let lead = (hd path = 0x2f);
               p = (if lead then tl path else path);
               seg = takeWhile (\<lambda>c. c \<noteq> 0x2f) p;
               rest = drop (length seg) p in
        if seg = [0x2e] \<or> seg = [0x2e, 0x2e] then
          if \<not> lead then remove_segments kept (drop 1 rest)
          else let kept = (if seg = [0x2e, 0x2e] \<and> kept \<noteq> [] then butlast kept else kept);
                   kept = (if rest = [] then kept @ [[0x2f]] else kept) in
               remove_segments kept rest
        else remove_segments (kept @ [if lead then 0x2f # seg else seg]) rest)"
  by pat_completeness auto

lemma segment_step:
  assumes "path \<noteq> []"
  shows "length (if hd path = 0x2f then tl path else path)
      - length (takeWhile (\<lambda>c. c \<noteq> 0x2f) (if hd path = 0x2f then tl path else path)) < length path"
  using assms by (cases path) (auto split: if_splits)

termination remove_segments
  by (relation "measure (\<lambda>(kept, path). length path)") (auto simp: Let_def neq_Nil_conv split: if_splits)

declare remove_segments.simps [simp del]

definition removeDotSegments :: "jsstr \<Rightarrow> jsstr" where
  "removeDotSegments path = concat (remove_segments [] path)"

definition scheme_default_port :: "jsstr \<Rightarrow> jsstr option" where
  "scheme_default_port s =
     (if s = js_lit ''http'' then Some (js_lit ''80'') else if s = js_lit ''https'' then Some (js_lit ''443'')
      else if s = js_lit ''ftp'' then Some (js_lit ''21'') else if s = js_lit ''ldap'' then Some (js_lit ''389'')
      else None)"

fun dropLeadingZeros :: "jsstr \<Rightarrow> jsstr" where
  "dropLeadingZeros (c # d # ds) = (if c = 0x30 then dropLeadingZeros (d # ds) else c # d # ds)"
| "dropLeadingZeros s = s"

definition uriPrepare :: "jsstr \<Rightarrow> jsstr option" where
  "uriPrepare uri = (case uriParts uri of
      None \<Rightarrow> None
    | Some p \<Rightarrow>
        let scheme = lowerAscii (up_scheme p);
            rest = pctNormalize (drop (up_authEnd p) uri);
            authority =
              (if \<not> up_hasAuthority p then []
               else let auth = slice uri (up_authStart p) (up_authEnd p);
                        hostPort = (if 0x40 \<in> set auth then after_last 0x40 auth else auth);
                        userinfo = (if 0x40 \<in> set auth
                                    then pctNormalize (take (length auth - length hostPort) auth) else []);
                        cut = portStripIndex hostPort;
                        host = pctNormalize (lowerAscii (take cut hostPort));
                        port = drop cut hostPort;
                        port = (if scheme_default_port scheme \<noteq> None \<and>
                                   (port = [0x3a] \<or> Some (dropLeadingZeros (drop 1 port)) = scheme_default_port scheme)
                                then [] else port)
                    in [0x2f, 0x2f] @ userinfo @ host @ port);
            head = takeWhile (\<lambda>c. c \<noteq> 0x3f \<and> c \<noteq> 0x23) rest;
            path = removeDotSegments head;
            path = (if path = [] \<and> up_hasAuthority p \<and> scheme_default_port scheme \<noteq> None then [0x2f] else path)
        in Some (scheme @ [0x3a] @ authority @ path @ drop (length head) rest))"

section \<open>Comparing names\<close>

datatype verdict = Match | NoMatch | NotComparable

definition verdict_of :: "bool \<Rightarrow> verdict" where
  "verdict_of b = (if b then Match else NoMatch)"

definition uriEqual :: "js \<Rightarrow> js \<Rightarrow> verdict" where
  "uriEqual a b = (case (a, b) of
      (Str x, Str y) \<Rightarrow>
        (case (uriPrepare x, uriPrepare y) of
           (Some pa, Some pb) \<Rightarrow> verdict_of (pa = pb)
         | _ \<Rightarrow> NotComparable)
    | _ \<Rightarrow> NotComparable)"

definition dnsNameEqual :: "js \<Rightarrow> js \<Rightarrow> verdict" where
  "dnsNameEqual a b = (case (a, b) of
      (Str x, Str y) \<Rightarrow>
        if \<not> asciiHost x \<or> \<not> asciiHost y then NotComparable else verdict_of (lowerAscii x = lowerAscii y)
    | _ \<Rightarrow> NotComparable)"

definition emailEqual :: "js \<Rightarrow> js \<Rightarrow> verdict" where
  "emailEqual a b = (case (a, b) of
      (Str x, Str y) \<Rightarrow>
        if 0x40 \<notin> set x \<or> 0x40 \<notin> set y then NotComparable
        else let aLocal = before_last 0x40 x; bLocal = before_last 0x40 y;
                 aHost = after_last 0x40 x; bHost = after_last 0x40 y in
          if aLocal = [] \<or> bLocal = [] \<or> aHost = [] \<or> bHost = [] then NotComparable
          else if \<not> asciiHost aHost \<or> \<not> asciiHost bHost then NotComparable
          else if aLocal \<noteq> bLocal then NoMatch
          else verdict_of (lowerAscii aHost = lowerAscii bHost)
    | _ \<Rightarrow> NotComparable)"

text \<open>A decoded GeneralName: its context tag, its value in the form of that tag and its encoded bytes.\<close>

datatype gn_value = GnText js | GnBytes bytes | GnDir dn | GnOther jsstr bytes | GnNone

record general_name =
  gn_tag :: nat
  gn_val :: gn_value
  gn_bytes :: "bytes option"

definition gn_js :: "gn_value \<Rightarrow> js" where
  "gn_js v = (case v of GnText t \<Rightarrow> t | _ \<Rightarrow> Undef)"

definition opt_bytes_equal :: "bytes option \<Rightarrow> bytes option \<Rightarrow> verdict" where
  "opt_bytes_equal a b = (case (a, b) of (Some x, Some y) \<Rightarrow> verdict_of (x = y) | _ \<Rightarrow> NotComparable)"

definition gn_octets :: "gn_value \<Rightarrow> bytes option" where
  "gn_octets v = (case v of GnBytes b \<Rightarrow> Some b | _ \<Rightarrow> None)"

definition generalNameEqual :: "(jsstr \<Rightarrow> jsstr) \<Rightarrow> err \<Rightarrow> general_name \<Rightarrow> general_name \<Rightarrow> verdict res" where
  "generalNameEqual lc e a b =
     (if gn_tag a \<noteq> gn_tag b then Inr NoMatch
      else if gn_tag a = 1 then Inr (emailEqual (gn_js (gn_val a)) (gn_js (gn_val b)))
      else if gn_tag a = 2 then Inr (dnsNameEqual (gn_js (gn_val a)) (gn_js (gn_val b)))
      else if gn_tag a = 4 then
        (case (gn_val a, gn_val b) of
           (GnDir ra, GnDir rb) \<Rightarrow> bindR (dnEqual lc e ra rb) (\<lambda>s. Inr (verdict_of s))
         | _ \<Rightarrow> Inr NotComparable)
      else if gn_tag a = 6 then Inr (uriEqual (gn_js (gn_val a)) (gn_js (gn_val b)))
      else if gn_tag a = 7 then Inr (opt_bytes_equal (gn_octets (gn_val a)) (gn_octets (gn_val b)))
      else if gn_tag a = 8 then
        (case (gn_js (gn_val a), gn_js (gn_val b)) of
           (Str x, Str y) \<Rightarrow> Inr (verdict_of (x = y)) | _ \<Rightarrow> Inr NotComparable)
      else Inr (opt_bytes_equal (gn_bytes a) (gn_bytes b)))"

section \<open>Mailboxes and the bases of name constraints\<close>

definition ATEXT :: "nat \<Rightarrow> bool" where
  "ATEXT c \<longleftrightarrow> LDH_ALNUM c \<or> c \<in> set (js_lit ''!#$%&'' @ [39] @ js_lit ''*+-/=?^_`{|}~'')"

fun quoted_body :: "jsstr \<Rightarrow> bool" where
  "quoted_body [] = True"
| "quoted_body (c # cs) =
     (if c = 0x5c then
        (case cs of [] \<Rightarrow> False | e # r \<Rightarrow> if e < 0x20 \<or> e > 0x7e then False else quoted_body r)
      else if c < 0x20 \<or> c > 0x7e \<or> c = 0x22 then False else quoted_body cs)"

definition isQuotedLocal :: "jsstr \<Rightarrow> bool" where
  "isQuotedLocal s = (if length s < 2 \<or> last s \<noteq> 0x22 then False else quoted_body (slice s 1 (length s - 1)))"

fun atom_scan :: "nat \<Rightarrow> jsstr \<Rightarrow> bool" where
  "atom_scan pieceLen [] \<longleftrightarrow> pieceLen > 0"
| "atom_scan pieceLen (c # cs) =
     (if c = 0x2e then (if pieceLen = 0 then False else atom_scan 0 cs)
      else if \<not> ATEXT c then False else atom_scan (pieceLen + 1) cs)"

definition isMailboxLocal :: "jsstr \<Rightarrow> bool" where
  "isMailboxLocal s =
     (if length s = 0 \<or> length s > MAX_LOCAL_PART then False
      else if hd s = 0x22 then isQuotedLocal s else atom_scan 0 s)"

definition isAddressLiteral :: "(jsstr \<Rightarrow> jsstr) \<Rightarrow> jsstr \<Rightarrow> bool" where
  "isAddressLiteral lc s =
     (if length s < 3 \<or> hd s \<noteq> 0x5b \<or> last s \<noteq> 0x5d then False
      else let inner = slice s 1 (length s - 1) in
        if lc (take 5 inner) = js_lit ''ipv6:'' then expandIpv6Hex (drop 5 inner) \<noteq> None else isIPv4 inner)"

datatype mailbox = NoSeparator | Ambiguous | Mailbox jsstr jsstr

definition splitMailbox :: "jsstr \<Rightarrow> mailbox" where
  "splitMailbox addr =
     (if 0x40 \<notin> set addr then NoSeparator
      else if count_char 0x40 addr > 1 then Ambiguous
      else Mailbox (takeWhile (\<lambda>c. c \<noteq> 0x40) addr) (after_first 0x40 addr))"

definition hostConstraintBody :: "jsstr \<Rightarrow> jsstr" where
  "hostConstraintBody s = (let h = stripTrailingDot s in if h \<noteq> [] \<and> hd h = 0x2e then tl h else h)"

fun has_dots :: "jsstr \<Rightarrow> bool" where
  "has_dots (a # b # cs) = ((a = 0x2e \<and> b = 0x2e) \<or> has_dots (b # cs))"
| "has_dots _ = False"

definition hasEmptyLabel :: "jsstr \<Rightarrow> bool" where
  "hasEmptyLabel s = (if length s = 0 then True else if hd s = 0x2e \<or> last s = 0x2e then True else has_dots s)"

definition constraintBaseUnreadable :: "nat \<Rightarrow> js \<Rightarrow> bool" where
  "constraintBaseUnreadable tag base = (case base of
      Str s \<Rightarrow>
        if tag = 1 \<and> 0x40 \<in> set s then
          (case splitMailbox s of
             Mailbox l d \<Rightarrow> if \<not> isMailboxLocal l then True else hasEmptyLabel (stripTrailingDot d)
           | _ \<Rightarrow> True)
        else let body = stripTrailingDot s in
          if body = [] then tag \<noteq> 2
          else let body = (if hd body = 0x2e then tl body else body) in hasEmptyLabel body
    | _ \<Rightarrow> True)"

datatype base_refusal = NotAString | NotMailboxForm | TwoAtSigns | NoLocalPart | NoMailboxHost | NotAHost
  | AnAddress | NotADomain

definition constraintBaseRefusal :: "(jsstr \<Rightarrow> jsstr) \<Rightarrow> nat \<Rightarrow> js \<Rightarrow> base_refusal option" where
  "constraintBaseRefusal lc tag base = (case base of
      Str s \<Rightarrow>
        if tag = 1 then
          (case splitMailbox s of
             NoSeparator \<Rightarrow>
               if isAddressLiteral lc s then None
               else if isHostName (hostConstraintBody s) then None else Some NotMailboxForm
           | Ambiguous \<Rightarrow> Some TwoAtSigns
           | Mailbox l d \<Rightarrow>
               if \<not> isMailboxLocal l then Some NoLocalPart
               else if isAddressLiteral lc d then None
               else if isHostName (stripTrailingDot d) then None else Some NoMailboxHost)
        else if tag = 2 then (if isHostName (hostConstraintBody s) then None else Some NotAHost)
        else if tag = 6 then
          let b = lc s; uriBody = (if b \<noteq> [] \<and> hd b = 0x2e then tl b else b) in
          if isFqdnHost uriBody then None else if endsInANumber uriBody then Some AnAddress else Some NotADomain
        else None
    | _ \<Rightarrow> Some NotAString)"

end
