(* ===== verification/Path_Names.thy ===== *)
theory Path_Names
  imports Host_Names Guard_List
begin

text \<open>
  lib/path-validate.js, the name constraints of a certification path (RFC 5280 section 4.2.1.10): how
  one name meets the base of one subtree, which names a certificate presents, and the two questions
  \<open>checkNameConstraints\<close> asks of them.  A name or base is a \<open>gn_value\<close> in the form its context tag
  decodes to; a value of another form is one the code reads a property of \<open>null\<close> on, a TypeError.
\<close>

section \<open>One name against one base\<close>

datatype nmatch = OtherForm | Within | Outside | Unsupported

definition nmatch_of :: "bool \<Rightarrow> nmatch" where
  "nmatch_of b = (if b then Within else Outside)"

definition suffix_of :: "nat \<Rightarrow> jsstr \<Rightarrow> jsstr" where
  "suffix_of k s = drop (length s - k) s"

definition below :: "jsstr \<Rightarrow> jsstr \<Rightarrow> bool" where
  "below h c \<longleftrightarrow> length h > length c \<and> suffix_of (length c) h = c"

definition emailMatch :: "(jsstr \<Rightarrow> jsstr) \<Rightarrow> jsstr \<Rightarrow> jsstr \<Rightarrow> nmatch" where
  "emailMatch lc constraint mailbox =
     (case splitMailbox mailbox of
        Ambiguous \<Rightarrow> Unsupported
      | mb \<Rightarrow>
          if 0x40 \<in> set constraint then
            (case (splitMailbox constraint, mb) of
               (Mailbox cl cd, Mailbox ml md) \<Rightarrow>
                 (case emailEqual (Str (ml @ [0x40] @ stripTrailingDot md)) (Str (cl @ [0x40] @ stripTrailingDot cd)) of
                    Match \<Rightarrow> Within | NoMatch \<Rightarrow> Outside | NotComparable \<Rightarrow> Unsupported)
             | _ \<Rightarrow> Unsupported)
          else (case mb of
              Mailbox ml md \<Rightarrow>
                let host = stripTrailingDot (lc md); c = stripTrailingDot (lc constraint) in
                if host = [] then Unsupported
                else if char_is c 0 46 then nmatch_of (below host c)
                else nmatch_of (host = c)
            | _ \<Rightarrow> Unsupported))"

definition hostConstraintMatch :: "(jsstr \<Rightarrow> jsstr) \<Rightarrow> jsstr \<Rightarrow> jsstr \<Rightarrow> bool \<Rightarrow> bool" where
  "hostConstraintMatch lc constraint host reachIntoBase =
     (let c = stripTrailingDot (lc constraint); h = stripTrailingDot (lc host) in
      if c = [] then True
      else if char_is c 0 46 then below h c
      else if h = c \<or> (length h > length c \<and> suffix_of (length c + 1) h = 46 # c) then True
      else if reachIntoBase \<and> length h > 2 \<and> char_is h 0 42 \<and> char_is h 1 46 then
        let parent = drop 2 h in
        if length parent > 0 \<and> length c > length parent \<and> suffix_of (length parent + 1) c = 46 # parent
        then 46 \<notin> set (take (length c - length parent - 1) c)
        else False
      else False)"

definition uriHost :: "jsstr \<Rightarrow> jsstr option" where
  "uriHost uri = (case uriParts uri of
      None \<Rightarrow> None
    | Some p \<Rightarrow>
        if \<not> up_hasAuthority p then None
        else map_option (\<lambda>h. if up_bracketed p then [0x5b] @ h @ [0x5d] else h) (up_host p))"

definition uriMatch :: "(jsstr \<Rightarrow> jsstr) \<Rightarrow> jsstr \<Rightarrow> jsstr \<Rightarrow> nmatch" where
  "uriMatch lc constraint uri = (case uriHost uri of
      None \<Rightarrow> Unsupported
    | Some host \<Rightarrow>
        if \<not> isFqdnHost host then Unsupported
        else let c = stripTrailingDot (lc constraint); h = stripTrailingDot (lc host) in
          if \<not> isFqdnHost (if char_is c 0 46 then tl c else c) then Unsupported
          else if char_is c 0 46 then nmatch_of (below h c)
          else nmatch_of (h = c))"

fun masked_equal :: "bytes \<Rightarrow> bytes \<Rightarrow> bytes \<Rightarrow> bool" where
  "masked_equal (a # as) (b # bs) (m # ms) = ((if and a m \<noteq> and b m then False else masked_equal as bs ms))"
| "masked_equal _ _ _ = True"

definition ipMatch :: "bytes \<Rightarrow> bytes \<Rightarrow> bool" where
  "ipMatch constraint addr =
     (if 2 * length addr \<noteq> length constraint then False
      else masked_equal addr constraint (drop (length addr) constraint))"

fun rdns_prefix :: "(jsstr \<Rightarrow> jsstr) \<Rightarrow> dn \<Rightarrow> dn \<Rightarrow> bool res" where
  "rdns_prefix lc (n # ns) (c # cs) =
     bindR (rdnEqual lc (PathE Path_name_chaining) n c) (\<lambda>same. if same then rdns_prefix lc ns cs else Inr False)"
| "rdns_prefix lc _ _ = Inr True"

definition dnStartsWith :: "(jsstr \<Rightarrow> jsstr) \<Rightarrow> dn \<Rightarrow> dn \<Rightarrow> bool res" where
  "dnStartsWith lc nameDn constraintDn =
     (if length constraintDn > length nameDn then Inr False else rdns_prefix lc nameDn constraintDn)"

record subtree =
  st_tag :: nat
  st_base :: gn_value

definition nameMatchesConstraint :: "(jsstr \<Rightarrow> jsstr) \<Rightarrow> nat \<Rightarrow> gn_value \<Rightarrow> subtree \<Rightarrow> bool \<Rightarrow> nmatch res" where
  "nameMatchesConstraint lc gnTag gnValue base reachIntoBase =
     (if st_tag base \<noteq> gnTag then Inr OtherForm
      else if (gnTag = 1 \<or> gnTag = 2 \<or> gnTag = 6) \<and> constraintBaseUnreadable gnTag (gn_js (st_base base))
      then Inr Unsupported
      else if gnTag = 1 then
        (case (gn_js (st_base base), gn_js gnValue) of
           (Str c, Str v) \<Rightarrow> Inr (emailMatch lc c v) | _ \<Rightarrow> Inl TypeErr)
      else if gnTag = 2 then
        (case (gn_js (st_base base), gn_js gnValue) of
           (Str c, Str v) \<Rightarrow> Inr (nmatch_of (hostConstraintMatch lc c v reachIntoBase)) | _ \<Rightarrow> Inl TypeErr)
      else if gnTag = 6 then
        (case (gn_js (st_base base), gn_js gnValue) of
           (Str c, Str v) \<Rightarrow> Inr (uriMatch lc c v) | _ \<Rightarrow> Inr Unsupported)
      else if gnTag = 7 then
        (case (st_base base, gnValue) of
           (GnBytes c, GnBytes v) \<Rightarrow> Inr (nmatch_of (ipMatch c v)) | _ \<Rightarrow> Inl TypeErr)
      else if gnTag = 4 then
        (case (st_base base, gnValue) of
           (GnDir c, GnDir v) \<Rightarrow> bindR (dnStartsWith lc v c) (\<lambda>b. Inr (nmatch_of b)) | _ \<Rightarrow> Inl TypeErr)
      else Inr Unsupported)"

section \<open>Certificates\<close>

text \<open>What \<open>pki.schema.x509.parse\<close> hands the validator, as far as the validator reads it; instants are
  milliseconds.\<close>

record spki_info =
  sp_alg :: jsstr
  sp_params :: "bytes option"
  sp_key :: bytes
  sp_unused :: nat
  sp_bytes :: bytes

record ext_entry =
  x_oid :: jsstr
  x_critical :: bool
  x_value :: bytes

record cert =
  c_subject :: dn
  c_issuer :: dn
  c_notBefore :: int
  c_notAfter :: int
  c_spki :: spki_info
  c_exts :: "ext_entry list"
  c_tbs :: bytes
  c_sigAlg :: jsstr
  c_signature :: bytes

record basic_constraints =
  bc_cA :: bool
  bc_pathLen :: "nat option"

record key_usage =
  ku_digitalSignature :: bool
  ku_nonRepudiation :: bool
  ku_keyEncipherment :: bool
  ku_dataEncipherment :: bool
  ku_keyAgreement :: bool
  ku_keyCertSign :: bool
  ku_cRLSign :: bool
  ku_encipherOnly :: bool
  ku_decipherOnly :: bool
  ku_reserved :: bool

record name_constraints =
  nc_permitted :: "subtree list"
  nc_excluded :: "subtree list"

record policy_constraints =
  pc_requireExplicitPolicy :: "nat option"
  pc_inhibitPolicyMapping :: "nat option"

text \<open>\<open>EXT_DECODERS\<close> of lib/schema-pkix.js: one decoder for each extension the validator reads, and
  \<open>d_other\<close> for the decoders it only asks whether a critical value is well formed.\<close>

record decoders =
  d_basicConstraints :: "bytes \<Rightarrow> basic_constraints res"
  d_keyUsage :: "bytes \<Rightarrow> key_usage res"
  d_nameConstraints :: "bytes \<Rightarrow> name_constraints res"
  d_certificatePolicies :: "bytes \<Rightarrow> (jsstr \<times> bytes option) list res"
  d_policyMappings :: "bytes \<Rightarrow> (jsstr \<times> jsstr) list res"
  d_policyConstraints :: "bytes \<Rightarrow> policy_constraints res"
  d_inhibitAnyPolicy :: "bytes \<Rightarrow> nat res"
  d_subjectAltName :: "bytes \<Rightarrow> general_name list res"
  d_extKeyUsage :: "bytes \<Rightarrow> jsstr list res"
  d_tlsFeature :: "bytes \<Rightarrow> int list res"
  d_other :: "jsstr \<Rightarrow> (bytes \<Rightarrow> unit res) option"

definition oid_basicConstraints :: jsstr where "oid_basicConstraints = js_lit ''2.5.29.19''"
definition oid_keyUsage :: jsstr where "oid_keyUsage = js_lit ''2.5.29.15''"
definition oid_nameConstraints :: jsstr where "oid_nameConstraints = js_lit ''2.5.29.30''"
definition oid_certificatePolicies :: jsstr where "oid_certificatePolicies = js_lit ''2.5.29.32''"
definition oid_policyMappings :: jsstr where "oid_policyMappings = js_lit ''2.5.29.33''"
definition oid_policyConstraints :: jsstr where "oid_policyConstraints = js_lit ''2.5.29.36''"
definition oid_inhibitAnyPolicy :: jsstr where "oid_inhibitAnyPolicy = js_lit ''2.5.29.54''"
definition oid_subjectAltName :: jsstr where "oid_subjectAltName = js_lit ''2.5.29.17''"
definition oid_extKeyUsage :: jsstr where "oid_extKeyUsage = js_lit ''2.5.29.37''"
definition oid_anyExtendedKeyUsage :: jsstr where "oid_anyExtendedKeyUsage = js_lit ''2.5.29.37.0''"
definition oid_cRLDistributionPoints :: jsstr where "oid_cRLDistributionPoints = js_lit ''2.5.29.31''"
definition oid_tlsFeature :: jsstr where "oid_tlsFeature = js_lit ''1.3.6.1.5.5.7.1.24''"
definition oid_emailAddress :: jsstr where "oid_emailAddress = js_lit ''1.2.840.113549.1.9.1''"

definition findExt :: "cert \<Rightarrow> jsstr \<Rightarrow> ext_entry option" where
  "findExt cert extOid = firstMatch (c_exts cert) (\<lambda>x. x_oid x = extOid)"

text \<open>The criticality and the decoded value of an extension, \<open>None\<close> when it is absent.\<close>

definition decodeExt :: "cert \<Rightarrow> jsstr \<Rightarrow> (bytes \<Rightarrow> 'a res) \<Rightarrow> (bool \<times> 'a) option res" where
  "decodeExt cert extOid dec = (case findExt cert extOid of
      None \<Rightarrow> Inr None
    | Some x \<Rightarrow> bindR (dec (x_value x)) (\<lambda>v. Inr (Some (x_critical x, v))))"

section \<open>The names of a certificate\<close>

definition email_forms :: "rdn \<Rightarrow> (nat \<times> gn_value) list" where
  "email_forms rdn = concat (map (\<lambda>atv. case at_value atv of
      Str s \<Rightarrow> if at_type atv = oid_emailAddress then [(1, GnText (Str s))] else []
    | _ \<Rightarrow> []) rdn)"

definition certNameForms :: "decoders \<Rightarrow> cert \<Rightarrow> (nat \<times> gn_value) list res" where
  "certNameForms D cert =
     bindR (decodeExt cert oid_subjectAltName (d_subjectAltName D)) (\<lambda>san.
       let names = (case san of None \<Rightarrow> [] | Some (_, ns) \<Rightarrow> ns);
           forms = map (\<lambda>nm. (gn_tag nm, gn_val nm)) names;
           emails = (if list_ex (\<lambda>nm. gn_tag nm = 1) names then [] else concat (map email_forms (c_subject cert)));
           subject = (if length (c_subject cert) > 0 then [(4, GnDir (c_subject cert))] else [])
       in Inr (forms @ emails @ subject))"

section \<open>Excluded and permitted subtrees\<close>

text \<open>The inner loop over the names: the first name a subtree matches, or has no verdict on, refuses.\<close>

fun excluded_scan :: "(jsstr \<Rightarrow> jsstr) \<Rightarrow> subtree \<Rightarrow> (nat \<times> gn_value) list \<Rightarrow> err option res" where
  "excluded_scan lc ex [] = Inr None"
| "excluded_scan lc ex (f # fs) =
     bindR (nameMatchesConstraint lc (fst f) (snd f) ex True) (\<lambda>m.
       case m of
         Within \<Rightarrow> Inr (Some (PathE Path_name_constraint_excluded))
       | Unsupported \<Rightarrow> Inr (Some (PathE Path_name_constraint_unsupported))
       | _ \<Rightarrow> excluded_scan lc ex fs)"

fun excluded_check :: "(jsstr \<Rightarrow> jsstr) \<Rightarrow> subtree list \<Rightarrow> (nat \<times> gn_value) list \<Rightarrow> err option res" where
  "excluded_check lc [] forms = Inr None"
| "excluded_check lc (ex # exs) forms =
     bindR (excluded_scan lc ex forms) (\<lambda>r. case r of None \<Rightarrow> excluded_check lc exs forms | Some e \<Rightarrow> Inr (Some e))"

definition permitted_in :: "(jsstr \<Rightarrow> jsstr) \<Rightarrow> nat \<times> gn_value \<Rightarrow> subtree list \<Rightarrow> err option res" where
  "permitted_in lc nf generation =
     (let formSubtrees = filter (\<lambda>s. st_tag s = fst nf) generation in
      if formSubtrees = [] then Inr None
      else bindR (mapR (\<lambda>s. nameMatchesConstraint lc (fst nf) (snd nf) s False) formSubtrees) (\<lambda>rs.
        if Within \<in> set rs then Inr None
        else Inr (Some (PathE (if Unsupported \<in> set rs then Path_name_constraint_unsupported
                               else Path_name_constraint_not_permitted)))))"

fun permitted_scan :: "(jsstr \<Rightarrow> jsstr) \<Rightarrow> nat \<times> gn_value \<Rightarrow> subtree list list \<Rightarrow> err option res" where
  "permitted_scan lc nf [] = Inr None"
| "permitted_scan lc nf (g # gs) =
     bindR (permitted_in lc nf g) (\<lambda>r. case r of None \<Rightarrow> permitted_scan lc nf gs | Some e \<Rightarrow> Inr (Some e))"

fun permitted_check :: "(jsstr \<Rightarrow> jsstr) \<Rightarrow> (nat \<times> gn_value) list \<Rightarrow> subtree list list \<Rightarrow> err option res" where
  "permitted_check lc [] gens = Inr None"
| "permitted_check lc (nf # forms) gens =
     bindR (permitted_scan lc nf gens) (\<lambda>r. case r of None \<Rightarrow> permitted_check lc forms gens | Some e \<Rightarrow> Inr (Some e))"

definition check_names :: "(jsstr \<Rightarrow> jsstr) \<Rightarrow> subtree list \<Rightarrow> subtree list list \<Rightarrow> (nat \<times> gn_value) list \<Rightarrow> err option res" where
  "check_names lc excluded generations forms =
     bindR (excluded_check lc excluded forms) (\<lambda>r.
       case r of Some e \<Rightarrow> Inr (Some e) | None \<Rightarrow> permitted_check lc forms generations)"

text \<open>\<open>None\<close> is the verdict \<open>{ ok: true }\<close>, \<open>Some\<close> the code of a refusal, \<open>Inl\<close> a throw.\<close>

definition checkNameConstraints ::
  "(jsstr \<Rightarrow> jsstr) \<Rightarrow> decoders \<Rightarrow> subtree list \<Rightarrow> subtree list list \<Rightarrow> cert \<Rightarrow> err option res" where
  "checkNameConstraints lc D excluded generations cert =
     bindR (certNameForms D cert) (check_names lc excluded generations)"

definition absorbNameConstraints ::
  "name_constraints \<Rightarrow> subtree list \<times> subtree list list \<Rightarrow> subtree list \<times> subtree list list" where
  "absorbNameConstraints decoded st =
     (fst st @ nc_excluded decoded,
      if nc_permitted decoded \<noteq> [] then snd st @ [nc_permitted decoded] else snd st)"

definition isSubtreeBaseValid :: "(jsstr \<Rightarrow> jsstr) \<Rightarrow> subtree \<Rightarrow> bool" where
  "isSubtreeBaseValid lc s =
     (let tag = st_tag s; base = st_base s in
      if tag = 1 \<or> tag = 2 \<or> tag = 6 then constraintBaseRefusal lc tag (gn_js base) = None
      else if tag = 7 then (case base of GnBytes b \<Rightarrow> length b = 8 \<or> length b = 32 | _ \<Rightarrow> False)
      else if tag = 4 then (case base of GnDir _ \<Rightarrow> True | _ \<Rightarrow> False)
      else base \<noteq> GnText Undef)"

end
