(* ===== verification/Policy_Graph.thy ===== *)
theory Policy_Graph
  imports Guard_List Limits "HOL-Library.AList"
begin

text \<open>
  lib/path-validate.js, the valid-policy graph of RFC 9618: the nodes the certificate policies of a
  path build, one per depth and policy, and the operations that add, join, prune and map them.

  A node of the code is an object reached through \<open>state.policyIndex[depth][policy]\<close>, and its
  \<open>children\<close> and \<open>parents\<close> are references to such objects.  Here a node is reached by its key, the
  pair of its \<open>depth\<close> and \<open>validPolicy\<close>, and the references are keys: there is at most one node per key,
  and a node that is removed is unlinked from both sides, so no reference outlives it.  The index is an
  association list in insertion order, the order \<open>Object.keys\<close> enumerates a layer in.
\<close>

section \<open>State\<close>

type_synonym policy = jsstr
type_synonym pkey = "nat \<times> policy"

definition anyPolicy :: policy where
  "anyPolicy = js_lit ''2.5.29.32.0''"

record pnode =
  qualifierSet :: "bytes list"
  expectedPolicySet :: "policy list"
  children_of :: "pkey list"
  parents_of :: "pkey list"

record pgraph =
  policyIndex :: "(pkey \<times> pnode) list"
  policyNodeCount :: nat
  maxPolicyNodes :: nat
  capHit :: bool
  graph_present :: bool

definition root_key :: pkey where
  "root_key = (0, anyPolicy)"

definition graphRoot :: pnode where
  "graphRoot = \<lparr>qualifierSet = [], expectedPolicySet = [anyPolicy], children_of = [], parents_of = []\<rparr>"

text \<open>\<open>initialize\<close>: the root is indexed like any other node and counted.\<close>

definition graph_start :: "nat \<Rightarrow> pgraph" where
  "graph_start mx = \<lparr>policyIndex = [(root_key, graphRoot)], policyNodeCount = 1, maxPolicyNodes = mx,
     capHit = False, graph_present = True\<rparr>"

section \<open>Operations\<close>

definition nodeAt :: "pgraph \<Rightarrow> nat \<Rightarrow> policy \<Rightarrow> pnode option" where
  "nodeAt g d p = map_of (policyIndex g) (d, p)"

definition nodesAt :: "pgraph \<Rightarrow> nat \<Rightarrow> (pkey \<times> pnode) list" where
  "nodesAt g d = filter (\<lambda>x. fst (fst x) = d) (policyIndex g)"

text \<open>A write to a field of the node a key names.\<close>

definition modify :: "pkey \<Rightarrow> (pnode \<Rightarrow> pnode) \<Rightarrow> pgraph \<Rightarrow> pgraph" where
  "modify k f g = (case map_of (policyIndex g) k of
      None \<Rightarrow> g
    | Some n \<Rightarrow> g\<lparr>policyIndex := AList.update k (f n) (policyIndex g)\<rparr>)"

definition parents_at :: "pgraph \<Rightarrow> pkey \<Rightarrow> pkey list" where
  "parents_at g k = (case map_of (policyIndex g) k of None \<Rightarrow> [] | Some n \<Rightarrow> parents_of n)"

definition children_at :: "pgraph \<Rightarrow> pkey \<Rightarrow> pkey list" where
  "children_at g k = (case map_of (policyIndex g) k of None \<Rightarrow> [] | Some n \<Rightarrow> children_of n)"

text \<open>One pass of the loop that joins the parents.\<close>

definition join_parent :: "pkey \<Rightarrow> pkey \<Rightarrow> pgraph \<Rightarrow> pgraph" where
  "join_parent k pk g =
     (if pk \<in> set (parents_at g k) then g
      else modify pk (\<lambda>n. n\<lparr>children_of := children_of n @ [k]\<rparr>)
             (modify k (\<lambda>n. n\<lparr>parents_of := parents_of n @ [pk]\<rparr>) g))"

definition addPolicyNode :: "pgraph \<Rightarrow> nat \<Rightarrow> policy \<Rightarrow> bytes option \<Rightarrow> policy list \<Rightarrow> pkey list \<Rightarrow> pgraph" where
  "addPolicyNode g depth validPolicy qualifiers expected parents =
     (if parents = [] then g
      else case nodeAt g depth validPolicy of
        None \<Rightarrow>
          if policyNodeCount g \<ge> maxPolicyNodes g then g\<lparr>capHit := True\<rparr>
          else fold (join_parent (depth, validPolicy)) parents
            (g\<lparr>policyIndex := AList.update (depth, validPolicy)
                 \<lparr>qualifierSet = (case qualifiers of Some q \<Rightarrow> [q] | None \<Rightarrow> []), expectedPolicySet = expected,
                  children_of = [], parents_of = []\<rparr> (policyIndex g),
               policyNodeCount := policyNodeCount g + 1\<rparr>)
      | Some _ \<Rightarrow> fold (join_parent (depth, validPolicy)) parents g)"

definition removePolicyNode :: "pkey \<Rightarrow> pgraph \<Rightarrow> pgraph" where
  "removePolicyNode k g =
     (let g1 = fold (\<lambda>p. modify p (\<lambda>n. n\<lparr>children_of := remove1 k (children_of n)\<rparr>)) (parents_at g k) g;
          g2 = fold (\<lambda>c. modify c (\<lambda>n. n\<lparr>parents_of := remove1 k (parents_of n)\<rparr>)) (children_at g k) g1
      in g2\<lparr>policyIndex := AList.delete k (policyIndex g2), policyNodeCount := policyNodeCount g2 - 1\<rparr>)"

definition remove_childless :: "pkey \<Rightarrow> pgraph \<Rightarrow> pgraph" where
  "remove_childless k g = (if children_at g k = [] then removePolicyNode k g else g)"

primrec prunePolicyChildless :: "nat \<Rightarrow> pgraph \<Rightarrow> pgraph" where
  "prunePolicyChildless 0 g = g"
| "prunePolicyChildless (Suc d) g =
     prunePolicyChildless d (fold remove_childless (map fst (nodesAt g (Suc d))) g)"

definition graphIsEmpty :: "pgraph \<Rightarrow> bool" where
  "graphIsEmpty g \<longleftrightarrow> children_at g root_key = []"

definition null_if_empty :: "pgraph \<Rightarrow> pgraph" where
  "null_if_empty g = (if graphIsEmpty g then g\<lparr>graph_present := False\<rparr> else g)"

section \<open>The policies of one certificate\<close>

definition expecting :: "pgraph \<Rightarrow> nat \<Rightarrow> policy \<Rightarrow> pkey list" where
  "expecting g d p = map fst (filter (\<lambda>x. contains (expectedPolicySet (snd x)) p) (nodesAt g d))"

text \<open>RFC 9618 section 5.3 step (d)(1), for one policy of the certificate.\<close>

definition assert_policy :: "nat \<Rightarrow> policy \<times> bytes option \<Rightarrow> pgraph \<Rightarrow> pgraph" where
  "assert_policy i pq g =
     (case pq of (p, q) \<Rightarrow>
        if p = anyPolicy then g
        else let parents = expecting g (i - 1) p in
          if parents = [] then
            (case nodeAt g (i - 1) anyPolicy of
               None \<Rightarrow> g
             | Some _ \<Rightarrow> addPolicyNode g i p q [p] [(i - 1, anyPolicy)])
          else addPolicyNode g i p q [p] parents)"

text \<open>Step (d)(2): \<open>expected\<close> collects what the nodes above expect, each policy once.\<close>

definition collect :: "policy list \<Rightarrow> policy list \<Rightarrow> policy list" where
  "collect ps acc = fold (\<lambda>p acc. if p \<in> set acc then acc else acc @ [p]) ps acc"

definition expected_above :: "pgraph \<Rightarrow> nat \<Rightarrow> policy list" where
  "expected_above g d = fold (\<lambda>x acc. collect (expectedPolicySet (snd x)) acc) (nodesAt g d) []"

definition expand_policy :: "nat \<Rightarrow> bytes option \<Rightarrow> policy \<Rightarrow> pgraph \<Rightarrow> pgraph" where
  "expand_policy i q ep g =
     (case nodeAt g i ep of
        Some _ \<Rightarrow> g
      | None \<Rightarrow> addPolicyNode g i ep q [ep] (expecting g (i - 1) ep))"

definition any_qualifiers :: "(policy \<times> bytes option) list \<Rightarrow> bytes option" where
  "any_qualifiers policies = fold (\<lambda>(p, q) acc. if p = anyPolicy then q else acc) policies None"

text \<open>The graph part of \<open>processPolicies\<close>, for a certificate with the extension and a graph that is
  not null.\<close>

definition process_policies :: "nat \<Rightarrow> (policy \<times> bytes option) list \<Rightarrow> bool \<Rightarrow> pgraph \<Rightarrow> pgraph" where
  "process_policies i policies anyActive g =
     (let g1 = fold (assert_policy i) policies g;
          g2 = (if anyPolicy \<in> set (map fst policies) \<and> anyActive
                then fold (expand_policy i (any_qualifiers policies)) (expected_above g1 (i - 1)) g1 else g1)
      in if capHit g2 then g2 else null_if_empty (prunePolicyChildless (i - 1) g2))"

section \<open>Policy mappings\<close>

text \<open>\<open>mappedFrom\<close>: the subject policies of each issuer policy, in the order first met.\<close>

definition mapped_from :: "(policy \<times> policy) list \<Rightarrow> (policy \<times> policy list) list" where
  "mapped_from mappings = fold (\<lambda>(idp, sdp) m.
      if idp = anyPolicy \<or> sdp = anyPolicy then m
      else AList.update idp ((case map_of m idp of None \<Rightarrow> [] | Some xs \<Rightarrow> xs) @ [sdp]) m) mappings []"

definition map_policy :: "nat \<Rightarrow> policy \<times> policy list \<Rightarrow> pgraph \<Rightarrow> pgraph" where
  "map_policy i m g =
     (case m of (idp, sdps) \<Rightarrow>
        case nodeAt g i idp of
          Some _ \<Rightarrow> modify (i, idp) (\<lambda>n. n\<lparr>expectedPolicySet := sdps\<rparr>) g
        | None \<Rightarrow>
            (case nodeAt g i anyPolicy of
               None \<Rightarrow> g
             | Some anyHere \<Rightarrow>
                 (case nodeAt g (i - 1) anyPolicy of
                    None \<Rightarrow> g
                  | Some _ \<Rightarrow> addPolicyNode g i idp (firstMatch (qualifierSet anyHere) (\<lambda>_. True)) sdps
                      [(i - 1, anyPolicy)])))"

definition unmap_policy :: "nat \<Rightarrow> policy \<times> policy \<Rightarrow> pgraph \<times> bool \<Rightarrow> pgraph \<times> bool" where
  "unmap_policy i m gd =
     (case gd of (g, deleted) \<Rightarrow>
        if fst m = anyPolicy then (g, deleted)
        else case nodeAt g i (fst m) of
          None \<Rightarrow> (g, deleted)
        | Some _ \<Rightarrow> (removePolicyNode (i, fst m) g, True))"

definition applyPolicyMappings :: "nat \<Rightarrow> (policy \<times> policy) list \<Rightarrow> nat \<Rightarrow> pgraph \<Rightarrow> pgraph" where
  "applyPolicyMappings policyMapping mappings i g =
     (if policyMapping > 0 then fold (map_policy i) (mapped_from mappings) g
      else if \<not> graph_present g then g
      else case fold (unmap_policy i) mappings (g, False) of
        (g', deleted) \<Rightarrow> if deleted then null_if_empty (prunePolicyChildless (i - 1) g') else g')"

section \<open>The user-constrained policy set\<close>

definition note_policy :: "policy \<Rightarrow> policy list \<Rightarrow> policy list" where
  "note_policy p authority = (if p \<in> set authority then authority else authority @ [p])"

definition note_node :: "pkey \<times> pnode \<Rightarrow> policy list \<Rightarrow> policy list" where
  "note_node x authority =
     (case x of ((d, p), n) \<Rightarrow>
        if p = anyPolicy then authority
        else if length (parents_of n) = 1 \<and> snd (hd (parents_of n)) = anyPolicy then note_policy p authority
        else authority)"

definition authority_policies :: "pgraph \<Rightarrow> nat \<Rightarrow> policy list" where
  "authority_policies g n =
     (let a = fold (\<lambda>d. fold note_node (nodesAt g d)) [1..<n + 1] []
      in case nodeAt g n anyPolicy of None \<Rightarrow> a | Some _ \<Rightarrow> note_policy anyPolicy a)"

definition userConstrainedPolicies :: "pgraph \<Rightarrow> nat \<Rightarrow> policy list \<Rightarrow> policy list" where
  "userConstrainedPolicies g n uips =
     (if \<not> graph_present g then []
      else let authority = authority_policies g n in
        if contains uips anyPolicy then authority
        else let out = filter (contains uips) authority in
          if contains authority anyPolicy then fold note_policy uips out else out)"

end
