(* ===== verification/Path_State.thy ===== *)
theory Path_State
  imports Path_Names Policy_Graph Asn1_Build
begin

text \<open>
  lib/path-validate.js, the state of one validation and the steps that read or change it: the key-usage
  rules of particular key types, the strength of the issuer's key, the working key, the preparation for
  the next certificate and the wrap-up of the last one.  A step that appends a failing row to
  \<open>results[i].checks\<close> and stops returns \<open>fatal\<close>, as the code's \<open>{ fatal: true }\<close>.
\<close>

section \<open>Key usage\<close>

text \<open>\<open>None\<close> is \<open>{ ok: true }\<close>; \<open>Some\<close> is the refusal's code.\<close>

definition keyUsage_of :: "decoders \<Rightarrow> cert \<Rightarrow> (bool \<times> key_usage) option res" where
  "keyUsage_of D cert = decodeExt cert oid_keyUsage (d_keyUsage D)"

definition compositeKeyUsageCheck :: "decoders \<Rightarrow> cert \<Rightarrow> err option" where
  "compositeKeyUsageCheck D cert = (case keyUsage_of D cert of
      Inl _ \<Rightarrow> Some (PathE Path_composite_key_usage)
    | Inr None \<Rightarrow> None
    | Inr (Some (_, v)) \<Rightarrow>
        if ku_keyEncipherment v \<or> ku_dataEncipherment v \<or> ku_keyAgreement v \<or> ku_encipherOnly v \<or> ku_decipherOnly v
        then Some (PathE Path_composite_key_usage)
        else if \<not> (ku_digitalSignature v \<or> ku_nonRepudiation v \<or> ku_keyCertSign v \<or> ku_cRLSign v)
        then Some (PathE Path_composite_key_usage)
        else None)"

definition STATEFUL_HBS_OIDS :: "jsstr list" where
  "STATEFUL_HBS_OIDS = [js_lit ''1.2.840.113549.1.9.16.3.17'', js_lit ''1.3.6.1.5.5.7.6.34'', js_lit ''1.3.6.1.5.5.7.6.35'']"

definition ML_KEM_OIDS :: "jsstr list" where
  "ML_KEM_OIDS = [js_lit ''2.16.840.1.101.3.4.4.1'', js_lit ''2.16.840.1.101.3.4.4.2'', js_lit ''2.16.840.1.101.3.4.4.3'']"

definition isCaCert :: "decoders \<Rightarrow> cert \<Rightarrow> bool" where
  "isCaCert D cert = (case decodeExt cert oid_basicConstraints (d_basicConstraints D) of
      Inr (Some (_, bc)) \<Rightarrow> bc_cA bc | _ \<Rightarrow> False)"

definition statefulHbsKeyUsageCheck :: "decoders \<Rightarrow> cert \<Rightarrow> bool \<Rightarrow> err option" where
  "statefulHbsKeyUsageCheck D cert isCa = (case keyUsage_of D cert of
      Inl _ \<Rightarrow> Some (PathE Path_hbs_key_usage)
    | Inr None \<Rightarrow> None
    | Inr (Some (_, v)) \<Rightarrow>
        if \<not> (ku_digitalSignature v \<or> ku_nonRepudiation v \<or> ku_cRLSign v \<or> ku_keyCertSign v)
        then Some (PathE Path_hbs_key_usage)
        else if ku_keyEncipherment v \<or> ku_dataEncipherment v \<or> ku_keyAgreement v \<or> ku_encipherOnly v \<or>
                ku_decipherOnly v \<or> (\<not> isCa \<and> ku_keyCertSign v) \<or> ku_reserved v
        then Some (PathE Path_hbs_key_usage)
        else None)"

definition kemKeyUsageCheck :: "decoders \<Rightarrow> cert \<Rightarrow> err option" where
  "kemKeyUsageCheck D cert = (case keyUsage_of D cert of
      Inl _ \<Rightarrow> Some (PathE Path_kem_key_usage)
    | Inr None \<Rightarrow> None
    | Inr (Some (_, v)) \<Rightarrow>
        let others = ku_digitalSignature v \<or> ku_nonRepudiation v \<or> ku_dataEncipherment v \<or> ku_keyAgreement v \<or>
          ku_keyCertSign v \<or> ku_cRLSign v \<or> ku_encipherOnly v \<or> ku_decipherOnly v \<or> ku_reserved v
        in if \<not> ku_keyEncipherment v \<or> others then Some (PathE Path_kem_key_usage) else None)"

text \<open>The code a \<open>path/*\<close> or crypto-engine error keeps, and the fallback of any other throw.\<close>

definition pathCode :: "err \<Rightarrow> path_code \<Rightarrow> err" where
  "pathCode e fallback = (case e of
      PathE c \<Rightarrow> PathE c
    | WebcryptoE w \<Rightarrow> if w = Webcrypto_not_supported \<or> w = Webcrypto_data
        then PathE Path_unsupported_algorithm else PathE fallback
    | _ \<Rightarrow> PathE fallback)"

text \<open>\<open>None\<close>: nothing to check; \<open>Some\<close> a row's verdict.\<close>

definition tlsFeatureChainCheck :: "decoders \<Rightarrow> cert option \<Rightarrow> cert \<Rightarrow> err option option" where
  "tlsFeatureChainCheck D issuerCert cert = (case issuerCert of
      None \<Rightarrow> None
    | Some issuer \<Rightarrow>
        (case keyUsage_of D issuer of
           Inr (Some (_, ku)) \<Rightarrow>
             if \<not> ku_keyCertSign ku then None
             else (case decodeExt issuer oid_tlsFeature (d_tlsFeature D) of
                 Inl e \<Rightarrow> Some (Some (pathCode e Path_bad_tls_feature))
               | Inr None \<Rightarrow> None
               | Inr (Some (_, required)) \<Rightarrow>
                   (case decodeExt cert oid_tlsFeature (d_tlsFeature D) of
                      Inl e \<Rightarrow> Some (Some (pathCode e Path_bad_tls_feature))
                    | Inr None \<Rightarrow> Some (Some (PathE Path_tls_feature_not_offered))
                    | Inr (Some (_, offered)) \<Rightarrow>
                        if required = [] then Some None
                        else if list_all (\<lambda>f. f \<in> set offered) required then Some None
                        else Some (Some (PathE Path_tls_feature_not_offered))))
         | _ \<Rightarrow> None))"

section \<open>The strength of the issuer's key\<close>

definition rootSequenceChildren :: "node \<Rightarrow> nat \<Rightarrow> nat option \<Rightarrow> node list option" where
  "rootSequenceChildren root minLen maxLen =
     (if \<not> (tagClass root = Universal \<and> tagNumber root = TAG_SEQUENCE) then None
      else case children root of
        None \<Rightarrow> None
      | Some kids \<Rightarrow>
          if length kids < minLen then None
          else case maxLen of
            Some m \<Rightarrow> if length kids > m then None else Some kids
          | None \<Rightarrow> Some kids)"

definition oid_rsaEncryption :: jsstr where "oid_rsaEncryption = js_lit ''1.2.840.113549.1.1.1''"
definition oid_rsassaPss :: jsstr where "oid_rsassaPss = js_lit ''1.2.840.113549.1.1.10''"

definition issuerKeyIsRsa :: "bytes \<Rightarrow> bool res" where
  "issuerKeyIsRsa spkiBytes =
     (if spkiBytes = [] then Inr False
      else bindR (decode spkiBytes no_opts) (\<lambda>root.
        case rootSequenceChildren root 2 (Some 2) of
          None \<Rightarrow> Inr False
        | Some kids \<Rightarrow>
            (case rootSequenceChildren (kids ! 0) 1 None of
               None \<Rightarrow> Inr False
             | Some algKids \<Rightarrow>
                 bindR (readOid (algKids ! 0)) (\<lambda>keyAlg. Inr (keyAlg = oid_rsaEncryption \<or> keyAlg = oid_rsassaPss)))))"

fun bit_width :: "nat \<Rightarrow> nat" where
  "bit_width n = (if n = 0 then 0 else Suc (bit_width (n div 2)))"

declare bit_width.simps [simp del]

definition modulus_bits :: "bytes \<Rightarrow> nat" where
  "modulus_bits modulus =
     (case dropWhile (\<lambda>b. b = 0) modulus of
        [] \<Rightarrow> 0
      | msb # rest \<Rightarrow> length rest * 8 + bit_width (unat msb))"

text \<open>\<open>Inr None\<close> is the answer \<open>null\<close>.  The children of a node without any are \<open>null\<close>, a TypeError to
  index.\<close>

definition rsaModulusBits :: "bytes \<Rightarrow> nat option res" where
  "rsaModulusBits spkiBytes =
     bindR (decode spkiBytes no_opts) (\<lambda>spki.
       case children spki of
         None \<Rightarrow> Inl TypeErr
       | Some kids \<Rightarrow>
           if length kids < 2 then Inl TypeErr
           else bindR (readBitString (kids ! 1)) (\<lambda>(unused, keyBytes).
             bindR (decode keyBytes no_opts) (\<lambda>inner.
               case rootSequenceChildren inner 1 None of
                 None \<Rightarrow> Inr None
               | Some innerKids \<Rightarrow>
                   (case content (innerKids ! 0) of
                      None \<Rightarrow> Inr None
                    | Some modulus \<Rightarrow> if modulus = [] then Inr None else Inr (Some (modulus_bits modulus))))))"

definition weakIssuerKey :: "nat \<Rightarrow> bytes \<Rightarrow> bool" where
  "weakIssuerKey minBits spkiBytes = (case issuerKeyIsRsa spkiBytes of
      Inl _ \<Rightarrow> False
    | Inr False \<Rightarrow> False
    | Inr True \<Rightarrow>
        (case rsaModulusBits spkiBytes of
           Inr (Some bits) \<Rightarrow> bits < minBits
         | _ \<Rightarrow> True))"

section \<open>The working key\<close>

record working_key =
  wk_alg :: jsstr
  wk_key :: bytes
  wk_params :: "bytes option"

definition isNullOrAbsentParams :: "bytes option \<Rightarrow> bool" where
  "isNullOrAbsentParams p \<longleftrightarrow> p = None \<or> p = Some [0x05, 0x00]"

definition spliceSpkiParameters :: "spki_info \<Rightarrow> jsstr \<Rightarrow> bytes \<Rightarrow> bytes res" where
  "spliceSpkiParameters spki algOid paramsBytes =
     bindR (build_oid (Str algOid)) (\<lambda>o1.
     bindR (build_raw (Buf paramsBytes)) (\<lambda>p1.
     bindR (build_sequence (Arr [Buf o1, Buf p1])) (\<lambda>alg.
     bindR (build_bitString (Buf (sp_key spki)) (Num (int (sp_unused spki)))) (\<lambda>key.
       build_sequence (Arr [Buf alg, Buf key])))))"

definition inheritedSpki :: "working_key \<Rightarrow> spki_info \<Rightarrow> bytes option res" where
  "inheritedSpki wk spki =
     (if \<not> isNullOrAbsentParams (sp_params spki) then Inr None
      else case wk_params wk of
        None \<Rightarrow> Inr None
      | Some p \<Rightarrow>
          if sp_alg spki \<noteq> wk_alg wk then Inr None
          else bindR (spliceSpkiParameters spki (sp_alg spki) p) (\<lambda>b. Inr (Some b)))"

definition updateWorkingKey :: "working_key \<Rightarrow> spki_info \<Rightarrow> working_key res" where
  "updateWorkingKey wk spki =
     (let params = (if \<not> isNullOrAbsentParams (sp_params spki) then sp_params spki
                    else if sp_alg spki \<noteq> wk_alg wk then None else wk_params wk) in
      bindR (case params of
          Some p \<Rightarrow> if isNullOrAbsentParams (sp_params spki) then spliceSpkiParameters spki (sp_alg spki) p
                    else Inr (sp_bytes spki)
        | None \<Rightarrow> Inr (sp_bytes spki)) (\<lambda>key.
        Inr \<lparr>wk_alg = sp_alg spki, wk_key = key, wk_params = params\<rparr>))"

section \<open>The state of a validation\<close>

datatype check_name = C_signature | C_compromisedIssuerKey | C_distrustedIssuerKey | C_compromisedKey
  | C_distrustedKey | C_compositeKeyUsage | C_hbsKeyUsage | C_kemKeyUsage | C_validity | C_nameChaining
  | C_tlsFeatureChain | C_nameConstraints | C_revocation | C_policies | C_policy | C_policyTree
  | C_emptySubject | C_policyMappings | C_policyConstraints | C_inhibitAnyPolicy | C_basicConstraints
  | C_pathLength | C_keyUsage | C_extendedKeyUsage | C_distrustAfter | C_purposeTrust
  | C_criticalExtensions | C_criticalExtensionValue | C_ct | C_identity

text \<open>One row: \<open>ok\<close>, its code, and of a revocation row the status and whether it was waived.  The
  explanatory members of a row (\<open>reason\<close>, \<open>error\<close>, the revocation time) are not modelled.\<close>

record check =
  ck_name :: check_name
  ck_ok :: bool
  ck_code :: "err option"
  ck_status :: "jsstr option"
  ck_waived :: bool

record pstate =
  graph :: pgraph
  permittedGenerations :: "subtree list list"
  excludedSubtrees :: "subtree list"
  explicitPolicy :: nat
  inhibitAnyPolicy :: nat
  policyMapping :: nat
  maxPathLength :: int
  workingKey :: working_key
  workingIssuerName :: dn
  userInitialPolicySet :: "jsstr list"
  checks :: "check list"
  results :: "check list list"
  failed :: bool
  revocationRan :: bool
  revocationWaived :: bool
  revocationUndetermined :: bool
  prefixAuthentic :: bool
  distrustedFrom :: "nat option"
  anchorDistrustApplied :: bool
  anchorPurposeApplied :: bool

definition row :: "check_name \<Rightarrow> err option \<Rightarrow> pstate \<Rightarrow> pstate" where
  "row n code st = st\<lparr>checks := checks st @
     [\<lparr>ck_name = n, ck_ok = (code = None), ck_code = code, ck_status = None, ck_waived = False\<rparr>]\<rparr>"

definition fail :: "pstate \<Rightarrow> pstate" where
  "fail st = st\<lparr>failed := True\<rparr>"

text \<open>A row, and \<open>failed = true\<close> when it is not \<open>ok\<close>.\<close>

definition verdict_row :: "check_name \<Rightarrow> err option \<Rightarrow> pstate \<Rightarrow> pstate" where
  "verdict_row n code st = (row n code st)\<lparr>failed := failed st \<or> code \<noteq> None\<rparr>"

text \<open>What a validation is given: the platform and the toolkit's decoders (\<open>v_lc\<close>, \<open>v_dec\<close>), the signature
  check under a working key (\<open>v_verify\<close>: the built-in one or the caller's, \<open>None\<close> when it accepts), the
  key lists, the options and the anchor.\<close>

datatype date_entry = NoDate | BadDate | Date int

datatype rev_answer = Threw | Answer "jsstr option"

record anchor =
  ta_name :: dn
  ta_key :: working_key
  ta_permitted :: "subtree list"
  ta_excluded :: "subtree list"
  tc_permitted :: "subtree list"
  tc_excluded :: "subtree list"
  tc_policySet :: "jsstr list option"
  tc_requireExplicitPolicy :: bool
  tc_inhibitAnyPolicy :: bool
  tc_inhibitPolicyMapping :: bool
  tc_pathLen :: "int option"
  ta_distrustAfter :: "(jsstr \<times> date_entry) list option"
  ta_purposes :: "(jsstr \<times> bool) list option"

record env =
  v_lc :: "jsstr \<Rightarrow> jsstr"
  v_dec :: decoders
  v_verify :: "cert \<Rightarrow> working_key \<Rightarrow> err option"
  v_compromised :: "bytes \<Rightarrow> bool"
  v_distrusted :: "bytes \<Rightarrow> bool"
  v_composite :: "jsstr \<Rightarrow> bool"
  v_minRsaModulusBits :: nat
  v_maxPolicyNodes :: nat
  v_maxPathCerts :: nat
  v_time :: int
  v_checker :: "(cert \<Rightarrow> dn \<Rightarrow> working_key \<Rightarrow> cert option \<Rightarrow> rev_answer) option"
  v_softFail :: bool
  v_requireRevocation :: bool
  v_initialExplicitPolicy :: bool
  v_initialAnyPolicyInhibit :: bool
  v_initialPolicyMappingInhibit :: bool
  v_userInitialPolicySet :: "jsstr list option"
  v_permitted :: "subtree list"
  v_excluded :: "subtree list"
  v_requiredEku :: "jsstr list option"
  v_checkPurpose :: "jsstr option"
  v_ct :: "(cert list \<Rightarrow> err option res) option"
  v_identity :: "(cert \<Rightarrow> bool res) option"

definition selfIssued :: "env \<Rightarrow> cert \<Rightarrow> bool" where
  "selfIssued E cert = (dnEqual (v_lc E) (PathE Path_name_chaining) (c_subject cert) (c_issuer cert) = Inr True)"

section \<open>Initialization\<close>

definition mergedPolicySet :: "jsstr list option \<Rightarrow> jsstr list option \<Rightarrow> jsstr list option" where
  "mergedPolicySet callerSet anchorSet = (case anchorSet of
      None \<Rightarrow> callerSet
    | Some as \<Rightarrow>
        let callerAny = (case callerSet of None \<Rightarrow> True | Some cs \<Rightarrow> contains cs anyPolicy);
            anchorAny = contains as anyPolicy in
        if anchorAny \<and> callerAny then Some [anyPolicy]
        else if anchorAny then callerSet
        else if callerAny then Some as
        else Some (filter (contains (the callerSet)) as))"

definition flagSet :: "bool \<Rightarrow> bool \<Rightarrow> bool" where
  "flagSet callerValue anchorFlag = (if callerValue then True else anchorFlag)"

definition initialState :: "env \<Rightarrow> anchor \<Rightarrow> nat \<Rightarrow> pstate" where
  "initialState E a n =
     \<lparr>graph = graph_start (v_maxPolicyNodes E),
      permittedGenerations = filter (\<lambda>g. length g > 0) [v_permitted E, ta_permitted a, tc_permitted a],
      excludedSubtrees = (v_excluded E @ ta_excluded a) @ tc_excluded a,
      explicitPolicy = (if flagSet (v_initialExplicitPolicy E) (tc_requireExplicitPolicy a) then 0 else n + 1),
      inhibitAnyPolicy = (if flagSet (v_initialAnyPolicyInhibit E) (tc_inhibitAnyPolicy a) then 0 else n + 1),
      policyMapping = (if flagSet (v_initialPolicyMappingInhibit E) (tc_inhibitPolicyMapping a) then 0 else n + 1),
      maxPathLength = (case tc_pathLen a of Some l \<Rightarrow> if l < int n then l else int n | None \<Rightarrow> int n),
      workingKey = ta_key a,
      workingIssuerName = ta_name a,
      userInitialPolicySet =
        (case mergedPolicySet (v_userInitialPolicySet E) (tc_policySet a) of Some s \<Rightarrow> s | None \<Rightarrow> [anyPolicy]),
      checks = [], results = [], failed = False, revocationRan = False, revocationWaived = False,
      revocationUndetermined = False, prefixAuthentic = True,
      distrustedFrom = (if v_distrusted E (wk_key (ta_key a)) then Some 0 else None),
      anchorDistrustApplied = False, anchorPurposeApplied = False\<rparr>"

section \<open>Steps that may stop\<close>

type_synonym outcome = "(bool \<times> pstate) res"

definition stop :: "pstate \<Rightarrow> outcome" where
  "stop st = Inr (True, st)"

definition continue :: "pstate \<Rightarrow> outcome" where
  "continue st = Inr (False, st)"

definition andThen :: "outcome \<Rightarrow> (pstate \<Rightarrow> outcome) \<Rightarrow> outcome" where
  "andThen m f = bindR m (\<lambda>(fatal, st). if fatal then stop st else f st)"

text \<open>Decoding an extension that must be critical; a throw is a row with \<open>code\<close>.\<close>

definition critical_ext ::
  "check_name \<Rightarrow> (err \<Rightarrow> err) \<Rightarrow> (bool \<times> 'a) option res \<Rightarrow> pstate \<Rightarrow> ('a option \<Rightarrow> pstate \<Rightarrow> outcome) \<Rightarrow> outcome" where
  "critical_ext n code d st k = (case d of
      Inl e \<Rightarrow> stop (row n (Some (code e)) st)
    | Inr None \<Rightarrow> k None st
    | Inr (Some (crit, v)) \<Rightarrow>
        if \<not> crit then stop (row n (Some (PathE Path_extension_not_critical)) st) else k (Some v) st)"

section \<open>Policies and key purposes\<close>

definition processPolicies :: "env \<Rightarrow> nat \<Rightarrow> cert \<Rightarrow> nat \<Rightarrow> pstate \<Rightarrow> bool \<times> pstate" where
  "processPolicies E n cert i st =
     (case decodeExt cert oid_certificatePolicies (d_certificatePolicies (v_dec E)) of
        Inl _ \<Rightarrow> (True, row C_policies (Some (PathE Path_bad_policy)) st)
      | Inr cp \<Rightarrow>
          let st1 = (case cp of
                None \<Rightarrow> st\<lparr>graph := (graph st)\<lparr>graph_present := False\<rparr>\<rparr>
              | Some (_, policies) \<Rightarrow>
                  if graph_present (graph st)
                  then st\<lparr>graph := process_policies i policies
                         (inhibitAnyPolicy st > 0 \<or> (i < n \<and> selfIssued E cert)) (graph st)\<rparr>
                  else st)
          in if cp \<noteq> None \<and> graph_present (graph st) \<and> capHit (graph st1) then (True, st1)
             else if \<not> (explicitPolicy st1 > 0 \<or> graph_present (graph st1))
             then (True, row C_policy (Some (PathE Path_policy_required)) st1)
             else (False, st1))"

definition ekuPurposeFails :: "env \<Rightarrow> cert \<Rightarrow> jsstr list \<Rightarrow> pstate \<Rightarrow> bool \<times> pstate" where
  "ekuPurposeFails E cert requiredEku st =
     (case decodeExt cert oid_extKeyUsage (d_extKeyUsage (v_dec E)) of
        Inl e \<Rightarrow> (True, row C_extendedKeyUsage (Some (pathCode e Path_bad_extension_value)) st)
      | Inr None \<Rightarrow> (False, st)
      | Inr (Some (_, purposes)) \<Rightarrow>
          let ok = contains purposes oid_anyExtendedKeyUsage \<or> containsAll purposes requiredEku in
          (\<not> ok, row C_extendedKeyUsage (if ok then None else Some (PathE Path_eku_not_permitted)) st))"

definition mapsAnyPolicy :: "(jsstr \<times> jsstr) list \<Rightarrow> bool" where
  "mapsAnyPolicy mappings = anyMatches mappings (\<lambda>m. fst m = anyPolicy \<or> snd m = anyPolicy)"

section \<open>Preparation for the next certificate\<close>

definition prepare_eku :: "env \<Rightarrow> cert \<Rightarrow> pstate \<Rightarrow> outcome" where
  "prepare_eku E cert st = (case v_requiredEku E of
      None \<Rightarrow> continue st
    | Some req \<Rightarrow> Inr (ekuPurposeFails E cert req st))"

definition prepare_mappings :: "env \<Rightarrow> cert \<Rightarrow> nat \<Rightarrow> pstate \<Rightarrow> outcome" where
  "prepare_mappings E cert i st =
     (case decodeExt cert oid_policyMappings (d_policyMappings (v_dec E)) of
        Inl _ \<Rightarrow> stop (row C_policyMappings (Some (PathE Path_bad_policy)) st)
      | Inr None \<Rightarrow> continue st
      | Inr (Some (_, pm)) \<Rightarrow>
          if mapsAnyPolicy pm then stop (row C_policyMappings (Some (PathE Path_bad_policy)) st)
          else if graph_present (graph st)
          then continue (st\<lparr>graph := applyPolicyMappings (policyMapping st) pm i (graph st)\<rparr>)
          else continue st)"

definition prepare_working :: "cert \<Rightarrow> pstate \<Rightarrow> outcome" where
  "prepare_working cert st =
     bindR (updateWorkingKey (workingKey st) (c_spki cert)) (\<lambda>wk.
       continue (st\<lparr>workingIssuerName := c_subject cert, workingKey := wk\<rparr>))"

definition prepare_names :: "env \<Rightarrow> cert \<Rightarrow> pstate \<Rightarrow> outcome" where
  "prepare_names E cert st =
     critical_ext C_nameConstraints (\<lambda>e. pathCode e Path_bad_name_constraints)
       (decodeExt cert oid_nameConstraints (d_nameConstraints (v_dec E))) st
       (\<lambda>nc st. case nc of
          None \<Rightarrow> continue st
        | Some v \<Rightarrow> (case absorbNameConstraints v (excludedSubtrees st, permittedGenerations st) of
            (ex, gens) \<Rightarrow> continue (st\<lparr>excludedSubtrees := ex, permittedGenerations := gens\<rparr>)))"

definition prepare_counters :: "env \<Rightarrow> cert \<Rightarrow> pstate \<Rightarrow> outcome" where
  "prepare_counters E cert st =
     continue (if selfIssued E cert then st
       else st\<lparr>explicitPolicy := explicitPolicy st - 1, policyMapping := policyMapping st - 1,
               inhibitAnyPolicy := inhibitAnyPolicy st - 1\<rparr>)"

definition lower :: "nat option \<Rightarrow> nat \<Rightarrow> nat" where
  "lower bound v = (case bound of Some b \<Rightarrow> if b < v then b else v | None \<Rightarrow> v)"

definition prepare_constraints :: "env \<Rightarrow> cert \<Rightarrow> pstate \<Rightarrow> outcome" where
  "prepare_constraints E cert st =
     critical_ext C_policyConstraints (\<lambda>_. PathE Path_bad_policy)
       (decodeExt cert oid_policyConstraints (d_policyConstraints (v_dec E))) st
       (\<lambda>pc st. continue (case pc of
          None \<Rightarrow> st
        | Some v \<Rightarrow> st\<lparr>explicitPolicy := lower (pc_requireExplicitPolicy v) (explicitPolicy st),
                        policyMapping := lower (pc_inhibitPolicyMapping v) (policyMapping st)\<rparr>))"

definition prepare_inhibit :: "env \<Rightarrow> cert \<Rightarrow> pstate \<Rightarrow> outcome" where
  "prepare_inhibit E cert st =
     critical_ext C_inhibitAnyPolicy (\<lambda>_. PathE Path_bad_policy)
       (decodeExt cert oid_inhibitAnyPolicy (d_inhibitAnyPolicy (v_dec E))) st
       (\<lambda>iap st. continue (st\<lparr>inhibitAnyPolicy := lower iap (inhibitAnyPolicy st)\<rparr>))"

definition prepare_basic :: "env \<Rightarrow> cert \<Rightarrow> pstate \<Rightarrow> outcome" where
  "prepare_basic E cert st =
     (case decodeExt cert oid_basicConstraints (d_basicConstraints (v_dec E)) of
        Inl _ \<Rightarrow> stop (row C_basicConstraints (Some (PathE Path_bad_basic_constraints)) st)
      | Inr None \<Rightarrow> stop (row C_basicConstraints (Some (PathE Path_not_a_ca)) st)
      | Inr (Some (crit, bc)) \<Rightarrow>
          if \<not> bc_cA bc then stop (row C_basicConstraints (Some (PathE Path_not_a_ca)) st)
          else if \<not> crit then stop (row C_basicConstraints (Some (PathE Path_extension_not_critical)) st)
          else if \<not> selfIssued E cert \<and> maxPathLength st \<le> 0
          then stop (row C_pathLength (Some (PathE Path_path_length_exceeded)) st)
          else
            let st1 = (if selfIssued E cert then st else st\<lparr>maxPathLength := maxPathLength st - 1\<rparr>) in
            continue (case bc_pathLen bc of
                Some l \<Rightarrow> if int l < maxPathLength st1 then st1\<lparr>maxPathLength := int l\<rparr> else st1
              | None \<Rightarrow> st1))"

definition prepare_usage :: "env \<Rightarrow> cert \<Rightarrow> pstate \<Rightarrow> outcome" where
  "prepare_usage E cert st = (case keyUsage_of (v_dec E) cert of
      Inl _ \<Rightarrow> stop (row C_keyUsage (Some (PathE Path_bad_key_usage)) st)
    | Inr (Some (_, ku)) \<Rightarrow>
        if \<not> ku_keyCertSign ku then stop (row C_keyUsage (Some (PathE Path_missing_key_cert_sign)) st) else continue st
    | Inr None \<Rightarrow> continue st)"

definition prepareNext :: "env \<Rightarrow> cert \<Rightarrow> nat \<Rightarrow> pstate \<Rightarrow> outcome" where
  "prepareNext E cert i st =
     andThen (andThen (andThen (andThen (andThen (andThen (andThen (andThen
       (prepare_eku E cert st)
       (prepare_mappings E cert i))
       (prepare_working cert))
       (prepare_names E cert))
       (prepare_counters E cert))
       (prepare_constraints E cert))
       (prepare_inhibit E cert))
       (prepare_basic E cert))
       (prepare_usage E cert)"

end
