(* ===== verification/Path_Validate.thy ===== *)
theory Path_Validate
  imports Path_State
begin

text \<open>
  lib/path-validate.js, \<open>_validate\<close>: what one certificate of the path goes through, the loop over the
  path, the verdict, and the attempts over several trust anchors.  Every step of the body of the loop
  is a function on the state; a step that can throw returns \<open>pstate res\<close>.
\<close>

section \<open>The checks of one certificate\<close>

definition signature_step :: "env \<Rightarrow> cert \<Rightarrow> pstate \<Rightarrow> pstate" where
  "signature_step E cert st =
     (let code = (if weakIssuerKey (v_minRsaModulusBits E) (wk_key (workingKey st)) then Some (PathE Path_weak_key)
                  else v_verify E cert (workingKey st))
      in (verdict_row C_signature code st)\<lparr>prefixAuthentic := prefixAuthentic st \<and> code = None\<rparr>)"

definition anchor_key_step :: "env \<Rightarrow> anchor \<Rightarrow> nat \<Rightarrow> pstate \<Rightarrow> pstate" where
  "anchor_key_step E a idx st =
     (if idx = 0 \<and> v_compromised E (wk_key (ta_key a)) then verdict_row C_compromisedIssuerKey (Some (PathE Path_compromised_key)) st
      else if idx = 0 \<and> v_distrusted E (wk_key (ta_key a)) then verdict_row C_distrustedIssuerKey (Some (PathE Path_distrusted_key)) st
      else st)"

definition opt_holds :: "('a \<Rightarrow> bool) \<Rightarrow> 'a option \<Rightarrow> bool" where
  "opt_holds P v = (case v of None \<Rightarrow> False | Some x \<Rightarrow> P x)"

definition distrust_from :: "nat \<Rightarrow> pstate \<Rightarrow> pstate" where
  "distrust_from idx st = st\<lparr>distrustedFrom := (case distrustedFrom st of None \<Rightarrow> Some idx | d \<Rightarrow> d)\<rparr>"

definition key_step :: "env \<Rightarrow> nat \<Rightarrow> cert \<Rightarrow> pstate \<Rightarrow> pstate res" where
  "key_step E idx cert st =
     bindR (inheritedSpki (workingKey st) (c_spki cert)) (\<lambda>inherited.
       let key = sp_bytes (c_spki cert) in
       Inr (if v_compromised E key \<or> opt_holds (v_compromised E) inherited
            then distrust_from idx (verdict_row C_compromisedKey (Some (PathE Path_compromised_key)) st)
            else if v_distrusted E key \<or> opt_holds (v_distrusted E) inherited
            then distrust_from idx (verdict_row C_distrustedKey (Some (PathE Path_distrusted_key)) st)
            else st))"

definition usage_step :: "env \<Rightarrow> cert \<Rightarrow> pstate \<Rightarrow> pstate" where
  "usage_step E cert st =
     (let alg = sp_alg (c_spki cert); D = v_dec E;
          st = (if v_composite E alg then verdict_row C_compositeKeyUsage (compositeKeyUsageCheck D cert) st else st);
          st = (if alg \<in> set STATEFUL_HBS_OIDS
                then verdict_row C_hbsKeyUsage (statefulHbsKeyUsageCheck D cert (isCaCert D cert)) st else st)
      in if alg \<in> set ML_KEM_OIDS then verdict_row C_kemKeyUsage (kemKeyUsageCheck D cert) st else st)"

definition validity_step :: "env \<Rightarrow> cert \<Rightarrow> pstate \<Rightarrow> pstate" where
  "validity_step E cert st =
     verdict_row C_validity (if v_time E < c_notBefore cert then Some (PathE Path_not_yet_valid)
       else if v_time E > c_notAfter cert then Some (PathE Path_expired) else None) st"

definition chaining_step :: "env \<Rightarrow> cert \<Rightarrow> pstate \<Rightarrow> pstate" where
  "chaining_step E cert st =
     verdict_row C_nameChaining
       (if dnEqual (v_lc E) (PathE Path_name_chaining) (c_issuer cert) (workingIssuerName st) = Inr True then None
        else Some (PathE Path_name_chaining)) st"

definition tls_step :: "env \<Rightarrow> cert option \<Rightarrow> cert \<Rightarrow> pstate \<Rightarrow> pstate" where
  "tls_step E issuerCert cert st = (case tlsFeatureChainCheck (v_dec E) issuerCert cert of
      None \<Rightarrow> st | Some code \<Rightarrow> verdict_row C_tlsFeatureChain code st)"

definition names_step :: "env \<Rightarrow> nat \<Rightarrow> cert \<Rightarrow> nat \<Rightarrow> pstate \<Rightarrow> pstate" where
  "names_step E n cert i st =
     (if selfIssued E cert \<and> i \<noteq> n then st
      else verdict_row C_nameConstraints
        (case checkNameConstraints (v_lc E) (v_dec E) (excludedSubtrees st) (permittedGenerations st) cert of
           Inl e \<Rightarrow> Some (pathCode e Path_bad_name_constraints) | Inr r \<Rightarrow> r) st)"

section \<open>Revocation\<close>

definition status_row :: "jsstr \<Rightarrow> err option \<Rightarrow> bool \<Rightarrow> pstate \<Rightarrow> pstate" where
  "status_row status code waived st = st\<lparr>checks := checks st @
     [\<lparr>ck_name = C_revocation, ck_ok = (code = None), ck_code = code, ck_status = Some status, ck_waived = waived\<rparr>]\<rparr>"

definition undetermined :: "pstate \<Rightarrow> pstate" where
  "undetermined st = st\<lparr>revocationUndetermined := True\<rparr>"

definition ran :: "pstate \<Rightarrow> pstate" where
  "ran st = st\<lparr>revocationRan := True\<rparr>"

definition answer_step :: "env \<Rightarrow> rev_answer \<Rightarrow> pstate \<Rightarrow> pstate" where
  "answer_step E rv st =
     (let status = (case rv of Threw \<Rightarrow> js_lit ''error'' | Answer (Some s) \<Rightarrow> s | Answer None \<Rightarrow> js_lit ''unknown'') in
      if status = js_lit ''good'' then status_row status None False st
      else if status = js_lit ''revoked'' then fail (status_row status (Some (PathE Path_revoked)) False st)
      else if rv = Threw then fail (undetermined (status_row status (Some (PathE Path_revocation_checker_error)) False st))
      else if v_softFail E then (status_row status None True st)\<lparr>revocationWaived := True\<rparr>
      else fail (undetermined (status_row status (Some (PathE Path_revocation_undetermined)) False st)))"

definition revocation_step :: "env \<Rightarrow> nat \<Rightarrow> cert option \<Rightarrow> cert \<Rightarrow> pstate \<Rightarrow> pstate" where
  "revocation_step E idx issuerCert cert st = (case v_checker E of
      None \<Rightarrow> if v_requireRevocation E then verdict_row C_revocation (Some (PathE Path_revocation_undetermined)) st else st
    | Some checker \<Rightarrow>
        if opt_holds (\<lambda>d. d \<le> idx) (distrustedFrom st) \<or> \<not> prefixAuthentic st
        then ran (undetermined (status_row (js_lit ''unknown'') (Some (PathE Path_revocation_undetermined)) False st))
        else ran (answer_step E (checker cert (workingIssuerName st) (workingKey st) issuerCert) st))"

section \<open>Policies, the subject, and what comes next\<close>

definition policies_step :: "env \<Rightarrow> nat \<Rightarrow> cert \<Rightarrow> nat \<Rightarrow> pstate \<Rightarrow> pstate" where
  "policies_step E n cert i st = (case processPolicies E n cert i st of (fatal, st1) \<Rightarrow>
      if capHit (graph st1) then verdict_row C_policyTree (Some (PathE Path_policy_tree_cap)) st1
      else if fatal then fail st1 else st1)"

definition subject_step :: "cert \<Rightarrow> pstate \<Rightarrow> pstate" where
  "subject_step cert st =
     (if c_subject cert = [] \<and> \<not> opt_holds x_critical (findExt cert oid_subjectAltName)
      then verdict_row C_emptySubject (Some (PathE Path_empty_subject)) st else st)"

definition next_step :: "env \<Rightarrow> cert \<Rightarrow> nat \<Rightarrow> pstate \<Rightarrow> pstate res" where
  "next_step E cert i st =
     (if capHit (graph st) then Inr st
      else bindR (prepareNext E cert i st) (\<lambda>(fatal, st). Inr (if fatal then fail st else st)))"

text \<open>A decode in the wrap-up: a throw and a missing criticality are failing rows, and the value is used.\<close>

definition last_ext ::
  "check_name \<Rightarrow> (err \<Rightarrow> err) \<Rightarrow> (bool \<times> 'a) option res \<Rightarrow> pstate \<Rightarrow> 'a option \<times> pstate" where
  "last_ext n code d st = (case d of
      Inl e \<Rightarrow> (None, verdict_row n (Some (code e)) st)
    | Inr None \<Rightarrow> (None, st)
    | Inr (Some (crit, v)) \<Rightarrow>
        (Some v, if crit then st else verdict_row n (Some (PathE Path_extension_not_critical)) st))"

definition last_constraints :: "env \<Rightarrow> cert \<Rightarrow> pstate \<Rightarrow> pstate" where
  "last_constraints E cert st =
     (case last_ext C_policyConstraints (\<lambda>_. PathE Path_bad_policy)
         (decodeExt cert oid_policyConstraints (d_policyConstraints (v_dec E)))
         (st\<lparr>explicitPolicy := explicitPolicy st - 1\<rparr>) of
        (Some pc, st1) \<Rightarrow> if pc_requireExplicitPolicy pc = Some 0 then st1\<lparr>explicitPolicy := 0\<rparr> else st1
      | (None, st1) \<Rightarrow> st1)"

definition last_mappings :: "env \<Rightarrow> cert \<Rightarrow> pstate \<Rightarrow> pstate" where
  "last_mappings E cert st = (case decodeExt cert oid_policyMappings (d_policyMappings (v_dec E)) of
      Inl _ \<Rightarrow> verdict_row C_policyMappings (Some (PathE Path_bad_policy)) st
    | Inr None \<Rightarrow> st
    | Inr (Some (_, pm)) \<Rightarrow>
        if mapsAnyPolicy pm then verdict_row C_policyMappings (Some (PathE Path_bad_policy)) st else st)"

definition last_names :: "env \<Rightarrow> cert \<Rightarrow> pstate \<Rightarrow> pstate" where
  "last_names E cert st = snd (last_ext C_nameConstraints (\<lambda>e. pathCode e Path_bad_name_constraints)
     (decodeExt cert oid_nameConstraints (d_nameConstraints (v_dec E))) st)"

definition last_inhibit :: "env \<Rightarrow> cert \<Rightarrow> pstate \<Rightarrow> pstate" where
  "last_inhibit E cert st = snd (last_ext C_inhibitAnyPolicy (\<lambda>e. pathCode e Path_bad_policy)
     (decodeExt cert oid_inhibitAnyPolicy (d_inhibitAnyPolicy (v_dec E))) st)"

definition last_eku :: "env \<Rightarrow> cert \<Rightarrow> pstate \<Rightarrow> pstate" where
  "last_eku E cert st = (case v_requiredEku E of
      None \<Rightarrow> st
    | Some req \<Rightarrow> (case ekuPurposeFails E cert req st of (bad, st1) \<Rightarrow> if bad then fail st1 else st1))"

definition assertAnchorConstraints :: "anchor \<Rightarrow> jsstr option \<Rightarrow> int option res" where
  "assertAnchorConstraints a checkPurpose = (case checkPurpose of
      None \<Rightarrow> Inr None
    | Some p \<Rightarrow>
        (case (case ta_distrustAfter a of None \<Rightarrow> None | Some m \<Rightarrow> map_of m p) of
           None \<Rightarrow> Inr None
         | Some NoDate \<Rightarrow> Inr None
         | Some BadDate \<Rightarrow> Inl (PathE Path_bad_input)
         | Some (Date d) \<Rightarrow> Inr (Some d)))"

definition last_anchor :: "env \<Rightarrow> anchor \<Rightarrow> cert \<Rightarrow> pstate \<Rightarrow> pstate res" where
  "last_anchor E a cert st =
     bindR (assertAnchorConstraints a (v_checkPurpose E)) (\<lambda>distrustDate.
       let st1 = (case distrustDate of
             None \<Rightarrow> st
           | Some d \<Rightarrow>
               let st = st\<lparr>anchorDistrustApplied := True\<rparr> in
               if c_notBefore cert > d then verdict_row C_distrustAfter (Some (PathE Path_distrusted_after)) st else st)
       in Inr (case (v_checkPurpose E, ta_purposes a) of
           (Some p, Some ps) \<Rightarrow>
             let st2 = st1\<lparr>anchorPurposeApplied := True\<rparr> in
             if map_of ps p = Some True then st2
             else verdict_row C_purposeTrust (Some (PathE Path_purpose_not_trusted)) st2
         | _ \<Rightarrow> st1))"

definition last_step :: "env \<Rightarrow> anchor \<Rightarrow> cert \<Rightarrow> pstate \<Rightarrow> pstate res" where
  "last_step E a cert st =
     bindR (last_anchor E a cert
       (last_eku E cert (last_inhibit E cert (last_names E cert (last_mappings E cert (last_constraints E cert st)))))) (\<lambda>st.
     bindR (updateWorkingKey (workingKey st) (c_spki cert)) (\<lambda>wk. Inr (st\<lparr>workingKey := wk\<rparr>)))"

section \<open>Critical extensions\<close>

definition PROCESSED_EXTENSIONS :: "jsstr list" where
  "PROCESSED_EXTENSIONS = [oid_basicConstraints, oid_keyUsage, oid_nameConstraints, oid_certificatePolicies,
     oid_policyMappings, oid_policyConstraints, oid_inhibitAnyPolicy, oid_subjectAltName, oid_extKeyUsage,
     oid_cRLDistributionPoints]"

definition unrecognizedCriticalExtension :: "cert \<Rightarrow> bool \<Rightarrow> jsstr option" where
  "unrecognizedCriticalExtension cert isTarget =
     map_option x_oid (firstMatch (c_exts cert) (\<lambda>x. x_critical x \<and>
       (x_oid x \<notin> set PROCESSED_EXTENSIONS \<or> isTarget \<and> x_oid x = oid_policyMappings)))"

definition void :: "'a res \<Rightarrow> unit res" where
  "void r = (case r of Inl e \<Rightarrow> Inl e | Inr _ \<Rightarrow> Inr ())"

text \<open>\<open>EXT_DECODERS[ext.oid]\<close>, as far as its throwing or not.\<close>

definition ext_decoder :: "decoders \<Rightarrow> jsstr \<Rightarrow> (bytes \<Rightarrow> unit res) option" where
  "ext_decoder D x =
     (if x = oid_basicConstraints then Some (\<lambda>b. void (d_basicConstraints D b))
      else if x = oid_keyUsage then Some (\<lambda>b. void (d_keyUsage D b))
      else if x = oid_nameConstraints then Some (\<lambda>b. void (d_nameConstraints D b))
      else if x = oid_certificatePolicies then Some (\<lambda>b. void (d_certificatePolicies D b))
      else if x = oid_policyMappings then Some (\<lambda>b. void (d_policyMappings D b))
      else if x = oid_policyConstraints then Some (\<lambda>b. void (d_policyConstraints D b))
      else if x = oid_inhibitAnyPolicy then Some (\<lambda>b. void (d_inhibitAnyPolicy D b))
      else if x = oid_subjectAltName then Some (\<lambda>b. void (d_subjectAltName D b))
      else if x = oid_extKeyUsage then Some (\<lambda>b. void (d_extKeyUsage D b))
      else if x = oid_tlsFeature then Some (\<lambda>b. void (d_tlsFeature D b))
      else d_other D x)"

fun critical_structure :: "decoders \<Rightarrow> ext_entry list \<Rightarrow> err option" where
  "critical_structure D [] = None"
| "critical_structure D (x # xs) =
     (if \<not> x_critical x then critical_structure D xs
      else case ext_decoder D (x_oid x) of
        None \<Rightarrow> critical_structure D xs
      | Some dec \<Rightarrow>
          (case dec (x_value x) of
             Inl e \<Rightarrow> Some (pathCode e Path_bad_extension_value)
           | Inr _ \<Rightarrow> critical_structure D xs))"

definition validateCriticalExtensionStructure :: "decoders \<Rightarrow> cert \<Rightarrow> err option" where
  "validateCriticalExtensionStructure D cert = critical_structure D (c_exts cert)"

definition extension_step :: "env \<Rightarrow> nat \<Rightarrow> cert \<Rightarrow> nat \<Rightarrow> pstate \<Rightarrow> pstate" where
  "extension_step E n cert i st =
     (let st1 = (case unrecognizedCriticalExtension cert (i = n) of
            None \<Rightarrow> st | Some _ \<Rightarrow> verdict_row C_criticalExtensions (Some (PathE Path_unrecognized_critical)) st)
      in case validateCriticalExtensionStructure (v_dec E) cert of
           None \<Rightarrow> st1 | Some e \<Rightarrow> verdict_row C_criticalExtensionValue (Some e) st1)"

section \<open>The loop\<close>

text \<open>The body up to the certificate's own policies: \<open>issuer\<close> is the certificate before it on the path.\<close>

definition check_step :: "env \<Rightarrow> anchor \<Rightarrow> nat \<Rightarrow> nat \<Rightarrow> cert option \<Rightarrow> cert \<Rightarrow> pstate \<Rightarrow> pstate res" where
  "check_step E a n idx issuer cert st =
     bindR (key_step E idx cert (anchor_key_step E a idx (signature_step E cert st))) (\<lambda>st.
       Inr (subject_step cert (policies_step E n cert (idx + 1)
         (revocation_step E idx issuer cert (names_step E n cert (idx + 1)
           (tls_step E issuer cert (chaining_step E cert (validity_step E cert (usage_step E cert st)))))))))"

definition close_step :: "pstate \<Rightarrow> pstate" where
  "close_step st = st\<lparr>results := results st @ [checks st], checks := []\<rparr>"

definition cert_step :: "env \<Rightarrow> anchor \<Rightarrow> nat \<Rightarrow> nat \<Rightarrow> cert option \<Rightarrow> cert \<Rightarrow> pstate \<Rightarrow> pstate res" where
  "cert_step E a n idx issuer cert st =
     bindR (check_step E a n idx issuer cert st) (\<lambda>st.
     bindR (if idx + 1 \<noteq> n then next_step E cert (idx + 1) st else last_step E a cert st) (\<lambda>st.
       Inr (close_step (extension_step E n cert (idx + 1) st))))"

fun path_loop :: "env \<Rightarrow> anchor \<Rightarrow> nat \<Rightarrow> nat \<Rightarrow> cert option \<Rightarrow> cert list \<Rightarrow> pstate \<Rightarrow> pstate res" where
  "path_loop E a n idx issuer [] st = Inr st"
| "path_loop E a n idx issuer (cert # certs) st =
     bindR (cert_step E a n idx issuer cert st) (path_loop E a n (idx + 1) (Some cert) certs)"

section \<open>The verdict\<close>

datatype revocation_checked = Rev_not | Rev_undetermined | Rev_waived | Rev_determined

record result =
  r_valid :: bool
  r_identity :: bool
  r_revocationChecked :: revocation_checked
  r_results :: "check list list"
  r_workingKey :: working_key
  r_graph :: "pgraph"
  r_policies :: "jsstr list"
  r_distrustApplied :: bool
  r_purposeApplied :: bool
  r_namesApplied :: bool

definition append_last :: "check \<Rightarrow> check list list \<Rightarrow> check list list" where
  "append_last c rs = butlast rs @ [last rs @ [c]]"

definition simple_check :: "check_name \<Rightarrow> err option \<Rightarrow> check" where
  "simple_check n code = \<lparr>ck_name = n, ck_ok = (code = None), ck_code = code, ck_status = None, ck_waived = False\<rparr>"

definition final_row :: "check_name \<Rightarrow> err option \<Rightarrow> pstate \<Rightarrow> pstate" where
  "final_row n code st = st\<lparr>results := append_last (simple_check n code) (results st), failed := failed st \<or> code \<noteq> None\<rparr>"

definition policy_verdict :: "nat \<Rightarrow> pstate \<Rightarrow> pstate" where
  "policy_verdict n st =
     (if explicitPolicy st > 0 \<or> length (userConstrainedPolicies (graph st) n (userInitialPolicySet st)) > 0 then st
      else if anyMatches (last (results st)) (\<lambda>c. ck_code c = Some (PathE Path_policy_required)) then fail st
      else final_row C_policy (Some (PathE Path_policy_required)) st)"

definition ct_verdict :: "env \<Rightarrow> cert list \<Rightarrow> pstate \<Rightarrow> pstate res" where
  "ct_verdict E certs st = (case v_ct E of
      None \<Rightarrow> Inr st | Some gate \<Rightarrow> bindR (gate certs) (\<lambda>code. Inr (final_row C_ct code st)))"

definition identity_verdict :: "env \<Rightarrow> cert list \<Rightarrow> pstate \<Rightarrow> (bool \<times> pstate) res" where
  "identity_verdict E certs st = (case v_identity E of
      None \<Rightarrow> Inr (False, st)
    | Some matches \<Rightarrow>
        bindR (matches (last certs)) (\<lambda>ok.
          Inr (ok, final_row C_identity (if ok then None else Some (PathE Path_identity_mismatch)) st)))"

definition result_of :: "env \<Rightarrow> anchor \<Rightarrow> cert list \<Rightarrow> bool \<Rightarrow> pstate \<Rightarrow> result" where
  "result_of E a certs identity st =
     \<lparr>r_valid = (\<not> failed st),
      r_identity = identity,
      r_revocationChecked = (if \<not> revocationRan st then Rev_not
        else if revocationUndetermined st then Rev_undetermined
        else if revocationWaived st then Rev_waived else Rev_determined),
      r_results = results st, r_workingKey = workingKey st, r_graph = graph st,
      r_policies = userConstrainedPolicies (graph st) (length certs) (userInitialPolicySet st),
      r_distrustApplied = anchorDistrustApplied st, r_purposeApplied = anchorPurposeApplied st,
      r_namesApplied = (ta_permitted a \<noteq> [] \<or> ta_excluded a \<noteq> [] \<or> tc_permitted a \<noteq> [] \<or> tc_excluded a \<noteq> [])\<rparr>"

definition hasPurposeScopedMetadata :: "anchor \<Rightarrow> bool" where
  "hasPurposeScopedMetadata a \<longleftrightarrow>
     opt_holds (\<lambda>m. m \<noteq> []) (ta_distrustAfter a) \<or> opt_holds (\<lambda>m. m \<noteq> []) (ta_purposes a)"

definition validate_one :: "env \<Rightarrow> cert list \<Rightarrow> anchor \<Rightarrow> result res" where
  "validate_one E certs a =
     (if v_checkPurpose E = None \<and> hasPurposeScopedMetadata a then Inl (PathE Path_bad_input)
      else bindR (path_loop E a (length certs) 0 None certs (initialState E a (length certs))) (\<lambda>st.
        bindR (ct_verdict E certs (policy_verdict (length certs) st)) (\<lambda>st.
        bindR (identity_verdict E certs st) (\<lambda>(identity, st). Inr (result_of E a certs identity st)))))"

section \<open>Several anchors\<close>

fun try_anchors :: "env \<Rightarrow> cert list \<Rightarrow> anchor list \<Rightarrow> result option \<Rightarrow> result option res" where
  "try_anchors E certs [] lastMatched = Inr lastMatched"
| "try_anchors E certs (a # as) lastMatched =
     bindR (dnEqual (v_lc E) (PathE Path_name_chaining) (ta_name a) (c_issuer (hd certs))) (\<lambda>same.
       if \<not> same then try_anchors E certs as lastMatched
       else bindR (validate_one E certs a) (\<lambda>r.
         if r_valid r then Inr (Some r) else try_anchors E certs as (Some r)))"

definition validate :: "env \<Rightarrow> cert list \<Rightarrow> anchor list \<Rightarrow> result res" where
  "validate E certs anchors =
     (if length certs > v_maxPathCerts E then Inl (PathE Path_bad_input)
      else if length certs < 1 then Inl (PathE Path_empty_path)
      else case anchors of
        [] \<Rightarrow> Inl (PathE Path_bad_input)
      | [a] \<Rightarrow> validate_one E certs a
      | a # _ \<Rightarrow> bindR (try_anchors E certs anchors None) (\<lambda>r.
          case r of Some res \<Rightarrow> Inr res | None \<Rightarrow> validate_one E certs a))"

end
