(* ===== verification/Policy_Invariant.thy ===== *)
theory Policy_Invariant
  imports Policy_Graph
begin

text \<open>
  lib/path-validate.js, the invariant of the valid-policy graph: references on both sides agree, an
  edge is justified by an expected policy or by anyPolicy, every node but the root has a parent, and
  the node count is exact and within the cap.  Every operation keeps it.
\<close>

section \<open>Reads and writes\<close>

declare split_paired_All [simp del] split_paired_Ex [simp del]

definition nd :: "pgraph \<Rightarrow> pkey \<Rightarrow> pnode option" where
  "nd g k = map_of (policyIndex g) k"

definition gkeys :: "pgraph \<Rightarrow> pkey list" where
  "gkeys g = map fst (policyIndex g)"

named_theorems graph_simps "what an operation leaves of the index and of the other fields"

lemma modify_nd [graph_simps]: "nd (modify k f g) x = (if x = k then map_option f (nd g k) else nd g x)"
  by (cases "map_of (policyIndex g) k") (simp_all add: nd_def modify_def AList.update_conv)

lemma modify_keys [graph_simps]: "gkeys (modify k f g) = gkeys g"
proof (cases "map_of (policyIndex g) k")
  case (Some n)
  then have "k \<in> set (map fst (policyIndex g))" by (force dest: map_of_SomeD)
  then show ?thesis using Some by (simp add: gkeys_def modify_def AList.update_keys del: set_map)
qed (simp add: gkeys_def modify_def)

lemma modify_fields [graph_simps]:
  "policyNodeCount (modify k f g) = policyNodeCount g" "maxPolicyNodes (modify k f g) = maxPolicyNodes g"
  "capHit (modify k f g) = capHit g" "graph_present (modify k f g) = graph_present g"
  by (auto simp: modify_def split: option.split)

lemma parents_at_eq: "parents_at g k = (case nd g k of None \<Rightarrow> [] | Some n \<Rightarrow> parents_of n)"
  by (simp add: parents_at_def nd_def)

lemma children_at_eq: "children_at g k = (case nd g k of None \<Rightarrow> [] | Some n \<Rightarrow> children_of n)"
  by (simp add: children_at_def nd_def)

text \<open>The fields no node operation writes.\<close>

definition frame :: "pgraph \<Rightarrow> nat \<times> bool \<times> bool" where
  "frame g = (maxPolicyNodes g, capHit g, graph_present g)"

lemma frame_modify [simp]: "frame (modify k f g) = frame g"
  by (simp add: frame_def graph_simps)

lemma fold_modify_nd:
  "distinct ks \<Longrightarrow> nd (fold (\<lambda>p. modify p f) ks g) x = (if x \<in> set ks then map_option f (nd g x) else nd g x)"
  by (induction ks arbitrary: g) (auto simp: graph_simps)

lemma fold_modify_keys: "gkeys (fold (\<lambda>p. modify p f) ks g) = gkeys g"
  by (induction ks arbitrary: g) (auto simp: graph_simps)

lemma fold_modify_frame: "frame (fold (\<lambda>p. modify p f) ks g) = frame g \<and>
    policyNodeCount (fold (\<lambda>p. modify p f) ks g) = policyNodeCount g"
  by (induction ks arbitrary: g) (auto simp: graph_simps)

section \<open>The invariant\<close>

definition edge_ok :: "pgraph \<Rightarrow> pkey \<Rightarrow> pkey \<Rightarrow> bool" where
  "edge_ok g k pk \<longleftrightarrow> fst k = Suc (fst pk) \<and>
     (\<exists>m. nd g pk = Some m \<and> (snd k \<in> set (expectedPolicySet m) \<or> snd pk = anyPolicy))"

definition node_wf :: "pgraph \<Rightarrow> pkey \<Rightarrow> pnode \<Rightarrow> bool" where
  "node_wf g k n \<longleftrightarrow> distinct (parents_of n) \<and> distinct (children_of n) \<and>
     (\<forall>pk \<in> set (parents_of n). edge_ok g k pk \<and> k \<in> set (children_at g pk)) \<and>
     (\<forall>ck \<in> set (children_of n). k \<in> set (parents_at g ck)) \<and>
     (fst k = 0 \<longrightarrow> snd k = anyPolicy) \<and>
     (if snd k = anyPolicy then expectedPolicySet n = [anyPolicy] else anyPolicy \<notin> set (expectedPolicySet n))"

definition graph_wf :: "pgraph \<Rightarrow> bool" where
  "graph_wf g \<longleftrightarrow> distinct (gkeys g) \<and> policyNodeCount g = length (gkeys g) \<and>
     (\<exists>r. nd g root_key = Some r) \<and> (\<forall>k n. nd g k = Some n \<longrightarrow> node_wf g k n)"

definition rooted :: "pgraph \<Rightarrow> bool" where
  "rooted g \<longleftrightarrow> (\<forall>k n. nd g k = Some n \<longrightarrow> 0 < fst k \<longrightarrow> parents_of n \<noteq> [])"

definition graph_ok :: "nat \<Rightarrow> pgraph \<Rightarrow> bool" where
  "graph_ok i g \<longleftrightarrow> graph_wf g \<and> rooted g \<and> (\<forall>k n. nd g k = Some n \<longrightarrow> fst k \<le> i) \<and>
     policyNodeCount g \<le> maxPolicyNodes g"

lemma graph_wfD: "graph_wf g \<Longrightarrow> nd g k = Some n \<Longrightarrow> node_wf g k n"
  by (simp add: graph_wf_def)

lemma child_parent: "graph_wf g \<Longrightarrow> nd g k = Some n \<Longrightarrow> ck \<in> set (children_of n) \<Longrightarrow>
    \<exists>m. nd g ck = Some m \<and> k \<in> set (parents_of m) \<and> fst ck = Suc (fst k)"
proof -
  assume wf: "graph_wf g" and k: "nd g k = Some n" and c: "ck \<in> set (children_of n)"
  have "k \<in> set (parents_at g ck)" using graph_wfD[OF wf k] c by (simp add: node_wf_def)
  then obtain m where m: "nd g ck = Some m" "k \<in> set (parents_of m)" by (cases "nd g ck") (auto simp: parents_at_eq)
  then show ?thesis using graph_wfD[OF wf m(1)] by (auto simp: node_wf_def edge_ok_def)
qed

lemma parent_child: "graph_wf g \<Longrightarrow> nd g k = Some n \<Longrightarrow> pk \<in> set (parents_of n) \<Longrightarrow>
    \<exists>m. nd g pk = Some m \<and> k \<in> set (children_of m) \<and> fst k = Suc (fst pk)"
proof -
  assume wf: "graph_wf g" and k: "nd g k = Some n" and c: "pk \<in> set (parents_of n)"
  then have "edge_ok g k pk" "k \<in> set (children_at g pk)" using graph_wfD[OF wf k] by (auto simp: node_wf_def)
  then show ?thesis by (auto simp: edge_ok_def children_at_eq)
qed

lemma deepest_childless: "graph_ok i g \<Longrightarrow> fst k = i \<Longrightarrow> children_at g k = []"
proof (cases "nd g k")
  case (Some n)
  assume ok: "graph_ok i g" and k: "fst k = i"
  have "children_of n = []"
  proof (rule ccontr)
    assume "children_of n \<noteq> []"
    then obtain ck where "ck \<in> set (children_of n)" by (cases "children_of n") auto
    with ok Some obtain m where "nd g ck = Some m" "fst ck = Suc i" using child_parent[of g k n ck] k
      by (auto simp: graph_ok_def)
    then show False using ok unfolding graph_ok_def by (metis Suc_n_not_le_n)
  qed
  then show ?thesis using Some by (simp add: children_at_eq)
qed (simp add: children_at_eq)

lemma graph_start_ok: "1 \<le> mx \<Longrightarrow> graph_ok 0 (graph_start mx)"
  by (auto simp: graph_ok_def graph_wf_def rooted_def node_wf_def graph_start_def graphRoot_def root_key_def nd_def gkeys_def split: if_splits)

section \<open>Joining a parent\<close>

text \<open>What an operation that only adds edges keeps: the keys, the expected policies, the counts.\<close>

definition same_nodes :: "pgraph \<Rightarrow> pgraph \<Rightarrow> bool" where
  "same_nodes g g' \<longleftrightarrow> gkeys g' = gkeys g \<and> frame g' = frame g \<and>
     policyNodeCount g' = policyNodeCount g \<and>
     (\<forall>k. map_option expectedPolicySet (nd g' k) = map_option expectedPolicySet (nd g k))"

lemma same_nodes_refl [simp]: "same_nodes g g"
  by (simp add: same_nodes_def)

lemma same_nodes_trans: "same_nodes g g' \<Longrightarrow> same_nodes g' g'' \<Longrightarrow> same_nodes g g''"
  by (simp add: same_nodes_def)

lemma same_nodes_Some: "same_nodes g g' \<Longrightarrow> nd g k = Some n \<Longrightarrow> \<exists>n'. nd g' k = Some n' \<and> expectedPolicySet n' = expectedPolicySet n"
  unfolding same_nodes_def by (metis (no_types, lifting) map_option_eq_Some)

lemma same_nodes_None: "same_nodes g g' \<Longrightarrow> nd g' k = None \<longleftrightarrow> nd g k = None"
  unfolding same_nodes_def by (metis map_option_is_None)

lemma edge_ok_same: "same_nodes g g' \<Longrightarrow> edge_ok g k pk \<Longrightarrow> edge_ok g' k pk"
  using same_nodes_Some by (fastforce simp: edge_ok_def)

lemma join_parent_step:
  assumes wf: "graph_wf g" and k: "nd g k = Some n" and e: "edge_ok g k pk"
  shows "graph_wf (join_parent k pk g)" "same_nodes g (join_parent k pk g)"
    "pk \<in> set (parents_at (join_parent k pk g) k)"
    "x \<noteq> k \<Longrightarrow> parents_at (join_parent k pk g) x = parents_at g x"
    "set (parents_at g k) \<subseteq> set (parents_at (join_parent k pk g) k)"
proof -
  obtain m where m: "nd g pk = Some m" using e by (auto simp: edge_ok_def)
  have ne: "k \<noteq> pk" using e by (auto simp: edge_ok_def)
  let ?g = "join_parent k pk g"
  have eff: "nd ?g x = (if pk \<in> set (parents_of n) then nd g x
      else if x = k then Some (n\<lparr>parents_of := parents_of n @ [pk]\<rparr>)
      else if x = pk then Some (m\<lparr>children_of := children_of m @ [k]\<rparr>) else nd g x)" for x
    using k m ne by (auto simp: join_parent_def parents_at_eq graph_simps)
  have keys: "gkeys ?g = gkeys g" by (simp add: join_parent_def graph_simps)
  show same: "same_nodes g ?g"
    using eff keys k m by (auto simp: same_nodes_def join_parent_def graph_simps)
  show "pk \<in> set (parents_at ?g k)" using eff k ne by (auto simp: parents_at_eq)
  show po: "x \<noteq> k \<Longrightarrow> parents_at ?g x = parents_at g x" for x using eff m by (auto simp: parents_at_eq)
  show "set (parents_at g k) \<subseteq> set (parents_at ?g k)" using eff k by (auto simp: parents_at_eq)
  show "graph_wf ?g"
  proof (cases "pk \<in> set (parents_of n)")
    case True
    then have "?g = g" using k by (simp add: join_parent_def parents_at_eq)
    then show ?thesis using wf by simp
  next
    case False
    have kc: "k \<notin> set (children_of m)"
      using child_parent[OF wf m, of k] False k by auto
    have ch: "set (children_at g x) \<subseteq> set (children_at ?g x)" for x using eff m k by (auto simp: children_at_eq)
    have pa: "set (parents_at g x) \<subseteq> set (parents_at ?g x)" for x using eff m k by (auto simp: parents_at_eq)
    have wfn: "node_wf ?g x y" if y: "nd ?g x = Some y" for x y
    proof -
      obtain y0 where y0: "nd g x = Some y0" "expectedPolicySet y0 = expectedPolicySet y"
        using y eff[of x] False k m by (auto split: if_splits)
      note w = graph_wfD[OF wf y0(1), unfolded node_wf_def]
      have old: "\<forall>q \<in> set (parents_of y0). edge_ok ?g x q \<and> x \<in> set (children_at ?g q)"
        using w edge_ok_same[OF same] ch by blast
      have oldc: "\<forall>q \<in> set (children_of y0). x \<in> set (parents_at ?g q)" using w pa by blast
      have new: "edge_ok ?g k pk" "k \<in> set (children_at ?g pk)" "pk \<in> set (parents_at ?g k)"
        using edge_ok_same[OF same e] eff[of pk] eff[of k] False ne by (auto simp: children_at_eq parents_at_eq)
      have "(x = k \<and> y = n\<lparr>parents_of := parents_of n @ [pk]\<rparr> \<and> y0 = n) \<or>
          (x = pk \<and> x \<noteq> k \<and> y = m\<lparr>children_of := children_of m @ [k]\<rparr> \<and> y0 = m) \<or> (x \<noteq> k \<and> x \<noteq> pk \<and> y = y0)"
        using y eff[of x] False k m y0(1) ne by (auto split: if_splits)
      then show ?thesis
        using w old oldc new y0(2) False kc by (auto simp: node_wf_def)
    qed
    have "policyNodeCount ?g = length (gkeys ?g)"
      using wf keys same by (simp add: graph_wf_def same_nodes_def)
    then show ?thesis using wf keys wfn same_nodes_Some[OF same, of root_key] by (auto simp: graph_wf_def)
  qed
qed

lemma join_parents:
  "graph_wf g \<Longrightarrow> nd g k = Some n \<Longrightarrow> (\<forall>pk \<in> set ps. edge_ok g k pk) \<Longrightarrow>
     graph_wf (fold (join_parent k) ps g) \<and> same_nodes g (fold (join_parent k) ps g) \<and>
     set (parents_at g k) \<union> set ps \<subseteq> set (parents_at (fold (join_parent k) ps g) k) \<and>
     (\<forall>x. x \<noteq> k \<longrightarrow> parents_at (fold (join_parent k) ps g) x = parents_at g x)"
proof (induction ps arbitrary: g n)
  case (Cons pk ps)
  have e: "edge_ok g k pk" using Cons.prems(3) by simp
  note s = join_parent_step[OF Cons.prems(1,2) e]
  obtain n' where n': "nd (join_parent k pk g) k = Some n'" using same_nodes_Some[OF s(2) Cons.prems(2)] by blast
  have "\<forall>q \<in> set ps. edge_ok (join_parent k pk g) k q" using Cons.prems(3) edge_ok_same[OF s(2)] by simp
  from Cons.IH[OF s(1) n' this] s show ?case by (auto intro: same_nodes_trans)
qed simp

section \<open>Adding a node\<close>

lemma nd_insert: "nd (g\<lparr>policyIndex := AList.update k n (policyIndex g), policyNodeCount := c\<rparr>) x = (if x = k then Some n else nd g x)"
  by (auto simp: nd_def AList.update_conv)

lemma gkeys_insert: "nd g k = None \<Longrightarrow>
    gkeys (g\<lparr>policyIndex := AList.update k n (policyIndex g), policyNodeCount := c\<rparr>) = gkeys g @ [k]"
  by (auto simp: nd_def gkeys_def AList.update_keys map_of_eq_None_iff)

lemma nd_keys: "nd g k = None \<longleftrightarrow> k \<notin> set (gkeys g)"
  by (auto simp: nd_def gkeys_def map_of_eq_None_iff)

lemma insert_wf:
  assumes wf: "graph_wf g" and no: "nd g k = None" and "expectedPolicySet n = ex" and "children_of n = []" and "parents_of n = []"
    and any: "if snd k = anyPolicy then ex = [anyPolicy] else anyPolicy \<notin> set ex" and "0 < fst k"
    and c: "c = policyNodeCount g + 1"
  shows "graph_wf (g\<lparr>policyIndex := AList.update k n (policyIndex g), policyNodeCount := c\<rparr>)" (is "graph_wf ?g")
proof -
  have nd: "nd ?g x = (if x = k then Some n else nd g x)" for x by (rule nd_insert)
  have keys: "gkeys ?g = gkeys g @ [k]" using no by (rule gkeys_insert)
  have at: "x \<noteq> k \<Longrightarrow> parents_at ?g x = parents_at g x" "x \<noteq> k \<Longrightarrow> children_at ?g x = children_at g x" for x
    by (simp_all add: parents_at_eq children_at_eq nd)
  have "node_wf ?g x y" if y: "nd ?g x = Some y" for x y
  proof (cases "x = k")
    case True
    then show ?thesis using y nd assms by (auto simp: node_wf_def)
  next
    case False
    then have old: "nd g x = Some y" using y nd by simp
    note w = graph_wfD[OF wf old, unfolded node_wf_def]
    have ek: "edge_ok ?g x q \<and> q \<noteq> k" if "q \<in> set (parents_of y)" for q
      using w that no nd by (auto simp: edge_ok_def)
    moreover have "q \<noteq> k" if "q \<in> set (children_of y)" for q using child_parent[OF wf old that] no by auto
    ultimately show ?thesis using w at by (auto simp: node_wf_def)
  qed
  moreover have "distinct (gkeys ?g)" using wf no keys by (auto simp: graph_wf_def nd_keys)
  ultimately show ?thesis using wf keys nd c by (auto simp: graph_wf_def)
qed

text \<open>What adding a node under justified parents leaves.\<close>

definition grows :: "nat \<Rightarrow> policy \<Rightarrow> pgraph \<Rightarrow> pgraph \<Rightarrow> bool" where
  "grows i p g g' \<longleftrightarrow> graph_wf g' \<and> rooted g' \<and> maxPolicyNodes g' = maxPolicyNodes g \<and> graph_present g' = graph_present g \<and>
     policyNodeCount g' \<le> max (policyNodeCount g) (maxPolicyNodes g) \<and> (capHit g \<longrightarrow> capHit g') \<and>
     (\<forall>k. nd g k \<noteq> None \<longrightarrow> map_option expectedPolicySet (nd g' k) = map_option expectedPolicySet (nd g k)) \<and>
     (\<forall>k. nd g' k \<noteq> None \<longrightarrow> nd g k \<noteq> None \<or> k = (i, p)) \<and>
     (\<forall>k. set (parents_at g k) \<subseteq> set (parents_at g' k))"

lemma grows_refl: "graph_wf g \<Longrightarrow> rooted g \<Longrightarrow> grows i p g g"
  by (simp add: grows_def)

lemma nd_cap: "nd (g\<lparr>capHit := True\<rparr>) x = nd g x"
  by (simp add: nd_def)

lemma cap_wf: "graph_wf (g\<lparr>capHit := True\<rparr>) = graph_wf g"
proof -
  have "parents_at (g\<lparr>capHit := True\<rparr>) = parents_at g" "children_at (g\<lparr>capHit := True\<rparr>) = children_at g"
    "edge_ok (g\<lparr>capHit := True\<rparr>) = edge_ok g"
    by (simp_all add: fun_eq_iff parents_at_eq children_at_eq edge_ok_def nd_cap)
  then show ?thesis by (simp only: graph_wf_def node_wf_def nd_cap) (simp add: gkeys_def)
qed

lemma cap_rooted: "rooted (g\<lparr>capHit := True\<rparr>) = rooted g"
  by (simp only: rooted_def nd_cap)

lemma same_grows:
  assumes s: "same_nodes g1 g'" and "graph_wf g'" "rooted g'"
    and o: "\<And>k. nd g1 k = nd g k \<or> (k = (i, p) \<and> nd g k = None)"
    and "maxPolicyNodes g1 = maxPolicyNodes g" "graph_present g1 = graph_present g" "capHit g1 = capHit g"
      "policyNodeCount g1 \<le> max (policyNodeCount g) (maxPolicyNodes g)"
    and par: "\<And>k. set (parents_at g k) \<subseteq> set (parents_at g' k)"
  shows "grows i p g g'"
proof -
  have "map_option expectedPolicySet (nd g' k) = map_option expectedPolicySet (nd g k)" if "nd g k \<noteq> None" for k
    using o[of k] that s unfolding same_nodes_def by auto
  moreover have "nd g k \<noteq> None \<or> k = (i, p)" if "nd g' k \<noteq> None" for k
    using o[of k] that same_nodes_None[OF s, of k] by auto
  ultimately show ?thesis using assms unfolding grows_def same_nodes_def frame_def by simp
qed

lemma rooted_join: "rooted g \<or> (\<forall>x. x \<noteq> k \<longrightarrow> nd g x \<noteq> None \<longrightarrow> 0 < fst x \<longrightarrow> parents_at g x \<noteq> []) \<Longrightarrow>
    parents_at g' k \<noteq> [] \<Longrightarrow> (\<forall>x. x \<noteq> k \<longrightarrow> parents_at g' x = parents_at g x) \<Longrightarrow> same_nodes g g' \<Longrightarrow> rooted g'"
  unfolding rooted_def
proof (intro allI impI)
  fix x n
  assume h: "(\<forall>k n. nd g k = Some n \<longrightarrow> 0 < fst k \<longrightarrow> parents_of n \<noteq> []) \<or> (\<forall>x. x \<noteq> k \<longrightarrow> nd g x \<noteq> None \<longrightarrow> 0 < fst x \<longrightarrow> parents_at g x \<noteq> [])"
    "parents_at g' k \<noteq> []" "\<forall>x. x \<noteq> k \<longrightarrow> parents_at g' x = parents_at g x" "same_nodes g g'" "nd g' x = Some n" "0 < fst x"
  have "parents_at g' x = parents_of n" using h(5) by (simp add: parents_at_eq)
  moreover have "parents_at g' x \<noteq> []"
  proof (cases "x = k")
    case False
    have "nd g x \<noteq> None" using same_nodes_None[OF h(4), of x] h(5) by simp
    then obtain y where "nd g x = Some y" by auto
    then show ?thesis using h(1,3,6) False by (auto simp: parents_at_eq)
  qed (use h(2) in simp)
  ultimately show "parents_of n \<noteq> []" by simp
qed

lemma add_grows:
  assumes wf: "graph_wf g" "rooted g" and e: "\<forall>pk \<in> set ps. edge_ok g (i, p) pk"
    and any: "if p = anyPolicy then ex = [anyPolicy] else anyPolicy \<notin> set ex"
  shows "grows i p g (addPolicyNode g i p q ex ps)"
proof (cases "ps = []")
  case True
  then show ?thesis using wf by (simp add: addPolicyNode_def grows_refl)
next
  case ne: False
  then obtain pk where pk: "pk \<in> set ps" by (cases ps) auto
  then have i: "0 < i" using e by (auto simp: edge_ok_def)
  show ?thesis
  proof (cases "nd g (i, p)")
    case (Some n)
    then have a: "addPolicyNode g i p q ex ps = fold (join_parent (i, p)) ps g"
      using ne by (simp add: addPolicyNode_def nodeAt_def nd_def)
    note j = join_parents[OF wf(1) Some e]
    have "parents_at (fold (join_parent (i, p)) ps g) (i, p) \<noteq> []" using subsetD[OF conjunct1[OF conjunct2[OF conjunct2[OF j]]], of pk] pk by auto
    then have "rooted (fold (join_parent (i, p)) ps g)" using j wf(2) by (intro rooted_join[of g "(i, p)"]) auto
    moreover have "set (parents_at g x) \<subseteq> set (parents_at (fold (join_parent (i, p)) ps g) x)" for x
      using j by (cases "x = (i, p)") auto
    ultimately show ?thesis unfolding a using j by (intro same_grows[of g]) auto
  next
    case None
    let ?n = "\<lparr>qualifierSet = (case q of Some q \<Rightarrow> [q] | None \<Rightarrow> []), expectedPolicySet = ex, children_of = [], parents_of = []\<rparr>"
    let ?g1 = "g\<lparr>policyIndex := AList.update (i, p) ?n (policyIndex g), policyNodeCount := policyNodeCount g + 1\<rparr>"
    have a: "addPolicyNode g i p q ex ps = (if policyNodeCount g \<ge> maxPolicyNodes g then g\<lparr>capHit := True\<rparr>
        else fold (join_parent (i, p)) ps ?g1)"
      using ne None by (simp add: addPolicyNode_def nodeAt_def nd_def)
    show ?thesis
    proof (cases "policyNodeCount g \<ge> maxPolicyNodes g")
      case True
      have nd: "nd (g\<lparr>capHit := True\<rparr>) x = nd g x" for x by (simp add: nd_def)
      have "graph_wf (g\<lparr>capHit := True\<rparr>)" "rooted (g\<lparr>capHit := True\<rparr>)"
        using wf by (simp_all add: cap_wf cap_rooted)
      moreover have "addPolicyNode g i p q ex ps = g\<lparr>capHit := True\<rparr>" using a True by simp
      ultimately show ?thesis by (simp add: grows_def nd parents_at_eq)
    next
      case False
      have nd1: "nd ?g1 x = (if x = (i, p) then Some ?n else nd g x)" for x by (rule nd_insert)
      have wf1: "graph_wf ?g1" using wf None any i by (intro insert_wf) auto
      have e1: "\<forall>pk \<in> set ps. edge_ok ?g1 (i, p) pk" using e None nd1 by (auto simp: edge_ok_def)
      have k1: "nd ?g1 (i, p) = Some ?n" unfolding nd1 by simp
      note j = join_parents[OF wf1 k1 e1]
      have pne: "parents_at (fold (join_parent (i, p)) ps ?g1) (i, p) \<noteq> []" using subsetD[OF conjunct1[OF conjunct2[OF conjunct2[OF j]]], of pk] pk by auto
      have "\<forall>x. x \<noteq> (i, p) \<longrightarrow> nd ?g1 x \<noteq> None \<longrightarrow> 0 < fst x \<longrightarrow> parents_at ?g1 x \<noteq> []"
        using wf(2) nd1 by (auto simp: rooted_def parents_at_eq)
      then have "rooted (fold (join_parent (i, p)) ps ?g1)" using j pne by (intro rooted_join[of ?g1 "(i, p)"]) auto
      moreover have "set (parents_at g x) \<subseteq> set (parents_at (fold (join_parent (i, p)) ps ?g1) x)" for x
        using j nd1 None by (cases "x = (i, p)") (auto simp: parents_at_eq)
      moreover have "a = fold (join_parent (i, p)) ps ?g1 \<Longrightarrow> grows i p g a" for a
        using j nd1 None False calculation by (intro same_grows[of ?g1]) auto
      ultimately show ?thesis using a False by simp
    qed
  qed
qed

section \<open>Removing a childless node\<close>

lemma nd_delete: "nd (g\<lparr>policyIndex := AList.delete k (policyIndex g), policyNodeCount := c\<rparr>) x = (if x = k then None else nd g x)"
  by (auto simp: nd_def AList.delete_conv)

lemma gkeys_delete: "gkeys (g\<lparr>policyIndex := AList.delete k (policyIndex g), policyNodeCount := c\<rparr>) = removeAll k (gkeys g)"
  by (simp add: gkeys_def AList.delete_keys)

lemma remove_nd:
  assumes "graph_wf g" and "nd g k = Some n" and "children_at g k = []"
  shows "nd (removePolicyNode k g) x = (if x = k then None
      else if x \<in> set (parents_of n) then map_option (\<lambda>m. m\<lparr>children_of := remove1 k (children_of m)\<rparr>) (nd g x) else nd g x)"
    and "gkeys (removePolicyNode k g) = removeAll k (gkeys g)"
    and "frame (removePolicyNode k g) = frame g"
    and "policyNodeCount (removePolicyNode k g) = policyNodeCount g - 1"
proof -
  let ?f = "\<lambda>m. m\<lparr>children_of := remove1 k (children_of m)\<rparr>"
  let ?g1 = "fold (\<lambda>p. modify p ?f) (parents_of n) g"
  have d: "distinct (parents_of n)" using graph_wfD[OF assms(1,2)] by (simp add: node_wf_def)
  have nk: "k \<notin> set (parents_of n)" using parent_child[OF assms(1,2), of k] by auto
  have p: "parents_at g k = parents_of n" using assms(2) by (simp add: parents_at_eq)
  have "children_of n = []" using assms(2,3) by (simp add: children_at_eq)
  then have c: "children_at g k = []" "children_at ?g1 k = []"
    using assms(2,3) fold_modify_nd[OF d, of ?f g k] nk by (simp_all add: children_at_eq)
  have e: "removePolicyNode k g = ?g1\<lparr>policyIndex := AList.delete k (policyIndex ?g1), policyNodeCount := policyNodeCount ?g1 - 1\<rparr>"
    by (simp add: removePolicyNode_def p c Let_def)
  show "nd (removePolicyNode k g) x = (if x = k then None
      else if x \<in> set (parents_of n) then map_option ?f (nd g x) else nd g x)"
    unfolding e nd_delete fold_modify_nd[OF d] by simp
  show "gkeys (removePolicyNode k g) = removeAll k (gkeys g)" unfolding e gkeys_delete fold_modify_keys ..
  show "frame (removePolicyNode k g) = frame g" using fold_modify_frame[of ?f "parents_of n" g] by (simp add: e frame_def)
  show "policyNodeCount (removePolicyNode k g) = policyNodeCount g - 1" using fold_modify_frame[of ?f "parents_of n" g] by (simp add: e)
qed

lemma remove_wf:
  assumes wf: "graph_wf g" and k: "nd g k = Some n" and c: "children_at g k = []" and pos: "0 < fst k"
  shows "graph_wf (removePolicyNode k g)"
proof -
  let ?g = "removePolicyNode k g"
  note eff = remove_nd(1)[OF wf k c]
  have cn: "children_of n = []" using k c by (simp add: children_at_eq)
  have par: "parents_at ?g x = parents_at g x" if "x \<noteq> k" for x
    using that by (cases "nd g x") (auto simp: parents_at_eq eff)
  have ch: "set (children_at ?g x) = set (children_at g x) - {k}" if "x \<noteq> k" for x
  proof (cases "nd g x")
    case (Some m)
    then have "distinct (children_of m)" using graph_wfD[OF wf] by (simp add: node_wf_def)
    moreover have "x \<in> set (parents_of n)" if "k \<in> set (children_of m)"
      using child_parent[OF wf Some that] k by auto
    ultimately show ?thesis using Some that by (auto simp: children_at_eq eff)
  qed (use that in \<open>simp add: children_at_eq eff\<close>)
  have wfn: "node_wf ?g x y" if y: "nd ?g x = Some y" for x y
  proof -
    have xk: "x \<noteq> k" using y eff by auto
    obtain y0 where y0: "nd g x = Some y0" "parents_of y0 = parents_of y" "expectedPolicySet y0 = expectedPolicySet y"
      "distinct (children_of y0) \<longrightarrow> distinct (children_of y)"
      using y xk unfolding eff by (auto split: if_splits)
    note w = graph_wfD[OF wf y0(1), unfolded node_wf_def]
    have "q \<noteq> k \<and> edge_ok ?g x q \<and> x \<in> set (children_at ?g q)" if qy: "q \<in> set (parents_of y)" for q
    proof -
      obtain m where m: "nd g q = Some m" "x \<in> set (children_of m)" using parent_child[OF wf y0(1), of q] qy y0(2) by auto
      then have qk: "q \<noteq> k" using k cn by auto
      have "edge_ok g x q" using w qy y0(2) by auto
      then have "edge_ok ?g x q" using qk m unfolding edge_ok_def eff by (auto split: if_splits)
      then show ?thesis using qk ch[OF qk] m xk by (auto simp: children_at_eq)
    qed
    moreover have "x \<in> set (parents_at ?g q)" if "q \<in> set (children_of y)" for q
    proof -
      have "q \<in> set (children_at ?g x)" using that y by (simp add: children_at_eq)
      then have q: "q \<in> set (children_of y0)" "q \<noteq> k" using ch[OF xk] y0(1) by (auto simp: children_at_eq)
      then show ?thesis using w par by auto
    qed
    ultimately show ?thesis using w y0 xk by (auto simp: node_wf_def)
  qed
  have "k \<in> set (gkeys g)" "distinct (gkeys g)" using k wf nd_keys[of g k] by (auto simp: graph_wf_def)
  then have "length (removeAll k (gkeys g)) = length (gkeys g) - 1"
    by (simp add: length_remove1 flip: distinct_remove1_removeAll)
  moreover have "nd ?g root_key \<noteq> None" using wf pos eff[of root_key] by (auto simp: graph_wf_def root_key_def)
  ultimately show ?thesis
    using wf wfn remove_nd(2,4)[OF wf k c] by (auto simp: graph_wf_def distinct_removeAll)
qed

lemma remove_rooted:
  assumes "graph_wf g" and "nd g k = Some n" and "children_at g k = []" and "rooted g"
  shows "rooted (removePolicyNode k g)"
  using assms(4) unfolding rooted_def remove_nd(1)[OF assms(1-3)] by (auto split: if_splits)

text \<open>Removing nodes at a depth leaves everything at that depth and below as it was, or gone.\<close>

definition shrinks :: "nat \<Rightarrow> pgraph \<Rightarrow> pgraph \<Rightarrow> bool" where
  "shrinks d g g' \<longleftrightarrow> graph_wf g' \<and> rooted g' \<and> frame g' = frame g \<and> policyNodeCount g' \<le> policyNodeCount g \<and>
     (\<forall>k n. nd g' k = Some n \<longrightarrow> (\<exists>m. nd g k = Some m \<and> parents_of n = parents_of m \<and> expectedPolicySet n = expectedPolicySet m \<and>
        (d \<le> fst k \<longrightarrow> n = m)))"

lemma shrinks_refl: "graph_wf g \<Longrightarrow> rooted g \<Longrightarrow> shrinks d g g"
  by (simp add: shrinks_def)

lemma shrinks_Some: "shrinks d g g' \<Longrightarrow> nd g' k = Some n \<Longrightarrow>
    \<exists>m. nd g k = Some m \<and> parents_of n = parents_of m \<and> expectedPolicySet n = expectedPolicySet m \<and> (d \<le> fst k \<longrightarrow> n = m)"
  unfolding shrinks_def by blast

lemma shrinks_None: "shrinks d g g' \<Longrightarrow> nd g k = None \<Longrightarrow> nd g' k = None"
proof (cases "nd g' k")
  case (Some n)
  assume "shrinks d g g'" and "nd g k = None"
  then show ?thesis using shrinks_Some[of d g g' k n] Some by auto
qed

lemma shrinks_trans:
  assumes "shrinks d g g'" and "shrinks e g' g''"
  shows "shrinks (max d e) g g''"
  unfolding shrinks_def
proof (intro conjI allI impI)
  fix k n assume "nd g'' k = Some n"
  then obtain m where m: "nd g' k = Some m" "parents_of n = parents_of m" "expectedPolicySet n = expectedPolicySet m" "e \<le> fst k \<longrightarrow> n = m"
    using assms(2) by (auto simp: shrinks_def)
  then obtain l where l: "nd g k = Some l" "parents_of m = parents_of l" "expectedPolicySet m = expectedPolicySet l" "d \<le> fst k \<longrightarrow> m = l"
    using assms(1) by (auto simp: shrinks_def)
  show "\<exists>m. nd g k = Some m \<and> parents_of n = parents_of m \<and> expectedPolicySet n = expectedPolicySet m \<and> (max d e \<le> fst k \<longrightarrow> n = m)"
    using m l by auto
qed (use assms in \<open>auto simp: shrinks_def\<close>)

lemma remove_shrinks:
  assumes "graph_wf g" and "rooted g" and "nd g k = Some n" and "children_at g k = []" and "0 < fst k"
  shows "shrinks (fst k) g (removePolicyNode k g)"
  unfolding shrinks_def
proof (intro conjI allI impI)
  fix x y assume y: "nd (removePolicyNode k g) x = Some y"
  have "fst x \<noteq> fst k" if "x \<in> set (parents_of n)" using parent_child[OF assms(1,3) that] by auto
  moreover have "fst x < fst k" if "x \<in> set (parents_of n)" using parent_child[OF assms(1,3) that] by auto
  ultimately show "\<exists>m. nd g x = Some m \<and> parents_of y = parents_of m \<and> expectedPolicySet y = expectedPolicySet m \<and> (fst k \<le> fst x \<longrightarrow> y = m)"
    using y unfolding remove_nd(1)[OF assms(1,3,4)] by (auto split: if_splits)
qed (use remove_wf[OF assms(1,3,4,5)] remove_rooted[OF assms(1,3,4,2)] remove_nd(3,4)[OF assms(1,3,4)] in auto)

lemma remove_all:
  "graph_wf g \<Longrightarrow> rooted g \<Longrightarrow> distinct ks \<Longrightarrow> (\<forall>k \<in> set ks. fst k = d \<and> nd g k \<noteq> None) \<Longrightarrow> 0 < d \<Longrightarrow>
     shrinks d g (fold remove_childless ks g) \<and>
     (\<forall>k \<in> set ks. nd (fold remove_childless ks g) k \<noteq> None \<longrightarrow> children_at g k \<noteq> [])"
proof (induction ks arbitrary: g)
  case (Cons k ks)
  obtain n where n: "nd g k = Some n" "fst k = d" using Cons.prems(4) by auto
  show ?case
  proof (cases "children_at g k = []")
    case True
    let ?g = "removePolicyNode k g"
    have e: "remove_childless k g = ?g" using True by (simp add: remove_childless_def)
    have s: "shrinks d g ?g" using remove_shrinks[OF Cons.prems(1,2) n(1) True] n(2) Cons.prems(5) by simp
    have gone: "nd ?g k = None" using remove_nd(1)[OF Cons.prems(1) n(1) True] by simp
    have others: "nd ?g x = nd g x" if "x \<in> set ks" for x
    proof -
      have "x \<noteq> k" "fst x = d" using that Cons.prems(3,4) by auto
      moreover have "x \<notin> set (parents_of n)" using parent_child[OF Cons.prems(1) n(1), of x] n(2) calculation(2) by auto
      ultimately show ?thesis unfolding remove_nd(1)[OF Cons.prems(1) n(1) True] by simp
    qed
    have IH: "shrinks d ?g (fold remove_childless ks ?g) \<and>
        (\<forall>k \<in> set ks. nd (fold remove_childless ks ?g) k \<noteq> None \<longrightarrow> children_at ?g k \<noteq> [])"
      using s others Cons.prems by (intro Cons.IH) (auto simp: shrinks_def)
    then have "nd (fold remove_childless ks ?g) k = None"
      using gone shrinks_None by blast
    moreover have "children_at ?g x = children_at g x" if "x \<in> set ks" for x using others[OF that] by (simp add: children_at_eq)
    ultimately show ?thesis using IH e shrinks_trans[OF s conjunct1[OF IH]] by auto
  next
    case False
    then have "remove_childless k g = g" by (simp add: remove_childless_def)
    then show ?thesis using Cons.IH[of g] Cons.prems False by auto
  qed
qed (simp add: shrinks_refl)

section \<open>Pruning\<close>

definition pruned :: "nat \<Rightarrow> pgraph \<Rightarrow> bool" where
  "pruned d g \<longleftrightarrow> (\<forall>k n. nd g k = Some n \<longrightarrow> 0 < fst k \<longrightarrow> fst k \<le> d \<longrightarrow> children_of n \<noteq> [])"

lemma nodesAt_keys: "graph_wf g \<Longrightarrow> distinct (map fst (nodesAt g d)) \<and> (\<forall>k. k \<in> set (map fst (nodesAt g d)) \<longleftrightarrow> fst k = d \<and> nd g k \<noteq> None)"
proof -
  assume "graph_wf g"
  then have "distinct (map fst (policyIndex g))" by (simp add: graph_wf_def gkeys_def)
  moreover have "set (map fst (nodesAt g d)) = {k \<in> set (gkeys g). fst k = d}" by (auto simp: nodesAt_def gkeys_def)
  ultimately show ?thesis using nd_keys[of g] by (auto simp: nodesAt_def distinct_map_filter)
qed

lemma prune_step:
  "graph_wf g \<Longrightarrow> rooted g \<Longrightarrow> shrinks d g (prunePolicyChildless d g) \<and> pruned d (prunePolicyChildless d g)"
proof (induction d arbitrary: g)
  case 0
  then show ?case by (simp add: shrinks_refl pruned_def)
next
  case (Suc d)
  let ?ks = "map fst (nodesAt g (Suc d))"
  let ?g = "fold remove_childless ?ks g"
  have ks: "distinct ?ks" "\<forall>k \<in> set ?ks. fst k = Suc d \<and> nd g k \<noteq> None" using nodesAt_keys[OF Suc.prems(1)] by blast+
  note r = remove_all[OF Suc.prems ks zero_less_Suc]
  have wf: "graph_wf ?g" "rooted ?g" using r by (simp_all add: shrinks_def)
  note p = Suc.IH[OF wf]
  have s: "shrinks (Suc d) g (prunePolicyChildless d ?g)"
    using shrinks_trans[OF conjunct1[OF r] conjunct1[OF p]] by simp
  moreover have "pruned (Suc d) (prunePolicyChildless d ?g)"
    unfolding pruned_def
  proof (intro allI impI)
    fix k n assume h: "nd (prunePolicyChildless d ?g) k = Some n" "0 < fst k" "fst k \<le> Suc d"
    show "children_of n \<noteq> []"
    proof (cases "fst k = Suc d")
      case True
      have e: "nd ?g k = Some n" using shrinks_Some[OF conjunct1[OF p] h(1)] True by auto
      then have o: "nd g k = Some n" using shrinks_Some[OF conjunct1[OF r]] True by fastforce
      then have "k \<in> set ?ks" using nodesAt_keys[OF Suc.prems(1)] True by blast
      then have "children_at g k \<noteq> []" using r e by blast
      then show ?thesis using o by (simp add: children_at_eq)
    next
      case False
      then show ?thesis using p h by (simp add: pruned_def)
    qed
  qed
  ultimately show ?case by simp
qed

lemma null_if_empty_simps:
  "nd (null_if_empty g) x = nd g x" "graph_wf (null_if_empty g) = graph_wf g" "rooted (null_if_empty g) = rooted g"
  "pruned d (null_if_empty g) = pruned d g" "graph_ok i (null_if_empty g) = graph_ok i g" "capHit (null_if_empty g) = capHit g"
  "maxPolicyNodes (null_if_empty g) = maxPolicyNodes g" "policyNodeCount (null_if_empty g) = policyNodeCount g"
proof -
  have nd: "nd (null_if_empty g) x = nd g x" for x by (simp add: null_if_empty_def nd_def)
  have at: "parents_at (null_if_empty g) = parents_at g" "children_at (null_if_empty g) = children_at g"
    by (simp_all add: fun_eq_iff parents_at_eq children_at_eq nd)
  have e: "edge_ok (null_if_empty g) = edge_ok g" by (simp add: fun_eq_iff edge_ok_def nd)
  have f: "gkeys (null_if_empty g) = gkeys g" "policyNodeCount (null_if_empty g) = policyNodeCount g"
    "maxPolicyNodes (null_if_empty g) = maxPolicyNodes g" "capHit (null_if_empty g) = capHit g"
    by (simp_all add: null_if_empty_def gkeys_def)
  have wf: "graph_wf (null_if_empty g) = graph_wf g" by (simp only: graph_wf_def node_wf_def nd at e f)
  have ro: "rooted (null_if_empty g) = rooted g" by (simp only: rooted_def nd)
  show "nd (null_if_empty g) x = nd g x" "graph_wf (null_if_empty g) = graph_wf g" "rooted (null_if_empty g) = rooted g"
    "pruned d (null_if_empty g) = pruned d g" "graph_ok i (null_if_empty g) = graph_ok i g" "capHit (null_if_empty g) = capHit g"
    "maxPolicyNodes (null_if_empty g) = maxPolicyNodes g" "policyNodeCount (null_if_empty g) = policyNodeCount g"
    by (simp_all only: nd wf ro f pruned_def graph_ok_def)
qed

end
