(* ===== verification/Policy_Steps.thy ===== *)
theory Policy_Steps
  imports Policy_Invariant
begin

text \<open>
  lib/path-validate.js, the policies of a path as a sequence of steps: one per certificate that
  carries the extension, one per set of policy mappings.  The invariant of the graph holds of every
  graph the steps reach, and what the graph says of a policy is true of the certificates.
\<close>

section \<open>The steps keep the invariant\<close>

lemma expecting_edge: "graph_wf g \<Longrightarrow> 0 < i \<Longrightarrow> pk \<in> set (expecting g (i - 1) p) \<Longrightarrow> edge_ok g (i, p) pk"
  by (auto simp: expecting_def nodesAt_def edge_ok_def nd_def graph_wf_def gkeys_def)

lemma any_edge: "0 < i \<Longrightarrow> nodeAt g (i - 1) anyPolicy = Some n \<Longrightarrow> edge_ok g (i, p) (i - 1, anyPolicy)"
  by (auto simp: nodeAt_def edge_ok_def nd_def)

text \<open>What a step over one policy at depth \<open>i\<close> does, and what it may add.\<close>

definition policy_step :: "nat \<Rightarrow> (policy \<Rightarrow> bool) \<Rightarrow> pgraph \<Rightarrow> pgraph \<Rightarrow> bool" where
  "policy_step i P g g' \<longleftrightarrow> graph_wf g' \<and> rooted g' \<and> maxPolicyNodes g' = maxPolicyNodes g \<and> graph_present g' = graph_present g \<and>
     policyNodeCount g' \<le> max (policyNodeCount g) (maxPolicyNodes g) \<and> (capHit g \<longrightarrow> capHit g') \<and>
     (\<forall>k. nd g' k \<noteq> None \<longrightarrow> nd g k \<noteq> None \<or> (fst k = i \<and> P (snd k))) \<and>
     (\<forall>k. nd g k \<noteq> None \<longrightarrow> nd g' k \<noteq> None) \<and>
     (\<forall>k. set (parents_at g k) \<subseteq> set (parents_at g' k))"

lemma policy_step_refl: "graph_wf g \<Longrightarrow> rooted g \<Longrightarrow> policy_step i P g g"
  by (simp add: policy_step_def)

lemma policy_step_trans: "policy_step i P g g' \<Longrightarrow> policy_step i P g' g'' \<Longrightarrow> policy_step i P g g''"
proof -
  assume a: "policy_step i P g g'" and b: "policy_step i P g' g''"
  note a = a[unfolded policy_step_def] and b = b[unfolded policy_step_def]
  have "policyNodeCount g'' \<le> max (policyNodeCount g) (maxPolicyNodes g)" using a b by linarith
  moreover have "nd g k \<noteq> None \<or> (fst k = i \<and> P (snd k))" if "nd g'' k \<noteq> None" for k using a b that by blast
  moreover have "nd g'' k \<noteq> None" if "nd g k \<noteq> None" for k using a b that by blast
  moreover have "set (parents_at g k) \<subseteq> set (parents_at g'' k)" for k using a b by blast
  moreover have "graph_wf g'' \<and> rooted g'' \<and> maxPolicyNodes g'' = maxPolicyNodes g \<and> graph_present g'' = graph_present g"
    "capHit g \<longrightarrow> capHit g''" using a b by simp_all
  ultimately show ?thesis unfolding policy_step_def by blast
qed

lemma grows_step: "grows i p g g' \<Longrightarrow> P p \<Longrightarrow> policy_step i P g g'"
  unfolding grows_def policy_step_def by (metis fst_conv option.map_disc_iff snd_conv)

lemma policy_step_ok: "policy_step i P g g' \<Longrightarrow> graph_ok i g \<Longrightarrow> graph_ok i g'"
proof -
  assume s: "policy_step i P g g'" and ok: "graph_ok i g"
  have "fst k \<le> i" if "nd g' k = Some n" for k n
  proof -
    have "nd g k \<noteq> None \<or> fst k = i" using s that by (auto simp: policy_step_def)
    then show ?thesis using ok by (auto simp: graph_ok_def)
  qed
  then show ?thesis using s ok by (auto simp: policy_step_def graph_ok_def)
qed

lemma fold_policy_step:
  "(\<And>x g. x \<in> set xs \<Longrightarrow> graph_ok i g \<Longrightarrow> Q g \<Longrightarrow> policy_step i P g (f x g) \<and> Q (f x g)) \<Longrightarrow> graph_ok i g \<Longrightarrow> Q g \<Longrightarrow>
     policy_step i P g (fold f xs g) \<and> Q (fold f xs g)"
proof (induction xs arbitrary: g)
  case (Cons x xs)
  have s: "policy_step i P g (f x g)" "Q (f x g)" using Cons.prems by auto
  have "policy_step i P (f x g) (fold f xs (f x g)) \<and> Q (fold f xs (f x g))"
    using Cons.prems s policy_step_ok[OF s(1) Cons.prems(2)] by (intro Cons.IH) auto
  then show ?case using policy_step_trans[OF s(1)] by simp
qed (simp add: policy_step_refl graph_ok_def)

lemma assert_policy_step:
  "graph_ok i g \<Longrightarrow> 0 < i \<Longrightarrow> P (fst pq) \<Longrightarrow> policy_step i P g (assert_policy i pq g)"
proof -
  assume ok: "graph_ok i g" and i: "0 < i" and P: "P (fst pq)"
  obtain p q where pq: "pq = (p, q)" by (cases pq)
  have wf: "graph_wf g" "rooted g" using ok by (simp_all add: graph_ok_def)
  have "\<forall>pk \<in> set (expecting g (i - 1) p). edge_ok g (i, p) pk" using expecting_edge[OF wf(1) i] by blast
  then have "p \<noteq> anyPolicy \<Longrightarrow> grows i p g (addPolicyNode g i p q [p] (expecting g (i - 1) p))"
    by (intro add_grows wf) auto
  moreover have "p \<noteq> anyPolicy \<Longrightarrow> nodeAt g (i - 1) anyPolicy = Some n \<Longrightarrow>
      grows i p g (addPolicyNode g i p q [p] [(i - 1, anyPolicy)])" for n
    using any_edge[OF i] by (intro add_grows wf) auto
  ultimately show ?thesis using grows_step[of i p g _ P] policy_step_refl[OF wf] P pq
    by (auto simp: assert_policy_def Let_def split: option.split)
qed

lemma expand_policy_step:
  "graph_ok i g \<Longrightarrow> 0 < i \<Longrightarrow> P ep \<Longrightarrow> policy_step i P g (expand_policy i q ep g)"
proof -
  assume ok: "graph_ok i g" and i: "0 < i" and P: "P ep"
  have wf: "graph_wf g" "rooted g" using ok by (simp_all add: graph_ok_def)
  have "\<forall>pk \<in> set (expecting g (i - 1) ep). edge_ok g (i, ep) pk" using expecting_edge[OF wf(1) i] by blast
  then have "grows i ep g (addPolicyNode g i ep q [ep] (expecting g (i - 1) ep))"
    by (intro add_grows wf) auto
  then show ?thesis using grows_step[of i ep g _ P] policy_step_refl[OF wf] P
    by (auto simp: expand_policy_def split: option.split)
qed

text \<open>The policies of one certificate: before the pruning, and after it.\<close>

definition asserts :: "(policy \<times> bytes option) list \<Rightarrow> policy \<Rightarrow> bool" where
  "asserts policies p \<longleftrightarrow> p \<in> set (map fst policies) \<or> anyPolicy \<in> set (map fst policies)"

lemma process_parts:
  assumes ok: "graph_ok i g" and i: "0 < i"
  shows "\<exists>g2. policy_step i (asserts policies) g g2 \<and>
    process_policies i policies act g = (if capHit g2 then g2 else null_if_empty (prunePolicyChildless (i - 1) g2))"
proof -
  let ?P = "asserts policies"
  let ?g1 = "fold (assert_policy i) policies g"
  have s1: "policy_step i ?P g ?g1 \<and> True"
    using assert_policy_step[OF _ i] ok by (intro fold_policy_step) (auto simp: asserts_def)
  have ok1: "graph_ok i ?g1" using s1 policy_step_ok ok by blast
  show ?thesis
  proof (cases "anyPolicy \<in> set (map fst policies) \<and> act")
    case True
    have "policy_step i ?P ?g1 (fold (expand_policy i (any_qualifiers policies)) (expected_above ?g1 (i - 1)) ?g1) \<and> True"
      using expand_policy_step[OF _ i] ok1 True by (intro fold_policy_step) (auto simp: asserts_def)
    then have "policy_step i ?P g (fold (expand_policy i (any_qualifiers policies)) (expected_above ?g1 (i - 1)) ?g1)"
      using policy_step_trans[OF conjunct1[OF s1]] by blast
    then show ?thesis using True by (intro exI conjI) (simp_all add: process_policies_def Let_def)
  next
    case False
    then show ?thesis using s1 by (intro exI[of _ ?g1] conjI) (auto simp: process_policies_def Let_def)
  qed
qed

lemma shrinks_ok: "shrinks d g g' \<Longrightarrow> graph_ok i g \<Longrightarrow> graph_ok i g'"
proof -
  assume s: "shrinks d g g'" and ok: "graph_ok i g"
  have "fst k \<le> i" if "nd g' k = Some n" for k n using shrinks_Some[OF s that] ok by (auto simp: graph_ok_def)
  then show ?thesis using s ok by (auto simp: shrinks_def graph_ok_def frame_def)
qed

lemma graph_ok_mono: "graph_ok i g \<Longrightarrow> i \<le> j \<Longrightarrow> graph_ok j g"
  by (force simp: graph_ok_def)

lemma process_policies_ok:
  assumes "graph_ok (i - 1) g" and i: "0 < i"
  shows "graph_ok i (process_policies i policies act g) \<and>
    maxPolicyNodes (process_policies i policies act g) = maxPolicyNodes g \<and>
    (capHit g \<longrightarrow> capHit (process_policies i policies act g)) \<and>
    (\<forall>k. nd (process_policies i policies act g) k \<noteq> None \<longrightarrow> nd g k \<noteq> None \<or> (fst k = i \<and> asserts policies (snd k))) \<and>
    (\<not> capHit (process_policies i policies act g) \<longrightarrow> pruned (i - 1) (process_policies i policies act g))"
proof -
  have ok: "graph_ok i g" using graph_ok_mono[OF assms(1)] by simp
  from process_parts[OF ok i] obtain g2 where s: "policy_step i (asserts policies) g g2"
    and e: "process_policies i policies act g = (if capHit g2 then g2 else null_if_empty (prunePolicyChildless (i - 1) g2))" by blast
  have ok2: "graph_ok i g2" using policy_step_ok[OF s ok] .
  then have wf2: "graph_wf g2" "rooted g2" by (simp_all add: graph_ok_def)
  note pr = prune_step[OF wf2, of "i - 1"]
  have ok3: "graph_ok i (prunePolicyChildless (i - 1) g2)" using shrinks_ok[OF conjunct1[OF pr] ok2] .
  have fr: "maxPolicyNodes (prunePolicyChildless (i - 1) g2) = maxPolicyNodes g2" "capHit (prunePolicyChildless (i - 1) g2) = capHit g2"
    using pr by (simp_all add: shrinks_def frame_def)
  have less: "nd g2 k \<noteq> None" if "nd (prunePolicyChildless (i - 1) g2) k \<noteq> None" for k
  proof
    assume "nd g2 k = None"
    then show False using that shrinks_None[OF conjunct1[OF pr], of k] by simp
  qed
  show ?thesis
    using s ok2 ok3 fr less pr unfolding e by (auto simp: null_if_empty_simps policy_step_def)
qed

section \<open>Mappings keep the invariant\<close>

lemma mapped_from_any: "(idp, sdps) \<in> set (mapped_from ms) \<Longrightarrow> idp \<noteq> anyPolicy \<and> anyPolicy \<notin> set sdps"
proof -
  let ?Q = "\<lambda>m. \<forall>(idp, sdps) \<in> set m. idp \<noteq> anyPolicy \<and> anyPolicy \<notin> set sdps"
  let ?f = "\<lambda>(idp, sdp) m. if idp = anyPolicy \<or> sdp = anyPolicy then m
      else AList.update idp ((case map_of m idp of None \<Rightarrow> [] | Some xs \<Rightarrow> xs) @ [sdp]) m"
  have upd: "set (AList.update k v m) \<subseteq> insert (k, v) (set m)" for k v and m :: "(policy \<times> policy list) list"
    by (induction m) auto
  have gen: "?Q m \<Longrightarrow> ?Q (fold ?f ms m)" for m
  proof (induction ms arbitrary: m)
    case (Cons x ms)
    obtain a b where x: "x = (a, b)" by (cases x)
    have "?Q (?f x m)"
    proof (cases "a = anyPolicy \<or> b = anyPolicy")
      case False
      let ?v = "(case map_of m a of None \<Rightarrow> [] | Some xs \<Rightarrow> xs) @ [b]"
      have "anyPolicy \<notin> set ?v"
        using False Cons.prems by (cases "map_of m a") (auto dest!: map_of_SomeD)
      then have "\<forall>(idp, sdps) \<in> insert (a, ?v) (set m). idp \<noteq> anyPolicy \<and> anyPolicy \<notin> set sdps"
        using False Cons.prems by auto
      then show ?thesis using False subset_iff[of "set (AList.update a ?v m)"] upd[of a ?v m] unfolding x by fastforce
    qed (use Cons.prems x in auto)
    then show ?case using Cons.IH by simp
  qed simp
  have "?Q (mapped_from ms)" unfolding mapped_from_def by (rule gen) simp
  then show "(idp, sdps) \<in> set (mapped_from ms) \<Longrightarrow> idp \<noteq> anyPolicy \<and> anyPolicy \<notin> set sdps" by blast
qed

text \<open>Rewriting what a childless node expects.\<close>

lemma modify_expected:
  assumes wf: "graph_wf g" "rooted g" and k: "nd g k = Some n" and c: "children_at g k = []"
    and "snd k \<noteq> anyPolicy" and "anyPolicy \<notin> set sdps"
  shows "policy_step i P g (modify k (\<lambda>n. n\<lparr>expectedPolicySet := sdps\<rparr>) g)" (is "policy_step i P g ?g")
proof -
  have nd: "nd ?g x = (if x = k then Some (n\<lparr>expectedPolicySet := sdps\<rparr>) else nd g x)" for x using k by (simp add: graph_simps)
  have at: "parents_at ?g = parents_at g" "children_at ?g = children_at g"
    using k by (auto simp: fun_eq_iff parents_at_eq children_at_eq nd)
  have cn: "children_of n = []" using c k by (simp add: children_at_eq)
  have wfn: "node_wf ?g x y" if y: "nd ?g x = Some y" for x y
  proof -
    obtain y0 where y0: "nd g x = Some y0" "parents_of y = parents_of y0" "children_of y = children_of y0"
      "x \<noteq> k \<longrightarrow> y = y0" "x = k \<longrightarrow> expectedPolicySet y = sdps"
      using y k unfolding nd by (auto split: if_splits)
    note w = graph_wfD[OF wf(1) y0(1), unfolded node_wf_def]
    have e: "edge_ok ?g x q" if q: "q \<in> set (parents_of y0)" for q
    proof -
      have "q \<noteq> k" using parent_child[OF wf(1) y0(1) q] k cn by auto
      moreover have "edge_ok g x q" using w q by blast
      ultimately show ?thesis unfolding edge_ok_def nd by auto
    qed
    show ?thesis
    proof (cases "x = k")
      case True
      then show ?thesis unfolding node_wf_def at using w e y0 assms(5,6) by auto
    next
      case False
      then show ?thesis unfolding node_wf_def at using w e y0 by auto
    qed
  qed
  have "graph_wf ?g" using wf(1) wfn nd[of root_key] by (auto simp: graph_wf_def graph_simps)
  moreover have "rooted ?g" using wf(2) k unfolding rooted_def nd by (auto split: if_splits)
  ultimately show ?thesis using at nd k by (auto simp: policy_step_def graph_simps)
qed

lemma map_policy_step:
  assumes ok: "graph_ok i g" and i: "0 < i" and m: "(idp, sdps) \<in> set (mapped_from ms)"
    and P: "nd g (i, anyPolicy) \<noteq> None \<Longrightarrow> P idp"
  shows "policy_step i P g (map_policy i (idp, sdps) g)"
proof -
  have wf: "graph_wf g" "rooted g" using ok by (simp_all add: graph_ok_def)
  note nany = mapped_from_any[OF m]
  have c: "children_at g (i, idp) = []" using deepest_childless[OF ok] by simp
  have grow: "grows i idp g (addPolicyNode g i idp q sdps [(i - 1, anyPolicy)])" if "nodeAt g (i - 1) anyPolicy = Some n" for q n
    using any_edge[OF i that] nany by (intro add_grows wf) auto
  have add: "policy_step i P g (addPolicyNode g i idp q sdps [(i - 1, anyPolicy)])"
    if "nodeAt g (i - 1) anyPolicy = Some n" "nodeAt g i anyPolicy = Some m" for q n m
    by (rule grows_step[OF grow[OF that(1)]]) (use that(2) P in \<open>simp add: nodeAt_def nd_def\<close>)
  show ?thesis
  proof (cases "nodeAt g i idp")
    case None
    then show ?thesis using add policy_step_refl[OF wf] by (auto simp: map_policy_def split: option.split)
  next
    case (Some n)
    then have "nd g (i, idp) = Some n" by (simp add: nodeAt_def nd_def)
    from modify_expected[OF wf this c] nany Some show ?thesis by (simp add: map_policy_def)
  qed
qed

lemma unmap_policy_step:
  assumes "graph_ok i g" and "0 < i"
  shows "graph_ok i (fst (unmap_policy i m (g, b))) \<and> shrinks i g (fst (unmap_policy i m (g, b)))"
proof -
  have wf: "graph_wf g" "rooted g" using assms(1) by (simp_all add: graph_ok_def)
  have "shrinks i g (removePolicyNode (i, fst m) g)" if "nd g (i, fst m) = Some n" for n
    using remove_shrinks[OF wf that deepest_childless[OF assms(1)]] assms(2) by simp
  then have "shrinks i g (fst (unmap_policy i m (g, b)))"
    using shrinks_refl[OF wf] by (auto simp: unmap_policy_def nodeAt_def nd_def split: option.split)
  then show ?thesis using shrinks_ok assms(1) by blast
qed

lemma unmap_all:
  "graph_ok i g \<Longrightarrow> 0 < i \<Longrightarrow> graph_ok i (fst (fold (unmap_policy i) ms (g, b))) \<and> shrinks i g (fst (fold (unmap_policy i) ms (g, b))) \<and>
     (\<not> snd (fold (unmap_policy i) ms (g, b)) \<longrightarrow> fst (fold (unmap_policy i) ms (g, b)) = g)"
proof (induction ms arbitrary: g b)
  case (Cons m ms)
  obtain g' b' where u: "unmap_policy i m (g, b) = (g', b')" by fastforce
  have s: "graph_ok i g'" "shrinks i g g'" using unmap_policy_step[OF Cons.prems, of m b] u by auto
  have "snd (fold (unmap_policy i) ms (h, True))" for h
  proof (induction ms arbitrary: h)
    case (Cons m ms)
    obtain h' where "unmap_policy i m (h, True) = (h', True)" by (cases "unmap_policy i m (h, True)") (auto simp: unmap_policy_def split: if_splits option.splits)
    then show ?case using Cons.IH by simp
  qed simp
  moreover have "b' \<or> g' = g" using u by (auto simp: unmap_policy_def split: if_splits option.splits)
  ultimately show ?case using Cons.IH[OF s(1) Cons.prems(2), of b'] s(2) u shrinks_trans[OF s(2), of i]
    by auto
qed (simp add: shrinks_refl graph_ok_def)

text \<open>Adding to the graph keeps it pruned above the depth added at.\<close>

lemma step_pruned:
  assumes s: "policy_step i P g g'" and wf: "graph_wf g" and pr: "pruned (i - 1) g"
  shows "pruned (i - 1) g'"
  unfolding pruned_def
proof (intro allI impI)
  fix k n assume h: "nd g' k = Some n" "0 < fst k" "fst k \<le> i - 1"
  have "nd g' k \<noteq> None" using h(1) by simp
  then have "nd g k \<noteq> None \<or> fst k = i" using s unfolding policy_step_def by blast
  moreover have "fst k \<noteq> i" using h(2,3) by linarith
  ultimately obtain m where m: "nd g k = Some m" by auto
  then obtain c where c: "c \<in> set (children_of m)" using pr h by (cases "children_of m") (auto simp: pruned_def)
  obtain y where y: "nd g c = Some y" "k \<in> set (parents_of y)" using child_parent[OF wf m c] by auto
  then have "k \<in> set (parents_at g c)" by (simp add: parents_at_eq)
  then have kp: "k \<in> set (parents_at g' c)" using s unfolding policy_step_def by blast
  obtain y' where y': "nd g' c = Some y'" using kp by (cases "nd g' c") (simp_all add: parents_at_eq)
  have "graph_wf g'" using s by (simp add: policy_step_def)
  moreover have "k \<in> set (parents_of y')" using kp y' by (simp add: parents_at_eq)
  ultimately obtain l where "nd g' k = Some l" "c \<in> set (children_of l)" using parent_child[OF _ y'] by blast
  then show "children_of n \<noteq> []" using h(1) by auto
qed

lemma applyPolicyMappings_ok:
  assumes ok: "graph_ok i g" and i: "0 < i"
  shows "graph_ok i (applyPolicyMappings pm ms i g) \<and> maxPolicyNodes (applyPolicyMappings pm ms i g) = maxPolicyNodes g \<and>
    (capHit g \<longrightarrow> capHit (applyPolicyMappings pm ms i g)) \<and>
    (\<forall>k. nd (applyPolicyMappings pm ms i g) k \<noteq> None \<longrightarrow> nd g k \<noteq> None \<or> (fst k = i \<and> nd g (i, anyPolicy) \<noteq> None)) \<and>
    (pruned (i - 1) g \<longrightarrow> pruned (i - 1) (applyPolicyMappings pm ms i g))"
proof (cases "pm > 0")
  case True
  have wf: "graph_wf g" using ok by (simp add: graph_ok_def)
  let ?P = "\<lambda>p. nd g (i, anyPolicy) \<noteq> None"
  let ?Q = "\<lambda>h. nd h (i, anyPolicy) \<noteq> None \<longrightarrow> nd g (i, anyPolicy) \<noteq> None"
  have "policy_step i ?P h (map_policy i m h) \<and> ?Q (map_policy i m h)"
    if m: "m \<in> set (mapped_from ms)" and h: "graph_ok i h" "?Q h" for m h
  proof -
    obtain idp sdps where e: "m = (idp, sdps)" by (cases m)
    have s: "policy_step i ?P h (map_policy i m h)" using map_policy_step[OF h(1) i, of idp sdps ms ?P] m h(2) e by simp
    then show ?thesis using h(2) unfolding policy_step_def by blast
  qed
  then have s: "policy_step i ?P g (fold (map_policy i) (mapped_from ms) g) \<and> ?Q (fold (map_policy i) (mapped_from ms) g)"
    using ok by (intro fold_policy_step) blast+
  have e: "applyPolicyMappings pm ms i g = fold (map_policy i) (mapped_from ms) g" using True by (simp add: applyPolicyMappings_def)
  show ?thesis unfolding e
    using s policy_step_ok[OF conjunct1[OF s] ok] step_pruned[OF conjunct1[OF s] wf] by (auto simp: policy_step_def)
next
  case False
  obtain g' b where u: "fold (unmap_policy i) ms (g, False) = (g', b)" by fastforce
  have d: "graph_ok i g'" "shrinks i g g'" "\<not> b \<longrightarrow> g' = g" using unmap_all[OF ok i, of ms False] u by auto
  have wf': "graph_wf g'" "rooted g'" using d(1) by (simp_all add: graph_ok_def)
  note pr = prune_step[OF wf', of "i - 1"]
  have ok2: "graph_ok i (prunePolicyChildless (i - 1) g')" using shrinks_ok[OF conjunct1[OF pr] d(1)] .
  have was: "nd g k \<noteq> None" if "nd (prunePolicyChildless (i - 1) g') k \<noteq> None" for k
  proof
    assume "nd g k = None"
    then show False using that shrinks_None[OF conjunct1[OF pr], of k] shrinks_None[OF d(2), of k] by simp
  qed
  have f: "frame (prunePolicyChildless (i - 1) g') = frame g" using pr d(2) by (simp add: shrinks_def)
  show ?thesis
  proof (cases "graph_present g \<and> b")
    case True
    then have e: "applyPolicyMappings pm ms i g = null_if_empty (prunePolicyChildless (i - 1) g')"
      using False u by (simp add: applyPolicyMappings_def)
    show ?thesis unfolding e using ok2 was f pr by (auto simp: null_if_empty_simps frame_def)
  next
    case nodel: False
    then have "applyPolicyMappings pm ms i g = g" using False u d(3) by (auto simp: applyPolicyMappings_def)
    then show ?thesis using ok by simp
  qed
qed

end
