(* ===== verification/Policy_Path.thy ===== *)
theory Policy_Path
  imports Policy_Steps
begin

text \<open>
  lib/path-validate.js, what the valid-policy graph of a path means: the graphs the steps reach as an
  inductive relation, their invariant by rule induction, and the chain of certificates behind every
  policy of the user-constrained set.
\<close>

section \<open>Reachable graphs\<close>

text \<open>\<open>asserted\<close> lists, certificate by certificate, the policies its extension names.\<close>

inductive policy_reach :: "nat \<Rightarrow> pgraph \<Rightarrow> policy list list \<Rightarrow> bool" for mx where
  start: "1 \<le> mx \<Longrightarrow> policy_reach mx (graph_start mx) []"
| certificate: "policy_reach mx g asserted \<Longrightarrow> graph_present g \<Longrightarrow>
    policy_reach mx (process_policies (Suc (length asserted)) policies anyActive g) (asserted @ [map fst policies])"
| mappings: "policy_reach mx g asserted \<Longrightarrow> graph_present g \<Longrightarrow> asserted \<noteq> [] \<Longrightarrow>
    policy_reach mx (applyPolicyMappings policyMapping ms (length asserted) g) asserted"

inductive_cases policy_reach_startE: "policy_reach mx g []"

definition names :: "policy list \<Rightarrow> policy \<Rightarrow> bool" where
  "names ps p \<longleftrightarrow> p \<in> set ps \<or> anyPolicy \<in> set ps"

definition supported :: "policy list list \<Rightarrow> pgraph \<Rightarrow> bool" where
  "supported asserted g \<longleftrightarrow> (\<forall>k. nd g k \<noteq> None \<longrightarrow> 0 < fst k \<longrightarrow>
     fst k \<le> length asserted \<and> names (asserted ! (fst k - 1)) (snd k))"

lemma policy_reach_ok:
  "policy_reach mx g asserted \<Longrightarrow> graph_ok (length asserted) g \<and> maxPolicyNodes g = mx \<and> supported asserted g \<and>
     (\<not> capHit g \<longrightarrow> pruned (length asserted - 1) g)"
proof (induction rule: policy_reach.induct)
  case start
  then show ?case using graph_start_ok
    by (auto simp: supported_def pruned_def graph_start_def nd_def root_key_def split: if_splits)
next
  case (certificate g asserted policies anyActive)
  let ?g = "process_policies (Suc (length asserted)) policies anyActive g"
  have p: "graph_ok (Suc (length asserted)) ?g \<and> maxPolicyNodes ?g = maxPolicyNodes g \<and> (capHit g \<longrightarrow> capHit ?g) \<and>
    (\<forall>k. nd ?g k \<noteq> None \<longrightarrow> nd g k \<noteq> None \<or> (fst k = Suc (length asserted) \<and> asserts policies (snd k))) \<and>
    (\<not> capHit ?g \<longrightarrow> pruned (Suc (length asserted) - 1) ?g)"
    using certificate.IH by (intro process_policies_ok) simp_all
  have "supported (asserted @ [map fst policies]) ?g"
    unfolding supported_def
  proof (intro allI impI)
    fix k assume k: "nd ?g k \<noteq> None" "0 < fst k"
    then consider "nd g k \<noteq> None" | "fst k = Suc (length asserted)" "asserts policies (snd k)" using p by blast
    then show "fst k \<le> length (asserted @ [map fst policies]) \<and> names ((asserted @ [map fst policies]) ! (fst k - 1)) (snd k)"
    proof cases
      case 1
      then have "fst k \<le> length asserted \<and> names (asserted ! (fst k - 1)) (snd k)"
        using certificate.IH k(2) unfolding supported_def by blast
      moreover have "fst k - 1 < length asserted" using calculation k(2) by linarith
      ultimately show ?thesis by (simp add: nth_append)
    qed (simp add: nth_append asserts_def names_def)
  qed
  then show ?case using p certificate.IH by simp
next
  case (mappings g asserted policyMapping ms)
  let ?g = "applyPolicyMappings policyMapping ms (length asserted) g"
  have p: "graph_ok (length asserted) ?g \<and> maxPolicyNodes ?g = maxPolicyNodes g \<and> (capHit g \<longrightarrow> capHit ?g) \<and>
    (\<forall>k. nd ?g k \<noteq> None \<longrightarrow> nd g k \<noteq> None \<or> (fst k = length asserted \<and> nd g (length asserted, anyPolicy) \<noteq> None)) \<and>
    (pruned (length asserted - 1) g \<longrightarrow> pruned (length asserted - 1) ?g)"
    using mappings by (intro applyPolicyMappings_ok) simp_all
  have "supported asserted ?g"
    unfolding supported_def
  proof (intro allI impI)
    fix k assume k: "nd ?g k \<noteq> None" "0 < fst k"
    then consider "nd g k \<noteq> None" | "fst k = length asserted" "nd g (length asserted, anyPolicy) \<noteq> None" using p by blast
    then show "fst k \<le> length asserted \<and> names (asserted ! (fst k - 1)) (snd k)"
    proof cases
      case 1
      then show ?thesis using mappings.IH k(2) unfolding supported_def by blast
    next
      case 2
      then have "0 < fst (length asserted, anyPolicy)" using k(2) by simp
      then have "names (asserted ! (length asserted - 1)) anyPolicy"
        using mappings.IH 2 unfolding supported_def by (metis fst_conv snd_conv)
      then show ?thesis using 2 by (simp add: names_def)
    qed
  qed
  then show ?case using p mappings.IH by auto
qed

section \<open>Chains\<close>

text \<open>Policies at consecutive depths from \<open>d\<close> on, each a parent of the next.\<close>

definition chain :: "pgraph \<Rightarrow> nat \<Rightarrow> policy list \<Rightarrow> bool" where
  "chain g d ps \<longleftrightarrow> (\<forall>j. Suc j < length ps \<longrightarrow> (d + j, ps ! j) \<in> set (parents_at g (Suc (d + j), ps ! Suc j)))"

lemma chain_single [simp]: "chain g d [p]"
  by (simp add: chain_def)

lemma chain_append:
  assumes "chain g d ps" and "chain g (d + length ps) qs" and "ps \<noteq> []" and "qs \<noteq> []"
    and "(d + length ps - 1, last ps) \<in> set (parents_at g (d + length ps, hd qs))"
  shows "chain g d (ps @ qs)"
  unfolding chain_def
proof (intro allI impI)
  fix j assume j: "Suc j < length (ps @ qs)"
  consider "Suc j < length ps" | "Suc j = length ps" | "length ps \<le> j" by linarith
  then show "(d + j, (ps @ qs) ! j) \<in> set (parents_at g (Suc (d + j), (ps @ qs) ! Suc j))"
  proof cases
    case 1
    then show ?thesis using assms(1) by (simp add: chain_def nth_append)
  next
    case 2
    then have len: "length ps = Suc j" by simp
    then have e: "ps ! j = last ps" "qs ! 0 = hd qs" using assms(3,4) by (simp_all add: last_conv_nth hd_conv_nth)
    show ?thesis using assms(5) e by (simp add: nth_append len)
  next
    case 3
    then obtain i where i: "j = length ps + i" by (metis le_iff_add)
    then have "Suc i < length qs" using j by simp
    then show ?thesis using assms(2) i by (simp add: chain_def nth_append add.assoc)
  qed
qed

lemma chain_up:
  "graph_wf g \<Longrightarrow> rooted g \<Longrightarrow> nd g (d, p) \<noteq> None \<Longrightarrow>
     \<exists>ps. length ps = Suc d \<and> ps ! 0 = anyPolicy \<and> last ps = p \<and> chain g 0 ps \<and> (\<forall>j \<le> d. nd g (j, ps ! j) \<noteq> None)"
proof (induction d arbitrary: p)
  case 0
  then obtain n where n: "nd g (0, p) = Some n" by auto
  then have "p = anyPolicy" using graph_wfD[OF 0(1) n] by (simp add: node_wf_def)
  then show ?case using n by (intro exI[of _ "[p]"]) simp
next
  case (Suc d)
  then obtain n where n: "nd g (Suc d, p) = Some n" by auto
  then have "parents_of n \<noteq> []" using Suc.prems(2) by (auto simp: rooted_def)
  then obtain pk where pk: "pk \<in> set (parents_of n)" by (cases "parents_of n") auto
  obtain q where q: "pk = (d, q)" "nd g (d, q) \<noteq> None"
    using parent_child[OF Suc.prems(1) n pk] by (cases pk) auto
  obtain ps where ps: "length ps = Suc d" "ps ! 0 = anyPolicy" "last ps = q" "chain g 0 ps" "\<forall>j \<le> d. nd g (j, ps ! j) \<noteq> None"
    using Suc.IH[OF Suc.prems(1,2) q(2)] by auto
  have "chain g 0 (ps @ [p])" using ps pk q n by (intro chain_append) (auto simp: parents_at_eq)
  moreover have "\<forall>j \<le> Suc d. nd g (j, (ps @ [p]) ! j) \<noteq> None"
    using ps(1,5) n by (auto simp: nth_append le_Suc_eq)
  ultimately show ?case using ps by (intro exI[of _ "ps @ [p]"]) (auto simp: nth_append)
qed

lemma chain_down:
  "graph_wf g \<Longrightarrow> pruned (n - 1) g \<Longrightarrow> nd g (n - m, p) \<noteq> None \<Longrightarrow> m < n \<Longrightarrow>
     \<exists>ps. length ps = Suc m \<and> hd ps = p \<and> chain g (n - m) ps \<and> (\<forall>j \<le> m. nd g (n - m + j, ps ! j) \<noteq> None)"
proof (induction m arbitrary: p)
  case 0
  then show ?case by (intro exI[of _ "[p]"]) simp
next
  case (Suc m)
  then obtain x where x: "nd g (n - Suc m, p) = Some x" by auto
  have "children_of x \<noteq> []" using Suc.prems(2,4) x unfolding pruned_def by fastforce
  then obtain ck where ck: "ck \<in> set (children_of x)" by (cases "children_of x") auto
  obtain q where q: "ck = (n - m, q)" "nd g (n - m, q) \<noteq> None" "(n - Suc m, p) \<in> set (parents_at g (n - m, q))"
    using child_parent[OF Suc.prems(1) x ck] Suc.prems(4) by (cases ck) (auto simp: parents_at_eq Suc_diff_Suc)
  obtain ps where ps: "length ps = Suc m" "hd ps = q" "chain g (n - m) ps" "\<forall>j \<le> m. nd g (n - m + j, ps ! j) \<noteq> None"
    using Suc.IH[OF Suc.prems(1,2) q(2)] Suc.prems(4) by auto
  have s: "n - Suc m + 1 = n - m" using Suc.prems(4) by simp
  have "chain g (n - Suc m) ([p] @ ps)"
    using ps q(3) s by (intro chain_append) auto
  moreover have "nd g (n - Suc m + j, ([p] @ ps) ! j) \<noteq> None" if "j \<le> Suc m" for j
  proof (cases j)
    case (Suc i)
    have e: "n - Suc m + j = n - m + i" using s Suc by simp
    have "i \<le> m" using that Suc by simp
    then have "nd g (n - m + i, ps ! i) \<noteq> None" using ps(4) by blast
    moreover have "([p] @ ps) ! j = ps ! i" using Suc by simp
    ultimately show ?thesis unfolding e by simp
  qed (use x in simp)
  ultimately show ?case using ps by (intro exI[of _ "[p] @ ps"]) auto
qed

lemma chain_tl: "chain g d (p # q # qs) \<Longrightarrow> chain g (Suc d) (q # qs) \<and> (d, p) \<in> set (parents_at g (Suc d, q))"
  by (auto simp: chain_def dest: spec[of _ "Suc _"] spec[of _ 0])

text \<open>Every node lies on a chain from the root to the depth of the last certificate.\<close>

lemma chain_through:
  assumes ok: "graph_ok n g" and pr: "pruned (n - 1) g" and x: "nd g (d, p) \<noteq> None" and d: "d \<le> n" "d = n \<or> 0 < d"
  shows "\<exists>ps. length ps = Suc n \<and> ps ! 0 = anyPolicy \<and> ps ! d = p \<and> chain g 0 ps \<and> (\<forall>j \<le> n. nd g (j, ps ! j) \<noteq> None)"
proof -
  have wf: "graph_wf g" "rooted g" using ok by (simp_all add: graph_ok_def)
  obtain us where us: "length us = Suc d" "us ! 0 = anyPolicy" "last us = p" "chain g 0 us" "\<forall>j \<le> d. nd g (j, us ! j) \<noteq> None"
    using chain_up[OF wf x] by blast
  have pu: "us ! d = p" using us(1,3) by (metis diff_Suc_1 last_conv_nth list.size(3) Zero_not_Suc)
  show ?thesis
  proof (cases "d = n")
    case True
    then show ?thesis using us pu by blast
  next
    case False
    then have m: "n - (n - d) = d" "n - d < n" using d by auto
    then obtain ds where ds: "length ds = Suc (n - d)" "hd ds = p" "chain g d ds" "\<forall>j \<le> n - d. nd g (d + j, ds ! j) \<noteq> None"
      using chain_down[OF wf(1) pr, of "n - d" p] x by auto
    obtain q qs where q: "ds = p # q # qs" using ds(1,2) False d by (cases ds; cases "tl ds") auto
    note t = chain_tl[OF ds(3)[unfolded q]]
    have "chain g 0 (us @ (q # qs))" using us t by (intro chain_append) auto
    moreover have "nd g (j, (us @ (q # qs)) ! j) \<noteq> None" if "j \<le> n" for j
    proof (cases "j \<le> d")
      case True
      then show ?thesis using us(1,5) by (simp add: nth_append)
    next
      case False
      then obtain i where i: "j = Suc d + i" using less_iff_Suc_add[of d j] by auto
      have "Suc i \<le> n - d" using that i d by linarith
      then have "nd g (d + Suc i, ds ! Suc i) \<noteq> None" using ds(4) by blast
      then show ?thesis using us(1) q i by (simp add: nth_append)
    qed
    moreover have "length (us @ (q # qs)) = Suc n" using us(1) ds(1) q d by simp
    ultimately show ?thesis using us pu by (intro exI[of _ "us @ (q # qs)"]) (auto simp: nth_append)
  qed
qed

section \<open>The user-constrained set\<close>

lemma fold_note_in:
  "p \<in> set (fold note_node xs a) \<Longrightarrow> p \<in> set a \<or> (\<exists>d n. ((d, p), n) \<in> set xs)"
proof (induction xs arbitrary: a)
  case (Cons x xs)
  obtain d q n where x: "x = ((d, q), n)" by (metis surj_pair)
  have "p \<in> set (note_node x a) \<Longrightarrow> p \<in> set a \<or> p = q"
    by (auto simp: x note_node_def note_policy_def split: if_splits)
  then show ?case using Cons.IH[of "note_node x a"] Cons.prems x by auto
qed simp

lemma fold_depths_in:
  "p \<in> set (fold (\<lambda>d. fold note_node (nodesAt g d)) ds a) \<Longrightarrow> p \<in> set a \<or> (\<exists>d \<in> set ds. nd g (d, p) \<noteq> None)"
proof (induction ds arbitrary: a)
  case (Cons d ds)
  have *: "nd g (d, p) \<noteq> None" if "((e, p), n) \<in> set (nodesAt g d)" for e n
    using that by (auto simp: nodesAt_def nd_def map_of_eq_None_iff intro: rev_image_eqI)
  from Cons.IH[of "fold note_node (nodesAt g d) a"] Cons.prems
  show ?case using fold_note_in[of p "nodesAt g d" a] * by auto
qed simp

lemma authority_nodes:
  assumes "p \<in> set (authority_policies g n)"
  shows "\<exists>d. nd g (d, p) \<noteq> None \<and> d \<le> n \<and> (d = n \<or> 0 < d)"
proof -
  have "p \<in> set (fold (\<lambda>d. fold note_node (nodesAt g d)) [1..<n + 1] []) \<or> (p = anyPolicy \<and> nd g (n, anyPolicy) \<noteq> None)"
    using assms by (auto simp: authority_policies_def Let_def note_policy_def nodeAt_def nd_def split: option.splits if_splits)
  then show ?thesis using fold_depths_in[of p g "[1..<n + 1]" "[]"] by fastforce
qed

lemma authority_any: "anyPolicy \<in> set (authority_policies g n) \<Longrightarrow> nd g (n, anyPolicy) \<noteq> None"
proof -
  have none: "anyPolicy \<notin> set a \<Longrightarrow> anyPolicy \<notin> set (fold note_node xs a)" for xs a
    by (induction xs arbitrary: a) (auto simp: note_node_def note_policy_def split: prod.splits)
  have "anyPolicy \<notin> set a \<Longrightarrow> anyPolicy \<notin> set (fold (\<lambda>d. fold note_node (nodesAt g d)) ds a)" for ds a
    by (induction ds arbitrary: a) (simp_all add: none)
  then show "anyPolicy \<in> set (authority_policies g n) \<Longrightarrow> nd g (n, anyPolicy) \<noteq> None"
    by (auto simp: authority_policies_def Let_def nodeAt_def nd_def split: option.splits)
qed

lemma fold_note_policy: "set (fold note_policy ps a) = set ps \<union> set a"
  by (induction ps arbitrary: a) (auto simp: note_policy_def)

lemma user_constrained_in:
  assumes "p \<in> set (userConstrainedPolicies g n uips)"
  shows "graph_present g \<and> (p \<in> set uips \<or> anyPolicy \<in> set uips) \<and>
    (\<exists>q. (q = p \<or> q = anyPolicy) \<and> q \<in> set (authority_policies g n))"
  using assms by (auto simp: userConstrainedPolicies_def Let_def fold_note_policy split: if_splits)

lemma justified_policy:
  assumes "policy_reach mx g asserted" and "\<not> capHit g" and "p \<in> set (userConstrainedPolicies g (length asserted) uips)"
  shows "(p \<in> set uips \<or> anyPolicy \<in> set uips) \<and>
    (\<exists>ps. length ps = Suc (length asserted) \<and> ps ! 0 = anyPolicy \<and> (p \<in> set ps \<or> last ps = anyPolicy) \<and>
      (\<forall>j < length asserted. names (asserted ! j) (ps ! Suc j) \<and> edge_ok g (Suc j, ps ! Suc j) (j, ps ! j)))"
proof -
  let ?n = "length asserted"
  note r = policy_reach_ok[OF assms(1)]
  note u = user_constrained_in[OF assms(3)]
  obtain q where q: "q = p \<or> q = anyPolicy" "q \<in> set (authority_policies g ?n)" using u by blast
  have any: "\<exists>d. nd g (d, q) \<noteq> None \<and> d \<le> ?n \<and> (d = ?n \<or> (0 < d \<and> q = p))"
    using q authority_nodes[OF q(2)] authority_any[of g ?n] by blast
  then obtain d where d: "nd g (d, q) \<noteq> None" "d \<le> ?n" "d = ?n \<or> (0 < d \<and> q = p)" by blast
  from chain_through[of ?n g d q] r assms(2) d obtain ps where
    ps: "length ps = Suc ?n" "ps ! 0 = anyPolicy" "ps ! d = q" "chain g 0 ps" "\<forall>j \<le> ?n. nd g (j, ps ! j) \<noteq> None" by blast
  have "names (asserted ! j) (ps ! Suc j) \<and> edge_ok g (Suc j, ps ! Suc j) (j, ps ! j)" if j: "j < ?n" for j
  proof -
    have n: "nd g (Suc j, ps ! Suc j) \<noteq> None" using ps(5) j by simp
    then have "names (asserted ! j) (ps ! Suc j)" using r unfolding supported_def by (metis diff_Suc_1 fst_conv snd_conv zero_less_Suc)
    moreover obtain y where y: "nd g (Suc j, ps ! Suc j) = Some y" using n by auto
    moreover have "(j, ps ! j) \<in> set (parents_of y)" using ps(1,4) j y by (auto simp: chain_def parents_at_eq)
    ultimately show ?thesis using graph_wfD[of g "(Suc j, ps ! Suc j)" y] r by (auto simp: node_wf_def graph_ok_def)
  qed
  moreover have "p \<in> set ps \<or> last ps = anyPolicy"
    using ps(1,3) d(2,3) q(1) by (metis diff_Suc_1 last_conv_nth le_imp_less_Suc list.size(3) nth_mem Zero_not_Suc)
  ultimately show ?thesis using ps u by blast
qed

text \<open>C22: the user-constrained policy set is justified.  A policy in it was accepted by the user, and
  behind it there is one policy per certificate, from anyPolicy at the root on, such that every
  certificate named its policy or anyPolicy, each policy was expected by the one before or follows
  anyPolicy, and the policy itself (or anyPolicy, standing for it) is one of them.\<close>

theorem policy_set_justified:
  assumes "policy_reach mx g asserted" and "\<not> capHit g" and "p \<in> set (userConstrainedPolicies g (length asserted) uips)"
  shows "(p \<in> set uips \<or> anyPolicy \<in> set uips) \<and>
    (\<exists>ps. length ps = Suc (length asserted) \<and> ps ! 0 = anyPolicy \<and> (p \<in> set ps \<or> last ps = anyPolicy) \<and>
      (\<forall>j < length asserted. names (asserted ! j) (ps ! Suc j) \<and> edge_ok g (Suc j, ps ! Suc j) (j, ps ! j)))"
  by (rule justified_policy[OF assms])

definition policy_sample :: pgraph where
  "policy_sample = process_policies 1 [(js_lit ''1.2'', None)] True (graph_start 8)"

theorem policy_set_justified_witness:
  "js_lit ''1.2'' \<in> set (userConstrainedPolicies policy_sample 1 [anyPolicy]) \<and>
   (\<exists>ps. length ps = 2 \<and> ps ! 0 = anyPolicy \<and> (js_lit ''1.2'' \<in> set ps \<or> last ps = anyPolicy))"
proof -
  have reach: "policy_reach 8 policy_sample [[js_lit ''1.2'']]"
    using policy_reach.certificate[OF policy_reach.start, of 8 "[(js_lit ''1.2'', None)]" True]
    by (simp add: policy_sample_def graph_start_def)
  have ok: "\<not> capHit policy_sample" and set: "userConstrainedPolicies policy_sample (length [[js_lit ''1.2'']]) [anyPolicy] = [js_lit ''1.2'']"
    by code_simp+
  have "js_lit ''1.2'' \<in> set (userConstrainedPolicies policy_sample (length [[js_lit ''1.2'']]) [anyPolicy])"
    unfolding set by simp
  from policy_set_justified[OF reach ok this] set show ?thesis by (auto simp: numeral_2_eq_2)
qed

end
