(* ===== verification/Path_Steps.thy ===== *)
theory Path_Steps
  imports Path_Validate Policy_Path
begin

text \<open>
  lib/path-validate.js, what a certificate that left \<open>failed\<close> false has passed: each check leaves the
  algorithm's own state alone (\<open>core\<close>), each sets \<open>failed\<close> exactly when it refuses, and a path whose
  loop ends unfailed is a sequence of states (\<open>run\<close>) each related to the next by one accepted
  certificate (\<open>accepted\<close>, \<open>prepared\<close>).
\<close>

named_theorems step_simps "what a step does to the core, to failed and to the flags"

section \<open>The algorithm's own state\<close>

definition core where
  "core st = (graph st, permittedGenerations st, excludedSubtrees st, explicitPolicy st, inhibitAnyPolicy st,
     policyMapping st, maxPathLength st, workingKey st, workingIssuerName st, userInitialPolicySet st)"

definition flags where
  "flags st = (revocationRan st, revocationWaived st, revocationUndetermined st, prefixAuthentic st, distrustedFrom st)"

lemma flags_row [step_simps]: "flags (row n c st) = flags st"
  by (simp add: flags_def row_def)
lemma flags_verdict_row [step_simps]: "flags (verdict_row n c st) = flags st"
  by (simp add: flags_def verdict_row_def row_def)
lemma flags_fail [step_simps]: "flags (fail st) = flags st"
  by (simp add: flags_def fail_def)
lemma flags_close [step_simps]: "flags (close_step st) = flags st"
  by (simp add: flags_def close_step_def)
lemma flags_graph [step_simps]: "flags (st\<lparr>graph := g\<rparr>) = flags st"
  by (simp add: flags_def)

lemma core_eqD:
  assumes "core st = core st'"
  shows "graph st = graph st'" "permittedGenerations st = permittedGenerations st'"
    "excludedSubtrees st = excludedSubtrees st'" "explicitPolicy st = explicitPolicy st'"
    "inhibitAnyPolicy st = inhibitAnyPolicy st'" "policyMapping st = policyMapping st'"
    "maxPathLength st = maxPathLength st'" "workingKey st = workingKey st'"
    "workingIssuerName st = workingIssuerName st'" "userInitialPolicySet st = userInitialPolicySet st'"
  using assms by (simp_all add: core_def)

lemma core_row [step_simps]: "core (row n c st) = core st"
  by (simp add: core_def row_def)
lemma core_verdict_row [step_simps]: "core (verdict_row n c st) = core st"
  by (simp add: core_def verdict_row_def row_def)
lemma core_fail [step_simps]: "core (fail st) = core st"
  by (simp add: core_def fail_def)
lemma core_status_row [step_simps]: "core (status_row s c w st) = core st"
  by (simp add: core_def status_row_def)
lemma core_undetermined [step_simps]: "core (undetermined st) = core st"
  by (simp add: core_def undetermined_def)
lemma core_ran [step_simps]: "core (ran st) = core st"
  by (simp add: core_def ran_def)
lemma core_distrust [step_simps]: "core (distrust_from i st) = core st"
  by (simp add: core_def distrust_from_def)
lemma core_waived [step_simps]: "core (st\<lparr>revocationWaived := b\<rparr>) = core st"
  by (simp add: core_def)
lemma core_authentic [step_simps]: "core (st\<lparr>prefixAuthentic := b\<rparr>) = core st"
  by (simp add: core_def)
lemma core_close [step_simps]: "core (close_step st) = core st"
  by (simp add: core_def close_step_def)

lemma failed_row [step_simps]: "failed (row n c st) = failed st"
  by (simp add: row_def)
lemma failed_verdict_row [step_simps]: "failed (verdict_row n c st) \<longleftrightarrow> failed st \<or> c \<noteq> None"
  by (simp add: verdict_row_def row_def)
lemma failed_fail [step_simps]: "failed (fail st)"
  by (simp add: fail_def)
lemma failed_status_row [step_simps]: "failed (status_row s c w st) = failed st"
  by (simp add: status_row_def)
lemma failed_undetermined [step_simps]: "failed (undetermined st) = failed st"
  by (simp add: undetermined_def)
lemma failed_ran [step_simps]: "failed (ran st) = failed st"
  by (simp add: ran_def)
lemma failed_distrust [step_simps]: "failed (distrust_from i st) = failed st"
  by (simp add: distrust_from_def)
lemma failed_waived [step_simps]: "failed (st\<lparr>revocationWaived := b\<rparr>) = failed st"
  by simp
lemma failed_authentic [step_simps]: "failed (st\<lparr>prefixAuthentic := b\<rparr>) = failed st"
  by simp
lemma failed_close [step_simps]: "failed (close_step st) = failed st"
  by (simp add: close_step_def)

section \<open>Single steps\<close>

lemma signature_core [step_simps]: "core (signature_step E cert st) = core st"
  by (simp add: signature_step_def Let_def step_simps)

lemma signature_failed [step_simps]:
  "failed (signature_step E cert st) \<longleftrightarrow> failed st \<or>
     weakIssuerKey (v_minRsaModulusBits E) (wk_key (workingKey st)) \<or> v_verify E cert (workingKey st) \<noteq> None"
  by (simp add: signature_step_def Let_def step_simps)

lemma anchor_key_core [step_simps]: "core (anchor_key_step E a idx st) = core st"
  by (simp add: anchor_key_step_def step_simps)

lemma anchor_key_failed [step_simps]:
  "failed (anchor_key_step E a idx st) \<longleftrightarrow> failed st \<or>
     (idx = 0 \<and> (v_compromised E (wk_key (ta_key a)) \<or> v_distrusted E (wk_key (ta_key a))))"
  by (auto simp: anchor_key_step_def step_simps)

definition refused_key :: "env \<Rightarrow> bytes \<Rightarrow> bool" where
  "refused_key E k \<longleftrightarrow> v_compromised E k \<or> v_distrusted E k"

lemma key_stepD:
  assumes "key_step E idx cert st = Inr st'"
  shows "core st' = core st" and "failed st' \<longleftrightarrow> failed st \<or> refused_key E (sp_bytes (c_spki cert)) \<or>
    (\<exists>b. inheritedSpki (workingKey st) (c_spki cert) = Inr (Some b) \<and> refused_key E b)"
proof -
  obtain inh where i: "inheritedSpki (workingKey st) (c_spki cert) = Inr inh"
    using assms by (auto simp: key_step_def bindR_eq_Inr)
  from assms show "core st' = core st"
    by (auto simp: key_step_def i Let_def step_simps split: if_splits)
  from assms show "failed st' \<longleftrightarrow> failed st \<or> refused_key E (sp_bytes (c_spki cert)) \<or>
    (\<exists>b. inheritedSpki (workingKey st) (c_spki cert) = Inr (Some b) \<and> refused_key E b)"
    by (cases inh) (auto simp: key_step_def i Let_def step_simps refused_key_def opt_holds_def split: if_splits)
qed

lemma usage_core [step_simps]: "core (usage_step E cert st) = core st"
  by (simp add: usage_step_def Let_def step_simps)

definition usage_ok :: "env \<Rightarrow> cert \<Rightarrow> bool" where
  "usage_ok E cert \<longleftrightarrow> (let alg = sp_alg (c_spki cert) in
     (v_composite E alg \<longrightarrow> compositeKeyUsageCheck (v_dec E) cert = None) \<and>
     (alg \<in> set STATEFUL_HBS_OIDS \<longrightarrow> statefulHbsKeyUsageCheck (v_dec E) cert (isCaCert (v_dec E) cert) = None) \<and>
     (alg \<in> set ML_KEM_OIDS \<longrightarrow> kemKeyUsageCheck (v_dec E) cert = None))"

lemma usage_failed [step_simps]: "failed (usage_step E cert st) \<longleftrightarrow> failed st \<or> \<not> usage_ok E cert"
  by (auto simp: usage_step_def usage_ok_def Let_def step_simps)

lemma validity_core [step_simps]: "core (validity_step E cert st) = core st"
  by (simp add: validity_step_def step_simps)

lemma validity_failed [step_simps]:
  "failed (validity_step E cert st) \<longleftrightarrow> failed st \<or> \<not> (c_notBefore cert \<le> v_time E \<and> v_time E \<le> c_notAfter cert)"
  by (auto simp: validity_step_def step_simps)

definition name_chains :: "env \<Rightarrow> dn \<Rightarrow> dn \<Rightarrow> bool" where
  "name_chains E a b \<longleftrightarrow> dnEqual (v_lc E) (PathE Path_name_chaining) a b = Inr True"

lemma chaining_core [step_simps]: "core (chaining_step E cert st) = core st"
  by (simp add: chaining_step_def step_simps)

lemma chaining_failed [step_simps]:
  "failed (chaining_step E cert st) \<longleftrightarrow> failed st \<or> \<not> name_chains E (c_issuer cert) (workingIssuerName st)"
  by (simp add: chaining_step_def step_simps name_chains_def)

lemma tls_core [step_simps]: "core (tls_step E issuer cert st) = core st"
  by (simp add: tls_step_def step_simps split: option.splits)

lemma tls_failed [step_simps]:
  "failed (tls_step E issuer cert st) \<longleftrightarrow> failed st \<or> (\<exists>e. tlsFeatureChainCheck (v_dec E) issuer cert = Some (Some e))"
  by (auto simp: tls_step_def step_simps split: option.splits)

lemma names_core [step_simps]: "core (names_step E n cert i st) = core st"
  by (simp add: names_step_def step_simps)

definition names_ok :: "env \<Rightarrow> nat \<Rightarrow> cert \<Rightarrow> nat \<Rightarrow> pstate \<Rightarrow> bool" where
  "names_ok E n cert i st \<longleftrightarrow> (selfIssued E cert \<and> i \<noteq> n) \<or>
     checkNameConstraints (v_lc E) (v_dec E) (excludedSubtrees st) (permittedGenerations st) cert = Inr None"

lemma names_failed [step_simps]: "failed (names_step E n cert i st) \<longleftrightarrow> failed st \<or> \<not> names_ok E n cert i st"
  by (auto simp: names_step_def names_ok_def step_simps split: sum.splits)

lemma revocation_core [step_simps]: "core (revocation_step E idx issuer cert st) = core st"
  by (simp add: revocation_step_def answer_step_def Let_def step_simps split: option.splits)

lemma revocation_failed: "failed st \<Longrightarrow> failed (revocation_step E idx issuer cert st)"
  by (auto simp: revocation_step_def answer_step_def Let_def step_simps split: option.splits)

lemma subject_core [step_simps]: "core (subject_step cert st) = core st"
  by (simp add: subject_step_def step_simps)

lemma subject_failed [step_simps]:
  "failed (subject_step cert st) \<longleftrightarrow> failed st \<or>
     (c_subject cert = [] \<and> \<not> opt_holds x_critical (findExt cert oid_subjectAltName))"
  by (auto simp: subject_step_def step_simps)

lemma extension_core [step_simps]: "core (extension_step E n cert i st) = core st"
  by (simp add: extension_step_def Let_def step_simps split: option.splits)

lemma extension_failed [step_simps]:
  "failed (extension_step E n cert i st) \<longleftrightarrow> failed st \<or> unrecognizedCriticalExtension cert (i = n) \<noteq> None \<or>
     validateCriticalExtensionStructure (v_dec E) cert \<noteq> None"
  by (auto simp: extension_step_def Let_def step_simps split: option.splits)

section \<open>The policy step\<close>

text \<open>What the certificate's policies do to the graph when nothing is refused.\<close>

definition policies_of :: "env \<Rightarrow> cert \<Rightarrow> (bool \<times> (jsstr \<times> bytes option) list) option res" where
  "policies_of E cert = decodeExt cert oid_certificatePolicies (d_certificatePolicies (v_dec E))"

definition graph_after :: "env \<Rightarrow> nat \<Rightarrow> cert \<Rightarrow> nat \<Rightarrow> pstate \<Rightarrow> pgraph" where
  "graph_after E n cert i st = (case policies_of E cert of
      Inr (Some (_, policies)) \<Rightarrow>
        if graph_present (graph st)
        then process_policies i policies (inhibitAnyPolicy st > 0 \<or> (i < n \<and> selfIssued E cert)) (graph st)
        else graph st
    | _ \<Rightarrow> (graph st)\<lparr>graph_present := False\<rparr>)"

lemma policies_step_failed: "failed st \<Longrightarrow> failed (policies_step E n cert i st)"
  by (auto simp: policies_step_def processPolicies_def Let_def step_simps split: sum.splits option.splits prod.splits)

lemma core_graph: "core st = core st' \<Longrightarrow> core (st\<lparr>graph := g\<rparr>) = core (st'\<lparr>graph := g\<rparr>)"
  by (simp add: core_def)

lemma policies_step_passed:
  assumes "\<not> failed (policies_step E n cert i st)"
  shows "\<not> failed st \<and> core (policies_step E n cert i st) = core (st\<lparr>graph := graph_after E n cert i st\<rparr>) \<and>
    \<not> capHit (graph_after E n cert i st) \<and> (explicitPolicy st > 0 \<or> graph_present (graph_after E n cert i st)) \<and>
    (\<exists>cp. policies_of E cert = Inr cp)"
proof -
  let ?p = "processPolicies E n cert i st"
  have nf: "\<not> fst ?p" "\<not> capHit (graph (snd ?p))" "policies_step E n cert i st = snd ?p"
    using assms by (auto simp: policies_step_def step_simps split: prod.splits if_splits)
  then obtain cp where cp: "policies_of E cert = Inr cp"
    by (auto simp: processPolicies_def policies_of_def split: sum.splits)
  have "snd ?p = st\<lparr>graph := graph_after E n cert i st\<rparr> \<and>
     (explicitPolicy st > 0 \<or> graph_present (graph_after E n cert i st))"
  proof (cases cp)
    case None
    have d: "decodeExt cert oid_certificatePolicies (d_certificatePolicies (v_dec E)) = Inr None"
      using cp None by (simp add: policies_of_def)
    show ?thesis using nf(1) by (simp add: processPolicies_def graph_after_def policies_of_def d Let_def split: if_splits)
  next
    case (Some cps)
    then obtain c ps where d: "decodeExt cert oid_certificatePolicies (d_certificatePolicies (v_dec E)) = Inr (Some (c, ps))"
      using cp by (cases cps) (simp add: policies_of_def)
    have same: "st\<lparr>graph := graph st\<rparr> = st" by simp
    show ?thesis
    proof (cases "graph_present (graph st)")
      case True
      then show ?thesis using nf(1) by (simp add: processPolicies_def graph_after_def policies_of_def d Let_def split: if_splits)
    next
      case False
      then show ?thesis using nf(1) same by (simp add: processPolicies_def graph_after_def policies_of_def d Let_def split: if_splits)
    qed
  qed
  then have e: "policies_step E n cert i st = st\<lparr>graph := graph_after E n cert i st\<rparr>"
    and x: "explicitPolicy st > 0 \<or> graph_present (graph_after E n cert i st)" using nf(3) by simp_all
  have c: "\<not> capHit (graph_after E n cert i st)" using nf(2) unfolding nf(3) [symmetric] e by simp
  have f: "\<not> failed st" using assms policies_step_failed by blast
  show ?thesis unfolding e using c f x cp by blast
qed

section \<open>The checks of one certificate\<close>

definition accepted :: "env \<Rightarrow> nat \<Rightarrow> nat \<Rightarrow> cert option \<Rightarrow> cert \<Rightarrow> pstate \<Rightarrow> bool" where
  "accepted E n idx issuer cert st \<longleftrightarrow>
     \<not> weakIssuerKey (v_minRsaModulusBits E) (wk_key (workingKey st)) \<and> v_verify E cert (workingKey st) = None \<and>
     \<not> refused_key E (sp_bytes (c_spki cert)) \<and>
     (\<forall>b. inheritedSpki (workingKey st) (c_spki cert) = Inr (Some b) \<longrightarrow> \<not> refused_key E b) \<and>
     usage_ok E cert \<and> c_notBefore cert \<le> v_time E \<and> v_time E \<le> c_notAfter cert \<and>
     name_chains E (c_issuer cert) (workingIssuerName st) \<and>
     (\<forall>e. tlsFeatureChainCheck (v_dec E) issuer cert \<noteq> Some (Some e)) \<and>
     names_ok E n cert (idx + 1) st \<and>
     \<not> (c_subject cert = [] \<and> \<not> opt_holds x_critical (findExt cert oid_subjectAltName)) \<and>
     unrecognizedCriticalExtension cert (idx + 1 = n) = None \<and>
     validateCriticalExtensionStructure (v_dec E) cert = None"

lemma check_step_passed:
  assumes "check_step E a n idx issuer cert st = Inr st'" and "\<not> failed st'"
  shows "\<not> failed st \<and> core st' = core (st\<lparr>graph := graph_after E n cert (idx + 1) st\<rparr>) \<and>
    \<not> capHit (graph_after E n cert (idx + 1) st) \<and>
    (explicitPolicy st > 0 \<or> graph_present (graph_after E n cert (idx + 1) st)) \<and>
    (\<exists>cp. policies_of E cert = Inr cp) \<and>
    (unrecognizedCriticalExtension cert (idx + 1 = n) = None \<longrightarrow>
     validateCriticalExtensionStructure (v_dec E) cert = None \<longrightarrow> accepted E n idx issuer cert st) \<and>
    (idx = 0 \<longrightarrow> \<not> refused_key E (wk_key (ta_key a)))"
proof -
  let ?s0 = "anchor_key_step E a idx (signature_step E cert st)"
  from assms(1) obtain s1 where s1: "key_step E idx cert ?s0 = Inr s1" by (auto simp: check_step_def bindR_eq_Inr)
  define s2 where "s2 = validity_step E cert (usage_step E cert s1)"
  define s3 where "s3 = tls_step E issuer cert (chaining_step E cert s2)"
  define s4 where "s4 = names_step E n cert (idx + 1) s3"
  define s5 where "s5 = revocation_step E idx issuer cert s4"
  have st': "st' = subject_step cert (policies_step E n cert (idx + 1) s5)"
    using assms(1) s1 by (simp add: check_step_def s2_def s3_def s4_def s5_def)
  have np: "\<not> failed (policies_step E n cert (idx + 1) s5)"
    and subj: "\<not> (c_subject cert = [] \<and> \<not> opt_holds x_critical (findExt cert oid_subjectAltName))"
    using assms(2) by (auto simp: st' step_simps)
  note p = policies_step_passed[OF np]
  have "\<not> failed s4" using p revocation_failed unfolding s5_def by blast
  then have f4: "\<not> failed s3" "names_ok E n cert (idx + 1) s3" by (simp_all add: s4_def step_simps)
  then have f3: "\<not> failed s2" "name_chains E (c_issuer cert) (workingIssuerName s2)"
    "\<forall>e. tlsFeatureChainCheck (v_dec E) issuer cert \<noteq> Some (Some e)" by (auto simp: s3_def step_simps)
  then have f2: "\<not> failed s1" "usage_ok E cert" "c_notBefore cert \<le> v_time E" "v_time E \<le> c_notAfter cert"
    by (simp_all add: s2_def step_simps)
  have c0: "core ?s0 = core st" by (simp add: step_simps)
  have c1: "core s1 = core st" using key_stepD(1)[OF s1] c0 by simp
  have c3: "core s3 = core st" and c2: "core s2 = core st" by (simp_all add: s3_def s2_def step_simps c1)
  have c5: "core s5 = core st" by (simp add: s5_def s4_def step_simps c3)
  have f1: "\<not> failed ?s0" "\<not> refused_key E (sp_bytes (c_spki cert))"
    "\<forall>b. inheritedSpki (workingKey ?s0) (c_spki cert) = Inr (Some b) \<longrightarrow> \<not> refused_key E b"
    using f2(1) key_stepD(2)[OF s1] by auto
  have f0: "\<not> failed st" "\<not> weakIssuerKey (v_minRsaModulusBits E) (wk_key (workingKey st))"
    "v_verify E cert (workingKey st) = None" "idx = 0 \<longrightarrow> \<not> refused_key E (wk_key (ta_key a))"
    using f1(1) by (auto simp: step_simps refused_key_def)
  have ga: "graph_after E n cert (idx + 1) s5 = graph_after E n cert (idx + 1) st"
    unfolding graph_after_def core_eqD[OF c5] ..
  have cc: "core st' = core (st\<lparr>graph := graph_after E n cert (idx + 1) st\<rparr>)"
    using p core_graph[OF c5] ga by (simp add: st' step_simps)
  have n0: "names_ok E n cert (idx + 1) st" using f4(2) core_eqD[OF c3] by (simp add: names_ok_def)
  have k0: "\<forall>b. inheritedSpki (workingKey st) (c_spki cert) = Inr (Some b) \<longrightarrow> \<not> refused_key E b"
    using f1(3) core_eqD(8)[OF c0] by simp
  have ch: "name_chains E (c_issuer cert) (workingIssuerName st)" using f3(2) core_eqD(9)[OF c2] by simp
  have acc: "unrecognizedCriticalExtension cert (idx + 1 = n) = None \<longrightarrow>
     validateCriticalExtensionStructure (v_dec E) cert = None \<longrightarrow> accepted E n idx issuer cert st"
    unfolding accepted_def using f0(2,3) f1(2) k0 f2(2,3,4) ch f3(3) n0 subj by blast
  have pol: "\<not> capHit (graph_after E n cert (idx + 1) st)"
    "explicitPolicy st > 0 \<or> graph_present (graph_after E n cert (idx + 1) st)" "\<exists>cp. policies_of E cert = Inr cp"
    using p unfolding ga core_eqD(4)[OF c5] by blast+
  show ?thesis using f0(1,4) cc acc pol by blast
qed

section \<open>Preparation for the next certificate\<close>

lemma andThen_continue: "andThen m f = Inr (False, st') \<longleftrightarrow> (\<exists>s. m = Inr (False, s) \<and> f s = Inr (False, st'))"
  by (auto simp: andThen_def stop_def bindR_eq_Inr split: if_splits)

lemma stop_not_continue [simp]: "stop st \<noteq> Inr (False, st')"
  by (simp add: stop_def)

lemma continue_iff [simp]: "continue st = Inr (False, st') \<longleftrightarrow> st' = st"
  by (auto simp: continue_def)

lemma critical_ext_continue:
  "critical_ext n code d st k = Inr (False, st') \<longleftrightarrow>
     (d = Inr None \<and> k None st = Inr (False, st')) \<or> (\<exists>v. d = Inr (Some (True, v)) \<and> k (Some v) st = Inr (False, st'))"
  by (auto simp: critical_ext_def split: sum.splits option.splits if_splits)

lemma prepare_ekuD:
  "prepare_eku E cert st = Inr (False, s) \<Longrightarrow> core s = core st \<and> failed s = failed st \<and> flags s = flags st"
  by (auto simp: prepare_eku_def ekuPurposeFails_def Let_def step_simps split: option.splits sum.splits)

definition mapped :: "env \<Rightarrow> cert \<Rightarrow> nat \<Rightarrow> pstate \<Rightarrow> pgraph \<Rightarrow> bool" where
  "mapped E cert i st g \<longleftrightarrow> (case decodeExt cert oid_policyMappings (d_policyMappings (v_dec E)) of
      Inl _ \<Rightarrow> False
    | Inr None \<Rightarrow> g = graph st
    | Inr (Some (_, pm)) \<Rightarrow> \<not> mapsAnyPolicy pm \<and>
        g = (if graph_present (graph st) then applyPolicyMappings (policyMapping st) pm i (graph st) else graph st))"

lemma prepare_mappingsD:
  "prepare_mappings E cert i st = Inr (False, s) \<Longrightarrow> \<exists>g. s = st\<lparr>graph := g\<rparr> \<and> mapped E cert i st g"
proof (cases "decodeExt cert oid_policyMappings (d_policyMappings (v_dec E))")
  case (Inr pm)
  assume "prepare_mappings E cert i st = Inr (False, s)"
  then show ?thesis using Inr
    by (cases pm) (auto simp: prepare_mappings_def mapped_def split: if_splits intro: exI[of _ "graph st"])
qed (simp add: prepare_mappings_def)

definition ca_of :: "env \<Rightarrow> cert \<Rightarrow> (bool \<times> basic_constraints) option res" where
  "ca_of E cert = decodeExt cert oid_basicConstraints (d_basicConstraints (v_dec E))"

definition names_of :: "env \<Rightarrow> cert \<Rightarrow> (bool \<times> name_constraints) option res" where
  "names_of E cert = decodeExt cert oid_nameConstraints (d_nameConstraints (v_dec E))"

lemma prepare_workingD:
  "prepare_working cert st = Inr (False, s) \<Longrightarrow>
     \<exists>wk. updateWorkingKey (workingKey st) (c_spki cert) = Inr wk \<and> s = st\<lparr>workingIssuerName := c_subject cert, workingKey := wk\<rparr>"
  by (auto simp: prepare_working_def bindR_eq_Inr)

definition absorbed :: "env \<Rightarrow> cert \<Rightarrow> subtree list \<times> subtree list list \<Rightarrow> subtree list \<times> subtree list list \<Rightarrow> bool" where
  "absorbed E cert t t' \<longleftrightarrow> (names_of E cert = Inr None \<and> t' = t) \<or>
     (\<exists>v. names_of E cert = Inr (Some (True, v)) \<and> t' = absorbNameConstraints v t)"

lemma prepare_namesD:
  assumes "prepare_names E cert st = Inr (False, s)"
  shows "\<exists>ex gens. s = st\<lparr>excludedSubtrees := ex, permittedGenerations := gens\<rparr> \<and>
    absorbed E cert (excludedSubtrees st, permittedGenerations st) (ex, gens)"
proof -
  consider "names_of E cert = Inr None" "s = st" | v where "names_of E cert = Inr (Some (True, v))"
    "(case absorbNameConstraints v (excludedSubtrees st, permittedGenerations st) of
       (ex, gens) \<Rightarrow> continue (st\<lparr>excludedSubtrees := ex, permittedGenerations := gens\<rparr>)) = Inr (False, s)"
    using assms unfolding prepare_names_def critical_ext_continue names_of_def by auto
  then show ?thesis
  proof cases
    case 1
    then show ?thesis by (intro exI[of _ "excludedSubtrees st"] exI[of _ "permittedGenerations st"]) (simp add: absorbed_def)
  next
    case (2 v)
    obtain ex gens where "absorbNameConstraints v (excludedSubtrees st, permittedGenerations st) = (ex, gens)"
      by (cases "absorbNameConstraints v (excludedSubtrees st, permittedGenerations st)")
    then show ?thesis using 2 by (intro exI[of _ ex] exI[of _ gens]) (simp add: absorbed_def)
  qed
qed

lemma lower_le: "lower b v \<le> v"
  by (simp add: lower_def split: option.splits)

text \<open>What a continuing \<open>prepareNext\<close> has established and changed.\<close>

definition prepared :: "env \<Rightarrow> cert \<Rightarrow> nat \<Rightarrow> pstate \<Rightarrow> pstate \<Rightarrow> bool" where
  "prepared E cert i st st' \<longleftrightarrow>
     mapped E cert i st (graph st') \<and>
     workingIssuerName st' = c_subject cert \<and> updateWorkingKey (workingKey st) (c_spki cert) = Inr (workingKey st') \<and>
     absorbed E cert (excludedSubtrees st, permittedGenerations st) (excludedSubtrees st', permittedGenerations st') \<and>
     explicitPolicy st' \<le> explicitPolicy st \<and> inhibitAnyPolicy st' \<le> inhibitAnyPolicy st \<and>
     policyMapping st' \<le> policyMapping st \<and> userInitialPolicySet st' = userInitialPolicySet st \<and>
     (\<exists>bc. ca_of E cert = Inr (Some (True, bc)) \<and> bc_cA bc \<and>
       (selfIssued E cert \<or> 0 < maxPathLength st) \<and>
       (let m = (if selfIssued E cert then maxPathLength st else maxPathLength st - 1) in
        maxPathLength st' = (case bc_pathLen bc of Some l \<Rightarrow> min (int l) m | None \<Rightarrow> m))) \<and>
     (\<forall>c ku. keyUsage_of (v_dec E) cert = Inr (Some (c, ku)) \<longrightarrow> ku_keyCertSign ku) \<and>
     (\<exists>ku. keyUsage_of (v_dec E) cert = Inr ku)"

lemma prepare_countersD:
  assumes "prepare_counters E cert st = Inr (False, s)"
  shows "\<exists>ep pm ia. s = st\<lparr>explicitPolicy := ep, policyMapping := pm, inhibitAnyPolicy := ia\<rparr> \<and>
    ep \<le> explicitPolicy st \<and> pm \<le> policyMapping st \<and> ia \<le> inhibitAnyPolicy st"
proof (cases "selfIssued E cert")
  case True
  then have "s = st" using assms by (simp add: prepare_counters_def)
  then show ?thesis
    by (intro exI[of _ "explicitPolicy st"] exI[of _ "policyMapping st"] exI[of _ "inhibitAnyPolicy st"]) simp
next
  case False
  then show ?thesis using assms unfolding prepare_counters_def continue_iff
    by (intro exI[of _ "explicitPolicy st - 1"] exI[of _ "policyMapping st - 1"] exI[of _ "inhibitAnyPolicy st - 1"]) simp
qed

lemma prepare_constraintsD:
  assumes "prepare_constraints E cert st = Inr (False, s)"
  shows "\<exists>ep pm. s = st\<lparr>explicitPolicy := ep, policyMapping := pm\<rparr> \<and> ep \<le> explicitPolicy st \<and> pm \<le> policyMapping st"
proof -
  from assms show ?thesis
    unfolding prepare_constraints_def critical_ext_continue continue_iff option.simps
  proof (elim disjE exE conjE)
    assume "s = st"
    then show ?thesis by (intro exI[of _ "explicitPolicy st"] exI[of _ "policyMapping st"]) simp
  next
    fix v assume "s = st\<lparr>explicitPolicy := lower (pc_requireExplicitPolicy v) (explicitPolicy st),
      policyMapping := lower (pc_inhibitPolicyMapping v) (policyMapping st)\<rparr>"
    then show ?thesis using lower_le by blast
  qed
qed

lemma prepare_inhibitD:
  assumes "prepare_inhibit E cert st = Inr (False, s)"
  shows "\<exists>ia. s = st\<lparr>inhibitAnyPolicy := ia\<rparr> \<and> ia \<le> inhibitAnyPolicy st"
  using assms lower_le unfolding prepare_inhibit_def critical_ext_continue continue_iff by blast

lemma prepare_basicD:
  assumes "prepare_basic E cert st = Inr (False, s)"
  shows "\<exists>len. s = st\<lparr>maxPathLength := len\<rparr> \<and>
    (\<exists>bc. ca_of E cert = Inr (Some (True, bc)) \<and> bc_cA bc \<and> (selfIssued E cert \<or> 0 < maxPathLength st) \<and>
       (let m = (if selfIssued E cert then maxPathLength st else maxPathLength st - 1) in
        len = (case bc_pathLen bc of Some l \<Rightarrow> min (int l) m | None \<Rightarrow> m)))"
proof -
  obtain bc where d: "ca_of E cert = Inr (Some (True, bc))" and ca: "bc_cA bc" and
    pl: "selfIssued E cert \<or> 0 < maxPathLength st"
    using assms by (auto simp: prepare_basic_def ca_of_def split: sum.splits option.splits if_splits)
  let ?m = "if selfIssued E cert then maxPathLength st else maxPathLength st - 1"
  have s: "s = st\<lparr>maxPathLength := (case bc_pathLen bc of Some l \<Rightarrow> min (int l) ?m | None \<Rightarrow> ?m)\<rparr>"
    using assms d ca pl by (auto simp: prepare_basic_def ca_of_def Let_def min_def split: option.splits)
  then show ?thesis using d ca pl unfolding Let_def by blast
qed

lemma prepare_usageD:
  assumes "prepare_usage E cert st = Inr (False, s)"
  shows "s = st \<and> (\<forall>c ku. keyUsage_of (v_dec E) cert = Inr (Some (c, ku)) \<longrightarrow> ku_keyCertSign ku) \<and>
    (\<exists>ku. keyUsage_of (v_dec E) cert = Inr ku)"
  using assms by (auto simp: prepare_usage_def split: sum.splits option.splits if_splits)

lemma prepareNext_passed:
  assumes "prepareNext E cert i st = Inr (False, st')"
  shows "prepared E cert i st st' \<and> failed st' = failed st \<and> flags st' = flags st"
proof -
  from assms obtain s1 s2 s3 s4 s5 s6 s7 s8 where
    a: "prepare_eku E cert st = Inr (False, s1)" "prepare_mappings E cert i s1 = Inr (False, s2)"
      "prepare_working cert s2 = Inr (False, s3)" "prepare_names E cert s3 = Inr (False, s4)"
      "prepare_counters E cert s4 = Inr (False, s5)" "prepare_constraints E cert s5 = Inr (False, s6)"
      "prepare_inhibit E cert s6 = Inr (False, s7)" "prepare_basic E cert s7 = Inr (False, s8)"
      "prepare_usage E cert s8 = Inr (False, st')"
    by (auto simp: prepareNext_def andThen_continue)
  note c1 = prepare_ekuD[OF a(1)] core_eqD[OF conjunct1[OF prepare_ekuD[OF a(1)]]]
  obtain g where g: "s2 = s1\<lparr>graph := g\<rparr>" "mapped E cert i s1 g" using prepare_mappingsD[OF a(2)] by blast
  obtain wk where wk: "updateWorkingKey (workingKey s2) (c_spki cert) = Inr wk"
    "s3 = s2\<lparr>workingIssuerName := c_subject cert, workingKey := wk\<rparr>" using prepare_workingD[OF a(3)] by blast
  obtain ex gens where n: "s4 = s3\<lparr>excludedSubtrees := ex, permittedGenerations := gens\<rparr>"
    "absorbed E cert (excludedSubtrees s3, permittedGenerations s3) (ex, gens)" using prepare_namesD[OF a(4)] by blast
  obtain ep pm ia where k: "s5 = s4\<lparr>explicitPolicy := ep, policyMapping := pm, inhibitAnyPolicy := ia\<rparr>"
    "ep \<le> explicitPolicy s4" "pm \<le> policyMapping s4" "ia \<le> inhibitAnyPolicy s4" using prepare_countersD[OF a(5)] by blast
  obtain ep' pm' where k': "s6 = s5\<lparr>explicitPolicy := ep', policyMapping := pm'\<rparr>"
    "ep' \<le> explicitPolicy s5" "pm' \<le> policyMapping s5" using prepare_constraintsD[OF a(6)] by blast
  obtain ia' where k'': "s7 = s6\<lparr>inhibitAnyPolicy := ia'\<rparr>" "ia' \<le> inhibitAnyPolicy s6" using prepare_inhibitD[OF a(7)] by blast
  obtain len bc where b: "s8 = s7\<lparr>maxPathLength := len\<rparr>" "ca_of E cert = Inr (Some (True, bc))" "bc_cA bc"
    "selfIssued E cert \<or> 0 < maxPathLength s7"
    "let m = (if selfIssued E cert then maxPathLength s7 else maxPathLength s7 - 1) in
        len = (case bc_pathLen bc of Some l \<Rightarrow> min (int l) m | None \<Rightarrow> m)" using prepare_basicD[OF a(8)] by blast
  note u = prepare_usageD[OF a(9)]
  have st': "st' = s8" using u by blast
  have gs: "graph st' = g" "workingIssuerName st' = c_subject cert" "workingKey st' = wk" "excludedSubtrees st' = ex"
    "permittedGenerations st' = gens" "explicitPolicy st' = ep'" "policyMapping st' = pm'" "inhibitAnyPolicy st' = ia'"
    "maxPathLength st' = len" "userInitialPolicySet st' = userInitialPolicySet st" "failed st' = failed st"
    "maxPathLength s7 = maxPathLength st" "workingKey s2 = workingKey st"
    "excludedSubtrees s3 = excludedSubtrees st" "permittedGenerations s3 = permittedGenerations st"
    unfolding st' b(1) k''(1) k'(1) k(1) n(1) wk(2) g(1) using c1 by simp_all
  have fl: "flags st' = flags st"
    unfolding flags_def st' b(1) k''(1) k'(1) k(1) n(1) wk(2) g(1)
    using prepare_ekuD[OF a(1)] by (simp add: flags_def)
  have le: "ep' \<le> explicitPolicy st" "pm' \<le> policyMapping st" "ia' \<le> inhibitAnyPolicy st"
    using k''(2) k'(2,3) k(2,3,4) unfolding k'(1) k(1) n(1) wk(2) g(1) using c1 by simp_all
  have m: "mapped E cert i st g" using g(2) unfolding mapped_def c1 .
  show ?thesis unfolding prepared_def gs
    using m wk(1) n(2) le b(2-5) u fl unfolding gs by blast
qed

section \<open>The last certificate\<close>

definition finished :: "cert \<Rightarrow> pstate \<Rightarrow> pstate \<Rightarrow> bool" where
  "finished cert st st' \<longleftrightarrow> graph st' = graph st \<and> userInitialPolicySet st' = userInitialPolicySet st \<and>
     explicitPolicy st' \<le> explicitPolicy st \<and> updateWorkingKey (workingKey st) (c_spki cert) = Inr (workingKey st')"

text \<open>The part of the state the wrap-up of the last certificate leaves alone.\<close>

definition rest where
  "rest st = (graph st, userInitialPolicySet st, workingKey st, flags st)"

definition weaker :: "pstate \<Rightarrow> pstate \<Rightarrow> bool" where
  "weaker st st' \<longleftrightarrow> rest st' = rest st \<and> explicitPolicy st' \<le> explicitPolicy st \<and> (failed st \<longrightarrow> failed st')"

lemma weaker_refl: "weaker st st"
  by (simp add: weaker_def)

lemma weaker_trans: "weaker a b \<Longrightarrow> weaker b c \<Longrightarrow> weaker a c"
  by (auto simp: weaker_def)

lemma weaker_verdict: "weaker st (verdict_row n c st)"
  by (simp add: weaker_def rest_def verdict_row_def row_def flags_def)

lemma last_ext_weaker: "weaker st (snd (last_ext n code d st))"
  by (auto simp: last_ext_def weaker_verdict weaker_refl split: sum.splits option.splits)

lemma last_constraints_weaker: "weaker st (last_constraints E cert st)"
proof -
  let ?st = "st\<lparr>explicitPolicy := explicitPolicy st - 1\<rparr>"
  let ?d = "decodeExt cert oid_policyConstraints (d_policyConstraints (v_dec E))"
  obtain pc s1 where e: "last_ext C_policyConstraints (\<lambda>_. PathE Path_bad_policy) ?d ?st = (pc, s1)" by fastforce
  have "weaker ?st s1" using last_ext_weaker[of ?st C_policyConstraints "\<lambda>_. PathE Path_bad_policy" ?d] e by simp
  moreover have "weaker st ?st" by (simp add: weaker_def rest_def flags_def)
  ultimately have w: "weaker st s1" by (blast intro: weaker_trans)
  have "weaker s1 (s1\<lparr>explicitPolicy := 0\<rparr>)" by (simp add: weaker_def rest_def flags_def)
  then have "weaker st (s1\<lparr>explicitPolicy := 0\<rparr>)" using w weaker_trans by blast
  then show ?thesis using w unfolding last_constraints_def e by (cases pc) simp_all
qed

lemma last_mappings_weaker: "weaker st (last_mappings E cert st)"
  by (auto simp: last_mappings_def weaker_verdict weaker_refl split: sum.splits option.splits)

lemma last_eku_weaker: "weaker st (last_eku E cert st)"
  by (auto simp: last_eku_def ekuPurposeFails_def Let_def weaker_def rest_def fail_def row_def flags_def
      split: sum.splits option.splits if_splits)

lemma last_anchor_weaker:
  assumes "last_anchor E a cert st = Inr st'"
  shows "weaker st st'"
proof -
  have purpose: "weaker st (st\<lparr>anchorPurposeApplied := b\<rparr>)" "weaker st (st\<lparr>anchorDistrustApplied := b\<rparr>)" for st b
    by (simp_all add: weaker_def rest_def flags_def)
  note w = purpose weaker_verdict weaker_refl weaker_trans[OF purpose(1) weaker_verdict]
    weaker_trans[OF purpose(2) weaker_verdict]
  obtain d where d: "assertAnchorConstraints a (v_checkPurpose E) = Inr d"
    using assms by (auto simp: last_anchor_def bindR_eq_Inr)
  define s1 where "s1 = (case d of None \<Rightarrow> st | Some d \<Rightarrow> let st = st\<lparr>anchorDistrustApplied := True\<rparr> in
      if c_notBefore cert > d then verdict_row C_distrustAfter (Some (PathE Path_distrusted_after)) st else st)"
  have "weaker st s1" by (auto simp: s1_def Let_def w split: option.splits)
  moreover have "weaker s1 st'"
    using assms unfolding last_anchor_def d bindR.simps(2) s1_def [symmetric]
    by (auto simp: Let_def w split: option.splits if_splits)
  ultimately show ?thesis by (rule weaker_trans)
qed

lemma last_step_passed:
  assumes "last_step E a cert st = Inr st'" and "\<not> failed st'"
  shows "finished cert st st' \<and> \<not> failed st \<and> flags st' = flags st"
proof -
  let ?s = "last_eku E cert (last_inhibit E cert (last_names E cert (last_mappings E cert (last_constraints E cert st))))"
  obtain s wk where s: "last_anchor E a cert ?s = Inr s" "updateWorkingKey (workingKey s) (c_spki cert) = Inr wk"
    "st' = s\<lparr>workingKey := wk\<rparr>" using assms(1) by (auto simp: last_step_def bindR_eq_Inr)
  have inh: "weaker t (last_inhibit E cert t)" "weaker t (last_names E cert t)" for t
    unfolding last_inhibit_def last_names_def by (rule last_ext_weaker)+
  have "weaker st ?s"
    by (rule weaker_trans[OF weaker_trans[OF weaker_trans[OF weaker_trans[OF last_constraints_weaker
      last_mappings_weaker] inh(2)] inh(1)] last_eku_weaker])
  then have "weaker st s" using last_anchor_weaker[OF s(1)] weaker_trans by blast
  then show ?thesis using s(2,3) assms(2) by (auto simp: weaker_def rest_def finished_def flags_def)
qed

section \<open>One pass of the loop\<close>

lemma prepared_core:
  assumes "core s = core t" and "core s' = core t'"
  shows "prepared E cert i s s' = prepared E cert i t t'"
  unfolding prepared_def mapped_def core_eqD[OF assms(1)] core_eqD[OF assms(2)] ..

lemma finished_core:
  assumes "core s = core t" and "core s' = core t'"
  shows "finished cert s s' = finished cert t t'"
  unfolding finished_def core_eqD[OF assms(1)] core_eqD[OF assms(2)] ..

definition passed :: "env \<Rightarrow> anchor \<Rightarrow> nat \<Rightarrow> nat \<Rightarrow> cert option \<Rightarrow> cert \<Rightarrow> pstate \<Rightarrow> pstate \<Rightarrow> bool" where
  "passed E a n idx issuer cert st st' \<longleftrightarrow>
     accepted E n idx issuer cert st \<and>
     (let g = graph_after E n cert (idx + 1) st in
      \<not> capHit g \<and> (explicitPolicy st > 0 \<or> graph_present g) \<and> (\<exists>cp. policies_of E cert = Inr cp) \<and>
      (if idx + 1 \<noteq> n then prepared E cert (idx + 1) (st\<lparr>graph := g\<rparr>) st' else finished cert (st\<lparr>graph := g\<rparr>) st')) \<and>
     (idx = 0 \<longrightarrow> \<not> refused_key E (wk_key (ta_key a)))"

lemma cert_step_passed:
  assumes "cert_step E a n idx issuer cert st = Inr st'" and "\<not> failed st'"
  shows "passed E a n idx issuer cert st st' \<and> \<not> failed st"
proof -
  from assms(1) obtain s1 s2 where s: "check_step E a n idx issuer cert st = Inr s1"
    "(if idx + 1 \<noteq> n then next_step E cert (idx + 1) s1 else last_step E a cert s1) = Inr s2"
    "st' = close_step (extension_step E n cert (idx + 1) s2)"
    by (auto simp: cert_step_def bindR_eq_Inr)
  have f2: "\<not> failed s2" "unrecognizedCriticalExtension cert (idx + 1 = n) = None"
    "validateCriticalExtensionStructure (v_dec E) cert = None"
    using assms(2) by (auto simp: s(3) step_simps)
  have c2: "core st' = core s2" by (simp add: s(3) step_simps)
  let ?g = "graph_after E n cert (idx + 1) st"
  have nx: "(if idx + 1 \<noteq> n then capHit (graph s1) \<or> prepared E cert (idx + 1) s1 s2 else finished cert s1 s2) \<and> \<not> failed s1"
  proof (cases "idx + 1 = n")
    case True
    then show ?thesis using s(2) last_step_passed[of E a cert s1 s2] f2(1) by simp
  next
    case False
    then have nxt: "next_step E cert (idx + 1) s1 = Inr s2" using s(2) by simp
    show ?thesis
    proof (cases "capHit (graph s1)")
      case True
      then show ?thesis using nxt f2(1) False by (simp add: next_step_def)
    next
      case nocap: False
      then obtain fatal s' where p: "prepareNext E cert (idx + 1) s1 = Inr (fatal, s')" "s2 = (if fatal then fail s' else s')"
        using nxt by (auto simp: next_step_def bindR_eq_Inr)
      then have "\<not> fatal" "s2 = s'" using f2(1) by (auto simp: step_simps split: if_splits)
      then show ?thesis using prepareNext_passed[of E cert "idx + 1" s1 s'] p f2(1) False by simp
    qed
  qed
  have c: "\<not> failed st \<and> core s1 = core (st\<lparr>graph := ?g\<rparr>) \<and> \<not> capHit ?g \<and>
    (explicitPolicy st > 0 \<or> graph_present ?g) \<and> (\<exists>cp. policies_of E cert = Inr cp) \<and>
    accepted E n idx issuer cert st \<and> (idx = 0 \<longrightarrow> \<not> refused_key E (wk_key (ta_key a)))"
    using check_step_passed[OF s(1)] nx f2(2,3) by blast
  then have c1: "core s1 = core (st\<lparr>graph := ?g\<rparr>)" by blast
  have g1: "graph s1 = ?g" using core_eqD(1)[OF c1] by simp
  have "if idx + 1 \<noteq> n then prepared E cert (idx + 1) (st\<lparr>graph := ?g\<rparr>) st' else finished cert (st\<lparr>graph := ?g\<rparr>) st'"
    using nx c unfolding g1 prepared_core[OF c1 c2 [symmetric]] finished_core[OF c1 c2 [symmetric]]
    by (cases "idx + 1 = n") simp_all
  then show ?thesis using c unfolding passed_def Let_def by blast
qed

section \<open>Revocation along the loop\<close>

lemma cert_step_flags:
  assumes "cert_step E a n idx issuer cert st = Inr st'" and "\<not> failed st'"
  shows "\<exists>s1. check_step E a n idx issuer cert st = Inr s1 \<and> \<not> failed s1 \<and> flags st' = flags s1"
proof -
  from assms(1) obtain s1 s2 where s: "check_step E a n idx issuer cert st = Inr s1"
    "(if idx + 1 \<noteq> n then next_step E cert (idx + 1) s1 else last_step E a cert s1) = Inr s2"
    "st' = close_step (extension_step E n cert (idx + 1) s2)"
    by (auto simp: cert_step_def bindR_eq_Inr)
  have f2: "\<not> failed s2" using assms(2) by (auto simp: s(3) step_simps)
  have e: "flags (extension_step E n cert (idx + 1) s2) = flags s2"
    by (simp add: extension_step_def Let_def step_simps split: option.splits)
  have "flags s2 = flags s1 \<and> \<not> failed s1"
  proof (cases "idx + 1 = n")
    case True
    then show ?thesis using s(2) last_step_passed[of E a cert s1 s2] f2 by simp
  next
    case False
    then have nxt: "next_step E cert (idx + 1) s1 = Inr s2" using s(2) by simp
    show ?thesis
    proof (cases "capHit (graph s1)")
      case True
      then show ?thesis using nxt f2 by (simp add: next_step_def)
    next
      case nocap: False
      then obtain fatal s' where p: "prepareNext E cert (idx + 1) s1 = Inr (fatal, s')" "s2 = (if fatal then fail s' else s')"
        using nxt by (auto simp: next_step_def bindR_eq_Inr)
      then have "\<not> fatal" "s2 = s'" using f2 by (auto simp: step_simps split: if_splits)
      then show ?thesis using prepareNext_passed[of E cert "idx + 1" s1 s'] p f2 by simp
    qed
  qed
  then show ?thesis using s(1) e by (simp add: s(3) step_simps)
qed

lemma key_step_flags: "key_step E idx cert st = Inr st' \<Longrightarrow> \<not> failed st' \<Longrightarrow> flags st' = flags st"
  by (auto simp: key_step_def bindR_eq_Inr Let_def step_simps split: if_splits)

text \<open>When nothing has failed and no key above is distrusted, the checker is asked, and its answer decides.\<close>

definition answered_good :: "rev_answer \<Rightarrow> bool" where
  "answered_good rv \<longleftrightarrow> rv = Answer (Some (js_lit ''good''))"

text \<open>An answer other than good that soft failure lets pass: any but a revocation and a throw.\<close>

definition waivable :: "rev_answer \<Rightarrow> bool" where
  "waivable rv \<longleftrightarrow> rv \<noteq> Threw \<and> rv \<noteq> Answer (Some (js_lit ''revoked''))"

lemma check_step_revocation:
  assumes "check_step E a n idx issuer cert st = Inr st'" and "\<not> failed st'"
    and "v_checker E = Some ch" and "prefixAuthentic st" and "distrustedFrom st = None"
  defines "rv \<equiv> ch cert (workingIssuerName st) (workingKey st) issuer"
  shows "prefixAuthentic st' \<and> distrustedFrom st' = None \<and> revocationRan st' \<and>
    (answered_good rv \<or> v_softFail E \<and> waivable rv) \<and>
    revocationUndetermined st' = revocationUndetermined st \<and>
    (revocationWaived st' \<longleftrightarrow> revocationWaived st \<or> \<not> answered_good rv)"
proof -
  let ?s0 = "anchor_key_step E a idx (signature_step E cert st)"
  from assms(1) obtain s1 where s1: "key_step E idx cert ?s0 = Inr s1" by (auto simp: check_step_def bindR_eq_Inr)
  define s4 where "s4 = names_step E n cert (idx + 1) (tls_step E issuer cert (chaining_step E cert
      (validity_step E cert (usage_step E cert s1))))"
  define s5 where "s5 = revocation_step E idx issuer cert s4"
  have st': "st' = subject_step cert (policies_step E n cert (idx + 1) s5)"
    using assms(1) s1 by (simp add: check_step_def s4_def s5_def)
  have f5: "\<not> failed s5" using assms(2) policies_step_failed by (auto simp: st' step_simps)
  have f4: "\<not> failed s4" using f5 revocation_failed unfolding s5_def by blast
  then have f1: "\<not> failed s1" by (auto simp: s4_def step_simps)
  then have f0: "\<not> failed ?s0" using key_stepD(2)[OF s1] by blast
  have sig: "flags (signature_step E cert st) = flags st"
    using f0 assms(4) by (auto simp: signature_step_def Let_def step_simps flags_def verdict_row_def row_def)
  have "flags ?s0 = flags st" using sig by (simp add: anchor_key_step_def step_simps)
  then have "flags s1 = flags st" using key_step_flags[OF s1 f1] by simp
  then have fl4: "flags s4 = flags st"
    by (simp add: s4_def names_step_def tls_step_def chaining_step_def validity_step_def usage_step_def Let_def step_simps
        split: option.splits)
  have c1: "core s1 = core st" using key_stepD(1)[OF s1] by (simp add: step_simps)
  then have c4: "core s4 = core st" by (simp add: s4_def step_simps)
  have rv: "s5 = ran (answer_step E (ch cert (workingIssuerName st) (workingKey st) issuer) s4)"
    using fl4 assms(3,4,5) core_eqD[OF c4] by (simp add: s5_def revocation_step_def flags_def opt_holds_def)
  have fp: "flags st' = flags s5"
    by (simp add: st' subject_step_def policies_step_def processPolicies_def Let_def step_simps
        split: sum.splits option.splits prod.splits)
  have "(answered_good rv \<or> v_softFail E \<and> waivable rv) \<and>
    prefixAuthentic s5 = prefixAuthentic s4 \<and> distrustedFrom s5 = distrustedFrom s4 \<and> revocationRan s5 \<and>
    revocationUndetermined s5 = revocationUndetermined s4 \<and>
    (revocationWaived s5 \<longleftrightarrow> revocationWaived s4 \<or> \<not> answered_good rv)"
    using f5 unfolding rv rv_def [symmetric] answer_step_def Let_def answered_good_def waivable_def
    by (auto simp: step_simps ran_def status_row_def fail_def undetermined_def js_lit_def split: if_splits rev_answer.splits option.splits)
  then show ?thesis using fp fl4 assms(4,5) by (auto simp: flags_def)
qed

section \<open>The whole loop\<close>

definition issuer_at :: "cert list \<Rightarrow> nat \<Rightarrow> cert option" where
  "issuer_at certs k = (if k = 0 then None else Some (certs ! (k - 1)))"

definition run :: "env \<Rightarrow> anchor \<Rightarrow> cert list \<Rightarrow> pstate list \<Rightarrow> bool" where
  "run E a certs sts \<longleftrightarrow> length sts = Suc (length certs) \<and> sts ! 0 = initialState E a (length certs) \<and>
     (\<forall>k < length certs. cert_step E a (length certs) k (issuer_at certs k) (certs ! k) (sts ! k) = Inr (sts ! Suc k) \<and>
        passed E a (length certs) k (issuer_at certs k) (certs ! k) (sts ! k) (sts ! Suc k) \<and> \<not> failed (sts ! Suc k))"

lemma path_loop_states:
  assumes "path_loop E a n idx issuer certs st = Inr st'" and "\<not> failed st'"
  shows "\<exists>sts. length sts = Suc (length certs) \<and> sts ! 0 = st \<and> last sts = st' \<and> \<not> failed st \<and>
    (\<forall>k < length certs. let pre = (if k = 0 then issuer else Some (certs ! (k - 1))) in
       cert_step E a n (idx + k) pre (certs ! k) (sts ! k) = Inr (sts ! Suc k) \<and>
       passed E a n (idx + k) pre (certs ! k) (sts ! k) (sts ! Suc k) \<and> \<not> failed (sts ! Suc k))"
  using assms
proof (induction certs arbitrary: idx issuer st)
  case Nil
  then show ?case by (intro exI[of _ "[st]"]) simp
next
  case (Cons c cs)
  then obtain s where s: "cert_step E a n idx issuer c st = Inr s" "path_loop E a n (idx + 1) (Some c) cs s = Inr st'"
    by (auto simp: bindR_eq_Inr)
  from Cons.IH[OF s(2) Cons.prems(2)] obtain sts where t: "length sts = Suc (length cs)" "sts ! 0 = s" "last sts = st'" "\<not> failed s"
    "\<forall>k < length cs. let pre = (if k = 0 then Some c else Some (cs ! (k - 1))) in
       cert_step E a n (idx + 1 + k) pre (cs ! k) (sts ! k) = Inr (sts ! Suc k) \<and>
       passed E a n (idx + 1 + k) pre (cs ! k) (sts ! k) (sts ! Suc k) \<and> \<not> failed (sts ! Suc k)" by blast
  note p = cert_step_passed[OF s(1) t(4)]
  have "\<forall>k < length (c # cs). let pre = (if k = 0 then issuer else Some ((c # cs) ! (k - 1))) in
       cert_step E a n (idx + k) pre ((c # cs) ! k) ((st # sts) ! k) = Inr ((st # sts) ! Suc k) \<and>
       passed E a n (idx + k) pre ((c # cs) ! k) ((st # sts) ! k) ((st # sts) ! Suc k) \<and> \<not> failed ((st # sts) ! Suc k)"
  proof (intro allI impI)
    fix k assume k: "k < length (c # cs)"
    show "let pre = (if k = 0 then issuer else Some ((c # cs) ! (k - 1))) in
       cert_step E a n (idx + k) pre ((c # cs) ! k) ((st # sts) ! k) = Inr ((st # sts) ! Suc k) \<and>
       passed E a n (idx + k) pre ((c # cs) ! k) ((st # sts) ! k) ((st # sts) ! Suc k) \<and> \<not> failed ((st # sts) ! Suc k)"
    proof (cases k)
      case 0
      then show ?thesis using s(1) p t(2,4) by (simp add: Let_def)
    next
      case (Suc j)
      have pre: "(if j = 0 then Some c else Some (cs ! (j - 1))) = Some ((c # cs) ! (k - 1))" using Suc by (cases j) simp_all
      have j: "j < length cs" using k Suc by simp
      note f = t(5) [rule_format, OF j, unfolded Let_def pre]
      show ?thesis using f Suc by (simp add: Let_def)
    qed
  qed
  then show ?case using p t(1,3) by (intro exI[of _ "st # sts"]) (auto simp: Let_def)
qed

lemma path_loop_run:
  assumes "path_loop E a (length certs) 0 None certs (initialState E a (length certs)) = Inr st'" and "\<not> failed st'"
  shows "\<exists>sts. run E a certs sts \<and> last sts = st'"
proof -
  obtain sts where "length sts = Suc (length certs)" "sts ! 0 = initialState E a (length certs)" "last sts = st'"
    "\<forall>k < length certs. let pre = (if k = 0 then None else Some (certs ! (k - 1))) in
       cert_step E a (length certs) (0 + k) pre (certs ! k) (sts ! k) = Inr (sts ! Suc k) \<and>
       passed E a (length certs) (0 + k) pre (certs ! k) (sts ! k) (sts ! Suc k) \<and> \<not> failed (sts ! Suc k)"
    using path_loop_states[OF assms] by blast
  then show ?thesis unfolding run_def Let_def issuer_at_def add_0_left by blast
qed

lemma validate_run:
  assumes "validate_one E certs a = Inr r" and "r_valid r"
  shows "\<exists>sts. run E a certs sts \<and> r_graph r = graph (last sts) \<and> r_workingKey r = workingKey (last sts) \<and>
    r_policies r = userConstrainedPolicies (graph (last sts)) (length certs) (userInitialPolicySet (last sts)) \<and>
    (explicitPolicy (last sts) > 0 \<or> r_policies r \<noteq> []) \<and>
    r_revocationChecked r = (if \<not> revocationRan (last sts) then Rev_not
        else if revocationUndetermined (last sts) then Rev_undetermined
        else if revocationWaived (last sts) then Rev_waived else Rev_determined) \<and>
    (\<forall>gate. v_ct E = Some gate \<longrightarrow> gate certs = Inr None) \<and>
    (\<forall>matches. v_identity E = Some matches \<longrightarrow> matches (last certs) = Inr True \<and> r_identity r)"
proof -
  from assms(1) obtain s1 s2 ok s3 where s: "path_loop E a (length certs) 0 None certs (initialState E a (length certs)) = Inr s1"
    "ct_verdict E certs (policy_verdict (length certs) s1) = Inr s2" "identity_verdict E certs s2 = Inr (ok, s3)" "r = result_of E a certs ok s3"
    by (auto simp: validate_one_def bindR_eq_Inr split: if_splits)
  have same: "core (final_row n c st) = core st" "revocationRan (final_row n c st) = revocationRan st"
    "revocationUndetermined (final_row n c st) = revocationUndetermined st"
    "revocationWaived (final_row n c st) = revocationWaived st" "failed (final_row n c st) \<longleftrightarrow> failed st \<or> c \<noteq> None" for n c st
    by (simp_all add: final_row_def core_def)
  let ?s3 = s3
  have f3: "\<not> failed ?s3" using assms(2) by (simp add: s(4) result_of_def)
  have i: "core ?s3 = core s2 \<and> revocationRan ?s3 = revocationRan s2 \<and> revocationUndetermined ?s3 = revocationUndetermined s2 \<and>
    revocationWaived ?s3 = revocationWaived s2 \<and> \<not> failed s2"
    using f3 s(3) by (auto simp: identity_verdict_def same bindR_eq_Inr split: option.splits)
  let ?p = "policy_verdict (length certs) s1"
  have c: "core s2 = core ?p \<and> revocationRan s2 = revocationRan ?p \<and> revocationUndetermined s2 = revocationUndetermined ?p \<and>
    revocationWaived s2 = revocationWaived ?p \<and> \<not> failed ?p"
    using s(2) i by (auto simp: ct_verdict_def same bindR_eq_Inr split: option.splits)
  have p: "?p = s1 \<and> (explicitPolicy s1 > 0 \<or> length (userConstrainedPolicies (graph s1) (length certs) (userInitialPolicySet s1)) > 0)"
    using c by (auto simp: policy_verdict_def same step_simps split: if_splits)
  then have f: "\<not> failed s1" using c by simp
  have ct: "\<forall>gate. v_ct E = Some gate \<longrightarrow> gate certs = Inr None" using s(2) i by (auto simp: ct_verdict_def same bindR_eq_Inr)
  have id: "\<forall>matches. v_identity E = Some matches \<longrightarrow> matches (last certs) = Inr True \<and> ok"
    using s(3) f3 by (auto simp: identity_verdict_def same bindR_eq_Inr split: if_splits)
  obtain sts where sts: "run E a certs sts" "last sts = s1" using path_loop_run[OF s(1) f] by blast
  have e: "core ?s3 = core s1" using i c p by simp
  show ?thesis using sts(1) p i c ct id core_eqD[OF e] by (intro exI[of _ sts]) (simp add: sts(2) s(4) result_of_def)
qed

end
