(* ===== verification/Identity.thy ===== *)
theory Identity
  imports Path_Names Asn1_Decode
begin

text \<open>
  lib/identity-match.js: whether a certificate presents a name the client was trying to reach (RFC 9525).
  The client's references are read and classified once (\<open>snapshotReferences\<close>); each is then compared with
  each name of the certificate's subjectAltName, whose decoder is a parameter, until one matches.
\<close>

section \<open>What the caller hands over\<close>

text \<open>A reference as the caller writes it: bytes, a string, an object with its own keys and the four
  properties the code reads of it (an absent one is \<open>Undef\<close>, an absent value \<open>RPrim\<close>), or any other value.\<close>

datatype ref_arg =
    RBytes bytes
  | RText jsstr
  | RRecord "string list" js ref_arg js js
  | RPrim

datatype ref_input = ROne ref_arg | RMany "ref_arg list"

text \<open>What the verdict reports of the reference that matched.\<close>

datatype reported =
    Given jsstr
  | Reported_ip "jsstr option" bytes
  | Reported_dns jsstr
  | Reported_srv jsstr jsstr
  | Reported_uri jsstr jsstr

text \<open>A classified reference: its kind, its octets or its domain, the service or scheme that belongs to it.\<close>

datatype reference =
    IpRef (rf_octets: bytes) (rf_text: "jsstr option") (rf_input: reported)
  | DnsRef (rf_domain: jsstr) (rf_input: reported)
  | SrvRef (rf_domain: jsstr) (rf_service: jsstr) (rf_input: reported)
  | UriRef (rf_domain: jsstr) (rf_scheme: jsstr) (rf_input: reported)

section \<open>Reading a reference\<close>

definition bad_reference :: err where "bad_reference = IdentityE Identity_bad_reference"
definition unsupported_reference :: err where "unsupported_reference = IdentityE Identity_unsupported_reference"

fun ascii_scan :: "jsstr \<Rightarrow> unit res" where
  "ascii_scan [] = Inr ()"
| "ascii_scan (c # cs) =
     (if c = 0x7f then Inl bad_reference else if c > 0x7e then Inl unsupported_reference else ascii_scan cs)"

definition assertAsciiReference :: "jsstr \<Rightarrow> unit res" where
  "assertAsciiReference s = bindR (assertNoControlBytes bad_reference s) (\<lambda>_. ascii_scan s)"

definition assertNoWildcard :: "jsstr \<Rightarrow> unit res" where
  "assertNoWildcard s = (if 0x2a \<in> set s then Inl bad_reference else Inr ())"

definition assertNotAnAddress :: "jsstr \<Rightarrow> unit res" where
  "assertNotAnAddress v =
     (if \<not> list_all isHostNameChar v then Inl bad_reference
      else if endsInANumber v then Inl bad_reference else Inr ())"

definition label_sizes_ok :: "jsstr list \<Rightarrow> bool" where
  "label_sizes_ok ls \<longleftrightarrow> list_all (\<lambda>l. \<not> (length l = 0 \<or> length l > MAX_LABEL)) ls"

definition referenceDomain :: "ref_arg \<Rightarrow> jsstr res" where
  "referenceDomain v = (case v of
      RText s \<Rightarrow>
        if s = [] then Inl bad_reference
        else bindR (assertAsciiReference s) (\<lambda>_. bindR (assertNoWildcard s) (\<lambda>_. bindR (assertNotAnAddress s) (\<lambda>_.
          let d = stripTrailingDot s in
          if d = [] \<or> length d > MAX_HOST then Inl bad_reference
          else if label_sizes_ok (hostLabels d) then Inr d else Inl bad_reference)))
    | _ \<Rightarrow> Inl bad_reference)"

definition text_reference :: "jsstr \<Rightarrow> reference res" where
  "text_reference s =
     (if s = [] then Inl bad_reference
      else bindR (assertAsciiReference s) (\<lambda>_.
        if isIPv4 s \<or> isIpLiteral s then
          (case packIpLiteral s of
             None \<Rightarrow> Inl bad_reference
           | Some packed \<Rightarrow> Inr (IpRef packed (Some s) (Given s)))
        else bindR (referenceDomain (RText s)) (\<lambda>d. Inr (DnsRef d (Given s)))))"

definition REFERENCE_KEYS :: "string list" where
  "REFERENCE_KEYS = [''type'', ''value'', ''service'', ''scheme'']"

text \<open>The arms of a record.  \<open>addr\<close> is what the record's value is as a reference of its own.\<close>

definition ip_record :: "reference res \<Rightarrow> reference res" where
  "ip_record addr = bindR addr (\<lambda>a. case a of
      IpRef octets txt _ \<Rightarrow> Inr (IpRef octets txt (Reported_ip txt octets))
    | _ \<Rightarrow> Inl bad_reference)"

definition srv_record :: "js \<Rightarrow> ref_arg \<Rightarrow> reference res" where
  "srv_record service v = (case service of
      Str s \<Rightarrow>
        if s = [] then Inl bad_reference
        else bindR (assertAsciiReference s) (\<lambda>_.
          if hd s \<noteq> 0x5f then Inl bad_reference
          else if length s < 2 then Inl bad_reference
          else bindR (referenceDomain v) (\<lambda>d.
            Inr (SrvRef d (lowerAscii s) (Reported_srv (lowerAscii s) d))))
    | _ \<Rightarrow> Inl bad_reference)"

definition uri_record :: "js \<Rightarrow> ref_arg \<Rightarrow> reference res" where
  "uri_record scheme v = (case scheme of
      Str s \<Rightarrow>
        if s = [] then Inl bad_reference
        else bindR (assertAsciiReference s) (\<lambda>_.
          if 0x3a \<in> set s then Inl bad_reference
          else bindR (referenceDomain v) (\<lambda>d.
            Inr (UriRef d (lowerAscii s) (Reported_uri (lowerAscii s) d))))
    | _ \<Rightarrow> Inl bad_reference)"

fun read_reference :: "ref_arg \<Rightarrow> reference res" where
  "read_reference (RBytes octets) =
     (if length octets \<noteq> 4 \<and> length octets \<noteq> 16 then Inl bad_reference
      else Inr (IpRef octets (textFromOctets octets) (Reported_ip (textFromOctets octets) octets)))"
| "read_reference (RText s) = text_reference s"
| "read_reference (RRecord ks ty v service scheme) =
     (if \<exists>k \<in> set ks. k \<notin> set REFERENCE_KEYS then Inl bad_reference
      else if ty = Str (js_lit ''dns'') then bindR (referenceDomain v) (\<lambda>d. Inr (DnsRef d (Reported_dns d)))
      else if ty = Str (js_lit ''ip'') then ip_record (read_reference v)
      else if ty = Str (js_lit ''srv'') then srv_record service v
      else if ty = Str (js_lit ''uri'') then uri_record scheme v
      else Inl unsupported_reference)"
| "read_reference RPrim = Inl bad_reference"

definition IDENTITY_MAX_REFERENCES :: nat where "IDENTITY_MAX_REFERENCES = 64"
definition SAN_MAX_ENTRIES :: nat where "SAN_MAX_ENTRIES = 256"

definition snapshotReferences :: "ref_input \<Rightarrow> reference list res" where
  "snapshotReferences references =
     (let list = (case references of ROne r \<Rightarrow> [r] | RMany rs \<Rightarrow> rs) in
      if length list = 0 then Inl (IdentityE Identity_bad_input)
      else if length list > IDENTITY_MAX_REFERENCES then Inl (IdentityE Identity_too_many_references)
      else mapR read_reference list)"

section \<open>Comparing a name\<close>

datatype ignored_reason =
    Not_shaped | Bad_wildcard | Wildcards_off
  | Srv_bad_der | Srv_not_ia5 | Srv_constructed | Srv_empty | Srv_unprintable | Srv_no_underscore | Srv_one_part
  | Uri_no_scheme | Uri_no_host | Uri_literal | Uri_escape | Uri_not_domain

datatype disposition = Matches | Differs | Ignored ignored_reason

definition presentedNameShape :: "jsstr \<Rightarrow> bool" where
  "presentedNameShape s = (if length s = 0 \<or> length s > MAX_HOST then False else label_sizes_ok (hostLabels s))"

datatype wildcard_shape = No_wildcard | Valid_wildcard | Invalid_wildcard

definition wildcardShape :: "jsstr list \<Rightarrow> wildcard_shape" where
  "wildcardShape labels =
     (let total = sum_list (map (count_char 0x2a) labels) in
      if total = 0 then No_wildcard
      else if total > 1 then Invalid_wildcard
      else if length labels < 2 then Invalid_wildcard
      else if labels ! 0 = [0x2a] then Valid_wildcard else Invalid_wildcard)"

definition labels_match :: "jsstr list \<Rightarrow> jsstr list \<Rightarrow> bool" where
  "labels_match ps rs \<longleftrightarrow> list_all2 (\<lambda>p r. lowerAscii p = lowerAscii r) ps rs"

definition dnsMatch :: "jsstr \<Rightarrow> jsstr \<Rightarrow> bool \<Rightarrow> disposition" where
  "dnsMatch presentedName refDomain wildcardsAllowed =
     (let p = stripTrailingDot presentedName in
      if \<not> presentedNameShape p then Ignored Not_shaped
      else let pl = hostLabels p; rl = hostLabels refDomain in
        case wildcardShape pl of
          Invalid_wildcard \<Rightarrow> Ignored Bad_wildcard
        | Valid_wildcard \<Rightarrow>
            if \<not> wildcardsAllowed then Ignored Wildcards_off
            else if length pl \<noteq> length rl then Differs
            else if \<not> labels_match (tl pl) (tl rl) then Differs
            else if rl ! 0 = [] then Differs else Matches
        | No_wildcard \<Rightarrow>
            if length pl \<noteq> length rl then Differs
            else if labels_match pl rl then Matches else Differs)"

definition id_ipMatch :: "bytes \<Rightarrow> bytes \<Rightarrow> bool" where
  "id_ipMatch refOctets entryOctets =
     (if length refOctets \<noteq> length entryOctets then False
      else fold (\<lambda>(a, b) same. same OR (unat a XOR unat b)) (zip refOctets entryOctets) 0 = 0)"

text \<open>The service and the domain of an SRVName, or why it is not read.\<close>

definition srvName :: "bytes \<Rightarrow> ignored_reason + (jsstr \<times> jsstr)" where
  "srvName valueBytes = (case decode valueBytes no_opts of
      Inl _ \<Rightarrow> Inl Srv_bad_der
    | Inr node \<Rightarrow>
        if tagClass node \<noteq> Universal \<or> tagNumber node \<noteq> TAG_IA5_STRING then Inl Srv_not_ia5
        else if constructed node then Inl Srv_constructed
        else case content node of
          None \<Rightarrow> Inl Srv_empty
        | Some c \<Rightarrow>
            if c = [] then Inl Srv_empty
            else if assertPrintableIa5 bad_reference c \<noteq> Inr () then Inl Srv_unprintable
            else let t = latin1_decode c; dot = length (takeWhile (\<lambda>x. x \<noteq> 0x2e) t) in
              if hd t \<noteq> 0x5f then Inl Srv_no_underscore
              else if dot = length t \<or> dot < 2 \<or> dot = length t - 1 then Inl Srv_one_part
              else Inr (take dot t, drop (dot + 1) t))"

definition uriId :: "jsstr \<Rightarrow> ignored_reason + (jsstr \<times> jsstr)" where
  "uriId t = (case uriParts t of
      None \<Rightarrow> Inl Uri_no_scheme
    | Some parts \<Rightarrow>
        (case up_host parts of
           None \<Rightarrow> Inl Uri_no_host
         | Some host \<Rightarrow>
             if \<not> up_hasAuthority parts then Inl Uri_no_host
             else if up_bracketed parts then Inl Uri_literal
             else if 0x25 \<in> set host then Inl Uri_escape
             else let bare = (if char_is host 0 0x2a \<and> char_is host 1 0x2e then drop 2 host else host) in
               if \<not> isFqdnHost bare then Inl Uri_not_domain else Inr (lowerAscii (up_scheme parts), host)))"

definition oid_dnsSRV :: jsstr where "oid_dnsSRV = js_lit ''1.3.6.1.5.5.7.8.7''"

text \<open>One reference against one name.  A name whose value is not what the decoder gives its tag is one the
  code reads a property of \<open>undefined\<close> on.\<close>

definition id_compare :: "reference \<Rightarrow> general_name \<Rightarrow> bool \<Rightarrow> disposition res" where
  "id_compare ref entry wildcardsAllowed = (case ref of
      IpRef octets _ _ \<Rightarrow>
        if gn_tag entry \<noteq> 7 then Inr Differs
        else (case gn_val entry of
            GnBytes b \<Rightarrow> Inr (if id_ipMatch octets b then Matches else Differs) | _ \<Rightarrow> Inl TypeErr)
    | DnsRef d _ \<Rightarrow>
        if gn_tag entry \<noteq> 2 then Inr Differs
        else (case gn_val entry of GnText (Str s) \<Rightarrow> Inr (dnsMatch s d wildcardsAllowed) | _ \<Rightarrow> Inl TypeErr)
    | SrvRef d service _ \<Rightarrow>
        if gn_tag entry \<noteq> 0 then Inr Differs
        else (case gn_val entry of
            GnOther ty b \<Rightarrow>
              if ty \<noteq> oid_dnsSRV then Inr Differs
              else (case srvName b of
                  Inl why \<Rightarrow> Inr (Ignored why)
                | Inr (s, name) \<Rightarrow> if lowerAscii s \<noteq> service then Inr Differs else Inr (dnsMatch name d wildcardsAllowed))
          | _ \<Rightarrow> Inr Differs)
    | UriRef d scheme _ \<Rightarrow>
        if gn_tag entry \<noteq> 6 then Inr Differs
        else (case gn_val entry of
            GnText (Str s) \<Rightarrow>
              (case uriId s of
                 Inl why \<Rightarrow> Inr (Ignored why)
               | Inr (sch, name) \<Rightarrow> if sch \<noteq> scheme then Inr Differs else Inr (dnsMatch name d wildcardsAllowed))
          | _ \<Rightarrow> Inl TypeErr))"

section \<open>The search\<close>

text \<open>The state of the two loops: the counter of pairs and the list \<open>ignored\<close>, each entry with its index
  and the reason, once.\<close>

type_synonym search_state = "counter_state \<times> (nat \<times> ignored_reason) list"

fun search_entries ::
  "bool \<Rightarrow> reference \<Rightarrow> nat \<Rightarrow> general_name list \<Rightarrow> search_state \<Rightarrow> (nat option \<times> search_state) res" where
  "search_entries w r e [] s = Inr (None, s)"
| "search_entries w r e (x # xs) (c, ign) =
     bindR (tick c) (\<lambda>c.
     bindR (id_compare r x w) (\<lambda>d. case d of
        Matches \<Rightarrow> Inr (Some e, (c, ign))
      | Differs \<Rightarrow> search_entries w r (e + 1) xs (c, ign)
      | Ignored why \<Rightarrow>
          search_entries w r (e + 1) xs (c, if (e, why) \<in> set ign then ign else ign @ [(e, why)])))"

fun search_references ::
  "bool \<Rightarrow> general_name list \<Rightarrow> reference list \<Rightarrow> search_state \<Rightarrow> ((reference \<times> nat) option \<times> search_state) res" where
  "search_references w es [] s = Inr (None, s)"
| "search_references w es (r # rs) s =
     bindR (search_entries w r 0 es s) (\<lambda>(found, s). case found of
        Some e \<Rightarrow> Inr (Some (r, e), s)
      | None \<Rightarrow> search_references w es rs s)"

text \<open>The verdict.  The label of the entry that matched is the entry's index; \<open>None\<close> in \<open>mv_why\<close> is a match.\<close>

datatype no_match = Presents_nothing | No_identifier_matched

record match_verdict =
  mv_matched :: bool
  mv_reference :: "reported option"
  mv_entry :: "nat option"
  mv_presented :: nat
  mv_ignored :: "(nat \<times> ignored_reason) list"
  mv_why :: "no_match option"

definition id_search :: "reference list \<Rightarrow> general_name list \<Rightarrow> bool \<Rightarrow> match_verdict res" where
  "id_search refs entries wildcardsAllowed =
     bindR (counter (Num (int (SAN_MAX_ENTRIES * IDENTITY_MAX_REFERENCES))) (IdentityE Identity_too_many_names)) (\<lambda>pairs.
     bindR (search_references wildcardsAllowed entries refs (pairs, [])) (\<lambda>(found, (_, ign)).
       Inr (case found of
           Some (r, e) \<Rightarrow> \<lparr>mv_matched = True, mv_reference = Some (rf_input r), mv_entry = Some e,
             mv_presented = length entries, mv_ignored = ign, mv_why = None\<rparr>
         | None \<Rightarrow> \<lparr>mv_matched = False, mv_reference = None, mv_entry = None,
             mv_presented = length entries, mv_ignored = ign,
             mv_why = Some (if entries = [] then Presents_nothing else No_identifier_matched)\<rparr>)))"

definition presented :: "decoders \<Rightarrow> cert \<Rightarrow> general_name list res" where
  "presented D cert = (case findExt cert oid_subjectAltName of
      None \<Rightarrow> Inr []
    | Some x \<Rightarrow> bindR (d_subjectAltName D (x_value x)) (\<lambda>names.
        if length names > SAN_MAX_ENTRIES then Inl (IdentityE Identity_too_many_names) else Inr names))"

definition MATCH_OPTS :: "string list" where
  "MATCH_OPTS = [''wildcards'']"

text \<open>\<open>match\<close>, for references that were already read.\<close>

definition id_match :: "decoders \<Rightarrow> cert \<Rightarrow> reference list \<Rightarrow> bag \<Rightarrow> match_verdict res" where
  "id_match D cert refs opts =
     bindR (assertKnownKeys opts MATCH_OPTS (IdentityE Identity_bad_input)) (\<lambda>_.
     bindR (case option_of opts ''wildcards'' of
         Undef \<Rightarrow> Inr True | Bool b \<Rightarrow> Inr b | _ \<Rightarrow> Inl (IdentityE Identity_bad_input)) (\<lambda>wildcardsAllowed.
     bindR (presented D cert) (\<lambda>entries. id_search refs entries wildcardsAllowed)))"

end
