(* ===== verification/Path_Sample.thy ===== *)
theory Path_Sample
  imports Path_Steps Identity
begin

text \<open>
  A concrete path on which the theorems about valid paths are exercised: what \<open>validate_one\<close> answers for
  it is computed here, one step of the loop body at a time.
\<close>

section \<open>A sample path\<close>

text \<open>An anchor \<open>A\<close>, an intermediate \<open>B\<close> with path length 0, an excluded host and one policy, and a target
  \<open>C\<close> with a host name and the same policy.\<close>

definition sample_name :: "nat \<Rightarrow> dn" where
  "sample_name c = [[\<lparr>at_type = js_lit ''2.5.4.3'', at_value = Str [c]\<rparr>]]"

definition sample_spki :: spki_info where
  "sample_spki = \<lparr>sp_alg = js_lit ''1.3.101.112'', sp_params = None, sp_key = [7], sp_unused = 0, sp_bytes = []\<rparr>"

definition sample_policy :: policy where "sample_policy = js_lit ''1.2.3''"

definition sample_dec :: decoders where
  "sample_dec = \<lparr>
     d_basicConstraints = (\<lambda>_. Inr \<lparr>bc_cA = True, bc_pathLen = Some 0\<rparr>),
     d_keyUsage = (\<lambda>_. Inl (PathE Path_bad_key_usage)),
     d_nameConstraints = (\<lambda>_. Inr \<lparr>nc_permitted = [\<lparr>st_tag = 2, st_base = GnText (Str (js_lit ''ok''))\<rparr>],
        nc_excluded = [\<lparr>st_tag = 2, st_base = GnText (Str (js_lit ''bad.ok''))\<rparr>]\<rparr>),
     d_certificatePolicies = (\<lambda>_. Inr [(sample_policy, None)]),
     d_policyMappings = (\<lambda>_. Inr []),
     d_policyConstraints = (\<lambda>_. Inr \<lparr>pc_requireExplicitPolicy = None, pc_inhibitPolicyMapping = None\<rparr>),
     d_inhibitAnyPolicy = (\<lambda>_. Inr 0),
     d_subjectAltName = (\<lambda>_. Inr [\<lparr>gn_tag = 2, gn_val = GnText (Str (js_lit ''A.ok'')), gn_bytes = None\<rparr>]),
     d_extKeyUsage = (\<lambda>_. Inr []),
     d_tlsFeature = (\<lambda>_. Inr []),
     d_other = (\<lambda>_. None)\<rparr>"

definition sample_cert :: "nat \<Rightarrow> nat \<Rightarrow> ext_entry list \<Rightarrow> cert" where
  "sample_cert subj iss exts = \<lparr>c_subject = sample_name subj, c_issuer = sample_name iss, c_notBefore = 0, c_notAfter = 9,
     c_spki = sample_spki, c_exts = exts, c_tbs = [], c_sigAlg = [], c_signature = []\<rparr>"

definition sample_ext :: "jsstr \<Rightarrow> bool \<Rightarrow> ext_entry" where
  "sample_ext x crit = \<lparr>x_oid = x, x_critical = crit, x_value = []\<rparr>"

definition sample_ca :: cert where
  "sample_ca = sample_cert 66 65 [sample_ext oid_basicConstraints True, sample_ext oid_nameConstraints True,
     sample_ext oid_certificatePolicies False]"

definition sample_leaf :: cert where
  "sample_leaf = sample_cert 67 66 [sample_ext oid_certificatePolicies True, sample_ext oid_subjectAltName False]"

definition sample_path :: "cert list" where
  "sample_path = [sample_ca, sample_leaf]"

definition sample_anchor :: anchor where
  "sample_anchor = \<lparr>ta_name = sample_name 65, ta_key = \<lparr>wk_alg = [], wk_key = [], wk_params = None\<rparr>,
     ta_permitted = [], ta_excluded = [], tc_permitted = [], tc_excluded = [], tc_policySet = None,
     tc_requireExplicitPolicy = True, tc_inhibitAnyPolicy = False, tc_inhibitPolicyMapping = False,
     tc_pathLen = Some 1, ta_distrustAfter = None, ta_purposes = None\<rparr>"

definition sample_refs :: "reference list" where
  "sample_refs = [DnsRef (js_lit ''a.ok'') (Given (js_lit ''a.ok''))]"

definition sample_identity :: "cert \<Rightarrow> bool res" where
  "sample_identity c = bindR (id_match sample_dec c sample_refs []) (\<lambda>v. Inr (mv_matched v))"

definition sample_env :: env where
  "sample_env = \<lparr>v_lc = lowerAscii, v_dec = sample_dec, v_verify = (\<lambda>_ _. None), v_compromised = (\<lambda>_. False),
     v_distrusted = (\<lambda>_. False), v_composite = (\<lambda>_. False), v_minRsaModulusBits = 2048, v_maxPolicyNodes = 4096,
     v_maxPathCerts = 100, v_time = 5, v_checker = Some (\<lambda>_ _ _ _. Answer (Some (js_lit ''good''))), v_softFail = False,
     v_requireRevocation = True, v_initialExplicitPolicy = False, v_initialAnyPolicyInhibit = False,
     v_initialPolicyMappingInhibit = False, v_userInitialPolicySet = None, v_permitted = [], v_excluded = [],
     v_requiredEku = None, v_checkPurpose = None, v_ct = None, v_identity = Some sample_identity\<rparr>"

definition sample_names :: name_constraints where
  "sample_names = \<lparr>nc_permitted = [\<lparr>st_tag = 2, st_base = GnText (Str (js_lit ''ok''))\<rparr>],
     nc_excluded = [\<lparr>st_tag = 2, st_base = GnText (Str (js_lit ''bad.ok''))\<rparr>]\<rparr>"

definition sample_g1 :: pgraph where
  "sample_g1 = process_policies 1 [(sample_policy, None)] True (graph_start 4096)"

definition sample_g2 :: pgraph where
  "sample_g2 = process_policies 2 [(sample_policy, None)] True sample_g1"

lemma sample_simps [simp]:
  "v_lc sample_env = lowerAscii" "v_dec sample_env = sample_dec" "v_verify sample_env c w = None"
  "v_compromised sample_env b = False" "v_distrusted sample_env b = False" "v_composite sample_env x = False"
  "v_minRsaModulusBits sample_env = 2048" "v_time sample_env = 5" "v_softFail sample_env = False"
  "v_checker sample_env = Some (\<lambda>_ _ _ _. Answer (Some (js_lit ''good'')))" "v_requiredEku sample_env = None"
  "v_checkPurpose sample_env = None" "v_ct sample_env = None" "v_identity sample_env = Some sample_identity"
  "ta_distrustAfter sample_anchor = None" "ta_purposes sample_anchor = None" "ta_key sample_anchor = \<lparr>wk_alg = [], wk_key = [], wk_params = None\<rparr>"
  "c_notBefore sample_ca = 0" "c_notAfter sample_ca = 9" "c_notBefore sample_leaf = 0" "c_notAfter sample_leaf = 9"
  "c_subject sample_ca = sample_name 66" "c_issuer sample_ca = sample_name 65" "c_subject sample_leaf = sample_name 67"
  "c_issuer sample_leaf = sample_name 66" "c_spki sample_ca = sample_spki" "c_spki sample_leaf = sample_spki"
  "sp_bytes sample_spki = []" "sp_params sample_spki = None" "sp_alg sample_spki = js_lit ''1.3.101.112''"
  "sample_name n \<noteq> []"
  by (simp_all add: sample_env_def sample_anchor_def sample_ca_def sample_leaf_def sample_cert_def sample_spki_def sample_name_def)

lemma sample_self [simp]:
  "selfIssued sample_env sample_ca = False"
  "selfIssued sample_env sample_leaf = False"
  by code_simp+

lemma sample_keys [simp]:
  "dnEqual lowerAscii (PathE Path_name_chaining) (sample_name 65) (sample_name 65) = Inr True"
  "dnEqual lowerAscii (PathE Path_name_chaining) (sample_name 66) (sample_name 66) = Inr True"
  "weakIssuerKey 2048 [] = False"
  "js_lit ''1.3.101.112'' \<notin> set STATEFUL_HBS_OIDS"
  "js_lit ''1.3.101.112'' \<notin> set ML_KEM_OIDS"
  "keyUsage_of sample_dec sample_ca = Inr None"
  by code_simp+

lemma sample_exts [simp]:
  "findExt sample_leaf oid_policyConstraints = None"
  "findExt sample_leaf oid_policyMappings = None"
  "findExt sample_leaf oid_nameConstraints = None"
  "findExt sample_leaf oid_inhibitAnyPolicy = None"
  "findExt sample_ca oid_policyConstraints = None"
  "findExt sample_ca oid_policyMappings = None"
  "findExt sample_ca oid_inhibitAnyPolicy = None"
  by code_simp+

lemma sample_leaf_exts [simp]:
  "findExt sample_ca oid_nameConstraints = Some (sample_ext oid_nameConstraints True)"
  "findExt sample_ca oid_basicConstraints = Some (sample_ext oid_basicConstraints True)"
  "findExt sample_ca oid_certificatePolicies = Some (sample_ext oid_certificatePolicies False)"
  "findExt sample_leaf oid_certificatePolicies = Some (sample_ext oid_certificatePolicies True)"
  by code_simp+

lemma sample_structure [simp]:
  "unrecognizedCriticalExtension sample_ca False = None"
  "unrecognizedCriticalExtension sample_leaf True = None"
  "validateCriticalExtensionStructure sample_dec sample_ca = None"
  "validateCriticalExtensionStructure sample_dec sample_leaf = None"
  by code_simp+

lemma sample_graphs [simp]:
  "capHit sample_g1 = False"
  "capHit sample_g2 = False"
  "graph_present sample_g1 = True"
  "graph_present sample_g2 = True"
  "js_lit ''good'' \<noteq> js_lit ''revoked''"
  by code_simp+

lemma sample_nc [simp]:
  "checkNameConstraints lowerAscii sample_dec [] [] sample_ca = Inr None"
  "checkNameConstraints lowerAscii sample_dec (nc_excluded sample_names) [nc_permitted sample_names] sample_leaf = Inr None"
  by code_simp+

lemma sample_policies [simp]:
  "userConstrainedPolicies sample_g2 2 [anyPolicy] = [sample_policy]"
  "userConstrainedPolicies sample_g2 (Suc (Suc 0)) [anyPolicy] = [sample_policy]"
  by code_simp+

lemma sample_decoders [simp]:
  "d_basicConstraints sample_dec b = Inr \<lparr>bc_cA = True, bc_pathLen = Some 0\<rparr>"
  "d_nameConstraints sample_dec b = Inr sample_names"
  "d_certificatePolicies sample_dec b = Inr [(sample_policy, None)]"
  "x_critical (sample_ext x c) = c"
  "nc_permitted sample_names \<noteq> []"
  by (simp_all add: sample_dec_def sample_names_def sample_ext_def)


definition sample_key :: working_key where
  "sample_key = \<lparr>wk_alg = js_lit ''1.3.101.112'', wk_key = [], wk_params = None\<rparr>"

definition sample_rows :: "check list" where
  "sample_rows = map (\<lambda>n. simple_check n None) [C_signature, C_validity, C_nameChaining, C_nameConstraints] @
     [\<lparr>ck_name = C_revocation, ck_ok = True, ck_code = None, ck_status = Some (js_lit ''good''), ck_waived = False\<rparr>]"

definition sample_state ::
  "pgraph \<Rightarrow> name_constraints \<Rightarrow> nat \<Rightarrow> int \<Rightarrow> working_key \<Rightarrow> dn \<Rightarrow> check list \<Rightarrow> check list list \<Rightarrow> bool \<Rightarrow> pstate" where
  "sample_state g nc c m wk issuer cs rs b =
   \<lparr>graph = g, permittedGenerations = (if nc_permitted nc = [] then [] else [nc_permitted nc]), excludedSubtrees = nc_excluded nc,
    explicitPolicy = 0, inhibitAnyPolicy = c, policyMapping = c, maxPathLength = m, workingKey = wk,
    workingIssuerName = issuer, userInitialPolicySet = [anyPolicy], checks = cs, results = rs, failed = False,
    revocationRan = b, revocationWaived = False, revocationUndetermined = False, prefixAuthentic = True,
    distrustedFrom = None, anchorDistrustApplied = False, anchorPurposeApplied = False\<rparr>"

definition no_names :: name_constraints where "no_names = \<lparr>nc_permitted = [], nc_excluded = []\<rparr>"

lemma no_names_simps [simp]: "nc_permitted no_names = []" "nc_excluded no_names = []"
  by (simp_all add: no_names_def)

lemma sample_init: "initialState sample_env sample_anchor 2 =
    sample_state (graph_start 4096) no_names 3 1 (ta_key sample_anchor) (sample_name 65) [] [] False"
  by (simp add: initialState_def sample_env_def sample_anchor_def flagSet_def mergedPolicySet_def sample_state_def)

lemma sample_graph [simp]:
  "process_policies (Suc 0) [(sample_policy, None)] True (graph_start 4096) = sample_g1"
  "process_policies 2 [(sample_policy, None)] True sample_g1 = sample_g2"
  "process_policies (Suc (Suc 0)) [(sample_policy, None)] True sample_g1 = sample_g2"
  "graph_present (graph_start n)"
  by (simp_all add: sample_g1_def sample_g2_def graph_start_def numeral_2_eq_2)

lemma sample_pre:
  assumes "cert = sample_ca \<or> cert = sample_leaf" and "wk_params (workingKey st) = None" and "wk_key (workingKey st) = []"
  shows "key_step sample_env d cert (anchor_key_step sample_env sample_anchor d (signature_step sample_env cert st)) =
    Inr (signature_step sample_env cert st)"
  using assms
  by (auto simp: key_step_def inheritedSpki_def isNullOrAbsentParams_def anchor_key_step_def signature_step_def verdict_row_def
      row_def opt_holds_def)

lemma sample_key_simps [simp]: "wk_params sample_key = None" "wk_key sample_key = []"
  by (simp_all add: sample_key_def)

lemma sample_check1: "check_step sample_env sample_anchor 2 0 None sample_ca
    (sample_state (graph_start 4096) no_names 3 1 (ta_key sample_anchor) (sample_name 65) [] [] False) =
   Inr (sample_state sample_g1 no_names 3 1 (ta_key sample_anchor) (sample_name 65) sample_rows [] True)"
  unfolding check_step_def sample_state_def
  apply (subst sample_pre)
  apply simp
  apply simp
  apply simp
  unfolding bindR.simps
  apply (simp add: signature_step_def verdict_row_def row_def)
  apply (simp add: usage_step_def validity_step_def verdict_row_def row_def)
  apply (simp add: chaining_step_def verdict_row_def row_def tls_step_def tlsFeatureChainCheck_def)
  apply (simp add: names_step_def verdict_row_def row_def)
  apply (simp add: revocation_step_def answer_step_def ran_def status_row_def opt_holds_def)
  apply (simp add: policies_step_def processPolicies_def decodeExt_def Let_def)
  apply (simp add: subject_step_def sample_rows_def simple_check_def)
  done

lemma sample_next1: "next_step sample_env sample_ca 1
    (sample_state sample_g1 no_names 3 1 (ta_key sample_anchor) (sample_name 65) sample_rows [] True) =
  Inr (sample_state sample_g1 sample_names 2 0 sample_key (sample_name 66) sample_rows [] True)"
  unfolding next_step_def prepareNext_def sample_state_def
  apply (simp add: prepare_eku_def andThen_def continue_def)
  apply (simp add: prepare_mappings_def decodeExt_def continue_def)
  apply (simp add: prepare_working_def updateWorkingKey_def isNullOrAbsentParams_def continue_def)
  apply (simp add: prepare_names_def critical_ext_def decodeExt_def absorbNameConstraints_def continue_def)
  apply (simp add: prepare_counters_def continue_def)
  apply (simp add: prepare_constraints_def critical_ext_def decodeExt_def continue_def)
  apply (simp add: prepare_inhibit_def critical_ext_def decodeExt_def continue_def lower_def)
  apply (simp add: prepare_basic_def decodeExt_def continue_def)
  apply (simp add: prepare_usage_def continue_def sample_key_def)
  done

lemma sample_check2: "check_step sample_env sample_anchor 2 1 (Some sample_ca) sample_leaf
    (sample_state sample_g1 sample_names 2 0 sample_key (sample_name 66) [] [sample_rows] True) =
   Inr (sample_state sample_g2 sample_names 2 0 sample_key (sample_name 66) sample_rows [sample_rows] True)"
  unfolding check_step_def sample_state_def
  apply (subst sample_pre)
  apply simp
  apply simp
  apply simp
  unfolding bindR.simps
  apply (simp add: signature_step_def verdict_row_def row_def)
  apply (simp add: usage_step_def validity_step_def verdict_row_def row_def)
  apply (simp add: chaining_step_def verdict_row_def row_def tls_step_def tlsFeatureChainCheck_def)
  apply (simp add: names_step_def verdict_row_def row_def)
  apply (simp add: revocation_step_def answer_step_def ran_def status_row_def opt_holds_def)
  apply (simp add: policies_step_def processPolicies_def decodeExt_def Let_def)
  apply (simp add: subject_step_def sample_rows_def simple_check_def)
  done

lemma sample_last: "last_step sample_env sample_anchor sample_leaf
    (sample_state sample_g2 sample_names 2 0 sample_key (sample_name 66) sample_rows [sample_rows] True) =
  Inr (sample_state sample_g2 sample_names 2 0 sample_key (sample_name 66) sample_rows [sample_rows] True)"
  unfolding last_step_def sample_state_def
  apply (simp add: last_constraints_def last_ext_def decodeExt_def)
  apply (simp add: last_mappings_def decodeExt_def)
  apply (simp add: last_names_def last_inhibit_def last_ext_def decodeExt_def)
  apply (simp add: last_eku_def last_anchor_def assertAnchorConstraints_def)
  apply (simp add: updateWorkingKey_def isNullOrAbsentParams_def sample_key_def)
  done

lemma sample_close:
  "close_step (extension_step sample_env 2 sample_ca (Suc 0) (sample_state g nc c m wk iss cs rs b)) =
     sample_state g nc c m wk iss [] (rs @ [cs]) b"
  "close_step (extension_step sample_env 2 sample_leaf (Suc (Suc 0)) (sample_state g nc c m wk iss cs rs b)) =
     sample_state g nc c m wk iss [] (rs @ [cs]) b"
  by (simp_all add: close_step_def extension_step_def sample_state_def)

lemma sample_loop: "path_loop sample_env sample_anchor 2 0 None sample_path (initialState sample_env sample_anchor 2) =
   Inr (sample_state sample_g2 sample_names 2 0 sample_key (sample_name 66) [] [sample_rows, sample_rows] True)"
proof -
  have "cert_step sample_env sample_anchor 2 0 None sample_ca (initialState sample_env sample_anchor 2) =
    Inr (sample_state sample_g1 sample_names 2 0 sample_key (sample_name 66) [] [sample_rows] True)"
    unfolding cert_step_def sample_init sample_check1 bindR.simps using sample_next1 by (simp add: sample_close)
  moreover have "cert_step sample_env sample_anchor 2 1 (Some sample_ca) sample_leaf
     (sample_state sample_g1 sample_names 2 0 sample_key (sample_name 66) [] [sample_rows] True) =
    Inr (sample_state sample_g2 sample_names 2 0 sample_key (sample_name 66) [] [sample_rows, sample_rows] True)"
    unfolding cert_step_def sample_check2 bindR.simps using sample_last by (simp add: sample_close)
  ultimately show ?thesis unfolding sample_path_def by simp
qed

lemma sample_matches: "sample_identity sample_leaf = Inr True"
proof -
  have p: "presented sample_dec sample_leaf = Inr [\<lparr>gn_tag = 2, gn_val = GnText (Str (js_lit ''A.ok'')), gn_bytes = None\<rparr>]"
  proof -
    have "findExt sample_leaf oid_subjectAltName = Some (sample_ext oid_subjectAltName False)" by code_simp
    then show ?thesis by (simp add: presented_def sample_dec_def SAN_MAX_ENTRIES_def)
  qed
  have m: "dnsMatch (js_lit ''A.ok'') (js_lit ''a.ok'') True = Matches" by code_simp
  show ?thesis
    by (simp add: sample_identity_def id_match_def assertKnownKeys_def option_of_def p id_search_def sample_refs_def
        counter_def tick_def SAN_MAX_ENTRIES_def IDENTITY_MAX_REFERENCES_def id_compare_def m)
qed

definition sample_rows' :: "check list list" where
  "sample_rows' = [sample_rows, sample_rows @ [simple_check C_identity None]]"

definition sample_result :: result where
  "sample_result = result_of sample_env sample_anchor sample_path True
     (sample_state sample_g2 sample_names 2 0 sample_key (sample_name 66) [] sample_rows' True)"

lemma sample_result_simps [simp]:
  "r_valid sample_result" "r_policies sample_result = [sample_policy]" "r_workingKey sample_result = sample_key"
  "r_revocationChecked sample_result = Rev_determined" "r_identity sample_result"
  by (simp_all add: sample_result_def result_of_def sample_state_def sample_path_def)

lemma sample_validates: "validate_one sample_env sample_path sample_anchor = Inr sample_result"
proof -
  have n: "length sample_path = 2" "last sample_path = sample_leaf" by (simp_all add: sample_path_def)
  have "\<not> hasPurposeScopedMetadata sample_anchor" by (simp add: hasPurposeScopedMetadata_def opt_holds_def)
  moreover have "policy_verdict 2 (sample_state sample_g2 sample_names 2 0 sample_key (sample_name 66) [] [sample_rows, sample_rows] True) =
     sample_state sample_g2 sample_names 2 0 sample_key (sample_name 66) [] [sample_rows, sample_rows] True"
    by (simp add: policy_verdict_def sample_state_def)
  moreover have "final_row C_identity None (sample_state sample_g2 sample_names 2 0 sample_key (sample_name 66) [] [sample_rows, sample_rows] True) =
     sample_state sample_g2 sample_names 2 0 sample_key (sample_name 66) [] sample_rows' True"
    by (simp add: final_row_def append_last_def sample_state_def sample_rows'_def)
  ultimately show ?thesis
    unfolding validate_one_def n sample_loop
    by (simp add: ct_verdict_def identity_verdict_def n(2) sample_matches sample_result_def)
qed

end
