(* ===== verification/Path_Keys.thy ===== *)
theory Path_Keys
  imports Path_State
begin

text \<open>
  The keys of a path as RFC 5280 section 6.1.4 (d) to (f) and the DER describe them, without the functions of
  lib/path-validate.js: which key a certificate hands on, with the parameters it may inherit, and what an RSA
  key is.
\<close>

section \<open>DER elements\<close>

definition der_length :: "nat \<Rightarrow> bytes" where
  "der_length n = (if n < 128 then [word_of_nat n]
     else let k = (LEAST k. n < 256 ^ k) in word_of_nat (128 + k) # be_bytes k n)"

definition der_element :: "byte \<Rightarrow> bytes \<Rightarrow> bytes" where
  "der_element t c = t # der_length (length c) @ c"

lemma count256_below: "n < 256 ^ k \<longleftrightarrow> count256 n \<le> k"
proof (induction k arbitrary: n)
  case 0
  then show ?case by (subst count256.simps) simp
next
  case (Suc k)
  have "n < 256 ^ Suc k \<longleftrightarrow> n div 256 < 256 ^ k" by (simp add: div_less_iff_less_mult mult.commute)
  moreover have "count256 n \<le> Suc k \<longleftrightarrow> count256 (n div 256) \<le> k"
    by (subst count256.simps) (simp add: count256.simps[of 0])
  ultimately show ?case using Suc[of "n div 256"] by simp
qed

lemma count256_least: "(LEAST k. n < 256 ^ k) = count256 n"
  unfolding count256_below by (rule Least_equality) auto

lemma encodeLength_der: "encodeLength (Num (int n)) = Inr l \<Longrightarrow> l = der_length n"
  unfolding encodeLength_def der_length_def count256_least by (auto simp: Let_def nat_or_80 split: if_splits)

lemma identifiers:
  "encodeIdentifier (Num (int CLASS_UNIVERSAL)) False (Num (int TAG_OID)) = Inr [6]"
  "encodeIdentifier (Num (int CLASS_UNIVERSAL)) False (Num (int TAG_BIT_STRING)) = Inr [3]"
  "encodeIdentifier (Num (int CLASS_UNIVERSAL)) True (Num (int TAG_SEQUENCE)) = Inr [48]"
  by code_simp+

lemma primitive_der:
  "universal TAG_OID False c = Inr b \<Longrightarrow> b = der_element 6 c"
  "universal TAG_BIT_STRING False c = Inr b \<Longrightarrow> b = der_element 3 c"
  unfolding universal_def encodeTLV_def contentBytes_def identifiers
  by (auto simp: res_simps der_element_def dest!: encodeLength_der)

lemma sequence_der: "build_sequence (Arr [Buf x, Buf y]) = Inr b \<Longrightarrow> b = der_element 48 (x @ y)"
  unfolding build_sequence_def encodeConstructed_def identifiers
  by (auto simp: res_simps der_element_def asBufferArray_def asBuffer_def Let_def simp flip: of_nat_add dest!: encodeLength_der)

lemma bitString_der: "build_bitString (Buf k) (Num (int u)) = Inr b \<Longrightarrow> b = der_element 3 (word_of_nat u # k)"
  unfolding build_bitString_def bitString_content_def
  by (auto simp: res_simps asBuffer_def cap_def split: if_splits dest!: primitive_der(2))

section \<open>The key a certificate hands on\<close>

text \<open>A certificate whose algorithm states parameters of its own hands on its key as it is.  Without (none, or
  a NULL) it inherits those of the key before it when the algorithm is the same, and its key is then the
  SubjectPublicKeyInfo with those parameters in place; otherwise nothing is inherited.\<close>

definition own_parameters :: "spki_info \<Rightarrow> bool" where
  "own_parameters sp \<longleftrightarrow> sp_params sp \<noteq> None \<and> sp_params sp \<noteq> Some [5, 0]"

definition with_parameters :: "spki_info \<Rightarrow> bytes \<Rightarrow> bytes \<Rightarrow> bool" where
  "with_parameters sp p key \<longleftrightarrow> (\<exists>arcs. decodeOidContent arcs = Inr (sp_alg sp) \<and>
     key = der_element 0x30 (der_element 0x30 (der_element 6 arcs @ p) @ der_element 3 (word_of_nat (sp_unused sp) # sp_key sp)))"

definition key_after :: "working_key \<Rightarrow> spki_info \<Rightarrow> working_key \<Rightarrow> bool" where
  "key_after before sp after \<longleftrightarrow> wk_alg after = sp_alg sp \<and>
     (if own_parameters sp then wk_params after = sp_params sp \<and> wk_key after = sp_bytes sp
      else if sp_alg sp = wk_alg before \<and> wk_params before \<noteq> None
      then wk_params after = wk_params before \<and> with_parameters sp (the (wk_params before)) (wk_key after)
      else wk_params after = None \<and> wk_key after = sp_bytes sp)"

lemma splice_der: "spliceSpkiParameters sp a p = Inr key \<Longrightarrow> a = sp_alg sp \<Longrightarrow> with_parameters sp p key"
  unfolding spliceSpkiParameters_def build_oid_def build_raw_def
  by (auto simp: res_simps with_parameters_def asBuffer_def oid_codec dest!: primitive_der(1) sequence_der bitString_der)

lemma working_key_after: "updateWorkingKey wk sp = Inr wk' \<Longrightarrow> key_after wk sp wk'"
  unfolding updateWorkingKey_def key_after_def own_parameters_def isNullOrAbsentParams_def
  by (auto simp: res_simps Let_def split: if_splits option.splits dest!: splice_der)

lemma working_key_octets: "updateWorkingKey wk sp = Inr wk' \<Longrightarrow>
    wk_key wk' = sp_bytes sp \<or> inheritedSpki wk sp = Inr (Some (wk_key wk'))"
  by (auto simp: updateWorkingKey_def inheritedSpki_def res_simps Let_def split: if_splits option.splits)

section \<open>The strength of an RSA key\<close>

text \<open>The content octets of rsaEncryption, 1.2.840.113549.1.1.1, and of id-RSASSA-PSS, 1.2.840.113549.1.1.10.\<close>

definition rsa_identifiers :: "bytes list" where
  "rsa_identifiers = [[0x2a, 0x86, 0x48, 0x86, 0xf7, 0x0d, 0x01, 0x01, 0x01], [0x2a, 0x86, 0x48, 0x86, 0xf7, 0x0d, 0x01, 0x01, 0x0a]]"

text \<open>\<open>key\<close> is a SubjectPublicKeyInfo of an RSA key (RFC 8017 appendix A.1) with the modulus \<open>N\<close>.\<close>

definition rsa_key :: "bytes \<Rightarrow> nat \<Rightarrow> bool" where
  "rsa_key key N \<longleftrightarrow> (\<exists>nd inner alg params rsa m rest.
     decode key no_opts = Inr nd \<and> alg \<in> set rsa_identifiers \<and>
     tree_of nd = TCons Universal 16 [TCons Universal 16 (TPrim Universal 6 alg # params), TPrim Universal 3 (0 # rsa)] \<and>
     decode rsa no_opts = Inr inner \<and> tree_of inner = TCons Universal 16 (TPrim Universal 2 m # rest) \<and> m \<noteq> [] \<and> N = be_val m)"

lemma rsa_identifiers_read: "alg \<in> set rsa_identifiers \<Longrightarrow> decodeOidContent alg = Inr oid_rsaEncryption \<or> decodeOidContent alg = Inr oid_rsassaPss"
  by (auto simp: rsa_identifiers_def decodeOidContent_def OID_MAX_SUBIDENTIFIER_BYTES_def OID_MAX_SUBIDENTIFIERS_def
      val128_def split_first_def digits_of.simps js_lit_def oid_rsaEncryption_def oid_rsassaPss_def)

lemma bit_width_bound: "n < 2 ^ k \<longleftrightarrow> bit_width n \<le> k"
proof (induction k arbitrary: n)
  case 0
  then show ?case by (subst bit_width.simps) simp
next
  case (Suc k)
  have "n < 2 ^ Suc k \<longleftrightarrow> n div 2 < 2 ^ k" by (simp add: div_less_iff_less_mult mult.commute)
  moreover have "bit_width n \<le> Suc k \<longleftrightarrow> bit_width (n div 2) \<le> k"
    by (subst bit_width.simps) (simp add: bit_width.simps[of 0])
  ultimately show ?case using Suc[of "n div 2"] by simp
qed

lemma be_val_drop_zeros: "be_val (dropWhile (\<lambda>b. b = 0) m) = be_val m"
  by (induction m) (simp_all add: be_val_def)

lemma modulus_bits_bound: "be_val m < 2 ^ b \<Longrightarrow> modulus_bits m \<le> b"
proof (cases "dropWhile (\<lambda>b. b = 0) m")
  case Nil
  then show ?thesis unfolding modulus_bits_def Nil by simp
next
  case (Cons msb rest)
  assume b: "be_val m < 2 ^ b"
  have "msb \<noteq> 0" using Cons hd_dropWhile[of "\<lambda>b. b = 0" m] by simp
  then have w: "0 < bit_width (unat msb)" by (subst bit_width.simps) (simp add: unat_eq_0)
  have "\<not> unat msb < 2 ^ (bit_width (unat msb) - 1)" using w bit_width_bound[of "unat msb" "bit_width (unat msb) - 1"] by simp
  then have "2 ^ (bit_width (unat msb) - 1) * 256 ^ length rest \<le> unat msb * 256 ^ length rest" by simp
  also have "\<dots> \<le> be_val m" using be_val_drop_zeros[of m] by (simp add: Cons be_val_Cons)
  finally have "2 ^ (bit_width (unat msb) - 1) * 2 ^ (8 * length rest) < (2::nat) ^ b" using b by (simp add: power_mult)
  then have "(2::nat) ^ (bit_width (unat msb) - 1 + 8 * length rest) < 2 ^ b" by (simp only: power_add)
  then show ?thesis using w power_less_imp_less_exp[of 2 "bit_width (unat msb) - 1 + 8 * length rest" b]
    by (simp add: modulus_bits_def Cons)
qed

lemma oid_node: "located buf n \<Longrightarrow> tree_of n = TPrim Universal 6 c \<Longrightarrow> readOid n = decodeOidContent c"
  by (cases n) (auto simp: readOid_def expectUniversal_def expectPrimitive_def content_of_def res_simps split: option.splits)

lemma bits_node: "located buf n \<Longrightarrow> tree_of n = TPrim Universal 3 c \<Longrightarrow> readBitString n = bit_string_content c"
  by (cases n) (auto simp: readBitString_def readBitStringContent_def expectUniversal_def expectPrimitive_def content_of_def
      res_simps split: option.splits)

lemma sequence_node:
  assumes "tree_of n = TCons Universal 16 ts"
  obtains ks where "children n = Some ks" "map tree_of ks = ts" "tagClass n = Universal" "tagNumber n = 16"
  using assms by (cases n) (auto split: option.splits)

lemma sequence_located: "located buf n \<Longrightarrow> children n = Some ks \<Longrightarrow> k \<in> set ks \<Longrightarrow> located buf k"
  by (cases n) auto

lemma prim_content: "located buf n \<Longrightarrow> tree_of n = TPrim cl t c \<Longrightarrow> content n = Some c"
  by (cases n) (auto split: option.splits)

theorem rsa_key_strength:
  assumes "rsa_key key N" and "N < 2 ^ b" and "\<not> weakIssuerKey minBits key"
  shows "minBits \<le> b"
proof -
  obtain nd inner alg params rsa m rest where
      d: "decode key no_opts = Inr nd" "alg \<in> set rsa_identifiers"
        "tree_of nd = TCons Universal 16 [TCons Universal 16 (TPrim Universal 6 alg # params), TPrim Universal 3 (0 # rsa)]"
      and i: "decode rsa no_opts = Inr inner" "tree_of inner = TCons Universal 16 (TPrim Universal 2 m # rest)"
      and m: "m \<noteq> []" "N = be_val m" using assms(1) unfolding rsa_key_def by blast
  have loc: "located key nd" "located rsa inner"
    using decode_located[OF d(1)] decode_located[OF i(1)] by (simp_all add: no_opts_def)
  obtain ks where ks: "children nd = Some ks" "map tree_of ks =
      [TCons Universal 16 (TPrim Universal 6 alg # params), TPrim Universal 3 (0 # rsa)]" "tagClass nd = Universal" "tagNumber nd = 16"
    by (rule sequence_node[OF d(3)])
  obtain ka kb where k: "ks = [ka, kb]" "tree_of ka = TCons Universal 16 (TPrim Universal 6 alg # params)"
      "tree_of kb = TPrim Universal 3 (0 # rsa)" using ks(2) by (auto simp: map_eq_Cons_conv)
  have kl: "located key ka" "located key kb" using sequence_located[OF loc(1) ks(1)] k(1) by simp_all
  obtain as where as: "children ka = Some as" "map tree_of as = TPrim Universal 6 alg # params" "tagClass ka = Universal" "tagNumber ka = 16"
    by (rule sequence_node[OF k(2)])
  obtain ko ps where ko: "as = ko # ps" "tree_of ko = TPrim Universal 6 alg" using as(2) by (auto simp: map_eq_Cons_conv)
  have oid: "readOid ko = decodeOidContent alg"
    using oid_node[OF sequence_located[OF kl(1) as(1)] ko(2)] ko(1) by simp
  have ne: "key \<noteq> []" using loc(1) by (cases nd) auto
  have rsa: "issuerKeyIsRsa key = Inr True"
    using rsa_identifiers_read[OF d(2)] unfolding issuerKeyIsRsa_def
    by (simp add: ne d(1) rootSequenceChildren_def ks(1,3,4) as(1,3,4) k(1) ko(1) oid) auto
  obtain js where js: "children inner = Some js" "map tree_of js = TPrim Universal 2 m # rest" "tagClass inner = Universal" "tagNumber inner = 16"
    by (rule sequence_node[OF i(2)])
  obtain km ms where km: "js = km # ms" "tree_of km = TPrim Universal 2 m" using js(2) by (auto simp: map_eq_Cons_conv)
  have "content km = Some m" using prim_content[OF sequence_located[OF loc(2) js(1)] km(2)] km(1) by simp
  moreover have "readBitString kb = Inr (0, rsa)" using bits_node[OF kl(2) k(3)] by (simp add: bit_string_content_def)
  ultimately have "rsaModulusBits key = Inr (Some (modulus_bits m))"
    unfolding rsaModulusBits_def by (simp add: rootSequenceChildren_def d(1) ks(1) k(1) i(1) js(1,3,4) km(1) m(1))
  then have "minBits \<le> modulus_bits m" using assms(3) rsa by (simp add: weakIssuerKey_def)
  then show ?thesis using modulus_bits_bound[of m b] assms(2) m(2) by simp
qed

end
