(* ===== verification/Policy_Expected.thy ===== *)
theory Policy_Expected
  imports Policy_Path
begin

text \<open>
  lib/path-validate.js, what the nodes of the valid-policy graph expect: a node of a certificate without policy
  mappings expects its own policy, one of a certificate that maps it the policies it is mapped to.  This is
  the link between the policies of consecutive certificates.
\<close>

section \<open>Expected policies under the operations\<close>

definition expects :: "pgraph \<Rightarrow> pkey \<Rightarrow> policy list option" where
  "expects g k = map_option expectedPolicySet (nd g k)"

lemma expects_modify: "(\<And>n. expectedPolicySet (f n) = expectedPolicySet n) \<Longrightarrow> expects (modify k f g) x = expects g x"
  by (cases "nd g k") (auto simp: expects_def graph_simps option.map_comp comp_def)

lemma expects_fold_modify: "(\<And>k n. expectedPolicySet (f k n) = expectedPolicySet n) \<Longrightarrow> expects (fold (\<lambda>p. modify p (f p)) ks g) x = expects g x"
  by (induction ks arbitrary: g) (simp_all add: expects_modify)

lemma expects_join: "expects (fold (join_parent k) ps g) x = expects g x"
  by (induction ps arbitrary: g) (simp_all add: join_parent_def expects_modify)

lemma expects_cap [simp]: "expects (g\<lparr>capHit := b\<rparr>) x = expects g x" "expects (g\<lparr>graph_present := b\<rparr>) x = expects g x"
  by (simp_all add: expects_def nd_def)

lemma node_nd: "nodeAt g d p = nd g (d, p)"
  by (simp add: nodeAt_def nd_def)

lemma expects_insert: "expects (g\<lparr>policyIndex := AList.update k n (policyIndex g), policyNodeCount := c\<rparr>) x =
    (if x = k then Some (expectedPolicySet n) else expects g x)"
  by (simp add: expects_def nd_insert)

lemma expects_None: "expects g k = None \<longleftrightarrow> nd g k = None"
  by (simp add: expects_def)

lemma expects_add: "expects (addPolicyNode g i p q es ps) x = expects g x \<or>
    (x = (i, p) \<and> expects g x = None \<and> expects (addPolicyNode g i p q es ps) x = Some es)"
proof (cases "nd g (i, p)")
  case None
  then show ?thesis by (simp add: addPolicyNode_def expects_join expects_insert node_nd expects_None)
next
  case (Some n)
  then show ?thesis by (simp add: addPolicyNode_def expects_join node_nd)
qed

lemma expects_remove: "expects (removePolicyNode k g) x = (if x = k then None else expects g x)"
proof -
  define g1 where "g1 = fold (\<lambda>p. modify p (\<lambda>n. n\<lparr>children_of := remove1 k (children_of n)\<rparr>)) (parents_at g k) g"
  define g2 where "g2 = fold (\<lambda>c. modify c (\<lambda>n. n\<lparr>parents_of := remove1 k (parents_of n)\<rparr>)) (children_at g k) g1"
  have "expects g2 x = expects g x"
    unfolding g2_def g1_def by (subst expects_fold_modify, simp, subst expects_fold_modify) simp_all
  moreover have "removePolicyNode k g = g2\<lparr>policyIndex := AList.delete k (policyIndex g2), policyNodeCount := policyNodeCount g2 - 1\<rparr>"
    unfolding removePolicyNode_def Let_def g2_def g1_def ..
  ultimately show ?thesis by (simp add: expects_def nd_def AList.delete_conv')
qed

section \<open>The steps\<close>

text \<open>A step that removes nodes or leaves what they expect.\<close>

definition thins :: "pgraph \<Rightarrow> pgraph \<Rightarrow> bool" where
  "thins g g' \<longleftrightarrow> (\<forall>x. expects g' x = None \<or> expects g' x = expects g x)"

lemma thins_refl [simp]: "thins g g"
  by (simp add: thins_def)

lemma thins_trans: "thins g g' \<Longrightarrow> thins g' g'' \<Longrightarrow> thins g g''"
  unfolding thins_def by metis

lemma thins_remove: "thins g (removePolicyNode k g)"
  by (simp add: thins_def expects_remove)

lemma thins_prune: "thins g (prunePolicyChildless d g)"
proof (induction d arbitrary: g)
  case (Suc d)
  have "thins g (fold remove_childless ks g)" for ks
    by (induction ks arbitrary: g) (auto simp: remove_childless_def intro: thins_trans thins_remove)
  then show ?case using Suc thins_trans by simp blast
qed simp

lemma thins_null: "thins g g' \<Longrightarrow> thins g (null_if_empty g')"
  by (simp add: null_if_empty_def thins_def)

text \<open>A step over one policy of a certificate: a new node expects its own policy.\<close>

definition asserts_own :: "nat \<Rightarrow> pgraph \<Rightarrow> pgraph \<Rightarrow> bool" where
  "asserts_own i g g' \<longleftrightarrow> (\<forall>x. expects g' x = expects g x \<or> (fst x = i \<and> expects g' x = Some [snd x]))"

lemma asserts_own_refl [simp]: "asserts_own i g g"
  by (simp add: asserts_own_def)

lemma asserts_own_trans: "asserts_own i g g' \<Longrightarrow> asserts_own i g' g'' \<Longrightarrow> asserts_own i g g''"
  unfolding asserts_own_def by metis

lemma asserts_own_add: "asserts_own i g (addPolicyNode g i p q [p] ps)"
  unfolding asserts_own_def using expects_add[of g i p q "[p]" ps] by fastforce

lemma asserts_own_policy: "asserts_own i g (assert_policy i pq g)"
  by (auto simp: assert_policy_def Let_def asserts_own_add split: prod.splits option.splits)

lemma asserts_own_expand: "asserts_own i g (expand_policy i q ep g)"
  by (auto simp: expand_policy_def asserts_own_add split: option.splits)

lemma asserts_own_fold: "(\<And>x g. asserts_own i g (f x g)) \<Longrightarrow> asserts_own i g (fold f xs g)"
  by (induction xs arbitrary: g) (auto intro: asserts_own_trans)

lemma process_expects:
  "expects (process_policies i policies act g) x = None \<or> expects (process_policies i policies act g) x = expects g x \<or>
     (fst x = i \<and> expects (process_policies i policies act g) x = Some [snd x])"
proof -
  let ?g1 = "fold (assert_policy i) policies g"
  let ?g2 = "if anyPolicy \<in> set (map fst policies) \<and> act
      then fold (expand_policy i (any_qualifiers policies)) (expected_above ?g1 (i - 1)) ?g1 else ?g1"
  have 1: "asserts_own i g ?g1" by (rule asserts_own_fold[OF asserts_own_policy])
  then have 2: "asserts_own i g ?g2" by (auto intro: asserts_own_trans asserts_own_fold[OF asserts_own_expand])
  have "thins ?g2 (process_policies i policies act g)"
    unfolding process_policies_def Let_def using thins_null[OF thins_prune] by simp
  then show ?thesis using 2 unfolding thins_def asserts_own_def by metis
qed

section \<open>Policy mappings\<close>

text \<open>The policy the next certificate may carry under \<open>p\<close>: \<open>p\<close> itself, or where this certificate maps it, one
  that it is mapped to.\<close>

definition follows :: "(policy \<times> policy) list \<Rightarrow> policy \<Rightarrow> policy \<Rightarrow> bool" where
  "follows ms p q \<longleftrightarrow> (if p \<in> fst ` set ms then (p, q) \<in> set ms else q = p)"

lemma mapped_from_sound:
  assumes "\<forall>(p, q) \<in> set ms. p \<noteq> anyPolicy \<and> q \<noteq> anyPolicy"
  shows "(\<forall>(p, qs) \<in> set (mapped_from ms). \<forall>q \<in> set qs. (p, q) \<in> set ms) \<and> fst ` set (mapped_from ms) = fst ` set ms"
proof -
  let ?f = "\<lambda>(idp, sdp) m. if idp = anyPolicy \<or> sdp = anyPolicy then m
      else AList.update idp ((case map_of m idp of None \<Rightarrow> [] | Some xs \<Rightarrow> xs) @ [sdp]) m"
  have "(\<forall>(p, qs) \<in> set (fold ?f xs m). \<forall>q \<in> set qs. (p, q) \<in> S) \<and> fst ` set (fold ?f xs m) = fst ` set m \<union> fst ` set xs"
    if "\<forall>(p, qs) \<in> set m. \<forall>q \<in> set qs. (p, q) \<in> S" "set xs \<subseteq> S" "\<forall>(p, q) \<in> set xs. p \<noteq> anyPolicy \<and> q \<noteq> anyPolicy"
    for xs m and S :: "(policy \<times> policy) set"
    using that
  proof (induction xs arbitrary: m)
    case (Cons x xs)
    obtain a b where x: "x = (a, b)" "a \<noteq> anyPolicy" "b \<noteq> anyPolicy" using Cons.prems(3) by (cases x) auto
    let ?v = "(case map_of m a of None \<Rightarrow> [] | Some xs \<Rightarrow> xs) @ [b]"
    have m: "?f x m = AList.update a ?v m" using x by simp
    have upd: "set (AList.update a ?v m) \<subseteq> insert (a, ?v) (set m)" by (induction m) auto
    have "\<forall>q \<in> set ?v. (a, q) \<in> S"
      using Cons.prems(1,2) x(1) by (cases "map_of m a") (auto dest: map_of_SomeD)
    then have "\<forall>(p, qs) \<in> set (AList.update a ?v m). \<forall>q \<in> set qs. (p, q) \<in> S" using upd Cons.prems(1) by fast
    moreover have "fst ` set (AList.update a ?v m) = insert a (fst ` set m)"
      using AList.dom_update[of a ?v m] by (simp add: set_map[symmetric] AList.update_keys del: set_map)
    ultimately show ?case using Cons.IH[of "?f x m"] Cons.prems(2,3) unfolding fold_Cons comp_def m by (auto simp: x(1))
  qed simp
  from this[of "[]" "set ms" ms] assms show ?thesis by (simp add: mapped_from_def)
qed

lemma map_policy_expects: "expects (map_policy i (p, qs) g) x =
    (if x = (i, p) then (if expects (map_policy i (p, qs) g) x = None then None else Some qs) else expects g x)"
proof (cases "nd g (i, p)")
  case None
  then have "x = (i, p) \<longrightarrow> expects g x = None" by (simp add: expects_None)
  then have a: "expects (addPolicyNode g i p q qs ps) x = expects g x \<or>
      (x = (i, p) \<and> expects (addPolicyNode g i p q qs ps) x = Some qs)" for q ps
    using expects_add[of g i p q qs ps x] by blast
  have "map_policy i (p, qs) g = g \<or> (\<exists>q ps. map_policy i (p, qs) g = addPolicyNode g i p q qs ps)"
    using None by (auto simp: map_policy_def node_nd split: option.splits)
  then have "expects (map_policy i (p, qs) g) x = expects g x \<or> (x = (i, p) \<and> expects (map_policy i (p, qs) g) x = Some qs)"
    using a by metis
  then show ?thesis using \<open>x = (i, p) \<longrightarrow> expects g x = None\<close> by auto
next
  case (Some n)
  then show ?thesis by (simp add: map_policy_def node_nd expects_def modify_nd)
qed

lemma map_all_expects:
  "(snd x \<notin> fst ` set m \<or> fst x \<noteq> i \<longrightarrow> expects (fold (map_policy i) m g) x = expects g x) \<and>
   (fst x = i \<and> snd x \<in> fst ` set m \<longrightarrow> expects (fold (map_policy i) m g) x = None \<or>
      (\<exists>qs. (snd x, qs) \<in> set m \<and> expects (fold (map_policy i) m g) x = Some qs))"
proof (induction m arbitrary: g)
  case (Cons a m)
  obtain p qs where a: "a = (p, qs)" by (cases a)
  note s = map_policy_expects[of i p qs g x]
  show ?case
  proof (cases "x = (i, p)")
    case True
    then show ?thesis using Cons.IH[of "map_policy i a g"] s unfolding a by (auto split: if_splits)
  next
    case False
    then show ?thesis using Cons.IH[of "map_policy i a g"] s unfolding a by (cases x) auto
  qed
qed simp

lemma unmap_all_expects:
  "thins g (fst (fold (unmap_policy i) ms (g, b))) \<and>
   (p \<in> fst ` set ms \<and> p \<noteq> anyPolicy \<longrightarrow> expects (fst (fold (unmap_policy i) ms (g, b))) (i, p) = None)"
proof (induction ms arbitrary: g b)
  case (Cons m ms)
  obtain g' b' where u: "unmap_policy i m (g, b) = (g', b')" by fastforce
  have t: "thins g g'" using u by (auto simp: unmap_policy_def thins_remove split: if_splits option.splits)
  have n: "fst m = p \<Longrightarrow> p \<noteq> anyPolicy \<Longrightarrow> expects g' (i, p) = None"
    using u by (auto simp: unmap_policy_def expects_remove node_nd expects_None[symmetric] split: if_splits option.splits)
  have "expects g' (i, p) = None \<Longrightarrow> expects (fst (fold (unmap_policy i) ms (g', b'))) (i, p) = None"
    using Cons.IH[of g' b'] unfolding thins_def by metis
  then show ?case using Cons.IH[of g' b'] t n thins_trans unfolding fold_Cons comp_def u by auto
qed simp

text \<open>Mapping at depth \<open>i\<close>: elsewhere nothing is expected that was not, and at \<open>i\<close> what follows.\<close>

theorem mappings_expect:
  assumes ms: "\<forall>(p, q) \<in> set ms. p \<noteq> anyPolicy \<and> q \<noteq> anyPolicy" and g: "graph_present g"
    and e: "expects (applyPolicyMappings pm ms i g) (d, p) = Some es" and p: "p \<noteq> anyPolicy"
  shows "expects g (d, p) = Some es \<and> (d = i \<longrightarrow> p \<notin> fst ` set ms) \<or> (d = i \<and> (\<forall>q \<in> set es. follows ms p q))"
proof (cases "pm > 0")
  case True
  note m = mapped_from_sound[OF ms]
  have "expects (fold (map_policy i) (mapped_from ms) g) (d, p) = Some es" using e True by (simp add: applyPolicyMappings_def)
  then show ?thesis using map_all_expects[of "(d, p)" "mapped_from ms" i g] m
    by (cases "d = i \<and> p \<in> fst ` set ms") (auto simp: follows_def)
next
  case False
  obtain g' deleted where u: "fold (unmap_policy i) ms (g, False) = (g', deleted)" by fastforce
  have r: "thins g g'" "p \<in> fst ` set ms \<Longrightarrow> expects g' (i, p) = None"
    using unmap_all_expects[of g i ms False p] u p by auto
  have n: "thins g' (null_if_empty (prunePolicyChildless (i - 1) g'))" by (rule thins_null[OF thins_prune])
  have a: "applyPolicyMappings pm ms i g =
      (if deleted then null_if_empty (prunePolicyChildless (i - 1) g') else g')"
    using False u g by (simp add: applyPolicyMappings_def)
  then have "thins g' (applyPolicyMappings pm ms i g)" using n by simp
  then have "expects g' (d, p) = Some es" using e unfolding thins_def by (metis option.discI)
  moreover have "expects g (d, p) = Some es" using calculation r(1) unfolding thins_def by (metis option.discI)
  ultimately have "expects g (d, p) = Some es" "d = i \<longrightarrow> p \<notin> fst ` set ms" using r(2) by (force, metis option.discI)
  then show ?thesis by blast
qed

end
