(* ===== verification/Path_Claims.thy ===== *)
theory Path_Claims
  imports Path_Sample Path_Keys Policy_Expected
begin

text \<open>
  lib/path-validate.js, what a valid path is: the consequences of \<open>validate_one E certs a\<close> answering
  \<open>valid\<close>, for the whole path and the certificates as the code was given them.
\<close>

section \<open>The states of a run\<close>

lemma run_passed:
  "run E a certs sts \<Longrightarrow> k < length certs \<Longrightarrow>
     passed E a (length certs) k (issuer_at certs k) (certs ! k) (sts ! k) (sts ! Suc k)"
  by (simp add: run_def)

lemma run_accepted:
  "run E a certs sts \<Longrightarrow> k < length certs \<Longrightarrow> accepted E (length certs) k (issuer_at certs k) (certs ! k) (sts ! k)"
  using run_passed by (simp add: passed_def)

lemma run_prepared:
  assumes "run E a certs sts" and "Suc k < length certs"
  shows "prepared E (certs ! k) (Suc k) ((sts ! k)\<lparr>graph := graph_after E (length certs) (certs ! k) (Suc k) (sts ! k)\<rparr>) (sts ! Suc k)"
  using run_passed[OF assms(1) Suc_lessD[OF assms(2)]] assms(2) by (auto simp: passed_def Let_def split: if_splits)

lemma run_finished:
  assumes "run E a certs sts" and "Suc k = length certs"
  shows "finished (certs ! k) ((sts ! k)\<lparr>graph := graph_after E (length certs) (certs ! k) (Suc k) (sts ! k)\<rparr>) (sts ! Suc k)"
  using run_passed[OF assms(1), of k] assms(2) by (auto simp: passed_def Let_def split: if_splits)

lemma run_start: "run E a certs sts \<Longrightarrow> sts ! 0 = initialState E a (length certs)"
  by (simp add: run_def)

lemma run_last: "run E a certs sts \<Longrightarrow> last sts = sts ! length certs"
  by (simp add: run_def last_conv_nth del: last.simps) (metis diff_Suc_1 last_conv_nth list.size(3) nat.simps(3))

lemma run_key:
  assumes "run E a certs sts" and "k < length certs"
  shows "updateWorkingKey (workingKey (sts ! k)) (c_spki (certs ! k)) = Inr (workingKey (sts ! Suc k))"
proof (cases "Suc k = length certs")
  case True
  then show ?thesis using run_finished[OF assms(1) True] by (simp add: finished_def)
next
  case False
  then show ?thesis using run_prepared[OF assms(1), of k] assms(2) by (simp add: prepared_def)
qed

lemma run_issuer:
  assumes "run E a certs sts" and "k < length certs"
  shows "workingIssuerName (sts ! k) = (if k = 0 then ta_name a else c_subject (certs ! (k - 1)))"
proof (cases k)
  case 0
  then show ?thesis using run_start[OF assms(1)] by (simp add: initialState_def)
next
  case (Suc j)
  then show ?thesis using run_prepared[OF assms(1), of j] assms(2) by (simp add: prepared_def)
qed

text \<open>No key of the run is on a refusal list, whether it stands in a certificate, was completed with inherited
  parameters, or is the anchor's.\<close>

lemma run_unrefused:
  assumes r: "run E a certs sts" and k: "k < length certs"
  shows "\<not> refused_key E (wk_key (workingKey (sts ! k))) \<and> \<not> refused_key E (wk_key (workingKey (sts ! Suc k)))"
proof -
  have next_key: "\<not> refused_key E (wk_key (workingKey (sts ! Suc j)))" if j: "j < length certs" for j
  proof -
    note acc = run_accepted[OF r j, unfolded accepted_def]
    have "wk_key (workingKey (sts ! Suc j)) = sp_bytes (c_spki (certs ! j)) \<or>
        inheritedSpki (workingKey (sts ! j)) (c_spki (certs ! j)) = Inr (Some (wk_key (workingKey (sts ! Suc j))))"
      by (rule working_key_octets[OF run_key[OF r j]])
    then show ?thesis using acc by auto
  qed
  have "\<not> refused_key E (wk_key (workingKey (sts ! 0)))"
  proof -
    have "0 < length certs" using k by linarith
    from run_passed[OF r this] have "\<not> refused_key E (wk_key (ta_key a))" by (simp add: passed_def)
    then show ?thesis using run_start[OF r] by (simp add: initialState_def)
  qed
  then have "\<not> refused_key E (wk_key (workingKey (sts ! k)))" using next_key[of "k - 1"] k by (cases k) simp_all
  then show ?thesis using next_key[OF k] by blast
qed

text \<open>C24: authentication.  On a valid path there is a chain of keys that starts with the anchor's; each next one
  is the key its certificate carries, completed as RFC 5280 says with the parameters it inherits.  Every
  signature was accepted under the key at its place in that chain, which is no RSA key with fewer bits than the
  minimum; every issuer name is the subject of the certificate before it, the first one the anchor's; every
  certificate is inside its validity period; and no key, the anchor's and those with inherited parameters
  included, is on a refusal list.\<close>

theorem path_authenticated:
  assumes "validate_one E certs a = Inr r" and "r_valid r"
  shows "\<exists>wks. length wks = Suc (length certs) \<and> wks ! 0 = ta_key a \<and> wks ! length certs = r_workingKey r \<and>
    (\<forall>k < length certs.
       v_verify E (certs ! k) (wks ! k) = None \<and>
       (\<forall>N b. rsa_key (wk_key (wks ! k)) N \<and> N < 2 ^ b \<longrightarrow> v_minRsaModulusBits E \<le> b) \<and>
       key_after (wks ! k) (c_spki (certs ! k)) (wks ! Suc k) \<and>
       dnEqual (v_lc E) (PathE Path_name_chaining) (c_issuer (certs ! k))
         (if k = 0 then ta_name a else c_subject (certs ! (k - 1))) = Inr True \<and>
       c_notBefore (certs ! k) \<le> v_time E \<and> v_time E \<le> c_notAfter (certs ! k) \<and>
       (\<forall>key \<in> {sp_bytes (c_spki (certs ! k)), wk_key (wks ! k), wk_key (wks ! Suc k)}.
          \<not> v_compromised E key \<and> \<not> v_distrusted E key))"
proof -
  obtain sts where r: "run E a certs sts" "r_workingKey r = workingKey (last sts)" using validate_run[OF assms] by blast
  have len: "length sts = Suc (length certs)" using r(1) by (simp add: run_def)
  let ?wks = "map workingKey sts"
  have "?wks ! 0 = ta_key a" using run_start[OF r(1)] len by (simp add: initialState_def)
  moreover have "?wks ! length certs = r_workingKey r" using r run_last[OF r(1)] len by simp
  moreover have "v_verify E (certs ! k) (?wks ! k) = None \<and>
       (\<forall>N b. rsa_key (wk_key (?wks ! k)) N \<and> N < 2 ^ b \<longrightarrow> v_minRsaModulusBits E \<le> b) \<and>
       key_after (?wks ! k) (c_spki (certs ! k)) (?wks ! Suc k) \<and>
       dnEqual (v_lc E) (PathE Path_name_chaining) (c_issuer (certs ! k))
         (if k = 0 then ta_name a else c_subject (certs ! (k - 1))) = Inr True \<and>
       c_notBefore (certs ! k) \<le> v_time E \<and> v_time E \<le> c_notAfter (certs ! k) \<and>
       (\<forall>key \<in> {sp_bytes (c_spki (certs ! k)), wk_key (?wks ! k), wk_key (?wks ! Suc k)}.
          \<not> v_compromised E key \<and> \<not> v_distrusted E key)" if k: "k < length certs" for k
  proof -
    note acc = run_accepted[OF r(1) k, unfolded accepted_def name_chains_def run_issuer[OF r(1) k]]
    have nth: "?wks ! k = workingKey (sts ! k)" "?wks ! Suc k = workingKey (sts ! Suc k)" using k len by simp_all
    have "\<forall>N b. rsa_key (wk_key (workingKey (sts ! k))) N \<and> N < 2 ^ b \<longrightarrow> v_minRsaModulusBits E \<le> b"
      using acc rsa_key_strength by blast
    moreover have "\<forall>key \<in> {sp_bytes (c_spki (certs ! k)), wk_key (workingKey (sts ! k)), wk_key (workingKey (sts ! Suc k))}.
        \<not> v_compromised E key \<and> \<not> v_distrusted E key"
      using acc run_unrefused[OF r(1) k] by (simp add: refused_key_def)
    ultimately show ?thesis unfolding nth using acc working_key_after[OF run_key[OF r(1) k]] by blast
  qed
  ultimately show ?thesis using len by (intro exI[of _ ?wks]) simp
qed

theorem path_authenticated_witness:
  "\<exists>wks. length wks = 3 \<and> wks ! 0 = ta_key sample_anchor \<and> wks ! 2 = sample_key \<and>
     key_after (wks ! 1) (c_spki sample_leaf) (wks ! 2)"
proof -
  obtain wks where w: "length wks = Suc (length sample_path)" "wks ! 0 = ta_key sample_anchor"
    "wks ! length sample_path = r_workingKey sample_result"
    "\<forall>k < length sample_path. key_after (wks ! k) (c_spki (sample_path ! k)) (wks ! Suc k)"
    using path_authenticated[OF sample_validates sample_result_simps(1)] by blast
  show ?thesis
    using w(1-3) w(4)[rule_format, of 1] by (intro exI[of _ wks]) (simp add: sample_path_def numeral_2_eq_2 numeral_3_eq_3)
qed

section \<open>Certification authorities and path length\<close>

lemma run_ca:
  assumes "run E a certs sts" and "Suc k < length certs"
  obtains bc where "ca_of E (certs ! k) = Inr (Some (True, bc))" "bc_cA bc"
    "selfIssued E (certs ! k) \<or> 0 < maxPathLength (sts ! k)"
    "maxPathLength (sts ! Suc k) =
      (let m = (if selfIssued E (certs ! k) then maxPathLength (sts ! k) else maxPathLength (sts ! k) - 1) in
       case bc_pathLen bc of Some l \<Rightarrow> min (int l) m | None \<Rightarrow> m)"
proof -
  let ?s = "(sts ! k)\<lparr>graph := graph_after E (length certs) (certs ! k) (Suc k) (sts ! k)\<rparr>"
  have m: "maxPathLength ?s = maxPathLength (sts ! k)" by simp
  obtain bc where "ca_of E (certs ! k) = Inr (Some (True, bc))" "bc_cA bc"
    "selfIssued E (certs ! k) \<or> 0 < maxPathLength ?s"
    "let m = (if selfIssued E (certs ! k) then maxPathLength ?s else maxPathLength ?s - 1) in
       maxPathLength (sts ! Suc k) = (case bc_pathLen bc of Some l \<Rightarrow> min (int l) m | None \<Rightarrow> m)"
    using run_prepared[OF assms] unfolding prepared_def by blast
  then show ?thesis unfolding m Let_def by (rule that[unfolded Let_def])
qed

text \<open>C25: every certificate of a valid path but the last is a certification authority: its critical basic
  constraints say so, and its key usage, when it states one, asserts keyCertSign.\<close>

theorem path_issuers_are_cas:
  assumes "validate_one E certs a = Inr r" and "r_valid r" and "Suc k < length certs"
  shows "(\<exists>bc. decodeExt (certs ! k) oid_basicConstraints (d_basicConstraints (v_dec E)) = Inr (Some (True, bc)) \<and> bc_cA bc) \<and>
    (\<forall>c ku. decodeExt (certs ! k) oid_keyUsage (d_keyUsage (v_dec E)) = Inr (Some (c, ku)) \<longrightarrow> ku_keyCertSign ku)"
proof -
  obtain sts where r: "run E a certs sts" using validate_run[OF assms(1,2)] by blast
  show ?thesis using run_prepared[OF r assms(3)] unfolding prepared_def ca_of_def keyUsage_of_def by blast
qed

theorem path_issuers_are_cas_witness:
  "\<exists>bc. decodeExt sample_ca oid_basicConstraints (d_basicConstraints sample_dec) = Inr (Some (True, bc)) \<and> bc_cA bc"
  using path_issuers_are_cas[OF sample_validates sample_result_simps(1), of 0] by (simp add: sample_path_def)

text \<open>The certificates between \<open>j\<close> and \<open>k\<close>, both excluded, that count against a path length.\<close>

definition counted :: "env \<Rightarrow> cert list \<Rightarrow> nat \<Rightarrow> nat \<Rightarrow> nat set" where
  "counted E certs j k = {i. j \<le> i \<and> i < k \<and> \<not> selfIssued E (certs ! i)}"

lemma counted_finite [simp]: "finite (counted E certs j k)"
  by (rule finite_subset[of _ "{..<k}"]) (auto simp: counted_def)

lemma counted_empty [simp]: "counted E certs j j = {}"
  by (auto simp: counted_def)

lemma counted_Suc:
  assumes "j \<le> k"
  shows "card (counted E certs j (Suc k)) = card (counted E certs j k) + (if selfIssued E (certs ! k) then 0 else 1)"
proof (cases "selfIssued E (certs ! k)")
  case True
  then have "counted E certs j (Suc k) = counted E certs j k" by (auto simp: counted_def less_Suc_eq)
  then show ?thesis using True by simp
next
  case False
  then have "counted E certs j (Suc k) = insert k (counted E certs j k)" using assms by (auto simp: counted_def less_Suc_eq)
  moreover have "k \<notin> counted E certs j k" by (simp add: counted_def)
  ultimately show ?thesis using False by simp
qed

lemma run_length:
  assumes r: "run E a certs sts" and "maxPathLength (sts ! j) \<le> l" and "0 \<le> l" and "j \<le> k" and "k < length certs"
  shows "maxPathLength (sts ! k) \<le> l - int (card (counted E certs j k)) \<and> int (card (counted E certs j k)) \<le> l"
  using assms(4,5)
proof (induction k rule: dec_induct)
  case base
  then show ?case using assms(2,3) by simp
next
  case (step k)
  then have IH: "maxPathLength (sts ! k) \<le> l - int (card (counted E certs j k))" "int (card (counted E certs j k)) \<le> l" by simp_all
  obtain bc where "ca_of E (certs ! k) = Inr (Some (True, bc))" "bc_cA bc" and
    bc: "selfIssued E (certs ! k) \<or> 0 < maxPathLength (sts ! k)"
    "maxPathLength (sts ! Suc k) =
      (let m = (if selfIssued E (certs ! k) then maxPathLength (sts ! k) else maxPathLength (sts ! k) - 1) in
       case bc_pathLen bc of Some l \<Rightarrow> min (int l) m | None \<Rightarrow> m)"
    by (rule run_ca[OF r step.prems])
  have "maxPathLength (sts ! Suc k) \<le> (if selfIssued E (certs ! k) then maxPathLength (sts ! k) else maxPathLength (sts ! k) - 1)"
    unfolding bc(2) Let_def by (cases "bc_pathLen bc") auto
  then show ?case using IH bc(1) step.hyps unfolding counted_Suc[OF step.hyps(1)] by auto
qed

text \<open>C26: path length.  On a valid path no certificate is followed by more intermediate certificates that
  are not self-issued than its path length constraint allows, and none follow an anchor's constraint
  beyond its own.\<close>

theorem path_length_respected:
  assumes "validate_one E certs a = Inr r" and "r_valid r"
  shows "(\<forall>j bc c l. Suc j < length certs \<longrightarrow>
      decodeExt (certs ! j) oid_basicConstraints (d_basicConstraints (v_dec E)) = Inr (Some (c, bc)) \<longrightarrow>
      bc_pathLen bc = Some l \<longrightarrow>
      card {i. j < i \<and> Suc i < length certs \<and> \<not> selfIssued E (certs ! i)} \<le> l) \<and>
    (\<forall>l. tc_pathLen a = Some l \<longrightarrow> 0 \<le> l \<longrightarrow>
      int (card {i. Suc i < length certs \<and> \<not> selfIssued E (certs ! i)}) \<le> l)"
proof -
  obtain sts where r: "run E a certs sts" using validate_run[OF assms] by blast
  have set: "{i. j \<le> i \<and> Suc i < length certs \<and> \<not> selfIssued E (certs ! i)} = counted E certs j (length certs - 1)" for j
    by (auto simp: counted_def)
  show ?thesis
  proof (intro conjI allI impI)
    fix j bc c l
    assume j: "Suc j < length certs" and d: "decodeExt (certs ! j) oid_basicConstraints (d_basicConstraints (v_dec E)) = Inr (Some (c, bc))"
      and l: "bc_pathLen bc = Some l"
    obtain bc' where ca: "ca_of E (certs ! j) = Inr (Some (True, bc'))" and "bc_cA bc'"
      and "selfIssued E (certs ! j) \<or> 0 < maxPathLength (sts ! j)" and
      m: "maxPathLength (sts ! Suc j) = (let m = (if selfIssued E (certs ! j) then maxPathLength (sts ! j) else maxPathLength (sts ! j) - 1) in
       case bc_pathLen bc' of Some l \<Rightarrow> min (int l) m | None \<Rightarrow> m)" by (rule run_ca[OF r j])
    have "bc' = bc" using d ca by (simp add: ca_of_def)
    then have "maxPathLength (sts ! Suc j) \<le> int l" using m l by (simp add: Let_def)
    then have "int (card (counted E certs (Suc j) (length certs - 1))) \<le> int l"
      using run_length[OF r, of "Suc j" "int l" "length certs - 1"] j by simp
    then show "card {i. j < i \<and> Suc i < length certs \<and> \<not> selfIssued E (certs ! i)} \<le> l"
      using set[of "Suc j"] by (simp add: Suc_le_eq)
  next
    fix l assume l: "tc_pathLen a = Some l" "0 \<le> l"
    have m: "maxPathLength (sts ! 0) \<le> l" using run_start[OF r] l by (simp add: initialState_def)
    show "int (card {i. Suc i < length certs \<and> \<not> selfIssued E (certs ! i)}) \<le> l"
    proof (cases "certs = []")
      case False
      then show ?thesis using run_length[OF r m l(2), of "length certs - 1"] set[of 0] by simp
    qed (use l in simp)
  qed
qed

theorem path_length_respected_witness: "card {i. 0 < i \<and> Suc i < 2 \<and> \<not> selfIssued sample_env (sample_path ! i)} \<le> 0"
proof -
  have "decodeExt (sample_path ! 0) oid_basicConstraints (d_basicConstraints (v_dec sample_env)) =
     Inr (Some (True, \<lparr>bc_cA = True, bc_pathLen = Some 0\<rparr>))"
    by (simp add: sample_path_def decodeExt_def)
  from path_length_respected[OF sample_validates sample_result_simps(1), THEN conjunct1, rule_format, OF _ this]
  show ?thesis by (simp add: sample_path_def)
qed

section \<open>Critical extensions\<close>

lemma firstMatch_None: "firstMatch xs P = None \<longleftrightarrow> (\<forall>x \<in> set xs. \<not> P x)"
  by (induction xs) auto

lemma critical_structure_None:
  "critical_structure D xs = None \<longleftrightarrow>
     (\<forall>x \<in> set xs. x_critical x \<longrightarrow> (case ext_decoder D (x_oid x) of None \<Rightarrow> True | Some dec \<Rightarrow> isInr (dec (x_value x))))"
  by (induction xs) (auto split: option.splits sum.splits)

text \<open>C27: critical extensions.  On a valid path every critical extension is one the validator processes,
  policy mappings of the target excepted, and its value is one its decoder accepts.\<close>

theorem path_critical_extensions:
  assumes "validate_one E certs a = Inr r" and "r_valid r" and "k < length certs"
    and "x \<in> set (c_exts (certs ! k))" and "x_critical x"
  shows "x_oid x \<in> set PROCESSED_EXTENSIONS \<and> (Suc k = length certs \<longrightarrow> x_oid x \<noteq> oid_policyMappings) \<and>
    (\<forall>dec. ext_decoder (v_dec E) (x_oid x) = Some dec \<longrightarrow> dec (x_value x) = Inr ())"
proof -
  obtain sts where r: "run E a certs sts" using validate_run[OF assms(1,2)] by blast
  note acc = run_accepted[OF r assms(3), unfolded accepted_def]
  have p: "x_oid x \<in> set PROCESSED_EXTENSIONS" "Suc k = length certs \<longrightarrow> x_oid x \<noteq> oid_policyMappings"
    using acc assms(4,5) by (auto simp: unrecognizedCriticalExtension_def firstMatch_None)
  have "case ext_decoder (v_dec E) (x_oid x) of None \<Rightarrow> True | Some dec \<Rightarrow> isInr (dec (x_value x))"
    using acc assms(4,5) by (auto simp: validateCriticalExtensionStructure_def critical_structure_None)
  then show ?thesis using p by (auto simp: isInr_iff)
qed

theorem path_critical_extensions_witness:
  "oid_basicConstraints \<in> set PROCESSED_EXTENSIONS \<and> void (d_basicConstraints sample_dec []) = Inr ()"
proof -
  have x: "x_oid (sample_ext oid_basicConstraints True) = oid_basicConstraints" "x_value (sample_ext oid_basicConstraints True) = []"
    by (simp_all add: sample_ext_def)
  have "ext_decoder sample_dec oid_basicConstraints = Some (\<lambda>b. void (d_basicConstraints sample_dec b))"
    by (simp add: ext_decoder_def)
  then show ?thesis
    using path_critical_extensions[OF sample_validates sample_result_simps(1), of 0 "sample_ext oid_basicConstraints True"]
    unfolding x by (simp add: sample_path_def sample_ca_def sample_cert_def)
qed

section \<open>Name constraints\<close>

text \<open>The excluded subtrees and the permitted generations in force for certificate \<open>k\<close>: the caller's, the
  anchor's, and those of every certificate before it.\<close>

definition excluded_at :: "env \<Rightarrow> anchor \<Rightarrow> cert list \<Rightarrow> nat \<Rightarrow> subtree set" where
  "excluded_at E a certs k = set (v_excluded E) \<union> set (ta_excluded a) \<union> set (tc_excluded a) \<union>
     (\<Union>j \<in> {..<k}. case names_of E (certs ! j) of Inr (Some (_, v)) \<Rightarrow> set (nc_excluded v) | _ \<Rightarrow> {})"

definition generations_at :: "env \<Rightarrow> anchor \<Rightarrow> cert list \<Rightarrow> nat \<Rightarrow> subtree list set" where
  "generations_at E a certs k = ({v_permitted E, ta_permitted a, tc_permitted a} - {[]}) \<union>
     (\<Union>j \<in> {..<k}. case names_of E (certs ! j) of Inr (Some (_, v)) \<Rightarrow> {nc_permitted v} - {[]} | _ \<Rightarrow> {})"

lemma excluded_at_Suc:
  "excluded_at E a certs (Suc k) = excluded_at E a certs k \<union>
     (case names_of E (certs ! k) of Inr (Some (_, v)) \<Rightarrow> set (nc_excluded v) | _ \<Rightarrow> {})"
  by (auto simp: excluded_at_def lessThan_Suc)

lemma generations_at_Suc:
  "generations_at E a certs (Suc k) = generations_at E a certs k \<union>
     (case names_of E (certs ! k) of Inr (Some (_, v)) \<Rightarrow> {nc_permitted v} - {[]} | _ \<Rightarrow> {})"
  by (auto simp: generations_at_def lessThan_Suc)

lemma run_names:
  assumes "run E a certs sts" and "k < length certs"
  shows "set (excludedSubtrees (sts ! k)) = excluded_at E a certs k \<and>
    set (permittedGenerations (sts ! k)) = generations_at E a certs k"
  using assms(2)
proof (induction k)
  case 0
  show ?case using run_start[OF assms(1)] by (auto simp: initialState_def excluded_at_def generations_at_def)
next
  case (Suc k)
  then have IH: "set (excludedSubtrees (sts ! k)) = excluded_at E a certs k"
    "set (permittedGenerations (sts ! k)) = generations_at E a certs k" by simp_all
  have "absorbed E (certs ! k) (excludedSubtrees (sts ! k), permittedGenerations (sts ! k))
     (excludedSubtrees (sts ! Suc k), permittedGenerations (sts ! Suc k))"
    using run_prepared[OF assms(1) Suc.prems] by (simp add: prepared_def)
  then show ?case
    unfolding absorbed_def excluded_at_Suc generations_at_Suc IH [symmetric]
    by (auto simp: absorbNameConstraints_def split: if_splits)
qed

lemma excluded_scan_None:
  "excluded_scan lc ex fs = Inr None \<longleftrightarrow>
     (\<forall>f \<in> set fs. nameMatchesConstraint lc (fst f) (snd f) ex True \<in> {Inr OtherForm, Inr Outside})"
proof (induction fs)
  case (Cons f fs)
  show ?case
  proof (cases "nameMatchesConstraint lc (fst f) (snd f) ex True")
    case (Inr m)
    then show ?thesis using Cons by (cases m) simp_all
  qed simp
qed simp

lemma excluded_check_None:
  "excluded_check lc exs fs = Inr None \<longleftrightarrow>
     (\<forall>ex \<in> set exs. \<forall>f \<in> set fs. nameMatchesConstraint lc (fst f) (snd f) ex True \<in> {Inr OtherForm, Inr Outside})"
proof (induction exs)
  case (Cons ex exs)
  then show ?case using excluded_scan_None[of lc ex fs] by (auto simp: bindR_eq_Inr split: option.splits)
qed simp

lemma permitted_in_None:
  assumes "permitted_in lc f g = Inr None" and "s \<in> set g" and "st_tag s = fst f"
  shows "\<exists>s \<in> set g. st_tag s = fst f \<and> nameMatchesConstraint lc (fst f) (snd f) s False = Inr Within"
proof -
  let ?fs = "filter (\<lambda>s. st_tag s = fst f) g"
  have ne: "?fs \<noteq> []" using assms(2,3) by (auto simp: filter_empty_conv)
  then obtain rs where rs: "mapR (\<lambda>s. nameMatchesConstraint lc (fst f) (snd f) s False) ?fs = Inr rs" "Within \<in> set rs"
    using assms(1) by (auto simp: permitted_in_def Let_def bindR_eq_Inr split: if_splits)
  then have "\<exists>s \<in> set ?fs. nameMatchesConstraint lc (fst f) (snd f) s False = Inr Within"
    by (rule mapR_source)
  then show ?thesis by auto
qed

lemma permitted_scan_None: "permitted_scan lc f gs = Inr None \<Longrightarrow> g \<in> set gs \<Longrightarrow> permitted_in lc f g = Inr None"
  by (induction gs) (auto simp: bindR_eq_Inr split: option.splits)

lemma permitted_check_None: "permitted_check lc fs gs = Inr None \<Longrightarrow> f \<in> set fs \<Longrightarrow> permitted_scan lc f gs = Inr None"
  by (induction fs) (auto simp: bindR_eq_Inr split: option.splits)

lemma check_names_None:
  assumes "check_names lc exs gs fs = Inr None"
  shows "(\<forall>ex \<in> set exs. \<forall>f \<in> set fs. nameMatchesConstraint lc (fst f) (snd f) ex True \<in> {Inr OtherForm, Inr Outside}) \<and>
    (\<forall>g \<in> set gs. \<forall>f \<in> set fs. (\<exists>s \<in> set g. st_tag s = fst f) \<longrightarrow>
       (\<exists>s \<in> set g. st_tag s = fst f \<and> nameMatchesConstraint lc (fst f) (snd f) s False = Inr Within))"
proof -
  have "excluded_check lc exs fs = Inr None" "permitted_check lc fs gs = Inr None"
    using assms by (auto simp: check_names_def bindR_eq_Inr split: option.splits)
  then show ?thesis using excluded_check_None permitted_check_None permitted_scan_None permitted_in_None by metis
qed

text \<open>C28: name constraints.  On a valid path no name of a certificate is inside, or cannot be compared with,
  a subtree excluded by the caller, the anchor or any certificate above it, and every name is inside each
  of their permitted generations that constrains its form.  Exempt is only a self-issued certificate
  that is not the last.\<close>

theorem path_names_respected:
  assumes "validate_one E certs a = Inr r" and "r_valid r" and "k < length certs"
    and "\<not> (selfIssued E (certs ! k) \<and> Suc k \<noteq> length certs)"
  shows "\<exists>forms. certNameForms (v_dec E) (certs ! k) = Inr forms \<and>
    (\<forall>ex \<in> excluded_at E a certs k. \<forall>f \<in> set forms.
       nameMatchesConstraint (v_lc E) (fst f) (snd f) ex True \<in> {Inr OtherForm, Inr Outside}) \<and>
    (\<forall>g \<in> generations_at E a certs k. \<forall>f \<in> set forms. (\<exists>s \<in> set g. st_tag s = fst f) \<longrightarrow>
       (\<exists>s \<in> set g. st_tag s = fst f \<and> nameMatchesConstraint (v_lc E) (fst f) (snd f) s False = Inr Within))"
proof -
  obtain sts where r: "run E a certs sts" using validate_run[OF assms(1,2)] by blast
  have "checkNameConstraints (v_lc E) (v_dec E) (excludedSubtrees (sts ! k)) (permittedGenerations (sts ! k)) (certs ! k) = Inr None"
    using run_accepted[OF r assms(3)] assms(4) by (auto simp: accepted_def names_ok_def)
  then obtain forms where f: "certNameForms (v_dec E) (certs ! k) = Inr forms"
    "check_names (v_lc E) (excludedSubtrees (sts ! k)) (permittedGenerations (sts ! k)) forms = Inr None"
    by (auto simp: checkNameConstraints_def bindR_eq_Inr)
  show ?thesis using f(1) check_names_None[OF f(2)] unfolding conjunct1[OF run_names[OF r assms(3)]] conjunct2[OF run_names[OF r assms(3)]]
    by blast
qed

theorem path_names_respected_witness:
  "\<exists>forms. certNameForms sample_dec sample_leaf = Inr forms \<and>
    (\<forall>ex \<in> excluded_at sample_env sample_anchor sample_path 1. \<forall>f \<in> set forms.
       nameMatchesConstraint lowerAscii (fst f) (snd f) ex True \<in> {Inr OtherForm, Inr Outside})"
proof -
  have k: "1 < length sample_path" and nth: "sample_path ! 1 = sample_leaf"
    and self: "\<not> (selfIssued sample_env (sample_path ! 1) \<and> Suc 1 \<noteq> length sample_path)"
    by (simp_all add: sample_path_def)
  show ?thesis using path_names_respected[OF sample_validates sample_result_simps(1) k self] unfolding nth sample_simps by blast
qed

section \<open>Policies\<close>

lemma run_uips:
  assumes "run E a certs sts" and "k \<le> length certs"
  shows "userInitialPolicySet (sts ! k) = userInitialPolicySet (initialState E a (length certs))"
  using assms(2)
proof (induction k)
  case 0
  show ?case using run_start[OF assms(1)] by simp
next
  case (Suc k)
  then show ?case
    using run_prepared[OF assms(1), of k] run_finished[OF assms(1), of k]
    by (cases "Suc k = length certs") (auto simp: prepared_def finished_def)
qed

lemma run_explicit:
  assumes "run E a certs sts" and "k \<le> length certs"
  shows "explicitPolicy (sts ! k) \<le> explicitPolicy (initialState E a (length certs))"
  using assms(2)
proof (induction k)
  case 0
  show ?case using run_start[OF assms(1)] by simp
next
  case (Suc k)
  then have "explicitPolicy (sts ! Suc k) \<le> explicitPolicy (sts ! k)"
    using run_prepared[OF assms(1), of k] run_finished[OF assms(1), of k]
    by (cases "Suc k = length certs") (auto simp: prepared_def finished_def)
  then show ?case using Suc by simp
qed

definition asserted_by :: "env \<Rightarrow> cert \<Rightarrow> policy list" where
  "asserted_by E cert = (case policies_of E cert of Inr (Some (_, ps)) \<Rightarrow> map fst ps | _ \<Rightarrow> [])"

definition has_policies :: "env \<Rightarrow> cert \<Rightarrow> bool" where
  "has_policies E cert \<longleftrightarrow> (\<exists>c ps. policies_of E cert = Inr (Some (c, ps)))"

lemma run_present:
  assumes r: "run E a certs sts" and k: "k < length certs" and "graph_present (graph (sts ! Suc k))"
  shows "graph_present (graph_after E (length certs) (certs ! k) (Suc k) (sts ! k))"
proof (cases "Suc k = length certs")
  case True
  then show ?thesis using run_finished[OF r True] assms(3) by (simp add: finished_def)
next
  case False
  then have "Suc k < length certs" using k by simp
  then have "mapped E (certs ! k) (Suc k)
      ((sts ! k)\<lparr>graph := graph_after E (length certs) (certs ! k) (Suc k) (sts ! k)\<rparr>) (graph (sts ! Suc k))"
    using run_prepared[OF r, of k] by (simp add: prepared_def)
  then show ?thesis using assms(3) unfolding mapped_def by (auto split: sum.splits option.splits if_splits)
qed

lemma run_graph:
  assumes r: "run E a certs sts" and mx: "1 \<le> v_maxPolicyNodes E" and "k \<le> length certs" and "graph_present (graph (sts ! k))"
  shows "policy_reach (v_maxPolicyNodes E) (graph (sts ! k)) (map (asserted_by E) (take k certs)) \<and>
    (\<forall>j < k. has_policies E (certs ! j)) \<and> \<not> (0 < k \<and> k = length certs \<and> capHit (graph (sts ! k)))"
  using assms(3,4)
proof (induction k)
  case 0
  show ?case using run_start[OF r] policy_reach.start[OF mx] by (simp add: initialState_def)
next
  case (Suc k)
  then have k: "k < length certs" by simp
  let ?ga = "graph_after E (length certs) (certs ! k) (Suc k) (sts ! k)"
  have pass: "\<not> capHit ?ga" using run_passed[OF r k] by (simp add: passed_def Let_def)
  have after: "graph (sts ! Suc k) = ?ga \<or>
    (Suc k < length certs \<and> graph_present ?ga \<and> (\<exists>p pm. graph (sts ! Suc k) = applyPolicyMappings p pm (Suc k) ?ga))"
  proof (cases "Suc k = length certs")
    case True
    then show ?thesis using run_finished[OF r True] by (simp add: finished_def)
  next
    case False
    then have "Suc k < length certs" using k by simp
    then have "mapped E (certs ! k) (Suc k) ((sts ! k)\<lparr>graph := ?ga\<rparr>) (graph (sts ! Suc k))"
      using run_prepared[OF r, of k] by (simp add: prepared_def)
    then show ?thesis using \<open>Suc k < length certs\<close>
      unfolding mapped_def by (auto split: sum.splits option.splits if_splits)
  qed
  then have present: "graph_present ?ga" using Suc.prems(2) by auto
  then obtain c ps where ps: "policies_of E (certs ! k) = Inr (Some (c, ps))" and gp: "graph_present (graph (sts ! k))"
    by (auto simp: graph_after_def split: sum.splits option.splits if_splits)
  have IH: "policy_reach (v_maxPolicyNodes E) (graph (sts ! k)) (map (asserted_by E) (take k certs))" "\<forall>j < k. has_policies E (certs ! j)"
    using Suc.IH k gp by simp_all
  have len: "length (map (asserted_by E) (take k certs)) = k" using k by simp
  have as: "map (asserted_by E) (take (Suc k) certs) = map (asserted_by E) (take k certs) @ [map fst ps]"
    using k ps by (simp add: take_Suc_conv_app_nth asserted_by_def)
  have ga: "policy_reach (v_maxPolicyNodes E) ?ga (map (asserted_by E) (take (Suc k) certs))"
    unfolding as graph_after_def ps using gp
    by (simp del: length_map) (rule policy_reach.certificate[OF IH(1) gp, unfolded len])
  have len': "length (map (asserted_by E) (take (Suc k) certs)) = Suc k" using k by simp
  have "policy_reach (v_maxPolicyNodes E) (graph (sts ! Suc k)) (map (asserted_by E) (take (Suc k) certs))"
    using after
  proof (elim disjE conjE exE)
    assume "graph (sts ! Suc k) = ?ga" then show ?thesis using ga by simp
  next
    fix p pm assume e: "graph (sts ! Suc k) = applyPolicyMappings p pm (Suc k) ?ga"
    have "map (asserted_by E) (take (Suc k) certs) \<noteq> []" using len' by (metis list.size(3) nat.simps(3))
    from policy_reach.mappings[OF ga present this, of p pm] show ?thesis unfolding e len' .
  qed
  moreover have "\<forall>j < Suc k. has_policies E (certs ! j)" using IH(2) ps by (auto simp: has_policies_def less_Suc_eq)
  moreover have "Suc k = length certs \<longrightarrow> \<not> capHit (graph (sts ! Suc k))" using after pass by auto
  ultimately show ?case by simp
qed

lemma run_depth:
  assumes "run E a certs sts" and "1 \<le> v_maxPolicyNodes E" and "k \<le> length certs" and "graph_present (graph (sts ! k))"
    and "nd (graph (sts ! k)) x \<noteq> None"
  shows "fst x \<le> k"
proof -
  have "graph_ok k (graph (sts ! k))"
    using policy_reach_ok[OF conjunct1[OF run_graph[OF assms(1-4)]]] assms(3) by simp
  then show ?thesis using assms(5) unfolding graph_ok_def by blast
qed

text \<open>The mappings a certificate issues, and what each node of the graph expects of the next certificate.\<close>

definition mappings_by :: "env \<Rightarrow> cert \<Rightarrow> (policy \<times> policy) list" where
  "mappings_by E cert = (case decodeExt cert oid_policyMappings (d_policyMappings (v_dec E)) of
      Inr (Some (_, pm)) \<Rightarrow> pm
    | _ \<Rightarrow> [])"

lemma run_mapped:
  assumes r: "run E a certs sts" and k: "Suc k < length certs"
    and present: "graph_present (graph_after E (length certs) (certs ! k) (Suc k) (sts ! k))" (is "graph_present ?ga")
  shows "graph (sts ! Suc k) = ?ga \<and> mappings_by E (certs ! k) = [] \<or>
    (\<forall>(p, q) \<in> set (mappings_by E (certs ! k)). p \<noteq> anyPolicy \<and> q \<noteq> anyPolicy) \<and>
    (\<exists>pm. graph (sts ! Suc k) = applyPolicyMappings pm (mappings_by E (certs ! k)) (Suc k) ?ga)"
proof -
  have "mapped E (certs ! k) (Suc k) ((sts ! k)\<lparr>graph := ?ga\<rparr>) (graph (sts ! Suc k))"
    using run_prepared[OF r, of k] k by (simp add: prepared_def)
  then show ?thesis using present unfolding mapped_def mappings_by_def
    by (auto simp: mapsAnyPolicy_def split: sum.splits option.splits)
qed

lemma run_expects:
  assumes r: "run E a certs sts" and mx: "1 \<le> v_maxPolicyNodes E"
    and "k \<le> length certs" and "graph_present (graph (sts ! k))" and "expects (graph (sts ! k)) (d, p) = Some es"
    and "0 < d" and "d \<le> k" and n: "d < length certs" and p: "p \<noteq> anyPolicy" and "q \<in> set es"
  shows "follows (mappings_by E (certs ! (d - 1))) p q"
  using assms(3-7,10)
proof (induction k arbitrary: es)
  case (Suc k)
  then have k: "k < length certs" by simp
  let ?g = "graph (sts ! k)"
  let ?ga = "graph_after E (length certs) (certs ! k) (Suc k) (sts ! k)"
  have present: "graph_present ?ga" by (rule run_present[OF r k Suc.prems(2)])
  then obtain c ps where ps: "policies_of E (certs ! k) = Inr (Some (c, ps))" and gp: "graph_present ?g"
    by (auto simp: graph_after_def split: sum.splits option.splits if_splits)
  obtain act where ga: "?ga = process_policies (Suc k) ps act ?g" using ps gp by (simp add: graph_after_def)
  show ?case
  proof (cases "d = Suc k")
    case False
    then have d: "d \<le> k" using Suc.prems(5) by simp
    have "expects ?ga (d, p) = Some es"
    proof (cases "Suc k < length certs")
      case True
      then show ?thesis using run_mapped[OF r True present] mappings_expect[OF _ present _ p] Suc.prems(3) False
        by (elim disjE conjE exE) metis+
    next
      case last: False
      then show ?thesis using run_finished[OF r, of k] k Suc.prems(3) by (simp add: finished_def)
    qed
    then have "expects ?g (d, p) = Some es" using process_expects[of "Suc k" ps act ?g "(d, p)"] d unfolding ga by auto
    then show ?thesis using Suc.IH[OF _ gp] Suc.prems d by simp
  next
    case True
    then have "Suc k < length certs" using n by simp
    have none: "expects ?g (Suc k, p) = None" using run_depth[OF r mx _ gp, of "(Suc k, p)"] k by (cases "nd ?g (Suc k, p)") (auto simp: expects_def)
    have own: "expects ?ga (Suc k, p) = Some es' \<Longrightarrow> es' = [p]" for es'
      using process_expects[of "Suc k" ps act ?g "(Suc k, p)"] none unfolding ga by auto
    show ?thesis using run_mapped[OF r \<open>Suc k < length certs\<close> present]
    proof (elim disjE conjE exE)
      assume "graph (sts ! Suc k) = ?ga" "mappings_by E (certs ! k) = []"
      then show ?thesis using own[of es] Suc.prems True by (simp add: follows_def)
    next
      fix pm assume ms: "\<forall>(p, q) \<in> set (mappings_by E (certs ! k)). p \<noteq> anyPolicy \<and> q \<noteq> anyPolicy"
        and e: "graph (sts ! Suc k) = applyPolicyMappings pm (mappings_by E (certs ! k)) (Suc k) ?ga"
      have "expects ?ga (d, p) = Some es \<and> p \<notin> fst ` set (mappings_by E (certs ! k)) \<or>
          (\<forall>q \<in> set es. follows (mappings_by E (certs ! k)) p q)"
        using mappings_expect[OF ms present, of pm "Suc k" d p es] e Suc.prems(3) True p by auto
      then show ?thesis
      proof (elim disjE conjE)
        assume "expects ?ga (d, p) = Some es" "p \<notin> fst ` set (mappings_by E (certs ! k))"
        then show ?thesis using own[of es] Suc.prems(6) True by (simp add: follows_def)
      next
        assume "\<forall>q \<in> set es. follows (mappings_by E (certs ! k)) p q"
        then show ?thesis using Suc.prems(6) True by simp
      qed
    qed
  qed
qed simp

text \<open>What a policy set accepts: an absent set, and one with the wildcard, every policy.\<close>

definition permits :: "policy list option \<Rightarrow> policy \<Rightarrow> bool" where
  "permits s p \<longleftrightarrow> (case s of None \<Rightarrow> True | Some ps \<Rightarrow> p \<in> set ps \<or> anyPolicy \<in> set ps)"

lemma merged_policies: "permits (mergedPolicySet caller anchor) p \<longleftrightarrow> permits caller p \<and> permits anchor p"
  by (auto simp: permits_def mergedPolicySet_def Let_def split: option.splits)

text \<open>One policy for each certificate, after anyPolicy at the root: the certificate's own policies extension
  names it or has anyPolicy, and after a policy other than anyPolicy comes that policy itself or, where the
  certificate maps it, one it is mapped to.\<close>

definition policy_chain :: "env \<Rightarrow> cert list \<Rightarrow> policy list \<Rightarrow> bool" where
  "policy_chain E certs qs \<longleftrightarrow> length qs = Suc (length certs) \<and> qs ! 0 = anyPolicy \<and>
     (\<forall>k < length certs. names (asserted_by E (certs ! k)) (qs ! Suc k)) \<and>
     (\<forall>k < length certs. 0 < k \<and> qs ! k \<noteq> anyPolicy \<longrightarrow> follows (mappings_by E (certs ! (k - 1))) (qs ! k) (qs ! Suc k))"

text \<open>C29: policies.  Every policy a valid path reports is one the caller's set accepts and one the anchor's set
  accepts.  Every certificate has a policies extension, and behind the policy stands one policy for each
  certificate, starting from anyPolicy: each is named by its certificate or covered by its anyPolicy, and after a
  policy other than anyPolicy the next certificate carries the same policy, or one that the certificate's policy
  mappings map it to.  The reported policy is one of them, or the last of them is anyPolicy.  When the caller or
  the anchor required an explicit policy, the path reports one.\<close>

theorem path_policies_justified:
  assumes "validate_one E certs a = Inr r" and "r_valid r" and "1 \<le> v_maxPolicyNodes E" and "certs \<noteq> []"
  shows "(\<forall>p \<in> set (r_policies r).
      permits (v_userInitialPolicySet E) p \<and> permits (tc_policySet a) p \<and>
      (\<forall>k < length certs. has_policies E (certs ! k)) \<and>
      (\<exists>qs. policy_chain E certs qs \<and> (p \<in> set qs \<or> last qs = anyPolicy))) \<and>
    (v_initialExplicitPolicy E \<or> tc_requireExplicitPolicy a \<longrightarrow> r_policies r \<noteq> [])"
proof -
  obtain sts where r: "run E a certs sts" and
    pol: "r_policies r = userConstrainedPolicies (graph (last sts)) (length certs) (userInitialPolicySet (last sts))"
    "explicitPolicy (last sts) > 0 \<or> r_policies r \<noteq> []" using validate_run[OF assms(1,2)] by blast
  note lst = run_last[OF r]
  have uips: "userInitialPolicySet (last sts) =
      (case mergedPolicySet (v_userInitialPolicySet E) (tc_policySet a) of Some s \<Rightarrow> s | None \<Rightarrow> [anyPolicy])"
    using run_uips[OF r, of "length certs"] lst by (simp add: initialState_def)
  have "permits (v_userInitialPolicySet E) p \<and> permits (tc_policySet a) p \<and>
      (\<forall>k < length certs. has_policies E (certs ! k)) \<and>
      (\<exists>qs. policy_chain E certs qs \<and> (p \<in> set qs \<or> last qs = anyPolicy))" if p: "p \<in> set (r_policies r)" for p
  proof -
    have u: "p \<in> set (userConstrainedPolicies (graph (last sts)) (length certs) (userInitialPolicySet (last sts)))"
      using p pol(1) by simp
    then have present: "graph_present (graph (sts ! length certs))" using user_constrained_in[OF u] lst by simp
    have g: "policy_reach (v_maxPolicyNodes E) (graph (last sts)) (map (asserted_by E) certs)"
      "\<forall>j < length certs. has_policies E (certs ! j)" "\<not> capHit (graph (last sts))"
      using run_graph[OF r assms(3) order_refl present] assms(4) lst by simp_all
    from justified_policy[OF g(1,3), of p "userInitialPolicySet (last sts)"] u
    obtain qs where acc: "p \<in> set (userInitialPolicySet (last sts)) \<or> anyPolicy \<in> set (userInitialPolicySet (last sts))"
      and qs: "length qs = Suc (length certs)" "qs ! 0 = anyPolicy" "p \<in> set qs \<or> last qs = anyPolicy"
        "\<forall>k < length certs. names (asserted_by E (certs ! k)) (qs ! Suc k) \<and>
          edge_ok (graph (last sts)) (Suc k, qs ! Suc k) (k, qs ! k)" by auto
    have "follows (mappings_by E (certs ! (k - 1))) (qs ! k) (qs ! Suc k)"
      if k: "k < length certs" "0 < k" "qs ! k \<noteq> anyPolicy" for k
    proof -
      obtain m where "nd (graph (last sts)) (k, qs ! k) = Some m" "qs ! Suc k \<in> set (expectedPolicySet m)"
        using qs(4) k by (auto simp: edge_ok_def)
      then show ?thesis
        using run_expects[OF r assms(3) order_refl present, of k "qs ! k" "expectedPolicySet m"] k lst by (simp add: expects_def)
    qed
    then have "policy_chain E certs qs" using qs by (auto simp: policy_chain_def)
    moreover have "permits (mergedPolicySet (v_userInitialPolicySet E) (tc_policySet a)) p"
      using acc unfolding uips by (auto simp: permits_def split: option.splits)
    ultimately show ?thesis using g(2) qs(3) merged_policies by blast
  qed
  moreover have "r_policies r \<noteq> []" if flag: "v_initialExplicitPolicy E \<or> tc_requireExplicitPolicy a"
  proof -
    have "explicitPolicy (initialState E a (length certs)) = 0" using flag by (auto simp: initialState_def flagSet_def)
    then have "explicitPolicy (last sts) = 0" using run_explicit[OF r, of "length certs"] lst by simp
    then show ?thesis using pol(2) by simp
  qed
  ultimately show ?thesis by blast
qed

theorem path_policies_justified_witness:
  "permits (v_userInitialPolicySet sample_env) sample_policy \<and> permits (tc_policySet sample_anchor) sample_policy \<and>
   (\<exists>qs. policy_chain sample_env sample_path qs \<and> (sample_policy \<in> set qs \<or> last qs = anyPolicy))"
proof -
  have mx: "1 \<le> v_maxPolicyNodes sample_env" and ne: "sample_path \<noteq> []" by (simp_all add: sample_env_def sample_path_def)
  have mem: "sample_policy \<in> set (r_policies sample_result)" by simp
  from path_policies_justified[OF sample_validates sample_result_simps(1) mx ne] mem show ?thesis by blast
qed

end
