(* ===== verification/Identity_Proofs.thy ===== *)
theory Identity_Proofs
  imports Identity Ip_Proofs
begin

text \<open>
  lib/identity-match.js, what a match means.  Every reference the door lets in has the form its kind
  promises (\<open>references_well_formed\<close>).  A name matches a reference exactly when the two are equal up to the
  case of ASCII letters or the name is a wildcard over the reference's parent domain (\<open>covers\<close>), and the
  search finds a match exactly when there is one.
\<close>

section \<open>References\<close>

definition domain_ok :: "jsstr \<Rightarrow> bool" where
  "domain_ok d \<longleftrightarrow> d \<noteq> [] \<and> length d \<le> MAX_HOST \<and> list_all isHostNameChar d \<and> label_sizes_ok (hostLabels d) \<and>
     \<not> endsInANumber d"

fun reference_ok :: "reference \<Rightarrow> bool" where
  "reference_ok (IpRef octets _ _) \<longleftrightarrow> length octets = 4 \<or> length octets = 16"
| "reference_ok (DnsRef d _) \<longleftrightarrow> domain_ok d"
| "reference_ok (SrvRef d service _) \<longleftrightarrow> domain_ok d \<and> 2 \<le> length service \<and> hd service = 0x5f"
| "reference_ok (UriRef d scheme _) \<longleftrightarrow> domain_ok d \<and> scheme \<noteq> [] \<and> 0x3a \<notin> set scheme"

lemma star_no_host_char: "list_all isHostNameChar s \<Longrightarrow> 0x2a \<notin> set s"
  by (auto simp: list_all_iff isHostNameChar_def LDH_ALNUM_def isAttrTypeStart_def isDigitCode_def)

lemma split_snoc: "split_char c (s @ [c]) = split_char c s @ [[]]"
  by (induction s) (auto split: list.splits)

lemma strip_dot: "stripTrailingDot s = s \<or> s = stripTrailingDot s @ [0x2e]"
  by (auto simp: stripTrailingDot_def) (metis append_butlast_last_id)

lemma numeric_dot:
  assumes "\<not> endsInANumber (d @ [0x2e])" and "last (split_char 0x2e d) \<noteq> []"
  shows "\<not> endsInANumber d"
  using assms unfolding endsInANumber_def splitOn_char split_snoc by (auto simp: Let_def)

lemma referenceDomain_ok:
  assumes "referenceDomain v = Inr d"
  shows "domain_ok d"
proof -
  from assms obtain s where s: "v = RText s" "list_all isHostNameChar s" "\<not> endsInANumber s" "d = stripTrailingDot s"
    "d \<noteq> []" "length d \<le> MAX_HOST" "label_sizes_ok (hostLabels d)"
    by (auto simp: referenceDomain_def assertNotAnAddress_def Let_def bindR_eq_Inr split: ref_arg.splits if_splits)
  have "last (split_char 0x2e d) \<in> set (hostLabels d)" by (simp add: hostLabels_def)
  then have "last (split_char 0x2e d) \<noteq> []" using s(7) by (auto simp: label_sizes_ok_def list_all_iff)
  then have "\<not> endsInANumber d" using strip_dot[of s] numeric_dot[of d] s(3,4) by metis
  moreover have "list_all isHostNameChar d" using strip_dot[of s] s(2,4) by (metis list_all_append)
  ultimately show ?thesis using s by (simp add: domain_ok_def)
qed

lemma length_from_hex: "length (from_hex s) = length s div 2"
  by (induction s rule: from_hex.induct) auto

lemma packed_length: "packIpLiteral s = Some b \<Longrightarrow> length b = 4 \<or> length b = 16"
proof (cases "isIPv4 s")
  case False
  assume "packIpLiteral s = Some b"
  then obtain ip gs where ip: "expand_groups ip = Some gs" "b = from_hex (concat (map (\<lambda>g. pad4 (lower_hex g)) gs))"
    using False by (auto simp: packIpLiteral_def expandIpv6Hex_def split: if_splits option.splits)
  have gs: "length gs = 8" "list_all isHexGroup gs" using ip(1) by (auto simp: expand_groups_def Let_def split: if_splits)
  have "length (concat (map (\<lambda>g. pad4 (lower_hex g)) gs)) = 4 * length gs" using gs(2)
    by (induction gs) (auto simp: isHexGroup_def pad4_def lower_hex_def)
  then show ?thesis using ip(2) gs(1) by (simp add: length_from_hex)
qed (auto simp: packIpLiteral_def isIPv4_def Let_def)

lemma lower_char: "lowerAscii (c # s) = (if 0x41 \<le> c \<and> c \<le> 0x5a then c + 32 else c) # lowerAscii s" "lowerAscii [] = []"
  by (simp_all add: lowerAscii_def)

lemma length_lower [simp]: "length (lowerAscii s) = length s" "lowerAscii s = [] \<longleftrightarrow> s = []"
  by (simp_all add: lowerAscii_def)

lemma text_reference_ok: "text_reference s = Inr r \<Longrightarrow> reference_ok r"
  using referenceDomain_ok packed_length
  by (fastforce simp: text_reference_def bindR_eq_Inr split: if_splits option.splits)

lemma srv_record_ok: "srv_record service v = Inr r \<Longrightarrow> reference_ok r"
  using referenceDomain_ok
  by (auto simp: srv_record_def bindR_eq_Inr lower_char neq_Nil_conv split: js.splits if_splits)

lemma uri_record_ok: "uri_record scheme v = Inr r \<Longrightarrow> reference_ok r"
  using referenceDomain_ok
  by (auto simp: uri_record_def bindR_eq_Inr lowerAscii_def split: js.splits if_splits)

lemma ip_record_ok:
  assumes "ip_record m = Inr r" and "\<And>a. m = Inr a \<Longrightarrow> reference_ok a"
  shows "reference_ok r"
proof -
  obtain a where a: "m = Inr a" using assms(1) by (cases m) (auto simp: ip_record_def)
  then show ?thesis using assms by (cases a) (auto simp: ip_record_def)
qed

lemma read_reference_ok: "read_reference v = Inr r \<Longrightarrow> reference_ok r"
proof (induction v arbitrary: r rule: read_reference.induct)
  case (3 ks ty v service scheme)
  show ?case
    using 3 ip_record_ok srv_record_ok uri_record_ok referenceDomain_ok by (auto simp: bindR_eq_Inr split: if_splits)
qed (auto simp: text_reference_ok split: if_splits)

text \<open>C32: what the door lets in.  Every reference list read is non-empty and bounded, every address has 4 or 16
  octets, and every domain is a host name with labels of 1 to 63 characters, without a wildcard, that
  no resolver would read as an address.\<close>

theorem references_well_formed:
  assumes "snapshotReferences input = Inr refs"
  shows "refs \<noteq> [] \<and> length refs \<le> IDENTITY_MAX_REFERENCES \<and>
    (\<forall>r \<in> set refs. reference_ok r \<and> (\<forall>d i. r = DnsRef d i \<longrightarrow> 0x2a \<notin> set d \<and> \<not> isIPv4 d))"
proof -
  obtain vs where vs: "mapR read_reference vs = Inr refs" "vs \<noteq> []" "length vs \<le> IDENTITY_MAX_REFERENCES"
    using assms by (auto simp: snapshotReferences_def Let_def split: if_splits)
  have "length refs = length vs" using vs(1) by (rule mapR_length)
  moreover have "\<forall>r \<in> set refs. \<exists>v \<in> set vs. read_reference v = Inr r"
    using mapR_source[OF vs(1)] by blast
  ultimately have ok: "refs \<noteq> []" "length refs \<le> IDENTITY_MAX_REFERENCES" "\<forall>r \<in> set refs. reference_ok r"
    using vs(2,3) read_reference_ok by auto
  moreover have "\<not> isIPv4 d" if "domain_ok d" for d
  proof
    assume "isIPv4 d"
    then have p: "length (splitOn d [46]) = 4" "list_all isOctet (splitOn d [46])" by (auto simp: isIPv4_def Let_def)
    then have "last (splitOn d [46]) \<in> set (splitOn d [46])" by (intro last_in_set) auto
    then have "isOctet (last (splitOn d [46]))" using p(2) by (simp add: list_all_iff)
    then have "endsInANumber d" using p(1) by (auto simp: endsInANumber_def Let_def isOctet_def)
    then show False using that by (simp add: domain_ok_def)
  qed
  moreover have "0x2a \<notin> set d" if "domain_ok d" for d using that star_no_host_char by (simp add: domain_ok_def)
  ultimately show ?thesis by fastforce
qed

theorem references_well_formed_witness:
  "snapshotReferences (RMany [RText (js_lit ''www.A.example''), RText (js_lit ''192.0.2.1'')]) =
     Inr [DnsRef (js_lit ''www.A.example'') (Given (js_lit ''www.A.example'')),
          IpRef [192, 0, 2, 1] (Some (js_lit ''192.0.2.1'')) (Given (js_lit ''192.0.2.1''))] \<and>
   reference_ok (DnsRef (js_lit ''www.A.example'') (Given (js_lit ''www.A.example'')))"
proof -
  have "snapshotReferences (RMany [RText (js_lit ''www.A.example''), RText (js_lit ''192.0.2.1'')]) =
     Inr [DnsRef (js_lit ''www.A.example'') (Given (js_lit ''www.A.example'')),
          IpRef [192, 0, 2, 1] (Some (js_lit ''192.0.2.1'')) (Given (js_lit ''192.0.2.1''))]" by code_simp
  then show ?thesis using references_well_formed by force
qed

section \<open>One name against one domain\<close>

text \<open>RFC 9525 section 6.3, on whole names: equal up to the case of ASCII letters, or a wildcard and a parent
  domain that is.\<close>

definition covers :: "bool \<Rightarrow> jsstr \<Rightarrow> jsstr \<Rightarrow> bool" where
  "covers w p d \<longleftrightarrow> (0x2a \<notin> set p \<and> lowerAscii p = lowerAscii d) \<or>
     (w \<and> (\<exists>parent l d'. p = [0x2a, 0x2e] @ parent \<and> 0x2a \<notin> set parent \<and>
        d = l @ [0x2e] @ d' \<and> l \<noteq> [] \<and> 0x2e \<notin> set l \<and> lowerAscii parent = lowerAscii d'))"

lemma lower_dot: "(if 0x41 \<le> c \<and> c \<le> (0x5a::nat) then c + 32 else c) = 0x2e \<longleftrightarrow> c = 0x2e"
  by auto

lemma labels_lower: "hostLabels (lowerAscii s) = map lowerAscii (hostLabels s)"
  unfolding hostLabels_def
  by (induction s) (auto simp: lower_char lower_dot split: list.splits)

lemma labels_inject: "hostLabels p = hostLabels d \<longleftrightarrow> p = d"
  unfolding hostLabels_def by (metis join_split)

lemma list_all2_same: "list_all2 (\<lambda>a b. f a = f b) xs ys \<longleftrightarrow> map f xs = map f ys"
  by (auto simp: list_all2_conv_all_nth list_eq_iff_nth_eq)

lemma labels_match_iff: "labels_match (hostLabels p) (hostLabels d) \<longleftrightarrow> lowerAscii p = lowerAscii d"
  by (simp add: labels_match_def list_all2_same labels_lower[symmetric] labels_inject)

lemma star_count: "sum_list (map (count_char 0x2a) (hostLabels s)) = count_char 0x2a s"
  unfolding hostLabels_def by (induction s) (auto simp: count_char_def split: list.splits)

lemma count_zero: "count_char c s = 0 \<longleftrightarrow> c \<notin> set s"
  by (auto simp: count_char_def filter_empty_conv)

lemma labels_head:
  assumes "hostLabels s = l # ls" and "ls \<noteq> []"
  shows "0x2e \<notin> set l \<and> (\<exists>r. s = l @ [0x2e] @ r \<and> hostLabels r = ls)"
  using assms
proof (induction s arbitrary: l)
  case (Cons c s)
  show ?case
  proof (cases "c = 0x2e")
    case True
    then show ?thesis using Cons.prems by (auto simp: hostLabels_def)
  next
    case False
    obtain l' where l': "hostLabels s = l' # ls" "l = c # l'"
      using Cons.prems False by (cases "split_char 0x2e s") (auto simp: hostLabels_def)
    then show ?thesis using Cons.IH[OF l'(1) Cons.prems(2)] False by auto
  qed
qed (simp add: hostLabels_def)

lemma labels_cons: "0x2e \<notin> set l \<Longrightarrow> hostLabels (l @ [0x2e] @ r) = l # hostLabels r"
  by (simp add: hostLabels_def split_char_sep)

lemma labels_ne [simp]: "hostLabels s \<noteq> []"
  by (simp add: hostLabels_def)

lemma wildcard_valid_iff:
  "wildcardShape (hostLabels p) = Valid_wildcard \<longleftrightarrow> (\<exists>parent. p = [0x2a, 0x2e] @ parent \<and> 0x2a \<notin> set parent)"
proof
  assume v: "wildcardShape (hostLabels p) = Valid_wildcard"
  then have n: "count_char 0x2a p = 1" "2 \<le> length (hostLabels p)" "hostLabels p ! 0 = [0x2a]"
    unfolding wildcardShape_def star_count by (auto simp: Let_def split: if_splits)
  then obtain ls where ls: "hostLabels p = [0x2a] # ls" by (cases "hostLabels p") auto
  then have "ls \<noteq> []" using n(2) by auto
  note ls = ls this
  from labels_head[OF ls] obtain r where "p = [0x2a, 0x2e] @ r" by auto
  moreover from this have "0x2a \<notin> set r" using n(1) count_zero by (auto simp: count_char_def filter_empty_conv)
  ultimately show "\<exists>parent. p = [0x2a, 0x2e] @ parent \<and> 0x2a \<notin> set parent" by blast
next
  assume "\<exists>parent. p = [0x2a, 0x2e] @ parent \<and> 0x2a \<notin> set parent"
  then obtain r where r: "p = [0x2a] @ [0x2e] @ r" "0x2a \<notin> set r" by auto
  have "hostLabels p = [0x2a] # hostLabels r" unfolding r(1) by (rule labels_cons) simp
  moreover have "filter (\<lambda>x. x = 0x2a) r = []" using r(2) by (induction r) auto
  then have "count_char 0x2a p = 1" using r(1) by (simp add: count_char_def)
  ultimately show "wildcardShape (hostLabels p) = Valid_wildcard"
    unfolding wildcardShape_def star_count by (simp add: Let_def Suc_le_eq)
qed

lemma wildcard_none_iff: "wildcardShape (hostLabels p) = No_wildcard \<longleftrightarrow> 0x2a \<notin> set p"
  unfolding wildcardShape_def star_count by (auto simp: Let_def count_zero)

lemma wildcard_parent:
  assumes "p = [0x2a, 0x2e] @ parent"
  shows "(length (hostLabels p) = length (hostLabels d) \<and> labels_match (tl (hostLabels p)) (tl (hostLabels d)) \<and>
      hostLabels d ! 0 \<noteq> []) \<longleftrightarrow>
    (\<exists>l d'. d = l @ [0x2e] @ d' \<and> l \<noteq> [] \<and> 0x2e \<notin> set l \<and> lowerAscii parent = lowerAscii d')"
proof -
  have p: "hostLabels p = [0x2a] # hostLabels parent" using labels_cons[of "[0x2a]" parent] assms by simp
  show ?thesis
  proof
    assume a: "length (hostLabels p) = length (hostLabels d) \<and> labels_match (tl (hostLabels p)) (tl (hostLabels d)) \<and>
      hostLabels d ! 0 \<noteq> []"
    then obtain l ls where ls: "hostLabels d = l # ls" by (cases "hostLabels d") auto
    then have "ls \<noteq> []" using a p by auto
    note ls = ls this
    obtain r where r: "0x2e \<notin> set l" "d = l @ [0x2e] @ r" "hostLabels r = ls" using labels_head[OF ls] by blast
    then have "lowerAscii parent = lowerAscii r" using a p ls labels_match_iff[of parent r] by simp
    then show "\<exists>l d'. d = l @ [0x2e] @ d' \<and> l \<noteq> [] \<and> 0x2e \<notin> set l \<and> lowerAscii parent = lowerAscii d'"
      using a ls r by auto
  next
    assume "\<exists>l d'. d = l @ [0x2e] @ d' \<and> l \<noteq> [] \<and> 0x2e \<notin> set l \<and> lowerAscii parent = lowerAscii d'"
    then obtain l d' where d: "d = l @ [0x2e] @ d'" "l \<noteq> []" "0x2e \<notin> set l" "lowerAscii parent = lowerAscii d'" by blast
    have "hostLabels d = l # hostLabels d'" unfolding d(1) by (rule labels_cons[OF d(3)])
    moreover have "labels_match (hostLabels parent) (hostLabels d')" using d(4) by (simp add: labels_match_iff)
    ultimately show "length (hostLabels p) = length (hostLabels d) \<and> labels_match (tl (hostLabels p)) (tl (hostLabels d)) \<and>
      hostLabels d ! 0 \<noteq> []" using p d(2) by (simp add: labels_match_def list_all2_lengthD)
  qed
qed

lemma dnsMatch_covers:
  "dnsMatch p d w = Matches \<longleftrightarrow> presentedNameShape (stripTrailingDot p) \<and> covers w (stripTrailingDot p) d"
proof -
  let ?p = "stripTrailingDot p"
  show ?thesis
  proof (cases "wildcardShape (hostLabels ?p)")
    case No_wildcard
    have "labels_match (hostLabels ?p) (hostLabels d) \<Longrightarrow> length (hostLabels ?p) = length (hostLabels d)"
      by (simp add: labels_match_def list_all2_lengthD)
    then show ?thesis using No_wildcard wildcard_none_iff[of ?p] labels_match_iff[of ?p d]
      by (auto simp: dnsMatch_def Let_def covers_def)
  next
    case Valid_wildcard
    then obtain parent where par: "?p = [0x2a, 0x2e] @ parent" "0x2a \<notin> set parent" using wildcard_valid_iff by blast
    have "dnsMatch p d w = Matches \<longleftrightarrow> presentedNameShape ?p \<and> w \<and>
      (length (hostLabels ?p) = length (hostLabels d) \<and> labels_match (tl (hostLabels ?p)) (tl (hostLabels d)) \<and>
      hostLabels d ! 0 \<noteq> [])" using Valid_wildcard by (simp add: dnsMatch_def Let_def)
    also have "\<dots> \<longleftrightarrow> presentedNameShape ?p \<and> covers w ?p d"
      unfolding wildcard_parent[OF par(1)] covers_def using par by auto
    finally show ?thesis .
  next
    case Invalid_wildcard
    then have "\<not> covers w ?p d" using wildcard_none_iff[of ?p] wildcard_valid_iff[of ?p] by (auto simp: covers_def)
    then show ?thesis using Invalid_wildcard by (simp add: dnsMatch_def Let_def)
  qed
qed

lemma xor_fold_zero: "fold (\<lambda>(a, b) same. same OR (unat a XOR unat b)) (zip xs ys) (n :: nat) = 0 \<longleftrightarrow>
    n = 0 \<and> (\<forall>(a, b) \<in> set (zip xs ys). a = (b :: byte))"
proof (induction xs ys arbitrary: n rule: list_induct2')
  case (4 x xs y ys)
  have "unat x XOR unat y = unat (x XOR y)" by (simp add: unsigned_xor_eq)
  moreover have "x XOR y = 0 \<longleftrightarrow> x = y" by (metis xor.assoc xor.left_neutral xor_self_eq)
  ultimately have "n OR (unat x XOR unat y) = 0 \<longleftrightarrow> n = 0 \<and> x = y" by (auto simp: or_eq_0_iff unat_eq_0)
  then show ?case using 4 by auto
qed auto

lemma id_ipMatch_eq: "id_ipMatch a b \<longleftrightarrow> a = b"
  by (auto simp: id_ipMatch_def xor_fold_zero list_eq_iff_nth_eq set_zip)

text \<open>C33: what a match is.  An address matches an iPAddress entry with the same octets and nothing else; a domain
  matches a dNSName entry that is shaped like a name and covers it; a service or a URI scheme is
  compared with its own domain only, in an entry of its own form.\<close>

theorem compare_exact:
  "(id_compare (IpRef octets t i) x w = Inr Matches \<longleftrightarrow> gn_tag x = 7 \<and> gn_val x = GnBytes octets) \<and>
   (id_compare (DnsRef d i) x w = Inr Matches \<longleftrightarrow> gn_tag x = 2 \<and>
     (\<exists>p. gn_val x = GnText (Str p) \<and> presentedNameShape (stripTrailingDot p) \<and> covers w (stripTrailingDot p) d)) \<and>
   (id_compare (SrvRef d service i) x w = Inr Matches \<longleftrightarrow> gn_tag x = 0 \<and>
     (\<exists>b s p. gn_val x = GnOther oid_dnsSRV b \<and> srvName b = Inr (s, p) \<and> lowerAscii s = service \<and>
        presentedNameShape (stripTrailingDot p) \<and> covers w (stripTrailingDot p) d)) \<and>
   (id_compare (UriRef d scheme i) x w = Inr Matches \<longleftrightarrow> gn_tag x = 6 \<and>
     (\<exists>u p. gn_val x = GnText (Str u) \<and> uriId u = Inr (scheme, p) \<and>
        presentedNameShape (stripTrailingDot p) \<and> covers w (stripTrailingDot p) d))"
  unfolding dnsMatch_covers [symmetric]
  by (auto simp: id_compare_def id_ipMatch_eq split: gn_value.splits js.splits sum.splits if_splits)

section \<open>The search\<close>

lemma search_entries_Cons:
  assumes "search_entries w r e (x # xs) s = Inr (f, s')"
  shows "(id_compare r x w = Inr Matches \<and> f = Some e) \<or>
    (id_compare r x w \<noteq> Inr Matches \<and> (\<exists>s0. search_entries w r (e + 1) xs s0 = Inr (f, s')))"
proof -
  obtain c ign where s: "s = (c, ign)" by fastforce
  from assms obtain c' d where "id_compare r x w = Inr d" and
    d: "(case d of Matches \<Rightarrow> Inr (Some e, (c', ign)) | Differs \<Rightarrow> search_entries w r (e + 1) xs (c', ign)
      | Ignored why \<Rightarrow> search_entries w r (e + 1) xs (c', if (e, why) \<in> set ign then ign else ign @ [(e, why)])) = Inr (f, s')"
    unfolding s search_entries.simps bindR_eq_Inr by blast
  then show ?thesis by (cases d) auto
qed

lemma search_entries_found:
  "search_entries w r e xs s = Inr (Some k, s') \<Longrightarrow> \<exists>i < length xs. k = e + i \<and> id_compare r (xs ! i) w = Inr Matches"
proof (induction xs arbitrary: e s)
  case (Cons x xs)
  from search_entries_Cons[OF Cons.prems] show ?case
  proof (elim disjE conjE exE)
    fix s0 assume "search_entries w r (e + 1) xs s0 = Inr (Some k, s')"
    from Cons.IH[OF this] obtain i where "i < length xs" "k = e + 1 + i" "id_compare r (xs ! i) w = Inr Matches" by blast
    then show ?thesis by (intro exI[of _ "Suc i"]) simp
  qed auto
qed simp

lemma search_entries_none:
  "search_entries w r e xs s = Inr (None, s') \<Longrightarrow> x \<in> set xs \<Longrightarrow> id_compare r x w \<noteq> Inr Matches"
proof (induction xs arbitrary: e s)
  case (Cons y xs)
  then show ?case using search_entries_Cons[OF Cons.prems(1)] Cons.IH by auto
qed simp

lemma search_references_Cons:
  assumes "search_references w es (r # rs) s = Inr (f, s')"
  shows "\<exists>found s1. search_entries w r 0 es s = Inr (found, s1) \<and>
    (case found of Some e \<Rightarrow> f = Some (r, e) | None \<Rightarrow> search_references w es rs s1 = Inr (f, s'))"
  using assms by (auto simp: bindR_eq_Inr split: option.splits) blast+

lemma search_references_found:
  "search_references w es rs s = Inr (Some (r, e), s') \<Longrightarrow> r \<in> set rs \<and> e < length es \<and> id_compare r (es ! e) w = Inr Matches"
proof (induction rs arbitrary: s)
  case (Cons r0 rs)
  then obtain found s1 where f: "search_entries w r0 0 es s = Inr (found, s1)"
    "case found of Some k \<Rightarrow> Some (r, e) = Some (r0, k) | None \<Rightarrow> search_references w es rs s1 = Inr (Some (r, e), s')"
    using search_references_Cons by blast
  show ?case
  proof (cases found)
    case None
    then show ?thesis using f(2) Cons.IH by auto
  next
    case (Some k)
    then show ?thesis using f search_entries_found[of w r0 0 es s k s1] by auto
  qed
qed simp

lemma search_references_none:
  "search_references w es rs s = Inr (None, s') \<Longrightarrow> r \<in> set rs \<Longrightarrow> x \<in> set es \<Longrightarrow> id_compare r x w \<noteq> Inr Matches"
proof (induction rs arbitrary: s)
  case (Cons r0 rs)
  then obtain found s1 where f: "search_entries w r0 0 es s = Inr (found, s1)"
    "case found of Some k \<Rightarrow> None = Some (r0, k) | None \<Rightarrow> search_references w es rs s1 = Inr (None, s')"
    using search_references_Cons by blast
  then have n: "found = None" by (cases found) auto
  show ?case
  proof (cases "r = r0")
    case True
    then show ?thesis using search_entries_none f(1) n Cons.prems(3) by blast
  next
    case False
    then show ?thesis using Cons.IH[of s1] Cons.prems f(2) n by simp
  qed
qed simp

lemma id_search_exact:
  assumes "id_search refs es w = Inr v"
  shows "(mv_matched v \<longleftrightarrow> (\<exists>r \<in> set refs. \<exists>x \<in> set es. id_compare r x w = Inr Matches)) \<and>
    (mv_matched v \<longrightarrow> (\<exists>r \<in> set refs. \<exists>e < length es. mv_reference v = Some (rf_input r) \<and> mv_entry v = Some e \<and>
       id_compare r (es ! e) w = Inr Matches))"
proof -
  from assms obtain c found s where s: "search_references w es refs (c, []) = Inr (found, s)"
    and v: "mv_matched v \<longleftrightarrow> found \<noteq> None" "\<And>r e. found = Some (r, e) \<Longrightarrow> mv_reference v = Some (rf_input r) \<and> mv_entry v = Some e"
  proof -
    from assms obtain c found s where "search_references w es refs (c, []) = Inr (found, s)"
      "Inr v = (case found of
           Some (r, e) \<Rightarrow> Inr \<lparr>mv_matched = True, mv_reference = Some (rf_input r), mv_entry = Some e,
             mv_presented = length es, mv_ignored = snd s, mv_why = None\<rparr>
         | None \<Rightarrow> Inr \<lparr>mv_matched = False, mv_reference = None, mv_entry = None,
             mv_presented = length es, mv_ignored = snd s,
             mv_why = Some (if es = [] then Presents_nothing else No_identifier_matched)\<rparr>)"
      by (auto simp: id_search_def bindR_eq_Inr split: option.splits)
    then show ?thesis by (intro that[of c found s]) (auto split: option.splits)
  qed
  show ?thesis
  proof (cases found)
    case None
    then show ?thesis using v search_references_none[of w es refs "(c, [])" s] s by auto
  next
    case (Some f)
    obtain r e where f: "f = (r, e)" by fastforce
    have "r \<in> set refs" "e < length es" "id_compare r (es ! e) w = Inr Matches"
      using search_references_found[of w es refs "(c, [])" r e s] s Some f by auto
    moreover have "mv_matched v" "mv_reference v = Some (rf_input r) \<and> mv_entry v = Some e" using v Some f by auto
    ultimately show ?thesis using nth_mem by blast
  qed
qed

lemma id_match_exact:
  assumes "id_match D cert refs opts = Inr v"
  defines "w \<equiv> option_of opts ''wildcards'' \<noteq> Bool False"
  shows "\<exists>es. presented D cert = Inr es \<and> mv_presented v = length es \<and>
    (mv_matched v \<longleftrightarrow> (\<exists>r \<in> set refs. \<exists>x \<in> set es. id_compare r x w = Inr Matches)) \<and>
    (mv_matched v \<longrightarrow> (\<exists>r \<in> set refs. \<exists>e < length es. mv_reference v = Some (rf_input r) \<and> mv_entry v = Some e \<and>
       id_compare r (es ! e) w = Inr Matches))"
proof -
  from assms(1) obtain w' es where w: "(case option_of opts ''wildcards'' of
         Undef \<Rightarrow> Inr True | Bool b \<Rightarrow> Inr b | _ \<Rightarrow> Inl (IdentityE Identity_bad_input)) = Inr w'"
    and es: "presented D cert = Inr es" "id_search refs es w' = Inr v"
    by (auto simp: id_match_def bindR_eq_Inr)
  have "w' = w" using w by (auto simp: w_def split: js.splits)
  moreover have "mv_presented v = length es" using es(2) by (auto simp: id_search_def bindR_eq_Inr split: option.splits)
  ultimately show ?thesis using id_search_exact[OF es(2)] es(1) by blast
qed

end
