(* ===== verification/Path_Answers.thy ===== *)
theory Path_Answers
  imports Path_Claims Identity_Proofs
begin

text \<open>
  lib/path-validate.js, the rest of the answer: what a valid path says of revocation, of the identity asked
  for, of the anchors it was tried under, and how the policies the caller and the anchor accept are merged.
\<close>

section \<open>Revocation\<close>

lemma run_flags:
  assumes r: "run E a certs sts" and ch: "v_checker E = Some ch" and d: "\<not> v_distrusted E (wk_key (ta_key a))" and "k \<le> length certs"
  shows "prefixAuthentic (sts ! k) \<and> distrustedFrom (sts ! k) = None \<and> (0 < k \<longrightarrow> revocationRan (sts ! k)) \<and>
    \<not> revocationUndetermined (sts ! k) \<and>
    (\<forall>j < k. let rv = ch (certs ! j) (workingIssuerName (sts ! j)) (workingKey (sts ! j)) (issuer_at certs j) in
       answered_good rv \<or> v_softFail E \<and> waivable rv) \<and>
    (revocationWaived (sts ! k) \<longleftrightarrow>
       (\<exists>j < k. \<not> answered_good (ch (certs ! j) (workingIssuerName (sts ! j)) (workingKey (sts ! j)) (issuer_at certs j))))"
  using assms(4)
proof (induction k)
  case 0
  show ?case using run_start[OF r] d by (simp add: initialState_def)
next
  case (Suc k)
  then have k: "k < length certs" by simp
  let ?rv = "ch (certs ! k) (workingIssuerName (sts ! k)) (workingKey (sts ! k)) (issuer_at certs k)"
  have IH: "prefixAuthentic (sts ! k)" "distrustedFrom (sts ! k) = None" "\<not> revocationUndetermined (sts ! k)" using Suc by simp_all
  have st: "cert_step E a (length certs) k (issuer_at certs k) (certs ! k) (sts ! k) = Inr (sts ! Suc k)" "\<not> failed (sts ! Suc k)"
    using r k by (auto simp: run_def)
  obtain s1 where s1: "check_step E a (length certs) k (issuer_at certs k) (certs ! k) (sts ! k) = Inr s1" "\<not> failed s1"
    "flags (sts ! Suc k) = flags s1" using cert_step_flags[OF st] by blast
  have "prefixAuthentic s1 \<and> distrustedFrom s1 = None \<and> revocationRan s1 \<and>
    (answered_good ?rv \<or> v_softFail E \<and> waivable ?rv) \<and>
    revocationUndetermined s1 = revocationUndetermined (sts ! k) \<and>
    (revocationWaived s1 \<longleftrightarrow> revocationWaived (sts ! k) \<or> \<not> answered_good ?rv)"
    by (rule check_step_revocation[OF s1(1,2) ch IH(1,2)])
  then show ?case using s1(3) Suc IH(3) by (auto simp: flags_def Let_def less_Suc_eq)
qed

text \<open>C30: revocation.  When a checker was given, it was asked about every certificate of a valid path, with the
  issuer's name and key in force there; every answer was good, or under soft failure one that is neither
  a revocation nor a failure to answer; and the path says whether any was waived.\<close>

theorem path_revocation:
  assumes "validate_one E certs a = Inr r" and "r_valid r" and "v_checker E = Some ch" and "certs \<noteq> []"
  shows "\<exists>wks. length wks = Suc (length certs) \<and> wks ! 0 = ta_key a \<and>
    (\<forall>k < length certs. updateWorkingKey (wks ! k) (c_spki (certs ! k)) = Inr (wks ! Suc k)) \<and>
    (let answer = (\<lambda>k. ch (certs ! k) (if k = 0 then ta_name a else c_subject (certs ! (k - 1))) (wks ! k) (issuer_at certs k)) in
      (\<forall>k < length certs. answered_good (answer k) \<or> v_softFail E \<and> waivable (answer k)) \<and>
      r_revocationChecked r = (if \<forall>k < length certs. answered_good (answer k) then Rev_determined else Rev_waived))"
proof -
  obtain sts where r: "run E a certs sts" and
    rc: "r_revocationChecked r = (if \<not> revocationRan (last sts) then Rev_not
        else if revocationUndetermined (last sts) then Rev_undetermined
        else if revocationWaived (last sts) then Rev_waived else Rev_determined)" using validate_run[OF assms(1,2)] by blast
  have len: "length sts = Suc (length certs)" using r by (simp add: run_def)
  have "\<not> refused_key E (wk_key (ta_key a))" using run_passed[OF r, of 0] assms(4) by (simp add: passed_def)
  then have d: "\<not> v_distrusted E (wk_key (ta_key a))" by (simp add: refused_key_def)
  note flags = run_flags[OF r assms(3) d order.refl]
  let ?ans = "\<lambda>k. ch (certs ! k) (workingIssuerName (sts ! k)) (workingKey (sts ! k)) (issuer_at certs k)"
  have same: "?ans k = ch (certs ! k) (if k = 0 then ta_name a else c_subject (certs ! (k - 1))) (map workingKey sts ! k) (issuer_at certs k)"
    if "k < length certs" for k
    using run_issuer[OF r that] that len by simp
  have "\<forall>k < length certs. answered_good (?ans k) \<or> v_softFail E \<and> waivable (?ans k)" using flags by (simp add: Let_def)
  moreover have "r_revocationChecked r = (if \<forall>k < length certs. answered_good (?ans k) then Rev_determined else Rev_waived)"
    using flags rc assms(4) unfolding run_last[OF r] by auto
  ultimately show ?thesis
    using len run_start[OF r] run_key[OF r] same
    by (intro exI[of _ "map workingKey sts"]) (auto simp: initialState_def Let_def)
qed

theorem path_revocation_witness:
  "\<exists>wks. length wks = 3 \<and> wks ! 0 = ta_key sample_anchor \<and> r_revocationChecked sample_result = Rev_determined"
proof -
  have "v_checker sample_env = Some (\<lambda>_ _ _ _. Answer (Some (js_lit ''good'')))" "sample_path \<noteq> []"
    by (simp_all add: sample_path_def)
  from path_revocation[OF sample_validates sample_result_simps(1) this] obtain wks where
    "length wks = Suc (length sample_path)" "wks ! 0 = ta_key sample_anchor" by blast
  then show ?thesis by (intro exI[of _ wks]) (simp add: sample_path_def)
qed

section \<open>Identity\<close>

text \<open>C31: identity.  When the caller asked for an identity, a valid path is one whose last certificate presents a
  name, in its subjectAltName, that matches a reference the caller gave; the result says so.\<close>

theorem path_identity:
  assumes "validate_one E certs a = Inr r" and "r_valid r"
    and "v_identity E = Some (\<lambda>c. bindR (id_match (v_dec E) c refs []) (\<lambda>v. Inr (mv_matched v)))"
  shows "r_identity r \<and> (\<exists>es. presented (v_dec E) (last certs) = Inr es \<and>
    (\<exists>ref \<in> set refs. \<exists>x \<in> set es. id_compare ref x True = Inr Matches))"
proof -
  from validate_run[OF assms(1,2)] assms(3) obtain v where v: "id_match (v_dec E) (last certs) refs [] = Inr v" "mv_matched v"
    and id: "r_identity r" by (auto simp: bindR_eq_Inr)
  from id_match_exact[OF v(1)] v(2) show ?thesis using id by (auto simp: option_of_def)
qed

theorem path_identity_witness:
  "\<exists>es. presented sample_dec sample_leaf = Inr es \<and> (\<exists>x \<in> set es. id_compare (hd sample_refs) x True = Inr Matches)"
proof -
  have "v_identity sample_env = Some (\<lambda>c. bindR (id_match (v_dec sample_env) c sample_refs []) (\<lambda>v. Inr (mv_matched v)))"
    by (simp add: sample_identity_def fun_eq_iff)
  from path_identity[OF sample_validates sample_result_simps(1) this] show ?thesis
    by (auto simp: sample_refs_def sample_path_def)
qed

section \<open>Several anchors\<close>

lemma try_anchors_valid:
  "try_anchors E certs as lst = Inr (Some r) \<Longrightarrow>
     lst = Some r \<or> (\<exists>a \<in> set as. validate_one E certs a = Inr r \<and>
       dnEqual (v_lc E) (PathE Path_name_chaining) (ta_name a) (c_issuer (hd certs)) = Inr True)"
  by (induction as arbitrary: lst) (fastforce simp: bindR_eq_Inr split: if_splits)+

lemma try_anchors_complete:
  assumes "try_anchors E certs as lst = Inr res" and "a \<in> set as" and "validate_one E certs a = Inr r" and "r_valid r"
    and "dnEqual (v_lc E) (PathE Path_name_chaining) (ta_name a) (c_issuer (hd certs)) = Inr True"
  shows "\<exists>r. res = Some r \<and> r_valid r"
  using assms(1,2)
proof (induction as arbitrary: lst)
  case (Cons b as)
  then obtain same where same: "dnEqual (v_lc E) (PathE Path_name_chaining) (ta_name b) (c_issuer (hd certs)) = Inr same"
    by (auto simp: bindR_eq_Inr)
  show ?case
  proof (cases same)
    case False
    then have "a \<noteq> b" using same assms(5) by auto
    then show ?thesis using Cons same False by auto
  next
    case True
    then obtain rb where rb: "validate_one E certs b = Inr rb" using Cons.prems(1) same by (auto simp: bindR_eq_Inr)
    then show ?thesis using Cons True same assms(3,4) by (cases "a = b") (auto split: if_splits)
  qed
qed simp

text \<open>Several anchors.  A valid answer is the answer of one of the anchors given, and when an anchor whose name
  is the first certificate's issuer validates the path, the answer is a valid one; a path longer than the
  cap or empty is refused before any anchor is tried.\<close>

theorem validate_anchors:
  assumes "validate E certs anchors = Inr r"
  shows "certs \<noteq> [] \<and> length certs \<le> v_maxPathCerts E \<and> (\<exists>a \<in> set anchors. validate_one E certs a = Inr r) \<and>
    (\<forall>a \<in> set anchors. \<forall>ra. validate_one E certs a = Inr ra \<longrightarrow> r_valid ra \<longrightarrow>
       dnEqual (v_lc E) (PathE Path_name_chaining) (ta_name a) (c_issuer (hd certs)) = Inr True \<longrightarrow> r_valid r)"
proof -
  have len: "certs \<noteq> []" "length certs \<le> v_maxPathCerts E" using assms by (auto simp: validate_def split: if_splits)
  consider a where "anchors = [a]" "validate_one E certs a = Inr r"
    | a b as t where "anchors = a # b # as" "try_anchors E certs anchors None = Inr t"
        "(case t of Some res \<Rightarrow> Inr res | None \<Rightarrow> validate_one E certs a) = Inr r"
    using assms len by (auto simp: validate_def Suc_le_eq bindR_eq_Inr split: list.splits)
  then show ?thesis
  proof cases
    case 1
    then show ?thesis using len by auto
  next
    case 2
    have "\<exists>a \<in> set anchors. validate_one E certs a = Inr r"
    proof (cases t)
      case None
      then show ?thesis using 2 by auto
    next
      case (Some res)
      then show ?thesis using 2 try_anchors_valid[of E certs anchors None res] by auto
    qed
    moreover have "r_valid r" if "a' \<in> set anchors" "validate_one E certs a' = Inr ra" "r_valid ra"
      "dnEqual (v_lc E) (PathE Path_name_chaining) (ta_name a') (c_issuer (hd certs)) = Inr True" for a' ra
      using try_anchors_complete[OF 2(2) that] 2(3) by auto
    ultimately show ?thesis using len by blast
  qed
qed

theorem validate_anchors_witness: "validate sample_env sample_path [sample_anchor] = Inr sample_result \<and> sample_path \<noteq> []"
proof -
  have "validate sample_env sample_path [sample_anchor] = Inr sample_result"
    using sample_validates by (simp add: validate_def sample_path_def sample_env_def)
  then show ?thesis using validate_anchors by blast
qed

end
