(* ===== verification/Rfc3339.thy ===== *)
theory Rfc3339
  imports Js_Date
begin

text \<open>
  lib/rfc3339.js: the reading of RFC 3339 dates and times, with the calendar checked.  The scanner keeps an
  index into the text; here each statement reads at the index the code has reached.  \<open>new Date(text)\<close> is
  \<open>date_parse\<close>: the value ECMA-262 gives to a text of its own interchange format, and for any other text
  (lower-case letters, a fraction that is not of three digits) a parameter, the standard leaving it to
  the implementation.
\<close>

section \<open>The scanner\<close>

text \<open>\<open>v.charAt(p) === c\<close>.\<close>

definition at_is :: "jsstr \<Rightarrow> nat \<Rightarrow> nat \<Rightarrow> bool" where
  "at_is v p c \<longleftrightarrow> p < length v \<and> v ! p = c"

definition is_dig :: "nat \<Rightarrow> bool" where
  "is_dig c \<longleftrightarrow> 48 \<le> c \<and> c \<le> 57"

fun digits_loop :: "jsstr \<Rightarrow> nat \<Rightarrow> nat option" where
  "digits_loop [] val = Some val"
| "digits_loop (c # cs) val = (if c < 48 \<or> c > 57 then None else digits_loop cs (val * 10 + (c - 48)))"

definition digitsAt :: "jsstr \<Rightarrow> nat \<Rightarrow> nat \<Rightarrow> nat option" where
  "digitsAt v start count =
     (if start + count > length v then None else digits_loop (slice v start (start + count)) 0)"

record scanned =
  sc_year :: nat
  sc_month :: nat
  sc_day :: nat
  sc_hour :: nat
  sc_min :: nat
  sc_sec :: nat
  sc_offset :: "(nat \<times> nat) option"

text \<open>\<open>bindO\<close> is the code's \<open>if (x === null) return null\<close>.\<close>

fun bindO :: "'a option \<Rightarrow> ('a \<Rightarrow> 'b option) \<Rightarrow> 'b option" where
  "bindO None f = None"
| "bindO (Some x) f = f x"

definition scanFullPrefix :: "jsstr \<Rightarrow> (nat \<times> nat \<times> nat) option" where
  "scanFullPrefix v =
     bindO (digitsAt v 0 4) (\<lambda>year. if \<not> at_is v 4 45 then None else
     bindO (digitsAt v 5 2) (\<lambda>month. if \<not> at_is v 7 45 then None else
     bindO (digitsAt v 8 2) (\<lambda>day. Some (year, month, day))))"

definition scanClock :: "jsstr \<Rightarrow> (nat \<times> nat \<times> nat) option" where
  "scanClock v =
     bindO (digitsAt v 11 2) (\<lambda>hour. if \<not> at_is v 13 58 then None else
     bindO (digitsAt v 14 2) (\<lambda>min. if \<not> at_is v 16 58 then None else
     bindO (digitsAt v 17 2) (\<lambda>sec. Some (hour, min, sec))))"

text \<open>The end of the fraction, or of the seconds where there is none.\<close>

definition scanFrac :: "jsstr \<Rightarrow> nat option" where
  "scanFrac v =
     (if at_is v 19 46 then
        let k = length (takeWhile is_dig (drop 20 v)) in if k = 0 then None else Some (20 + k)
      else Some 19)"

definition scanZone :: "jsstr \<Rightarrow> nat \<Rightarrow> (nat \<times> (nat \<times> nat) option) option" where
  "scanZone v p =
     (if at_is v p 90 \<or> at_is v p 122 then Some (p + 1, None)
      else if at_is v p 43 \<or> at_is v p 45 then
        bindO (digitsAt v (p + 1) 2) (\<lambda>offHour. if \<not> at_is v (p + 3) 58 then None else
        bindO (digitsAt v (p + 4) 2) (\<lambda>offMin. Some (p + 6, Some (offHour, offMin))))
      else None)"

definition scanDateTime :: "jsstr \<Rightarrow> scanned option" where
  "scanDateTime v =
     bindO (scanFullPrefix v) (\<lambda>(year, month, day).
     if \<not> at_is v 10 84 \<and> \<not> at_is v 10 116 then None else
     bindO (scanClock v) (\<lambda>(hour, min, sec).
     bindO (scanFrac v) (\<lambda>p.
     bindO (scanZone v p) (\<lambda>(p, offset).
     if p \<noteq> length v then None
     else Some \<lparr>sc_year = year, sc_month = month, sc_day = day, sc_hour = hour, sc_min = min,
       sc_sec = sec, sc_offset = offset\<rparr>))))"

section \<open>The calendar\<close>

definition leap_year :: "nat \<Rightarrow> bool" where
  "leap_year year \<longleftrightarrow> (year mod 4 = 0 \<and> year mod 100 \<noteq> 0) \<or> year mod 400 = 0"

definition daysInMonth :: "bool \<Rightarrow> nat list" where
  "daysInMonth lp = [31, if lp then 29 else 28, 31, 30, 31, 30, 31, 31, 30, 31, 30, 31]"

definition calendar_ok :: "nat \<Rightarrow> nat \<Rightarrow> nat \<Rightarrow> bool" where
  "calendar_ok year month day \<longleftrightarrow>
     \<not> (month < 1 \<or> month > 12) \<and> \<not> (day < 1 \<or> day > daysInMonth (leap_year year) ! (month - 1))"

definition isValid :: "js \<Rightarrow> bool" where
  "isValid v = (case v of
      Str s \<Rightarrow> (case scanDateTime s of
          None \<Rightarrow> False
        | Some t \<Rightarrow>
            if sc_month t < 1 \<or> sc_month t > 12 then False
            else if sc_hour t > 23 \<or> sc_min t > 59 \<or> sc_sec t > 59 then False
            else if sc_day t < 1 \<or> sc_day t > daysInMonth (leap_year (sc_year t)) ! (sc_month t - 1) then False
            else (case sc_offset t of None \<Rightarrow> True | Some (h, m) \<Rightarrow> \<not> (h > 23 \<or> m > 59)))
    | _ \<Rightarrow> False)"

definition scanFullDate :: "jsstr \<Rightarrow> (nat \<times> nat \<times> nat) option" where
  "scanFullDate v = bindO (scanFullPrefix v) (\<lambda>d. if length v \<noteq> 10 then None else Some d)"

definition isValidDate :: "js \<Rightarrow> bool" where
  "isValidDate v = (case v of
      Str s \<Rightarrow> (case scanFullDate s of
          None \<Rightarrow> False
        | Some (year, month, day) \<Rightarrow>
            if month < 1 \<or> month > 12 then False
            else day \<ge> 1 \<and> day \<le> daysInMonth (leap_year year) ! (month - 1))
    | _ \<Rightarrow> False)"

section \<open>The instant\<close>

text \<open>ECMA-262, the interchange format of a date and time: capital letters, no fraction or one of three digits.
  The milliseconds past the second, and the minutes the offset is ahead of UTC.\<close>

definition standard_form :: "jsstr \<Rightarrow> (nat \<times> bool) option" where
  "standard_form v =
     (if \<not> at_is v 10 84 then None
      else case scanFrac v of
        None \<Rightarrow> None
      | Some p \<Rightarrow>
          if at_is v p 122 \<or> (p \<noteq> 19 \<and> p \<noteq> 23) then None
          else Some (if p = 23 then the (digitsAt v 20 3) else 0, at_is v p 45))"

definition date_parse :: "(jsstr \<Rightarrow> int option) \<Rightarrow> jsstr \<Rightarrow> int option" where
  "date_parse other v =
     (if isValid (Str v) then
        (case (standard_form v, scanDateTime v) of
           (Some (ms, west), Some t) \<Rightarrow>
             let off = (case sc_offset t of None \<Rightarrow> 0 | Some (h, m) \<Rightarrow> int h * 60 + int m) in
             time_clip (make_day (int (sc_year t)) (int (sc_month t) - 1) (int (sc_day t)) * ms_per_day +
               make_time (int (sc_hour t)) (int (sc_min t)) (int (sc_sec t)) (int ms) -
               (if west then - off else off) * 60000)
         | _ \<Rightarrow> other v)
      else other v)"

definition rfc_parse :: "(jsstr \<Rightarrow> int option) \<Rightarrow> js \<Rightarrow> err \<Rightarrow> int option res" where
  "rfc_parse other v e = (case v of
      Str s \<Rightarrow> if \<not> isValid v then Inl e else Inr (date_parse other s)
    | _ \<Rightarrow> Inl e)"

definition parseDate :: "(jsstr \<Rightarrow> int option) \<Rightarrow> js \<Rightarrow> err \<Rightarrow> int option res" where
  "parseDate other v e = (case v of
      Str s \<Rightarrow> if \<not> isValidDate v then Inl e else Inr (date_parse other (s @ js_lit ''T00:00:00Z''))
    | _ \<Rightarrow> Inl e)"

section \<open>The text of an instant\<close>

text \<open>\<open>isoOf\<close> of lib/guard-time.js: \<open>toISOString\<close>, for a year of four digits.\<close>

definition pad2 :: "nat \<Rightarrow> jsstr" where
  "pad2 n = [48 + n div 10, 48 + n mod 10]"

definition pad3 :: "nat \<Rightarrow> jsstr" where
  "pad3 n = (48 + n div 100) # pad2 (n mod 100)"

definition isoOf :: "int \<Rightarrow> jsstr" where
  "isoOf t =
     pad2 (nat (utc_year t) div 100) @ pad2 (nat (utc_year t) mod 100) @ 45 # pad2 (utc_month t + 1) @ 45 #
     pad2 (nat (utc_date t)) @ 84 # pad2 (nat (utc_hours t)) @ 58 # pad2 (nat (utc_minutes t)) @ 58 #
     pad2 (nat (utc_seconds t)) @ 46 # pad3 (nat (utc_ms t)) @ [90]"

end
