(* ===== verification/Rfc3339_Proofs.thy ===== *)
theory Rfc3339_Proofs
  imports Rfc3339 Asn1_Time
begin

text \<open>
  What Rfc3339 reads: exactly the texts of a grammar whose fields are in range, and, of the texts the
  language writes, the instant they were written from.
\<close>

section \<open>Fields of the text\<close>

definition digits :: "nat \<Rightarrow> jsstr \<Rightarrow> bool" where
  "digits n ds \<longleftrightarrow> length ds = n \<and> list_all is_dig ds"

definition dec :: "jsstr \<Rightarrow> nat" where
  "dec ds = foldl (\<lambda>a c. a * 10 + (c - 48)) 0 ds"

lemma digits_loop_Some: "digits_loop ds val = Some x \<longleftrightarrow> list_all is_dig ds \<and> x = foldl (\<lambda>a c. a * 10 + (c - 48)) val ds"
  by (induction ds arbitrary: val) (auto simp: is_dig_def)

lemma digitsAt_iff: "digitsAt v p n = Some x \<longleftrightarrow> (\<exists>ds. digits n ds \<and> x = dec ds \<and> p + n \<le> length v \<and> drop p v = ds @ drop (p + n) v)"
proof
  assume a: "digitsAt v p n = Some x"
  then have l: "p + n \<le> length v" and d: "digits_loop (take n (drop p v)) 0 = Some x"
    by (auto simp: digitsAt_def slice_def split: if_splits)
  have "drop p v = take n (drop p v) @ drop (p + n) v" using append_take_drop_id[of n "drop p v"] by (simp add: add.commute)
  moreover have "digits n (take n (drop p v))" "x = dec (take n (drop p v))"
    using d l by (auto simp: digits_loop_Some digits_def dec_def)
  ultimately show "\<exists>ds. digits n ds \<and> x = dec ds \<and> p + n \<le> length v \<and> drop p v = ds @ drop (p + n) v" using l by blast
next
  assume "\<exists>ds. digits n ds \<and> x = dec ds \<and> p + n \<le> length v \<and> drop p v = ds @ drop (p + n) v"
  then obtain ds where ds: "digits n ds" "x = dec ds" "p + n \<le> length v" "drop p v = ds @ drop (p + n) v" by blast
  have "take n (drop p v) = ds" by (subst ds(4)) (use ds(1) in \<open>simp add: digits_def\<close>)
  then show "digitsAt v p n = Some x" using ds by (simp add: digitsAt_def slice_def digits_loop_Some digits_def dec_def)
qed

lemma at_is_iff: "at_is v p c \<longleftrightarrow> p < length v \<and> drop p v = c # drop (Suc p) v"
  by (auto simp: at_is_def Cons_nth_drop_Suc[symmetric])

text \<open>Both, of a text written as what stands before the index and what follows.\<close>

lemma digitsAt_mid: "length pre = p \<Longrightarrow> digits n ds \<Longrightarrow> digitsAt (pre @ ds @ post) p n = Some (dec ds)"
  unfolding digitsAt_iff by (intro exI[of _ ds]) (auto simp: digits_def)

lemma at_is_mid: "length pre = p \<Longrightarrow> at_is (pre @ c # post) p d \<longleftrightarrow> c = d"
  by (auto simp: at_is_def)

lemma bindO_Some: "bindO m f = Some y \<longleftrightarrow> (\<exists>x. m = Some x \<and> f x = Some y)"
  by (cases m) auto

lemma if_None_Some: "(if c then None else m) = Some y \<longleftrightarrow> \<not> c \<and> m = Some y"
  by simp

section \<open>The grammar\<close>

datatype zone = Zulu nat | Offset nat jsstr jsstr

fun zone_text :: "zone \<Rightarrow> jsstr" where
  "zone_text (Zulu c) = [c]"
| "zone_text (Offset c h m) = c # h @ 58 # m"

fun zone_form :: "zone \<Rightarrow> bool" where
  "zone_form (Zulu c) \<longleftrightarrow> c = 90 \<or> c = 122"
| "zone_form (Offset c h m) \<longleftrightarrow> (c = 43 \<or> c = 45) \<and> digits 2 h \<and> digits 2 m"

fun zone_value :: "zone \<Rightarrow> (nat \<times> nat) option" where
  "zone_value (Zulu c) = None"
| "zone_value (Offset c h m) = Some (dec h, dec m)"

definition frac_form :: "jsstr \<Rightarrow> bool" where
  "frac_form f \<longleftrightarrow> f = [] \<or> (\<exists>ds. f = 46 # ds \<and> ds \<noteq> [] \<and> list_all is_dig ds)"

definition rfc_text :: "jsstr \<Rightarrow> jsstr \<Rightarrow> jsstr \<Rightarrow> nat \<Rightarrow> jsstr \<Rightarrow> jsstr \<Rightarrow> jsstr \<Rightarrow> jsstr \<Rightarrow> zone \<Rightarrow> jsstr" where
  "rfc_text y mo d t h mi s f z =
     y @ 45 # mo @ 45 # d @ t # h @ 58 # mi @ 58 # s @ f @ zone_text z"

definition rfc_form :: "jsstr \<Rightarrow> jsstr \<Rightarrow> jsstr \<Rightarrow> nat \<Rightarrow> jsstr \<Rightarrow> jsstr \<Rightarrow> jsstr \<Rightarrow> jsstr \<Rightarrow> zone \<Rightarrow> bool" where
  "rfc_form y mo d t h mi s f z \<longleftrightarrow> digits 4 y \<and> digits 2 mo \<and> digits 2 d \<and> (t = 84 \<or> t = 116) \<and>
     digits 2 h \<and> digits 2 mi \<and> digits 2 s \<and> frac_form f \<and> zone_form z"

lemma scanFullPrefix_iff:
  "scanFullPrefix v = Some (y, mo, d) \<longleftrightarrow>
     (\<exists>ys ms ds. digits 4 ys \<and> digits 2 ms \<and> digits 2 ds \<and> y = dec ys \<and> mo = dec ms \<and> d = dec ds \<and>
        v = ys @ 45 # ms @ 45 # ds @ drop 10 v)"
proof
  assume "scanFullPrefix v = Some (y, mo, d)"
  then obtain "digitsAt v 0 4 = Some y" "at_is v 4 45" "digitsAt v 5 2 = Some mo" "at_is v 7 45" "digitsAt v 8 2 = Some d"
    by (auto simp: scanFullPrefix_def bindO_Some if_None_Some split: if_splits)
  then obtain ys ms ds where "digits 4 ys" "y = dec ys" "v = ys @ drop 4 v" "drop 4 v = 45 # drop 5 v"
    "digits 2 ms" "mo = dec ms" "drop 5 v = ms @ drop 7 v" "drop 7 v = 45 # drop 8 v"
    "digits 2 ds" "d = dec ds" "drop 8 v = ds @ drop 10 v"
    unfolding digitsAt_iff at_is_iff by auto
  then show "\<exists>ys ms ds. digits 4 ys \<and> digits 2 ms \<and> digits 2 ds \<and> y = dec ys \<and> mo = dec ms \<and> d = dec ds \<and>
      v = ys @ 45 # ms @ 45 # ds @ drop 10 v" by metis
next
  assume "\<exists>ys ms ds. digits 4 ys \<and> digits 2 ms \<and> digits 2 ds \<and> y = dec ys \<and> mo = dec ms \<and> d = dec ds \<and>
      v = ys @ 45 # ms @ 45 # ds @ drop 10 v"
  then obtain ys ms ds r where s: "digits 4 ys" "digits 2 ms" "digits 2 ds" "y = dec ys" "mo = dec ms" "d = dec ds"
    and v: "v = ys @ 45 # ms @ 45 # ds @ r" by blast
  have l: "length ys = 4" "length ms = 2" "length ds = 2" using s by (auto simp: digits_def)
  have "digitsAt v 0 4 = Some y" using digitsAt_mid[of "[]" 0 4 ys] s by (simp add: v)
  moreover have "at_is v 4 45" using at_is_mid[of ys 4 45] l by (simp add: v)
  moreover have "digitsAt v 5 2 = Some mo" using digitsAt_mid[of "ys @ [45]" 5 2 ms] s l by (simp add: v)
  moreover have "at_is v 7 45" using at_is_mid[of "ys @ 45 # ms" 7 45] l by (simp add: v)
  moreover have "digitsAt v 8 2 = Some d" using digitsAt_mid[of "ys @ 45 # ms @ [45]" 8 2 ds] s l by (simp add: v)
  ultimately show "scanFullPrefix v = Some (y, mo, d)" by (simp add: scanFullPrefix_def)
qed

lemma scanClock_iff:
  "length pre = 11 \<Longrightarrow> scanClock (pre @ w) = Some (h, mi, s) \<longleftrightarrow>
     (\<exists>hs ms ss r. digits 2 hs \<and> digits 2 ms \<and> digits 2 ss \<and> h = dec hs \<and> mi = dec ms \<and> s = dec ss \<and>
        w = hs @ 58 # ms @ 58 # ss @ r)"
proof
  assume p: "length pre = 11"
  let ?v = "pre @ w"
  assume "scanClock ?v = Some (h, mi, s)"
  then obtain "digitsAt ?v 11 2 = Some h" "at_is ?v 13 58" "digitsAt ?v 14 2 = Some mi" "at_is ?v 16 58" "digitsAt ?v 17 2 = Some s"
    by (auto simp: scanClock_def bindO_Some if_None_Some split: if_splits)
  then obtain hs ms ss where "digits 2 hs" "h = dec hs" "drop 11 ?v = hs @ drop 13 ?v" "drop 13 ?v = 58 # drop 14 ?v"
    "digits 2 ms" "mi = dec ms" "drop 14 ?v = ms @ drop 16 ?v" "drop 16 ?v = 58 # drop 17 ?v"
    "digits 2 ss" "s = dec ss" "drop 17 ?v = ss @ drop 19 ?v"
    unfolding digitsAt_iff at_is_iff by auto
  moreover have "drop 11 ?v = w" using p by simp
  ultimately show "\<exists>hs ms ss r. digits 2 hs \<and> digits 2 ms \<and> digits 2 ss \<and> h = dec hs \<and> mi = dec ms \<and> s = dec ss \<and>
      w = hs @ 58 # ms @ 58 # ss @ r" by metis
next
  assume p: "length pre = 11"
  assume "\<exists>hs ms ss r. digits 2 hs \<and> digits 2 ms \<and> digits 2 ss \<and> h = dec hs \<and> mi = dec ms \<and> s = dec ss \<and>
      w = hs @ 58 # ms @ 58 # ss @ r"
  then obtain hs ms ss r where s: "digits 2 hs" "digits 2 ms" "digits 2 ss" "h = dec hs" "mi = dec ms" "s = dec ss"
    and w: "w = hs @ 58 # ms @ 58 # ss @ r" by blast
  have l: "length hs = 2" "length ms = 2" "length ss = 2" using s by (auto simp: digits_def)
  have "digitsAt (pre @ w) 11 2 = Some h" using digitsAt_mid[of pre 11 2 hs] s p by (simp add: w)
  moreover have "at_is (pre @ w) 13 58" using at_is_mid[of "pre @ hs" 13 58] l p by (simp add: w)
  moreover have "digitsAt (pre @ w) 14 2 = Some mi" using digitsAt_mid[of "pre @ hs @ [58]" 14 2 ms] s l p by (simp add: w)
  moreover have "at_is (pre @ w) 16 58" using at_is_mid[of "pre @ hs @ 58 # ms" 16 58] l p by (simp add: w)
  moreover have "digitsAt (pre @ w) 17 2 = Some s" using digitsAt_mid[of "pre @ hs @ 58 # ms @ [58]" 17 2 ss] s l p by (simp add: w)
  ultimately show "scanClock (pre @ w) = Some (h, mi, s)" by (simp add: scanClock_def)
qed

lemma scanZone_form:
  assumes a: "scanZone v p = Some (length v, off)" and w: "drop p v = w" and lv: "length v = p + length w"
  shows "\<exists>z. zone_form z \<and> w = zone_text z \<and> off = zone_value z"
proof -
  show "\<exists>z. zone_form z \<and> w = zone_text z \<and> off = zone_value z"
  proof (cases "at_is v p 90 \<or> at_is v p 122")
    case True
    then obtain c where c: "c = 90 \<or> c = 122" "at_is v p c" by blast
    have "length w = 1" "off = None" using a lv True by (auto simp: scanZone_def)
    moreover have "w = c # drop (Suc p) v" using c(2) w by (simp add: at_is_iff)
    ultimately have "w = zone_text (Zulu c)" by (cases w) auto
    then show ?thesis using c(1) \<open>off = None\<close> by (intro exI[of _ "Zulu c"]) simp
  next
    case False
    with a lv obtain c h m where c: "c = 43 \<or> c = 45" "at_is v p c" and h: "digitsAt v (p + 1) 2 = Some h"
      and k: "at_is v (p + 3) 58" and m: "digitsAt v (p + 4) 2 = Some m" and off: "off = Some (h, m)" and lw: "length w = 6"
      by (auto simp: scanZone_def bindO_Some if_None_Some split: if_splits)
    obtain hs where hs: "digits 2 hs" "h = dec hs" "drop (p + 1) v = hs @ drop (p + 1 + 2) v"
      using h unfolding digitsAt_iff by blast
    obtain ms where ms: "digits 2 ms" "m = dec ms" "drop (p + 4) v = ms @ drop (p + 4 + 2) v"
      using m unfolding digitsAt_iff by blast
    have "w = c # drop (p + 1) v" using c(2) w by (simp add: at_is_iff)
    also have "drop (p + 1) v = hs @ drop (p + 3) v" by (subst hs(3)) (simp add: eval_nat_numeral)
    also have "drop (p + 3) v = 58 # drop (p + 4) v" using k by (simp add: at_is_iff eval_nat_numeral)
    also have "drop (p + 4) v = ms" using ms(3) lv lw by simp
    finally have "w = zone_text (Offset c hs ms)" by simp
    then show ?thesis using c(1) hs ms off by (intro exI[of _ "Offset c hs ms"]) simp
  qed
qed

lemma scanZone_iff:
  assumes p: "length pre = p"
  shows "scanZone (pre @ w) p = Some (p + length w, off) \<longleftrightarrow> (\<exists>z. zone_form z \<and> w = zone_text z \<and> off = zone_value z)"
proof
  assume "scanZone (pre @ w) p = Some (p + length w, off)"
  then show "\<exists>z. zone_form z \<and> w = zone_text z \<and> off = zone_value z"
    using scanZone_form[of "pre @ w" p off w] p by simp
next
  assume "\<exists>z. zone_form z \<and> w = zone_text z \<and> off = zone_value z"
  then obtain z where z: "zone_form z" "w = zone_text z" "off = zone_value z" by blast
  show "scanZone (pre @ w) p = Some (p + length w, off)"
  proof (cases z)
    case (Zulu c)
    then show ?thesis using z at_is_mid[OF p, of c "[]"] by (auto simp: scanZone_def)
  next
    case (Offset c h m)
    have l: "length h = 2" "length m = 2" using z Offset by (auto simp: digits_def)
    have w: "w = c # h @ 58 # m" using z Offset by simp
    have "digitsAt (pre @ w) (p + 1) 2 = Some (dec h)"
      using digitsAt_mid[of "pre @ [c]" "p + 1" 2 h "58 # m"] z Offset p by (simp add: w)
    moreover have "at_is (pre @ w) (p + 3) 58" using at_is_mid[of "pre @ c # h" "p + 3" 58 m 58] l p by (simp add: w)
    moreover have "digitsAt (pre @ w) (p + 4) 2 = Some (dec m)"
      using digitsAt_mid[of "pre @ c # h @ [58]" "p + 4" 2 m "[]"] z Offset l p by (simp add: w)
    moreover have "at_is (pre @ w) p d \<longleftrightarrow> c = d" for d using at_is_mid[OF p] by (simp add: w)
    ultimately show ?thesis using z Offset l by (auto simp: scanZone_def w)
  qed
qed

lemma zone_head: "zone_form z \<Longrightarrow> \<exists>c r. zone_text z = c # r \<and> \<not> is_dig c \<and> c \<noteq> 46"
  by (cases z) (auto simp: is_dig_def)

lemma scanFrac_text: "length pre = 19 \<Longrightarrow> frac_form f \<Longrightarrow> zone_form z \<Longrightarrow> scanFrac (pre @ f @ zone_text z) = Some (19 + length f)"
proof -
  assume p: "length pre = 19" and f: "frac_form f" and z: "zone_form z"
  obtain c r where c: "zone_text z = c # r" "\<not> is_dig c" "c \<noteq> 46" using zone_head[OF z] by blast
  show ?thesis
  proof (cases f)
    case Nil
    then show ?thesis using c at_is_mid[OF p, of c r 46] by (simp add: scanFrac_def)
  next
    case (Cons x ds)
    then have ds: "x = 46" "ds \<noteq> []" "list_all is_dig ds" using f by (auto simp: frac_form_def)
    have "takeWhile is_dig (ds @ c # r) = ds"
      using ds(3) c(2) by (simp add: takeWhile_append2 list_all_iff)
    moreover have "drop 20 (pre @ 46 # ds @ c # r) = ds @ c # r" using p by simp
    moreover have "at_is (pre @ 46 # ds @ c # r) 19 46" using at_is_mid[OF p] by blast
    ultimately show ?thesis using ds c(1) Cons by (simp add: scanFrac_def Let_def)
  qed
qed

lemma scanFrac_Some:
  assumes "length pre = 19" and "scanFrac (pre @ w) = Some p"
  obtains f r where "w = f @ r" and "frac_form f" and "p = 19 + length f"
proof (cases "at_is (pre @ w) 19 46")
  case True
  then have w: "w = 46 # drop 20 (pre @ w)" using assms(1) by (simp add: at_is_iff)
  define u where "u = drop 20 (pre @ w)"
  let ?ds = "takeWhile is_dig u"
  have p: "?ds \<noteq> []" "p = 20 + length ?ds" using assms(2) True unfolding u_def by (auto simp: scanFrac_def Let_def split: if_splits)
  have "list_all is_dig ?ds" by (auto simp: list_all_iff dest: set_takeWhileD)
  then have "frac_form (46 # ?ds)" using p(1) by (simp add: frac_form_def)
  moreover have "w = (46 # ?ds) @ dropWhile is_dig u" using w unfolding u_def[symmetric] by simp
  ultimately show ?thesis using p(2) that[of "46 # ?ds" "dropWhile is_dig u"] by simp
next
  case False
  then show ?thesis using assms(2) that[of "[]" w] by (simp add: scanFrac_def frac_form_def)
qed

section \<open>A date and time\<close>

text \<open>The scanner is the grammar: what it returns are the values of the fields of the one way to read the text.\<close>

lemma scanDateTime_iff:
  "scanDateTime v = Some t \<longleftrightarrow> (\<exists>y mo d c h mi s f z. rfc_form y mo d c h mi s f z \<and> v = rfc_text y mo d c h mi s f z \<and>
     t = \<lparr>sc_year = dec y, sc_month = dec mo, sc_day = dec d, sc_hour = dec h, sc_min = dec mi, sc_sec = dec s,
          sc_offset = zone_value z\<rparr>)" (is "?L \<longleftrightarrow> ?R")
proof
  assume ?L
  then obtain Y M D H I S p off where a: "scanFullPrefix v = Some (Y, M, D)" "at_is v 10 84 \<or> at_is v 10 116"
    "scanClock v = Some (H, I, S)" "scanFrac v = Some p" "scanZone v p = Some (length v, off)"
    and t: "t = \<lparr>sc_year = Y, sc_month = M, sc_day = D, sc_hour = H, sc_min = I, sc_sec = S, sc_offset = off\<rparr>"
    by (auto simp: scanDateTime_def bindO_Some if_None_Some split: prod.splits)
  obtain y mo d where d: "digits 4 y" "digits 2 mo" "digits 2 d" "Y = dec y" "M = dec mo" "D = dec d"
    "v = y @ 45 # mo @ 45 # d @ drop 10 v" using a(1) unfolding scanFullPrefix_iff by blast
  obtain c w where c: "c = 84 \<or> c = 116" "drop 10 v = c # w" using a(2) unfolding at_is_iff by blast
  let ?pre = "y @ 45 # mo @ 45 # d @ [c]"
  have l: "length ?pre = 11" using d by (simp add: digits_def)
  have v: "v = ?pre @ w" using d(7) c(2) by simp
  obtain h mi s r where h: "digits 2 h" "digits 2 mi" "digits 2 s" "H = dec h" "I = dec mi" "S = dec s"
    "w = h @ 58 # mi @ 58 # s @ r" using a(3) unfolding v scanClock_iff[OF l] by blast
  let ?pre2 = "?pre @ h @ 58 # mi @ 58 # s"
  have l2: "length ?pre2 = 19" using l h by (simp add: digits_def)
  have v2: "v = ?pre2 @ r" using v h(7) by simp
  obtain f q where f: "r = f @ q" "frac_form f" "p = 19 + length f" using scanFrac_Some[OF l2 a(4)[unfolded v2]] .
  have l3: "length (?pre2 @ f) = p" using l2 f(3) by simp
  have v3: "v = (?pre2 @ f) @ q" using v2 f(1) by simp
  have "length v = p + length q" using l3 v3 by simp
  then have "scanZone ((?pre2 @ f) @ q) p = Some (p + length q, off)" using a(5) v3 by metis
  then obtain z where "zone_form z" "q = zone_text z" "off = zone_value z"
    unfolding scanZone_iff[OF l3] by blast
  moreover have "v = rfc_text y mo d c h mi s f q'" if "q = zone_text q'" for q'
    using v3 that by (simp add: rfc_text_def)
  moreover have "t = \<lparr>sc_year = dec y, sc_month = dec mo, sc_day = dec d, sc_hour = dec h, sc_min = dec mi, sc_sec = dec s,
      sc_offset = off\<rparr>" using t d(4-6) h(4-6) by simp
  ultimately show ?R using d(1-3) h(1-3) f(2) c(1) unfolding rfc_form_def by blast
next
  assume ?R
  then obtain y mo d c h mi s f z where a: "digits 4 y" "digits 2 mo" "digits 2 d" "c = 84 \<or> c = 116"
    "digits 2 h" "digits 2 mi" "digits 2 s" "frac_form f" "zone_form z"
    and v: "v = y @ 45 # mo @ 45 # d @ c # h @ 58 # mi @ 58 # s @ f @ zone_text z"
    and t: "t = \<lparr>sc_year = dec y, sc_month = dec mo, sc_day = dec d, sc_hour = dec h, sc_min = dec mi, sc_sec = dec s,
          sc_offset = zone_value z\<rparr>" unfolding rfc_form_def rfc_text_def by blast
  let ?pre = "y @ 45 # mo @ 45 # d @ [c]" and ?w = "h @ 58 # mi @ 58 # s @ f @ zone_text z"
  let ?pre2 = "?pre @ h @ 58 # mi @ 58 # s"
  have l: "length ?pre = 11" "length ?pre2 = 19" "length (?pre2 @ f) = 19 + length f"
    using a by (simp_all add: digits_def)
  have 1: "v = ?pre @ ?w" "v = ?pre2 @ f @ zone_text z" "v = (?pre2 @ f) @ zone_text z" using v by simp_all
  have d10: "drop 10 v = c # ?w" using v a by (simp add: digits_def)
  have "scanFullPrefix v = Some (dec y, dec mo, dec d)"
    unfolding scanFullPrefix_iff using a v d10 by (intro exI[of _ y] exI[of _ mo] exI[of _ d]) auto
  moreover have "at_is v 10 84 \<or> at_is v 10 116" using at_is_mid[of "y @ 45 # mo @ 45 # d" 10 c ?w] a v by (auto simp: digits_def)
  moreover have "scanClock v = Some (dec h, dec mi, dec s)"
    unfolding 1(1) scanClock_iff[OF l(1)] using a by blast
  moreover have "scanFrac v = Some (19 + length f)" unfolding 1(2) by (rule scanFrac_text[OF l(2) a(8,9)])
  moreover have "scanZone v (19 + length f) = Some (length v, zone_value z)"
    using scanZone_iff[OF l(3), of "zone_text z" "zone_value z"] a(9) 1(3) l(3) by (metis length_append)
  ultimately show ?L using t by (auto simp: scanDateTime_def)
qed

section \<open>What is valid\<close>

lemma daysInMonth_days: "1 \<le> m \<Longrightarrow> m \<le> 12 \<Longrightarrow> int (daysInMonth (leap_year y) ! (m - 1)) = month_days (int y) (m - 1)"
proof -
  assume m: "1 \<le> m" "m \<le> 12"
  have "int y mod 4 = 0 \<longleftrightarrow> y mod 4 = 0" "int y mod 100 = 0 \<longleftrightarrow> y mod 100 = 0" "int y mod 400 = 0 \<longleftrightarrow> y mod 400 = 0"
    by presburger+
  then have "leap_year y = leap (int y)" by (simp only: leap_year_def leap_def)
  moreover obtain k where k: "m = Suc k" "k < 12" using m by (cases m) auto
  moreover have "k \<in> set [0..<12]" using k(2) by simp
  then have "int (daysInMonth l ! k) = month_table l ! k" for l
    unfolding upt_conv_Cons_Cons by (auto simp: daysInMonth_def month_table_def upt_rec)
  ultimately show ?thesis using k(1) by (simp add: month_days_def)
qed

text \<open>The code's calendar is the language's.\<close>

lemma calendar_civil: "calendar_ok y m d \<longleftrightarrow> 1 \<le> m \<and> civil_ok (int y) (m - 1) (int d)"
  using daysInMonth_days[of m y] by (cases "1 \<le> m \<and> m \<le> 12") (auto simp: calendar_ok_def civil_ok_def)

text \<open>A condition on what was scanned, as one on the fields.\<close>

lemma scanned_fields:
  "(\<exists>t. scanDateTime v = Some t \<and> P t) \<longleftrightarrow> (\<exists>y mo d c h mi s f z. rfc_form y mo d c h mi s f z \<and>
     v = rfc_text y mo d c h mi s f z \<and> P \<lparr>sc_year = dec y, sc_month = dec mo, sc_day = dec d, sc_hour = dec h,
       sc_min = dec mi, sc_sec = dec s, sc_offset = zone_value z\<rparr>)"
  unfolding scanDateTime_iff by blast

text \<open>The calendar, from the rule and not from the code's table: April, June, September and November have 30 days,
  February 28 or, in a year divisible by four that is not a century or is divisible by 400, 29, the others 31.\<close>

definition gregorian_leap :: "nat \<Rightarrow> bool" where
  "gregorian_leap y \<longleftrightarrow> 4 dvd y \<and> (100 dvd y \<longrightarrow> 400 dvd y)"

definition gregorian_days :: "nat \<Rightarrow> nat \<Rightarrow> nat" where
  "gregorian_days y m = (if m \<in> {4, 6, 9, 11} then 30 else if m = 2 then (if gregorian_leap y then 29 else 28) else 31)"

lemma leap_year_gregorian: "leap_year y \<longleftrightarrow> gregorian_leap y"
proof -
  have "400 dvd y \<Longrightarrow> 4 dvd y" using dvd_trans[of 4 400 y] by simp
  then show ?thesis by (auto simp: leap_year_def gregorian_leap_def mod_eq_0_iff_dvd)
qed

lemma daysInMonth_gregorian: "1 \<le> m \<Longrightarrow> m \<le> 12 \<Longrightarrow> daysInMonth (leap_year y) ! (m - 1) = gregorian_days y m"
proof -
  assume m: "1 \<le> m" "m \<le> 12"
  then have "m \<in> set [1..<13]" by simp
  then show ?thesis unfolding leap_year_gregorian
    by (auto simp: upt_rec daysInMonth_def gregorian_days_def)
qed

lemma calendar_gregorian: "calendar_ok y m d \<longleftrightarrow> 1 \<le> m \<and> m \<le> 12 \<and> 1 \<le> d \<and> d \<le> gregorian_days y m"
  using daysInMonth_gregorian[of m y] by (cases "1 \<le> m \<and> m \<le> 12") (auto simp: calendar_ok_def)

definition in_range :: "jsstr \<Rightarrow> jsstr \<Rightarrow> jsstr \<Rightarrow> jsstr \<Rightarrow> jsstr \<Rightarrow> jsstr \<Rightarrow> zone \<Rightarrow> bool" where
  "in_range y mo d h mi s z \<longleftrightarrow> 1 \<le> dec mo \<and> dec mo \<le> 12 \<and> 1 \<le> dec d \<and> dec d \<le> gregorian_days (dec y) (dec mo) \<and>
     dec h \<le> 23 \<and> dec mi \<le> 59 \<and> dec s \<le> 59 \<and>
     (case zone_value z of None \<Rightarrow> True | Some (oh, om) \<Rightarrow> oh \<le> 23 \<and> om \<le> 59)"

text \<open>C37: the validator of a date and time is the grammar of RFC 3339 section 5.6 with every field in its
  range: it accepts a text exactly when the text is the date, the letter T, the clock, an optional fraction
  and a zone, the day exists in its month by the Gregorian rule, and no second is the sixtieth.\<close>

theorem rfc3339_exact:
  "isValid (Str v) \<longleftrightarrow> (\<exists>y mo d c h mi s f z. rfc_form y mo d c h mi s f z \<and> v = rfc_text y mo d c h mi s f z \<and>
     in_range y mo d h mi s z)"
proof -
  have "isValid (Str v) \<longleftrightarrow> (\<exists>t. scanDateTime v = Some t \<and> calendar_ok (sc_year t) (sc_month t) (sc_day t) \<and>
      sc_hour t \<le> 23 \<and> sc_min t \<le> 59 \<and> sc_sec t \<le> 59 \<and>
      (case sc_offset t of None \<Rightarrow> True | Some (oh, om) \<Rightarrow> oh \<le> 23 \<and> om \<le> 59))"
  proof (cases "scanDateTime v")
    case (Some t)
    then show ?thesis
      by (cases "sc_offset t") (auto simp: isValid_def calendar_ok_def not_less split: if_splits)
  qed (simp add: isValid_def)
  also have "\<dots> \<longleftrightarrow> (\<exists>y mo d c h mi s f z. rfc_form y mo d c h mi s f z \<and> v = rfc_text y mo d c h mi s f z \<and>
     in_range y mo d h mi s z)"
    unfolding scanned_fields in_range_def calendar_gregorian by (simp only: scanned.select_convs conj_assoc)
  finally show ?thesis .
qed

section \<open>Instants\<close>

lemma digits_pad2: "n < 100 \<Longrightarrow> digits 2 (pad2 n) \<and> dec (pad2 n) = n"
  by (auto simp: digits_def pad2_def dec_def is_dig_def)

lemma length_pad2 [simp]: "length (pad2 n) = 2"
  by (simp add: pad2_def)

lemma digits_year4: "n < 10000 \<Longrightarrow> digits 4 (pad2 (n div 100) @ pad2 (n mod 100)) \<and> dec (pad2 (n div 100) @ pad2 (n mod 100)) = n"
proof -
  assume n: "n < 10000"
  then have 1: "n div 100 < 100" "n mod 100 < 100" by simp_all
  have "dec (pad2 a @ pad2 b) = dec (pad2 a) * 100 + dec (pad2 b)" for a b by (simp add: dec_def pad2_def)
  then show ?thesis using digits_pad2[OF 1(1)] digits_pad2[OF 1(2)] by (simp add: digits_def)
qed

lemma digits_pad3: "n < 1000 \<Longrightarrow> digits 3 (pad3 n) \<and> dec (pad3 n) = n"
proof -
  assume n: "n < 1000"
  have "dec (pad3 n) = n div 100 * 100 + dec (pad2 (n mod 100))" by (simp add: dec_def pad3_def pad2_def)
  moreover have "n div 100 < 10" using n by simp
  ultimately show ?thesis using digits_pad2[of "n mod 100"] by (auto simp: digits_def pad3_def is_dig_def)
qed

lemma isoOf_form:
  assumes "0 \<le> utc_year t" and "utc_year t \<le> 9999"
  defines "y \<equiv> pad2 (nat (utc_year t) div 100) @ pad2 (nat (utc_year t) mod 100)" and "mo \<equiv> pad2 (utc_month t + 1)"
    and "d \<equiv> pad2 (nat (utc_date t))" and "h \<equiv> pad2 (nat (utc_hours t))" and "mi \<equiv> pad2 (nat (utc_minutes t))"
    and "s \<equiv> pad2 (nat (utc_seconds t))" and "f \<equiv> pad3 (nat (utc_ms t))"
  shows "isoOf t = rfc_text y mo d 84 h mi s (46 # f) (Zulu 90)" and "rfc_form y mo d 84 h mi s (46 # f) (Zulu 90)"
    and "int (dec y) = utc_year t" and "dec mo = utc_month t + 1" and "int (dec d) = utc_date t" and "int (dec h) = utc_hours t"
    and "int (dec mi) = utc_minutes t" and "int (dec s) = utc_seconds t" and "int (dec f) = utc_ms t" and "digits 3 f"
proof -
  note ok = utc_fields_ok[of t, unfolded civil_ok_def clock_ok_def]
  have "utc_date t \<le> 31" using ok month_days_31[of "utc_month t" "utc_year t"] by linarith
  then have n: "nat (utc_year t) < 10000" "utc_month t + 1 < 100" "nat (utc_date t) < 100" "nat (utc_hours t) < 100"
    "nat (utc_minutes t) < 100" "nat (utc_seconds t) < 100" "nat (utc_ms t) < 1000" using ok assms(1,2) by (auto simp: nat_less_iff)
  note dg = digits_year4[OF n(1)] digits_pad2[OF n(2)] digits_pad2[OF n(3)] digits_pad2[OF n(4)]
    digits_pad2[OF n(5)] digits_pad2[OF n(6)] digits_pad3[OF n(7)]
  show "isoOf t = rfc_text y mo d 84 h mi s (46 # f) (Zulu 90)"
    by (simp add: isoOf_def rfc_text_def y_def mo_def d_def h_def mi_def s_def f_def)
  show "digits 3 f" using dg(7) by (simp add: f_def)
  then have "f \<noteq> []" "list_all is_dig f" by (auto simp: digits_def)
  then show "rfc_form y mo d 84 h mi s (46 # f) (Zulu 90)"
    using dg by (simp add: rfc_form_def frac_form_def y_def mo_def d_def h_def mi_def s_def)
  show "int (dec y) = utc_year t" "dec mo = utc_month t + 1" "int (dec d) = utc_date t" "int (dec h) = utc_hours t"
    "int (dec mi) = utc_minutes t" "int (dec s) = utc_seconds t" "int (dec f) = utc_ms t"
    using dg ok assms(1) by (simp_all add: y_def mo_def d_def h_def mi_def s_def f_def)
qed

text \<open>A text in the language's own form, with three digits of fraction and the letter Z.\<close>

lemma standard_text:
  assumes "rfc_form y mo d 84 h mi s (46 # f) (Zulu 90)" and "digits 3 f"
  shows "standard_form (rfc_text y mo d 84 h mi s (46 # f) (Zulu 90)) = Some (dec f, False)"
proof -
  let ?pre = "y @ 45 # mo @ 45 # d @ 84 # h @ 58 # mi @ 58 # s"
  let ?v = "?pre @ (46 # f) @ zone_text (Zulu 90)"
  have form: "digits 4 y" "digits 2 mo" "digits 2 d" "digits 2 h" "digits 2 mi" "digits 2 s" "frac_form (46 # f)"
    "zone_form (Zulu 90)" using assms(1) by (simp_all add: rfc_form_def)
  have v: "rfc_text y mo d 84 h mi s (46 # f) (Zulu 90) = ?v" by (simp add: rfc_text_def)
  have l: "length ?pre = 19" "length (?pre @ 46 # f) = 23" using form assms(2) by (simp_all add: digits_def)
  have "scanFrac ?v = Some (19 + length (46 # f))" by (rule scanFrac_text[OF l(1) form(7,8)])
  then have "scanFrac ?v = Some 23" using assms(2) by (simp add: digits_def)
  moreover have "at_is ?v 10 84"
    using at_is_mid[of "y @ 45 # mo @ 45 # d" 10 84] form by (simp add: digits_def)
  moreover have "at_is ?v 23 c \<longleftrightarrow> c = 90" for c using at_is_mid[OF l(2), of 90 "[]" c] by auto
  moreover have "digitsAt ?v 20 3 = Some (dec f)"
    using digitsAt_mid[of "?pre @ [46]" 20 3 f "[90]"] l(1) assms(2) by simp
  ultimately show ?thesis unfolding v by (simp add: standard_form_def)
qed

text \<open>C38: the round trip of an instant: what \<open>isoOf\<close> writes of an instant in the years 0 to 9999 is a valid
  date and time, and parsing it gives the instant back to the millisecond.\<close>

theorem rfc3339_round_trip:
  assumes "0 \<le> utc_year t" and "utc_year t \<le> 9999"
  shows "rfc_parse other (Str (isoOf t)) e = Inr (Some t)"
proof -
  note iso = isoOf_form[OF assms]
  note ok = utc_fields_ok[of t]
  have c: "calendar_ok (nat (utc_year t)) (utc_month t + 1) (nat (utc_date t))"
    unfolding calendar_civil using ok(1) assms(1) by (simp add: civil_ok_def)
  have sc: "scanDateTime (isoOf t) = Some \<lparr>sc_year = nat (utc_year t), sc_month = utc_month t + 1, sc_day = nat (utc_date t),
      sc_hour = nat (utc_hours t), sc_min = nat (utc_minutes t), sc_sec = nat (utc_seconds t), sc_offset = None\<rparr>"
    unfolding scanDateTime_iff using iso(1,2) iso(3,5,6,7,8)[symmetric] iso(4)
    by (metis nat_int zone_value.simps(1))
  then have "isValid (Str (isoOf t))"
    using c ok(2) by (auto simp: isValid_def calendar_ok_def clock_ok_def)
  moreover have "standard_form (isoOf t) = Some (nat (utc_ms t), False)"
    unfolding iso(1) standard_text[OF iso(2,10)] using iso(9)[symmetric] by simp
  moreover have "time_clip t = Some t"
  proof -
    have "\<bar>make_day (utc_year t) (int (utc_month t)) (utc_date t)\<bar> \<le> 3000000" by (rule year_range[OF assms ok(1)])
    then have "\<bar>t\<bar> \<le> 8640000000000000"
      using utc_compose[of t] clock_bounds[OF ok(2)] unfolding ms_per_day_def by linarith
    then show ?thesis by (simp add: time_clip_def)
  qed
  ultimately show ?thesis using sc ok utc_compose[of t] assms
    by (simp add: rfc_parse_def date_parse_def civil_ok_def clock_ok_def)
qed

theorem rfc3339_round_trip_witness: "rfc_parse (\<lambda>_. None) (Str (isoOf 0)) TypeErr = Inr (Some 0)"
  by (rule rfc3339_round_trip) (simp_all add: epoch_getters)

end
