(* ===== verification/Json.thy ===== *)
theory Json
  imports Dist_Names Ranges Utf8
begin

text \<open>
  lib/guard-json.js: the JSON reader of the toolkit.  The code keeps an index into the text; here every
  routine takes the rest of the text from that index and returns what it read with the rest after it.
  Messages are left out, so a failure needs no index.  An object is the list of its members in the order
  they were read (the language puts names that are array indices first; no reader in the model depends on
  that order).  The reader's loops and its descent recurse on fuel, and it starts with more than any text needs
  (\<open>json_terminates\<close> in Json\_Proofs).
\<close>

section \<open>Values\<close>

text \<open>A Number is an integer, or a fraction \<open>m / 2 ^ k\<close> in lowest terms; minus zero is zero, which nothing
  here tells from it.  \<open>JOther\<close> is any value JSON has no form for (undefined, a function, a class instance).\<close>

datatype json =
    JNull
  | JBool bool
  | JInt int
  | JFrac int nat
  | JStr jsstr
  | JArr "json list"
  | JObj "(jsstr \<times> json) list"
  | JOther

text \<open>\<open>value.name\<close>, \<open>None\<close> where there is no such member.\<close>

fun member :: "json \<Rightarrow> jsstr \<Rightarrow> json option" where
  "member (JObj ms) k = map_of ms k"
| "member _ k = None"

section \<open>Decimal to binary64\<close>

text \<open>\<open>Number(text)\<close> of a decimal literal (ECMA-262, 6.1.6.1 and 12.9.3): the nearest of the 64-bit values, the
  even one of two as near, \<open>None\<close> for an infinity.  The value is \<open>n / d\<close>; \<open>u\<close> is the weight of the last of
  its 53 bits.\<close>

fun bits_of :: "nat \<Rightarrow> nat" where
  "bits_of n = (if n = 0 then 0 else Suc (bits_of (n div 2)))"

declare bits_of.simps [simp del]

fun lowest :: "nat \<Rightarrow> nat \<Rightarrow> nat \<times> nat" where
  "lowest m 0 = (m, 0)"
| "lowest m (Suc k) = (if odd m then (m, Suc k) else lowest (m div 2) k)"

definition unit_exp :: "nat \<Rightarrow> nat \<Rightarrow> int" where
  "unit_exp n d =
     (let e = int (bits_of n) - int (bits_of d);
          below = (if 0 \<le> e then n < d * 2 ^ nat e else n * 2 ^ nat (- e) < d)
      in max (e - (if below then 1 else 0) - 52) (- 1074))"

definition nearest :: "nat \<Rightarrow> nat \<Rightarrow> nat" where
  "nearest num den =
     (let q = num div den; r = num mod den
      in if 2 * r > den \<or> (2 * r = den \<and> odd q) then q + 1 else q)"

definition to_double :: "bool \<Rightarrow> nat \<Rightarrow> nat \<Rightarrow> json option" where
  "to_double neg n d =
     (if n = 0 then Some (JInt 0)
      else
        let u = unit_exp n d;
            m = (if 0 \<le> u then nearest n (d * 2 ^ nat u) else nearest (n * 2 ^ nat (- u)) d);
            sg = (if neg then -1 else 1)
        in if 0 \<le> u then
             (if m * 2 ^ nat u \<ge> 2 ^ 1024 then None else Some (JInt (sg * int (m * 2 ^ nat u))))
           else
             (case lowest m (nat (- u)) of (m', k) \<Rightarrow>
                Some (if k = 0 then JInt (sg * int m') else JFrac (sg * int m') k)))"

section \<open>The reader\<close>

record json_spec =
  js_maxBytes :: js
  js_maxDepth :: js
  js_integersOnly :: bool
  js_exactIntegers :: bool
  js_exactIntegerMembers :: "jsstr list"
  js_badJson :: err
  js_tooDeep :: err
  js_duplicateMember :: err
  js_tooLarge :: err
  js_badInput :: err

definition is_ws :: "nat \<Rightarrow> bool" where
  "is_ws c \<longleftrightarrow> c = 0x20 \<or> c = 0x09 \<or> c = 0x0a \<or> c = 0x0d"

definition ws :: "jsstr \<Rightarrow> jsstr" where
  "ws rest = dropWhile is_ws rest"

text \<open>\<open>str[i] === c\<close>.\<close>

fun starts :: "nat \<Rightarrow> jsstr \<Rightarrow> bool" where
  "starts c [] = False"
| "starts c (x # xs) = (x = c)"

definition json_escape :: "nat \<Rightarrow> nat option" where
  "json_escape e =
     (if e = 0x22 then Some 0x22 else if e = 0x5c then Some 0x5c else if e = 0x2f then Some 0x2f
      else if e = 0x62 then Some 8 else if e = 0x66 then Some 12 else if e = 0x6e then Some 10
      else if e = 0x72 then Some 13 else if e = 0x74 then Some 9 else None)"

fun hex4 :: "nat \<Rightarrow> jsstr \<Rightarrow> nat option" where
  "hex4 cp [] = Some cp"
| "hex4 cp (c # cs) = (case hexNibble c of None \<Rightarrow> None | Some d \<Rightarrow> hex4 (cp * 16 + d) cs)"

text \<open>\<open>string\<close>, from behind the opening quote; \<open>s\<close> is what was read so far.\<close>

function jstring :: "err \<Rightarrow> jsstr \<Rightarrow> jsstr \<Rightarrow> (jsstr \<times> jsstr) res" where
  "jstring e s [] = Inl e"
| "jstring e s (c # cs) =
     (if c = 0x22 then Inr (s, cs)
      else if c = 0x5c then
        (case cs of
           [] \<Rightarrow> Inl e
         | x # ds \<Rightarrow>
             (case json_escape x of
                Some u \<Rightarrow> jstring e (s @ [u]) ds
              | None \<Rightarrow>
                  if x \<noteq> 0x75 then Inl e
                  else if length ds < 4 then Inl e
                  else (case hex4 0 (take 4 ds) of
                      None \<Rightarrow> Inl e
                    | Some cp \<Rightarrow> jstring e (s @ [cp]) (drop 4 ds))))
      else if c < 0x20 then Inl e
      else jstring e (s @ [c]) cs)"
  by pat_completeness auto

termination jstring
  by (relation "measure (\<lambda>(e, s, cs). length cs)") auto

section \<open>Numbers\<close>

record num_token =
  nt_neg :: bool
  nt_int :: jsstr
  nt_frac :: jsstr
  nt_exp :: int
  nt_notInteger :: bool

definition digit_code :: "nat \<Rightarrow> bool" where
  "digit_code c \<longleftrightarrow> 0x30 \<le> c \<and> c \<le> 0x39"

definition digits_value :: "jsstr \<Rightarrow> nat" where
  "digits_value ds = foldl (\<lambda>v c. v * 10 + (c - 0x30)) 0 ds"

definition scan_frac :: "err \<Rightarrow> jsstr \<Rightarrow> ((jsstr \<times> bool) \<times> jsstr) res" where
  "scan_frac e rest =
     (if starts 0x2e rest then
        let f = takeWhile digit_code (tl rest) in
        if f = [] then Inl e else Inr ((f, True), dropWhile digit_code (tl rest))
      else Inr (([], False), rest))"

definition scan_exp :: "err \<Rightarrow> jsstr \<Rightarrow> ((int \<times> bool) \<times> jsstr) res" where
  "scan_exp e rest =
     (if starts 0x65 rest \<or> starts 0x45 rest then
        let expNeg = starts 0x2d (tl rest);
            r = (if starts 0x2b (tl rest) \<or> expNeg then tl (tl rest) else tl rest);
            x = takeWhile digit_code r
        in if x = [] then Inl e
           else Inr ((if expNeg then - int (digits_value x) else int (digits_value x), True), dropWhile digit_code r)
      else Inr ((0, False), rest))"

definition scan_number :: "err \<Rightarrow> jsstr \<Rightarrow> (num_token \<times> jsstr) res" where
  "scan_number e rest =
     (let neg = starts 0x2d rest;
          r = (if neg then tl rest else rest);
          intDigits = takeWhile digit_code r
      in if intDigits = [] then Inl e
         else if length intDigits > 1 \<and> starts 0x30 intDigits then Inl e
         else bindR (scan_frac e (dropWhile digit_code r)) (\<lambda>((f, isFrac), r).
           bindR (scan_exp e r) (\<lambda>((x, isExp), r).
             Inr (\<lparr>nt_neg = neg, nt_int = intDigits, nt_frac = f, nt_exp = x, nt_notInteger = isFrac \<or> isExp\<rparr>, r))))"

definition token_value :: "num_token \<Rightarrow> json option" where
  "token_value t =
     (let v = digits_value (nt_int t @ nt_frac t); scale = nt_exp t - int (length (nt_frac t))
      in if 0 \<le> scale then to_double (nt_neg t) (v * 10 ^ nat scale) 1
         else to_double (nt_neg t) v (10 ^ nat (- scale)))"

text \<open>The rule for members a format reads as integers: the token's value is exactly an integer a double holds.
  \<open>True\<close> where the code goes on to convert it.\<close>

definition exact_ok :: "num_token \<Rightarrow> bool" where
  "exact_ok t =
     (let digits = nt_int t @ nt_frac t;
          scale = nt_exp t - int (length (nt_frac t));
          lead = length (takeWhile (\<lambda>c. c = 0x30) digits)
      in if lead = length digits then True
         else
           let trailingZeros = length (takeWhile (\<lambda>c. c = 0x30) (rev (drop lead digits)));
               sigCount = length digits - trailingZeros - lead;
               intWidth = int sigCount + scale + int trailingZeros
           in if scale < 0 \<and> - scale > int trailingZeros then False
              else if intWidth > 17 then False
              else int (digits_value (take sigCount (drop lead digits) @ replicate (nat (scale + int trailingZeros)) 0x30)) \<le> max_safe)"

definition jnumber :: "json_spec \<Rightarrow> jsstr option \<Rightarrow> jsstr \<Rightarrow> (json \<times> jsstr) res" where
  "jnumber spec currentMember rest =
     bindR (scan_number (js_badJson spec) rest) (\<lambda>(t, rest).
       if js_integersOnly spec \<and> nt_notInteger t then Inl (js_badJson spec)
       else
         let exactWanted = js_exactIntegers spec \<or>
               (case currentMember of None \<Rightarrow> False | Some k \<Rightarrow> k \<in> set (js_exactIntegerMembers spec))
         in if exactWanted \<and> \<not> exact_ok t then Inl (js_badJson spec)
            else (case token_value t of None \<Rightarrow> Inl (js_badJson spec) | Some v \<Rightarrow> Inr (v, rest)))"

section \<open>Values, objects and arrays\<close>

text \<open>One call of \<open>value\<close>, one turn of the endless loop of \<open>object\<close>, one turn of that of \<open>array\<close>, the last two
  entered with what was collected so far; \<open>rec\<close> is the reader they go on with.\<close>

datatype json_goal = Value "jsstr option" | Members "(jsstr \<times> json) list" | Elements "json list"

type_synonym json_rec = "json_goal \<Rightarrow> nat \<Rightarrow> jsstr \<Rightarrow> (json \<times> jsstr) res"

definition value_turn :: "json_rec \<Rightarrow> json_spec \<Rightarrow> nat \<Rightarrow> jsstr option \<Rightarrow> nat \<Rightarrow> jsstr \<Rightarrow> (json \<times> jsstr) res" where
  "value_turn rec spec maxDepth cur depth rest =
     (if depth > maxDepth then Inl (js_tooDeep spec)
      else case ws rest of
        [] \<Rightarrow> Inl (js_badJson spec)
      | c # cs \<Rightarrow>
          if c = 0x7b then
            (if starts 0x7d (ws cs) then Inr (JObj [], tl (ws cs)) else rec (Members []) depth (ws cs))
          else if c = 0x5b then
            (if starts 0x5d (ws cs) then Inr (JArr [], tl (ws cs)) else rec (Elements []) depth (ws cs))
          else if c = 0x22 then bindR (jstring (js_badJson spec) [] cs) (\<lambda>(s, r). Inr (JStr s, r))
          else if c = 0x2d \<or> digit_code c then jnumber spec cur (c # cs)
          else if take 4 (c # cs) = js_lit ''true'' then Inr (JBool True, drop 4 (c # cs))
          else if take 5 (c # cs) = js_lit ''false'' then Inr (JBool False, drop 5 (c # cs))
          else if take 4 (c # cs) = js_lit ''null'' then Inr (JNull, drop 4 (c # cs))
          else Inl (js_badJson spec))"

definition object_turn :: "json_rec \<Rightarrow> json_spec \<Rightarrow> (jsstr \<times> json) list \<Rightarrow> nat \<Rightarrow> jsstr \<Rightarrow> (json \<times> jsstr) res" where
  "object_turn rec spec out depth rest =
     (if \<not> starts 0x22 (ws rest) then Inl (js_badJson spec)
      else bindR (jstring (js_badJson spec) [] (tl (ws rest))) (\<lambda>(key, r).
        if key \<in> set (map fst out) then Inl (js_duplicateMember spec)
        else if \<not> starts 0x3a (ws r) then Inl (js_badJson spec)
        else bindR (rec (Value (Some key)) (depth + 1) (tl (ws r))) (\<lambda>(v, r).
          if starts 0x2c (ws r) then rec (Members (out @ [(key, v)])) depth (tl (ws r))
          else if starts 0x7d (ws r) then Inr (JObj (out @ [(key, v)]), tl (ws r))
          else Inl (js_badJson spec))))"

definition array_turn :: "json_rec \<Rightarrow> json_spec \<Rightarrow> json list \<Rightarrow> nat \<Rightarrow> jsstr \<Rightarrow> (json \<times> jsstr) res" where
  "array_turn rec spec out depth rest =
     bindR (rec (Value None) (depth + 1) rest) (\<lambda>(v, r).
       if starts 0x2c (ws r) then rec (Elements (out @ [v])) depth (tl (ws r))
       else if starts 0x5d (ws r) then Inr (JArr (out @ [v]), tl (ws r))
       else Inl (js_badJson spec))"

primrec jread :: "nat \<Rightarrow> json_spec \<Rightarrow> nat \<Rightarrow> json_goal \<Rightarrow> nat \<Rightarrow> jsstr \<Rightarrow> (json \<times> jsstr) res" where
  "jread 0 = (\<lambda>spec maxDepth goal depth rest. Inl OutOfFuel)"
| "jread (Suc fuel) = (\<lambda>spec maxDepth goal depth rest. case goal of
      Value cur \<Rightarrow> value_turn (jread fuel spec maxDepth) spec maxDepth cur depth rest
    | Members out \<Rightarrow> object_turn (jread fuel spec maxDepth) spec out depth rest
    | Elements out \<Rightarrow> array_turn (jread fuel spec maxDepth) spec out depth rest)"

text \<open>\<open>text.decode\<close> of lib/guard-text.js with the fatal UTF-8 decoder, and \<open>parse\<close>.\<close>

definition text_decode :: "js \<Rightarrow> nat \<Rightarrow> err \<Rightarrow> err \<Rightarrow> err \<Rightarrow> jsstr res" where
  "text_decode input maxBytes tooLarge badDecode badInput = (case input of
      Buf b \<Rightarrow> if length b > maxBytes then Inl tooLarge
               else (case utf8_decode b of None \<Rightarrow> Inl badDecode | Some s \<Rightarrow> Inr s)
    | Str s \<Rightarrow> if length (utf8_encode s) > maxBytes then Inl tooLarge else Inr s
    | _ \<Rightarrow> Inl badInput)"

definition json_fuel :: "jsstr \<Rightarrow> nat" where
  "json_fuel s = 2 * length s + 2"

definition json_parse :: "js \<Rightarrow> json_spec \<Rightarrow> json res" where
  "json_parse input spec =
     (if js_maxBytes spec = Undef \<or> js_maxBytes spec = Null \<or> js_maxDepth spec = Undef \<or> js_maxDepth spec = Null then Inl TypeErr
      else
        bindR (cap (js_maxBytes spec) 0 Undef Undef None) (\<lambda>maxBytes.
        bindR (depthCap (js_maxDepth spec) 0) (\<lambda>maxDepth.
        bindR (text_decode input (nat maxBytes) (js_tooLarge spec) (js_badJson spec) (js_badInput spec)) (\<lambda>str.
        bindR (jread (json_fuel str) spec (nat maxDepth) (Value None) 0 str) (\<lambda>(result, rest).
          if ws rest \<noteq> [] then Inl (js_badJson spec) else Inr result)))))"

end
