(* ===== verification/Tuf_Json.thy ===== *)
theory Tuf_Json
  imports Json Guard_List Limits
begin

text \<open>
  lib/tuf.js, the canonical form: the JSON encoding whose octets a signature of The Update Framework covers.
  It escapes two characters only, writes the members of an object in the order of their names' code points,
  has no form for a fraction, and refuses a string that UTF-8 cannot carry.  The code pushes fragments to a
  list and charges each to a budget; here the fragments are joined as they come.
\<close>

definition JSON_MAX_BYTES :: nat where "JSON_MAX_BYTES = 1024 * 1024"
definition JSON_MAX_DEPTH :: nat where "JSON_MAX_DEPTH = 32"

definition CANONICAL_MAX_DEPTH :: nat where "CANONICAL_MAX_DEPTH = JSON_MAX_DEPTH"

type_synonym canon_state = "jsstr \<times> budget_state"

definition emit :: "jsstr \<Rightarrow> canon_state \<Rightarrow> canon_state res" where
  "emit text st = (case st of (out, b) \<Rightarrow>
     (case spend (Num (int (length (utf8_encode text)))) b of
        (b', Inl e) \<Rightarrow> Inl e
      | (b', Inr _) \<Rightarrow> Inr (out @ text, b')))"

text \<open>The loop of \<open>_canonicalString\<close>; \<open>seg\<close> is the slice from \<open>start\<close> to the current index.\<close>

fun canonical_chars :: "jsstr \<Rightarrow> jsstr \<Rightarrow> canon_state \<Rightarrow> canon_state res" where
  "canonical_chars seg [] st = (if seg = [] then Inr st else emit seg st)"
| "canonical_chars seg (c # cs) st =
     (if c = 0x5c \<or> c = 0x22 then
        bindR (if seg = [] then Inr st else emit seg st) (\<lambda>st.
        bindR (emit [0x5c, c] st) (canonical_chars [] cs))
      else canonical_chars (seg @ [c]) cs st)"

definition canonicalString :: "jsstr \<Rightarrow> canon_state \<Rightarrow> canon_state res" where
  "canonicalString s st =
     bindR (assertWellFormedUtf16 s (TufE Tuf_bad_input)) (\<lambda>_.
     bindR (emit [0x22] st) (\<lambda>st.
     bindR (canonical_chars [] s st) (emit [0x22])))"

text \<open>\<open>codePointAt\<close> at every index.\<close>

fun points_at :: "jsstr \<Rightarrow> nat list" where
  "points_at [] = []"
| "points_at [u] = [u]"
| "points_at (u # v # r) =
     (if high_surr u \<and> low_surr v then 0x10000 + (u - 0xD800) * 0x400 + (v - 0xDC00) else u) # points_at (v # r)"

fun compare_points :: "nat list \<Rightarrow> nat list \<Rightarrow> int" where
  "compare_points [] [] = 0"
| "compare_points [] (y # ys) = -1"
| "compare_points (x # xs) [] = 1"
| "compare_points (x # xs) (y # ys) = (if x \<noteq> y then (if x < y then -1 else 1) else compare_points xs ys)"

definition byCodePoint :: "jsstr \<Rightarrow> jsstr \<Rightarrow> int" where
  "byCodePoint a b = compare_points (points_at a) (points_at b)"

text \<open>\<open>value.toString(10)\<close> of an integer.\<close>

definition int_text :: "int \<Rightarrow> jsstr" where
  "int_text i = (if i < 0 then 0x2d # digits_of (nat (- i)) else digits_of (nat i))"

text \<open>The loop over the elements of an array or the names of an object.\<close>

fun emit_all :: "('a \<Rightarrow> canon_state \<Rightarrow> canon_state res) \<Rightarrow> bool \<Rightarrow> 'a list \<Rightarrow> canon_state \<Rightarrow> canon_state res" where
  "emit_all f first [] st = Inr st"
| "emit_all f first (x # xs) st =
     bindR (if first then Inr st else emit [0x2c] st) (\<lambda>st.
     bindR (f x st) (emit_all f False xs))"

text \<open>\<open>_canonical\<close>, by the levels that are left.\<close>

primrec canonical :: "nat \<Rightarrow> json \<Rightarrow> canon_state \<Rightarrow> canon_state res" where
  "canonical 0 = (\<lambda>v st. Inl (TufE Tuf_too_deep))"
| "canonical (Suc n) = (\<lambda>v st. case v of
      JNull \<Rightarrow> emit (js_lit ''null'') st
    | JBool b \<Rightarrow> emit (if b then js_lit ''true'' else js_lit ''false'') st
    | JStr s \<Rightarrow> canonicalString s st
    | JInt i \<Rightarrow> if \<not> is_safe_integer i then Inl (TufE Tuf_bad_input) else emit (int_text i) st
    | JFrac m k \<Rightarrow> Inl (TufE Tuf_bad_input)
    | JArr xs \<Rightarrow>
        bindR (emit [0x5b] st) (\<lambda>st.
        bindR (emit_all (canonical n) True xs st) (emit [0x5d]))
    | JObj ms \<Rightarrow>
        bindR (emit [0x7b] st) (\<lambda>st.
        bindR (emit_all (\<lambda>k st.
            bindR (canonicalString k st) (\<lambda>st.
            bindR (emit [0x3a] st) (canonical n (the (map_of ms k))))) True
          (sortedCopy byCodePoint (map fst ms)) st) (emit [0x7d]))
    | JOther \<Rightarrow> Inl (TufE Tuf_bad_input))"

definition canonicalJson :: "json \<Rightarrow> bytes res" where
  "canonicalJson v =
     bindR (budget (Num (int JSON_MAX_BYTES))) (\<lambda>b.
     (case canonical (Suc CANONICAL_MAX_DEPTH) v ([], b) of
        Inl e \<Rightarrow> Inl (if e = BudgetExceeded then TufE Tuf_too_large else e)
      | Inr (out, _) \<Rightarrow> Inr (utf8_encode out)))"

end
