(* ===== verification/Json_Proofs.thy ===== *)
theory Json_Proofs
  imports Json
begin

text \<open>
  The JSON reader always ends, consumes what it reads, and returns values with no repeated member and no
  more nesting than its cap; numbers that are integers are read exactly.
\<close>

section \<open>What is consumed\<close>

lemma ws_le: "length (ws s) \<le> length s"
  by (simp add: ws_def length_dropWhile_le)

lemma starts_tl: "starts c s \<Longrightarrow> length (tl s) < length s"
  by (cases s) auto

lemma starts_Cons: "starts c s \<longleftrightarrow> (\<exists>r. s = c # r)"
  by (cases s) auto

lemma ws_step: "starts c (ws s) \<Longrightarrow> length (tl (ws s)) < length s"
  using starts_tl[of c "ws s"] ws_le[of s] by simp

lemma jstring_shorter: "jstring e s cs = Inr (t, r) \<Longrightarrow> length r < length cs"
proof (induction "length cs" arbitrary: s cs rule: less_induct)
  case less
  show ?case
  proof (cases cs)
    case (Cons c ds)
    have IH: "jstring e s' ds' = Inr (t, r) \<Longrightarrow> length ds' \<le> length ds \<Longrightarrow> length r < length cs" for s' ds'
      using less.hyps[of ds' s'] by (simp add: Cons)
    show ?thesis using less.prems[unfolded Cons jstring.simps(2)] IH[of _ ds] IH[of _ "tl ds"] IH[of _ "drop 4 (tl ds)"]
      by (auto simp: Cons simp del: jstring.simps split: if_splits list.splits option.splits)
  qed (use less.prems in simp)
qed

lemma dropWhile_step: "takeWhile p s \<noteq> [] \<Longrightarrow> length (dropWhile p s) < length s"
  by (cases s) (auto simp: length_dropWhile_le less_Suc_eq_le split: if_splits)

lemma scan_frac_le: "scan_frac e s = Inr (x, r) \<Longrightarrow> length r \<le> length s"
  using dropWhile_step[of digit_code "tl s"] by (auto simp: scan_frac_def Let_def split: if_splits)

lemma scan_exp_le: "scan_exp e s = Inr (x, r) \<Longrightarrow> length r \<le> length s"
proof -
  assume a: "scan_exp e s = Inr (x, r)"
  have "length (dropWhile digit_code (tl (tl s))) \<le> length s" "length (dropWhile digit_code (tl s)) \<le> length s"
    using length_dropWhile_le[of digit_code "tl (tl s)"] length_dropWhile_le[of digit_code "tl s"] by simp_all
  then show ?thesis using a by (auto simp: scan_exp_def Let_def split: if_splits)
qed

lemma scan_number_shorter: "scan_number e s = Inr (t, r) \<Longrightarrow> length r < length s"
proof -
  assume a: "scan_number e s = Inr (t, r)"
  define u where "u = (if starts 0x2d s then tl s else s)"
  obtain f q x where "takeWhile digit_code u \<noteq> []" "scan_frac e (dropWhile digit_code u) = Inr (f, q)" "scan_exp e q = Inr (x, r)"
    using a by (auto simp: scan_number_def u_def Let_def res_simps split: if_splits prod.splits)
  then have "length r < length u" using scan_frac_le scan_exp_le dropWhile_step[of digit_code u] by fastforce
  moreover have "length u \<le> length s" by (simp add: u_def)
  ultimately show ?thesis by linarith
qed

lemma jnumber_shorter: "jnumber spec cur s = Inr (v, r) \<Longrightarrow> length r < length s"
  by (auto simp: jnumber_def res_simps Let_def dest: scan_number_shorter split: if_splits option.splits)

lemma jread_shorter: "jread n spec md goal d s = Inr (v, r) \<Longrightarrow> length r < length s"
proof (induction n arbitrary: goal d s v r)
  case (Suc n)
  note IH = Suc.IH
  show ?case
  proof (cases goal)
    case (Value cur)
    with Suc.prems have t: "value_turn (jread n spec md) spec md cur d s = Inr (v, r)" by simp
    then obtain c cs where cs: "ws s = c # cs" by (auto simp: value_turn_def split: if_splits list.splits)
    have l: "length cs < length s" using cs ws_le[of s] by simp
    have "length (ws cs) < length s" using ws_le[of cs] l by linarith
    moreover have "length (tl (ws cs)) < length s" using calculation by simp
    moreover have "jread n spec md g d (ws cs) = Inr (v, r) \<Longrightarrow> length r < length s" for g
      using IH calculation(1) order.strict_trans by blast
    moreover have "jstring e [] cs = Inr (t, r) \<Longrightarrow> length r < length s" for e t
      using jstring_shorter l order.strict_trans by blast
    moreover have "jnumber spec cur (c # cs) = Inr (v, r) \<Longrightarrow> length r < length s"
      using jnumber_shorter[of spec cur "c # cs"] cs ws_le[of s] by fastforce
    ultimately show ?thesis
      using t l by (auto simp: value_turn_def cs res_simps split: if_splits)
  next
    case (Members out)
    with Suc.prems obtain key r1 v1 r2 where q: "starts 0x22 (ws s)" "jstring (js_badJson spec) [] (tl (ws s)) = Inr (key, r1)"
      "starts 0x3a (ws r1)" "jread n spec md (Value (Some key)) (d + 1) (tl (ws r1)) = Inr (v1, r2)"
      and z: "(starts 0x2c (ws r2) \<and> jread n spec md (Members (out @ [(key, v1)])) d (tl (ws r2)) = Inr (v, r)) \<or>
        (starts 0x7d (ws r2) \<and> r = tl (ws r2))"
      by (auto simp: object_turn_def res_simps split: if_splits)
    have "length r2 < length s"
      using ws_step[OF q(1)] jstring_shorter[OF q(2)] ws_step[OF q(3)] IH[OF q(4)] by linarith
    then show ?thesis using z IH ws_step by (metis order.strict_trans)
  next
    case (Elements out)
    with Suc.prems obtain v1 r2 where q: "jread n spec md (Value None) (d + 1) s = Inr (v1, r2)"
      and z: "(starts 0x2c (ws r2) \<and> jread n spec md (Elements (out @ [v1])) d (tl (ws r2)) = Inr (v, r)) \<or>
        (starts 0x5d (ws r2) \<and> r = tl (ws r2))"
      by (auto simp: array_turn_def res_simps split: if_splits)
    show ?thesis using z IH ws_step IH[OF q] by (metis order.strict_trans)
  qed
qed simp

section \<open>The reader ends\<close>

definition spec_ok :: "json_spec \<Rightarrow> bool" where
  "spec_ok spec \<longleftrightarrow> OutOfFuel \<notin> {js_badJson spec, js_tooDeep spec, js_duplicateMember spec, js_tooLarge spec, js_badInput spec}"

fun fuel_for :: "json_goal \<Rightarrow> nat \<Rightarrow> nat" where
  "fuel_for (Value cur) n = 2 * n + 1"
| "fuel_for (Members out) n = 2 * n + 2"
| "fuel_for (Elements out) n = 2 * n + 2"

lemma jstring_neq: "e \<noteq> x \<Longrightarrow> jstring e s cs \<noteq> Inl x"
  by (induction e s cs rule: jstring.induct) (auto split: list.splits option.splits)

lemma scan_number_neq: "e \<noteq> x \<Longrightarrow> scan_number e s \<noteq> Inl x"
  by (auto simp: scan_number_def scan_frac_def scan_exp_def Let_def res_simps split: if_splits)

lemma jnumber_neq: "js_badJson spec \<noteq> x \<Longrightarrow> jnumber spec cur s \<noteq> Inl x"
  by (auto simp: jnumber_def res_simps Let_def scan_number_neq split: if_splits option.splits)

lemma jread_ends: "spec_ok spec \<Longrightarrow> fuel_for goal (length s) \<le> n \<Longrightarrow> jread n spec md goal d s \<noteq> Inl OutOfFuel"
proof (induction n arbitrary: goal d s)
  case 0
  then show ?case by (cases goal) auto
next
  case (Suc n)
  have e: "js_badJson spec \<noteq> OutOfFuel" "js_tooDeep spec \<noteq> OutOfFuel" "js_duplicateMember spec \<noteq> OutOfFuel"
    using Suc.prems(1) by (auto simp: spec_ok_def)
  note IH = Suc.IH[OF Suc.prems(1)]
  have step: "jread n spec md goal' d' s' \<noteq> Inl OutOfFuel" if "length s' < length s" "goal = Value cur" for goal' d' s' cur
    using that Suc.prems(2) by (intro IH) (cases goal'; simp)
  have step2: "jread n spec md goal' d' s' \<noteq> Inl OutOfFuel" if "length s' < length s" for goal' d' s'
    using that Suc.prems(2) by (intro IH) (cases goal; cases goal'; simp)
  show ?case
  proof (cases goal)
    case (Value cur)
    have "length (ws cs) < length s" if "ws s = c # cs" for c cs using that ws_le[of s] ws_le[of cs] by simp
    then show ?thesis using e step2 jstring_neq jnumber_neq
      by (auto simp: Value value_turn_def res_simps split: list.splits)
  next
    case (Members out)
    show ?thesis unfolding Members jread.simps json_goal.case object_turn_def
      by (intro total_intros) (use e jstring_neq in \<open>auto dest!: ws_step jstring_shorter jread_shorter intro!: step2\<close>)
  next
    case (Elements out)
    have "jread n spec md (Value None) (d + 1) s \<noteq> Inl OutOfFuel" using Suc.prems(2) by (intro IH) (simp add: Elements)
    then show ?thesis unfolding Elements jread.simps json_goal.case array_turn_def
      by (intro total_intros) (use e in \<open>auto dest!: ws_step jread_shorter intro!: step2\<close>)
  qed
qed

text \<open>The JSON reader ends on every input: the fuel it starts with is enough for any text.\<close>

theorem json_terminates:
  assumes "spec_ok spec"
  shows "json_parse input spec \<noteq> Inl OutOfFuel"
proof -
  have "jread (json_fuel str) spec md (Value None) 0 str \<noteq> Inl OutOfFuel" for str md
    by (rule jread_ends[OF assms]) (simp add: json_fuel_def)
  then show ?thesis using assms
    by (auto simp: json_parse_def res_simps text_decode_def depthCap_def cap_def spec_ok_def split: js.splits if_splits option.splits)
qed

text \<open>A caller that allows eight octets and two levels, and its reading of an array.\<close>

definition sample_spec :: json_spec where
  "sample_spec = \<lparr>js_maxBytes = Num 8, js_maxDepth = Num 2, js_integersOnly = True, js_exactIntegers = False,
     js_exactIntegerMembers = [], js_badJson = TypeErr, js_tooDeep = TypeErr, js_duplicateMember = TypeErr,
     js_tooLarge = RangeErr, js_badInput = TypeErr\<rparr>"

theorem json_terminates_witness: "json_parse (Str [0x5b]) sample_spec \<noteq> Inl OutOfFuel"
  by (rule json_terminates) (simp add: spec_ok_def sample_spec_def)

section \<open>What is read is well formed\<close>

text \<open>At most \<open>n\<close> levels, no repeated member, no value without a form, and with \<open>ints\<close> no fraction.\<close>

primrec well_read :: "nat \<Rightarrow> bool \<Rightarrow> json \<Rightarrow> bool" where
  "well_read 0 ints v = False"
| "well_read (Suc n) ints v = (case v of
      JArr xs \<Rightarrow> \<forall>x \<in> set xs. well_read n ints x
    | JObj ms \<Rightarrow> distinct (map fst ms) \<and> (\<forall>m \<in> set ms. well_read n ints (snd m))
    | JFrac m k \<Rightarrow> \<not> ints
    | JOther \<Rightarrow> False
    | _ \<Rightarrow> True)"

text \<open>An integer below \<open>2 ^ 53\<close> is a double as it stands.\<close>

lemma bits_of_bound: "n < 2 ^ bits_of n"
proof (induction n rule: bits_of.induct)
  case (1 n)
  show ?case
  proof (cases "n = 0")
    case False
    have "n < 2 * (n div 2 + 1)" by presburger
    also have "\<dots> \<le> 2 * 2 ^ bits_of (n div 2)" using 1[OF False] by simp
    finally show ?thesis using False by (subst bits_of.simps) simp
  qed (simp add: bits_of.simps)
qed

lemma bits_of_least: "n < 2 ^ k \<Longrightarrow> bits_of n \<le> k"
proof (induction n arbitrary: k rule: bits_of.induct)
  case (1 n)
  show ?case
  proof (cases "n = 0")
    case False
    then obtain j where k: "k = Suc j" using 1(2) by (cases k) auto
    have "n div 2 < 2 ^ j" using 1(2) by (simp add: k less_mult_imp_div_less mult.commute)
    then show ?thesis using 1(1)[OF False, of j] False by (subst bits_of.simps) (simp add: k)
  qed (simp add: bits_of.simps)
qed

lemma lowest_power: "lowest (m * 2 ^ k) k = (m, 0)"
  by (induction k) (simp_all add: mult.assoc)

lemma nearest_exact: "0 < d \<Longrightarrow> nearest (q * d) d = q"
  by (simp add: nearest_def Let_def)

lemma double_int: "n < 2 ^ 53 \<Longrightarrow> to_double neg n 1 = Some (JInt (if neg then - int n else int n))"
proof (cases "n = 0")
  case False
  assume n: "n < 2 ^ 53"
  have b1: "bits_of 1 = 1" by (simp add: bits_of.simps)
  have b: "bits_of n \<le> 53" by (rule bits_of_least[OF n])
  have b0: "0 < bits_of n" using False by (subst bits_of.simps) simp
  have e: "0 \<le> int (bits_of n) - 1" "int (bits_of n) - 1 \<le> 52" using b b0 by simp_all
  have u: "unit_exp n 1 \<le> 0" using e unfolding unit_exp_def Let_def b1 by simp
  let ?k = "nat (- unit_exp n 1)"
  show ?thesis
  proof (cases "unit_exp n 1 = 0")
    case True
    have "n < 9007199254740992" using n by simp
    moreover have "(9007199254740992 :: nat) \<le> 2 ^ 1024"
    proof -
      have "(2::nat) ^ 53 \<le> 2 ^ 1024" by (rule power_increasing) simp_all
      then show ?thesis by simp
    qed
    ultimately have "\<not> n \<ge> 2 ^ 1024" by linarith
    then show ?thesis using False True nearest_exact[of 1 n] unfolding to_double_def Let_def by simp
  next
    case f: False
    have "nearest (n * 2 ^ ?k) 1 = n * 2 ^ ?k" using nearest_exact[of 1] by simp
    then show ?thesis using False f u unfolding to_double_def Let_def by (simp add: lowest_power)
  qed
qed (simp add: to_double_def)

lemma to_double_number: "to_double neg n d = Some v \<Longrightarrow> (\<exists>i. v = JInt i) \<or> (\<exists>m k. v = JFrac m k)"
  by (auto simp: to_double_def Let_def split: if_splits prod.splits)

text \<open>A whole number is an integer, however large.\<close>

lemma lowest_dvd: "2 ^ k dvd m \<Longrightarrow> snd (lowest m k) = 0"
  by (induction m k rule: lowest.induct) (auto elim!: dvdE)

lemma double_whole: "to_double neg n 1 = Some v \<Longrightarrow> \<exists>i. v = JInt i"
proof -
  assume a: "to_double neg n 1 = Some v"
  let ?k = "nat (- unit_exp n 1)"
  have "nearest (n * 2 ^ ?k) 1 = n * 2 ^ ?k" using nearest_exact[of 1] by simp
  then have "to_double neg n 1 = Some v \<Longrightarrow> unit_exp n 1 < 0 \<Longrightarrow> ?thesis"
    using lowest_power[of n ?k] by (auto simp: to_double_def Let_def split: if_splits)
  then show ?thesis using a by (cases "unit_exp n 1 < 0") (auto simp: to_double_def Let_def split: if_splits)
qed

lemma scan_whole:
  assumes "scan_number e s = Inr (t, r)" and "\<not> nt_notInteger t"
  shows "nt_frac t = []" and "nt_exp t = 0"
  using assms by (auto simp: scan_number_def scan_frac_def scan_exp_def Let_def res_simps split: if_splits)

lemma jnumber_form:
  assumes "jnumber spec cur s = Inr (v, r)"
  shows "(\<exists>i. v = JInt i) \<or> (\<not> js_integersOnly spec \<and> (\<exists>m k. v = JFrac m k))"
proof -
  obtain t where t: "scan_number (js_badJson spec) s = Inr (t, r)" "token_value t = Some v"
    "js_integersOnly spec \<longrightarrow> \<not> nt_notInteger t"
    using assms by (auto simp: jnumber_def res_simps Let_def split: if_splits option.splits)
  show ?thesis
  proof (cases "js_integersOnly spec")
    case True
    then have "to_double (nt_neg t) (digits_value (nt_int t)) 1 = Some v"
      using t scan_whole[OF t(1)] by (simp add: token_value_def)
    then show ?thesis using double_whole by blast
  next
    case False
    then show ?thesis using t(2) by (auto simp: token_value_def Let_def dest!: to_double_number split: if_splits)
  qed
qed

fun goal_ok :: "nat \<Rightarrow> bool \<Rightarrow> json_goal \<Rightarrow> bool" where
  "goal_ok n ints (Value cur) = True"
| "goal_ok n ints (Members out) = (distinct (map fst out) \<and> (\<forall>m \<in> set out. well_read n ints (snd m)))"
| "goal_ok n ints (Elements out) = (\<forall>x \<in> set out. well_read n ints x)"

lemma jread_well:
  "jread n spec md goal d s = Inr (v, r) \<Longrightarrow> d \<le> md \<or> (\<exists>cur. goal = Value cur) \<Longrightarrow>
     goal_ok (md - d) (js_integersOnly spec) goal \<Longrightarrow> well_read (Suc md - d) (js_integersOnly spec) v"
proof (induction n arbitrary: goal d s v r)
  case (Suc n)
  let ?i = "js_integersOnly spec"
  show ?case
  proof (cases goal)
    case (Value cur)
    with Suc.prems have t: "value_turn (jread n spec md) spec md cur d s = Inr (v, r)" by simp
    then have d: "d \<le> md" by (auto simp: value_turn_def split: if_splits)
    then have sd: "Suc md - d = Suc (md - d)" by simp
    have "jread n spec md (Members []) d s' = Inr (v, r) \<Longrightarrow> well_read (Suc md - d) ?i v" for s'
      using Suc.IH[of "Members []"] d by simp
    moreover have "jread n spec md (Elements []) d s' = Inr (v, r) \<Longrightarrow> well_read (Suc md - d) ?i v" for s'
      using Suc.IH[of "Elements []"] d by simp
    moreover have "jnumber spec cur s' = Inr (v, r) \<Longrightarrow> well_read (Suc md - d) ?i v" for s'
      using jnumber_form by (fastforce simp: sd)
    ultimately show ?thesis using t
      by (auto simp: value_turn_def res_simps split: if_splits list.splits) (auto simp: sd)
  next
    case (Members out)
    then have d: "d \<le> md" using Suc.prems(2) by simp
    then have sd: "Suc md - d = Suc (md - d)" by simp
    have out: "distinct (map fst out)" "\<forall>m \<in> set out. well_read (md - d) ?i (snd m)" using Suc.prems(3) Members by simp_all
    from Suc.prems(1) Members obtain key r1 v1 r2 where q: "key \<notin> set (map fst out)"
      "jread n spec md (Value (Some key)) (d + 1) (tl (ws r1)) = Inr (v1, r2)"
      and z: "jread n spec md (Members (out @ [(key, v1)])) d (tl (ws r2)) = Inr (v, r) \<or> v = JObj (out @ [(key, v1)])"
      by (auto simp: object_turn_def res_simps split: if_splits)
    have "well_read (Suc md - (d + 1)) ?i v1" by (rule Suc.IH[OF q(2)]) auto
    then have v1: "well_read (md - d) ?i v1" by simp
    have ok: "goal_ok (md - d) ?i (Members (out @ [(key, v1)]))" using out q(1) v1 by auto
    from z show ?thesis
    proof
      assume "jread n spec md (Members (out @ [(key, v1)])) d (tl (ws r2)) = Inr (v, r)"
      then show ?thesis by (rule Suc.IH) (use d ok in auto)
    next
      assume "v = JObj (out @ [(key, v1)])"
      then show ?thesis using ok by (auto simp: sd)
    qed
  next
    case (Elements out)
    then have d: "d \<le> md" using Suc.prems(2) by simp
    then have sd: "Suc md - d = Suc (md - d)" by simp
    from Suc.prems(1) Elements obtain v1 r2 where q: "jread n spec md (Value None) (d + 1) s = Inr (v1, r2)"
      and z: "jread n spec md (Elements (out @ [v1])) d (tl (ws r2)) = Inr (v, r) \<or> v = JArr (out @ [v1])"
      by (auto simp: array_turn_def res_simps split: if_splits)
    have "well_read (Suc md - (d + 1)) ?i v1" by (rule Suc.IH[OF q]) auto
    then have ok: "goal_ok (md - d) ?i (Elements (out @ [v1]))" using Suc.prems(3) Elements by auto
    from z show ?thesis
    proof
      assume "jread n spec md (Elements (out @ [v1])) d (tl (ws r2)) = Inr (v, r)"
      then show ?thesis by (rule Suc.IH) (use d ok in auto)
    next
      assume "v = JArr (out @ [v1])"
      then show ?thesis using ok by (auto simp: sd)
    qed
  qed
qed simp

text \<open>C34: what the JSON reader returns is well formed: no object has a member twice, nothing is nested deeper than
  the cap the caller gave (at most 256), and a caller that asked for integers gets no fraction.\<close>

theorem json_well_formed:
  assumes "json_parse input spec = Inr v"
  shows "\<exists>d. js_maxDepth spec = Num d \<and> d \<le> int MAX_DECODE_DEPTH_CEILING \<and> well_read (Suc (nat d)) (js_integersOnly spec) v"
proof -
  from assms obtain d str rest where d: "depthCap (js_maxDepth spec) 0 = Inr d" "js_maxDepth spec \<noteq> Undef"
    and r: "jread (json_fuel str) spec (nat d) (Value None) 0 str = Inr (v, rest)"
    by (auto simp: json_parse_def res_simps split: if_splits)
  have "well_read (Suc (nat d)) (js_integersOnly spec) v" using jread_well[OF r] by simp
  moreover have "js_maxDepth spec = Num d" "d \<le> int MAX_DECODE_DEPTH_CEILING"
    using d by (auto simp: depthCap_def cap_def res_simps split: if_splits js.splits)
  ultimately show ?thesis by blast
qed

lemma jread_numeral: "jread (numeral k) spec md goal d s = (case goal of
    Value cur \<Rightarrow> value_turn (jread (pred_numeral k) spec md) spec md cur d s
  | Members out \<Rightarrow> object_turn (jread (pred_numeral k) spec md) spec out d s
  | Elements out \<Rightarrow> array_turn (jread (pred_numeral k) spec md) spec out d s)"
  by (simp add: numeral_eq_Suc split: json_goal.split)

lemma sample_reads: "json_parse (Str [0x5b, 0x6e, 0x75, 0x6c, 0x6c, 0x5d]) sample_spec = Inr (JArr [JNull])"
  by (simp add: json_parse_def sample_spec_def cap_def depthCap_def MAX_DECODE_DEPTH_CEILING_def text_decode_def
    utf8_encode_def utf8_char_def high_surr_def low_surr_def json_fuel_def value_turn_def array_turn_def ws_def is_ws_def
    digit_code_def js_lit_def jread_numeral del: jread.simps)

theorem json_well_formed_witness: "\<exists>d. js_maxDepth sample_spec = Num d \<and> well_read (Suc (nat d)) True (JArr [JNull])"
  using json_well_formed[OF sample_reads] by (auto simp: sample_spec_def)

end
