(* ===== verification/Canonical_Text.thy ===== *)
theory Canonical_Text
  imports Tuf_Json Json_Proofs
begin

text \<open>
  The canonical form as a text: \<open>canon_text\<close> is what the encoder of Tuf\_Json writes where it writes anything,
  without its budget (\<open>canonicalJson_text\<close>).
\<close>

section \<open>Texts that may be missing\<close>

definition cat :: "jsstr option \<Rightarrow> jsstr option \<Rightarrow> jsstr option" where
  "cat t u = (case t of None \<Rightarrow> None | Some x \<Rightarrow> (case u of None \<Rightarrow> None | Some y \<Rightarrow> Some (x @ y)))"

lemma cat_Some: "cat t u = Some z \<longleftrightarrow> (\<exists>x y. t = Some x \<and> u = Some y \<and> z = x @ y)"
  by (auto simp: cat_def split: option.splits)

fun joined :: "bool \<Rightarrow> jsstr option list \<Rightarrow> jsstr option" where
  "joined first [] = Some []"
| "joined first (t # ts) = cat (if first then Some [] else Some [0x2c]) (cat t (joined False ts))"

definition esc :: "nat \<Rightarrow> jsstr" where
  "esc c = (if c = 0x5c \<or> c = 0x22 then [0x5c, c] else [c])"

definition quoted :: "jsstr \<Rightarrow> jsstr option" where
  "quoted s = (if code_points s = None then None else Some (0x22 # concat (map esc s) @ [0x22]))"

primrec canon_text :: "nat \<Rightarrow> json \<Rightarrow> jsstr option" where
  "canon_text 0 = (\<lambda>v. None)"
| "canon_text (Suc n) = (\<lambda>v. case v of
      JNull \<Rightarrow> Some (js_lit ''null'')
    | JBool b \<Rightarrow> Some (if b then js_lit ''true'' else js_lit ''false'')
    | JStr s \<Rightarrow> quoted s
    | JInt i \<Rightarrow> if is_safe_integer i then Some (int_text i) else None
    | JFrac m k \<Rightarrow> None
    | JArr xs \<Rightarrow> cat (Some [0x5b]) (cat (joined True (map (canon_text n) xs)) (Some [0x5d]))
    | JObj ms \<Rightarrow> cat (Some [0x7b]) (cat (joined True (map (\<lambda>k. cat (quoted k) (cat (Some [0x3a]) (canon_text n (the (map_of ms k)))))
        (sortedCopy byCodePoint (map fst ms)))) (Some [0x7d]))
    | JOther \<Rightarrow> None)"

section \<open>Lengths\<close>

abbreviation plain :: "nat \<Rightarrow> bool" where
  "plain c \<equiv> \<not> high_surr c \<and> \<not> low_surr c"

lemma code_points_app: "code_points xs = Some cs \<Longrightarrow> code_points (xs @ ys) = map_option ((@) cs) (code_points ys)"
proof (induction xs arbitrary: cs rule: code_points.induct)
  case 1
  then show ?case by (cases "code_points ys") auto
next
  case (2 u us)
  show ?case
  proof (cases "high_surr u")
    case True
    with 2(3) obtain v vs ds where us: "us = v # vs" "low_surr v" "code_points vs = Some ds"
      "cs = (0x10000 + (u - 0xD800) * 0x400 + (v - 0xDC00)) # ds" by (cases us) (auto split: if_splits)
    from 2(1)[OF True us(1,2,3)] show ?thesis using True us by (cases "code_points ys") simp_all
  next
    case False
    with 2(3) obtain ds where us: "\<not> low_surr u" "code_points us = Some ds" "cs = u # ds" by (auto split: if_splits)
    from 2(2)[OF False us(1,2)] show ?thesis using False us by (cases "code_points ys") simp_all
  qed
qed

lemma code_points_append: "code_points xs \<noteq> None \<Longrightarrow> code_points (xs @ ys) = None \<longleftrightarrow> code_points ys = None"
  using code_points_app by fastforce

lemma code_points_prefix: "plain c \<Longrightarrow> code_points (xs @ c # ys) = Some zs \<Longrightarrow> \<exists>cs. code_points xs = Some cs"
proof (induction xs arbitrary: zs rule: code_points.induct)
  case (2 u us)
  show ?case
  proof (cases "high_surr u")
    case True
    with 2(3,4) obtain v vs where us: "us = v # vs" "low_surr v" "code_points (vs @ c # ys) \<noteq> None"
      by (cases us) (auto split: if_splits)
    with 2(1)[OF True us(1,2) 2(3)] show ?thesis using True by auto
  next
    case False
    with 2(4) obtain ds where "\<not> low_surr u" "code_points (us @ c # ys) = Some ds" by (auto split: if_splits)
    with 2(2)[OF False _ 2(3)] False show ?thesis by auto
  qed
qed simp

lemma code_points_around: "plain c \<Longrightarrow> code_points (xs @ c # ys) \<noteq> None \<Longrightarrow> code_points xs \<noteq> None \<and> code_points ys \<noteq> None"
  using code_points_prefix[of c xs ys] code_points_append[of xs "c # ys"] by fastforce

lemma lossy_append: "code_points xs = Some cs \<Longrightarrow> lossy_points (xs @ ys) = cs @ lossy_points ys"
proof (induction xs arbitrary: cs rule: code_points.induct)
  case (2 u us)
  show ?case
  proof (cases "high_surr u")
    case True
    with 2(3) obtain v vs ds where us: "us = v # vs" "low_surr v" "code_points vs = Some ds"
      "cs = (0x10000 + (u - 0xD800) * 0x400 + (v - 0xDC00)) # ds" by (cases us) (auto split: if_splits)
    from 2(1)[OF True us(1,2,3)] show ?thesis using True us by simp
  next
    case False
    with 2(3) obtain ds where us: "\<not> low_surr u" "code_points us = Some ds" "cs = u # ds" by (auto split: if_splits)
    from 2(2)[OF False us(1,2)] show ?thesis using False us by simp
  qed
qed simp

lemma utf8_append: "code_points xs \<noteq> None \<Longrightarrow> utf8_encode (xs @ ys) = utf8_encode xs @ utf8_encode ys"
  by (auto simp: utf8_encode_def lossy_append lossy_code_points)

section \<open>The encoder emits the text\<close>

text \<open>\<open>emits t f\<close>: within the budget \<open>f\<close> appends \<open>t\<close> and charges its octets, and it succeeds only then.\<close>

definition emits :: "jsstr option \<Rightarrow> (canon_state \<Rightarrow> canon_state res) \<Rightarrow> bool" where
  "emits t f \<longleftrightarrow> (\<forall>x. t = Some x \<longrightarrow> code_points x \<noteq> None) \<and>
     (\<forall>out b st'. bud_spent b \<le> bud_max b \<longrightarrow> f (out, b) = Inr st' \<longleftrightarrow>
        (\<exists>x. t = Some x \<and> bud_spent b + length (utf8_encode x) \<le> bud_max b \<and>
           st' = (out @ x, b\<lparr>bud_spent := bud_spent b + length (utf8_encode x)\<rparr>)))"

lemma emits_wf: "emits t f \<Longrightarrow> t = Some x \<Longrightarrow> code_points x \<noteq> None"
  unfolding emits_def by blast

lemma emits_iff: "emits t f \<Longrightarrow> bud_spent b \<le> bud_max b \<Longrightarrow> f (out, b) = Inr st' \<longleftrightarrow>
    (\<exists>x. t = Some x \<and> bud_spent b + length (utf8_encode x) \<le> bud_max b \<and>
       st' = (out @ x, b\<lparr>bud_spent := bud_spent b + length (utf8_encode x)\<rparr>))"
  unfolding emits_def by blast

lemma emits_nothing: "emits (Some []) Inr"
  by (auto simp: emits_def utf8_encode_def)

lemma emits_fail: "emits None (\<lambda>st. Inl e)"
  by (auto simp: emits_def)

lemma emits_emit: "code_points x \<noteq> None \<Longrightarrow> emits (Some x) (emit x)"
  by (auto simp: emits_def emit_def spend_def Let_def split: if_splits)

lemma emits_bind:
  assumes f: "emits t f" and g: "emits u g"
  shows "emits (cat t u) (\<lambda>st. bindR (f st) g)"
  unfolding emits_def
proof (intro conjI allI impI)
  fix z assume "cat t u = Some z"
  then obtain x y where "t = Some x" "u = Some y" "z = x @ y" unfolding cat_Some by blast
  then show "code_points z \<noteq> None" using emits_wf[OF f] emits_wf[OF g] code_points_append[of x y] by simp
next
  fix out :: jsstr and b :: budget_state and st' :: canon_state assume b: "bud_spent b \<le> bud_max b"
  have F: "f (out, b) = Inr s1 \<longleftrightarrow> (\<exists>x. t = Some x \<and> bud_spent b + length (utf8_encode x) \<le> bud_max b \<and>
      s1 = (out @ x, b\<lparr>bud_spent := bud_spent b + length (utf8_encode x)\<rparr>))" for s1
    by (rule emits_iff[OF f b])
  have G: "g (out @ x, b\<lparr>bud_spent := bud_spent b + length (utf8_encode x)\<rparr>) = Inr st' \<longleftrightarrow>
      (\<exists>y. u = Some y \<and> bud_spent b + length (utf8_encode x) + length (utf8_encode y) \<le> bud_max b \<and>
        st' = (out @ x @ y, b\<lparr>bud_spent := bud_spent b + length (utf8_encode x) + length (utf8_encode y)\<rparr>))"
    if "bud_spent b + length (utf8_encode x) \<le> bud_max b" for x
    using emits_iff[OF g, of "b\<lparr>bud_spent := bud_spent b + length (utf8_encode x)\<rparr>" "out @ x" st'] that by simp
  have len: "length (utf8_encode (x @ y)) = length (utf8_encode x) + length (utf8_encode y)" if "t = Some x" for x y
    using emits_wf[OF f that] utf8_append[of x y] by simp
  show "bindR (f (out, b)) g = Inr st' \<longleftrightarrow> (\<exists>z. cat t u = Some z \<and> bud_spent b + length (utf8_encode z) \<le> bud_max b \<and>
      st' = (out @ z, b\<lparr>bud_spent := bud_spent b + length (utf8_encode z)\<rparr>))" (is "?L \<longleftrightarrow> ?R")
  proof
    assume ?L
    then obtain s1 where "f (out, b) = Inr s1" "g s1 = Inr st'" by (auto simp: bindR_eq_Inr)
    then obtain x where x: "t = Some x" "bud_spent b + length (utf8_encode x) \<le> bud_max b"
      "g (out @ x, b\<lparr>bud_spent := bud_spent b + length (utf8_encode x)\<rparr>) = Inr st'" unfolding F by blast
    then obtain y where "u = Some y" "bud_spent b + length (utf8_encode x) + length (utf8_encode y) \<le> bud_max b"
      "st' = (out @ x @ y, b\<lparr>bud_spent := bud_spent b + length (utf8_encode x) + length (utf8_encode y)\<rparr>)"
      using G[OF x(2)] by blast
    then show ?R using x(1) len[OF x(1), of y] by (intro exI[of _ "x @ y"]) (simp add: cat_Some add.assoc)
  next
    assume ?R
    then obtain x y where "t = Some x" "u = Some y" "bud_spent b + length (utf8_encode (x @ y)) \<le> bud_max b"
      "st' = (out @ x @ y, b\<lparr>bud_spent := bud_spent b + length (utf8_encode (x @ y))\<rparr>)" by (auto simp: cat_Some)
    moreover from this have "f (out, b) = Inr (out @ x, b\<lparr>bud_spent := bud_spent b + length (utf8_encode x)\<rparr>)"
      "bud_spent b + length (utf8_encode x) \<le> bud_max b" using F len[of x y] by auto
    ultimately show ?L using G[of x] len[of x y] by (auto simp: add.assoc)
  qed
qed

lemma emits_cong: "emits t f \<Longrightarrow> t = u \<Longrightarrow> f = g \<Longrightarrow> emits u g"
  by simp

lemma esc_plain: "c = 0x5c \<or> c = 0x22 \<Longrightarrow> plain c"
  by (auto simp: high_surr_def low_surr_def)

lemma esc_cases: "c = 0x5c \<or> c = 0x22 \<Longrightarrow> esc c = [0x5c, c]" "c \<noteq> 0x5c \<Longrightarrow> c \<noteq> 0x22 \<Longrightarrow> esc c = [c]"
  by (simp_all add: esc_def)

lemma emits_chars: "code_points (seg @ cs) \<noteq> None \<Longrightarrow> emits (Some (seg @ concat (map esc cs))) (canonical_chars seg cs)"
proof (induction cs arbitrary: seg)
  case Nil
  then show ?case by (cases "seg = []") (auto intro: emits_cong[OF emits_nothing] emits_cong[OF emits_emit] simp: fun_eq_iff)
next
  case (Cons c cs)
  show ?case
  proof (cases "c = 0x5c \<or> c = 0x22")
    case True
    have a: "code_points seg \<noteq> None" "code_points cs \<noteq> None"
      using code_points_around[OF esc_plain[OF True] Cons.prems] by simp_all
    have 1: "emits (Some seg) (\<lambda>st. if seg = [] then Inr st else emit seg st)"
      using emits_nothing emits_emit[OF a(1)] by (cases "seg = []") (auto elim!: emits_cong simp: fun_eq_iff)
    have "code_points [0x5c, c] \<noteq> None" using esc_plain[OF True] by (simp add: high_surr_def low_surr_def)
    then have 2: "emits (Some [0x5c, c]) (emit [0x5c, c])" by (rule emits_emit)
    have 3: "emits (Some (concat (map esc cs))) (canonical_chars [] cs)" using Cons.IH[of "[]"] a(2) by simp
    show ?thesis by (rule emits_cong[OF emits_bind[OF 1 emits_bind[OF 2 3]]]) (use True in \<open>simp_all add: cat_def esc_cases fun_eq_iff\<close>)
  next
    case False
    then have "emits (Some ((seg @ [c]) @ concat (map esc cs))) (canonical_chars (seg @ [c]) cs)"
      using Cons.IH[of "seg @ [c]"] Cons.prems by simp
    then show ?thesis by (rule emits_cong) (use False in \<open>simp_all add: esc_cases fun_eq_iff\<close>)
  qed
qed

lemma emits_string: "emits (quoted s) (canonicalString s)"
proof (cases "code_points s = None")
  case True
  then have "assertWellFormedUtf16 s (TufE Tuf_bad_input) \<noteq> Inr ()" using wellFormed_iff by blast
  then obtain e where "assertWellFormedUtf16 s (TufE Tuf_bad_input) = Inl e" by (cases "assertWellFormedUtf16 s (TufE Tuf_bad_input)") auto
  then have "canonicalString s = (\<lambda>st. Inl e)" by (simp add: canonicalString_def fun_eq_iff)
  then show ?thesis using True emits_fail by (simp add: quoted_def)
next
  case False
  then have w: "assertWellFormedUtf16 s (TufE Tuf_bad_input) = Inr ()" using wellFormed_iff by blast
  have q: "emits (Some [0x22]) (emit [0x22])" by (rule emits_emit) (simp add: high_surr_def low_surr_def)
  have c: "emits (Some (concat (map esc s))) (canonical_chars [] s)" using emits_chars[of "[]" s] False by simp
  show ?thesis by (rule emits_cong[OF emits_bind[OF q emits_bind[OF c q]]])
    (use False w in \<open>auto simp: cat_def quoted_def canonicalString_def fun_eq_iff\<close>)
qed

lemma emits_all: "(\<And>x. x \<in> set xs \<Longrightarrow> emits (t x) (f x)) \<Longrightarrow> emits (joined first (map t xs)) (emit_all f first xs)"
proof (induction xs arbitrary: first)
  case Nil
  then show ?case by (auto intro: emits_cong[OF emits_nothing] simp: fun_eq_iff)
next
  case (Cons x xs)
  have c: "emits (if first then Some [] else Some [0x2c]) (\<lambda>st. if first then Inr st else emit [0x2c] st)"
    using emits_nothing emits_emit[of "[0x2c]"] by (auto simp: high_surr_def low_surr_def)
  have x: "emits (t x) (f x)" by (rule Cons.prems) simp
  have xs: "emits (joined False (map t xs)) (emit_all f False xs)" by (rule Cons.IH) (rule Cons.prems, simp)
  show ?case by (rule emits_cong[OF emits_bind[OF c emits_bind[OF x xs]]]) (simp_all add: fun_eq_iff)
qed

lemma digits_of_ascii: "c \<in> set (digits_of n) \<Longrightarrow> 48 \<le> c \<and> c \<le> 57"
  by (induction n rule: digits_of.induct) (subst (asm) (2) digits_of.simps, auto split: if_splits)

lemma code_points_ascii: "\<forall>c \<in> set s. c < 0x80 \<Longrightarrow> code_points s \<noteq> None"
  by (induction s) (auto simp: high_surr_def low_surr_def)

lemma int_text_ascii: "\<forall>c \<in> set (int_text i). c < 0x80"
  by (auto simp: int_text_def dest!: digits_of_ascii)

lemma emits_ascii: "\<forall>c \<in> set x. c < 0x80 \<Longrightarrow> emits (Some x) (emit x)"
  using emits_emit code_points_ascii by blast

lemma emits_around:
  assumes "emits t f" and "q < 0x80" and "c < 0x80"
  shows "emits (cat (Some [q]) (cat t (Some [c]))) (\<lambda>st. bindR (emit [q] st) (\<lambda>st. bindR (f st) (emit [c])))"
  by (rule emits_bind[OF emits_ascii emits_bind[OF assms(1) emits_ascii]]) (simp_all add: assms(2,3))

lemma emits_canonical: "emits (canon_text n v) (canonical n v)"
proof (induction n arbitrary: v)
  case 0
  show ?case using emits_fail by simp
next
  case (Suc n)
  note simps = canon_text.simps(2) canonical.simps(2) json.case
  show ?case
  proof (cases v)
    case (JArr xs)
    have "emits (joined True (map (canon_text n) xs)) (emit_all (canonical n) True xs)" by (rule emits_all) (rule Suc.IH)
    then show ?thesis unfolding JArr simps by (rule emits_around) simp_all
  next
    case (JObj ms)
    have "emits (cat (quoted k) (cat (Some [0x3a]) (canon_text n (the (map_of ms k)))))
        (\<lambda>st. bindR (canonicalString k st) (\<lambda>st. bindR (emit [0x3a] st) (canonical n (the (map_of ms k)))))" for k
      by (rule emits_bind[OF emits_string emits_bind[OF emits_ascii Suc.IH]]) simp
    then show ?thesis unfolding JObj simps by (intro emits_around emits_all) simp_all
  next
    case (JInt i)
    show ?thesis unfolding JInt simps using emits_ascii[OF int_text_ascii[of i]] emits_fail by (cases "is_safe_integer i") simp_all
  next
    case (JBool b)
    show ?thesis unfolding JBool simps using emits_ascii[of "js_lit ''true''"] emits_ascii[of "js_lit ''false''"] by (simp add: js_lit_def)
  next
    case JNull
    show ?thesis unfolding JNull simps using emits_ascii[of "js_lit ''null''"] by (simp add: js_lit_def)
  next
    case (JStr s)
    show ?thesis unfolding JStr simps by (rule emits_string)
  qed (simp_all only: simps emits_fail)
qed

text \<open>The encoder succeeds exactly on the values that have a text, where the text's octets are within the cap.\<close>

lemma canonicalJson_text:
  "canonicalJson v = Inr b \<longleftrightarrow> (\<exists>t. canon_text (Suc CANONICAL_MAX_DEPTH) v = Some t \<and> b = utf8_encode t \<and> length b \<le> JSON_MAX_BYTES)"
proof -
  let ?b = "\<lparr>bud_spent = 0, bud_exhausted = False, bud_max = JSON_MAX_BYTES\<rparr>"
  have b0: "budget (Num (int JSON_MAX_BYTES)) = Inr ?b" by (simp add: budget_def cap_def JSON_MAX_BYTES_def)
  have c: "canonical (Suc CANONICAL_MAX_DEPTH) v ([], ?b) = Inr st' \<longleftrightarrow>
      (\<exists>x. canon_text (Suc CANONICAL_MAX_DEPTH) v = Some x \<and> length (utf8_encode x) \<le> JSON_MAX_BYTES \<and>
        st' = (x, ?b\<lparr>bud_spent := length (utf8_encode x)\<rparr>))" for st'
    using emits_iff[OF emits_canonical[of "Suc CANONICAL_MAX_DEPTH" v], of ?b "[]" st'] by simp
  show ?thesis
  proof (cases "canonical (Suc CANONICAL_MAX_DEPTH) v ([], ?b)")
    case (Inl e)
    then have "\<nexists>st'. canonical (Suc CANONICAL_MAX_DEPTH) v ([], ?b) = Inr st'" by simp
    then have "\<nexists>t. canon_text (Suc CANONICAL_MAX_DEPTH) v = Some t \<and> length (utf8_encode t) \<le> JSON_MAX_BYTES"
      unfolding c by blast
    then show ?thesis unfolding canonicalJson_def b0 bindR.simps Inl sum.case by blast
  next
    case (Inr st')
    then show ?thesis using c[of st'] unfolding canonicalJson_def b0 by (auto simp del: canon_text.simps)
  qed
qed

end
