(* ===== verification/Canonical_Proofs.thy ===== *)
theory Canonical_Proofs
  imports Canonical_Text
begin

text \<open>
  Two documents have the same canonical form exactly when they are the same document, up to the order in
  which the members of an object were written; and the canonical form reads back as the document.
\<close>

section \<open>The same document\<close>

text \<open>A value of the language: its strings are strings of code units and no object has a name twice.\<close>

fun js_value :: "json \<Rightarrow> bool" where
  "js_value (JStr s) \<longleftrightarrow> unit_string s"
| "js_value (JArr xs) \<longleftrightarrow> (\<forall>x \<in> set xs. js_value x)"
| "js_value (JObj ms) \<longleftrightarrow> distinct (map fst ms) \<and> (\<forall>m \<in> set ms. unit_string (fst m) \<and> js_value (snd m))"
| "js_value _ \<longleftrightarrow> True"

inductive same :: "json \<Rightarrow> json \<Rightarrow> bool" where
  same_null: "same JNull JNull"
| same_bool: "same (JBool b) (JBool b)"
| same_int: "same (JInt i) (JInt i)"
| same_str: "same (JStr s) (JStr s)"
| same_arr: "length xs = length ys \<Longrightarrow> (\<And>i. i < length xs \<Longrightarrow> same (xs ! i) (ys ! i)) \<Longrightarrow> same (JArr xs) (JArr ys)"
| same_obj: "mset (map fst ms) = mset (map fst ns) \<Longrightarrow>
    (\<And>k. k \<in> set (map fst ms) \<Longrightarrow> same (the (map_of ms k)) (the (map_of ns k))) \<Longrightarrow> same (JObj ms) (JObj ns)"

inductive_cases same_arrE: "same (JArr xs) w"
inductive_cases same_objE: "same (JObj ms) w"
inductive_cases same_strE: "same (JStr s) w"
inductive_cases same_intE: "same (JInt i) w"
inductive_cases same_boolE: "same (JBool b) w"
inductive_cases same_nullE: "same JNull w"
inductive_cases same_fracE: "same (JFrac m k) w"
inductive_cases same_otherE: "same JOther w"

lemma map_of_value: "distinct (map fst ms) \<Longrightarrow> k \<in> set (map fst ms) \<Longrightarrow> (k, the (map_of ms k)) \<in> set ms"
  by (metis domI domIff dom_map_of_conv_image_fst map_of_SomeD option.collapse set_map)

lemma js_member: "js_value (JObj ms) \<Longrightarrow> k \<in> set (map fst ms) \<Longrightarrow> js_value (the (map_of ms k)) \<and> unit_string k"
  using map_of_value by fastforce

section \<open>The order of names\<close>

lemma compare_points_total: "compare_points x y \<le> 0 \<or> compare_points y x \<le> 0"
  by (induction x y rule: compare_points.induct) auto

lemma compare_points_trans: "compare_points x y \<le> 0 \<Longrightarrow> compare_points y z \<le> 0 \<Longrightarrow> compare_points x z \<le> 0"
proof (induction x y arbitrary: z rule: compare_points.induct)
  case (4 x xs y ys)
  then show ?case by (cases z) (auto split: if_splits)
next
  case (2 y ys)
  then show ?case by (cases z) auto
qed auto

lemma compare_points_antisym: "compare_points x y \<le> 0 \<Longrightarrow> compare_points y x \<le> 0 \<Longrightarrow> x = y"
  by (induction x y rule: compare_points.induct) (auto split: if_splits)

lemma length_points_at: "length (points_at s) = length s"
  by (induction s rule: points_at.induct) simp_all

lemma points_at_inj: "unit_string s \<Longrightarrow> unit_string t \<Longrightarrow> points_at s = points_at t \<Longrightarrow> s = t"
proof (induction s arbitrary: t rule: points_at.induct)
  case 1
  then show ?case by (cases t rule: points_at.cases) auto
next
  case (2 u)
  have "length t = 1" using arg_cong[OF 2(3), of length] by (simp add: length_points_at)
  then show ?case using 2(3) by (cases t) auto
next
  case (3 u v r)
  have "length t = Suc (Suc (length r))" using arg_cong[OF 3(4), of length] unfolding length_points_at by simp
  then obtain u' v' r' where t: "t = u' # v' # r'" by (cases t rule: points_at.cases) auto
  have eq: "points_at (v # r) = points_at (v' # r')" using 3(4) by (simp add: t)
  have rest: "v # r = v' # r'" by (rule 3(1)) (use 3(2,3) eq in \<open>auto simp: t unit_string_def\<close>)
  have "u < 0x10000" "u' < 0x10000" using 3 by (auto simp: t unit_string_def)
  then have "u = u'" using 3(4) rest by (auto simp: t high_surr_def low_surr_def split: if_splits)
  then show ?case using rest by (simp add: t)
qed

interpretation name_order: preference byCodePoint
  by unfold_locales (auto simp: byCodePoint_def compare_points_total elim: compare_points_trans)

lemma names_sorted:
  assumes "mset ks = mset ls" and "\<forall>k \<in> set ks. unit_string k"
  shows "sortedCopy byCodePoint ks = sortedCopy byCodePoint ls"
  using assms by (intro name_order.sorted_canonical_on)
    (auto simp: byCodePoint_def intro: points_at_inj compare_points_antisym)

lemma names_same: "set (sortedCopy byCodePoint ks) = set ks" "length (sortedCopy byCodePoint ks) = length ks"
  using name_order.sorted_mset mset_eq_setD by (blast, metis name_order.sorted_length)

section \<open>The same document has the same form\<close>

lemma joined_cong: "map f xs = map g ys \<Longrightarrow> joined b (map f xs) = joined b (map g ys)"
  by simp

lemma same_text: "same v w \<Longrightarrow> js_value v \<Longrightarrow> canon_text n v = canon_text n w"
proof (induction v w arbitrary: n rule: same.induct)
  case (same_arr xs ys)
  show ?case
  proof (cases n)
    case (Suc m)
    have "map (canon_text m) xs = map (canon_text m) ys"
      using same_arr by (intro nth_equalityI) auto
    then show ?thesis by (simp add: Suc)
  qed simp
next
  case (same_obj ms ns)
  show ?case
  proof (cases n)
    case (Suc m)
    have "sortedCopy byCodePoint (map fst ms) = sortedCopy byCodePoint (map fst ns)"
      using same_obj by (intro names_sorted) auto
    moreover have "canon_text m (the (map_of ms k)) = canon_text m (the (map_of ns k))"
      if "k \<in> set (sortedCopy byCodePoint (map fst ms))" for k
      using same_obj that js_member[OF same_obj.prems(1)] unfolding names_same by blast
    ultimately show ?thesis by (simp add: Suc cong: map_cong)
  qed simp
qed auto

section \<open>The form determines the document\<close>

text \<open>What can stand behind a value.\<close>

definition delim :: "jsstr \<Rightarrow> bool" where
  "delim r \<longleftrightarrow> r = [] \<or> hd r = 0x2c \<or> hd r = 0x5d \<or> hd r = 0x7d"

lemma quoted_inj:
  "concat (map esc s) @ 0x22 # r = concat (map esc t) @ 0x22 # q \<Longrightarrow> s = t \<and> r = q"
proof (induction s arbitrary: t)
  case Nil
  then show ?case by (cases t) (auto simp: esc_def split: if_splits)
next
  case (Cons c s)
  then obtain d t' where t: "t = d # t'" by (cases t) (auto simp: esc_def split: if_splits)
  have "c = d \<and> concat (map esc s) @ 0x22 # r = concat (map esc t') @ 0x22 # q"
    using Cons.prems unfolding t by (auto simp: esc_def[of c] esc_def[of d] split: if_splits)
  then show ?case using Cons.IH[of t'] t by simp
qed

lemma quoted_text: "quoted s = Some x \<Longrightarrow> quoted t = Some y \<Longrightarrow> x @ r = y @ q \<Longrightarrow> s = t \<and> r = q"
  by (auto simp: quoted_def split: if_splits dest: quoted_inj)

lemma digits_of_code: "list_all digit_code (digits_of n)"
  using digits_of_ascii by (auto simp: list_all_iff digit_code_def)

lemma delim_digit: "delim r \<Longrightarrow> takeWhile digit_code r = []"
  by (cases r) (auto simp: delim_def digit_code_def)

lemma digits_prefix: "delim r \<Longrightarrow> takeWhile digit_code (digits_of n @ r) = digits_of n"
  using digits_of_code[of n] delim_digit[of r] by (simp add: takeWhile_append2 list_all_iff)

lemma digits_of_inj: "digits_of n = digits_of m \<Longrightarrow> n = m"
proof -
  assume "digits_of n = digits_of m"
  then have "Inr (int n) = (Inr (int m) :: int res)" using decimal_scan_digits[of TypeErr] by metis
  then show ?thesis by simp
qed

lemma digits_of_digit: "\<exists>c cs. digits_of n = c # cs \<and> digit_code c"
  using digits_of_code[of n] by (cases "digits_of n") auto

lemma int_text_inj:
  assumes e: "int_text i @ r = int_text j @ q" and "delim r" "delim q"
  shows "i = j \<and> r = q"
proof -
  have d: "digits_of n @ r = digits_of m @ q \<Longrightarrow> n = m \<and> r = q" for n m
    using digits_prefix[of r n] digits_prefix[of q m] digits_of_inj assms(2,3) by (metis same_append_eq)
  have h: "digits_of n @ z \<noteq> 0x2d # z'" for n z z'
    using digits_of_digit[of n] by (auto simp: digit_code_def)
  consider "i < 0" "j < 0" | "0 \<le> i" "0 \<le> j" | "i < 0" "0 \<le> j" | "0 \<le> i" "j < 0" by linarith
  then show ?thesis
  proof cases
    case 1
    then have "digits_of (nat (- i)) @ r = digits_of (nat (- j)) @ q" using e by (simp add: int_text_def)
    then show ?thesis using d[of "nat (- i)" "nat (- j)"] 1 by (simp add: eq_nat_nat_iff)
  next
    case 2
    then have "digits_of (nat i) @ r = digits_of (nat j) @ q" using e by (simp add: int_text_def)
    then show ?thesis using d[of "nat i" "nat j"] 2 by (simp add: eq_nat_nat_iff)
  next
    case 3
    then have "digits_of (nat j) @ q = 0x2d # digits_of (nat (- i)) @ r" using e by (simp add: int_text_def)
    then show ?thesis using h by blast
  next
    case 4
    then have "digits_of (nat i) @ r = 0x2d # digits_of (nat (- j)) @ q" using e by (simp add: int_text_def)
    then show ?thesis using h by blast
  qed
qed

text \<open>The first character tells the kind of value.\<close>

lemma int_text_hd: "\<exists>c cs. int_text i = c # cs \<and> (c = 0x2d \<or> digit_code c)"
  using digits_of_digit[of "nat i"] by (cases "i < 0") (auto simp: int_text_def)

fun kind_char :: "json \<Rightarrow> nat \<Rightarrow> bool" where
  "kind_char JNull c \<longleftrightarrow> c = 0x6e"
| "kind_char (JBool b) c \<longleftrightarrow> c = (if b then 0x74 else 0x66)"
| "kind_char (JInt i) c \<longleftrightarrow> c = 0x2d \<or> digit_code c"
| "kind_char (JStr s) c \<longleftrightarrow> c = 0x22"
| "kind_char (JArr xs) c \<longleftrightarrow> c = 0x5b"
| "kind_char (JObj ms) c \<longleftrightarrow> c = 0x7b"
| "kind_char _ c \<longleftrightarrow> False"

lemma canon_text_hd: "canon_text n v = Some t \<Longrightarrow> \<exists>c cs. t = c # cs \<and> kind_char v c"
  using int_text_hd by (cases n; cases v) (auto simp: js_lit_def quoted_def cat_Some split: if_splits)

lemma kind_not_delim: "kind_char v c \<Longrightarrow> \<not> delim (c # r)"
  by (cases v) (auto simp: delim_def digit_code_def split: if_splits)

lemma canon_text_starts: "canon_text n v = Some t \<Longrightarrow> \<not> delim (t @ r)"
  using canon_text_hd[of n v t] kind_not_delim by fastforce

text \<open>Two lists of items, written with commas between them and a closing bracket behind.\<close>

lemma joined_inj:
  assumes item: "\<And>x y t u r q. x \<in> set xs \<Longrightarrow> y \<in> set ys \<Longrightarrow> f x = Some t \<Longrightarrow> g y = Some u \<Longrightarrow> t @ r = u @ q \<Longrightarrow>
      delim r \<Longrightarrow> delim q \<Longrightarrow> P x y \<and> r = q"
    and hdf: "\<And>x t r. x \<in> set xs \<Longrightarrow> f x = Some t \<Longrightarrow> \<not> delim (t @ r)"
    and hdg: "\<And>y t r. y \<in> set ys \<Longrightarrow> g y = Some t \<Longrightarrow> \<not> delim (t @ r)"
    and c: "c = 0x5d \<or> c = 0x7d"
  shows "joined b (map f xs) = Some t \<Longrightarrow> joined b (map g ys) = Some u \<Longrightarrow> t @ c # r = u @ c # q \<Longrightarrow> list_all2 P xs ys \<and> r = q"
  using item hdf hdg
proof (induction xs arbitrary: ys b t u)
  case Nil
  then have t: "t = []" by simp
  show ?case
  proof (cases ys)
    case (Cons y ys')
    then obtain uy uz where u: "g y = Some uy" "u = (if b then [] else [0x2c]) @ uy @ uz" using Nil.prems(2) by (auto simp: cat_Some split: if_splits)
    have "\<not> delim (uy @ uz @ c # q)" using Nil.prems(6)[of y uy] u(1) Cons by simp
    moreover have "b \<Longrightarrow> uy @ uz @ c # q = c # r" "\<not> b \<Longrightarrow> c = 0x2c" using Nil.prems(3) t u(2) by simp_all
    ultimately have False using c by (cases b) (auto simp: delim_def)
    then show ?thesis ..
  qed (use Nil t in simp)
next
  case (Cons x xs)
  from Cons.prems(1) obtain tx tz where t: "f x = Some tx" "joined False (map f xs) = Some tz" "t = (if b then [] else [0x2c]) @ tx @ tz"
    by (auto simp: cat_Some split: if_splits)
  have nt: "\<not> delim (tx @ tz @ c # r)" using Cons.prems(5)[of x tx] t(1) by simp
  show ?case
  proof (cases ys)
    case Nil
    then have "u = []" using Cons.prems(2) by simp
    then have "b \<Longrightarrow> tx @ tz @ c # r = c # q" "\<not> b \<Longrightarrow> c = 0x2c" using Cons.prems(3) t(3) by simp_all
    then have False using c nt by (cases b) (auto simp: delim_def)
    then show ?thesis ..
  next
    case ys: (Cons y ys')
    from Cons.prems(2) obtain uy uz where u: "g y = Some uy" "joined False (map g ys') = Some uz" "u = (if b then [] else [0x2c]) @ uy @ uz"
      by (auto simp: ys cat_Some split: if_splits)
    have "delim (z @ c # s)" if "joined False (map h zs) = Some z" for h :: "'c \<Rightarrow> jsstr option" and zs z s
      using that c by (cases zs) (auto simp: cat_Some delim_def)
    then have d: "delim (tz @ c # r)" "delim (uz @ c # q)"
      using t(2) u(2) by (metis (no_types, lifting) list.map_comp list.map_id0 id_apply)+
    have "tx @ (tz @ c # r) = uy @ (uz @ c # q)" using Cons.prems(3) t(3) u(3) by (auto split: if_splits)
    then have 1: "P x y" "tz @ c # r = uz @ c # q" using Cons.prems(4)[of x y tx uy] t(1) u(1) d by (auto simp: ys)
    have "list_all2 P xs ys' \<and> r = q"
      apply (rule Cons.IH[OF t(2) u(2) 1(2)])
      subgoal by (rule Cons.prems(4)) (simp_all add: ys)
      subgoal for z by (rule Cons.prems(5)[of z]) simp_all
      subgoal for z by (rule Cons.prems(6)[of z]) (simp_all add: ys)
      done
    then show ?thesis using 1(1) by (simp add: ys)
  qed
qed

text \<open>A value's text, with anything that can stand behind it, is one value's only.\<close>

lemma canon_text_inj:
  "canon_text n v = Some t \<Longrightarrow> canon_text n w = Some u \<Longrightarrow> t @ r = u @ q \<Longrightarrow> delim r \<Longrightarrow> delim q \<Longrightarrow>
     js_value v \<Longrightarrow> js_value w \<Longrightarrow> same v w \<and> r = q"
proof (induction n arbitrary: v w t u r q)
  case (Suc n)
  obtain c cs where c: "t = c # cs" "kind_char v c" using canon_text_hd[OF Suc.prems(1)] by blast
  obtain d ds where d: "u = d # ds" "kind_char w d" using canon_text_hd[OF Suc.prems(2)] by blast
  have cd: "kind_char w c" using Suc.prems(3) c(1) d by simp
  show ?case
  proof (cases v)
    case JNull
    then have "w = JNull" using c(2) cd by (cases w) (auto simp: digit_code_def split: if_splits)
    then show ?thesis using Suc.prems(1-3) JNull same_null by simp
  next
    case (JBool b)
    then have "w = JBool b" using c(2) cd by (cases w) (auto simp: digit_code_def split: if_splits)
    then show ?thesis using Suc.prems(1-3) JBool same_bool by simp
  next
    case (JInt i)
    then obtain j where w: "w = JInt j" using c(2) cd by (cases w) (auto simp: digit_code_def split: if_splits)
    then show ?thesis using Suc.prems(1-5) JInt int_text_inj[of i r j q] same_int by (auto split: if_splits)
  next
    case (JStr s)
    then obtain s' where w: "w = JStr s'" using c(2) cd by (cases w) (auto simp: digit_code_def split: if_splits)
    have "quoted s = Some t" "quoted s' = Some u" using Suc.prems(1,2) by (simp_all add: JStr w)
    then show ?thesis using quoted_text Suc.prems(3) JStr w same_str by blast
  next
    case (JArr xs)
    then obtain ys where w: "w = JArr ys" using c(2) cd by (cases w) (auto simp: digit_code_def split: if_splits)
    obtain a where a: "joined True (map (canon_text n) xs) = Some a" "t = 0x5b # a @ [0x5d]"
      using Suc.prems(1) by (auto simp: JArr cat_Some)
    obtain b where b: "joined True (map (canon_text n) ys) = Some b" "u = 0x5b # b @ [0x5d]"
      using Suc.prems(2) by (auto simp: w cat_Some)
    have e: "a @ 0x5d # r = b @ 0x5d # q" using Suc.prems(3) a(2) b(2) by simp
    have "list_all2 same xs ys \<and> r = q"
    proof (rule joined_inj[OF _ _ _ _ a(1) b(1) e])
      show "same x y \<and> r = q" if "x \<in> set xs" "y \<in> set ys" "canon_text n x = Some t" "canon_text n y = Some u"
        "t @ r = u @ q" "delim r" "delim q" for x y t u r q
        using Suc.IH[OF that(3-7)] that(1,2) Suc.prems(6,7) by (simp add: JArr w)
    qed (auto dest: canon_text_starts)
    then show ?thesis unfolding JArr w by (auto simp: list_all2_conv_all_nth intro: same_arr)
  next
    case (JObj ms)
    then obtain ns where w: "w = JObj ns" using c(2) cd by (cases w) (auto simp: digit_code_def split: if_splits)
    let ?f = "\<lambda>ms k. cat (quoted k) (cat (Some [0x3a]) (canon_text n (the (map_of ms k))))"
    let ?ks = "sortedCopy byCodePoint (map fst ms)" and ?ls = "sortedCopy byCodePoint (map fst ns)"
    obtain a where a: "joined True (map (?f ms) ?ks) = Some a" "t = 0x7b # a @ [0x7d]"
      using Suc.prems(1) by (auto simp: JObj cat_Some)
    obtain b where b: "joined True (map (?f ns) ?ls) = Some b" "u = 0x7b # b @ [0x7d]"
      using Suc.prems(2) by (auto simp: w cat_Some)
    have e: "a @ 0x7d # r = b @ 0x7d # q" using Suc.prems(3) a(2) b(2) by simp
    have hd: "\<not> delim (t @ r)" if "?f ms k = Some t" for ms k t r
      using that by (auto simp: cat_Some quoted_def delim_def split: if_splits)
    have "list_all2 (\<lambda>k l. k = l \<and> same (the (map_of ms k)) (the (map_of ns l))) ?ks ?ls \<and> r = q"
    proof (rule joined_inj[OF _ _ _ _ a(1) b(1) e])
      fix k l t u r q
      assume k: "k \<in> set ?ks" and l: "l \<in> set ?ls" and f: "?f ms k = Some t" and g: "?f ns l = Some u"
        and eq: "t @ r = u @ q" and dl: "delim r" "delim q"
      obtain qk tv where t: "quoted k = Some qk" "canon_text n (the (map_of ms k)) = Some tv" "t = qk @ 0x3a # tv"
        using f by (auto simp: cat_Some)
      obtain ql uv where u: "quoted l = Some ql" "canon_text n (the (map_of ns l)) = Some uv" "u = ql @ 0x3a # uv"
        using g by (auto simp: cat_Some)
      have "qk @ (0x3a # tv @ r) = ql @ (0x3a # uv @ q)" using eq t(3) u(3) by simp
      then have kl: "k = l" and "0x3a # tv @ r = 0x3a # uv @ q" using quoted_text[OF t(1) u(1)] by blast+
      then have "tv @ r = uv @ q" by simp
      then have "same (the (map_of ms k)) (the (map_of ns l)) \<and> r = q"
        using Suc.IH[OF t(2) u(2) _ dl] js_member[of ms k] js_member[of ns l] k l Suc.prems(6,7)
        unfolding JObj w names_same by blast
      then show "(k = l \<and> same (the (map_of ms k)) (the (map_of ns l))) \<and> r = q" using kl by blast
    qed (use hd in auto)
    then have l2: "list_all2 (\<lambda>k l. k = l \<and> same (the (map_of ms k)) (the (map_of ns l))) ?ks ?ls" and rq: "r = q" by auto
    have kl: "?ks = ?ls" using l2 by (intro nth_equalityI) (auto simp: list_all2_conv_all_nth)
    have "mset (map fst ms) = mset (map fst ns)" using kl name_order.sorted_mset by metis
    moreover have "same (the (map_of ms k)) (the (map_of ns k))" if "k \<in> set (map fst ms)" for k
    proof -
      have "k \<in> set ?ks" using that by (simp add: names_same)
      then obtain i where "i < length ?ks" "?ks ! i = k" by (auto simp: in_set_conv_nth)
      then show ?thesis using l2 kl by (auto simp: list_all2_conv_all_nth)
    qed
    ultimately show ?thesis using rq unfolding JObj w by (auto intro: same_obj)
  qed (use Suc.prems(1) in auto)
qed simp

section \<open>Octets\<close>

lemma unit_append: "unit_string (xs @ ys) \<longleftrightarrow> unit_string xs \<and> unit_string ys"
  by (auto simp: unit_string_def)

lemma unit_Nil [simp]: "unit_string []"
  by (simp add: unit_string_def)

lemma unit_Cons: "unit_string (c # xs) \<longleftrightarrow> c < 0x10000 \<and> unit_string xs"
  by (auto simp: unit_string_def)

lemma quoted_unit: "quoted s = Some t \<Longrightarrow> unit_string s \<Longrightarrow> unit_string t"
  by (auto simp: quoted_def unit_string_def esc_def split: if_splits)

lemma joined_unit: "joined b (map f xs) = Some t \<Longrightarrow> (\<And>x u. x \<in> set xs \<Longrightarrow> f x = Some u \<Longrightarrow> unit_string u) \<Longrightarrow> unit_string t"
proof (induction xs arbitrary: b t)
  case (Cons x xs)
  then obtain tx tz where "f x = Some tx" "joined False (map f xs) = Some tz" "t = (if b then [] else [0x2c]) @ tx @ tz"
    by (auto simp: cat_Some split: if_splits)
  then show ?case using Cons.IH[of False tz] Cons.prems(2) by (auto simp: unit_append unit_Cons)
qed (simp add: unit_string_def)

lemma canon_text_unit: "canon_text n v = Some t \<Longrightarrow> js_value v \<Longrightarrow> unit_string t"
proof (induction n arbitrary: v t)
  case (Suc n)
  show ?case
  proof (cases v)
    case (JArr xs)
    obtain a where a: "joined True (map (canon_text n) xs) = Some a" "t = 0x5b # a @ [0x5d]"
      using Suc.prems(1) by (auto simp: JArr cat_Some)
    have "unit_string a" by (rule joined_unit[OF a(1)]) (use Suc.IH Suc.prems(2) JArr in auto)
    then show ?thesis by (simp add: a(2) unit_append unit_Cons unit_string_def)
  next
    case (JObj ms)
    let ?f = "\<lambda>k. cat (quoted k) (cat (Some [0x3a]) (canon_text n (the (map_of ms k))))"
    obtain a where a: "joined True (map ?f (sortedCopy byCodePoint (map fst ms))) = Some a" "t = 0x7b # a @ [0x7d]"
      using Suc.prems(1) by (auto simp: JObj cat_Some)
    have "unit_string a"
    proof (rule joined_unit[OF a(1)])
      fix k u assume k: "k \<in> set (sortedCopy byCodePoint (map fst ms))" and u: "?f k = Some u"
      have v: "js_value (the (map_of ms k)) \<and> unit_string k"
        using js_member[of ms k] Suc.prems(2) k unfolding JObj names_same by blast
      obtain q b where "quoted k = Some q" "canon_text n (the (map_of ms k)) = Some b" "u = q @ 0x3a # b"
        using u by (auto simp: cat_Some)
      then show "unit_string u" using v Suc.IH quoted_unit by (auto simp: unit_append unit_Cons)
    qed
    then show ?thesis by (simp add: a(2) unit_append unit_Cons unit_string_def)
  next
    case (JInt i)
    then show ?thesis using Suc.prems(1) int_text_ascii[of i] by (force simp: unit_string_def split: if_splits)
  next
    case (JStr s)
    then show ?thesis using Suc.prems quoted_unit by auto
  qed (use Suc.prems in \<open>auto simp: js_lit_def unit_string_def split: if_splits\<close>)
qed simp

lemma canon_text_decodes: "canon_text n v = Some t \<Longrightarrow> js_value v \<Longrightarrow> utf8_decode (utf8_encode t) = Some t"
  using utf8_text[of "utf8_encode t" t] canon_text_unit[of n v t] emits_wf[OF emits_canonical[of n v]] by blast

text \<open>C35: the canonical form, which a signature covers, identifies the document: of two documents, the second has
  the octets of the first exactly when they are the same up to the order of the members of their objects.  So a
  signature over one document is a signature over no other, and the order a writer chose does not matter.\<close>

theorem canonical_exact:
  assumes "js_value v" and "js_value w" and "canonicalJson v = Inr b"
  shows "canonicalJson w = Inr b \<longleftrightarrow> same v w"
proof
  assume w: "canonicalJson w = Inr b"
  let ?n = "Suc CANONICAL_MAX_DEPTH"
  from assms(3) obtain t where t: "canon_text ?n v = Some t" "b = utf8_encode t" unfolding canonicalJson_text by blast
  from w obtain u where u: "canon_text ?n w = Some u" "b = utf8_encode u" unfolding canonicalJson_text by blast
  have "t = u" using canon_text_decodes[OF t(1) assms(1)] canon_text_decodes[OF u(1) assms(2)] t(2) u(2) by simp
  then show "same v w" using canon_text_inj[OF t(1) u(1), of "[]" "[]"] assms by (simp add: delim_def)
next
  assume "same v w"
  then show "canonicalJson w = Inr b" using assms(1,3) same_text[of v w "Suc CANONICAL_MAX_DEPTH"] unfolding canonicalJson_text by simp
qed

text \<open>An object and its members in the other order.\<close>

definition sample_object :: json where
  "sample_object = JObj [([0x62], JInt 1), ([0x61], JNull)]"

definition sample_swapped :: json where
  "sample_swapped = JObj [([0x61], JNull), ([0x62], JInt 1)]"

lemma canon_text_numeral: "canon_text (numeral k) v = (case v of
      JNull \<Rightarrow> Some (js_lit ''null'')
    | JBool b \<Rightarrow> Some (if b then js_lit ''true'' else js_lit ''false'')
    | JStr s \<Rightarrow> quoted s
    | JInt i \<Rightarrow> if is_safe_integer i then Some (int_text i) else None
    | JFrac m k \<Rightarrow> None
    | JArr xs \<Rightarrow> cat (Some [0x5b]) (cat (joined True (map (canon_text (pred_numeral k)) xs)) (Some [0x5d]))
    | JObj ms \<Rightarrow> cat (Some [0x7b]) (cat (joined True (map (\<lambda>n. cat (quoted n) (cat (Some [0x3a]) (canon_text (pred_numeral k) (the (map_of ms n)))))
        (sortedCopy byCodePoint (map fst ms)))) (Some [0x7d]))
    | JOther \<Rightarrow> None)"
  by (simp add: numeral_eq_Suc split: json.split)

lemma sample_value: "js_value sample_object" "js_value sample_swapped"
  by (simp_all add: sample_object_def sample_swapped_def unit_string_def)

lemma sample_depth: "Suc CANONICAL_MAX_DEPTH = 33"
  by (simp add: CANONICAL_MAX_DEPTH_def JSON_MAX_DEPTH_def)

lemma sample_text: "canon_text 33 sample_object =
    Some [0x7b, 0x22, 0x61, 0x22, 0x3a, 0x6e, 0x75, 0x6c, 0x6c, 0x2c, 0x22, 0x62, 0x22, 0x3a, 0x31, 0x7d]"
  by (simp add: sample_object_def canon_text_numeral sortedCopy_def byCodePoint_def cat_def
    quoted_def high_surr_def low_surr_def esc_def js_lit_def is_safe_integer_def max_safe_def int_text_def digits_of.simps
    del: canon_text.simps)

lemma sample_encodes: "\<exists>b. canonicalJson sample_object = Inr b"
  unfolding canonicalJson_text sample_depth sample_text
  by (simp add: utf8_encode_def high_surr_def low_surr_def utf8_char_def JSON_MAX_BYTES_def)

theorem canonical_exact_witness: "\<exists>b. canonicalJson sample_object = Inr b \<and> canonicalJson sample_swapped = Inr b"
proof -
  have "same sample_object sample_swapped"
    unfolding sample_object_def sample_swapped_def by (rule same_obj) (auto intro: same_int same_null)
  then show ?thesis using sample_encodes canonical_exact[OF sample_value] by blast
qed

end
