(* ===== verification/Canonical_Read.thy ===== *)
theory Canonical_Read
  imports Canonical_Proofs
begin

text \<open>
  The canonical form is JSON: the toolkit's reader gives back the document it was written from, unless a
  string of it holds a control character, which the form writes as it is and the reader refuses.
\<close>

section \<open>Strings and numbers\<close>

fun no_controls :: "json \<Rightarrow> bool" where
  "no_controls (JStr s) \<longleftrightarrow> (\<forall>c \<in> set s. 0x20 \<le> c)"
| "no_controls (JArr xs) \<longleftrightarrow> (\<forall>x \<in> set xs. no_controls x)"
| "no_controls (JObj ms) \<longleftrightarrow> (\<forall>m \<in> set ms. (\<forall>c \<in> set (fst m). 0x20 \<le> c) \<and> no_controls (snd m))"
| "no_controls _ \<longleftrightarrow> True"

lemma jstring_text: "\<forall>c \<in> set s. 0x20 \<le> c \<Longrightarrow> jstring e acc (concat (map esc s) @ 0x22 # r) = Inr (acc @ s, r)"
proof (induction s arbitrary: acc)
  case (Cons c s)
  then have IH: "jstring e acc (concat (map esc s) @ 0x22 # r) = Inr (acc @ s, r)" for acc by simp
  consider "c = 0x5c" | "c = 0x22" | "c \<noteq> 0x5c" "c \<noteq> 0x22" by blast
  then show ?case
  proof cases
    case 3
    then show ?thesis using IH[of "acc @ [c]"] Cons.prems by (simp add: esc_cases)
  qed (use IH in \<open>simp_all add: esc_cases json_escape_def\<close>)
qed simp

lemma quoted_read: "quoted s = Some t \<Longrightarrow> \<forall>c \<in> set s. 0x20 \<le> c \<Longrightarrow>
    \<exists>u. t @ r = 0x22 # u \<and> jstring e [] u = Inr (s, r)"
  using jstring_text[of s e "[]" r] by (auto simp: quoted_def split: if_splits)

lemma digits_value_append: "digits_value (xs @ [c]) = digits_value xs * 10 + (c - 0x30)"
  by (simp add: digits_value_def)

lemma digits_value_of: "digits_value (digits_of n) = n"
proof (induction n rule: digits_of.induct)
  case (1 n)
  show ?case
  proof (cases "n < 10")
    case True
    then show ?thesis by (subst digits_of.simps) (simp add: digits_value_def)
  next
    case False
    then show ?thesis using 1 by (subst digits_of.simps) (simp add: digits_value_append)
  qed
qed

lemma digits_of_canonical: "\<not> (length (digits_of n) > 1 \<and> starts 0x30 (digits_of n))"
proof (cases "n = 0")
  case True
  then show ?thesis by (simp add: digits_of.simps)
next
  case False
  then have "hd (digits_of n) \<noteq> 48" by (simp add: digits_of_hd)
  then show ?thesis by (cases "digits_of n") auto
qed

lemma delim_starts: "delim r \<Longrightarrow> c \<noteq> 0x2c \<Longrightarrow> c \<noteq> 0x5d \<Longrightarrow> c \<noteq> 0x7d \<Longrightarrow> \<not> starts c r"
  by (cases r) (auto simp: delim_def)

lemma scan_int:
  assumes "delim r"
  shows "scan_number e (int_text i @ r) =
    Inr (\<lparr>nt_neg = i < 0, nt_int = digits_of (nat \<bar>i\<bar>), nt_frac = [], nt_exp = 0, nt_notInteger = False\<rparr>, r)"
proof -
  obtain c cs where c: "digits_of (nat i) = c # cs" "digit_code c" using digits_of_digit by blast
  have d: "dropWhile digit_code (digits_of n @ r) = r" for n
    using digits_prefix[OF assms, of n] by (metis append_eq_conv_conj dropWhile_eq_drop length_takeWhile_le takeWhile_eq_take)
  have f: "scan_frac e r = Inr (([], False), r)" "scan_exp e r = Inr ((0, False), r)"
    using delim_starts[OF assms] by (simp_all add: scan_frac_def scan_exp_def)
  show ?thesis
  proof (cases "i < 0")
    case True
    then have "int_text i = 0x2d # digits_of (nat \<bar>i\<bar>)" by (simp add: int_text_def)
    then show ?thesis using True f d digits_prefix[OF assms] digits_of_canonical[of "nat \<bar>i\<bar>"]
      by (simp add: scan_number_def Let_def)
  next
    case False
    then have "int_text i = digits_of (nat \<bar>i\<bar>)" by (simp add: int_text_def)
    moreover have "\<not> starts 0x2d (digits_of (nat \<bar>i\<bar>) @ r)" using c False by (simp add: digit_code_def)
    ultimately show ?thesis using False f d digits_prefix[OF assms] digits_of_canonical[of "nat \<bar>i\<bar>"]
      by (simp add: scan_number_def Let_def)
  qed
qed

definition plain_numbers :: "json_spec \<Rightarrow> bool" where
  "plain_numbers spec \<longleftrightarrow> \<not> js_exactIntegers spec \<and> js_exactIntegerMembers spec = []"

lemma jnumber_int:
  assumes "delim r" and "is_safe_integer i" and "plain_numbers spec"
  shows "jnumber spec cur (int_text i @ r) = Inr (JInt i, r)"
proof -
  have "nat \<bar>i\<bar> < 2 ^ 53" using assms(2) by (simp add: is_safe_integer_def max_safe_def nat_less_iff)
  from double_int[OF this, of "i < 0"] have "to_double (i < 0) (nat \<bar>i\<bar>) 1 = Some (JInt i)" by (simp split: if_splits)
  then have "token_value \<lparr>nt_neg = i < 0, nt_int = digits_of (nat \<bar>i\<bar>), nt_frac = [], nt_exp = 0, nt_notInteger = False\<rparr> = Some (JInt i)"
    by (simp add: token_value_def digits_value_of)
  then show ?thesis using assms(3) by (simp add: jnumber_def scan_int[OF assms(1)] plain_numbers_def split: option.splits)
qed

lemma kind_not_ws: "kind_char v c \<Longrightarrow> \<not> is_ws c"
  by (cases v) (auto simp: is_ws_def digit_code_def split: if_splits)

lemma ws_text: "canon_text n v = Some t \<Longrightarrow> ws (t @ r) = t @ r"
  using canon_text_hd[of n v t] kind_not_ws by (fastforce simp: ws_def)

lemma ws_char: "\<not> is_ws c \<Longrightarrow> ws (c # r) = c # r"
  by (simp add: ws_def)

lemma ws_marks: "\<not> is_ws 0x22" "\<not> is_ws 0x2c" "\<not> is_ws 0x3a" "\<not> is_ws 0x5d" "\<not> is_ws 0x7d"
  by (simp_all add: is_ws_def)

section \<open>The document in order\<close>

text \<open>The document as the form has it: the members of every object in the order of their names.\<close>

primrec in_order :: "nat \<Rightarrow> json \<Rightarrow> json" where
  "in_order 0 = (\<lambda>v. v)"
| "in_order (Suc n) = (\<lambda>v. case v of
      JArr xs \<Rightarrow> JArr (map (in_order n) xs)
    | JObj ms \<Rightarrow> JObj (map (\<lambda>k. (k, in_order n (the (map_of ms k)))) (sortedCopy byCodePoint (map fst ms)))
    | _ \<Rightarrow> v)"

lemma canon_text_parts:
  "canon_text (Suc n) (JArr xs) = Some t \<Longrightarrow> x \<in> set xs \<Longrightarrow> \<exists>u. canon_text n x = Some u"
  "canon_text (Suc n) (JObj ms) = Some t \<Longrightarrow> k \<in> set (map fst ms) \<Longrightarrow> \<exists>u. canon_text n (the (map_of ms k)) = Some u"
proof -
  have j: "joined b ts = Some z \<Longrightarrow> y \<in> set ts \<Longrightarrow> \<exists>u. y = Some u" for b ts z y
    by (induction b ts arbitrary: z rule: joined.induct) (auto simp: cat_Some)
  show "canon_text (Suc n) (JArr xs) = Some t \<Longrightarrow> x \<in> set xs \<Longrightarrow> \<exists>u. canon_text n x = Some u"
    using j by (fastforce simp: cat_Some)
  assume "canon_text (Suc n) (JObj ms) = Some t" and k: "k \<in> set (map fst ms)"
  then obtain z where "joined True (map (\<lambda>k. cat (quoted k) (cat (Some [0x3a]) (canon_text n (the (map_of ms k)))))
      (sortedCopy byCodePoint (map fst ms))) = Some z" by (auto simp: cat_Some)
  from j[OF this, of "cat (quoted k) (cat (Some [0x3a]) (canon_text n (the (map_of ms k))))"] k
  show "\<exists>u. canon_text n (the (map_of ms k)) = Some u" by (auto simp: cat_Some names_same)
qed

lemma in_order_same: "canon_text n v = Some t \<Longrightarrow> js_value v \<Longrightarrow> same v (in_order n v)"
proof (induction n arbitrary: v t)
  case (Suc n)
  show ?case
  proof (cases v)
    case (JArr xs)
    then have "same x (in_order n x)" if "x \<in> set xs" for x
      using Suc.IH canon_text_parts(1) Suc.prems that by fastforce
    then show ?thesis by (auto simp: JArr intro!: same_arr)
  next
    case (JObj ms)
    have "same (the (map_of ms k)) (in_order n (the (map_of ms k)))" if "k \<in> set (map fst ms)" for k
      using Suc.IH canon_text_parts(2) Suc.prems js_member that unfolding JObj by blast
    moreover have "map_of (map (\<lambda>k. (k, f k)) ks) k = Some (f k)" if "k \<in> set ks" for f :: "jsstr \<Rightarrow> json" and ks k
      using that by (simp add: map_of_map_restrict)
    ultimately show ?thesis using name_order.sorted_mset[of "map fst ms"]
      by (auto simp: JObj comp_def names_same intro!: same_obj)
  qed (use Suc.prems in \<open>auto intro: same_null same_bool same_int same_str\<close>)
qed simp

section \<open>Arrays and objects\<close>

text \<open>\<open>reads spec md v t d\<close>: at depth \<open>d\<close> the reader makes of the text the value, with any rest behind it.\<close>

definition reads :: "json_spec \<Rightarrow> nat \<Rightarrow> json \<Rightarrow> jsstr \<Rightarrow> nat \<Rightarrow> bool" where
  "reads spec md v t d \<longleftrightarrow> (\<forall>fuel r cur. 2 * length t + 1 \<le> fuel \<longrightarrow> delim r \<longrightarrow>
     jread fuel spec md (Value cur) d (t @ r) = Inr (v, r))"

lemma readsD: "reads spec md v t d \<Longrightarrow> 2 * length t + 1 \<le> fuel \<Longrightarrow> delim r \<Longrightarrow>
    jread fuel spec md (Value cur) d (t @ r) = Inr (v, r)"
  unfolding reads_def by blast

lemma joined_Cons: "joined True (t # ts) = Some a \<Longrightarrow>
    \<exists>x. t = Some x \<and> (ts = [] \<and> a = x \<or> ts \<noteq> [] \<and> (\<exists>b. joined True ts = Some b \<and> a = x @ 0x2c # b))"
  by (cases ts) (auto simp: cat_Some)

lemma read_elements:
  "joined True (map f xs) = Some a \<Longrightarrow> xs \<noteq> [] \<Longrightarrow> (\<And>x t. x \<in> set xs \<Longrightarrow> f x = Some t \<Longrightarrow> reads spec md (val x) t (d + 1)) \<Longrightarrow>
     2 * length a + 2 \<le> fuel \<Longrightarrow> jread fuel spec md (Elements out) d (a @ 0x5d # r) = Inr (JArr (out @ map val xs), r)"
proof (induction xs arbitrary: a out fuel)
  case (Cons x xs)
  obtain fu where fu: "fuel = Suc fu" using Cons.prems(4) by (cases fuel) auto
  obtain t where t: "f x = Some t"
    and z: "xs = [] \<and> a = t \<or> xs \<noteq> [] \<and> (\<exists>b. joined True (map f xs) = Some b \<and> a = t @ 0x2c # b)"
    using joined_Cons[of "f x" "map f xs" a] Cons.prems(1) by auto
  have rx: "reads spec md (val x) t (d + 1)" using Cons.prems(3) t by simp
  from z show ?case
  proof
    assume z: "xs = [] \<and> a = t"
    then have "jread fu spec md (Value None) (d + 1) (a @ 0x5d # r) = Inr (val x, 0x5d # r)"
      using readsD[OF rx, of fu "0x5d # r" None] Cons.prems(4) fu by (auto simp: delim_def)
    then show ?thesis using z by (simp add: fu array_turn_def ws_char ws_marks)
  next
    assume "xs \<noteq> [] \<and> (\<exists>b. joined True (map f xs) = Some b \<and> a = t @ 0x2c # b)"
    then obtain b where b: "xs \<noteq> []" "joined True (map f xs) = Some b" "a = t @ 0x2c # b" by blast
    have "jread fu spec md (Value None) (d + 1) (t @ 0x2c # b @ 0x5d # r) = Inr (val x, 0x2c # b @ 0x5d # r)"
      using readsD[OF rx, of fu "0x2c # b @ 0x5d # r" None] Cons.prems(4) fu b(3) by (auto simp: delim_def)
    moreover have "jread fu spec md (Elements (out @ [val x])) d (b @ 0x5d # r) = Inr (JArr ((out @ [val x]) @ map val xs), r)"
      using Cons.IH[OF b(2,1) Cons.prems(3), of fu "out @ [val x]"] Cons.prems(4) fu b(3) by auto
    ultimately show ?thesis by (simp add: fu b(3) array_turn_def ws_char ws_marks)
  qed
qed simp

lemma read_members:
  assumes f: "\<And>k. f k = cat (quoted k) (cat (Some [0x3a]) (g k))"
  shows "joined True (map f ks) = Some a \<Longrightarrow> ks \<noteq> [] \<Longrightarrow> distinct (map fst out @ ks) \<Longrightarrow>
     (\<And>k. k \<in> set ks \<Longrightarrow> \<forall>c \<in> set k. 0x20 \<le> c) \<Longrightarrow>
     (\<And>k t. k \<in> set ks \<Longrightarrow> g k = Some t \<Longrightarrow> reads spec md (val k) t (d + 1)) \<Longrightarrow> 2 * length a + 2 \<le> fuel \<Longrightarrow>
     jread fuel spec md (Members out) d (a @ 0x7d # r) = Inr (JObj (out @ map (\<lambda>k. (k, val k)) ks), r)"
proof (induction ks arbitrary: a out fuel)
  case (Cons k ks)
  obtain fu where fu: "fuel = Suc fu" using Cons.prems(6) by (cases fuel) auto
  obtain y where y: "f k = Some y"
    and z: "ks = [] \<and> a = y \<or> ks \<noteq> [] \<and> (\<exists>b. joined True (map f ks) = Some b \<and> a = y @ 0x2c # b)"
    using joined_Cons[of "f k" "map f ks" a] Cons.prems(1) by auto
  obtain q t where q: "quoted k = Some q" and t: "g k = Some t" and yq: "y = q @ 0x3a # t" using y unfolding f by (auto simp: cat_Some)
  have rx: "reads spec md (val k) t (d + 1)" using Cons.prems(5) t by simp
  have new: "k \<notin> set (map fst out)" using Cons.prems(3) by auto
  have key: "\<exists>u. q @ s = 0x22 # u \<and> jstring e [] u = Inr (k, s)" for s e
    using quoted_read[OF q] Cons.prems(4)[of k] by simp
  from z show ?case
  proof
    assume z: "ks = [] \<and> a = y"
    obtain u where u: "q @ 0x3a # t @ 0x7d # r = 0x22 # u" "jstring (js_badJson spec) [] u = Inr (k, 0x3a # t @ 0x7d # r)" using key by blast
    have v: "jread fu spec md (Value (Some k)) (d + 1) (t @ 0x7d # r) = Inr (val k, 0x7d # r)"
      using readsD[OF rx, of fu "0x7d # r" "Some k"] Cons.prems(6) fu z yq by (auto simp: delim_def)
    have "a @ 0x7d # r = 0x22 # u" using u(1) z yq by simp
    then show ?thesis using u(2) v new z by (simp add: fu object_turn_def ws_char ws_marks)
  next
    assume "ks \<noteq> [] \<and> (\<exists>b. joined True (map f ks) = Some b \<and> a = y @ 0x2c # b)"
    then obtain b where b: "ks \<noteq> []" "joined True (map f ks) = Some b" "a = y @ 0x2c # b" by blast
    obtain u where u: "q @ 0x3a # t @ 0x2c # b @ 0x7d # r = 0x22 # u"
      "jstring (js_badJson spec) [] u = Inr (k, 0x3a # t @ 0x2c # b @ 0x7d # r)" using key by blast
    have v: "jread fu spec md (Value (Some k)) (d + 1) (t @ 0x2c # b @ 0x7d # r) = Inr (val k, 0x2c # b @ 0x7d # r)"
      using readsD[OF rx, of fu "0x2c # b @ 0x7d # r" "Some k"] Cons.prems(6) fu b(3) yq by (auto simp: delim_def)
    have ps: "jread fu spec md (Members (out @ [(k, val k)])) d (b @ 0x7d # r) =
        Inr (JObj ((out @ [(k, val k)]) @ map (\<lambda>k. (k, val k)) ks), r)"
      using Cons.IH[OF b(2,1), of "out @ [(k, val k)]" fu] Cons.prems(3-6) fu b(3) by auto
    have "a @ 0x7d # r = 0x22 # u" using u(1) b(3) yq by simp
    then show ?thesis using u(2) v new ps by (simp add: fu object_turn_def ws_char ws_marks)
  qed
qed simp

lemma reads_text:
  "canon_text n v = Some t \<Longrightarrow> js_value v \<Longrightarrow> no_controls v \<Longrightarrow> plain_numbers spec \<Longrightarrow> d + n \<le> Suc md \<Longrightarrow>
     reads spec md (in_order n v) t d"
proof (induction n arbitrary: v t d)
  case (Suc n)
  have "jread fuel spec md (Value cur) d (t @ r) = Inr (in_order (Suc n) v, r)"
    if fuel: "2 * length t + 1 \<le> fuel" and r: "delim r" for fuel r cur
  proof -
    obtain fu where fu: "fuel = Suc fu" using fuel by (cases fuel) auto
    have d: "\<not> md < d" using Suc.prems(5) by simp
    have w: "ws (t @ r) = t @ r" by (rule ws_text[OF Suc.prems(1)])
    have turn: "jread fuel spec md (Value cur) d (t @ r) = value_turn (jread fu spec md) spec md cur d (t @ r)" by (simp add: fu)
    show ?thesis
    proof (cases v)
      case JNull
      then have "t = js_lit ''null''" using Suc.prems(1) by simp
      then show ?thesis unfolding turn using w d JNull by (simp add: value_turn_def js_lit_def digit_code_def)
    next
      case (JBool b)
      then have "t = (if b then js_lit ''true'' else js_lit ''false'')" using Suc.prems(1) by simp
      then show ?thesis unfolding turn using w d JBool
        by (cases b) (simp_all add: value_turn_def js_lit_def digit_code_def)
    next
      case (JInt i)
      then have t: "t = int_text i" "is_safe_integer i" using Suc.prems(1) by (auto split: if_splits)
      obtain c cs where c: "int_text i = c # cs" "c = 0x2d \<or> digit_code c" using int_text_hd by blast
      then have "c \<noteq> 0x7b" "c \<noteq> 0x5b" "c \<noteq> 0x22" by (auto simp: digit_code_def)
      then have "value_turn (jread fu spec md) spec md cur d (t @ r) = jnumber spec cur (t @ r)"
        using w d c t(1) by (simp add: value_turn_def)
      then show ?thesis unfolding turn using jnumber_int[OF r t(2) Suc.prems(4)] JInt t(1) by simp
    next
      case (JStr s)
      then have q: "quoted s = Some t" using Suc.prems(1) by simp
      obtain u where u: "t @ r = 0x22 # u" "jstring (js_badJson spec) [] u = Inr (s, r)"
        using quoted_read[OF q, of r "js_badJson spec"] Suc.prems(3) JStr by auto
      then show ?thesis unfolding turn using w d JStr by (simp add: value_turn_def)
    next
      case (JArr xs)
      obtain a where a: "joined True (map (canon_text n) xs) = Some a" "t = 0x5b # a @ [0x5d]"
        using Suc.prems(1) by (auto simp: JArr cat_Some)
      show ?thesis
      proof (cases "xs = []")
        case True
        then have "t = [0x5b, 0x5d]" using a by simp
        then show ?thesis unfolding turn using w d True JArr by (simp add: value_turn_def ws_char ws_marks)
      next
        case False
        have el: "reads spec md (in_order n x) u (d + 1)" if "x \<in> set xs" "canon_text n x = Some u" for x u
          using Suc.IH[OF that(2)] that(1) Suc.prems(2-5) by (simp add: JArr)
        have f2: "2 * length a + 2 \<le> fu" using fuel fu a(2) by simp
        have vs: "jread fu spec md (Elements []) d (a @ 0x5d # r) = Inr (JArr (map (in_order n) xs), r)"
          using read_elements[where val = "in_order n", OF a(1) False el f2, of "[]" r] by simp
        obtain x xs' where xs: "xs = x # xs'" using False by (cases xs) auto
        obtain tx b where tx: "canon_text n x = Some tx" "a = tx @ b" using a(1) by (auto simp: xs cat_Some)
        have ns: "ws (a @ 0x5d # r) = a @ 0x5d # r" "\<not> starts 0x5d (a @ 0x5d # r)"
          using ws_text[OF tx(1), of "b @ 0x5d # r"] canon_text_starts[OF tx(1), of "b @ 0x5d # r"]
          by (auto simp: tx(2) starts_Cons delim_def)
        show ?thesis unfolding turn using w d ns vs by (simp add: JArr a(2) value_turn_def)
      qed
    next
      case (JObj ms)
      let ?ks = "sortedCopy byCodePoint (map fst ms)" and ?g = "\<lambda>k. canon_text n (the (map_of ms k))"
      let ?f = "\<lambda>k. cat (quoted k) (cat (Some [0x3a]) (?g k))"
      obtain a where a: "joined True (map ?f ?ks) = Some a" "t = 0x7b # a @ [0x7d]"
        using Suc.prems(1) by (auto simp: JObj cat_Some)
      have dist: "distinct (map fst ms)" using Suc.prems(2) JObj by simp
      show ?thesis
      proof (cases "?ks = []")
        case True
        moreover have "t = [0x7b, 0x7d]" using a True by simp
        ultimately show ?thesis unfolding turn using w d JObj by (simp add: value_turn_def ws_char ws_marks)
      next
        case False
        have mem: "js_value (the (map_of ms k)) \<and> no_controls (the (map_of ms k)) \<and> (\<forall>c \<in> set k. 0x20 \<le> c)" if "k \<in> set ?ks" for k
        proof -
          have "(k, the (map_of ms k)) \<in> set ms" using map_of_value[OF dist] that unfolding names_same .
          moreover have "js_value (JObj ms)" "no_controls (JObj ms)" using Suc.prems(2,3) JObj by simp_all
          ultimately show ?thesis by (metis fst_conv js_value.simps(3) no_controls.simps(3) snd_conv)
        qed
        have el: "reads spec md (in_order n (the (map_of ms k))) u (d + 1)" if "k \<in> set ?ks" "?g k = Some u" for k u
          using Suc.IH[OF that(2)] mem[OF that(1)] Suc.prems(4,5) by simp
        have ctl: "\<forall>c \<in> set k. 0x20 \<le> c" if "k \<in> set ?ks" for k using mem[OF that] by blast
        have dk: "distinct (map fst ([] :: (jsstr \<times> json) list) @ ?ks)"
          using dist name_order.sorted_mset[of "map fst ms"] by (metis append_Nil list.simps(8) mset_eq_imp_distinct_iff)
        have f2: "2 * length a + 2 \<le> fu" using fuel fu a(2) by simp
        have ps: "jread fu spec md (Members []) d (a @ 0x7d # r) =
            Inr (JObj (map (\<lambda>k. (k, in_order n (the (map_of ms k)))) ?ks), r)"
          using read_members[where f = ?f and g = ?g and r = r and val = "\<lambda>k. in_order n (the (map_of ms k))",
            OF refl a(1) False dk ctl el f2] unfolding append_Nil by blast
        obtain z where z: "a @ 0x7d # r = 0x22 # z"
          using a(1) False by (cases ?ks) (auto simp: cat_Some quoted_def split: if_splits)
        have "value_turn (jread fu spec md) spec md cur d (0x7b # 0x22 # z) = jread fu spec md (Members []) d (0x22 # z)"
          using d by (simp add: value_turn_def ws_char starts_Cons is_ws_def)
        then show ?thesis unfolding turn using ps z by (simp add: JObj a(2))
      qed
    qed (use Suc.prems(1) in auto)
  qed
  then show ?case unfolding reads_def by blast
qed simp

section \<open>Reading the form back\<close>

lemma form_reads_back:
  assumes "js_value v" and "no_controls v" and "canonicalJson v = Inr b"
    and "plain_numbers spec" and "js_maxBytes spec = Num m" and "int JSON_MAX_BYTES \<le> m"
    and "js_maxDepth spec = Num d" and "int JSON_MAX_DEPTH \<le> d" and "d \<le> int MAX_DECODE_DEPTH_CEILING"
  shows "json_parse (Buf b) spec = Inr (in_order (Suc CANONICAL_MAX_DEPTH) v) \<and> same v (in_order (Suc CANONICAL_MAX_DEPTH) v)"
proof -
  let ?w = "in_order (Suc CANONICAL_MAX_DEPTH) v"
  obtain t where t: "canon_text (Suc CANONICAL_MAX_DEPTH) v = Some t" "b = utf8_encode t" "length b \<le> JSON_MAX_BYTES"
    using assms(3) unfolding canonicalJson_text by blast
  have "0 + Suc CANONICAL_MAX_DEPTH \<le> Suc (nat d)" using assms(8) by (simp add: CANONICAL_MAX_DEPTH_def nat_le_iff le_nat_iff)
  then have "reads spec (nat d) ?w t 0" using reads_text[OF t(1) assms(1,2,4)] by blast
  then have w: "jread (json_fuel t) spec (nat d) (Value None) 0 (t @ []) = Inr (?w, [])"
    using readsD[of spec "nat d" ?w t 0 "json_fuel t" "[]" None] by (auto simp: json_fuel_def delim_def)
  have "utf8_decode b = Some t" using canon_text_decodes[OF t(1) assms(1)] t(2) by simp
  moreover have "length b \<le> nat m" "0 \<le> m" "0 \<le> d" using t(3) assms(6,8) by simp_all
  ultimately have "json_parse (Buf b) spec = Inr ?w"
    using w assms(5,7,9) by (simp add: json_parse_def cap_def depthCap_def text_decode_def ws_def del: in_order.simps)
  then show ?thesis using in_order_same[OF t(1) assms(1)] by blast
qed

text \<open>C36: the canonical form is JSON for the same document: read back, under any limits that admit documents of the
  form's own size and depth, it is the document it was written from, with the members of every object in the order
  of their names, when no string of it has a control character.\<close>

theorem canonical_reads_back:
  assumes "js_value v" and "no_controls v" and "canonicalJson v = Inr b"
    and "plain_numbers spec" and "js_maxBytes spec = Num m" and "int JSON_MAX_BYTES \<le> m"
    and "js_maxDepth spec = Num d" and "int JSON_MAX_DEPTH \<le> d" and "d \<le> int MAX_DECODE_DEPTH_CEILING"
  shows "json_parse (Buf b) spec = Inr (in_order (Suc CANONICAL_MAX_DEPTH) v) \<and> same v (in_order (Suc CANONICAL_MAX_DEPTH) v)"
  using form_reads_back[OF assms] .

text \<open>The limits of the reader that lib/tuf.js opens its documents with, on \<open>{"a":null,"b":1}\<close>.\<close>

definition canonical_spec :: json_spec where
  "canonical_spec = \<lparr>js_maxBytes = Num (int JSON_MAX_BYTES), js_maxDepth = Num (int JSON_MAX_DEPTH), js_integersOnly = True,
     js_exactIntegers = False, js_exactIntegerMembers = [], js_badJson = TypeErr, js_tooDeep = TypeErr,
     js_duplicateMember = TypeErr, js_tooLarge = RangeErr, js_badInput = TypeErr\<rparr>"

theorem canonical_reads_back_witness:
  "\<exists>b w. canonicalJson sample_object = Inr b \<and> json_parse (Buf b) canonical_spec = Inr w \<and> same sample_object w"
proof -
  obtain b where b: "canonicalJson sample_object = Inr b" using sample_encodes by blast
  let ?w = "in_order (Suc CANONICAL_MAX_DEPTH) sample_object"
  have "json_parse (Buf b) canonical_spec = Inr ?w \<and> same sample_object ?w"
  proof (rule canonical_reads_back[OF sample_value(1) _ b])
    show "no_controls sample_object" by (simp add: sample_object_def)
    show "plain_numbers canonical_spec" by (simp add: plain_numbers_def canonical_spec_def)
    show "js_maxBytes canonical_spec = Num (int JSON_MAX_BYTES)" "js_maxDepth canonical_spec = Num (int JSON_MAX_DEPTH)"
      by (simp_all add: canonical_spec_def)
    show "int JSON_MAX_DEPTH \<le> int MAX_DECODE_DEPTH_CEILING"
      by (simp add: JSON_MAX_DEPTH_def MAX_DECODE_DEPTH_CEILING_def)
  qed simp_all
  then show ?thesis using b by blast
qed

end
