(* ===== verification/Edwards.thy ===== *)
theory Edwards
  imports Asn1_Decode
begin

text \<open>
  lib/edwards-point.js: the public keys of EdDSA are points of a twisted Edwards curve, written as a
  coordinate and the parity of the other.  A BigInt is an \<open>int\<close>; \<open>jrem\<close> is the remainder of the language, whose
  sign is that of the dividend.  A \<open>curve\<close> is a row of the code's table.
\<close>

section \<open>Arithmetic\<close>

definition jrem :: "int \<Rightarrow> int \<Rightarrow> int" where
  "jrem a p = (if a < 0 then - (- a mod p) else a mod p)"

definition ed_mul :: "int \<Rightarrow> int \<Rightarrow> int \<Rightarrow> int" where
  "ed_mul x y p = jrem (jrem x p * jrem y p) p"

function ed_pow_loop :: "int \<Rightarrow> int \<Rightarrow> int \<Rightarrow> int \<Rightarrow> int" where
  "ed_pow_loop r b e p =
     (if e > 0 then ed_pow_loop (if odd e then jrem (r * b) p else r) (jrem (b * b) p) (e div 2) p else r)"
  by pat_completeness auto

termination ed_pow_loop
  by (relation "measure (\<lambda>(r, b, e, p). nat e)") auto

declare ed_pow_loop.simps [simp del]

definition ed_pow :: "int \<Rightarrow> int \<Rightarrow> int \<Rightarrow> int" where
  "ed_pow b e p = ed_pow_loop 1 (jrem b p) e p"

definition ed_inv :: "int \<Rightarrow> int \<Rightarrow> int" where
  "ed_inv a p = ed_pow (jrem (jrem a p + p) p) (p - 2) p"

section \<open>The curves\<close>

definition P25519 :: int where "P25519 = 2 ^ 255 - 19"
definition D25519 :: int where "D25519 = ed_mul (P25519 - 121665) (ed_inv 121666 P25519) P25519"
definition SQRTM1 :: int where "SQRTM1 = ed_pow 2 ((P25519 - 1) div 4) P25519"
definition P448 :: int where "P448 = 2 ^ 448 - 2 ^ 224 - 1"
definition D448 :: int where "D448 = P448 - 39081"

record curve =
  cv_p :: int
  cv_d :: int
  cv_a :: int
  cv_len :: nat
  cv_signBit :: nat

definition CURVE :: "nat \<Rightarrow> curve option" where
  "CURVE crv =
     (if crv = 6 then Some \<lparr>cv_p = P25519, cv_d = D25519, cv_a = P25519 - 1, cv_len = 32, cv_signBit = 255\<rparr>
      else if crv = 7 then Some \<lparr>cv_p = P448, cv_d = D448, cv_a = 1, cv_len = 57, cv_signBit = 455\<rparr>
      else None)"

section \<open>A point\<close>

text \<open>The octets are a number, the last octet the most significant.\<close>

definition leToBig :: "bytes \<Rightarrow> int" where
  "leToBig buf = foldr (\<lambda>b n. uint b + 256 * n) buf 0"

text \<open>The two arms of \<open>_decode\<close> that find \<open>x\<close> with \<open>v * x * x = u\<close>, where there is one.\<close>

definition root_a1 :: "curve \<Rightarrow> int \<Rightarrow> int \<Rightarrow> int option" where
  "root_a1 c y2 u =
     (let p = cv_p c;
          v = jrem (jrem (jrem (cv_d c * y2) p - 1) p + p) p;
          x = ed_mul (ed_mul (ed_pow u 3 p) v p)
                (ed_pow (ed_mul (ed_pow u 5 p) (ed_pow v 3 p) p) ((p - 3) div 4) p) p
      in if ed_mul v (jrem (x * x) p) p \<noteq> u then None else Some x)"

definition root_minus1 :: "curve \<Rightarrow> int \<Rightarrow> int \<Rightarrow> int option" where
  "root_minus1 c y2 u =
     (let p = cv_p c;
          v25 = jrem (jrem (cv_d c * y2) p + 1) p;
          x = ed_mul (ed_mul u (ed_pow v25 3 p) p)
                (ed_pow (ed_mul u (ed_pow v25 7 p) p) ((p - 5) div 8) p) p;
          vxx = ed_mul v25 (jrem (x * x) p) p
      in if vxx \<noteq> u then
           (if vxx = jrem (p - u) p then Some (jrem (x * SQRTM1) p) else None)
         else Some x)"

definition ed_decode :: "bytes \<Rightarrow> curve \<Rightarrow> (int \<times> int) option" where
  "ed_decode raw c =
     (let num = leToBig raw;
          sign = drop_bit (cv_signBit c) num AND 1;
          y = num AND (2 ^ cv_signBit c - 1);
          p = cv_p c
      in if y \<ge> p then None
         else
           let y2 = jrem (y * y) p;
               u = jrem (jrem (y2 - 1) p + p) p
           in case (if cv_a c = 1 then root_a1 c y2 u else root_minus1 c y2 u) of
                None \<Rightarrow> None
              | Some x \<Rightarrow>
                  if x = 0 \<and> sign = 1 then None
                  else Some (if x AND 1 \<noteq> sign then jrem (p - x) p else x, y))"

definition ed_double :: "int \<times> int \<Rightarrow> curve \<Rightarrow> int \<times> int" where
  "ed_double P c = (case P of (x, y) \<Rightarrow>
     let p = cv_p c;
         x2 = jrem (x * x) p;
         y2 = jrem (y * y) p;
         ax2 = jrem (cv_a c * x2) p;
         nx = jrem (jrem (2 * x) p * y) p;
         dx = jrem (ax2 + y2) p;
         ny = jrem (jrem (y2 - ax2) p + p) p;
         dy = jrem (jrem (2 - ax2 - y2) p + 2 * p) p
     in (ed_mul nx (ed_inv dx p) p, ed_mul ny (ed_inv dy p) p))"

text \<open>The point is on the curve and eight times it is not the neutral point.\<close>

definition ed_validate :: "js \<Rightarrow> nat \<Rightarrow> bool" where
  "ed_validate raw crv = (case (CURVE crv, raw) of
      (Some c, Buf b) \<Rightarrow>
        if length b \<noteq> cv_len c then False
        else (case ed_decode b c of
            None \<Rightarrow> False
          | Some pt \<Rightarrow> ed_double (ed_double (ed_double pt c) c) c \<noteq> (0, 1))
    | _ \<Rightarrow> False)"

text \<open>\<open>asn1.decode(spki).children[1].content.subarray(1)\<close>, whatever it throws caught.\<close>

definition spki_point :: "bytes \<Rightarrow> bytes option" where
  "spki_point spkiBytes = (case decode spkiBytes no_opts of
      Inl _ \<Rightarrow> None
    | Inr n \<Rightarrow> (case children n of
        Some (_ # k # _) \<Rightarrow> map_option (drop 1) (content k)
      | _ \<Rightarrow> None))"

definition validateSpki :: "bytes \<Rightarrow> nat \<Rightarrow> err \<Rightarrow> unit res" where
  "validateSpki spkiBytes crv e = (case spki_point spkiBytes of
      None \<Rightarrow> Inl e
    | Some point \<Rightarrow> if \<not> ed_validate (Buf point) crv then Inl e else Inr ())"

end
