(* ===== verification/Edwards_Root.thy ===== *)
theory Edwards_Root
  imports Edwards
begin

text \<open>
  The constant \<open>SQRTM1\<close> of lib/edwards-point.js is a square root of minus one.  It is a power of two with an
  exponent of 253 bits, reached by squaring 38, which is two to the power of 256, another 246 times; the
  quotient of each step is given, so that the steps are multiplications only.
\<close>

section \<open>Powers\<close>

lemma jrem_nonneg: "0 \<le> a \<Longrightarrow> jrem a p = a mod p"
  by (simp add: jrem_def)

lemma jrem_range: "0 \<le> a \<Longrightarrow> 0 < p \<Longrightarrow> 0 \<le> jrem a p \<and> jrem a p < p"
  by (simp add: jrem_def)

lemma ed_mul_range: "0 \<le> x \<Longrightarrow> 0 \<le> y \<Longrightarrow> 0 < p \<Longrightarrow> 0 \<le> ed_mul x y p \<and> ed_mul x y p < p"
  by (simp add: ed_mul_def jrem_nonneg)

lemma ed_mul_mod: "0 \<le> x \<Longrightarrow> 0 \<le> y \<Longrightarrow> 0 < p \<Longrightarrow> ed_mul x y p = x * y mod p"
  by (simp add: ed_mul_def jrem_nonneg mod_mult_eq)

lemma ed_pow_loop_mod:
  "0 < p \<Longrightarrow> 0 \<le> b \<Longrightarrow> 0 \<le> r \<Longrightarrow> r < p \<Longrightarrow> ed_pow_loop r b e p = r * b ^ nat e mod p"
proof (induction r b e p rule: ed_pow_loop.induct)
  case (1 r b e p)
  show ?case
  proof (cases "e > 0")
    case True
    let ?r = "if odd e then jrem (r * b) p else r"
    have e: "nat e = (if odd e then 1 else 0) + 2 * nat (e div 2)" using True by (cases "odd e") (auto elim!: oddE evenE)
    have "ed_pow_loop r b e p = ed_pow_loop ?r (jrem (b * b) p) (e div 2) p" using True by (subst ed_pow_loop.simps) simp
    also have "\<dots> = ?r * (b * b mod p) ^ nat (e div 2) mod p"
      using 1(1)[OF True] 1(2-5) by (simp add: jrem_nonneg)
    also have "\<dots> = ?r * (b * b) ^ nat (e div 2) mod p" by (metis mod_mult_right_eq power_mod)
    also have "\<dots> = (if odd e then r * b else r) * (b * b) ^ nat (e div 2) mod p"
      using 1(3,4) by (simp add: jrem_nonneg mod_mult_left_eq)
    also have "\<dots> = r * b ^ nat e mod p" by (subst e) (simp add: power_add power_mult power2_eq_square mult.assoc)
    finally show ?thesis .
  next
    case False
    then show ?thesis using 1(4,5) by (subst ed_pow_loop.simps) simp
  qed
qed

lemma ed_pow_mod: "1 < p \<Longrightarrow> 0 \<le> b \<Longrightarrow> ed_pow b e p = b ^ nat e mod p"
  by (simp add: ed_pow_def ed_pow_loop_mod jrem_nonneg power_mod)

lemma ed_pow_range: "1 < p \<Longrightarrow> 0 \<le> b \<Longrightarrow> 0 \<le> ed_pow b e p \<and> ed_pow b e p < p"
  by (simp add: ed_pow_mod)

section \<open>A chain of squares\<close>

fun sq_chain :: "int list \<Rightarrow> int \<Rightarrow> int" where
  "sq_chain [] z = z"
| "sq_chain (q # qs) z = sq_chain qs (z * z - q * P25519)"

lemma sq_chain_append: "sq_chain (xs @ ys) z = sq_chain ys (sq_chain xs z)"
  by (induction xs arbitrary: z) simp_all

lemma same_power:
  assumes "(a::int) mod p = b mod p"
  shows "a ^ n mod p = b ^ n mod p"
  using power_mod[of a p n] power_mod[of b p n] assms by simp

lemma minus_multiple: "((a::int) - q * p) mod p = a mod p"
  by (simp add: mod_eq_dvd_iff)

lemma sq_chain_power: "sq_chain qs z mod P25519 = z ^ 2 ^ length qs mod P25519"
proof (induction qs arbitrary: z)
  case (Cons q qs)
  have "sq_chain (q # qs) z mod P25519 = (z * z - q * P25519) ^ 2 ^ length qs mod P25519" using Cons by simp
  also have "\<dots> = (z * z) ^ 2 ^ length qs mod P25519" by (rule same_power[OF minus_multiple])
  also have "\<dots> = z ^ 2 ^ length (q # qs) mod P25519" by (simp add: power_mult power2_eq_square)
  finally show ?case .
qed simp

lemma sq_reduce: "(a::int) - q * P25519 = a + 19 * q - 0x8000000000000000000000000000000000000000000000000000000000000000 * q"
  by (simp add: P25519_def left_diff_distrib right_diff_distrib)

lemma sq_step: "sq_chain (numeral q # qs) (numeral z) =
    sq_chain qs (numeral (Num.sqr z) + 19 * numeral q - 0x8000000000000000000000000000000000000000000000000000000000000000 * numeral q)"
  unfolding sq_chain.simps numeral_sqr sq_reduce ..

lemmas sq_eval = sq_chain.simps(1) sq_step Num.sqr.simps arith_simps

definition squares_1 :: "int list" where
  "squares_1 = [
      0x1d306ce281128fce07e8c, 0x42b3ee4260751512061dd34c240b716e4b7c2cd597919513b586ab73aad778c,
      0x1e2322eb16e728036477bdabfbf2e66524cbe80cb047933ee0f600d59955a8bf, 0x7dfc6a85cbf92237967077cffc6ca0158a404e37aac8a8e7f890bee26bd3503b,
      0x6076fa17df5311e0135aff201f19e464859dbe03f411d936ee9aa779b47ccb3, 0x1920468503824c27d8b8c058d564a16de826768a20c9353b6e200bad11be9b85,
      0x1793437c735d487d3ff3c72e54cf1117c3a7e743747a518c8d20057f6a605e2f, 0x14b9ecc410cad76882c71488b709b5f038b0e907cb4c8cf70e90f3203319b68,
      0x287f1c2a23ea03ef5a6b3a225acf34f253ccf4f80556d160d19d3e34ae0eae, 0xa73ee3c8f056d71cba1e6522eed40283a271aa6535d6a18ad057cf3c7cb0d98,
      0x18bbdbd118bad00a5728056aa722b4d672d483c3212b8ef519bb15ddbdc399b5, 0x1f7cfd4c3a45588bd1ff1bc2392664cb02c8c27f2b2c2e63c6df1db895042779,
      0x6ebeea94a3496381ce0ff2400e39e6550b1cbec6c24309346b6137280cef409b, 0xaec7897a9efc5f928de5ebf0d39c4b92accef060d879eb990a4c123314c305e,
      0x5d6ae19ae528326963cc1c0798852f46fc811c9957fc2b2c456883a145e7e02e, 0x51a5caddfd06dcc100d35401da2f2c343022021976b6cb1aeef51dbc59d4ec,
      0x1b09f13554831e80f75465a06c90675d577e0c03eb4aaa9d816648b720fc05, 0xfaf2f4ec01a59b27f10994c22c79d6cdd87615d2cda2eda0dbbc1984c63f56,
      0xc07c05d34aefd0e7b4ffc7f5ad2cec179af5068edd9bb90e7eabcbaa22caafb, 0x6e0df1d22a5384d4cd309bc47e275197725167f919f21b5e770dd6dce5f5208b,
      0xde05f345be22ba439364d25395e74953470417807dd0968d2929e16003495b, 0x4dc5847e5a39d63e585b3feeaf18a4fbc1ed9c62d6c8d09e09948166c0867f,
      0xc873ecfd5e4c860ded239183300443bebf12f4048b8f23b39dc4b50d172d83, 0xd10d2adbbd9b46a81729de0276b8d17b63fa5c395d5b33ac3951307d19db7d,
      0x285185ac01530967d9dedcb090e5e9f6664199c396c4733c1c5d2fb032d5fb27]"

lemma squares_1_end: "sq_chain squares_1 0xf47f8e6ff27eb1b6217e62946163d3048100000000 =
    0x13e655a7969cf77db3ed15117dfcbc2ee50c5f21513aff27bb97a9f03f144d9e"
  unfolding squares_1_def by (simp only: sq_eval)

definition squares_2 :: "int list" where
  "squares_2 = [
      0x317ffe9cc4d4d06e8aa61c90583da385d230ad0e61ee93f0d5e26c661c98462, 0x340e1d36a4408633bc8a734f6eb43324166e540091ee9c8fd79a58eb72bd5f,
      0x15a889aea75be2c67aca70a592bcc7ba3a3a7a131b4801cc955ba1b45d77cc67, 0x18bc4ef329c29bc1c2cf18102d61b956d71b10721b4cf5475342b0540a1ea97d,
      0xc59e5e471be8b6f9d11bf2e31418d821828f7d68c5dcafa306c7180be8a80ee, 0x2d197696150898923239d084e7a453097c7ea3753f136895d4b1c85ec26e3b52,
      0xd656c47cf02b25bb3451b9f32d6da11d9a39f91077dfe2ad6937429347218f6, 0x116e600c5ded314a460d438682df55229d923039a00a1f4d89787b28723d13c,
      0x30d7a9ec90b0ea7b5d8aa80c8bfb68e83fa7e43255753ad9b32cc3a6adfa24b0, 0x2060918f8d8630c539a761f52321c698a461419edf473dc5077a9e7b660a8c92,
      0x7a109e616aff5b604fe4eb2541bee6ef6bd3a6557a0dc831a138cdd18fb5ed03, 0x611054521851ee1c01f5e26845faf6d6ec270f8d0abe715656cc44c015c487ef,
      0x8ec2f8a5658860d63477419ae0be084a8c0a39437c1aef50cad0555dfd464, 0x27963b015176b18cdbcbc1ead6cc33029a13ed711e563bdbb164da1b5a0aa8bc,
      0x33dd906a95b5d15a68e33b6e799783428b7f8b3d62368465c16685b798dbb22, 0x259f2f1cfe03d996cab7d34647c1b41f22c207219199425aa54683fa4c7565d9,
      0x1e3784880b2c22516912750b77122766f7511c51032966e931a0a5c0d99d94c5, 0x1b8beda4ab40eb220fc534416a16302c9fa8a93e353d2fb28217547971e80283,
      0x48e8633ee55d3c95ea76e5a694cf8511f808d2e64385363cddf27df7268f945f, 0x4bdc4a0c254e4ce01178d2f8f9b23b313024823e28c22e65c325a07f604403ed,
      0x1eb41397271dff4c098d3de35bd9451a2f88a63e6f63b5c961321e938297704, 0x129647d6c339f0eeb8706f9d51873681de48f9c81aedae8a442a47a0bdef6630,
      0x4eab7d3b2c76081f2f3fd9a74f72bbf62e8c4915bcbfc9b3e5860f9ab58dc032, 0x7a6d38b692d4d55606ffeb37c00c5e00ff95771b229fbfeabaa93632a9006535,
      0x155d49654b420ce2c23aaca88618b30adc3c533fd52c3f81dd8c44974911e5f4]"

lemma squares_2_end: "sq_chain squares_2 0x13e655a7969cf77db3ed15117dfcbc2ee50c5f21513aff27bb97a9f03f144d9e =
    0x33e763531f21913a47f064f723729596f841d836308160db5efd2c3edfefc05"
  unfolding squares_2_def by (simp only: sq_eval)

definition squares_3 :: "int list" where
  "squares_3 = [
      0x150c056f09e5e704f370022445e02a81365fb51278abf79da9623ad3827349, 0x3670f4bb7f1443a355307bef7a4c314cf14d3ce06afbd72ef6dc2bcfbc5b06bf,
      0x4a05b1a512c989a27450b73b70c8742421cfcad4565d81f5dec178982a6cff84, 0x2de3f7d069a89a1af1a718479a581e0853e3782fc23105cd19535eedbb3c3e00,
      0x1c2119e00fa1f191ddb4dbde289570d3dd109584dae33b7fd2e7f3c0c5b0217d, 0x11bd17b198eda658496026eb214bb38ac990b49ecebaa9d270d8b28139fe0d7d,
      0x79675d5df04437486847515cefb81f53014a73d0e8828283ffdb8424d25c7e38, 0x1aefcc0ad29114dae7da5b232bb471a7e516d484507117e054abd08ac0a1816,
      0xd2da981f6c3ab6c57cc7b02f0b63405c5bfcb8b33c4de1d1f37cdf6988666e, 0x44e9e020d66b89d9e6fafb882487b700d025426b70c683ce7b9104864d56a68,
      0x226cd8b4477084628ff05ba33dd325edb3cca8675983f5efa54daab5f522dab, 0x68e9ff3af9b81f27d298631fe18fbe0134eadaecaab88ceb90064fd229ea8aa,
      0xc8b1ae1d6fffcef04b8eb14ebc2d55b40105b53cd8048dbc2e15aa3c95ecf0, 0x48dbb6b88ac48cec38b0d66ab81afa1aacc51f63120ae5c2428ccfc5e2b00dcc,
      0xb9a73dc99132381a9c8511ddbccf6308483a20d5f270df02b2bfa5202bf85, 0x20b8eb706711793a521bfac09767a4473981bbb0d8da2a44b1901d1300c29a2e,
      0x4118a9cf3d88ddaac1f0d2b85b4c5ef185ef5894bc0eabbe55d617e5d89c1391, 0x41cee47f95f2814d19441649c653bdf01623ab5ca64584e9d5a72fee3b1ec4f9,
      0x21898aef94b657106624e9b0cf4992f2ad989e6cdd940880c1559000ce7b19ce, 0x49e5aaf3f7f140cc10406a9556dcb22a7f5a76d83cac7fc8dc0cfdd1d9e2999,
      0x2e66337d5c6581570140fc4e4bc3126fdab11137343a55cced1e57257876eae1, 0x3d519d30aca17cd601fdfc2642f2ab3af7859f82f1c1d81326b5cc5649060010,
      0x42bad780121666b82adaa8fa4f6c41497500805703c9e53a533dcd2aac87e37, 0x1b8fc444225acbec41098ccf141f22ce7ae3692c7df8f36324ab45e7e74985,
      0x98c293b41181a21c9081ae507a3253c32b85b659051bcbe216226f552de585]"

lemma squares_3_end: "sq_chain squares_3 0x33e763531f21913a47f064f723729596f841d836308160db5efd2c3edfefc05 =
    0x2d2176a3627edc1bdc19663b1c4a815c8c13365eb551fc49469b91c1101be4e8"
  unfolding squares_3_def by (simp only: sq_eval)

definition squares_4 :: "int list" where
  "squares_4 = [
      0xfe9902a7b760a5421d60c8325ec55489ec54584b04b9afb4742b965e5b386a4, 0xf8457b63a741f14c9aa7d3a1417234e8414b29f2cf646b189bc836461b7f80c,
      0x5e2b433c527f39de7bdb52a5e874876acb2bb9551a76221e3c35b9ce8ee9e804, 0x92581db7c91eb9582299ccec213b42ebea8fa0ef351b07cc2202ad91cb356ba,
      0x7b14469f4aebb6e343a00830d48f1a747c179a60fee0c10f25d77cc0a13fca45, 0x317b64d4f83b08be6bb850378eb417eb7a5400d0aeedf719ff16671e5b93865a,
      0x6cfdc55bfc87dc2b05917b413faa8e080a4183836b776ba6abd1032b233d3707, 0x390ff14f6a8923f0f1487208de52fdb7686977c39567528ea043fe58427a6145,
      0x46c8adbd8ca932f6d7312a77d13d8720d816fb3c3ba1d5b5506ca74fbca2aa04, 0xaa062235f4de5d5772b17fbeed1c79a7a07a7a630a87cad69d9273b1148440,
      0x5663e7432fc07c2d7a2e366d68ab6625e36302e51d782679935ef8b968f244e, 0x3d635b1253f974d5ae46952a64831182373e8d4d5ca3de4b0aa2161c9c9c8f2,
      0x633322d329a009de2b05b592d2ec54f91ec01da42d55d9fb40a9d74a1e1f582f, 0x5f4b1f1b3eb0f10ab26a994a6eecb9bdc8cb53b4ed7909b2317eca3fdc199677,
      0x25bd888434f363fac767280a57695de7936a5f6ee80bec091c8d50f1b23d83d2, 0x22364969d38f2cab0434c6c3937b65adcf3dae66e133c75c4c0a761cbbeafcdc,
      0x7d77379ee7eb18202ea61b3f6aa729b8055f3d2a4853e018a0a7d11a704c1867, 0x1771d459069b62ee1016f3ff1effa4a003bbc01a22365d2a31c4f4fdd1640c05,
      0x738e030be161f30876ef480105006f737e80e515741c920e786d0f7de8b6234b, 0x705bee51abd138ad8b39ba8c778023a3f3a076ff8fe578a3619f4f9d48cdb6e8,
      0xb8b392370f5ebd026e51a1bb0ba9bcae9e9c926c960d9712ec0ed203beb8456, 0x7d7e5bae20e9a72ad507de5cb3589d8143c4cbc767a78a54be98852e7b2036d,
      0x425d9a736203c3ddb94a40d22675ad9fb63af4de4558e4ca332f44c5e8d58916, 0x140a8a1e869093a68edb9f410656295324a504193445f90d67a36b326408187,
      0x4920feccfc1fbec77737efa74595cfdd5733109f381029161e67fccf6a5b9bc1]"

lemma squares_4_end: "sq_chain squares_4 0x2d2176a3627edc1bdc19663b1c4a815c8c13365eb551fc49469b91c1101be4e8 =
    0x7ea2a971352f26668b25bcd722559849791f61749ccb2a412797447c3a342ed7"
  unfolding squares_4_def by (simp only: sq_eval)

definition squares_5 :: "int list" where
  "squares_5 = [
      0x7d490c4ca790c783944234f60b7f93da5fa8125ab74140d0ca27eb03753d6d67, 0x862b2ee94005b265ed7233dd2ac739f9e33caec28576edfbe7f0efd636c09c,
      0x15fe6266a33af9d5903a61c52f85a74afe5b0a9172e5b64ddd0016a2228c451, 0x75ff1b7973e19ac47069d6ff0e21a1ad26e02d4c9a9376d4e81731a02ec6e84c,
      0x583dab035e4d1056716865b2f2354ce7917e8ca86c3630f441eb6ad2f22c8acd, 0x53efa753348b4716a82faf5acc4407d4c298cddb7b8c2662c6898c1ff62cfb4b,
      0x239f978509bd582dc20dcb15343f24a7344bbe432988cfec973861063d87119a, 0x6f4412750b41d84a7b6f34c9c543d46509235ff47466d494b5106b3f440b2409,
      0x27f49ed43b800a217052534712896898e3ce6d98bb1e969700eaa48a68490c7, 0x2ba15980ff0b6c0fde96fdc3ae3ec2d0611e462ce5cdaa6d3b2a51e5a34fc5,
      0x4360fbd677178eed82426a73c3fb55f57f4ada95c503680721959f463aea3b3a, 0x2fc474724dcf8183879e8dd971f479a7bd00588f73251d7200dbf53dd24fbfb7,
      0x367e7af702c5f3c875bbc69afb68f427da4fab2455e66d32c81ea2709a35d81, 0x13a2cb6a342b133375b4580ae75c7d84bf645ef7524541a18f4a725fca6f3e11,
      0x46f9896ddb3e5e3724d3cc512e8c3628b1d0586f75ddde04750795efeceaa15f, 0x6f0d10348bde448dcd0f798b10e11b74a7ccd542111d5743a095c5be03443c94,
      0x2adafcc6b5f78456f3565ec4d549b41060b8e83e81ad7336c0f41137d8268ba, 0x7b71dc6ca266f2ef0f779172ff7153bdda2c04e4c34dcf4cdbda8884e25675d,
      0xbc12704312f09f2c1d33a8e09db9e2340c31982da2d0252d2c973aad41488, 0x43b2c24e4cdb5e5c96a641d814a92b20cdc6f8e87e1e5dce9d2a68431a70e7b8,
      0xbb1c1351cb79d673c3d96679c0f8309cb0161206d92c823b0b308b7225c95a, 0x30bec34fb7c48bd37b9f65ce5c3adef96c355c7eb899ecdd50a20eab5ae9ecae,
      0x13050eeb7147596e1d60f9ef248b80a761e13114603e3062bacadefa2a4b3f76, 0x30d12e872171de8717595f866b884efa7c62439165bfe2f6c802e02f3736093,
      0x2f939e2a286e6bded7ebd2f3d8c7134f4dd7a1fb805e4a6a688b2f2e709f5fa6]"

lemma squares_5_end: "sq_chain squares_5 0x7ea2a971352f26668b25bcd722559849791f61749ccb2a412797447c3a342ed7 =
    0x39fb1ebce75026fce545056dca37a65a27282a042f38c043cc1731b5dec95956"
  unfolding squares_5_def by (simp only: sq_eval)

definition squares_6 :: "int list" where
  "squares_6 = [
      0x1a43940ad2403448d3c134ca7b7ddd5d32a9911daa37a9834fcd72f4708cd49a, 0x7640fdb6e6eceba94257fa0f63030686bdd08448c1325e634608b4295efa81e6,
      0x3e6a30e90aa03080a9a585a2c2001e428196f2abf6e7d3625516555461f4cc44, 0xc91b16aa8393380285ebf08cf324a1bf399774f5ebbc32b9021adac829609a7,
      0xdba1d8f5918483e4ee6a17295da4bfe1d00f1af2cc6e3962ea440fa1dd280d, 0x4838bddbbf9a63545177b418f19695a05848a36a5b303e079ea045ea03b242,
      0x1fab1c6eecba5bcd1a5186867af4d40caa31bfcec2e44d26bf7ccd55bed451db, 0x7cd8170bfe7a2a4995ff5d12d23b6badff600e9a66a0f7033e0d6bf9cebf36ac,
      0x148d36e2367c0e235f41b025cb29850479f1dfeb2067a722a1ad1a76b0de3826, 0x2c44b23b2c327e9f112a4a5d221bfb751c2eacbe686f6eebbe8ff597e1d03ebd,
      0x75117bfac7c2b5b2f4453ae21597f8dea533b6dfb4b015ff57cd720d08001127, 0x714ec12bbbf16bc31879262af1be5b038cb0ba318bca02a0a54358acfa17b76,
      0xcdeb76f62b7999e434b03d8cb42f56bd1d5eea671b8c6093677b7ed4197c995, 0x1d84752fefcf896880bfc6a6cbf79531c9d44a7b67d63df2ed6f8728332d7a36,
      0x48b57c4831d2e8e1c239142688ad1aed1ac1bd36306de7a5ed614c5047454cf, 0x6a93ba90ddc5867fd7afe50994b91cae104a9299ed6823b5b27bed6d514e2763,
      0x485be64aa3b96ae49bb7d3df3b80389d8d31204af9ae279968c98adaa24fd012, 0x734b9f515ea198583a3c1824113be1023dea0e2943363f5c9cf96617a1c5798,
      0x46df0a1aeb8663b8f97e88ce500adbe785f456407060bab8c09256a440aedab8, 0x530002e6c98ebe156071aab159a9c6eee9ecba6074cee21c2b81df7b363c63f2,
      0xd32e186148a53491084d930267a8d00c76c1078a5f81bede1eb13bf289abcda, 0x6a5eced9f936b4791f75500ab20db6697e7fa638a69666b44736b94f91af22ab,
      0x185d876eb1f0162aedcf4f25908346d8996398cc884d073f700456de07c5d593, 0x6bee247ba9cb8fc7e484c2a355ed19f6d1211d7faa0ce2a330b8871b91e13a53,
      0x6c6bfebeccf25e50c64f0b310f2241ec81649b18bfb9ca77d56e61ccd5b2d6bf]"

lemma squares_6_end: "sq_chain squares_6 0x39fb1ebce75026fce545056dca37a65a27282a042f38c043cc1731b5dec95956 =
    0x1f9044f35579a0d0629690eb107432ca9c1969f17b5b5f4f6e23fb39a88b9f16"
  unfolding squares_6_def by (simp only: sq_eval)

definition squares_7 :: "int list" where
  "squares_7 = [
      0x7c88401260b94f6c25ebe15d179f2e5a87afae45b582fff690eb8f3db908bf2, 0x45b68814959f406f6fa24c49709f746069df7c20d0bb4773f4f5040d8d2a2ce6,
      0x773408678e6a038066b80a1eed5f603703c32f8eddf494cf0f4f640e3693c32d, 0x6b796d08c39865f3931d878a9c1c76db6a83c22efb740005ddf3e99622a83be,
      0x7fbe0f1f8b76e7b436c0f07dd57f450365ba63842282ea56e348aa4ffe03c2f0, 0x1fbae2a2145ec71973ca245551c9f97189a79f81747efa75ba7379895ae628a7,
      0x259334af19111043df6dd077f52d6a8f52d8d9f558efa4f031d49cf7fc5efa86, 0x5c510bc1c014c29bff26a9b85145dc2760327df180a7d7fd2b4f17de505cbc,
      0xfd02ea8a411ad0e8f1d1b4bce9674f86824e964449a6a0d48e9bba2793d7a31, 0x5a25887f409be621694d0b25245d0e44e9fc013c55c5fd110abef4d716fe6c4f,
      0x1e0ed619de76964f4f32c9002570849be50d58f2fedbe0f9b0907821800c84ec, 0x59e995ade1db8039b8f269a8b46a44470af0ecde8ecc411c713822434aa38b0,
      0x2949c01c51662f9200ce27fcc0e5817c9f801c81c6ef45a99edeeab46883419c, 0x5dcb049fc387e4d711cc9d24f8ea35b0d158931ab4f4562fbf2e037492033e2,
      0x1253da0f40049f6dd9682a04b0dc40654179ab6817151320136dd5345b457b, 0x62ad9d7a4ce87027d7ed7396b370850c043949cdeeea6f13b8c9dedca0145a18,
      0x17a1c243d25baff2dce90ad7963b3da61cd36417a0f190d6520847af1ff2370c, 0x5c17bc710fe67fcc20c9a2fa8154fcd9f2cea8ae1e4cfe4bb8a3a9975e3be66e,
      0x1a66d015a8f4d9ecb21ab24d15a9ad21f2e3339647cab642f0a89dfefcb461, 0x682804124c221d005f3488e2350649fe81c8482eed47adca8bbc158845de72c,
      0x193cdae5d1de5bfc761baeb93cd046f198a7f7ea27cc3ca50d39a5019446eabc, 0x58271277eb7f1fb29a8e2ff89d8b73315e0d2695490277d87ed804d3f4f43471,
      0x9ecaa1bd0d663e1a470fb721ee081e941cfe423aaabf20d7aaac2d8cdd563d2, 0x161a0f963e80d70f5516fc817de38f048ff8ca3bb3e3c1fa30abe2a545355b6a,
      0x596e172083fdbcfa028811be34fb49ded2ee90ef0bd442beb80da63e8878d4]"

lemma squares_7_end: "sq_chain squares_7 0x1f9044f35579a0d0629690eb107432ca9c1969f17b5b5f4f6e23fb39a88b9f16 =
    0x559ee07dede0470900c935f7df3b7ab27e72db24125af81ce27ee2067fd8dafd"
  unfolding squares_7_def by (simp only: sq_eval)

definition squares_8 :: "int list" where
  "squares_8 = [
      0x3945c75b008a5c7ca0017cc65422e8d4449677214371cb5a90bd26acd56ca255, 0x59b312b90c196f5085dbf0f6c005147c5aa0b1a598d700965900abbf974ce225,
      0x252646bfe0740d5bb8fd2ec878d3e08accabdfe00223d3ec9774c80739b2784a, 0x5e801791279185d5c26741a9f8e1a8595c6591d0a09f20bc88a14949b6c550f6,
      0x17aab59ee8f06f21e9efcdc678f940bd2b88ee8c53776b3dcdada123c37b8a4, 0x4b09907d59f032cbe7fc35eb100d9a2bbc914c6a2a122f986e5b03645be98c36,
      0x3bec225ca413e1fbfb1e695343d5138a89f7a55666386d7b05143a065248eb8a, 0x81812f6b88709bac21101daa01438e46919a5a6c1ffab7681a811b5e32e29c8,
      0xe9a9a217328e1265e70091bd4b1d325934f3c94a90ad3d30173fe827ffbe336, 0x29be4e4e1dc06fe2a47dec1baa2c3caecd55c2bea2c3f8cef5b2bc720a36f492,
      0x1eccfcc6fbb5f8a5d54f5fddad605a82f5ed65cda70b3e23f6436df620e05bb6, 0x44fd8d172ee787f7cd21bee8c5c762559649abdccf94367205920707094214cc,
      0x18bf14330f304a9b7d2c144bfb91c1d1944f8b31c18ade314db0f0189dcd7b7, 0x12ac3ede44af33f860d6a2032995fb5318d14612da02393838c88b4a36cedaac,
      0x4a2f301aecd2a1c17e6674701f0b7b00d2244d0d3e09cb32946df6553b6912b, 0xfffc86aa9c3d5d678cadb36645b62b4d54c9804f6a3df420a3c17a57b7656e8,
      0xd8044a58026632a8ead2ce499e480cbc30fef0297f1c78d811ad12899593e3, 0x272f1e1b991c8f4afa12f6478673eecd25d4396c6a248c4dd4c5e6a6a42a08ae,
      0x73421070782d2a8f16e7d4faea60bc2911fae22994809af0a8cf179d285bc62, 0x10d392e034619ee76e7c1ec20087813581368cbb0ca28e570ed67fd69381766,
      0x71c07f1260a5bf68fbd9692e5d9b14a89bcc592391dad596642e979a0a0c51b8, 0x5dcabd01f6188728beff858c47b5092efd0e5cceae4dad7e803431f365284f79,
      0x22f29757497f6468b93b4a5f5fe64e191673e9ea1218172a6d6dac7dfea6bfb6, 0x78e185912b5fef5b91d88db7e31dd1f83175d3c0fb10f127432fa2fdd54c681d,
      0x1710305b9623300e31fb913f5de26fddd6fa3f2364408888fabc581e9b5db5c]"

lemma squares_8_end: "sq_chain squares_8 0x559ee07dede0470900c935f7df3b7ab27e72db24125af81ce27ee2067fd8dafd =
    0x4bcead0dd3a0b16888cdf53b53ee486f23453b203ea4bcff4aec9ee2fb3e57d4"
  unfolding squares_8_def by (simp only: sq_eval)

definition squares_9 :: "int list" where
  "squares_9 = [
      0x2ce580822278deae42e0dff8804c09e5b366bd98b2f7c3bc63f4fd30e8cf2f72, 0x187ed177e1336e6470a41d7a626506e1a739306cb255008aed16513a139c349,
      0x6697f197bb7cee25690da83ff973dd6ccb26a70be747f1ea067b9e2f4344421e, 0xcfc08596c36ee4110a40c608dfbb902f6abd33b1f99cd4959738fbd2003fdb8,
      0x1520b732d2235140115939664c0fbd1a18b30f00ae9e9ccf7c59bd004a59b799, 0x145e5323aad619cfff830a0ebfa9b07d6fe422d0cdd9672840f1faf9cf6f9918,
      0xcc48dba294690fd0e749e3f25410d83f1c795910d632d28e6606a3ee8be613e, 0x3a45cf712c9dacf4efb63aa166539f3575c5de2991e1103a96d98b200005efc,
      0x56c03cc41d9f39887be44d1465e061a62efed9d6a9961f1324f10ce2771147b5, 0x75c177baaea8bebc7f1675a5bd05e25f4ad6b2ce65933da281347d3ebb42fd3b,
      0x45687bf0a77d87297ba0fc3586faec7daf93bda9baf05d8da6465fce05614ca4, 0x5c7a17a80fefc262d92658968f5bb0bc0740a2e867be3fc03e80d9855485be7f,
      0x5619f2a9c758a1d414cdac166c585d578f75696802e3f14486a16114c0e3b977, 0x17387c2c0392cbb79a7402e091a851fb4c77e50e7e91927d4ef85961f39ade6e,
      0x11b7554ee19372e7f471fd130001dd4dbe0497f4e13174b1498dcf9f0be15, 0x3634995307422efe8bb45a39ef97fa42ea4be2ae9be97af4b0f1062021fe0fff,
      0x3a19d661212bc14f6a3467e3dc0685ac1c4dc41297f6e4e97411f31d0bcb7ecc, 0x2b3f97076a52e9293a0a33e50f4c789c760f9bbca10ae8683493cf6203b82509,
      0x2233215224fe2fe06cda16c1ffd37b51e8e32f83283ebacaddab60b144d49e0, 0xbb953d15736dcafe790b3852320da6ee1b35632608a74ccbdd7bc7f6e940bcf,
      0xa59a74f25dfd505714200a1ab6450be5167df3a7bd5be2600acd6aec0b8730, 0x3ea12dcac9676b2e576dff10142c294f30bdeeaf776251cd8e23980303d89415,
      0x1c5a0bfae80af3d360b4788591a41fcebe92f12befff8bc6469cbf37fa89bd35, 0x48334790a2a4b96d60dc946fd19d9a9e327ccf1b0710b4bfc9a91cce706ef07,
      0x3b806d4ceee81cc5069222f95b2358a6bd713b4a71f977d5e8231a53a13373c]"

lemma squares_9_end: "sq_chain squares_9 0x4bcead0dd3a0b16888cdf53b53ee486f23453b203ea4bcff4aec9ee2fb3e57d4 =
    0x620e4b129a64b32ec074adde1331939a90b56dc52a7f215a1b9d61de09027a8d"
  unfolding squares_9_def by (simp only: sq_eval)

definition squares_10 :: "int list" where
  "squares_10 = [
      0x4b1de48d1483c808f17490d265838dd84b01eeb8864e456b6cb1d5f10ba1e070, 0x1f1c1858604a505580f4400ae3ec444778a7d08dec8f2f3497baf56984d22e3e,
      0x640acb052972476b7986bdeef38b0aee472ba9be6e4cda769415a602db397cae, 0xb4e646bf2fdc5b273cdef3a06245bc03acf84519181b39a687bcf6615de4623,
      0x235d0546a808e9b5305e9edfc2ade1691d143db51a1967ab8fd46c26316fd58, 0x23d8859d467d496225462afa2b55f936e885ee525b5c7e0fa8e0a74cf3f6cd4,
      0x316c75d2f1846ecb77c9ced7f903d36843ae909d70ef1b3ece0110b4c7cfb8df, 0x4cb8943d6d49873f804c278aca423fa1f29fded4c6f54e1471bca7f2615d1d,
      0x24c286e142fa1c397f866da2ccd7917d6ca5ab44a49b92b4d74f5a71ce5a6833, 0x23ff254b8dc7a1c1787655388428685752f02dbaae82bdb74fe34c64bfd8313,
      0x64c5ed70684156521f2f9705c45c2b2e1360db67e643fef2bd887e9808c61ab2, 0x668cf2f02945a20ee3d750ac07b6b431129da0a895298a8d472f96f0b4658a5d,
      0x7e33ef08459e17d97af564270d3f0438e12188cd59b6488c2f5013c9de0fea62, 0x2c02d646d42499943fe4add1ab839cf6644ad60e3d757f199c75f4d3ff525112,
      0x10910a2cec140a73934b15f66741ab48beb611d225bf8d2677b20fbbd12228bf, 0x62b04b132413174f2c4530fad27efe980bf87132d7f10d3b75765b4f4139d493]"

lemma squares_10_end: "sq_chain squares_10 0x620e4b129a64b32ec074adde1331939a90b56dc52a7f215a1b9d61de09027a8d =
    0x7ffffffffffffffffffffffffffffffffffffffffffffffffffffffffffffbed"
  unfolding squares_10_def by (simp only: sq_eval)

section \<open>The root\<close>

lemma P25519_bits: "1024 < P25519" "odd P25519"
  by (simp_all add: P25519_def)

lemma start_square: "((2::int) ^ 256) ^ 32 mod P25519 = 38 ^ 32 mod P25519"
proof -
  have "(2::int) ^ 256 = 38 + 2 * P25519" by (simp add: P25519_def)
  then have "(2::int) ^ 256 mod P25519 = 38 mod P25519" by (simp only: mod_mult_self1)
  then show ?thesis by (rule same_power)
qed

lemma root_core:
  assumes e: "2 * e + 10 = N" and N: "N = 256 * 32 * 2 ^ L" and z: "(38 ^ 32) ^ (2 ^ L) mod P25519 = P25519 - 1024"
  shows "P25519 dvd (2 ^ e mod P25519) * (2 ^ e mod P25519) + 1"
proof -
  let ?s = "(2::int) ^ e"
  have "?s * ?s * 1024 = 2 ^ N" unfolding e[symmetric] power_add mult_2 by simp
  also have "\<dots> = ((2 ^ 256) ^ 32) ^ (2 ^ L)" unfolding N power_mult ..
  finally have "?s * ?s * 1024 mod P25519 = ((2 ^ 256) ^ 32) ^ (2 ^ L) mod P25519" by simp
  also have "\<dots> = (38 ^ 32) ^ (2 ^ L) mod P25519" by (rule same_power[OF start_square])
  finally have m: "?s * ?s * 1024 mod P25519 = P25519 - 1024" unfolding z .
  have "(P25519 - 1024) mod P25519 = P25519 - 1024" using P25519_bits by (intro mod_pos_pos_trivial) simp_all
  then have "P25519 dvd ?s * ?s * 1024 - (P25519 - 1024)" using m by (simp add: mod_eq_dvd_iff[symmetric])
  then have "P25519 dvd (?s * ?s + 1) * 1024 - P25519" by (simp add: algebra_simps)
  from dvd_add[OF this dvd_refl] have "P25519 dvd (?s * ?s + 1) * 1024" by (simp only: diff_add_cancel)
  moreover have "coprime P25519 1024"
  proof -
    have "coprime P25519 (2 ^ 10)"
      using P25519_bits(2) by (simp only: coprime_power_right_iff coprime_right_2_iff_odd) simp
    then show ?thesis by simp
  qed
  ultimately have "P25519 dvd ?s * ?s + 1" by (simp only: coprime_dvd_mult_left_iff)
  then have "(?s * ?s + 1) mod P25519 = 0" by simp
  then have "((?s mod P25519) * (?s mod P25519) + 1) mod P25519 = 0" by (metis mod_add_left_eq mod_mult_eq)
  then show ?thesis by (simp add: dvd_eq_mod_eq_0)
qed

lemma squares_end: "sq_chain (squares_1 @ squares_2 @ squares_3 @ squares_4 @ squares_5 @ squares_6 @ squares_7 @ squares_8 @ squares_9 @ squares_10) (38 ^ 32) = P25519 - 1024"
proof -
  have p: "P25519 - 1024 = 0x7ffffffffffffffffffffffffffffffffffffffffffffffffffffffffffffbed" by (simp add: P25519_def)
  have "(38::int) ^ 32 = 0xf47f8e6ff27eb1b6217e62946163d3048100000000" by simp
  then show ?thesis
    by (simp only: p sq_chain_append squares_1_end squares_2_end squares_3_end squares_4_end squares_5_end
        squares_6_end squares_7_end squares_8_end squares_9_end squares_10_end)
qed

lemma squares_length: "length (squares_1 @ squares_2 @ squares_3 @ squares_4 @ squares_5 @ squares_6 @ squares_7 @ squares_8 @ squares_9 @ squares_10) = 241"
  by (simp add: squares_1_def squares_2_def squares_3_def squares_4_def squares_5_def squares_6_def squares_7_def squares_8_def squares_9_def squares_10_def)

theorem SQRTM1_root: "P25519 dvd SQRTM1 * SQRTM1 + 1"
proof -
  let ?e = "nat ((P25519 - 1) div 4)"
  have "(38 ^ 32) ^ (2 ^ 241) mod P25519 = (P25519 - 1024) mod P25519"
    using sq_chain_power[of "squares_1 @ squares_2 @ squares_3 @ squares_4 @ squares_5 @ squares_6 @ squares_7 @ squares_8 @ squares_9 @ squares_10" "38 ^ 32"] unfolding squares_end squares_length ..
  moreover have "(P25519 - 1024) mod P25519 = P25519 - 1024" using P25519_bits by (intro mod_pos_pos_trivial) simp_all
  ultimately have z: "(38 ^ 32) ^ (2 ^ 241) mod P25519 = P25519 - 1024" by (rule trans)
  have e: "2 * ?e + 10 = 2 ^ 254" by (simp add: P25519_def)
  have N: "(2::nat) ^ 254 = 256 * 32 * 2 ^ 241" by simp
  have "SQRTM1 = 2 ^ ?e mod P25519" using P25519_bits unfolding SQRTM1_def by (intro ed_pow_mod) simp_all
  then show ?thesis using root_core[OF e N z] by (simp only:)
qed

end
