(* ===== verification/Edwards_Proofs.thy ===== *)
theory Edwards_Proofs
  imports Edwards_Root
begin

text \<open>
  What \<open>ed_decode\<close> promises: the pair it finds is a point of the curve, and the octets are the only ones that
  spell it, so that no two keys are the same point.
\<close>

section \<open>Octets\<close>

fun le_octets :: "nat \<Rightarrow> int \<Rightarrow> bytes" where
  "le_octets 0 n = []"
| "le_octets (Suc k) n = word_of_int n # le_octets k (n div 256)"

definition point_octets :: "curve \<Rightarrow> int \<Rightarrow> int \<Rightarrow> bytes" where
  "point_octets c x y = le_octets (cv_len c) (y + 2 ^ cv_signBit c * (x mod 2))"

lemma leToBig_simps [simp]:
  "leToBig [] = 0"
  "leToBig (b # bs) = uint b + 256 * leToBig bs"
  by (simp_all add: leToBig_def)

lemma leToBig_zeros: "leToBig (replicate k 0 @ bs) = 256 ^ k * leToBig bs"
  by (induction k) simp_all

lemma leToBig_range: "0 \<le> leToBig bs \<and> leToBig bs < 256 ^ length bs"
proof (induction bs)
  case (Cons b bs)
  have "0 \<le> uint b" "uint b < 256" using uint_lt2p[of b] by simp_all
  then show ?case using Cons by simp
qed simp

lemma le_octets_leToBig: "le_octets (length bs) (leToBig bs) = bs"
proof (induction bs)
  case (Cons b bs)
  have b: "0 \<le> uint b" "uint b < 256" using uint_lt2p[of b] by simp_all
  then have "(uint b + 256 * leToBig bs) div 256 = leToBig bs" by simp
  moreover have "(word_of_int (uint b + 256 * leToBig bs) :: 8 word) = b"
  proof -
    have "take_bit 8 (uint b + 256 * leToBig bs) = uint b" using b by (simp add: take_bit_eq_mod)
    then have "uint (word_of_int (uint b + 256 * leToBig bs) :: 8 word) = uint b"
      by (simp only: uint_word_of_int_eq len_bit0 len_num1) simp
    then show ?thesis by (rule word_uint_eqI)
  qed
  ultimately show ?case using Cons by simp
qed simp

lemma below_two:
  assumes "0 < (m::int)" "n < 2 * m"
  shows "n div m < 2"
proof (rule ccontr)
  assume "\<not> n div m < 2"
  then have "2 * m \<le> n div m * m" using assms(1) by (intro mult_right_mono) simp_all
  moreover have "n div m * m \<le> n" using assms(1) pos_mod_sign[of m n] minus_mod_eq_div_mult[of n m] by linarith
  ultimately show False using assms(2) by simp
qed

lemma sign_and_rest:
  fixes n :: int
  assumes "0 \<le> n" "n < 2 ^ Suc k"
  shows "n = (n AND (2 ^ k - 1)) + 2 ^ k * (drop_bit k n AND 1)"
    and "drop_bit k n AND 1 = 0 \<or> drop_bit k n AND 1 = 1"
    and "0 \<le> n AND (2 ^ k - 1)"
proof -
  have m: "n AND (2 ^ k - 1) = n mod 2 ^ k" by (simp add: take_bit_eq_mask[symmetric] mask_eq_exp_minus_1[symmetric] take_bit_eq_mod)
  have d: "drop_bit k n AND 1 = n div 2 ^ k mod 2" by (simp add: drop_bit_eq_div and_one_eq)
  have "n div 2 ^ k < 2" using assms(2) by (intro below_two) simp_all
  moreover have "0 \<le> n div 2 ^ k" using assms(1) by (intro pos_imp_zdiv_nonneg_iff[THEN iffD2]) simp_all
  ultimately have q: "n div 2 ^ k mod 2 = n div 2 ^ k" by simp
  show "n = (n AND (2 ^ k - 1)) + 2 ^ k * (drop_bit k n AND 1)" unfolding m d q by simp
  show "drop_bit k n AND 1 = 0 \<or> drop_bit k n AND 1 = 1" unfolding d by auto
  show "0 \<le> n AND (2 ^ k - 1)" unfolding m by simp
qed

section \<open>Remainders\<close>

lemma jrem_mod: "0 < p \<Longrightarrow> jrem a p mod p = a mod p"
  by (simp add: jrem_def mod_minus_eq)

lemma jrem_norm:
  assumes p: "0 < p"
  shows "jrem (jrem a p + p) p = a mod p"
proof -
  have "- p < jrem a p"
    using p pos_mod_bound[of p "- a"] by (auto simp: jrem_def intro: less_le_trans[OF _ pos_mod_sign])
  then have "jrem (jrem a p + p) p = (jrem a p + p) mod p" by (intro jrem_nonneg) simp
  then show ?thesis using jrem_mod[OF p, of a] by simp
qed

text \<open>The product that both arms test.\<close>

lemma tested_product:
  assumes "0 < p" "0 \<le> v" "0 \<le> x"
  shows "ed_mul v (jrem (x * x) p) p = v * (x * x) mod p"
  using assms by (simp add: ed_mul_mod jrem_nonneg mod_mult_right_eq)

lemma minus_parity:
  assumes "odd p" "0 < x" "x < p" and s: "s = 0 \<or> s = 1" and ne: "(x AND 1) \<noteq> (s::int)"
  shows "jrem (p - x) p = p - x \<and> (p - x) mod 2 = s"
proof
  have "(p - x) mod p = p - x" using assms by (intro mod_pos_pos_trivial) simp_all
  then show "jrem (p - x) p = p - x" using assms by (simp only: jrem_nonneg)
  have "x mod 2 \<noteq> s" using ne by (simp add: and_one_eq)
  then show "(p - x) mod 2 = s" using s assms(1) by presburger
qed

section \<open>The curves of the table\<close>

lemma D25519_nonneg: "0 \<le> D25519"
proof -
  have "1 < P25519" by (simp add: P25519_def)
  moreover have "0 \<le> ed_inv 121666 P25519"
    unfolding ed_inv_def using jrem_norm[of P25519 121666] ed_pow_range[of P25519 "121666 mod P25519"] calculation by simp
  moreover have "0 \<le> P25519 - 121665" by (simp add: P25519_def)
  ultimately show ?thesis unfolding D25519_def using ed_mul_range[of "P25519 - 121665" "ed_inv 121666 P25519" P25519] by simp
qed

definition curve_ok :: "curve \<Rightarrow> bool" where
  "curve_ok c \<longleftrightarrow> 1 < cv_p c \<and> odd (cv_p c) \<and> 0 \<le> cv_d c \<and> (2::int) ^ Suc (cv_signBit c) = 256 ^ cv_len c
    \<and> (cv_a c = 1 \<or> cv_a c = P25519 - 1 \<and> cv_p c = P25519)"

lemma CURVE_ok: "CURVE crv = Some c \<Longrightarrow> curve_ok c"
  using D25519_nonneg by (auto simp: CURVE_def curve_ok_def D448_def P448_def P25519_def split: if_splits)

text \<open>What the root is, in each arm.\<close>

lemma root_a1_curve:
  assumes c: "1 < cv_p c" and y2: "0 \<le> y2" and u: "u = (y2 - 1) mod cv_p c" and x: "root_a1 c y2 u = Some x"
    and d: "0 \<le> cv_d c"
  shows "0 \<le> x \<and> x < cv_p c \<and> (x * x + y2) mod cv_p c = (1 + cv_d c * (x * x) * y2) mod cv_p c"
proof -
  let ?p = "cv_p c"
  define v where "v = (cv_d c * y2 - 1) mod ?p"
  have p: "0 < ?p" using c by simp
  have "jrem (jrem (jrem (cv_d c * y2) ?p - 1) ?p + ?p) ?p = (jrem (cv_d c * y2) ?p - 1) mod ?p" by (rule jrem_norm[OF p])
  also have "\<dots> = v" using y2 d unfolding v_def by (simp add: jrem_nonneg mod_diff_left_eq)
  finally have v: "jrem (jrem (jrem (cv_d c * y2) ?p - 1) ?p + ?p) ?p = v" .
  have vp: "0 \<le> v" "0 \<le> u" using p unfolding v_def u by simp_all
  from x v have xe: "x = ed_mul (ed_mul (ed_pow u 3 ?p) v ?p)
      (ed_pow (ed_mul (ed_pow u 5 ?p) (ed_pow v 3 ?p) ?p) ((?p - 3) div 4) ?p) ?p"
    and t: "ed_mul v (jrem (x * x) ?p) ?p = u"
    by (auto simp: root_a1_def Let_def split: if_splits)
  have xr: "0 \<le> x \<and> x < ?p" unfolding xe using vp c p by (intro ed_mul_range) (simp_all add: ed_mul_range ed_pow_range)
  have "v * (x * x) mod ?p = u" using t tested_product[OF p vp(1), of x] xr by simp
  then have "(cv_d c * y2 - 1) * (x * x) mod ?p = (y2 - 1) mod ?p" unfolding v_def u by (simp add: mod_mult_left_eq)
  then have "?p dvd (cv_d c * y2 - 1) * (x * x) - (y2 - 1)" by (simp add: mod_eq_dvd_iff)
  moreover have "(1 + cv_d c * (x * x) * y2) - (x * x + y2) = (cv_d c * y2 - 1) * (x * x) - (y2 - 1)" by (simp add: algebra_simps)
  ultimately have "(1 + cv_d c * (x * x) * y2) mod ?p = (x * x + y2) mod ?p" by (simp only: mod_eq_dvd_iff)
  then show ?thesis using xr by simp
qed

lemma root_minus1_curve:
  assumes c: "cv_p c = P25519" and y2: "0 \<le> y2" and u: "u = (y2 - 1) mod P25519" and x: "root_minus1 c y2 u = Some x"
    and d: "0 \<le> cv_d c"
  shows "0 \<le> x \<and> x < P25519 \<and> ((P25519 - 1) * (x * x) + y2) mod P25519 = (1 + cv_d c * (x * x) * y2) mod P25519"
proof -
  let ?p = "P25519"
  define v where "v = (cv_d c * y2 + 1) mod ?p"
  have p: "0 < ?p" "1 < ?p" using P25519_bits by simp_all
  have v: "jrem (jrem (cv_d c * y2) ?p + 1) ?p = v"
    using y2 d p unfolding v_def by (simp add: jrem_nonneg mod_add_left_eq)
  have vp: "0 \<le> v" "0 \<le> u" "u < ?p" using p unfolding v_def u by simp_all
  define z where "z = ed_mul (ed_mul u (ed_pow v 3 ?p) ?p) (ed_pow (ed_mul u (ed_pow v 7 ?p) ?p) ((?p - 5) div 8) ?p) ?p"
  have zr: "0 \<le> z \<and> z < ?p" unfolding z_def using vp p by (intro ed_mul_range) (simp_all add: ed_mul_range ed_pow_range)
  have zt: "ed_mul v (jrem (z * z) ?p) ?p = v * (z * z) mod ?p" using tested_product[OF p(1) vp(1)] zr by blast
  have i: "0 \<le> SQRTM1" unfolding SQRTM1_def using ed_pow_range[OF p(2)] by simp
  have "(x = z \<and> v * (z * z) mod ?p = u) \<or> (x = jrem (z * SQRTM1) ?p \<and> v * (z * z) mod ?p = jrem (?p - u) ?p)"
    using x v c zt unfolding root_minus1_def by (simp add: Let_def z_def split: if_splits)
  then have xr: "0 \<le> x \<and> x < ?p \<and> ?p dvd v * (x * x) - u"
  proof
    assume a: "x = z \<and> v * (z * z) mod ?p = u"
    then have "v * (x * x) mod ?p = u mod ?p" using vp by simp
    then have "?p dvd v * (x * x) - u" by (simp only: mod_eq_dvd_iff)
    then show ?thesis using zr a by simp
  next
    assume a: "x = jrem (z * SQRTM1) ?p \<and> v * (z * z) mod ?p = jrem (?p - u) ?p"
    have x: "x = z * SQRTM1 mod ?p" using a zr i by (simp add: jrem_nonneg)
    have "v * (z * z) mod ?p = (?p - u) mod ?p" using a vp by (simp add: jrem_nonneg)
    then have 1: "?p dvd v * (z * z) - (?p - u)" by (simp only: mod_eq_dvd_iff)
    have "v * (x * x) mod ?p = v * ((z * SQRTM1) * (z * SQRTM1)) mod ?p" unfolding x by (metis mod_mult_eq mod_mult_right_eq)
    then have 2: "?p dvd v * (x * x) - v * ((z * SQRTM1) * (z * SQRTM1))" by (simp only: mod_eq_dvd_iff)
    have "v * ((z * SQRTM1) * (z * SQRTM1)) - u =
        v * (z * z) * (SQRTM1 * SQRTM1 + 1) - (v * (z * z) - (?p - u)) - ?p" by (simp add: algebra_simps)
    moreover have "?p dvd v * (z * z) * (SQRTM1 * SQRTM1 + 1)" using SQRTM1_root by (rule dvd_mult)
    ultimately have "?p dvd v * ((z * SQRTM1) * (z * SQRTM1)) - u" using 1 by (simp only: dvd_diff dvd_refl)
    from dvd_add[OF 2 this] have "?p dvd v * (x * x) - u" by simp
    then show ?thesis unfolding x using p by simp
  qed
  have "(v * (x * x)) mod ?p = u mod ?p" using xr by (simp only: mod_eq_dvd_iff) 
  then have "(cv_d c * y2 + 1) * (x * x) mod ?p = (y2 - 1) mod ?p" unfolding v_def u by (simp add: mod_mult_left_eq)
  then have "?p dvd (cv_d c * y2 + 1) * (x * x) - (y2 - 1)" by (simp only: mod_eq_dvd_iff)
  then have "?p dvd (cv_d c * y2 + 1) * (x * x) - (y2 - 1) - ?p * (x * x)" by (rule dvd_diff) simp
  moreover have "(1 + cv_d c * (x * x) * y2) - ((?p - 1) * (x * x) + y2) = (cv_d c * y2 + 1) * (x * x) - (y2 - 1) - ?p * (x * x)"
    by (simp add: algebra_simps)
  ultimately have "(1 + cv_d c * (x * x) * y2) mod ?p = ((?p - 1) * (x * x) + y2) mod ?p" by (simp only: mod_eq_dvd_iff)
  then show ?thesis using xr by simp
qed

section \<open>A decoded point\<close>

lemma curve_sides:
  assumes "(s::int) mod p = t mod p" "q mod p = r mod p"
  shows "(a * s + q) mod p = (a * t + r) mod p \<and> (1 + d * s * q) mod p = (1 + d * t * r) mod p"
  using assms by (intro conjI mod_add_cong mod_mult_cong refl)

text \<open>C39: a key that decodes to a point of an EdDSA curve is on the curve (the curve's equation holds modulo the field's
  prime), its coordinates are reduced, and the octets are the canonical spelling of the point: there is no second
  key of the same point.\<close>

theorem edwards_point:
  assumes "CURVE crv = Some c" "length raw = cv_len c" "ed_decode raw c = Some (x, y)"
  shows "0 \<le> x \<and> x < cv_p c \<and> 0 \<le> y \<and> y < cv_p c
    \<and> (cv_a c * (x * x) + y * y) mod cv_p c = (1 + cv_d c * (x * x) * (y * y)) mod cv_p c
    \<and> raw = point_octets c x y"
proof -
  let ?p = "cv_p c" and ?k = "cv_signBit c"
  note c = CURVE_ok[OF assms(1), unfolded curve_ok_def]
  define sign where "sign = drop_bit ?k (leToBig raw) AND 1"
  have n: "0 \<le> leToBig raw" "leToBig raw < 2 ^ Suc ?k" using leToBig_range[of raw] assms(2) c by simp_all
  note sr = sign_and_rest[OF n, folded sign_def]
  define y2 where "y2 = jrem (y * y) ?p"
  obtain z where y: "y = leToBig raw AND (2 ^ ?k - 1)" "y < ?p" and z: "(if cv_a c = 1 then root_a1 c y2 ((y2 - 1) mod ?p)
        else root_minus1 c y2 ((y2 - 1) mod ?p)) = Some z" and zs: "\<not> (z = 0 \<and> sign = 1)"
      and x: "x = (if z AND 1 \<noteq> sign then jrem (?p - z) ?p else z)"
    using assms(3) c unfolding ed_decode_def sign_def y2_def
    by (auto simp: Let_def jrem_norm split: if_splits option.splits)
  have y2: "y2 = y * y mod ?p" "0 \<le> y2" using c sr(3) y(1) unfolding y2_def by (simp_all add: jrem_nonneg)
  have zc: "0 \<le> z \<and> z < ?p \<and> (cv_a c * (z * z) + y2) mod ?p = (1 + cv_d c * (z * z) * y2) mod ?p"
    using c z root_a1_curve[OF _ y2(2) refl] root_minus1_curve[OF _ y2(2) refl] by (auto split: if_splits)
  have xs: "(x = z \<or> x = ?p - z) \<and> 0 \<le> x \<and> x < ?p \<and> x mod 2 = sign"
    using x zc zs sr(2) c minus_parity[of ?p z sign] by (cases "z = 0") (auto simp: and_one_eq split: if_splits)
  have "(x * x) mod ?p = (z * z) mod ?p"
  proof (cases "x = z")
    case False
    then have p: "?p = x + z" using xs by simp
    have "x * x - z * z = ?p * (x - z)" unfolding p by (simp add: algebra_simps)
    then have "?p dvd x * x - z * z" by simp
    then show ?thesis by (simp only: mod_eq_dvd_iff)
  qed simp
  then have "(cv_a c * (x * x) + y * y) mod ?p = (cv_a c * (z * z) + y2) mod ?p"
      "(1 + cv_d c * (x * x) * (y * y)) mod ?p = (1 + cv_d c * (z * z) * y2) mod ?p"
    using curve_sides[of "x * x" ?p "z * z" "y * y" y2] y2(1) by (simp_all only: mod_mod_trivial)
  then have "(cv_a c * (x * x) + y * y) mod ?p = (1 + cv_d c * (x * x) * (y * y)) mod ?p" using zc by simp
  moreover have "y + 2 ^ ?k * (x mod 2) = leToBig raw" using sr(1) xs unfolding y(1)[symmetric] by (simp only:)
  then have "raw = point_octets c x y"
    unfolding point_octets_def assms(2)[symmetric] by (simp only: le_octets_leToBig)
  moreover have "0 \<le> y" unfolding y(1) by (rule sr(3))
  ultimately show ?thesis using xs y(2) by blast
qed

lemma minus_one_pow:
  assumes "2 < p" "0 < e" "odd e"
  shows "ed_pow (p - 1) e p = p - 1"
proof -
  have "(p - 1) mod p = (- 1) mod p" by (simp add: mod_eq_dvd_iff)
  then have "(p - 1) ^ nat e mod p = (- 1) ^ nat e mod p" by (rule same_power)
  moreover have "odd (nat e)" using assms by (simp add: even_nat_iff)
  ultimately have "(p - 1) ^ nat e mod p = (- 1) mod p" by simp
  then show ?thesis using assms by (simp add: ed_pow_mod zmod_minus1)
qed

lemma minus_one_square:
  assumes "2 < p"
  shows "ed_mul (p - 1) (p - 1) p = 1"
proof -
  have "(p - 1) * (p - 1) = 1 + p * (p - 2)" by (simp add: algebra_simps)
  then have "(p - 1) * (p - 1) mod p = 1 mod p" by (simp only: mod_mult_self2)
  then show ?thesis using assms by (simp add: ed_mul_mod)
qed

lemma minus_one_root:
  assumes "cv_p c = p" "2 < p"
  shows "root_a1 c 0 (p - 1) = Some 1"
proof -
  have "(- 1) mod p = p - 1" using assms by (simp add: zmod_minus1)
  then have v: "jrem (jrem (jrem (cv_d c * 0) p - 1) p + p) p = p - 1"
    using assms jrem_norm[of p "-1"] jrem_nonneg[of 0 p] by simp
  have one: "ed_pow 1 k p = 1" "ed_mul 1 1 p = 1" "jrem (1 * 1) p = 1" "ed_mul (p - 1) 1 p = p - 1" for k
    using assms by (simp_all add: ed_pow_mod ed_mul_def jrem_def zmod_minus1)
  have odds: "ed_pow (p - 1) 3 p = p - 1" "ed_pow (p - 1) 5 p = p - 1"
    using assms by (simp_all add: minus_one_pow)
  show ?thesis unfolding root_a1_def Let_def assms(1) v odds minus_one_square[OF assms(2)] one by simp
qed

theorem edwards_point_witness:
  "\<exists>c. CURVE 7 = Some c \<and> replicate 56 0 @ [0x80] = point_octets c 1 0 \<and> (cv_a c * (1 * 1) + 0 * 0) mod cv_p c = 1"
proof -
  let ?c = "\<lparr>cv_p = P448, cv_d = D448, cv_a = 1, cv_len = 57, cv_signBit = 455\<rparr>"
  let ?raw = "replicate 56 0 @ [0x80] :: bytes"
  have c: "CURVE 7 = Some ?c" by (simp add: CURVE_def)
  have n: "leToBig ?raw = 2 ^ 455" unfolding leToBig_zeros by simp
  have p: "2 < P448" by (simp add: P448_def)
  have s: "drop_bit 455 (2 ^ 455 :: int) AND 1 = 1" "(2 ^ 455 :: int) AND (2 ^ 455 - 1) = 0" by simp_all
  have "jrem (jrem (jrem (0 * 0) P448 - 1) P448 + P448) P448 = P448 - 1" "jrem (0 * 0) P448 = 0"
    using p jrem_norm[of P448 "-1"] zmod_minus1[of P448] by (simp_all add: jrem_nonneg)
  then have d: "ed_decode ?raw ?c = Some (1, 0)"
    unfolding ed_decode_def n using p minus_one_root[of ?c P448] by (simp add: Let_def s del: power_numeral)
  show ?thesis using edwards_point[OF c _ d] c by (simp add: P448_def)
qed

end
