(* ===== verification/Tuf_Meta.thy ===== *)
theory Tuf_Meta
  imports Tuf_Json Rfc3339 Edwards Merkle
begin

text \<open>
  lib/tuf.js, the documents: the deep copy every verb takes of what it was handed (lib/guard-bytes.js), the
  identifier of a key, the specification version, the reading of a document, and what must hold of a key
  before it verifies anything.  The digest, the import and export of keys and the verification of one
  signature are those of the platform: the fields of \<open>tuf_env\<close>.  A document's own values are \<open>json\<close>; a caller's
  object with accessors, a proxy or a class instance is refused by the guards the verbs start with and has
  no counterpart here.
\<close>

section \<open>Values\<close>

abbreviation tufE :: "tuf_code \<Rightarrow> 'a res" where
  "tufE c \<equiv> Inl (TufE c)"

fun is_object :: "json option \<Rightarrow> bool" where
  "is_object (Some (JObj ms)) = True"
| "is_object _ = False"

text \<open>\<open>typeof v === "object"\<close> of a value that is not null.\<close>

fun object_type :: "json option \<Rightarrow> bool" where
  "object_type (Some (JObj ms)) = True"
| "object_type (Some (JArr xs)) = True"
| "object_type _ = False"

fun is_string :: "json option \<Rightarrow> bool" where
  "is_string (Some (JStr s)) = True"
| "is_string _ = False"

definition DEEP_COPY_MAX_NODES :: nat where "DEEP_COPY_MAX_NODES = 65536"

text \<open>\<open>snapshotDeep\<close> of a document: the value itself, unless it is nested too deep or costs too much to copy.
  Each value costs one, and each name of an object one more.\<close>

fun copy_cost :: "json \<Rightarrow> nat" where
  "copy_cost (JArr xs) = 1 + sum_list (map copy_cost xs)"
| "copy_cost (JObj ms) = 1 + length ms + sum_list (map (\<lambda>m. copy_cost (snd m)) ms)"
| "copy_cost v = 1"

fun copy_depth :: "json \<Rightarrow> nat" where
  "copy_depth (JArr xs) = foldr max (map (\<lambda>x. Suc (copy_depth x)) xs) 0"
| "copy_depth (JObj ms) = foldr max (map (\<lambda>m. Suc (copy_depth (snd m))) ms) 0"
| "copy_depth v = 0"

definition snapshotDeep :: "json \<Rightarrow> err \<Rightarrow> json res" where
  "snapshotDeep v e = (if copy_depth v > 64 \<or> copy_cost v > DEEP_COPY_MAX_NODES then Inl e else Inr v)"

section \<open>Hexadecimal text (lib/guard-encoding.js)\<close>

definition hex_digit :: "nat \<Rightarrow> nat" where
  "hex_digit n = (if n < 10 then 48 + n else 87 + n)"

definition hexText :: "bytes \<Rightarrow> jsstr" where
  "hexText b = concat (map (\<lambda>x. [hex_digit (unat x div 16), hex_digit (unat x mod 16)]) b)"

fun hex_pairs :: "jsstr \<Rightarrow> bytes" where
  "hex_pairs (a # b # r) = word_of_nat (the (hexNibble a) * 16 + the (hexNibble b)) # hex_pairs r"
| "hex_pairs _ = []"

definition lower_char :: "nat \<Rightarrow> nat" where
  "lower_char c = (if 0x41 \<le> c \<and> c \<le> 0x5a then c + 0x20 else c)"

definition hex_bytes :: "json option \<Rightarrow> nat \<Rightarrow> err \<Rightarrow> bytes res" where
  "hex_bytes text limit e = (case text of
      Some (JStr s) \<Rightarrow>
        if \<exists>c \<in> set s. hexNibble c = None then Inl e
        else if length s mod 2 \<noteq> 0 then Inl e
        else if length s div 2 > limit then Inl e
        else if hexText (hex_pairs s) \<noteq> map lower_char s then Inl e
        else Inr (hex_pairs s)
    | _ \<Rightarrow> Inl e)"

section \<open>The platform\<close>

datatype tuf_alg = Ed25519_alg | Ecdsa_sha256 | Pss_sha256

record 'k tuf_env =
  te_sha256 :: "bytes \<Rightarrow> bytes"
  te_pem :: "jsstr \<Rightarrow> 'k option"
  te_spki :: "bytes \<Rightarrow> 'k res"
  te_keyType :: "'k \<Rightarrow> jsstr option"
  te_namedCurve :: "'k \<Rightarrow> jsstr option"
  te_modulusLength :: "'k \<Rightarrow> int option"
  te_jwk :: "'k \<Rightarrow> json res"
  te_verify :: "tuf_alg \<Rightarrow> bytes \<Rightarrow> 'k \<Rightarrow> bytes \<Rightarrow> bool res"
  te_date :: "jsstr \<Rightarrow> int option"

section \<open>The identifier of a key\<close>

definition KEY_ID_HEX_LEN :: nat where "KEY_ID_HEX_LEN = 64"

definition keyId :: "'k tuf_env \<Rightarrow> json \<Rightarrow> jsstr res" where
  "keyId E key =
     (if \<not> is_object (Some key) then tufE Tuf_bad_key
      else bindR (snapshotDeep key (TufE Tuf_bad_key)) (\<lambda>copied.
        if \<not> is_string (member copied (js_lit ''keytype'')) \<or> \<not> is_string (member copied (js_lit ''scheme'')) \<or>
           \<not> object_type (member copied (js_lit ''keyval'')) then tufE Tuf_bad_key
        else bindR (canonicalJson copied) (\<lambda>b. Inr (hexText (te_sha256 E b)))))"

section \<open>The specification version\<close>

definition SUPPORTED_SPEC_MAJOR :: jsstr where "SUPPORTED_SPEC_MAJOR = js_lit ''1''"

text \<open>\<open>charCodeAt(v, i) === c\<close>.\<close>

definition code_at :: "jsstr \<Rightarrow> nat \<Rightarrow> nat \<Rightarrow> bool" where
  "code_at v i c \<longleftrightarrow> i < length v \<and> v ! i = c"

definition isUtcOffset :: "jsstr \<Rightarrow> bool" where
  "isUtcOffset v =
     (let n = length v in
      if n = 0 then False
      else if v ! (n - 1) = 0x5a \<or> v ! (n - 1) = 0x7a then True
      else if n < 6 then False
      else if v ! (n - 6) \<noteq> 0x2b then False
      else v ! (n - 5) = 0x30 \<and> v ! (n - 4) = 0x30 \<and> v ! (n - 3) = 0x3a \<and> v ! (n - 2) = 0x30 \<and> v ! (n - 1) = 0x30)"

definition numericId :: "jsstr \<Rightarrow> nat \<Rightarrow> nat option" where
  "numericId v i =
     (if i \<ge> length v then None
      else if \<not> is_dig (v ! i) then None
      else
        let j = i + 1 + length (takeWhile is_dig (drop (i + 1) v)) in
        if v ! i = 0x30 \<and> j - i > 1 then None else Some j)"

definition id_char :: "nat \<Rightarrow> bool" where
  "id_char c \<longleftrightarrow> is_dig c \<or> (c \<ge> 0x41 \<and> c \<le> 0x5a) \<or> (c \<ge> 0x61 \<and> c \<le> 0x7a) \<or> c = 0x2d"

function dotSeparatedIds :: "jsstr \<Rightarrow> nat \<Rightarrow> bool \<Rightarrow> nat option" where
  "dotSeparatedIds v start isPreRelease =
     (let w = takeWhile id_char (drop start v); i = start + length w in
      if i = start then None
      else if isPreRelease \<and> list_all is_dig w \<and> v ! start = 0x30 \<and> i - start > 1 then None
      else if i < length v \<and> v ! i = 0x2e then dotSeparatedIds v (i + 1) isPreRelease
      else Some i)"
  by pat_completeness auto

termination dotSeparatedIds
  by (relation "measure (\<lambda>(v, i, p). length v - i)") auto

declare dotSeparatedIds.simps [simp del]

definition specMajor :: "jsstr \<Rightarrow> jsstr option" where
  "specMajor v =
     bindO (numericId v 0) (\<lambda>end.
     let major = take end v in
     bindO (if code_at v end 0x2e then numericId v (end + 1) else None) (\<lambda>i.
     bindO (if code_at v i 0x2e then numericId v (i + 1) else None) (\<lambda>i.
     if i = length v then Some major
     else
       bindO (if code_at v i 0x2d then dotSeparatedIds v (i + 1) True else Some i) (\<lambda>i.
       if i = length v then Some major
       else if \<not> code_at v i 0x2b then None
       else bindO (dotSeparatedIds v (i + 1) False) (\<lambda>i. if i = length v then Some major else None)))))"

definition assertSupportedMajor :: "json option \<Rightarrow> tuf_code \<Rightarrow> jsstr res" where
  "assertSupportedMajor spec malformedCode = (case spec of
      Some (JStr s) \<Rightarrow>
        (case specMajor s of
           None \<Rightarrow> tufE malformedCode
         | Some major \<Rightarrow> if major \<noteq> SUPPORTED_SPEC_MAJOR then tufE Tuf_unsupported_spec_version else Inr s)
    | _ \<Rightarrow> tufE malformedCode)"

section \<open>Reading a document\<close>

record tuf_metadata =
  md_type :: "json option"
  md_specVersion :: "json option"
  md_version :: "json option"
  md_expires :: "json option"
  md_signed :: json
  md_signatures :: json
  md_signedBytes :: js

definition tuf_spec :: json_spec where
  "tuf_spec =
     \<lparr>js_maxBytes = Num (int JSON_MAX_BYTES), js_maxDepth = Num (int JSON_MAX_DEPTH), js_integersOnly = True,
      js_exactIntegers = False, js_exactIntegerMembers = [], js_badJson = TufE Tuf_bad_json,
      js_tooDeep = TufE Tuf_too_deep, js_duplicateMember = TufE Tuf_duplicate_member,
      js_tooLarge = TufE Tuf_too_large, js_badInput = TufE Tuf_bad_input\<rparr>"

definition read_signature :: "json \<Rightarrow> json res" where
  "read_signature s = (case (member s (js_lit ''keyid''), member s (js_lit ''sig'')) of
      (Some (JStr k), Some (JStr g)) \<Rightarrow> Inr (JObj [(js_lit ''keyid'', JStr k), (js_lit ''sig'', JStr g)])
    | _ \<Rightarrow> tufE Tuf_bad_metadata)"

definition type_ok :: "json option \<Rightarrow> bool" where
  "type_ok t = (case t of Some (JStr s) \<Rightarrow> s \<noteq> [] | _ \<Rightarrow> False)"

definition version_ok :: "json option \<Rightarrow> bool" where
  "version_ok v = (case v of Some (JInt i) \<Rightarrow> is_safe_integer i \<and> \<not> i < 1 | _ \<Rightarrow> False)"

definition expires_ok :: "json option \<Rightarrow> bool" where
  "expires_ok x = (case x of Some (JStr s) \<Rightarrow> isValid (Str s) \<and> isUtcOffset s | _ \<Rightarrow> False)"

text \<open>The part behind the checks of the wrapper.\<close>

definition read_body :: "json \<Rightarrow> json list \<Rightarrow> tuf_metadata res" where
  "read_body body signatures =
     bindR (assertSupportedMajor (member body (js_lit ''spec_version'')) Tuf_bad_metadata) (\<lambda>specVersion.
     if \<not> type_ok (member body (js_lit ''_type'')) then tufE Tuf_bad_metadata
     else if \<not> version_ok (member body (js_lit ''version'')) then tufE Tuf_bad_metadata
     else if \<not> expires_ok (member body (js_lit ''expires'')) then tufE Tuf_bad_metadata
     else
       bindR (mapR read_signature signatures) (\<lambda>sigs.
       bindR (canonicalJson body) (\<lambda>signedBytes.
         Inr \<lparr>md_type = member body (js_lit ''_type''), md_specVersion = Some (JStr specVersion),
           md_version = member body (js_lit ''version''), md_expires = member body (js_lit ''expires''),
           md_signed = body, md_signatures = JArr sigs, md_signedBytes = Buf signedBytes\<rparr>)))"

definition parseMetadata :: "js \<Rightarrow> tuf_metadata res" where
  "parseMetadata input = (case input of
      Buf bytes \<Rightarrow>
        bindR (json_parse (Buf bytes) tuf_spec) (\<lambda>doc.
        if \<not> is_object (Some doc) then tufE Tuf_bad_metadata
        else case member doc (js_lit ''signatures'') of
          Some (JArr signatures) \<Rightarrow>
            (case member doc (js_lit ''signed'') of
               Some (JObj ms) \<Rightarrow> read_body (JObj ms) signatures
             | _ \<Rightarrow> tufE Tuf_bad_metadata)
        | _ \<Rightarrow> tufE Tuf_bad_metadata)
    | _ \<Rightarrow> tufE Tuf_bad_input)"

end
