(* ===== verification/Tuf.thy ===== *)
theory Tuf
  imports Tuf_Meta
begin

text \<open>
  lib/tuf.js, the verdicts: whether a key may verify anything, whether a role's threshold of keys signed a
  document, whether a document has expired, and the walk of the root chain.  The walk of the code is a loop
  that ends when no candidate has the next version; \<open>walk_roots\<close> is that loop, with its termination proved.
\<close>

section \<open>Keys\<close>

record key_decl =
  kd_schemes :: "jsstr list"
  kd_nodeType :: jsstr
  kd_curve :: "jsstr option"
  kd_minBits :: int

definition KEY_DECLARATIONS :: "(jsstr \<times> key_decl) list" where
  "KEY_DECLARATIONS =
     [(js_lit ''ed25519'', \<lparr>kd_schemes = [js_lit ''ed25519''], kd_nodeType = js_lit ''ed25519'', kd_curve = None, kd_minBits = 0\<rparr>),
      (js_lit ''ecdsa'', \<lparr>kd_schemes = [js_lit ''ecdsa-sha2-nistp256''], kd_nodeType = js_lit ''ec'', kd_curve = Some (js_lit ''prime256v1''), kd_minBits = 0\<rparr>),
      (js_lit ''ecdsa-sha2-nistp256'', \<lparr>kd_schemes = [js_lit ''ecdsa-sha2-nistp256''], kd_nodeType = js_lit ''ec'', kd_curve = Some (js_lit ''prime256v1''), kd_minBits = 0\<rparr>),
      (js_lit ''rsa'', \<lparr>kd_schemes = [js_lit ''rsassa-pss-sha256''], kd_nodeType = js_lit ''rsa'', kd_curve = None, kd_minBits = 2048\<rparr>)]"

definition declarationOf :: "json \<Rightarrow> key_decl res" where
  "declarationOf key =
     (case (case member key (js_lit ''keytype'') of Some (JStr t) \<Rightarrow> map_of KEY_DECLARATIONS t | _ \<Rightarrow> None) of
        None \<Rightarrow> tufE Tuf_unsupported_key
      | Some d \<Rightarrow>
          (case member key (js_lit ''scheme'') of
             Some (JStr scheme) \<Rightarrow> if scheme \<in> set (kd_schemes d) then Inr d else tufE Tuf_bad_key
           | _ \<Rightarrow> tufE Tuf_bad_key))"

text \<open>\<open>key.keyval.public\<close>.\<close>

definition key_public :: "json \<Rightarrow> json option res" where
  "key_public key = (case member key (js_lit ''keyval'') of
      None \<Rightarrow> Inl TypeErr
    | Some JNull \<Rightarrow> Inl TypeErr
    | Some v \<Rightarrow> Inr (member v (js_lit ''public'')))"

definition publicFromPem :: "'k tuf_env \<Rightarrow> json option \<Rightarrow> 'k res" where
  "publicFromPem E pem = (case pem of
      Some (JStr s) \<Rightarrow> if s = [] then tufE Tuf_bad_key
        else (case te_pem E s of None \<Rightarrow> tufE Tuf_bad_key | Some k \<Rightarrow> Inr k)
    | _ \<Rightarrow> tufE Tuf_bad_key)"

definition checkedPublicKey :: "'k tuf_env \<Rightarrow> json \<Rightarrow> key_decl \<Rightarrow> 'k option res" where
  "checkedPublicKey E key d =
     (if kd_nodeType d = js_lit ''ed25519'' then Inr None
      else
        bindR (key_public key) (\<lambda>pem.
        bindR (publicFromPem E pem) (\<lambda>imported.
        if te_keyType E imported \<noteq> Some (kd_nodeType d) then tufE Tuf_bad_key
        else if kd_curve d \<noteq> None \<and> te_namedCurve E imported \<noteq> kd_curve d then tufE Tuf_bad_key
        else if kd_minBits d > 0 \<and> \<not> (case te_modulusLength E imported of None \<Rightarrow> False | Some m \<Rightarrow> m \<ge> kd_minBits d)
        then tufE Tuf_bad_key
        else Inr (Some imported))))"

definition ED25519_SPKI_PREFIX :: bytes where
  "ED25519_SPKI_PREFIX = [0x30, 0x2a, 0x30, 0x05, 0x06, 0x03, 0x2b, 0x65, 0x70, 0x03, 0x21, 0x00]"

definition ED25519_CRV :: nat where "ED25519_CRV = 6"

definition ed25519Spki :: "json \<Rightarrow> bytes res" where
  "ed25519Spki key =
     bindR (key_public key) (\<lambda>public.
     bindR (hex_bytes public 64 (TufE Tuf_bad_key)) (\<lambda>raw.
     if length raw \<noteq> 32 then tufE Tuf_bad_key
     else
       let spki = ED25519_SPKI_PREFIX @ raw in
       bindR (validateSpki spki ED25519_CRV (TufE Tuf_bad_key)) (\<lambda>_. Inr spki)))"

text \<open>The imported key, and the algorithm its \<open>check\<close> verifies under.\<close>

definition usableKey :: "'k tuf_env \<Rightarrow> json \<Rightarrow> ('k \<times> tuf_alg) res" where
  "usableKey E key =
     bindR (declarationOf key) (\<lambda>d.
     bindR (checkedPublicKey E key d) (\<lambda>imported.
     if kd_nodeType d = js_lit ''ed25519'' then
       bindR (ed25519Spki key) (\<lambda>spki. bindR (te_spki E spki) (\<lambda>k. Inr (k, Ed25519_alg)))
     else if kd_nodeType d = js_lit ''ec'' then Inr (the imported, Ecdsa_sha256)
     else Inr (the imported, Pss_sha256)))"

definition materialIdOf :: "'k tuf_env \<Rightarrow> 'k \<Rightarrow> jsstr res" where
  "materialIdOf E imported =
     bindR (te_jwk E imported) (\<lambda>jwk. bindR (canonicalJson jwk) (\<lambda>b. Inr (hexText (te_sha256 E b))))"

section \<open>A document handed to a verb\<close>

text \<open>\<open>stated === body[inner]\<close>: two values of a document are the same value only where they are primitive, the
  body being a copy.\<close>

fun same_primitive :: "json \<Rightarrow> json option \<Rightarrow> bool" where
  "same_primitive (JStr a) (Some (JStr b)) = (a = b)"
| "same_primitive (JInt a) (Some (JInt b)) = (a = b)"
| "same_primitive (JFrac a k) (Some (JFrac b l)) = (a = b \<and> k = l)"
| "same_primitive (JBool a) (Some (JBool b)) = (a = b)"
| "same_primitive _ _ = False"

definition copy_agrees :: "json option \<Rightarrow> json option \<Rightarrow> bool" where
  "copy_agrees stated inner = (case stated of
      None \<Rightarrow> True | Some JNull \<Rightarrow> True | Some v \<Rightarrow> same_primitive v inner)"

definition assertCopiesAgree :: "tuf_metadata \<Rightarrow> json \<Rightarrow> unit res" where
  "assertCopiesAgree metadata body =
     (if \<not> copy_agrees (md_type metadata) (member body (js_lit ''_type'')) \<or>
         \<not> copy_agrees (md_specVersion metadata) (member body (js_lit ''spec_version'')) \<or>
         \<not> copy_agrees (md_version metadata) (member body (js_lit ''version'')) \<or>
         \<not> copy_agrees (md_expires metadata) (member body (js_lit ''expires''))
      then tufE Tuf_bad_input else Inr ())"

datatype now_arg = NotDate | InvalidDate | At int

definition checkExpiry :: "'k tuf_env \<Rightarrow> tuf_metadata option \<Rightarrow> now_arg \<Rightarrow> unit res" where
  "checkExpiry E md now = (case md of
      None \<Rightarrow> tufE Tuf_bad_input
    | Some metadata \<Rightarrow>
        bindR (snapshotDeep (md_signed metadata) (TufE Tuf_bad_input)) (\<lambda>body.
        if \<not> is_object (Some body) then tufE Tuf_bad_input
        else
          bindR (assertSupportedMajor (member body (js_lit ''spec_version'')) Tuf_bad_input) (\<lambda>_.
          case member body (js_lit ''expires'') of
            Some (JStr expires) \<Rightarrow>
              bindR (assertCopiesAgree metadata body) (\<lambda>_.
              bindR (case md_signedBytes metadata of
                  Undef \<Rightarrow> Inr ()
                | Null \<Rightarrow> Inr ()
                | Buf stated \<Rightarrow>
                    bindR (byteCap stated (Num (int JSON_MAX_BYTES)) (TufE Tuf_too_large)) (\<lambda>_.
                    bindR (canonicalJson body) (\<lambda>b.
                    if \<not> constantTimeEqual b stated then tufE Tuf_bad_input else Inr ()))
                | _ \<Rightarrow> tufE Tuf_bad_input) (\<lambda>_.
              if now = NotDate then tufE Tuf_bad_input
              else if \<not> isValid (Str expires) \<or> \<not> isUtcOffset expires then tufE Tuf_bad_metadata
              else (case date_parse (te_date E) expires of
                  None \<Rightarrow> tufE Tuf_bad_metadata
                | Some expiresMs \<Rightarrow>
                    if \<not> (case now of At atMs \<Rightarrow> atMs < expiresMs | _ \<Rightarrow> False) then tufE Tuf_expired else Inr ())))
          | _ \<Rightarrow> tufE Tuf_bad_input)))"

section \<open>The threshold of a role\<close>

text \<open>The keys a role names, each once, in the order the role names them.\<close>

fun authorize :: "'k tuf_env \<Rightarrow> json \<Rightarrow> (jsstr \<times> json) list \<Rightarrow> json list \<Rightarrow> (jsstr \<times> json) list res" where
  "authorize E keys authorized [] = Inr authorized"
| "authorize E keys authorized (i # ids) = (case i of
      JStr kid \<Rightarrow>
        if length kid \<noteq> KEY_ID_HEX_LEN then tufE Tuf_bad_metadata
        else (case member keys kid of
            None \<Rightarrow> tufE Tuf_bad_metadata
          | Some filed \<Rightarrow>
              if kid \<in> set (map fst authorized) then authorize E keys authorized ids
              else
                bindR (snapshotDeep filed (TufE Tuf_bad_key)) (\<lambda>key.
                bindR (keyId E key) (\<lambda>computed.
                if computed \<noteq> kid then tufE Tuf_bad_key
                else authorize E keys (authorized @ [(kid, key)]) ids)))
    | _ \<Rightarrow> tufE Tuf_bad_metadata)"

text \<open>The first signature each identifier carries.\<close>

fun file_signatures :: "(jsstr \<times> json option) list \<Rightarrow> json list \<Rightarrow> (jsstr \<times> json option) list res" where
  "file_signatures sigOf [] = Inr sigOf"
| "file_signatures sigOf (r # rs) =
     (if \<not> is_object (Some r) then tufE Tuf_bad_metadata
      else (case member r (js_lit ''keyid'') of
          Some (JStr kid) \<Rightarrow>
            if kid \<in> set (map fst sigOf) then file_signatures sigOf rs
            else file_signatures (sigOf @ [(kid, member r (js_lit ''sig''))]) rs
        | _ \<Rightarrow> file_signatures sigOf rs))"

text \<open>The loop over the role's keys; \<open>counted\<close> is the key material that counted, \<open>keyIds\<close> the identifiers.\<close>

fun count_keys :: "'k tuf_env \<Rightarrow> bytes \<Rightarrow> (jsstr \<times> json option) list \<Rightarrow> jsstr list \<Rightarrow> jsstr list \<Rightarrow>
    (jsstr \<times> json) list \<Rightarrow> jsstr list res" where
  "count_keys E signedBytes sigOf counted keyIds [] = Inr keyIds"
| "count_keys E signedBytes sigOf counted keyIds ((signerId, key) # rest) =
     (case map_of sigOf signerId of
        None \<Rightarrow> count_keys E signedBytes sigOf counted keyIds rest
      | Some sg \<Rightarrow>
          bindR (usableKey E key) (\<lambda>(k, alg).
          bindR (materialIdOf E k) (\<lambda>materialId.
          if materialId \<in> set counted then count_keys E signedBytes sigOf counted keyIds rest
          else (case hex_bytes sg JSON_MAX_BYTES (TufE Tuf_bad_signature) of
              Inl e \<Rightarrow> count_keys E signedBytes sigOf counted keyIds rest
            | Inr sigBytes \<Rightarrow>
                bindR (te_verify E alg signedBytes k sigBytes) (\<lambda>ok.
                if ok then count_keys E signedBytes sigOf (materialId # counted) (keyIds @ [signerId]) rest
                else count_keys E signedBytes sigOf counted keyIds rest)))))"

record tuf_verdict =
  tv_verified :: bool
  tv_keyIds :: "jsstr list"
  tv_threshold :: int

text \<open>The caller's role, read once.\<close>

definition read_role :: "json option \<Rightarrow> (json list \<times> int) res" where
  "read_role role = (case role of
      Some (JObj ms) \<Rightarrow>
        (case (map_of ms (js_lit ''keyids''), map_of ms (js_lit ''threshold'')) of
           (Some (JArr ids), Some (JInt t)) \<Rightarrow>
             if \<not> is_safe_integer t \<or> t < 1 then tufE Tuf_bad_input else Inr (ids, t)
         | _ \<Rightarrow> tufE Tuf_bad_input)
    | _ \<Rightarrow> tufE Tuf_bad_input)"

text \<open>\<open>refuseAccessorFields(keys, role.keyids)\<close>: the one accessor a plain object inherits is \<open>__proto__\<close>.\<close>

definition names_accessor :: "json \<Rightarrow> json list \<Rightarrow> bool" where
  "names_accessor keys ids \<longleftrightarrow> JStr (js_lit ''__proto__'') \<in> set ids \<and> member keys (js_lit ''__proto__'') = None"

definition VERIFY_KEYS :: "string list" where "VERIFY_KEYS = [''metadata'', ''keys'', ''role'']"

text \<open>\<open>names\<close> are the names of the options the caller passed.\<close>

definition verifySignatures :: "'k tuf_env \<Rightarrow> string list \<Rightarrow> tuf_metadata option \<Rightarrow> json option \<Rightarrow> json option \<Rightarrow> tuf_verdict res" where
  "verifySignatures E names md keysOpt roleOpt =
     (if \<exists>k \<in> set names. k \<notin> set VERIFY_KEYS then tufE Tuf_bad_input
      else case md of
        None \<Rightarrow> tufE Tuf_bad_input
      | Some metadata \<Rightarrow>
          bindR (snapshotDeep (md_signed metadata) (TufE Tuf_bad_input)) (\<lambda>body.
          if \<not> is_object (Some body) then tufE Tuf_bad_input
          else case md_signedBytes metadata of
            Buf rawSignedBytes \<Rightarrow>
              bindR (byteCap rawSignedBytes (Num (int JSON_MAX_BYTES)) (TufE Tuf_too_large)) (\<lambda>signedBytes.
              bindR (assertSupportedMajor (member body (js_lit ''spec_version'')) Tuf_bad_input) (\<lambda>_.
              bindR (canonicalJson body) (\<lambda>b.
              if \<not> constantTimeEqual b signedBytes then tufE Tuf_bad_input
              else
                bindR (assertCopiesAgree metadata body) (\<lambda>_.
                if \<not> is_object keysOpt then tufE Tuf_bad_input
                else let keys = the keysOpt in
                  bindR (read_role roleOpt) (\<lambda>(ids, threshold).
                  bindR (snapshotDeep (JArr ids) (TufE Tuf_bad_input)) (\<lambda>_.
                  if names_accessor keys ids then tufE Tuf_bad_input
                  else
                    bindR (authorize E keys [] ids) (\<lambda>authorized.
                    case md_signatures metadata of
                      JArr rawSigs \<Rightarrow>
                        bindR (file_signatures [] rawSigs) (\<lambda>sigOf.
                        bindR (count_keys E signedBytes sigOf [] [] authorized) (\<lambda>keyIds.
                        Inr \<lparr>tv_verified = (int (length keyIds) \<ge> threshold), tv_keyIds = keyIds,
                          tv_threshold = threshold\<rparr>))
                    | _ \<Rightarrow> tufE Tuf_bad_input)))))))
          | _ \<Rightarrow> tufE Tuf_bad_input))"

end
