(* ===== verification/Tuf_Root.thy ===== *)
theory Tuf_Root
  imports Tuf
begin

text \<open>
  lib/tuf.js, root documents and the walk from a trusted root to the latest candidate.
\<close>

section \<open>A root document\<close>

definition TUF_MAX_ROOT_CHAIN :: nat where "TUF_MAX_ROOT_CHAIN = 1024"

definition TOP_LEVEL_ROLES :: "jsstr list" where
  "TOP_LEVEL_ROLES = [js_lit ''root'', js_lit ''targets'', js_lit ''snapshot'', js_lit ''timestamp'']"

text \<open>The loop over the identifiers of one role: \<open>keyVerdict\<close> is the material of each identifier that passed,
  \<open>distinct\<close> the materials this role names.\<close>

fun role_materials :: "'k tuf_env \<Rightarrow> json \<Rightarrow> (jsstr \<times> jsstr) list \<Rightarrow> jsstr list \<Rightarrow> json list \<Rightarrow>
    ((jsstr \<times> jsstr) list \<times> jsstr list) res" where
  "role_materials E keys keyVerdict dist [] = Inr (keyVerdict, dist)"
| "role_materials E keys keyVerdict dist (i # ids) = (case i of
      JStr kid \<Rightarrow>
        if kid = [] then tufE Tuf_bad_metadata
        else (case map_of keyVerdict kid of
            Some mid \<Rightarrow> role_materials E keys keyVerdict (List.insert mid dist) ids
          | None \<Rightarrow>
              (case member keys kid of
                 None \<Rightarrow> tufE Tuf_bad_metadata
               | Some key \<Rightarrow>
                   bindR (keyId E key) (\<lambda>computed.
                   if computed \<noteq> kid then tufE Tuf_bad_key
                   else
                     bindR (usableKey E key) (\<lambda>(k, alg).
                     bindR (materialIdOf E k) (\<lambda>mid.
                     role_materials E keys ((kid, mid) # keyVerdict) (List.insert mid dist) ids)))))
    | _ \<Rightarrow> tufE Tuf_bad_metadata)"

definition check_role :: "'k tuf_env \<Rightarrow> json \<Rightarrow> (jsstr \<times> jsstr) list \<Rightarrow> json option \<Rightarrow> (jsstr \<times> jsstr) list res" where
  "check_role E keys keyVerdict record =
     (if \<not> is_object record then tufE Tuf_bad_metadata
      else case member (the record) (js_lit ''keyids'') of
        Some (JArr ids) \<Rightarrow>
          if ids = [] then tufE Tuf_bad_metadata
          else
            bindR (role_materials E keys keyVerdict [] ids) (\<lambda>(keyVerdict, dist).
            case member (the record) (js_lit ''threshold'') of
              Some (JInt t) \<Rightarrow>
                if \<not> is_safe_integer t \<or> t < 1 then tufE Tuf_bad_metadata
                else if t > int (length dist) then tufE Tuf_bad_metadata
                else Inr keyVerdict
            | _ \<Rightarrow> tufE Tuf_bad_metadata)
      | _ \<Rightarrow> tufE Tuf_bad_metadata)"

fun check_roles :: "'k tuf_env \<Rightarrow> json \<Rightarrow> json \<Rightarrow> (jsstr \<times> jsstr) list \<Rightarrow> jsstr list \<Rightarrow> unit res" where
  "check_roles E keys roles keyVerdict [] = Inr ()"
| "check_roles E keys roles keyVerdict (r # rs) =
     bindR (check_role E keys keyVerdict (member roles r)) (\<lambda>keyVerdict. check_roles E keys roles keyVerdict rs)"

definition asRoot :: "'k tuf_env \<Rightarrow> js \<Rightarrow> tuf_metadata res" where
  "asRoot E input =
     bindR (parseMetadata input) (\<lambda>meta.
     if md_type meta \<noteq> Some (JStr (js_lit ''root'')) then tufE Tuf_bad_metadata
     else if \<not> is_object (member (md_signed meta) (js_lit ''keys'')) then tufE Tuf_bad_metadata
     else if \<not> is_object (member (md_signed meta) (js_lit ''roles'')) then tufE Tuf_bad_metadata
     else
       bindR (check_roles E (the (member (md_signed meta) (js_lit ''keys''))) (the (member (md_signed meta) (js_lit ''roles'')))
         [] TOP_LEVEL_ROLES) (\<lambda>_. Inr meta))"

section \<open>The chain\<close>

text \<open>The version of a document that was parsed.\<close>

definition version_of :: "tuf_metadata \<Rightarrow> int" where
  "version_of m = (case md_version m of Some (JInt v) \<Rightarrow> v | _ \<Rightarrow> 0)"

text \<open>\<open>verifySignatures\<close> of \<open>m\<close> under the root role \<open>by\<close> states.\<close>

definition verify_by :: "'k tuf_env \<Rightarrow> tuf_metadata \<Rightarrow> tuf_metadata \<Rightarrow> tuf_verdict res" where
  "verify_by E by m =
     verifySignatures E VERIFY_KEYS (Some m) (member (md_signed by) (js_lit ''keys''))
       (member (the (member (md_signed by) (js_lit ''roles''))) (js_lit ''root''))"

text \<open>The candidates, each with a version of its own; \<open>byVersion\<close> is the list of them.\<close>

fun index_roots :: "'k tuf_env \<Rightarrow> tuf_metadata list \<Rightarrow> js list \<Rightarrow> tuf_metadata list res" where
  "index_roots E byVersion [] = Inr byVersion"
| "index_roots E byVersion (c # cs) =
     bindR (asRoot E c) (\<lambda>cand.
     if version_of cand \<in> set (map version_of byVersion) then tufE Tuf_bad_root_version
     else index_roots E (byVersion @ [cand]) cs)"

text \<open>\<open>byVersion[v]\<close>.\<close>

definition root_at :: "tuf_metadata list \<Rightarrow> int \<Rightarrow> tuf_metadata option" where
  "root_at byVersion v = find (\<lambda>m. version_of m = v) byVersion"

lemma root_at_Some: "root_at byVersion v = Some m \<Longrightarrow> m \<in> set byVersion \<and> version_of m = v"
  by (auto simp: root_at_def find_Some_iff)

function walk_roots :: "'k tuf_env \<Rightarrow> tuf_metadata list \<Rightarrow> tuf_metadata \<Rightarrow> int list \<Rightarrow> (tuf_metadata \<times> int list) res" where
  "walk_roots E byVersion current walked = (case root_at byVersion (version_of current + 1) of
      None \<Rightarrow> Inr (current, walked)
    | Some nxt \<Rightarrow>
        bindR (verify_by E current nxt) (\<lambda>byOld.
        if \<not> tv_verified byOld then tufE Tuf_root_unsigned
        else
          bindR (verify_by E nxt nxt) (\<lambda>byNew.
          if \<not> tv_verified byNew then tufE Tuf_root_unsigned
          else walk_roots E byVersion nxt (walked @ [version_of nxt]))))"
  by pat_completeness auto

termination walk_roots
proof (relation "measure (\<lambda>(E, byVersion, current, walked). length (filter (\<lambda>m. version_of m > version_of current) byVersion))")
  fix E :: "'k tuf_env" and byVersion :: "tuf_metadata list" and current nxt :: tuf_metadata and walked :: "int list" and x y
  assume "root_at byVersion (version_of current + 1) = Some nxt"
  then have n: "nxt \<in> set byVersion" "version_of nxt = version_of current + 1" using root_at_Some by blast+
  have "length (filter (\<lambda>m. version_of m > version_of nxt) byVersion) < length (filter (\<lambda>m. version_of m > version_of current) byVersion)"
    using n(1)
  proof (induction byVersion)
    case (Cons m ms)
    have "length (filter (\<lambda>m. version_of m > version_of nxt) ms) \<le> length (filter (\<lambda>m. version_of m > version_of current) ms)"
      using n(2) by (induction ms) auto
    then show ?case using Cons n(2) by auto
  qed simp
  then show "((E, byVersion, nxt, walked @ [version_of nxt]), E, byVersion, current, walked)
      \<in> measure (\<lambda>(E, byVersion, current, walked). length (filter (\<lambda>m. version_of m > version_of current) byVersion))"
    by simp
qed simp

declare walk_roots.simps [simp del]

record root_result =
  rr_root :: json
  rr_version :: int
  rr_updated :: bool
  rr_walked :: "int list"

definition UPDATE_KEYS :: "string list" where "UPDATE_KEYS = [''trustedRoot'', ''candidates'', ''now'']"

definition updateRoot :: "'k tuf_env \<Rightarrow> string list \<Rightarrow> now_arg \<Rightarrow> js \<Rightarrow> js \<Rightarrow> root_result res" where
  "updateRoot E names now suppliedCandidates trustedRoot =
     (if \<exists>k \<in> set names. k \<notin> set UPDATE_KEYS then tufE Tuf_bad_input
      else if now = NotDate then tufE Tuf_bad_input
      else case (case suppliedCandidates of Undef \<Rightarrow> Arr [] | v \<Rightarrow> v) of
        Arr candidates \<Rightarrow>
          if length candidates > TUF_MAX_ROOT_CHAIN then tufE Tuf_bad_input
          else
            bindR (asRoot E trustedRoot) (\<lambda>trusted.
            bindR (index_roots E [] candidates) (\<lambda>byVersion.
            bindR (verify_by E trusted trusted) (\<lambda>self.
            if \<not> tv_verified self then tufE Tuf_root_unsigned
            else
              bindR (walk_roots E byVersion trusted []) (\<lambda>(current, walked).
              if \<exists>m \<in> set byVersion. version_of m > version_of current \<or> version_of m \<le> version_of trusted
              then tufE Tuf_bad_root_version
              else
                bindR (checkExpiry E (Some current) now) (\<lambda>_.
                Inr \<lparr>rr_root = md_signed current, rr_version = version_of current, rr_updated = (walked \<noteq> []),
                  rr_walked = walked\<rparr>)))))
      | _ \<Rightarrow> tufE Tuf_bad_input)"

end
