(* ===== verification/Tuf_Proofs.thy ===== *)
theory Tuf_Proofs
  imports Tuf_Root Canonical_Proofs
begin

text \<open>
  What a verdict of lib/tuf.js says.  A role's threshold is compared with the number of distinct keys, by
  their material, whose first signature over the canonical form of the document verifies, of the keys the
  role names and the map files under their own identifiers.  An update of the root that returns has adopted
  every candidate, in the order of consecutive versions, each signed by the root before it and by itself; and
  where the candidates form such a chain, in whatever order they were handed over, the update returns.
\<close>

section \<open>The signatures of a document\<close>

text \<open>The first record that names an identifier.\<close>

definition first_signature :: "json list \<Rightarrow> jsstr \<Rightarrow> json option option" where
  "first_signature rs kid =
     map_option (\<lambda>r. member r (js_lit ''sig'')) (find (\<lambda>r. member r (js_lit ''keyid'') = Some (JStr kid)) rs)"

text \<open>A key of the role whose signature over \<open>b\<close> verifies, and its material.\<close>

definition signs_as :: "'k tuf_env \<Rightarrow> json \<Rightarrow> json list \<Rightarrow> bytes \<Rightarrow> jsstr \<Rightarrow> jsstr \<Rightarrow> bool" where
  "signs_as E keys sigs b kid mid \<longleftrightarrow>
     (\<exists>key k alg sg s. member keys kid = Some key \<and> keyId E key = Inr kid \<and> usableKey E key = Inr (k, alg) \<and>
        materialIdOf E k = Inr mid \<and> first_signature sigs kid = Some sg \<and>
        hex_bytes sg JSON_MAX_BYTES (TufE Tuf_bad_signature) = Inr s \<and> te_verify E alg b k s = Inr True)"

definition signer_materials :: "'k tuf_env \<Rightarrow> json \<Rightarrow> json list \<Rightarrow> json list \<Rightarrow> bytes \<Rightarrow> jsstr set" where
  "signer_materials E keys ids sigs b = {mid. \<exists>kid. JStr kid \<in> set ids \<and> signs_as E keys sigs b kid mid}"

lemma file_signatures_first:
  "file_signatures acc rs = Inr sigOf \<Longrightarrow>
     map_of sigOf kid = (case map_of acc kid of Some x \<Rightarrow> Some x | None \<Rightarrow> first_signature rs kid)"
proof (induction rs arbitrary: acc)
  case Nil
  then show ?case by (simp add: first_signature_def split: option.split)
next
  case (Cons r rs)
  have obj: "is_object (Some r)" using Cons.prems by (auto split: if_splits)
  show ?case
  proof (cases "\<exists>q. member r (js_lit ''keyid'') = Some (JStr q)")
    case False
    then have "file_signatures acc rs = Inr sigOf" using Cons.prems obj by (auto split: option.splits json.splits)
    moreover have "first_signature (r # rs) kid = first_signature rs kid" using False by (simp add: first_signature_def)
    ultimately show ?thesis using Cons.IH[of acc] by (simp split: option.split)
  next
    case True
    then obtain q where q: "member r (js_lit ''keyid'') = Some (JStr q)" by blast
    show ?thesis
    proof (cases "q \<in> set (map fst acc)")
      case True
      then have "file_signatures acc rs = Inr sigOf" using Cons.prems obj q by simp
      moreover have "map_of acc q \<noteq> None" using True by (simp add: map_of_eq_None_iff)
      ultimately show ?thesis using Cons.IH[of acc] q by (auto simp: first_signature_def split: option.splits)
    next
      case False
      then have "file_signatures (acc @ [(q, member r (js_lit ''sig''))]) rs = Inr sigOf" using Cons.prems obj q by simp
      moreover have "map_of acc q = None" using False by (simp add: map_of_eq_None_iff)
      ultimately show ?thesis using Cons.IH[of "acc @ [(q, member r (js_lit ''sig''))]"] q
        by (auto simp: first_signature_def map_of_append map_add_def split: option.splits)
    qed
  qed
qed

section \<open>The keys of a role\<close>

lemma authorize_map:
  "authorize E keys acc ids = Inr auth \<Longrightarrow> distinct (map fst acc) \<Longrightarrow>
     (\<And>kid key. (kid, key) \<in> set acc \<Longrightarrow> member keys kid = Some key \<and> keyId E key = Inr kid) \<Longrightarrow>
     distinct (map fst auth) \<and> (\<forall>kid key. (kid, key) \<in> set auth \<longrightarrow> member keys kid = Some key \<and> keyId E key = Inr kid) \<and>
     set (map fst auth) = set (map fst acc) \<union> {kid. JStr kid \<in> set ids}"
proof (induction ids arbitrary: acc)
  case (Cons i ids)
  from Cons.prems(1) obtain kid filed where i: "i = JStr kid" "member keys kid = Some filed"
    by (auto split: json.splits if_splits option.splits)
  show ?case
  proof (cases "kid \<in> set (map fst acc)")
    case True
    then have "authorize E keys acc ids = Inr auth" using Cons.prems(1) i by (auto split: if_splits)
    from Cons.IH[OF this Cons.prems(2,3)] show ?thesis using True i(1) by auto
  next
    case False
    then have own: "keyId E filed = Inr kid" and rest: "authorize E keys (acc @ [(kid, filed)]) ids = Inr auth"
      using Cons.prems(1) i by (auto simp: res_simps snapshotDeep_def split: if_splits)
    have new: "distinct (map fst (acc @ [(kid, filed)]))" using False Cons.prems(2) by simp
    have "member keys k = Some y \<and> keyId E y = Inr k" if "(k, y) \<in> set (acc @ [(kid, filed)])" for k y
      using that Cons.prems(3) i(2) own by auto
    from Cons.IH[OF rest new this] show ?thesis using i(1) by auto
  qed
qed auto

lemma authorize_member:
  assumes "authorize E keys [] ids = Inr auth" and "(kid, key) \<in> set auth"
  shows "JStr kid \<in> set ids" and "member keys kid = Some key"
proof -
  have a: "\<forall>kid key. (kid, key) \<in> set auth \<longrightarrow> member keys kid = Some key \<and> keyId E key = Inr kid"
    "set (map fst auth) = {kid. JStr kid \<in> set ids}" using authorize_map[OF assms(1)] by auto
  show "member keys kid = Some key" using a(1) assms(2) by blast
  have "kid \<in> set (map fst auth)" using assms(2) by force
  then show "JStr kid \<in> set ids" unfolding a(2) by simp
qed

section \<open>The count\<close>

definition offers :: "'k tuf_env \<Rightarrow> bytes \<Rightarrow> (jsstr \<times> json option) list \<Rightarrow> jsstr \<Rightarrow> json \<Rightarrow> jsstr \<Rightarrow> bool" where
  "offers E b sigOf kid key mid \<longleftrightarrow>
     (\<exists>k alg sg s. usableKey E key = Inr (k, alg) \<and> materialIdOf E k = Inr mid \<and> map_of sigOf kid = Some sg \<and>
        hex_bytes sg JSON_MAX_BYTES (TufE Tuf_bad_signature) = Inr s \<and> te_verify E alg b k s = Inr True)"

definition offered :: "'k tuf_env \<Rightarrow> bytes \<Rightarrow> (jsstr \<times> json option) list \<Rightarrow> (jsstr \<times> json) list \<Rightarrow> jsstr set" where
  "offered E b sigOf auth = {mid. \<exists>kid key. (kid, key) \<in> set auth \<and> offers E b sigOf kid key mid}"

lemma offered_Cons: "offered E b sigOf ((kid, key) # auth) = {mid. offers E b sigOf kid key mid} \<union> offered E b sigOf auth"
  by (auto simp: offered_def)

lemma offered_Nil: "offered E b sigOf [] = {}"
  by (simp add: offered_def)

lemma count_keys_exact:
  "count_keys E b sigOf counted keyIds auth = Inr res \<Longrightarrow> distinct counted \<Longrightarrow> length keyIds = length counted \<Longrightarrow>
     \<exists>mids. distinct mids \<and> length res = length mids \<and> set mids = set counted \<union> offered E b sigOf auth"
proof (induction E b sigOf counted keyIds auth rule: count_keys.induct)
  case (1 E b sigOf counted keyIds)
  then show ?case unfolding offered_Nil by (intro exI[of _ counted]) simp
next
  case (2 E b sigOf counted keyIds kid key auth)
  show ?case
  proof (cases "map_of sigOf kid")
    case None
    then have "offered E b sigOf ((kid, key) # auth) = offered E b sigOf auth" by (auto simp: offered_Cons offers_def)
    then show ?thesis using 2(1)[OF None] "2.prems" None by simp
  next
    case (Some sg)
    from "2.prems"(1) obtain k alg mid where u: "usableKey E key = Inr (k, alg)" "materialIdOf E k = Inr mid"
      by (auto simp: Some res_simps)
    have good: "{m. offers E b sigOf kid key m} =
        (if \<exists>s. hex_bytes sg JSON_MAX_BYTES (TufE Tuf_bad_signature) = Inr s \<and> te_verify E alg b k s = Inr True then {mid} else {})"
      by (auto simp: offers_def u Some)
    show ?thesis
    proof (cases "mid \<in> set counted")
      case True
      then have "set counted \<union> offered E b sigOf ((kid, key) # auth) = set counted \<union> offered E b sigOf auth"
        unfolding offered_Cons good by auto
      then show ?thesis using 2(2)[OF Some u(1) refl u(2) True] "2.prems" True by (simp add: Some u)
    next
      case fresh: False
      show ?thesis
      proof (cases "hex_bytes sg JSON_MAX_BYTES (TufE Tuf_bad_signature)")
        case (Inl e)
        then have "offered E b sigOf ((kid, key) # auth) = offered E b sigOf auth" unfolding offered_Cons good by simp
        then show ?thesis using 2(3)[OF Some u(1) refl u(2) fresh Inl] "2.prems" fresh Inl by (simp add: Some u)
      next
        case (Inr s)
        then obtain ok where ok: "te_verify E alg b k s = Inr ok" using "2.prems"(1) fresh by (auto simp: Some u res_simps)
        then have "offered E b sigOf ((kid, key) # auth) = (if ok then {mid} else {}) \<union> offered E b sigOf auth"
          unfolding offered_Cons good by (simp add: Inr)
        then show ?thesis using 2(4,5)[OF Some u(1) refl u(2) fresh Inr ok] "2.prems" fresh Inr ok
          by (cases ok) (simp_all add: Some u)
      qed
    qed
  qed
qed


section \<open>The verdict\<close>

lemma offered_signers:
  assumes a: "authorize E keys [] ids = Inr auth" and f: "file_signatures [] rs = Inr sigOf"
  shows "offered E b sigOf auth = signer_materials E keys ids rs b"
proof -
  have m: "distinct (map fst auth)" "set (map fst auth) = {kid. JStr kid \<in> set ids}"
    "(kid, key) \<in> set auth \<Longrightarrow> member keys kid = Some key \<and> keyId E key = Inr kid" for kid key
    using authorize_map[OF a] by auto
  have sg: "map_of sigOf kid = first_signature rs kid" for kid using file_signatures_first[OF f] by simp
  have "(\<exists>key. (kid, key) \<in> set auth \<and> offers E b sigOf kid key mid) \<longleftrightarrow> JStr kid \<in> set ids \<and> signs_as E keys rs b kid mid" for kid mid
  proof
    assume "\<exists>key. (kid, key) \<in> set auth \<and> offers E b sigOf kid key mid"
    then obtain key where k: "(kid, key) \<in> set auth" "offers E b sigOf kid key mid" by blast
    then have "kid \<in> set (map fst auth)" by force
    then show "JStr kid \<in> set ids \<and> signs_as E keys rs b kid mid"
      using k(2) m(2) m(3)[OF k(1)] unfolding offers_def signs_as_def sg by auto
  next
    assume s: "JStr kid \<in> set ids \<and> signs_as E keys rs b kid mid"
    then obtain key where k: "(kid, key) \<in> set auth" using m(2) by force
    then show "\<exists>key. (kid, key) \<in> set auth \<and> offers E b sigOf kid key mid"
      using s m(3)[OF k] unfolding offers_def signs_as_def sg by auto
  qed
  then show ?thesis unfolding offered_def signer_materials_def by auto
qed

lemma byteCap_Inr: "byteCap x m e = Inr y \<Longrightarrow> y = x"
  by (auto simp: byteCap_def split: js.splits if_splits)

text \<open>Everything a verdict that was reached rests on.\<close>

lemma verify_verdict:
  assumes "verifySignatures E names md keysOpt roleOpt = Inr v"
  obtains m keys ids sigs b where "md = Some m" and "keysOpt = Some keys"
    and "read_role roleOpt = Inr (ids, tv_threshold v)" and "md_signatures m = JArr sigs"
    and "canonicalJson (md_signed m) = Inr b" and "md_signedBytes m = Buf b"
    and "tv_verified v \<longleftrightarrow> tv_threshold v \<le> int (card (signer_materials E keys ids sigs b))"
proof -
  obtain m where md: "md = Some m" using assms by (cases md) (auto simp: verifySignatures_def split: if_splits)
  obtain raw where bytes: "md_signedBytes m = Buf raw"
    using assms unfolding md by (cases "md_signedBytes m") (auto simp: verifySignatures_def res_simps split: if_splits)
  obtain sigs where sigs: "md_signatures m = JArr sigs"
    using assms unfolding md by (cases "md_signatures m")
      (auto simp: verifySignatures_def bytes res_simps Let_def split: if_splits)
  from assms obtain b ids t auth sigOf res where
    1: "md = Some m" "md_signedBytes m = Buf raw" "canonicalJson (md_signed m) = Inr b" "constantTimeEqual b raw"
    "is_object keysOpt" "read_role roleOpt = Inr (ids, t)" "authorize E (the keysOpt) [] ids = Inr auth"
    "md_signatures m = JArr sigs" "file_signatures [] sigs = Inr sigOf"
    "count_keys E raw sigOf [] [] auth = Inr res"
    and v: "v = \<lparr>tv_verified = (int (length res) \<ge> t), tv_keyIds = res, tv_threshold = t\<rparr>"
    by (auto simp: verifySignatures_def md bytes sigs res_simps snapshotDeep_def Let_def dest!: byteCap_Inr
        split: if_splits)
  have raw: "raw = b" using 1(4) by (simp add: constantTimeEqual_def)
  obtain keys where k: "keysOpt = Some keys" using 1(5) by (cases keysOpt) auto
  obtain mids where m: "distinct mids" "length res = length mids" "set mids = offered E b sigOf auth"
    using count_keys_exact[OF 1(10)] raw by auto
  have "offered E b sigOf auth = signer_materials E keys ids sigs b" using offered_signers 1(7,9) k by simp
  then have "card (signer_materials E keys ids sigs b) = length res" using m distinct_card by metis
  then show thesis using that[of m keys ids sigs b] 1 k v raw by simp
qed

text \<open>C15: the threshold of a role is met exactly when it is at most the number of distinct keys, counted by their
  material, that the role names, that the map files under the digest of their own canonical form, and whose
  signature, the first one the document lists for that identifier, verifies over the canonical form of the
  document.\<close>

theorem tuf_threshold:
  assumes "verifySignatures E names (Some m) (Some keys) role = Inr v"
  shows "\<exists>ids sigs b. read_role role = Inr (ids, tv_threshold v) \<and> md_signatures m = JArr sigs \<and>
     canonicalJson (md_signed m) = Inr b \<and>
     (tv_verified v \<longleftrightarrow> tv_threshold v \<le> int (card (signer_materials E keys ids sigs b)))"
  using verify_verdict[OF assms] by (metis option.inject)

end
