(* ===== verification/Tuf_Chain.thy ===== *)
theory Tuf_Chain
  imports Tuf_Proofs
begin

text \<open>
  The walk of the root chain (\<open>updateRoot\<close> of lib/tuf.js): what a result says of the candidates, and that a
  chain of candidates is walked to its end.
\<close>

section \<open>Chains\<close>

text \<open>\<open>m\<close> meets the threshold of the root role \<open>by\<close> states, counted as \<open>tuf_threshold\<close> counts.\<close>

definition signed_root :: "'k tuf_env \<Rightarrow> tuf_metadata \<Rightarrow> tuf_metadata \<Rightarrow> bool" where
  "signed_root E by m \<longleftrightarrow>
     (\<exists>keys ids t sigs b. member (md_signed by) (js_lit ''keys'') = Some keys \<and>
        read_role (member (the (member (md_signed by) (js_lit ''roles''))) (js_lit ''root'')) = Inr (ids, t) \<and>
        md_signatures m = JArr sigs \<and> canonicalJson (md_signed m) = Inr b \<and>
        t \<le> int (card (signer_materials E keys ids sigs b)))"

inductive root_chain :: "'k tuf_env \<Rightarrow> tuf_metadata \<Rightarrow> tuf_metadata list \<Rightarrow> tuf_metadata \<Rightarrow> bool" for E where
  chain_end: "root_chain E a [] a"
| chain_next: "version_of b = version_of a + 1 \<Longrightarrow> signed_root E a b \<Longrightarrow> signed_root E b b \<Longrightarrow> root_chain E b ms c \<Longrightarrow>
    root_chain E a (b # ms) c"

inductive_cases root_chain_ConsE: "root_chain E a (b # ms) c"

inductive_simps root_chain_Nil: "root_chain E a [] c"

definition unexpired :: "'k tuf_env \<Rightarrow> tuf_metadata \<Rightarrow> now_arg \<Rightarrow> bool" where
  "unexpired E m now \<longleftrightarrow>
     (\<exists>s t u. member (md_signed m) (js_lit ''expires'') = Some (JStr s) \<and> date_parse (te_date E) s = Some u \<and>
        now = At t \<and> t < u)"

lemma verify_by_signed: "verify_by E by m = Inr v \<Longrightarrow> tv_verified v \<longleftrightarrow> signed_root E by m"
  unfolding verify_by_def signed_root_def by (erule verify_verdict) auto

lemma chain_version: "root_chain E a ms c \<Longrightarrow> version_of c = version_of a + int (length ms)"
  by (induction rule: root_chain.induct) auto

lemma chain_range: "root_chain E a ms c \<Longrightarrow> version_of ` set ms = {version_of a <.. version_of c}"
proof (induction rule: root_chain.induct)
  case (chain_next b a ms c)
  then have "version_of c \<ge> version_of b" using chain_version by fastforce
  then have "{version_of a <.. version_of c} = insert (version_of b) {version_of b <.. version_of c}"
    using chain_next.hyps(1) by auto
  then show ?case using chain_next.IH by simp
qed simp

lemma chain_distinct: "root_chain E a ms c \<Longrightarrow> distinct (map version_of ms)"
proof (induction rule: root_chain.induct)
  case (chain_next b a ms c)
  then show ?case using chain_range[OF chain_next.hyps(4)] by auto
qed simp

lemma chain_last: "root_chain E a ms c \<Longrightarrow> c \<in> set (a # ms)"
  by (induction rule: root_chain.induct) auto

section \<open>The walk\<close>

lemma walk_chain:
  "walk_roots E bv cur w = Inr (cur', w') \<Longrightarrow>
     \<exists>ms. root_chain E cur ms cur' \<and> w' = w @ map version_of ms \<and> set ms \<subseteq> set bv"
proof (induction E bv cur w rule: walk_roots.induct)
  case (1 E bv cur w)
  show ?case
  proof (cases "root_at bv (version_of cur + 1)")
    case None
    then have "cur' = cur" "w' = w" using "1.prems" by (simp_all add: walk_roots.simps[of E bv cur w])
    then show ?thesis using chain_end by fastforce
  next
    case (Some nxt)
    then obtain v u where v: "verify_by E cur nxt = Inr v" "tv_verified v" "verify_by E nxt nxt = Inr u" "tv_verified u"
      and rest: "walk_roots E bv nxt (w @ [version_of nxt]) = Inr (cur', w')"
      using "1.prems" by (auto simp: walk_roots.simps[of E bv cur w] res_simps split: if_splits)
    from "1.IH"[OF Some v(1) _ v(3) _ rest] v(2,4) obtain ms where
      ms: "root_chain E nxt ms cur'" "w' = (w @ [version_of nxt]) @ map version_of ms" "set ms \<subseteq> set bv" by blast
    have "root_chain E cur (nxt # ms) cur'"
      using root_at_Some[OF Some] verify_by_signed[OF v(1)] verify_by_signed[OF v(3)] v(2,4) ms(1)
      by (intro chain_next) auto
    then show ?thesis using ms root_at_Some[OF Some] by (intro exI[of _ "nxt # ms"]) simp
  qed
qed

lemma index_roots_list:
  "index_roots E bv cs = Inr res \<longleftrightarrow>
     (\<exists>ms. mapR (asRoot E) cs = Inr ms \<and> res = bv @ ms \<and> (distinct (map version_of bv) \<longrightarrow> distinct (map version_of res)) \<and>
        distinct (map version_of ms) \<and> version_of ` set ms \<inter> version_of ` set bv = {})"
proof (induction cs arbitrary: bv)
  case (Cons c cs)
  show ?case by (auto simp: res_simps Cons.IH)
qed auto

text \<open>A chain within the candidates that none of them is outside of is all of them.\<close>

lemma chain_all:
  assumes c: "root_chain E a ms c" and s: "set ms \<subseteq> set cands" and d: "distinct (map version_of cands)"
    and all: "\<And>m. m \<in> set cands \<Longrightarrow> version_of a < version_of m \<and> version_of m \<le> version_of c"
  shows "mset cands = mset ms"
proof -
  have "set cands \<subseteq> set ms"
  proof
    fix m assume m: "m \<in> set cands"
    then have "version_of m \<in> version_of ` set ms" using all[OF m] chain_range[OF c] by simp
    then obtain q where q: "q \<in> set ms" "version_of q = version_of m" by auto
    then have "q = m" using d m s by (meson distinct_map inj_onD subsetD)
    then show "m \<in> set ms" using q(1) by simp
  qed
  then have "set cands = set ms" using s by blast
  moreover have "distinct cands" "distinct ms" using d chain_distinct[OF c] by (auto simp: distinct_map)
  ultimately show ?thesis using set_eq_iff_mset_eq_distinct by blast
qed

lemma checkExpiry_unexpired: "checkExpiry E (Some m) now = Inr () \<Longrightarrow> unexpired E m now"
  unfolding checkExpiry_def unexpired_def
  by (auto simp: res_simps snapshotDeep_def split: if_splits option.splits json.splits now_arg.splits)

text \<open>C16: an update of the root that returns has adopted every candidate and nothing else: sorted by version they
  continue the trusted root one by one, each meets the threshold of the root before it and its own, the trusted
  root meets its own, and the last of them, which is the result, has not expired at the given instant.\<close>

theorem tuf_root_chain:
  assumes "updateRoot E names now (Arr candidates) trustedRoot = Inr r"
  shows "\<exists>trusted cands ms current. asRoot E trustedRoot = Inr trusted \<and> mapR (asRoot E) candidates = Inr cands \<and>
     signed_root E trusted trusted \<and> root_chain E trusted ms current \<and> mset ms = mset cands \<and> unexpired E current now \<and>
     r = \<lparr>rr_root = md_signed current, rr_version = version_of trusted + int (length candidates),
          rr_updated = (candidates \<noteq> []), rr_walked = map version_of ms\<rparr>"
proof -
  from assms obtain trusted cands self current walked where
    t: "asRoot E trustedRoot = Inr trusted" and i: "index_roots E [] candidates = Inr cands"
    and self: "verify_by E trusted trusted = Inr self" "tv_verified self"
    and w: "walk_roots E cands trusted [] = Inr (current, walked)"
    and all: "\<And>m. m \<in> set cands \<Longrightarrow> version_of trusted < version_of m \<and> version_of m \<le> version_of current"
    and x: "checkExpiry E (Some current) now = Inr ()"
    and r: "r = \<lparr>rr_root = md_signed current, rr_version = version_of current, rr_updated = (walked \<noteq> []), rr_walked = walked\<rparr>"
    by (auto simp: updateRoot_def res_simps not_le not_less split: if_splits)
  have cs: "mapR (asRoot E) candidates = Inr cands" "distinct (map version_of cands)"
    using i[unfolded index_roots_list] by auto
  obtain ms where ms: "root_chain E trusted ms current" "walked = map version_of ms" "set ms \<subseteq> set cands"
    using walk_chain[OF w] by auto
  have m: "mset cands = mset ms" by (rule chain_all[OF ms(1,3) cs(2) all])
  then have "length ms = length candidates" using mapR_length[OF cs(1)] by (metis mset_eq_length)
  then have "r = \<lparr>rr_root = md_signed current, rr_version = version_of trusted + int (length candidates),
      rr_updated = (candidates \<noteq> []), rr_walked = map version_of ms\<rparr>"
    using r ms(2) chain_version[OF ms(1)] by auto
  then show ?thesis using t cs(1) verify_by_signed[OF self(1)] self(2) ms(1) m checkExpiry_unexpired[OF x] by metis
qed

end
