(* ===== verification/Tuf_Live.thy ===== *)
theory Tuf_Live
  imports Tuf_Chain
begin

text \<open>
  An update of the root that can succeed does: from documents that were read as roots, every check of the
  signature verdict passes or counts, and a chain among the candidates is walked to its end.
\<close>

section \<open>A document that was read\<close>

text \<open>A test of a value's type, passed.\<close>

lemma json_tests:
  "(case x of Some (JArr a) \<Rightarrow> f a | _ \<Rightarrow> Inl e) = Inr y \<longleftrightarrow> (\<exists>a. x = Some (JArr a) \<and> f a = Inr y)"
  "(case x of Some (JObj m) \<Rightarrow> g m | _ \<Rightarrow> Inl e) = Inr y \<longleftrightarrow> (\<exists>m. x = Some (JObj m) \<and> g m = Inr y)"
  "(case x of Some (JStr s) \<Rightarrow> h s | _ \<Rightarrow> Inl e) = Inr y \<longleftrightarrow> (\<exists>s. x = Some (JStr s) \<and> h s = Inr y)"
  "(case x of Some (JInt i) \<Rightarrow> k i | _ \<Rightarrow> Inl e) = Inr y \<longleftrightarrow> (\<exists>i. x = Some (JInt i) \<and> k i = Inr y)"
  "(case v of Buf b \<Rightarrow> q b | _ \<Rightarrow> Inl e) = Inr y \<longleftrightarrow> (\<exists>b. v = Buf b \<and> q b = Inr y)"
  by (auto split: option.splits json.splits js.splits)

definition parsed :: "tuf_metadata \<Rightarrow> bool" where
  "parsed m \<longleftrightarrow>
     (\<exists>ms t s v x sigs b. md_signed m = JObj ms \<and> md_type m = Some (JStr t) \<and> md_specVersion m = Some (JStr s) \<and>
        md_version m = Some (JInt v) \<and> md_expires m = Some (JStr x) \<and> md_signatures m = JArr sigs \<and> md_signedBytes m = Buf b \<and>
        member (JObj ms) (js_lit ''_type'') = Some (JStr t) \<and> member (JObj ms) (js_lit ''spec_version'') = Some (JStr s) \<and>
        member (JObj ms) (js_lit ''version'') = Some (JInt v) \<and> member (JObj ms) (js_lit ''expires'') = Some (JStr x) \<and>
        specMajor s = Some SUPPORTED_SPEC_MAJOR \<and> isValid (Str x) \<and> isUtcOffset x \<and> canonicalJson (JObj ms) = Inr b \<and>
        (\<forall>r \<in> set sigs. is_object (Some r)))"

lemma supported: "assertSupportedMajor v c = Inr s \<longleftrightarrow> v = Some (JStr s) \<and> specMajor s = Some SUPPORTED_SPEC_MAJOR"
  by (auto simp: assertSupportedMajor_def split: option.splits json.splits if_splits)

lemma read_signature_object: "read_signature r = Inr q \<Longrightarrow> is_object (Some q)"
  by (auto simp: read_signature_def split: option.splits json.splits)

lemma is_objectD: "is_object x \<Longrightarrow> \<exists>ms. x = Some (JObj ms)"
  by (cases x rule: is_object.cases) auto

lemma type_okD: "type_ok t \<Longrightarrow> \<exists>s. t = Some (JStr s)"
  by (auto simp: type_ok_def split: option.splits json.splits)

lemma version_okD: "version_ok t \<Longrightarrow> \<exists>v. t = Some (JInt v)"
  by (auto simp: version_ok_def split: option.splits json.splits)

lemma expires_okD: "expires_ok t \<Longrightarrow> \<exists>s. t = Some (JStr s) \<and> isValid (Str s) \<and> isUtcOffset s"
  by (auto simp: expires_ok_def split: option.splits json.splits)

lemma read_body_parsed:
  assumes "read_body (JObj ms) signatures = Inr m"
  shows "parsed m"
proof -
  let ?v = "\<lambda>k. member (JObj ms) (js_lit k)"
  from assms obtain s sigs b where
    1: "assertSupportedMajor (?v ''spec_version'') Tuf_bad_metadata = Inr s"
      "type_ok (?v ''_type'')" "version_ok (?v ''version'')" "expires_ok (?v ''expires'')"
      "mapR read_signature signatures = Inr sigs" "canonicalJson (JObj ms) = Inr b"
    and m: "m = \<lparr>md_type = ?v ''_type'', md_specVersion = Some (JStr s), md_version = ?v ''version'', md_expires = ?v ''expires'',
       md_signed = JObj ms, md_signatures = JArr sigs, md_signedBytes = Buf b\<rparr>"
    by (auto simp: read_body_def res_simps simp del: member.simps split: if_splits)
  have "\<forall>r \<in> set sigs. is_object (Some r)" using mapR_source[OF 1(5)] read_signature_object by metis
  moreover obtain t v x where "?v ''_type'' = Some (JStr t)" "?v ''version'' = Some (JInt v)"
    "?v ''expires'' = Some (JStr x)" "isValid (Str x)" "isUtcOffset x"
    using type_okD[OF 1(2)] version_okD[OF 1(3)] expires_okD[OF 1(4)] by blast
  ultimately show ?thesis unfolding parsed_def m tuf_metadata.simps using 1(1)[unfolded supported] 1(6)
    by (simp del: member.simps)
qed

lemma parseMetadata_parsed: "parseMetadata input = Inr m \<Longrightarrow> parsed m"
  unfolding parseMetadata_def json_tests bindR_eq_Inr if_Inl_eq_Inr using read_body_parsed by blast

section \<open>What a root states\<close>

text \<open>A key the map files under its own identifier and that could verify something.\<close>

definition good_key :: "'k tuf_env \<Rightarrow> json \<Rightarrow> jsstr \<Rightarrow> bool" where
  "good_key E keys kid \<longleftrightarrow>
     (\<exists>key k alg mid. member keys kid = Some key \<and> keyId E key = Inr kid \<and> usableKey E key = Inr (k, alg) \<and> materialIdOf E k = Inr mid)"

lemma role_materials_good:
  "role_materials E keys kv ds ids = Inr (kv', ds') \<Longrightarrow> (\<And>kid. kid \<in> set (map fst kv) \<Longrightarrow> good_key E keys kid) \<Longrightarrow>
     (\<forall>kid \<in> set (map fst kv'). good_key E keys kid) \<and> (\<forall>i \<in> set ids. \<exists>kid. i = JStr kid \<and> good_key E keys kid)"
proof (induction ids arbitrary: kv ds)
  case (Cons i ids)
  from Cons.prems(1) obtain kid where i: "i = JStr kid" "kid \<noteq> []" by (auto split: json.splits if_splits)
  show ?case
  proof (cases "map_of kv kid")
    case (Some mid)
    then have "good_key E keys kid" using Cons.prems(2) map_of_SomeD by force
    then show ?thesis using Cons.IH[OF _ Cons.prems(2)] Cons.prems(1) Some i by simp
  next
    case None
    from Cons.prems(1) obtain key k alg mid where
      k: "member keys kid = Some key" "keyId E key = Inr kid" "usableKey E key = Inr (k, alg)" "materialIdOf E k = Inr mid"
      and rest: "role_materials E keys ((kid, mid) # kv) (List.insert mid ds) ids = Inr (kv', ds')"
      by (auto simp: i None res_simps split: option.splits if_splits)
    then have "good_key E keys kid" unfolding good_key_def by blast
    then show ?thesis using Cons.IH[OF rest] Cons.prems(2) i by auto
  qed
qed auto

lemma check_role_read:
  assumes "check_role E keys kv role = Inr kv'" and "\<And>kid. kid \<in> set (map fst kv) \<Longrightarrow> good_key E keys kid"
  shows "\<exists>ids t. read_role role = Inr (ids, t) \<and> (\<forall>i \<in> set ids. \<exists>kid. i = JStr kid \<and> good_key E keys kid) \<and>
    (\<exists>ms. role = Some (JObj ms) \<and> map_of ms (js_lit ''keyids'') = Some (JArr ids))"
proof -
  obtain ms where ms: "role = Some (JObj ms)"
    using assms(1) is_objectD[of role] unfolding check_role_def by (auto split: if_splits)
  from assms(1) obtain ids ds t where
    1: "map_of ms (js_lit ''keyids'') = Some (JArr ids)" "role_materials E keys kv [] ids = Inr (kv', ds)"
      "map_of ms (js_lit ''threshold'') = Some (JInt t)" "is_safe_integer t" "\<not> t < 1"
    unfolding check_role_def json_tests ms by (auto simp: json_tests res_simps split: if_splits)
  then show ?thesis using role_materials_good[OF 1(2) assms(2)] ms by (auto simp: read_role_def)
qed

definition good_root :: "'k tuf_env \<Rightarrow> tuf_metadata \<Rightarrow> bool" where
  "good_root E m \<longleftrightarrow>
     (\<exists>keys ms roles ids t. member (md_signed m) (js_lit ''keys'') = Some keys \<and> is_object (Some keys) \<and>
        member (md_signed m) (js_lit ''roles'') = Some roles \<and> member roles (js_lit ''root'') = Some (JObj ms) \<and>
        map_of ms (js_lit ''keyids'') = Some (JArr ids) \<and> read_role (Some (JObj ms)) = Inr (ids, t) \<and>
        (\<forall>i \<in> set ids. \<exists>kid. i = JStr kid \<and> good_key E keys kid))"

lemma asRoot_good:
  assumes "asRoot E input = Inr m"
  shows "parsed m \<and> good_root E m"
proof -
  from assms obtain u where
    1: "parseMetadata input = Inr m" "is_object (member (md_signed m) (js_lit ''keys''))" "is_object (member (md_signed m) (js_lit ''roles''))"
      "check_roles E (the (member (md_signed m) (js_lit ''keys''))) (the (member (md_signed m) (js_lit ''roles''))) [] TOP_LEVEL_ROLES = Inr u"
    by (auto simp: asRoot_def res_simps split: if_splits)
  obtain keys roles where kr: "member (md_signed m) (js_lit ''keys'') = Some keys" "member (md_signed m) (js_lit ''roles'') = Some roles"
    using 1(2,3) is_objectD by metis
  obtain kv where "check_role E keys [] (member roles (js_lit ''root'')) = Inr kv"
    using 1(4) by (auto simp: kr TOP_LEVEL_ROLES_def res_simps)
  from check_role_read[OF this] obtain ids t ms where
    "member roles (js_lit ''root'') = Some (JObj ms)" "read_role (Some (JObj ms)) = Inr (ids, t)" "map_of ms (js_lit ''keyids'') = Some (JArr ids)"
    "\<forall>i \<in> set ids. \<exists>kid. i = JStr kid \<and> good_key E keys kid" by auto
  then show ?thesis using parseMetadata_parsed[OF 1(1)] 1(2) kr unfolding good_root_def by metis
qed

section \<open>No check fails\<close>

definition copyable :: "json \<Rightarrow> bool" where
  "copyable v \<longleftrightarrow> copy_depth v \<le> 64 \<and> copy_cost v \<le> DEEP_COPY_MAX_NODES"

lemma copyable_snapshot: "copyable v \<Longrightarrow> snapshotDeep v e = Inr v"
  by (simp add: copyable_def snapshotDeep_def)

lemma snapshot_copyable: "snapshotDeep v e = Inr w \<longleftrightarrow> copyable v \<and> w = v"
  by (auto simp: copyable_def snapshotDeep_def)

lemma foldr_max_upper: "(x::nat) \<in> set xs \<Longrightarrow> x \<le> foldr max xs 0"
  by (induction xs) auto

lemma copy_member:
  assumes "member v k = Some x"
  shows "copy_cost x \<le> copy_cost v" and "copy_depth x \<le> copy_depth v"
proof -
  obtain ms where ms: "v = JObj ms" "map_of ms k = Some x" using assms by (cases "(v, k)" rule: member.cases) auto
  then have m: "(k, x) \<in> set ms" by (simp add: map_of_SomeD)
  then have "copy_cost x \<le> sum_list (map (\<lambda>m. copy_cost (snd m)) ms)"
    by (intro member_le_sum_list) (auto simp: image_iff intro!: bexI[of _ "(k, x)"])
  then show "copy_cost x \<le> copy_cost v" by (simp add: ms(1))
  have "Suc (copy_depth x) \<in> set (map (\<lambda>m. Suc (copy_depth (snd m))) ms)" using m by force
  then show "copy_depth x \<le> copy_depth v" using foldr_max_upper by (fastforce simp: ms(1))
qed

lemma copyable_member: "copyable v \<Longrightarrow> member v k = Some x \<Longrightarrow> copyable x"
  using copy_member unfolding copyable_def by (meson order_trans)

lemma length_hexText: "length (hexText b) = 2 * length b"
  by (induction b) (simp_all add: hexText_def)

lemma keyId_parts:
  assumes "keyId E key = Inr kid" and "\<And>x. length (te_sha256 E x) = 32"
  shows "length kid = KEY_ID_HEX_LEN" and "copyable key"
  using assms by (auto simp: keyId_def res_simps snapshot_copyable length_hexText KEY_ID_HEX_LEN_def split: if_splits)

lemma authorize_succeeds:
  assumes sha: "\<And>x. length (te_sha256 E x) = 32"
  shows "\<forall>i \<in> set ids. \<exists>kid. i = JStr kid \<and> good_key E keys kid \<Longrightarrow> \<exists>auth. authorize E keys acc ids = Inr auth"
proof (induction ids arbitrary: acc)
  case (Cons i ids)
  then obtain kid key where i: "i = JStr kid" "member keys kid = Some key" "keyId E key = Inr kid" by (auto simp: good_key_def)
  note k = keyId_parts[OF i(3) sha]
  show ?case using Cons.IH Cons.prems i k copyable_snapshot[OF k(2)] by simp
qed simp

lemma file_signatures_succeeds: "\<forall>r \<in> set rs. is_object (Some r) \<Longrightarrow> \<exists>sigOf. file_signatures acc rs = Inr sigOf"
  by (induction rs arbitrary: acc) (auto split: option.split json.split)

lemma count_keys_succeeds:
  assumes v: "\<And>alg b k s. isInr (te_verify E alg b k s)"
  shows "\<forall>p \<in> set auth. \<exists>k alg mid. usableKey E (snd p) = Inr (k, alg) \<and> materialIdOf E k = Inr mid \<Longrightarrow>
    \<exists>res. count_keys E b sigOf counted keyIds auth = Inr res"
proof (induction auth arbitrary: counted keyIds)
  case (Cons p auth)
  obtain kid key where p: "p = (kid, key)" by fastforce
  obtain k alg mid where k: "usableKey E key = Inr (k, alg)" "materialIdOf E k = Inr mid" using Cons.prems p by auto
  have ih: "\<exists>res. count_keys E b sigOf c q auth = Inr res" for c q using Cons by simp
  have "\<exists>res. bindR (te_verify E alg b k s) (\<lambda>ok. if ok then count_keys E b sigOf c q auth else count_keys E b sigOf c' q' auth) = Inr res"
    for s c q c' q' using v[of alg b k s] ih by (auto simp: isInr_iff)
  then show ?case using ih by (simp add: p k split: option.split sum.split)
qed simp

lemma same_copies:
  assumes "parsed m"
  shows "assertCopiesAgree m (md_signed m) = Inr ()"
  using assms by (auto simp: parsed_def assertCopiesAgree_def copy_agrees_def)

lemma canonical_fits: "canonicalJson v = Inr b \<Longrightarrow> byteCap b (Num (int JSON_MAX_BYTES)) e = Inr b"
  unfolding canonicalJson_text by (auto simp: byteCap_def)

section \<open>A verdict is reached\<close>

text \<open>What the platform's digest and signature check are relied on for.\<close>

definition sound_platform :: "'k tuf_env \<Rightarrow> bool" where
  "sound_platform E \<longleftrightarrow> (\<forall>x. length (te_sha256 E x) = 32) \<and> (\<forall>alg b k s. isInr (te_verify E alg b k s))"

lemma verify_by_succeeds:
  assumes E: "sound_platform E" and old: "good_root E prev" "copyable (md_signed prev)" and m: "parsed m" "copyable (md_signed m)"
  shows "\<exists>v. verify_by E prev m = Inr v"
proof -
  from old(1) obtain keys ms roles ids t where k: "member (md_signed prev) (js_lit ''keys'') = Some keys" "is_object (Some keys)"
    "member (md_signed prev) (js_lit ''roles'') = Some roles" "member roles (js_lit ''root'') = Some (JObj ms)"
    "map_of ms (js_lit ''keyids'') = Some (JArr ids)" "read_role (Some (JObj ms)) = Inr (ids, t)"
    "\<forall>i \<in> set ids. \<exists>kid. i = JStr kid \<and> good_key E keys kid" unfolding good_root_def by blast
  have sha: "\<And>x. length (te_sha256 E x) = 32" and ver: "\<And>alg b k s. isInr (te_verify E alg b k s)"
    using E by (auto simp: sound_platform_def)
  have "copyable roles" using old(2) k(3) by (rule copyable_member)
  then have "copyable (JObj ms)" using k(4) by (rule copyable_member)
  then have ids: "copyable (JArr ids)" by (rule copyable_member[where k = "js_lit ''keyids''"]) (simp add: k(5))
  have na: "\<not> names_accessor keys ids" using k(7) by (fastforce simp: names_accessor_def good_key_def)
  obtain auth where a: "authorize E keys [] ids = Inr auth" using authorize_succeeds[OF sha k(7)] by blast
  from m(1) obtain sm s sigs b where sm: "md_signed m = JObj sm" "member (JObj sm) (js_lit ''spec_version'') = Some (JStr s)"
    "specMajor s = Some SUPPORTED_SPEC_MAJOR" "md_signatures m = JArr sigs" "md_signedBytes m = Buf b"
    "canonicalJson (JObj sm) = Inr b" "\<forall>r \<in> set sigs. is_object (Some r)" unfolding parsed_def by blast
  obtain sigOf where f: "file_signatures [] sigs = Inr sigOf" using file_signatures_succeeds[OF sm(7)] by blast
  have "\<exists>k alg mid. usableKey E (snd p) = Inr (k, alg) \<and> materialIdOf E k = Inr mid" if "p \<in> set auth" for p
  proof -
    from that have "(fst p, snd p) \<in> set auth" by simp
    note p = authorize_member[OF a this]
    have "good_key E keys (fst p)" using bspec[OF k(7) p(1)] by simp
    then show ?thesis using p(2) unfolding good_key_def by auto
  qed
  then obtain res where c: "count_keys E b sigOf [] [] auth = Inr res" using count_keys_succeeds[OF ver] by blast
  have "assertSupportedMajor (Some (JStr s)) Tuf_bad_input = Inr s" using sm(3) by (simp add: supported)
  then have "verifySignatures E VERIFY_KEYS (Some m) (Some keys) (Some (JObj ms)) =
      Inr \<lparr>tv_verified = (int (length res) \<ge> t), tv_keyIds = res, tv_threshold = t\<rparr>"
    using m sm k(2,6) ids na a f c same_copies[OF m(1)] canonical_fits[OF sm(6)]
    by (simp add: verifySignatures_def copyable_snapshot constantTimeEqual_def del: member.simps)
  then show ?thesis by (simp add: verify_by_def k(1,3,4))
qed

lemma checkExpiry_succeeds:
  assumes m: "parsed m" "copyable (md_signed m)" and u: "unexpired E m now"
  shows "checkExpiry E (Some m) now = Inr ()"
proof -
  from m(1) obtain sm s x b where sm: "md_signed m = JObj sm" "member (JObj sm) (js_lit ''spec_version'') = Some (JStr s)"
    "specMajor s = Some SUPPORTED_SPEC_MAJOR" "member (JObj sm) (js_lit ''expires'') = Some (JStr x)" "isValid (Str x)" "isUtcOffset x"
    "md_signedBytes m = Buf b" "canonicalJson (JObj sm) = Inr b" unfolding parsed_def by blast
  have "assertSupportedMajor (Some (JStr s)) Tuf_bad_input = Inr s" using sm(3) by (simp add: supported)
  moreover obtain t e where "date_parse (te_date E) x = Some e" "now = At t" "t < e"
    using u sm(1,4) by (auto simp: unexpired_def simp del: member.simps)
  ultimately show ?thesis
    using m sm same_copies[OF m(1)] canonical_fits[OF sm(8)]
    by (simp add: checkExpiry_def copyable_snapshot constantTimeEqual_def del: member.simps)
qed

section \<open>The walk\<close>

lemma root_at_unique: "distinct (map version_of bv) \<Longrightarrow> m \<in> set bv \<Longrightarrow> root_at bv (version_of m) = Some m"
  unfolding root_at_def by (induction bv) force+

lemma root_at_None: "version_of ` set bv \<subseteq> V \<Longrightarrow> v \<notin> V \<Longrightarrow> root_at bv v = None"
  unfolding root_at_def find_None_iff by blast

lemma walk_succeeds:
  assumes E: "sound_platform E"
  shows "root_chain E cur ms newest \<Longrightarrow> set ms \<subseteq> set bv \<Longrightarrow> distinct (map version_of bv) \<Longrightarrow>
     (\<And>m. m \<in> set (cur # bv) \<Longrightarrow> parsed m \<and> good_root E m \<and> copyable (md_signed m)) \<Longrightarrow>
     (\<And>m. m \<in> set bv \<Longrightarrow> version_of m \<le> version_of newest) \<Longrightarrow>
     walk_roots E bv cur w = Inr (newest, w @ map version_of ms)"
proof (induction arbitrary: w rule: root_chain.induct)
  case (chain_end a)
  have "root_at bv (version_of a + 1) = None" using chain_end.prems(4) by (intro root_at_None[of _ "{.. version_of a}"]) auto
  then show ?case by (simp add: walk_roots.simps[of E bv a w])
next
  case (chain_next b a ms c)
  have b: "b \<in> set bv" using chain_next.prems(1) by simp
  note good = chain_next.prems(3)[of a, simplified] chain_next.prems(3)[of b, simplified]
  obtain v u where v: "verify_by E a b = Inr v" "verify_by E b b = Inr u"
    using verify_by_succeeds[OF E, of a b] verify_by_succeeds[OF E, of b b] good b by blast
  have "tv_verified v" "tv_verified u" using verify_by_signed[OF v(1)] verify_by_signed[OF v(2)] chain_next.hyps(2,3) by simp_all
  moreover have "root_at bv (version_of a + 1) = Some b" using root_at_unique[OF chain_next.prems(2) b] chain_next.hyps(1) by simp
  moreover have "walk_roots E bv b (w @ [version_of b]) = Inr (c, (w @ [version_of b]) @ map version_of ms)"
  proof (rule chain_next.IH)
    show "parsed m \<and> good_root E m \<and> copyable (md_signed m)" if "m \<in> set (b # bv)" for m
      using that b chain_next.prems(3)[of m] by auto
  qed (use chain_next.prems in auto)
  ultimately show ?case by (simp add: walk_roots.simps[of E bv a w] v)
qed

lemma update_reaches:
  assumes "sound_platform E" and "set names \<subseteq> set UPDATE_KEYS" and "length candidates \<le> TUF_MAX_ROOT_CHAIN"
    and "asRoot E trustedRoot = Inr trusted" and "mapR (asRoot E) candidates = Inr cands"
    and "\<forall>m \<in> set (trusted # cands). copyable (md_signed m)"
    and "signed_root E trusted trusted" and "root_chain E trusted ms newest" and "mset ms = mset cands" and "unexpired E newest now"
  shows "updateRoot E names now (Arr candidates) trustedRoot =
    Inr \<lparr>rr_root = md_signed newest, rr_version = version_of newest, rr_updated = (ms \<noteq> []), rr_walked = map version_of ms\<rparr>"
proof -
  have good: "parsed m \<and> good_root E m \<and> copyable (md_signed m)" if "m \<in> set (trusted # cands)" for m
    using that assms(6) asRoot_good[OF assms(4)] asRoot_good mapR_source[OF assms(5), of m] by auto
  have ms: "set cands = set ms" using assms(9) mset_eq_setD by metis
  have "mset (map version_of ms) = mset (map version_of cands)" using assms(9) by simp
  then have d: "distinct (map version_of cands)" using chain_distinct[OF assms(8)] mset_eq_imp_distinct_iff by blast
  have i: "index_roots E [] candidates = Inr cands" unfolding index_roots_list using assms(5) d by simp
  obtain v where v: "verify_by E trusted trusted = Inr v" using verify_by_succeeds[OF assms(1)] good[of trusted] by auto
  have tv: "tv_verified v" using verify_by_signed[OF v] assms(7) by simp
  have range: "version_of trusted < version_of m \<and> version_of m \<le> version_of newest" if "m \<in> set cands" for m
    using chain_range[OF assms(8)] that ms by (metis greaterThanAtMost_iff imageI)
  have w: "walk_roots E cands trusted [] = Inr (newest, [] @ map version_of ms)"
    by (rule walk_succeeds[OF assms(1,8) _ d good]) (use ms range in auto)
  have "newest \<in> set (trusted # cands)" using chain_last[OF assms(8)] ms by simp
  then have "checkExpiry E (Some newest) now = Inr ()" using checkExpiry_succeeds[OF _ _ assms(10)] good by blast
  moreover have "now \<noteq> NotDate" using assms(10) by (auto simp: unexpired_def)
  moreover have "\<not> (\<exists>m \<in> set cands. version_of m > version_of newest \<or> version_of m \<le> version_of trusted)"
    using range by (meson not_le)
  moreover have "\<not> (\<exists>k \<in> set names. k \<notin> set UPDATE_KEYS)" using assms(2) by blast
  ultimately show ?thesis using assms(3,4) i v tv w by (simp add: updateRoot_def)
qed

text \<open>C17: an update of the root that can succeed does.  Where the trusted root and the candidates are read as roots
  and are small enough to copy, the digest has its length and no signature check throws, the trusted root meets
  its own threshold, the candidates are, in whatever order they were handed over, a chain of consecutive versions
  each meeting the threshold of the root before it and its own, and the last has not expired, the update returns
  and the result is the last root of the chain.\<close>

theorem tuf_root_reaches:
  assumes "sound_platform E" and "set names \<subseteq> set UPDATE_KEYS" and "length candidates \<le> TUF_MAX_ROOT_CHAIN"
    and "asRoot E trustedRoot = Inr trusted" and "mapR (asRoot E) candidates = Inr cands"
    and "\<forall>m \<in> set (trusted # cands). copyable (md_signed m)"
    and "signed_root E trusted trusted" and "root_chain E trusted ms newest" and "mset ms = mset cands" and "unexpired E newest now"
  shows "updateRoot E names now (Arr candidates) trustedRoot =
    Inr \<lparr>rr_root = md_signed newest, rr_version = version_of newest, rr_updated = (ms \<noteq> []), rr_walked = map version_of ms\<rparr>"
  using update_reaches[OF assms] .

end
