(* ===== verification/Tuf_Sample.thy ===== *)
theory Tuf_Sample
  imports Tuf_Live Canonical_Read
begin

text \<open>
  A trusted root of version 1 and its successor of version 2, signed by one key.  The documents are the
  canonical forms of the values below, so that \<open>form_reads_back\<close> tells what the parser makes of them.
\<close>

section \<open>The documents\<close>

definition sample_kid :: jsstr where "sample_kid = replicate 64 0x30"

definition sample_key :: json where
  "sample_key = JObj [(js_lit ''keytype'', JStr (js_lit ''rsa'')), (js_lit ''keyval'', JObj [(js_lit ''public'', JStr (js_lit ''p''))]),
     (js_lit ''scheme'', JStr (js_lit ''rsassa-pss-sha256''))]"

definition sample_role :: json where
  "sample_role = JObj [(js_lit ''keyids'', JArr [JStr sample_kid]), (js_lit ''threshold'', JInt 1)]"

definition sample_body :: "int \<Rightarrow> json" where
  "sample_body v = JObj [(js_lit ''_type'', JStr (js_lit ''root'')), (js_lit ''expires'', JStr (js_lit ''2030-01-01T00:00:00Z'')),
     (js_lit ''keys'', JObj [(sample_kid, sample_key)]),
     (js_lit ''roles'', JObj [(js_lit ''root'', sample_role), (js_lit ''snapshot'', sample_role), (js_lit ''targets'', sample_role),
        (js_lit ''timestamp'', sample_role)]),
     (js_lit ''spec_version'', JStr (js_lit ''1.0.0'')), (js_lit ''version'', JInt v)]"

definition sample_root :: "int \<Rightarrow> json" where
  "sample_root v = JObj [(js_lit ''signatures'', JArr [JObj [(js_lit ''keyid'', JStr sample_kid), (js_lit ''sig'', JStr (js_lit ''00''))]]),
     (js_lit ''signed'', sample_body v)]"

lemmas sample_docs = sample_root_def sample_body_def sample_role_def sample_key_def sample_kid_def js_lit_def

section \<open>Small documents have a form\<close>

definition ascii :: "jsstr \<Rightarrow> bool" where
  "ascii s \<longleftrightarrow> (\<forall>c \<in> set s. c < 0x80)"

primrec small :: "nat \<Rightarrow> json \<Rightarrow> bool" where
  "small 0 v = False"
| "small (Suc n) v = (case v of
      JStr s \<Rightarrow> ascii s
    | JInt i \<Rightarrow> i = 1 \<or> i = 2
    | JArr xs \<Rightarrow> list_all (small n) xs
    | JObj ms \<Rightarrow> distinct (map fst ms) \<and> list_all (\<lambda>m. ascii (fst m) \<and> small n (snd m)) ms
    | _ \<Rightarrow> False)"

fun text_size :: "json \<Rightarrow> nat" where
  "text_size (JStr s) = 2 * length s + 2"
| "text_size (JInt i) = 1"
| "text_size (JArr xs) = 2 + sum_list (map (\<lambda>x. 1 + text_size x) xs)"
| "text_size (JObj ms) = 2 + sum_list (map (\<lambda>m. 2 * length (fst m) + 4 + text_size (snd m)) ms)"
| "text_size v = 0"

lemma quoted_small: "ascii s \<Longrightarrow> \<exists>t. quoted s = Some t \<and> length t \<le> 2 * length s + 2 \<and> ascii t"
proof -
  assume s: "ascii s"
  have "length (concat (map esc s)) \<le> 2 * length s" by (induction s) (auto simp: esc_def)
  moreover have "ascii (concat (map esc s))" using s by (auto simp: ascii_def esc_def split: if_splits)
  ultimately show ?thesis using code_points_ascii[of s] s by (simp add: quoted_def ascii_def)
qed

lemma joined_small:
  "\<forall>x \<in> set xs. \<exists>t. f x = Some t \<and> length t \<le> h x \<and> ascii t \<Longrightarrow>
     \<exists>z. joined b (map f xs) = Some z \<and> length z \<le> sum_list (map (\<lambda>x. 1 + h x) xs) \<and> ascii z"
proof (induction xs arbitrary: b)
  case (Cons x xs)
  obtain t z where t: "f x = Some t" "length t \<le> h x" "ascii t"
    and z: "joined False (map f xs) = Some z" "length z \<le> sum_list (map (\<lambda>x. 1 + h x) xs)" "ascii z"
    using Cons by fastforce
  then show ?case by (auto simp: cat_def ascii_def)
qed (simp add: ascii_def)

lemma small_text: "small n v \<Longrightarrow> \<exists>t. canon_text n v = Some t \<and> length t \<le> text_size v \<and> ascii t"
proof (induction n arbitrary: v)
  case (Suc n)
  show ?case
  proof (cases v)
    case (JStr s)
    then show ?thesis using Suc.prems quoted_small by simp
  next
    case (JInt i)
    then show ?thesis using Suc.prems
      by (auto simp: ascii_def is_safe_integer_def max_safe_def int_text_def digits_of.simps)
  next
    case (JArr xs)
    have "\<forall>x \<in> set xs. \<exists>t. canon_text n x = Some t \<and> length t \<le> text_size x \<and> ascii t"
      using Suc.IH Suc.prems by (simp add: JArr list_all_iff)
    from joined_small[OF this, of True] show ?thesis by (auto simp: JArr cat_def ascii_def)
  next
    case (JObj ms)
    let ?f = "\<lambda>k. cat (quoted k) (cat (Some [0x3a]) (canon_text n (the (map_of ms k))))"
    let ?h = "\<lambda>k. 2 * length k + 3 + text_size (the (map_of ms k))"
    have d: "distinct (map fst ms)" using Suc.prems by (simp add: JObj)
    have pm: "\<forall>m \<in> set ms. ascii (fst m) \<and> small n (snd m)" using Suc.prems by (simp add: JObj list_all_iff)
    have "\<exists>t. ?f k = Some t \<and> length t \<le> ?h k \<and> ascii t" if "k \<in> set (sortedCopy byCodePoint (map fst ms))" for k
    proof -
      have k: "(k, the (map_of ms k)) \<in> set ms" using map_of_value[OF d] that unfolding names_same by blast
      then have "ascii k" "small n (the (map_of ms k))" using bspec[OF pm k] by simp_all
      then show ?thesis using quoted_small[of k] Suc.IH[of "the (map_of ms k)"] by (auto simp: cat_def ascii_def)
    qed
    then obtain z where z: "joined True (map ?f (sortedCopy byCodePoint (map fst ms))) = Some z"
      "length z \<le> sum_list (map (\<lambda>k. 1 + ?h k) (sortedCopy byCodePoint (map fst ms)))" "ascii z"
      using joined_small[of "sortedCopy byCodePoint (map fst ms)" ?f ?h True] by blast
    have "sum_list (map g (sortedCopy byCodePoint ks)) = sum_list (map g ks)" for g :: "jsstr \<Rightarrow> nat" and ks
      by (metis mset_map name_order.sorted_mset sum_mset_sum_list)
    moreover have "map (\<lambda>k. 1 + ?h k) (map fst ms) = map (\<lambda>m. 2 * length (fst m) + 4 + text_size (snd m)) ms"
      using d by (auto simp: map_of_eq_Some_iff intro!: map_cong)
    ultimately have "length z \<le> sum_list (map (\<lambda>m. 2 * length (fst m) + 4 + text_size (snd m)) ms)" using z(2) by metis
    then show ?thesis using z(1,3) by (simp add: JObj cat_def ascii_def)
  qed (use Suc.prems in auto)
qed simp

lemma utf8_small: "ascii t \<Longrightarrow> length (utf8_encode t) = length t"
proof (induction t)
  case (Cons c t)
  then have "\<not> high_surr c" "\<not> low_surr c" "c < 0x80" by (auto simp: ascii_def high_surr_def low_surr_def)
  then show ?case using Cons by (simp add: utf8_encode_def utf8_char_def ascii_def)
qed (simp add: utf8_encode_def)

lemma small_form:
  assumes "small (Suc CANONICAL_MAX_DEPTH) v" and "text_size v \<le> JSON_MAX_BYTES"
  shows "\<exists>b. canonicalJson v = Inr b"
proof -
  obtain t where t: "canon_text (Suc CANONICAL_MAX_DEPTH) v = Some t" "length t \<le> text_size v" "ascii t"
    using small_text[OF assms(1)] by blast
  then show ?thesis unfolding canonicalJson_text using assms(2) utf8_small[OF t(3)] by auto
qed

section \<open>The sample is read back\<close>

lemma small_numeral: "small (numeral k) v = (case v of
      JStr s \<Rightarrow> ascii s
    | JInt i \<Rightarrow> i = 1 \<or> i = 2
    | JArr xs \<Rightarrow> list_all (small (pred_numeral k)) xs
    | JObj ms \<Rightarrow> distinct (map fst ms) \<and> list_all (\<lambda>m. ascii (fst m) \<and> small (pred_numeral k) (snd m)) ms
    | _ \<Rightarrow> False)"
  by (simp add: numeral_eq_Suc split: json.split)

lemma sample_small:
  "small 33 sample_key" "v = 1 \<or> v = 2 \<Longrightarrow> small 33 (sample_root v)" "v = 1 \<or> v = 2 \<Longrightarrow> small 33 (sample_body v)"
  by (auto simp: sample_docs small_numeral ascii_def simp del: small.simps)

lemma sample_size:
  "text_size sample_key \<le> 200" "text_size (sample_root v) \<le> 2000" "text_size (sample_body v) \<le> 2000"
  by (simp_all add: sample_docs)

lemma in_order_numeral:
  "in_order (numeral k) (JArr xs) = JArr (map (in_order (pred_numeral k)) xs)"
  "in_order (numeral k) (JObj ms) =
     JObj (map (\<lambda>n. (n, in_order (pred_numeral k) (the (map_of ms n)))) (sortedCopy byCodePoint (map fst ms)))"
  "in_order (numeral k) (JStr s) = JStr s"
  "in_order (numeral k) (JInt i) = JInt i"
  unfolding numeral_eq_Suc in_order.simps json.case by (rule refl)+

lemma sample_names:
  "sortedCopy byCodePoint [js_lit ''signatures'', js_lit ''signed''] = [js_lit ''signatures'', js_lit ''signed'']"
  "sortedCopy byCodePoint [js_lit ''keyid'', js_lit ''sig''] = [js_lit ''keyid'', js_lit ''sig'']"
  "sortedCopy byCodePoint [js_lit ''keyids'', js_lit ''threshold''] = [js_lit ''keyids'', js_lit ''threshold'']"
  "sortedCopy byCodePoint [js_lit ''keytype'', js_lit ''keyval'', js_lit ''scheme''] = [js_lit ''keytype'', js_lit ''keyval'', js_lit ''scheme'']"
  "sortedCopy byCodePoint [js_lit ''root'', js_lit ''snapshot'', js_lit ''targets'', js_lit ''timestamp''] =
     [js_lit ''root'', js_lit ''snapshot'', js_lit ''targets'', js_lit ''timestamp'']"
  "sortedCopy byCodePoint [js_lit ''_type'', js_lit ''expires'', js_lit ''keys'', js_lit ''roles'', js_lit ''spec_version'', js_lit ''version''] =
     [js_lit ''_type'', js_lit ''expires'', js_lit ''keys'', js_lit ''roles'', js_lit ''spec_version'', js_lit ''version'']"
  "sortedCopy byCodePoint [x] = [x]"
  by (simp_all add: sortedCopy_def byCodePoint_def js_lit_def high_surr_def)

lemmas sample_codes = sample_names[simplified js_lit_def, simplified]

lemma sample_in_order_parts: "in_order 30 sample_role = sample_role" "in_order 30 sample_key = sample_key"
  by (simp_all add: sample_docs in_order_numeral sample_codes del: in_order.simps)

lemma sample_in_order: "in_order 33 (sample_root v) = sample_root v"
  unfolding sample_root_def sample_body_def
  by (simp add: in_order_numeral sample_in_order_parts sample_codes js_lit_def del: in_order.simps)

lemma sample_values: "js_value (sample_root v)" "no_controls (sample_root v)"
  by (simp_all add: sample_docs unit_string_def)

definition sample_bytes :: "int \<Rightarrow> bytes" where
  "sample_bytes v = (case canonicalJson (sample_root v) of Inr b \<Rightarrow> b | Inl _ \<Rightarrow> [])"

definition sample_signed :: "int \<Rightarrow> bytes" where
  "sample_signed v = (case canonicalJson (sample_body v) of Inr b \<Rightarrow> b | Inl _ \<Rightarrow> [])"

lemma sample_forms:
  assumes "v = 1 \<or> v = 2"
  shows "canonicalJson (sample_root v) = Inr (sample_bytes v)" and "canonicalJson (sample_body v) = Inr (sample_signed v)"
    and "\<exists>b. canonicalJson sample_key = Inr b"
proof -
  note f = small_form[unfolded sample_depth JSON_MAX_BYTES_def]
  have "\<exists>b. canonicalJson (sample_root v) = Inr b" "\<exists>b. canonicalJson (sample_body v) = Inr b"
    using f[OF sample_small(2)[OF assms]] f[OF sample_small(3)[OF assms]] sample_size(2,3)[of v] by auto
  then show "canonicalJson (sample_root v) = Inr (sample_bytes v)" "canonicalJson (sample_body v) = Inr (sample_signed v)"
    by (auto simp: sample_bytes_def sample_signed_def)
  show "\<exists>b. canonicalJson sample_key = Inr b" using f[OF sample_small(1)] sample_size(1) by simp
qed

lemma sample_read: "v = 1 \<or> v = 2 \<Longrightarrow> json_parse (Buf (sample_bytes v)) tuf_spec = Inr (sample_root v)"
  using form_reads_back[OF sample_values sample_forms(1), of v tuf_spec "int JSON_MAX_BYTES" "int JSON_MAX_DEPTH"]
  by (simp add: plain_numbers_def tuf_spec_def MAX_DECODE_DEPTH_CEILING_def JSON_MAX_DEPTH_def sample_depth sample_in_order)

definition sample_meta :: "int \<Rightarrow> tuf_metadata" where
  "sample_meta v = \<lparr>md_type = Some (JStr (js_lit ''root'')), md_specVersion = Some (JStr (js_lit ''1.0.0'')), md_version = Some (JInt v),
     md_expires = Some (JStr (js_lit ''2030-01-01T00:00:00Z'')), md_signed = sample_body v,
     md_signatures = JArr [JObj [(js_lit ''keyid'', JStr sample_kid), (js_lit ''sig'', JStr (js_lit ''00''))]],
     md_signedBytes = Buf (sample_signed v)\<rparr>"

lemma sample_members:
  "member (sample_body v) (js_lit ''_type'') = Some (JStr (js_lit ''root''))"
  "member (sample_body v) (js_lit ''spec_version'') = Some (JStr (js_lit ''1.0.0''))"
  "member (sample_body v) (js_lit ''version'') = Some (JInt v)"
  "member (sample_body v) (js_lit ''expires'') = Some (JStr (js_lit ''2030-01-01T00:00:00Z''))"
  "member (sample_body v) (js_lit ''keys'') = Some (JObj [(sample_kid, sample_key)])"
  "member (sample_root v) (js_lit ''signed'') = Some (sample_body v)"
  "member (sample_root v) (js_lit ''signatures'') = Some (JArr [JObj [(js_lit ''keyid'', JStr sample_kid), (js_lit ''sig'', JStr (js_lit ''00''))]])"
  "member sample_role (js_lit ''keyids'') = Some (JArr [JStr sample_kid])"
  "member sample_role (js_lit ''threshold'') = Some (JInt 1)"
  by (simp_all add: sample_body_def sample_root_def sample_role_def js_lit_def)

lemma sample_version: "specMajor (js_lit ''1.0.0'') = Some SUPPORTED_SPEC_MAJOR"
  by (simp add: specMajor_def numericId_def code_at_def is_dig_def SUPPORTED_SPEC_MAJOR_def js_lit_def)

lemma sample_date: "isValid (Str (js_lit ''2030-01-01T00:00:00Z''))" "isUtcOffset (js_lit ''2030-01-01T00:00:00Z'')"
  by (simp_all add: isValid_def scanDateTime_def scanFullPrefix_def scanClock_def scanFrac_def scanZone_def digitsAt_def
    at_is_def slice_def isUtcOffset_def js_lit_def daysInMonth_def)

lemma sample_parsed:
  assumes "v = 1 \<or> v = 2"
  shows "parseMetadata (Buf (sample_bytes v)) = Inr (sample_meta v)"
proof -
  let ?sig = "JObj [(js_lit ''keyid'', JStr sample_kid), (js_lit ''sig'', JStr (js_lit ''00''))]"
  have "is_safe_integer v" "\<not> v < 1" using assms by (auto simp: is_safe_integer_def max_safe_def)
  moreover have "read_signature ?sig = Inr ?sig" by (simp add: read_signature_def js_lit_def)
  moreover have "type_ok (Some (JStr (js_lit ''root'')))" by (simp add: type_ok_def js_lit_def)
  ultimately have body: "read_body (sample_body v) [?sig] = Inr (sample_meta v)"
    using sample_members sample_forms(2)[OF assms] sample_version sample_date
    by (simp add: read_body_def assertSupportedMajor_def version_ok_def expires_ok_def sample_meta_def del: member.simps)
  obtain ms where ms: "sample_body v = JObj ms" by (simp add: sample_body_def)
  moreover have "is_object (Some (sample_root v))" by (simp add: sample_root_def)
  ultimately show ?thesis using sample_members(6,7)[of v] body[unfolded ms]
    by (simp add: parseMetadata_def sample_read[OF assms] del: member.simps)
qed

section \<open>A platform and an update\<close>

definition sample_env :: "unit tuf_env" where
  "sample_env = \<lparr>te_sha256 = \<lambda>_. replicate 32 0, te_pem = \<lambda>_. Some (), te_spki = \<lambda>_. Inr (),
     te_keyType = \<lambda>_. Some (js_lit ''rsa''), te_namedCurve = \<lambda>_. None, te_modulusLength = \<lambda>_. Some 2048,
     te_jwk = \<lambda>_. Inr sample_key, te_verify = \<lambda>_ _ _ _. Inr True, te_date = \<lambda>_. None\<rparr>"

lemma sample_platform: "sound_platform sample_env"
  by (simp add: sound_platform_def sample_env_def)

lemma concat_pairs: "concat (replicate n [c, c]) = replicate (2 * n) c"
  by (induction n) simp_all

lemma sample_hash: "hexText (replicate 32 0) = sample_kid"
  by (simp add: hexText_def hex_digit_def sample_kid_def concat_pairs)

lemma sample_keyId: "keyId sample_env sample_key = Inr sample_kid"
proof -
  obtain b where b: "canonicalJson sample_key = Inr b" using sample_forms(3)[of 1] by blast
  have "snapshotDeep sample_key e = Inr sample_key" for e
    by (simp add: snapshotDeep_def sample_key_def DEEP_COPY_MAX_NODES_def)
  moreover have "is_string (member sample_key (js_lit ''keytype''))" "is_string (member sample_key (js_lit ''scheme''))"
    "object_type (member sample_key (js_lit ''keyval''))" "is_object (Some sample_key)" by (simp_all add: sample_key_def js_lit_def)
  ultimately show ?thesis using b sample_hash by (simp add: keyId_def sample_env_def del: member.simps)
qed

lemma sample_usable: "usableKey sample_env sample_key = Inr ((), Pss_sha256)"
  by (simp add: usableKey_def declarationOf_def KEY_DECLARATIONS_def checkedPublicKey_def key_public_def publicFromPem_def
    sample_env_def sample_key_def js_lit_def)

lemma sample_material: "materialIdOf sample_env k = Inr sample_kid"
proof -
  obtain b where b: "canonicalJson sample_key = Inr b" using sample_forms(3)[of 1] by blast
  show ?thesis by (simp add: materialIdOf_def sample_env_def b sample_hash)
qed

lemma sample_check_role:
  assumes "kv = [] \<or> kv = [(sample_kid, sample_kid)]"
  shows "check_role sample_env (JObj [(sample_kid, sample_key)]) kv (Some sample_role) = Inr [(sample_kid, sample_kid)]"
proof -
  have "is_object (Some sample_role)" by (simp add: sample_role_def)
  moreover have "sample_kid \<noteq> []" by (simp add: sample_kid_def)
  moreover have "is_safe_integer 1" by (simp add: is_safe_integer_def max_safe_def)
  moreover have "member (JObj [(sample_kid, sample_key)]) sample_kid = Some sample_key" by simp
  ultimately show ?thesis using assms sample_members(8,9)
    by (auto simp: check_role_def sample_keyId sample_usable sample_material simp del: member.simps(1))
qed

lemma sample_roles:
  "member (sample_body v) (js_lit ''roles'') = Some (JObj [(js_lit ''root'', sample_role), (js_lit ''snapshot'', sample_role),
     (js_lit ''targets'', sample_role), (js_lit ''timestamp'', sample_role)])"
  by (simp add: sample_body_def js_lit_def)

lemma sample_asRoot:
  assumes "v = 1 \<or> v = 2"
  shows "asRoot sample_env (Buf (sample_bytes v)) = Inr (sample_meta v)"
proof -
  have "check_roles sample_env (JObj [(sample_kid, sample_key)]) (JObj [(js_lit ''root'', sample_role), (js_lit ''snapshot'', sample_role),
     (js_lit ''targets'', sample_role), (js_lit ''timestamp'', sample_role)]) [] TOP_LEVEL_ROLES = Inr ()"
    by (simp add: TOP_LEVEL_ROLES_def sample_check_role js_lit_def)
  then show ?thesis using sample_members(5)[of v] sample_roles[of v]
    by (simp add: asRoot_def sample_parsed[OF assms] sample_meta_def del: member.simps)
qed

lemma sample_signers: "signer_materials sample_env (JObj [(sample_kid, sample_key)]) [JStr sample_kid]
    [JObj [(js_lit ''keyid'', JStr sample_kid), (js_lit ''sig'', JStr (js_lit ''00''))]] b = {sample_kid}"
proof -
  let ?sig = "JObj [(js_lit ''keyid'', JStr sample_kid), (js_lit ''sig'', JStr (js_lit ''00''))]"
  have "first_signature [?sig] sample_kid = Some (Some (JStr (js_lit ''00'')))" by (simp add: first_signature_def js_lit_def)
  moreover have "hex_bytes (Some (JStr (js_lit ''00''))) JSON_MAX_BYTES e = Inr [0]" for e
    by (simp add: hex_bytes_def hexText_def hex_digit_def lower_char_def js_lit_def hexNibble_def JSON_MAX_BYTES_def)
  moreover have "te_verify sample_env alg b k s = Inr True" for alg b k s by (simp add: sample_env_def)
  ultimately show ?thesis
    by (auto simp: signer_materials_def signs_as_def sample_keyId sample_usable sample_material)
qed

lemma sample_root_role: "member (the (member (sample_body u) (js_lit ''roles''))) (js_lit ''root'') = Some sample_role"
  unfolding sample_roles option.sel by (simp add: js_lit_def)

lemma sample_meta_signed: "md_signed (sample_meta v) = sample_body v"
  by (simp add: sample_meta_def)

lemma sample_read_role: "read_role (Some sample_role) = Inr ([JStr sample_kid], 1)"
  by (simp add: read_role_def sample_role_def js_lit_def is_safe_integer_def max_safe_def)

lemma sample_signed_root:
  assumes "v = 1 \<or> v = 2"
  shows "signed_root sample_env (sample_meta u) (sample_meta v)"
proof -
  show ?thesis using sample_members(5)[of u] sample_root_role[of u] sample_read_role sample_forms(2)[OF assms] sample_signers
    unfolding signed_root_def by (fastforce simp: sample_meta_def simp del: member.simps)
qed

lemma sample_chain: "root_chain sample_env (sample_meta 1) [sample_meta 2] (sample_meta 2)"
  by (intro chain_next chain_end sample_signed_root) (simp_all add: sample_meta_def version_of_def)

lemma sample_copyable: "copyable (md_signed (sample_meta v))"
  by (simp add: sample_meta_def copyable_def sample_docs DEEP_COPY_MAX_NODES_def)

lemma sample_unexpired: "unexpired sample_env (sample_meta v) (At 0)"
proof -
  have "scanDateTime (js_lit ''2030-01-01T00:00:00Z'') =
      Some \<lparr>sc_year = 2030, sc_month = 1, sc_day = 1, sc_hour = 0, sc_min = 0, sc_sec = 0, sc_offset = None\<rparr>"
    "standard_form (js_lit ''2030-01-01T00:00:00Z'') = Some (0, False)"
    by (simp_all add: scanDateTime_def standard_form_def scanFullPrefix_def scanClock_def scanFrac_def scanZone_def digitsAt_def
      at_is_def slice_def js_lit_def)
  then have "date_parse (te_date sample_env) (js_lit ''2030-01-01T00:00:00Z'') = Some 1893456000000"
    using sample_date(1) by (simp add: date_parse_def make_day_def make_time_def time_clip_def ms_per_day_def day_from_year_def month_start_def)
  then show ?thesis using sample_members(4)[of v] by (simp add: unexpired_def sample_meta_def del: member.simps)
qed

lemma sample_updates:
  "updateRoot sample_env [] (At 0) (Arr [Buf (sample_bytes 2)]) (Buf (sample_bytes 1)) =
     Inr \<lparr>rr_root = sample_body 2, rr_version = 2, rr_updated = True, rr_walked = [2]\<rparr>"
proof -
  have "updateRoot sample_env [] (At 0) (Arr [Buf (sample_bytes 2)]) (Buf (sample_bytes 1)) =
      Inr \<lparr>rr_root = md_signed (sample_meta 2), rr_version = version_of (sample_meta 2), rr_updated = ([sample_meta 2] \<noteq> []),
        rr_walked = map version_of [sample_meta 2]\<rparr>"
    by (rule update_reaches[OF sample_platform _ _ sample_asRoot _ _ sample_signed_root sample_chain refl sample_unexpired])
      (simp_all add: TUF_MAX_ROOT_CHAIN_def sample_asRoot sample_copyable)
  then show ?thesis by (simp add: sample_meta_def version_of_def)
qed

section \<open>Witnesses\<close>

theorem tuf_root_chain_witness:
  "\<exists>ms current. root_chain sample_env (sample_meta 1) ms current \<and> mset ms = {# sample_meta 2 #} \<and>
     unexpired sample_env current (At 0) \<and> map version_of ms = [2]"
  using tuf_root_chain[OF sample_updates] by (auto simp: sample_asRoot)

theorem tuf_root_reaches_witness:
  "updateRoot sample_env [''now''] (At 0) (Arr [Buf (sample_bytes 2)]) (Buf (sample_bytes 1)) =
     Inr \<lparr>rr_root = md_signed (sample_meta 2), rr_version = version_of (sample_meta 2), rr_updated = ([sample_meta 2] \<noteq> []),
       rr_walked = map version_of [sample_meta 2]\<rparr>"
  by (rule tuf_root_reaches[OF sample_platform _ _ sample_asRoot _ _ sample_signed_root sample_chain refl sample_unexpired])
    (simp_all add: TUF_MAX_ROOT_CHAIN_def UPDATE_KEYS_def sample_asRoot sample_copyable)

theorem tuf_threshold_witness:
  "\<exists>v. verifySignatures sample_env [] (Some (sample_meta 2)) (Some (JObj [(sample_kid, sample_key)])) (Some sample_role) = Inr v \<and>
     tv_verified v"
proof -
  have p: "parsed (sample_meta 2)" "good_root sample_env (sample_meta 1)" using sample_asRoot asRoot_good by blast+
  obtain v where "verify_by sample_env (sample_meta 1) (sample_meta 2) = Inr v"
    using verify_by_succeeds[OF sample_platform p(2) sample_copyable p(1) sample_copyable] by blast
  then have v: "verifySignatures sample_env VERIFY_KEYS (Some (sample_meta 2)) (Some (JObj [(sample_kid, sample_key)])) (Some sample_role) = Inr v"
    unfolding verify_by_def sample_meta_signed sample_members(5) sample_root_role .
  from tuf_threshold[OF v] have "tv_verified v"
    using sample_signers unfolding sample_read_role by (auto simp: sample_meta_def)
  moreover have "verifySignatures sample_env [] md k r = verifySignatures sample_env VERIFY_KEYS md k r" for md k r
    by (simp add: verifySignatures_def)
  ultimately show ?thesis using v by auto
qed

end
