(* ===== verification/Spec2Isabelle.thy ===== *)
theory Spec2Isabelle
  imports Asn1_Time Merkle_Proofs ByteIO Cbor_Codec Ip_Proofs Rc2 Path_Claims Path_Answers
    Rfc3339_Proofs Canonical_Read Edwards_Proofs Tuf_Sample
begin

text \<open>
  Verification of the core of the \<open>@blamejs/pki\<close> toolkit (JavaScript, lib/*.js).

  \<^bold>\<open>The program.\<close>  The toolkit reads and writes PKI objects.  At the bottom are guards on the caller's
  values (guard-*.js), the octet cursor and sink (byte-reader.js, byte-writer.js) and two codecs, DER
  (asn1-der.js) and deterministic CBOR (cbor-det.js).  Above them stand the comparison of names and
  addresses (guard-name.js, ip-utils.js), the Merkle trees of the transparency logs (merkle.js), the
  check of a certificate against the name a client wanted (identity-match.js), one cipher of its own
  (rc2.js), and the validation of certification paths (path-validate.js), which puts the others
  together: it compares names, constrains them, keeps the graph of valid policies, carries the working
  key from the trust anchor to the target, and asks for revocation and for identity.  Beside them stands
  the trust metadata of The Update Framework (tuf.js): documents read by guard-json.js, dated by rfc3339.js,
  put in canonical form, signed by a threshold of keys (an EdDSA key being a point, edwards-point.js), and
  root documents that replace each other one version at a time.

  \<^bold>\<open>How the code is modelled.\<close>  A throw is \<open>Inl\<close> of an error of the datatype \<open>err\<close> (Values), whose
  constructors are the code's \<open>domain/reason\<close> codes; messages are left out.  A caller's value that the
  code tests the type of is a \<open>js\<close>.  Buffers are lists of octets (\<open>8 word\<close>), strings are lists of
  UTF-16 code units.  A Number the code uses as a size is a \<open>nat\<close>, a BigInt an \<open>int\<close>; 32-bit operators
  are written out where they wrap (ByteIO).  Mutable state is a record that is handed on: the item
  counter and the byte budget (Limits), the reader and writer (ByteIO), the policy graph
  (Policy\_Graph), the state of a validation (Path\_State).

  \<^bold>\<open>Theories.\<close>
  \<^item> Prelude, Values: octets, results, slices, big-endian numbers, errors.
  \<^item> Limits (constants.js, guard-limits.js), Ranges (guard-range.js), Guard\_List (guard-list.js),
    Utf8 (guard-text.js and the platform's codecs), Js\_Date (the language's Date).
  \<^item> ByteIO (byte-reader.js, byte-writer.js): a locale states what a field's writer and reader owe each
    other; it is interpreted on every field width.
  \<^item> Base128, Oid\_Codec, Asn1\_Types, Asn1\_Decode, Asn1\_Encode, Asn1\_Read, Asn1\_Build, Asn1\_Time:
    asn1-der.js in the order of its parts.  Asn1\_Header and Asn1\_Tree relate decoder and encoder: the
    strict decoder accepts exactly the encodings of abstract values, each in one form, and what either door
    returns is within the caps.
  \<^item> Cbor (cbor-det.js); Cbor\_Floats: the value of a bit pattern by IEEE 754, and that the code's tests of
    exact representability find the shortest format of a value; Cbor\_Tree, Cbor\_Proofs, Cbor\_Codec: the same
    contract for CBOR, and maps.
  \<^item> Merkle (merkle.js); Merkle\_Proofs: the code's root and proofs against the definitions of RFC 6962, which split at
    the largest power of two below the number of leaves; completeness of both verifiers, and soundness up to a collision of the hash.
  \<^item> Ip\_Text (ip-utils.js); Ip\_Proofs: an address printed and read back.
  \<^item> Rc2 (rc2.js): the block cipher and its CBC mode, with the proof that decryption is exactly the
    inverse of encryption.
  \<^item> Dist\_Names, Host\_Names (guard-name.js): distinguished names, hosts, URIs, mailboxes.
  \<^item> Policy\_Graph (the valid-policy graph of path-validate.js, RFC 9618); Policy\_Invariant,
    Policy\_Steps: what every operation keeps (at most one node per depth and policy, links in both
    directions, the cap); Policy\_Path: a policy in the answer has a policy of every certificate behind it;
    Policy\_Expected: a node expects its own policy of the next certificate, or those it is mapped to.
  \<^item> Path\_Names, Path\_State, Path\_Validate (path-validate.js): name constraints, the state and its
    preparation for the next certificate, the loop and the verdict.  Path\_Steps: what a step that did
    not fail established.  Path\_Sample: a concrete path.  Path\_Keys: the key a certificate hands to the
    next, with the parameters it inherits, and the strength of an RSA key, from the encoding of the key.
    Path\_Claims: what a valid path is.  Path\_Answers: what the result says of revocation, identity and several anchors.
  \<^item> Identity (identity-match.js): references, comparison, the bounded search.  Identity\_Proofs: what a
    reference that was read looks like, and the search against its definition in RFC 9525.
  \<^item> Rfc3339 (rfc3339.js); Rfc3339\_Proofs: exactly the dates of the grammar and the Gregorian calendar are
    accepted, and an instant that is printed is read back.
  \<^item> Json (guard-json.js); Json\_Proofs: the reader always ends, and what it reads is within its limits.
  \<^item> Tuf\_Json (the canonical form of tuf.js); Canonical\_Text, Canonical\_Proofs: two values have one form
    exactly when they are the same document; Canonical\_Read: the JSON reader reads the form back.
  \<^item> Edwards (edwards-point.js); Edwards\_Root: the constant of the code is a square root of minus one,
    by a chain of 246 squarings whose quotients are given; Edwards\_Proofs: a key that decodes is a point of the
    curve and the only spelling of it.
  \<^item> Tuf\_Meta (tuf.js: identifiers, versions, parsing), Tuf (keys, expiry, thresholds), Tuf\_Root (root
    documents and the walk).  Tuf\_Proofs: a threshold is met exactly by distinct keys with valid signatures;
    Tuf\_Chain: an update that returns adopted every candidate, each version one more than the one before
    and signed by both its own keys and those before it; Tuf\_Live: such a chain is always adopted;
    Tuf\_Sample: a trusted root and its successor, on which all three are instantiated.

  \<^bold>\<open>Bounds and fuel.\<close>  The decoders recurse on fuel.  The DER decoder starts with \<open>2 * length + 2\<close>: a level
  of nesting and a turn of a content loop cost one unit each and move forward.  The CBOR decoder starts
  with the depth cap plus two: a level of nesting costs one unit and the depth is refused at the cap.
  Neither ever runs out (\<open>decode_terminates\<close>, \<open>cbor_terminates\<close>).  The JSON reader takes a unit
  for each value, member and element; it starts with \<open>2 * length + 2\<close>, more than a text of that length
  can hold (\<open>json_terminates\<close>).  The walk over root documents ends because each step leaves fewer candidates
  above the version it stands at.  Loops over
  octets and segments are recursions on the rest of the input or on a measure.

  \<^bold>\<open>Parameters.\<close>  What is not under lib/ or is supplied by the caller is an argument: SHA-256 (Merkle), the
  folding of characters beyond ASCII (\<open>v_lc\<close>), the verification of one signature (\<open>v_verify\<close>), the
  revocation checker and the transparency gate of a validation (\<open>env\<close>), the digest, key import, key export and
  signature check that TUF asks of the platform and the instants of dates outside the language's own format
  (\<open>tuf_env\<close>), and the
  decoders of the certificate extensions (\<open>decoders\<close>), which schema-pkix.js builds.

  \<^bold>\<open>Not modelled.\<close>  Options and anchors are records here: the code that reads them out of untyped objects
  and defends against accessors and proxies is not modelled, nor are the captures of built-in functions
  (guard-intrinsic.js), which behave as the functions they capture.  Asynchrony is sequential, as every
  await of the validation loop is.  The schema engine and the message formats over it, linting,
  signing, the protocol clients and the transport are left out; they are tables, primitives of the
  platform, or network code.
\<close>

end
